(* ===== verification/Prelude.thy ===== *)
theory Prelude
  imports Complex_Main
begin

text \<open>
  Shared vocabulary of the development: the outcomes of C++ code (an exception, an
  out-of-range memory access, a stream failure) as an error type, results as a sum, unsigned
  machine arithmetic on \<^typ>\<open>nat\<close> with the wrap-around written out, the vector and
  \<^verbatim>\<open>memmove\<close> primitives the sources use, the little-endian byte codec of the
  file formats, and the list lemmas the component theories share.
\<close>

named_theorems result_simps "evaluation of results and binds"
named_theorems vec_simps "vector accesses inside their bounds"

section \<open>Outcomes\<close>

datatype cxx_error =
    ANNException string       \<comment> \<open>\<^verbatim>\<open>throw diskann::ANNException(msg, -1, ..)\<close>\<close>
  | StdOutOfRange             \<comment> \<open>\<^verbatim>\<open>std::vector::at\<close> out of range\<close>
  | StdInvalidArgument        \<comment> \<open>\<^verbatim>\<open>std::stoul\<close> without digits\<close>
  | IosFailure                \<comment> \<open>a stream with \<^verbatim>\<open>exceptions(badbit | failbit)\<close> failed\<close>
  | UndefinedBehaviour        \<comment> \<open>an access outside the storage of a vector, bitset or buffer\<close>
  | ProcessExit               \<comment> \<open>\<^verbatim>\<open>exit(-1)\<close>\<close>
  | OutOfFuel                 \<comment> \<open>a loop of the model was cut off by its fuel\<close>

type_synonym 'a result = "cxx_error + 'a"

definition bindR :: "'a result \<Rightarrow> ('a \<Rightarrow> 'b result) \<Rightarrow> 'b result" where
  "bindR m f = (case m of Inl e \<Rightarrow> Inl e | Inr x \<Rightarrow> f x)"

lemma bindR_simps [simp, result_simps]:
  "bindR (Inl e) f = Inl e"
  "bindR (Inr x) f = f x"
  by (simp_all add: bindR_def)

lemma bindR_cong [fundef_cong]:
  "m = m' \<Longrightarrow> (\<And>x. m' = Inr x \<Longrightarrow> f x = f' x) \<Longrightarrow> bindR m f = bindR m' f'"
  by (cases m') auto

lemma bindR_eq_Inr: "bindR m f = Inr y \<longleftrightarrow> (\<exists>x. m = Inr x \<and> f x = Inr y)"
  by (cases m) auto

lemma bindR_eq_InrE:
  assumes "bindR m f = Inr y"
  obtains x where "m = Inr x" and "f x = Inr y"
  using assms by (auto simp: bindR_eq_Inr)

lemma bindR_assoc: "bindR (bindR m f) g = bindR m (\<lambda>x. bindR (f x) g)"
  by (cases m) simp_all

definition ok :: "'a result \<Rightarrow> bool" where
  "ok r = (case r of Inl _ \<Rightarrow> False | Inr _ \<Rightarrow> True)"

lemma ok_simps [simp]: "ok (Inr x)" "\<not> ok (Inl e)"
  by (simp_all add: ok_def)

lemma ok_iff: "ok r \<longleftrightarrow> (\<exists>x. r = Inr x)"
  by (cases r) auto

text \<open>A loop over the elements of a vector whose body may fail.\<close>

fun foldR :: "('a \<Rightarrow> 's \<Rightarrow> 's result) \<Rightarrow> 'a list \<Rightarrow> 's \<Rightarrow> 's result" where
  "foldR f [] s = Inr s"
| "foldR f (x # xs) s = bindR (f x s) (foldR f xs)"

lemma foldR_append: "foldR f (xs @ ys) s = bindR (foldR f xs s) (foldR f ys)"
proof (induction xs arbitrary: s)
  case Nil
  then show ?case by simp
next
  case (Cons x xs)
  then show ?case by (cases "f x s") simp_all
qed

lemma foldR_invariant:
  assumes "foldR f xs s = Inr s'" and "P s"
    and "\<And>x s s'. x \<in> set xs \<Longrightarrow> P s \<Longrightarrow> f x s = Inr s' \<Longrightarrow> P s'"
  shows "P s'"
  using assms
proof (induction xs arbitrary: s)
  case Nil
  then show ?case by simp
next
  case (Cons x xs)
  from Cons.prems(1) obtain s1 where s1: "f x s = Inr s1" "foldR f xs s1 = Inr s'"
    by (auto simp: bindR_eq_Inr)
  have "P s1" using Cons.prems(2,3) s1(1) by auto
  show ?case by (rule Cons.IH [OF s1(2) \<open>P s1\<close>]) (use Cons.prems(3) in auto)
qed

lemma foldR_total:
  assumes "P s"
    and "\<And>x s. x \<in> set xs \<Longrightarrow> P s \<Longrightarrow> \<exists>s'. f x s = Inr s' \<and> P s'"
  shows "\<exists>s'. foldR f xs s = Inr s' \<and> P s'"
  using assms
proof (induction xs arbitrary: s)
  case Nil
  then show ?case by simp
next
  case (Cons x xs)
  from Cons.prems obtain s1 where s1: "f x s = Inr s1" "P s1" by auto
  have "\<exists>s'. foldR f xs s1 = Inr s' \<and> P s'"
    by (rule Cons.IH [OF s1(2)]) (use Cons.prems(2) in auto)
  then show ?case using s1 by simp
qed

text \<open>Each step establishes something for its element, and no step undoes it for another.\<close>

lemma foldR_establish:
  assumes "P s"
    and "\<And>x s. x \<in> set xs \<Longrightarrow> P s \<Longrightarrow> \<exists>s'. f x s = Inr s' \<and> P s' \<and> Q x s' \<and> (\<forall>y. Q y s \<longrightarrow> Q y s')"
  shows "\<exists>s'. foldR f xs s = Inr s' \<and> P s' \<and> (\<forall>x \<in> set xs. Q x s') \<and> (\<forall>y. Q y s \<longrightarrow> Q y s')"
  using assms
proof (induction xs arbitrary: s)
  case Nil
  then show ?case by simp
next
  case (Cons x xs)
  from Cons.prems obtain s1 where s1: "f x s = Inr s1" "P s1" "Q x s1" "\<forall>y. Q y s \<longrightarrow> Q y s1" by (metis list.set_intros(1))
  obtain s2 where "foldR f xs s1 = Inr s2" "P s2" "\<forall>x \<in> set xs. Q x s2" "\<forall>y. Q y s1 \<longrightarrow> Q y s2"
    using Cons.IH [OF s1(2)] Cons.prems(2) by (metis list.set_intros(2))
  then show ?case using s1 by auto
qed

text \<open>A loop that computes one value per element, or fails.\<close>

fun mapR :: "('a \<Rightarrow> 'b result) \<Rightarrow> 'a list \<Rightarrow> 'b list result" where
  "mapR f [] = Inr []"
| "mapR f (x # xs) = bindR (f x) (\<lambda>y. bindR (mapR f xs) (\<lambda>ys. Inr (y # ys)))"

lemma mapR_total: "\<forall>x \<in> set xs. f x = Inr (g x) \<Longrightarrow> mapR f xs = Inr (map g xs)"
  by (induction xs) simp_all

lemma mapR_Inr: "mapR f xs = Inr ys \<Longrightarrow> length ys = length xs \<and> (\<forall>i < length xs. f (xs ! i) = Inr (ys ! i))"
proof (induction xs arbitrary: ys)
  case Nil
  then show ?case by simp
next
  case (Cons x xs)
  from Cons.prems obtain y zs where y: "f x = Inr y" "mapR f xs = Inr zs" "ys = y # zs"
    by (auto simp: bindR_eq_Inr)
  from Cons.IH [OF y(2)] have zs: "length zs = length xs" "\<forall>i < length xs. f (xs ! i) = Inr (zs ! i)" by auto
  have "f ((x # xs) ! i) = Inr (ys ! i)" if "i < length (x # xs)" for i
    using zs(2) y(1,3) that by (cases i) simp_all
  then show ?case using zs(1) y(3) by simp
qed

text \<open>A map built by updates at distinct keys.\<close>

lemma fold_upd_inj:
  assumes "inj_on a (set ks)"
  shows "fold (\<lambda>k m. m(a k \<mapsto> b k)) ks m0 t = Some l \<longleftrightarrow> (\<exists>k \<in> set ks. a k = t \<and> b k = l) \<or> (t \<notin> a ` set ks \<and> m0 t = Some l)"
  using assms
proof (induction ks rule: rev_induct)
  case Nil
  then show ?case by simp
next
  case (snoc k ks)
  have inj: "inj_on a (set ks)" using snoc.prems by (simp add: inj_on_insert)
  have eq: "j = k" if "j \<in> set ks" "a j = a k" for j by (rule inj_onD [OF snoc.prems]) (use that in simp_all)
  show ?case
  proof (cases "t = a k")
    case True
    then show ?thesis using eq by auto
  next
    case False
    then show ?thesis using snoc.IH [OF inj] by auto
  qed
qed

lemma foldR_cong: "(\<And>x s. x \<in> set xs \<Longrightarrow> f x s = g x s) \<Longrightarrow> foldR f xs s = foldR g xs s"
proof (induction xs arbitrary: s)
  case (Cons x xs)
  then show ?case by (cases "g x s") simp_all
qed simp

lemma foldR_one: "foldR f [x] = f x"
  by (rule ext) (simp add: bindR_def split: sum.split)

lemma foldR_pure: "\<forall>x \<in> set xs. \<forall>s. f x s = Inr (g x s) \<Longrightarrow> foldR f xs s = Inr (fold g xs s)"
  by (induction xs arbitrary: s) simp_all

section \<open>Unsigned machine arithmetic\<close>

text \<open>
  \<^verbatim>\<open>uint32_t\<close> and \<^verbatim>\<open>size_t\<close> values are natural numbers; where the
  source casts or lets a computation wrap, the reduction is written out with these.
\<close>

definition u32 :: "nat \<Rightarrow> nat" where
  "u32 x = x mod 2 ^ 32"

definition u32_sub :: "nat \<Rightarrow> nat \<Rightarrow> nat" where
  "u32_sub a b = (u32 a + (2 ^ 32 - u32 b)) mod 2 ^ 32"

definition u32_add :: "nat \<Rightarrow> nat \<Rightarrow> nat" where
  "u32_add a b = (a + b) mod 2 ^ 32"

definition UINT32_MAX :: nat where
  "UINT32_MAX = 2 ^ 32 - 1"

lemma u32_less [simp]: "u32 x < 2 ^ 32" "u32 x < 4294967296"
  by (simp_all add: u32_def)

lemma u32_small [simp]: "x < 2 ^ 32 \<Longrightarrow> u32 x = x"
  by (simp add: u32_def)

lemma u32_sub_ge: "b \<le> a \<Longrightarrow> a < 2 ^ 32 \<Longrightarrow> u32_sub a b = a - b"
proof -
  assume "b \<le> a" and "a < 2 ^ 32"
  then have "u32_sub a b = ((a - b) + 2 ^ 32) mod 2 ^ 32" by (simp add: u32_sub_def)
  also have "\<dots> = (a - b) mod 2 ^ 32" by (simp only: mod_add_self2)
  finally show ?thesis using \<open>a < 2 ^ 32\<close> by simp
qed

text \<open>Adding the wrapped difference moves a location by it, in either direction.\<close>

lemma u32_add_sub:
  assumes "old \<le> x" "x < 2 ^ 32" "old < 2 ^ 32" "new < 2 ^ 32" "new + (x - old) < 2 ^ 32"
  shows "u32_add x (u32_sub new old) = new + (x - old)"
proof -
  have "u32_add x (u32_sub new old) = (x + (new + (2 ^ 32 - old))) mod 2 ^ 32"
    using assms by (simp add: u32_add_def u32_sub_def mod_add_right_eq)
  also have "x + (new + (2 ^ 32 - old)) = (new + (x - old)) + 2 ^ 32"
    using assms by simp
  also have "((new + (x - old)) + 2 ^ 32) mod 2 ^ 32 = (new + (x - old)) mod 2 ^ 32"
    by (simp only: mod_add_self2)
  finally show ?thesis using assms by simp
qed

section \<open>Vectors\<close>

text \<open>
  \<^verbatim>\<open>v[i]\<close> on a \<^verbatim>\<open>std::vector\<close> is defined inside its bounds only; the
  model returns the error where the source would read or write foreign memory.
\<close>

definition vec_at :: "'a list \<Rightarrow> nat \<Rightarrow> 'a result" where
  "vec_at xs i = (if i < length xs then Inr (xs ! i) else Inl UndefinedBehaviour)"

definition vec_put :: "'a list \<Rightarrow> nat \<Rightarrow> 'a \<Rightarrow> 'a list result" where
  "vec_put xs i x = (if i < length xs then Inr (xs[i := x]) else Inl UndefinedBehaviour)"

lemma vec_at_in [simp, vec_simps]: "i < length xs \<Longrightarrow> vec_at xs i = Inr (xs ! i)"
  by (simp add: vec_at_def)

lemma vec_at_out: "length xs \<le> i \<Longrightarrow> vec_at xs i = Inl UndefinedBehaviour"
  by (simp add: vec_at_def)

lemma vec_at_eq_Inr: "vec_at xs i = Inr y \<longleftrightarrow> i < length xs \<and> xs ! i = y"
  by (auto simp: vec_at_def)

lemma vec_put_in [simp, vec_simps]: "i < length xs \<Longrightarrow> vec_put xs i x = Inr (xs[i := x])"
  by (simp add: vec_put_def)

lemma vec_put_eq_Inr: "vec_put xs i x = Inr ys \<longleftrightarrow> i < length xs \<and> ys = xs[i := x]"
  by (auto simp: vec_put_def)

text \<open>\<^verbatim>\<open>std::vector::resize\<close>: cut off, or fill with value-initialised elements.\<close>

definition vec_resize :: "'a \<Rightarrow> nat \<Rightarrow> 'a list \<Rightarrow> 'a list" where
  "vec_resize d n xs = take n xs @ replicate (n - length xs) d"

lemma length_vec_resize [simp]: "length (vec_resize d n xs) = n"
  by (simp add: vec_resize_def)

lemma nth_vec_resize:
  "i < n \<Longrightarrow> vec_resize d n xs ! i = (if i < length xs then xs ! i else d)"
  by (auto simp: vec_resize_def nth_append)

lemma vec_resize_same [simp]: "n = length xs \<Longrightarrow> vec_resize d n xs = xs"
  by (simp add: vec_resize_def)

text \<open>\<^verbatim>\<open>memmove(&v[dst], &v[src], n)\<close>, correct for overlapping ranges.\<close>

definition memmove :: "'a list \<Rightarrow> nat \<Rightarrow> nat \<Rightarrow> nat \<Rightarrow> 'a list result" where
  "memmove xs dst src n =
     (if src + n \<le> length xs \<and> dst + n \<le> length xs
      then Inr (take dst xs @ take n (drop src xs) @ drop (dst + n) xs)
      else Inl UndefinedBehaviour)"

lemma memmove_length: "memmove xs dst src n = Inr ys \<Longrightarrow> length ys = length xs"
  by (auto simp: memmove_def split: if_splits)

lemma memmove_nth:
  assumes "memmove xs dst src n = Inr ys" "i < length xs"
  shows "ys ! i = (if dst \<le> i \<and> i < dst + n then xs ! (src + (i - dst)) else xs ! i)"
proof -
  from assms(1) have b: "src + n \<le> length xs" "dst + n \<le> length xs"
    and ys: "ys = take dst xs @ take n (drop src xs) @ drop (dst + n) xs"
    by (auto simp: memmove_def split: if_splits)
  have l: "length (take dst xs) = dst" "length (take n (drop src xs)) = n" using b by auto
  show ?thesis using b assms(2) unfolding ys nth_append l by auto
qed

section \<open>Little-endian bytes\<close>

text \<open>A byte is a number below 256; a \<open>w\<close>-byte unsigned value is stored low byte first.\<close>

type_synonym byte = nat

fun le_bytes :: "nat \<Rightarrow> nat \<Rightarrow> byte list" where
  "le_bytes 0 v = []"
| "le_bytes (Suc w) v = (v mod 256) # le_bytes w (v div 256)"

fun le_value :: "byte list \<Rightarrow> nat" where
  "le_value [] = 0"
| "le_value (b # bs) = b + 256 * le_value bs"

lemma length_le_bytes [simp]: "length (le_bytes w v) = w"
  by (induction w arbitrary: v) simp_all

lemma le_value_bytes [simp]: "v < 256 ^ w \<Longrightarrow> le_value (le_bytes w v) = v"
proof (induction w arbitrary: v)
  case 0
  then show ?case by simp
next
  case (Suc w)
  then have "v div 256 < 256 ^ w" by (simp add: less_mult_imp_div_less mult.commute)
  then show ?case using Suc.IH by simp
qed

lemma le_bytes_range: "b \<in> set (le_bytes w v) \<Longrightarrow> b < 256"
  by (induction w arbitrary: v) auto

lemma le_value_bound: "\<forall>b \<in> set bs. b < 256 \<Longrightarrow> le_value bs < 256 ^ length bs"
proof (induction bs)
  case Nil
  then show ?case by simp
next
  case (Cons b bs)
  then have "b < 256" and "le_value bs < 256 ^ length bs" by auto
  then show ?case by simp
qed

lemma le_bytes_value:
  "\<forall>b \<in> set bs. b < 256 \<Longrightarrow> le_bytes (length bs) (le_value bs) = bs"
  by (induction bs) auto

lemma le_bytes_mod: "le_value (le_bytes w v) = v mod 256 ^ w"
proof (induction w arbitrary: v)
  case 0
  then show ?case by simp
next
  case (Suc w)
  have "v mod 256 ^ Suc w = v mod 256 + 256 * (v div 256 mod 256 ^ w)"
    by (simp add: mod_mult2_eq mult.commute)
  then show ?case using Suc.IH by simp
qed

section \<open>Binary streams\<close>

text \<open>
  An input stream with exceptions enabled is the list of its unread bytes; a short read throws.
  \<open>overwrite\<close> is a write after \<^verbatim>\<open>seekp\<close> into a file already that long.
\<close>

definition read_bytes :: "nat \<Rightarrow> byte list \<Rightarrow> (byte list \<times> byte list) result" where
  "read_bytes n bs = (if n \<le> length bs then Inr (take n bs, drop n bs) else Inl IosFailure)"

definition read_uint :: "nat \<Rightarrow> byte list \<Rightarrow> (nat \<times> byte list) result" where
  "read_uint w bs = bindR (read_bytes w bs) (\<lambda>(b, rest). Inr (le_value b, rest))"

fun le_words :: "nat \<Rightarrow> nat \<Rightarrow> byte list \<Rightarrow> nat list" where
  "le_words w 0 bs = []"
| "le_words w (Suc k) bs = le_value (take w bs) # le_words w k (drop w bs)"

definition read_uints :: "nat \<Rightarrow> nat \<Rightarrow> byte list \<Rightarrow> (nat list \<times> byte list) result" where
  "read_uints w k bs = bindR (read_bytes (k * w) bs) (\<lambda>(b, rest). Inr (le_words w k b, rest))"

definition le_array :: "nat \<Rightarrow> nat list \<Rightarrow> byte list" where
  "le_array w xs = concat (map (le_bytes w) xs)"

definition overwrite :: "nat \<Rightarrow> byte list \<Rightarrow> byte list \<Rightarrow> byte list" where
  "overwrite pos new file = take pos file @ new @ drop (pos + length new) file"

lemma read_bytes_append [simp]: "n = length a \<Longrightarrow> read_bytes n (a @ b) = Inr (a, b)"
  by (simp add: read_bytes_def)

lemma read_uint_append [simp]: "v < 256 ^ w \<Longrightarrow> read_uint w (le_bytes w v @ rest) = Inr (v, rest)"
  by (simp add: read_uint_def)

lemma length_le_array [simp]: "length (le_array w xs) = length xs * w"
  by (induction xs) (simp_all add: le_array_def)

lemma le_array_simps [simp]: "le_array w [] = []" "le_array w (x # xs) = le_bytes w x @ le_array w xs"
  by (simp_all add: le_array_def)

lemma le_array_append: "le_array w (xs @ ys) = le_array w xs @ le_array w ys"
  by (simp add: le_array_def)

lemma le_words_array: "\<forall>x \<in> set xs. x < 256 ^ w \<Longrightarrow> le_words w (length xs) (le_array w xs) = xs"
  by (induction xs) auto

lemma length_le_words [simp]: "length (le_words w k bs) = k"
  by (induction k arbitrary: bs) simp_all

lemma read_uints_append [simp]:
  assumes "\<forall>x \<in> set xs. x < 256 ^ w" "k = length xs"
  shows "read_uints w k (le_array w xs @ rest) = Inr (xs, rest)"
  using assms by (simp add: read_uints_def le_words_array)

lemma read_uint_length: "read_uint w bs = Inr (v, rest) \<Longrightarrow> length bs = w + length rest"
  by (auto simp: read_uint_def read_bytes_def split: if_splits)

lemma read_uints_length: "read_uints w k bs = Inr (xs, rest) \<Longrightarrow> length bs = k * w + length rest \<and> length xs = k"
  by (auto simp: read_uints_def read_bytes_def split: if_splits)

section \<open>Lists\<close>

lemma sorted_wrt_take: "sorted_wrt P xs \<Longrightarrow> sorted_wrt P (take n xs)"
  by (metis append_take_drop_id sorted_wrt_append)

lemma sorted_wrt_drop: "sorted_wrt P xs \<Longrightarrow> sorted_wrt P (drop n xs)"
  by (metis append_take_drop_id sorted_wrt_append)

lemma distinct_map_take: "distinct (map f xs) \<Longrightarrow> distinct (map f (take n xs))"
  by (metis distinct_take take_map)

lemma concat_map_length: "\<forall>x \<in> set xs. length (f x) = w \<Longrightarrow> length (concat (map f xs)) = length xs * w"
  by (induction xs) simp_all

lemma concat_nth_chunk:
  "(\<forall>x \<in> set xs. length x = w) \<Longrightarrow> k < length xs \<Longrightarrow> take w (drop (k * w) (concat xs)) = xs ! k"
proof (induction xs arbitrary: k)
  case (Cons x xs)
  then show ?case by (cases k) simp_all
qed simp

text \<open>A loop that rewrites the entries of a prefix one by one.\<close>

lemma foldR_prefix:
  assumes "\<forall>i < n. \<forall>ys. length ys = length xs \<longrightarrow> f i ys = Inr (ys[i := g i (ys ! i)])" "n \<le> length xs"
  shows "foldR f [0..<n] xs = Inr (map (\<lambda>i. g i (xs ! i)) [0..<n] @ drop n xs)"
  using assms
proof (induction n)
  case (Suc n)
  then have IH: "foldR f [0..<n] xs = Inr (map (\<lambda>i. g i (xs ! i)) [0..<n] @ drop n xs)" by simp
  have n: "n < length xs" using Suc.prems(2) by simp
  have "f n (map (\<lambda>i. g i (xs ! i)) [0..<n] @ drop n xs) = Inr ((map (\<lambda>i. g i (xs ! i)) [0..<n] @ drop n xs)[n := g n (xs ! n)])"
    using Suc.prems n by (simp add: nth_append)
  then show ?case using IH n by (simp add: foldR_append foldR_one list_update_append Cons_nth_drop_Suc [symmetric])
qed simp

end
