(* ===== verification/Floats.thy ===== *)
theory Floats
  imports Prelude "HOL-Library.Log_Nat"
begin

text \<open>
  The \<^verbatim>\<open>float\<close> and \<^verbatim>\<open>double\<close> values of the sources: finite values
  are exact rationals, every arithmetic operation computes the exact result and rounds it to
  the format (round to nearest, ties to even, gradual underflow, overflow to infinity), as
  IEEE 754 prescribes. Comparisons with NaN are false. The two zeros are identified: no code
  modelled here divides by a zero whose sign could matter.
\<close>

section \<open>Values and their order\<close>

datatype fl = NInf | Fin rat | PInf | NaN

text \<open>
  A total order on all values with NaN on top; the IEEE comparisons below agree with it away
  from NaN, so the order library applies to sorted distances.
\<close>

instantiation fl :: linorder
begin

fun less_eq_fl :: "fl \<Rightarrow> fl \<Rightarrow> bool" where
  "less_eq_fl NInf y = True"
| "less_eq_fl (Fin a) y = (case y of NInf \<Rightarrow> False | Fin b \<Rightarrow> a \<le> b | PInf \<Rightarrow> True | NaN \<Rightarrow> True)"
| "less_eq_fl PInf y = (y = PInf \<or> y = NaN)"
| "less_eq_fl NaN y = (y = NaN)"

definition less_fl :: "fl \<Rightarrow> fl \<Rightarrow> bool" where
  "less_fl x y \<longleftrightarrow> x \<le> y \<and> \<not> y \<le> (x::fl)"

instance
proof
  fix x y z :: fl
  show "x < y \<longleftrightarrow> x \<le> y \<and> \<not> y \<le> x" by (rule less_fl_def)
  show "x \<le> x" by (cases x) simp_all
  show "x \<le> y \<Longrightarrow> y \<le> z \<Longrightarrow> x \<le> z" by (cases x; cases y; cases z) simp_all
  show "x \<le> y \<Longrightarrow> y \<le> x \<Longrightarrow> x = y" by (cases x; cases y) simp_all
  show "x \<le> y \<or> y \<le> x" by (cases x; cases y) auto
qed

end

lemma fl_less_simps [simp]:
  "(Fin a < Fin b) = (a < b)" "Fin a < PInf" "NInf < Fin a" "\<not> PInf < Fin a" "\<not> Fin a < NInf"
  "Fin a < NaN" "PInf < NaN" "NInf < NaN" "NInf < PInf" "\<not> PInf < NInf" "\<not> x < NInf" "\<not> NaN < x"
  by (auto simp: less_fl_def; cases x; simp)+

definition fl_lt :: "fl \<Rightarrow> fl \<Rightarrow> bool" where
  "fl_lt x y \<longleftrightarrow> x \<noteq> NaN \<and> y \<noteq> NaN \<and> x < y"

definition fl_le :: "fl \<Rightarrow> fl \<Rightarrow> bool" where
  "fl_le x y \<longleftrightarrow> x \<noteq> NaN \<and> y \<noteq> NaN \<and> x \<le> y"

definition fl_eq :: "fl \<Rightarrow> fl \<Rightarrow> bool" where
  "fl_eq x y \<longleftrightarrow> x \<noteq> NaN \<and> x = y"

text \<open>\<^verbatim>\<open>std::max(a, b)\<close> is \<^verbatim>\<open>(a < b) ? b : a\<close>.\<close>

definition fl_max :: "fl \<Rightarrow> fl \<Rightarrow> fl" where
  "fl_max a b = (if fl_lt a b then b else a)"

lemma fl_compare [simp]:
  "x \<noteq> NaN \<Longrightarrow> y \<noteq> NaN \<Longrightarrow> fl_lt x y = (x < y)"
  "x \<noteq> NaN \<Longrightarrow> y \<noteq> NaN \<Longrightarrow> fl_le x y = (x \<le> y)"
  "x \<noteq> NaN \<Longrightarrow> fl_eq x y = (x = y)"
  by (simp_all add: fl_lt_def fl_le_def fl_eq_def)

lemma fl_max_not_NaN: "a \<noteq> NaN \<Longrightarrow> fl_max a b \<noteq> NaN"
  by (simp add: fl_max_def fl_lt_def)

lemma fl_max_ge: "a \<noteq> NaN \<Longrightarrow> b \<noteq> NaN \<Longrightarrow> a \<le> fl_max a b \<and> b \<le> fl_max a b"
  by (auto simp: fl_max_def)

section \<open>Rounding\<close>

datatype fmt = F32 | F64

fun prec :: "fmt \<Rightarrow> int" where
  "prec F32 = 24" | "prec F64 = 53"

fun emax :: "fmt \<Rightarrow> int" where
  "emax F32 = 127" | "emax F64 = 1023"

definition emin :: "fmt \<Rightarrow> int" where
  "emin f = 1 - emax f"

lemma prec_bounds: "24 \<le> prec f"
  by (cases f) simp_all

text \<open>The exponent of a positive rational: the largest \<open>k\<close> with \<open>2 powi k \<le> q\<close>.\<close>

definition ilog2 :: "rat \<Rightarrow> int" where
  "ilog2 q = (case quotient_of q of (n, d) \<Rightarrow>
     let k = int (floorlog 2 (nat n)) - int (floorlog 2 (nat d))
     in if of_int d * 2 powi k \<le> (of_int n :: rat) then k else k - 1)"

lemma floorlog_powi:
  assumes "0 < (n::int)"
  shows "(2::rat) powi (int (floorlog 2 (nat n)) - 1) \<le> of_int n"
    and "(of_int n :: rat) < 2 powi int (floorlog 2 (nat n))"
proof -
  let ?a = "floorlog 2 (nat n)"
  have pos: "0 < nat n" using assms by simp
  have b: "2 ^ (?a - 1) \<le> nat n" "nat n < 2 ^ ?a"
    using floorlog_bounds [of "nat n" 2] pos by auto
  have a1: "?a \<noteq> 0" using b assms by (cases "?a = 0") auto
  have "of_nat (2 ^ (?a - 1)) \<le> (of_nat (nat n) :: rat)" using b(1) by (simp only: of_nat_le_iff)
  then have "(2::rat) ^ (?a - 1) \<le> of_int n" using assms by simp
  moreover have "int ?a - 1 = int (?a - 1)" using a1 by simp
  ultimately show "(2::rat) powi (int ?a - 1) \<le> of_int n" by (simp only: power_int_of_nat)
  have "of_nat (nat n) < (of_nat (2 ^ ?a) :: rat)" using b(2) by (simp only: of_nat_less_iff)
  then show "(of_int n :: rat) < 2 powi int ?a" using assms by simp
qed

lemma ilog2_bounds:
  assumes "0 < q"
  shows "2 powi (ilog2 q) \<le> q" and "q < 2 powi (ilog2 q + 1)"
proof -
  obtain n d where nd: "quotient_of q = (n, d)" by (cases "quotient_of q")
  have d: "0 < d" using quotient_of_denom_pos nd by blast
  have q: "q = of_int n / of_int d" using quotient_of_div nd by blast
  have n: "0 < n" using assms d unfolding q by (simp add: zero_less_divide_iff)
  define a where "a = int (floorlog 2 (nat n))"
  define b where "b = int (floorlog 2 (nat d))"
  have an: "(2::rat) powi (a - 1) \<le> of_int n" "(of_int n :: rat) < 2 powi a"
    using floorlog_powi [OF n] by (simp_all add: a_def)
  have bd: "(2::rat) powi (b - 1) \<le> of_int d" "(of_int d :: rat) < 2 powi b"
    using floorlog_powi [OF d] by (simp_all add: b_def)
  have il: "ilog2 q = (if of_int d * 2 powi (a - b) \<le> (of_int n :: rat) then a - b else a - b - 1)"
    by (simp add: ilog2_def nd Let_def a_def b_def)
  have dpos: "(0::rat) < of_int d" using d by simp
  have qd: "q * of_int d = of_int n" using dpos by (simp add: q)
  have up: "q < 2 powi (a - b + 1)"
  proof -
    have "(2::rat) powi a = 2 powi (a - b + 1) * 2 powi (b - 1)"
      by (simp flip: power_int_add)
    also have "\<dots> \<le> 2 powi (a - b + 1) * of_int d" using bd(1) by simp
    finally have "q * of_int d < 2 powi (a - b + 1) * of_int d" using an(2) qd by linarith
    then show ?thesis using dpos by simp
  qed
  have lo: "2 powi (a - b - 1) \<le> q"
  proof -
    have "2 powi (a - b - 1) * of_int d \<le> 2 powi (a - b - 1) * (2::rat) powi b" using bd(2) by simp
    also have "\<dots> = 2 powi (a - 1)" by (simp flip: power_int_add add: algebra_simps)
    finally have "2 powi (a - b - 1) * of_int d \<le> q * of_int d" using an(1) qd by linarith
    then show ?thesis using dpos by simp
  qed
  have "2 powi (ilog2 q) \<le> q \<and> q < 2 powi (ilog2 q + 1)"
  proof (cases "of_int d * 2 powi (a - b) \<le> (of_int n :: rat)")
    case True
    then have "2 powi (a - b) * of_int d \<le> q * of_int d" using qd by (simp add: mult.commute)
    then have "2 powi (a - b) \<le> q" using dpos by simp
    then show ?thesis using True up by (simp add: il)
  next
    case False
    then have "q * of_int d < 2 powi (a - b) * of_int d" using qd by (simp add: mult.commute)
    then have "q < 2 powi (a - b)" using dpos by simp
    then show ?thesis using False lo by (simp add: il)
  qed
  then show "2 powi (ilog2 q) \<le> q" and "q < 2 powi (ilog2 q + 1)" by simp_all
qed

definition round_even :: "rat \<Rightarrow> int" where
  "round_even x =
     (let n = \<lfloor>x\<rfloor>; d = x - of_int n
      in if d < 1/2 then n else if 1/2 < d then n + 1 else if even n then n else n + 1)"

lemma round_even_error: "\<bar>of_int (round_even x) - x\<bar> \<le> 1/2"
proof -
  have "of_int \<lfloor>x\<rfloor> \<le> x" "x < of_int \<lfloor>x\<rfloor> + 1" by linarith+
  then show ?thesis by (auto simp: round_even_def Let_def abs_le_iff)
qed

lemma round_even_of_int [simp]: "round_even (of_int n) = n"
  by (simp add: round_even_def)

lemma round_even_mono: "x \<le> y \<Longrightarrow> round_even x \<le> round_even y"
proof -
  assume le: "x \<le> y"
  then have fl: "\<lfloor>x\<rfloor> \<le> \<lfloor>y\<rfloor>" by (rule floor_mono)
  show ?thesis
  proof (cases "\<lfloor>x\<rfloor> = \<lfloor>y\<rfloor>")
    case True
    then show ?thesis using le by (auto simp: round_even_def Let_def)
  next
    case False
    then have "\<lfloor>x\<rfloor> + 1 \<le> \<lfloor>y\<rfloor>" using fl by simp
    then show ?thesis by (auto simp: round_even_def Let_def)
  qed
qed

lemma round_even_0 [simp]: "round_even 0 = 0"
  using round_even_of_int [of 0] by simp

lemma round_even_nonneg: "0 \<le> x \<Longrightarrow> 0 \<le> round_even x"
  using round_even_mono [of 0 x] round_even_of_int [of 0] by simp

definition ulp :: "fmt \<Rightarrow> rat \<Rightarrow> rat" where
  "ulp f a = 2 powi (max (ilog2 a) (emin f) - prec f + 1)"

definition round_mag :: "fmt \<Rightarrow> rat \<Rightarrow> rat" where
  "round_mag f a = of_int (round_even (a / ulp f a)) * ulp f a"

definition round_fl :: "fmt \<Rightarrow> rat \<Rightarrow> fl" where
  "round_fl f q =
     (if q = 0 then Fin 0
      else let r = round_mag f \<bar>q\<bar>
           in if 2 powi (emax f + 1) \<le> r then (if 0 < q then PInf else NInf)
              else Fin (if 0 < q then r else - r))"

lemma ulp_pos [simp]: "0 < ulp f a"
  by (simp add: ulp_def)

lemma ulp_nonzero [simp]: "ulp f a \<noteq> 0"
  using ulp_pos [of f a] by (metis less_irrefl)

lemma ulp_nonneg [simp]: "0 \<le> ulp f a"
  using ulp_pos [of f a] by (rule less_imp_le)

lemma round_mag_error: "\<bar>round_mag f a - a\<bar> \<le> ulp f a / 2"
proof -
  have "round_mag f a - a = (of_int (round_even (a / ulp f a)) - a / ulp f a) * ulp f a"
    by (simp add: round_mag_def left_diff_distrib)
  then have "\<bar>round_mag f a - a\<bar> = \<bar>of_int (round_even (a / ulp f a)) - a / ulp f a\<bar> * ulp f a"
    using ulp_pos [of f a] by (simp add: abs_mult)
  also have "\<dots> \<le> 1/2 * ulp f a"
    using round_even_error [of "a / ulp f a"] ulp_pos [of f a] by (intro mult_right_mono) auto
  finally show ?thesis by simp
qed

lemma round_mag_nonneg: "0 \<le> a \<Longrightarrow> 0 \<le> round_mag f a"
  by (simp add: round_mag_def round_even_nonneg)

text \<open>In the normal range a rounding error is at most \<open>2 powi (- 24)\<close> of the value.\<close>

lemma ulp_normal:
  assumes "1 \<le> a"
  shows "ulp f a \<le> a * 2 powi (- 23)"
proof -
  have pos: "0 < a" using assms by simp
  have "0 \<le> ilog2 a"
  proof (rule ccontr)
    assume "\<not> 0 \<le> ilog2 a"
    then have "(2::rat) powi (ilog2 a + 1) \<le> 2 powi 0" by (intro power_int_increasing) auto
    then show False using ilog2_bounds(2) [OF pos] assms by simp
  qed
  then have "max (ilog2 a) (emin f) = ilog2 a" by (cases f) (simp_all add: emin_def)
  then have "ulp f a = 2 powi (ilog2 a - prec f + 1)" by (simp add: ulp_def)
  also have "\<dots> \<le> 2 powi (ilog2 a + (- 23))"
    using prec_bounds [of f] by (intro power_int_increasing) auto
  also have "\<dots> = 2 powi ilog2 a * 2 powi (- 23)" by (rule power_int_add) simp
  also have "\<dots> \<le> a * 2 powi (- 23)"
    by (rule mult_right_mono [OF ilog2_bounds(1) [OF pos]]) simp
  finally show ?thesis .
qed

lemma round_mag_close:
  assumes "1 \<le> a"
  shows "round_mag f a \<ge> a * (1 - 2 powi (- 24))" and "round_mag f a \<le> a * (1 + 2 powi (- 24))"
proof -
  have "ulp f a / 2 \<le> a * 2 powi (- 23) / 2"
    by (rule divide_right_mono [OF ulp_normal [OF assms]]) simp
  also have "\<dots> = a * 2 powi (- 24)" by (simp add: power_int_def power_divide)
  finally have "\<bar>round_mag f a - a\<bar> \<le> a * 2 powi (- 24)" using round_mag_error order_trans by blast
  then show "round_mag f a \<ge> a * (1 - 2 powi (- 24))" "round_mag f a \<le> a * (1 + 2 powi (- 24))"
    unfolding distrib_left right_diff_distrib by linarith+
qed

lemma round_fl_not_NaN [simp]: "round_fl f q \<noteq> NaN"
  by (simp add: round_fl_def Let_def)

lemma round_fl_0 [simp]: "round_fl f 0 = Fin 0"
  by (simp add: round_fl_def)

lemma round_fl_nonneg: "0 \<le> q \<Longrightarrow> Fin 0 \<le> round_fl f q"
  using round_mag_nonneg [of q f] by (auto simp: round_fl_def Let_def)

lemma round_fl_close:
  assumes "1 \<le> q" and "round_fl f q = Fin r"
  shows "r \<ge> q * (1 - 2 powi (- 24))" and "r \<le> q * (1 + 2 powi (- 24))"
  using round_mag_close [OF assms(1), of f] assms by (auto simp: round_fl_def Let_def split: if_splits)

text \<open>Rounding is monotone.\<close>

definition rexp :: "fmt \<Rightarrow> rat \<Rightarrow> int" where
  "rexp f a = max (ilog2 a) (emin f)"

lemma ulp_rexp: "ulp f a = 2 powi (rexp f a - prec f + 1)"
  by (simp add: ulp_def rexp_def)

lemma ilog2_mono:
  assumes "0 < a" "a \<le> b"
  shows "ilog2 a \<le> ilog2 b"
proof (rule ccontr)
  assume "\<not> ilog2 a \<le> ilog2 b"
  then have "(2::rat) powi (ilog2 b + 1) \<le> 2 powi ilog2 a" by (intro power_int_increasing) auto
  then show False using ilog2_bounds(1) [OF assms(1)] ilog2_bounds(2) [of b] assms by linarith
qed

lemma round_even_powi: "0 \<le> k \<Longrightarrow> of_int (round_even (2 powi k)) = (2::rat) powi k"
proof -
  assume "0 \<le> k"
  then obtain n where "k = int n" using nonneg_int_cases by blast
  then have "(2::rat) powi k = of_int (2 ^ n)" by simp
  then show ?thesis by (simp only: round_even_of_int)
qed

lemma round_mag_mono:
  assumes "0 < a" "a \<le> b"
  shows "round_mag f a \<le> round_mag f b"
proof (cases "rexp f a = rexp f b")
  case True
  then have "ulp f a = ulp f b" by (simp add: ulp_rexp)
  moreover have "a / ulp f b \<le> b / ulp f b" using assms(2) by (intro divide_right_mono) simp_all
  ultimately show ?thesis using round_even_mono by (auto simp: round_mag_def intro!: mult_right_mono)
next
  case False
  then have lt: "rexp f a < rexp f b" using ilog2_mono [OF assms] by (auto simp: rexp_def)
  then have eb: "rexp f b = ilog2 b" by (auto simp: rexp_def)
  let ?M = "(2::rat) powi rexp f b"
  have bM: "?M \<le> b" using ilog2_bounds(1) [of b] assms eb by simp
  have "a < 2 powi (ilog2 a + 1)" using ilog2_bounds(2) assms(1) by blast
  also have "\<dots> \<le> ?M" using lt by (intro power_int_increasing) (auto simp: rexp_def)
  finally have aM: "a \<le> ?M" by simp
  have div: "?M / ulp f x = 2 powi (rexp f b - rexp f x + prec f - 1)" for x
    by (simp add: ulp_rexp flip: power_int_diff) (simp add: algebra_simps)
  have int: "of_int (round_even (?M / ulp f x)) = ?M / ulp f x" if "rexp f x \<le> rexp f b" for x
    unfolding div by (rule round_even_powi) (use that prec_bounds [of f] in simp)
  have "of_int (round_even (a / ulp f a)) \<le> (of_int (round_even (?M / ulp f a)) :: rat)"
    using aM by (intro of_int_le_iff [THEN iffD2] round_even_mono divide_right_mono) simp_all
  then have "round_mag f a \<le> (?M / ulp f a) * ulp f a"
    unfolding round_mag_def using int [of a] lt by (intro mult_right_mono) simp_all
  moreover have "(of_int (round_even (?M / ulp f b)) :: rat) \<le> of_int (round_even (b / ulp f b))"
    using bM by (intro of_int_le_iff [THEN iffD2] round_even_mono divide_right_mono) simp_all
  then have "(?M / ulp f b) * ulp f b \<le> round_mag f b"
    unfolding round_mag_def using int [of b] by (intro mult_right_mono) simp_all
  ultimately show ?thesis by simp
qed

text \<open>A result of rounding is on the grid of its format, and rounding it again keeps it.\<close>

lemma round_mag_exact:
  assumes "r = of_int k * 2 powi m" "rexp f r - prec f + 1 \<le> m"
  shows "round_mag f r = r"
proof -
  let ?u = "rexp f r - prec f + 1"
  obtain n where n: "m - ?u = int n" using assms(2) nonneg_int_cases [of "m - ?u"] by auto
  have "r / ulp f r = of_int k * (2 powi m / 2 powi ?u)" unfolding ulp_rexp by (subst (1) assms(1)) simp
  also have "2 powi m / (2::rat) powi ?u = 2 powi (m - ?u)" by (simp add: power_int_diff)
  also have "\<dots> = of_int (2 ^ n)" by (simp add: n)
  finally have "r / ulp f r = of_int (k * 2 ^ n)" by simp
  then have "of_int (round_even (r / ulp f r)) = r / ulp f r" by (simp only: round_even_of_int)
  then show ?thesis by (simp add: round_mag_def)
qed

lemma round_mag_grid:
  assumes "0 < a" "0 < round_mag f a"
  shows "\<exists>k m. round_mag f a = of_int k * 2 powi m \<and> emin f - prec f + 1 \<le> m
     \<and> ilog2 (round_mag f a) - prec f + 1 \<le> m"
proof -
  let ?E = "rexp f a" and ?r = "round_mag f a"
  let ?m = "?E - prec f + 1"
  have E: "ilog2 a \<le> ?E" "emin f \<le> ?E" by (simp_all add: rexp_def)
  have "a < 2 powi (ilog2 a + 1)" using ilog2_bounds(2) assms(1) by blast
  also have "\<dots> \<le> 2 powi (?E + 1)" using E by (intro power_int_increasing) auto
  finally have a: "a \<le> 2 powi (?E + 1)" by simp
  have q: "2 powi (?E + 1) / ulp f a = 2 powi (prec f)"
    by (simp add: ulp_rexp flip: power_int_diff)
  have "round_even (a / ulp f a) \<le> round_even (2 powi (prec f))"
    unfolding q [symmetric] by (intro round_even_mono divide_right_mono a) simp
  then have "(of_int (round_even (a / ulp f a)) :: rat) \<le> 2 powi (prec f)"
    using round_even_powi [of "prec f"] prec_bounds [of f] by (metis of_int_le_iff order_trans zero_le_numeral)
  then have "?r \<le> 2 powi (prec f) * ulp f a" unfolding round_mag_def by (intro mult_right_mono) simp_all
  also have "\<dots> = 2 powi (?E + 1)" by (simp add: q [symmetric])
  finally have rE: "?r \<le> 2 powi (?E + 1)" .
  show ?thesis
  proof (cases "?r = 2 powi (?E + 1)")
    case True
    have "ilog2 ?r \<le> ?E + 1"
    proof (rule ccontr)
      assume "\<not> ilog2 ?r \<le> ?E + 1"
      then have "(2::rat) powi (?E + 1) < 2 powi ilog2 ?r" by (intro power_int_strict_increasing) auto
      then show False using ilog2_bounds(1) [OF assms(2)] True by simp
    qed
    then have "?r = of_int 1 * 2 powi (?E + 1) \<and> emin f - prec f + 1 \<le> ?E + 1 \<and> ilog2 ?r - prec f + 1 \<le> ?E + 1"
      using True E prec_bounds [of f] by simp
    then show ?thesis by blast
  next
    case False
    then have "?r < 2 powi (?E + 1)" using rE by simp
    have "ilog2 ?r \<le> ?E"
    proof (rule ccontr)
      assume "\<not> ilog2 ?r \<le> ?E"
      then have "(2::rat) powi (?E + 1) \<le> 2 powi ilog2 ?r" by (intro power_int_increasing) auto
      then show False using ilog2_bounds(1) [OF assms(2)] \<open>?r < 2 powi (?E + 1)\<close> by simp
    qed
    then have "emin f - prec f + 1 \<le> ?m \<and> ilog2 ?r - prec f + 1 \<le> ?m" using E by simp
    moreover have "?r = of_int (round_even (a / ulp f a)) * 2 powi ?m"
      unfolding round_mag_def by (subst (2) ulp_rexp) simp
    ultimately show ?thesis by blast
  qed
qed

lemma round_mag_widen:
  assumes "0 \<le> a" "prec f \<le> prec g" "emax f \<le> emax g"
  shows "round_mag g (round_mag f a) = round_mag f a"
proof (cases "0 < round_mag f a")
  case False
  then have "round_mag f a = 0" using round_mag_nonneg [OF assms(1), of f] by simp
  then show ?thesis by (simp add: round_mag_def)
next
  case True
  then have "0 < a" using assms(1) by (cases "a = 0") (simp_all add: round_mag_def)
  then obtain k m where km: "round_mag f a = of_int k * 2 powi m" "emin f - prec f + 1 \<le> m"
      "ilog2 (round_mag f a) - prec f + 1 \<le> m" using round_mag_grid True by blast
  have "rexp g (round_mag f a) - prec g + 1 \<le> m"
    using km(2,3) assms(2,3) by (auto simp: rexp_def emin_def)
  then show ?thesis using round_mag_exact [OF km(1)] by simp
qed

lemma round_fl_mono:
  assumes "a \<le> b"
  shows "round_fl f a \<le> round_fl f b"
proof -
  consider "0 < a" | "b < 0" | "a \<le> 0" "0 \<le> b" by linarith
  then show ?thesis
  proof cases
    case 1
    have "round_mag f a \<le> round_mag f b" by (rule round_mag_mono [OF 1 assms])
    then show ?thesis using 1 assms by (auto simp: round_fl_def Let_def)
  next
    case 2
    have "round_mag f (- b) \<le> round_mag f (- a)" by (rule round_mag_mono) (use 2 assms in simp_all)
    then show ?thesis using 2 assms by (auto simp: round_fl_def Let_def)
  next
    case 3
    have "round_fl f a \<le> Fin 0" using 3(1) round_mag_nonneg [of "- a" f] by (auto simp: round_fl_def Let_def)
    moreover have "Fin 0 \<le> round_fl f b" by (rule round_fl_nonneg [OF 3(2)])
    ultimately show ?thesis by (rule order_trans)
  qed
qed

section \<open>Arithmetic\<close>

text \<open>The sign of a value, for the rules about infinities.\<close>

fun fl_sgn :: "fl \<Rightarrow> rat" where
  "fl_sgn NInf = -1" | "fl_sgn (Fin a) = sgn a" | "fl_sgn PInf = 1" | "fl_sgn NaN = 0"

definition inf_of :: "rat \<Rightarrow> fl" where
  "inf_of s = (if 0 < s then PInf else if s < 0 then NInf else NaN)"

fun fl_neg :: "fl \<Rightarrow> fl" where
  "fl_neg NInf = PInf" | "fl_neg (Fin a) = Fin (- a)" | "fl_neg PInf = NInf" | "fl_neg NaN = NaN"

fun fl_add :: "fmt \<Rightarrow> fl \<Rightarrow> fl \<Rightarrow> fl" where
  "fl_add f (Fin a) (Fin b) = round_fl f (a + b)"
| "fl_add f NaN y = NaN"
| "fl_add f x NaN = NaN"
| "fl_add f (Fin a) y = y"
| "fl_add f x (Fin b) = x"
| "fl_add f x y = (if x = y then x else NaN)"

definition fl_sub :: "fmt \<Rightarrow> fl \<Rightarrow> fl \<Rightarrow> fl" where
  "fl_sub f x y = fl_add f x (fl_neg y)"

fun fl_mul :: "fmt \<Rightarrow> fl \<Rightarrow> fl \<Rightarrow> fl" where
  "fl_mul f (Fin a) (Fin b) = round_fl f (a * b)"
| "fl_mul f NaN y = NaN"
| "fl_mul f x NaN = NaN"
| "fl_mul f x y = inf_of (fl_sgn x * fl_sgn y)"

fun fl_div :: "fmt \<Rightarrow> fl \<Rightarrow> fl \<Rightarrow> fl" where
  "fl_div f (Fin a) (Fin b) = (if b = 0 then inf_of (sgn a) else round_fl f (a / b))"
| "fl_div f NaN y = NaN"
| "fl_div f x NaN = NaN"
| "fl_div f (Fin a) y = Fin 0"
| "fl_div f x (Fin b) = inf_of (fl_sgn x * (if b < 0 then -1 else 1))"
| "fl_div f x y = NaN"

text \<open>Conversion between the formats, and decimal literals.\<close>

fun fl_conv :: "fmt \<Rightarrow> fl \<Rightarrow> fl" where
  "fl_conv f (Fin a) = round_fl f a"
| "fl_conv f x = x"

lemma round_fl_le_PInf [simp]: "round_fl f q \<le> PInf"
  by (simp add: round_fl_def Let_def)

lemma round_fl_finite:
  assumes "\<bar>q\<bar> \<le> 2 powi emax f"
  shows "\<exists>r. round_fl f q = Fin r"
proof (cases "q = 0")
  case False
  let ?m = "(2::rat) powi emax f"
  have "round_mag f \<bar>q\<bar> \<le> round_mag f ?m" by (rule round_mag_mono) (use False assms in simp_all)
  also have "round_mag f ?m = ?m"
  proof (rule round_mag_exact [of _ 1 "emax f"])
    have "ilog2 ?m \<le> emax f"
    proof (rule ccontr)
      assume "\<not> ilog2 ?m \<le> emax f"
      then have "?m < 2 powi ilog2 ?m" by (intro power_int_strict_increasing) auto
      then show False using ilog2_bounds(1) [of ?m] by simp
    qed
    then show "rexp f ?m - prec f + 1 \<le> emax f"
      using prec_bounds [of f] by (cases f) (simp_all add: rexp_def emin_def)
  qed simp
  also have "\<dots> < 2 powi (emax f + 1)" by (intro power_int_strict_increasing) auto
  finally show ?thesis using False by (auto simp: round_fl_def Let_def)
qed simp

text \<open>Powers of two in the normal range are values.\<close>

lemma ilog2_powi: "ilog2 (2 powi k) = k"
proof (rule antisym)
  let ?m = "(2::rat) powi k"
  show "ilog2 ?m \<le> k"
  proof (rule ccontr)
    assume "\<not> ilog2 ?m \<le> k"
    then have "?m < 2 powi ilog2 ?m" by (intro power_int_strict_increasing) auto
    then show False using ilog2_bounds(1) [of ?m] by simp
  qed
  show "k \<le> ilog2 ?m"
  proof (rule ccontr)
    assume "\<not> k \<le> ilog2 ?m"
    then have "(2::rat) powi (ilog2 ?m + 1) \<le> ?m" by (intro power_int_increasing) auto
    then show False using ilog2_bounds(2) [of ?m] by simp
  qed
qed

lemma round_fl_powi:
  assumes "emin f \<le> k" "k \<le> emax f"
  shows "round_fl f (2 powi k) = Fin (2 powi k)"
proof -
  have "round_mag f (2 powi k) = 2 powi k"
    by (rule round_mag_exact [of _ 1 k]) (use assms prec_bounds [of f] in \<open>simp_all add: rexp_def ilog2_powi\<close>)
  moreover have "(2::rat) powi k < 2 powi (emax f + 1)" using assms(2) by (intro power_int_strict_increasing) auto
  ultimately show ?thesis by (simp add: round_fl_def Let_def)
qed

text \<open>A result of rounding to \<^verbatim>\<open>float\<close> is a value of both formats.\<close>

lemma round_fl_exact:
  assumes "round_fl f q = Fin r" "prec f \<le> prec g" "emax f \<le> emax g"
  shows "round_fl g r = Fin r"
proof (cases "q = 0")
  case True
  then show ?thesis using assms(1) by simp
next
  case False
  define x where "x = round_mag f \<bar>q\<bar>"
  have w: "round_mag g x = x" unfolding x_def by (rule round_mag_widen [OF _ assms(2,3)]) simp
  have x0: "0 \<le> x" by (simp add: x_def round_mag_nonneg)
  have lt: "x < 2 powi (emax f + 1)" and r: "r = (if 0 < q then x else - x)"
    using assms(1) False by (auto simp: round_fl_def Let_def x_def split: if_splits)
  have "(2::rat) powi (emax f + 1) \<le> 2 powi (emax g + 1)" using assms(3) by (intro power_int_increasing) auto
  then have "x < 2 powi (emax g + 1)" using lt by simp
  then show ?thesis using w x0 r by (auto simp: round_fl_def Let_def)
qed

lemma fl_conv_mono: "x \<le> y \<Longrightarrow> y \<noteq> NaN \<Longrightarrow> fl_conv f x \<le> fl_conv f y"
proof -
  assume "x \<le> y" "y \<noteq> NaN"
  then show ?thesis using round_fl_mono by (cases x; cases y) auto
qed

definition f32 :: "rat \<Rightarrow> fl" where
  "f32 q = round_fl F32 q"

definition f64 :: "rat \<Rightarrow> fl" where
  "f64 q = round_fl F64 q"

text \<open>\<^verbatim>\<open>std::numeric_limits<float>::max()\<close>.\<close>

definition FLT_MAX :: fl where
  "FLT_MAX = Fin (2 ^ 128 - 2 ^ 104)"

lemma FLT_MAX_not_NaN [simp]: "FLT_MAX \<noteq> NaN"
  by (simp add: FLT_MAX_def)

text \<open>Multiplying by a factor above one makes a value at least one grow.\<close>

lemma fl_mul_grows:
  assumes "1 \<le> a" "1.15 \<le> b"
  shows "fl_mul f (Fin a) (Fin b) = PInf \<or> (\<exists>c. fl_mul f (Fin a) (Fin b) = Fin c \<and> 1.1 * a \<le> c)"
proof -
  have ab: "1.15 * a \<le> a * b" using mult_left_mono [of "1.15" b a] assms by (simp add: mult.commute)
  then have ge1: "1 \<le> a * b" using mult_mono [of 1 a 1 b] assms by simp
  show ?thesis
  proof (cases "round_fl f (a * b)")
    case (Fin c)
    have "c \<ge> a * b * (1 - 2 powi (- 24))" by (rule round_fl_close(1) [OF ge1 Fin])
    moreover have "a * b * (1 - 2 powi (- 24)) \<ge> 1.15 * a * (1 - 2 powi (- 24))"
      by (rule mult_right_mono [OF ab]) (simp add: power_int_def power_divide)
    moreover have "1.15 * a * (1 - 2 powi (- 24)) \<ge> 1.1 * a"
      using assms(1) by (simp add: power_int_def power_divide field_simps)
    ultimately show ?thesis using Fin by auto
  next
    case NInf
    then show ?thesis using ge1 by (auto simp: round_fl_def Let_def split: if_splits)
  qed simp_all
qed

end
