(* ===== verification/Neighbor_Queue.thy ===== *)
theory Neighbor_Queue
  imports Floats "HOL-Library.Product_Lexorder"
begin

text \<open>
  \<^verbatim>\<open>include/neighbor.h\<close>: the \<^verbatim>\<open>Neighbor\<close> record with its order, and
  \<^verbatim>\<open>NeighborPriorityQueue\<close>, the bounded sorted candidate list every search of the
  program runs on. The class invariant (sorted, cursor on the first unexpanded entry) is
  \<open>npq_inv\<close>; \<open>best_insert\<close> is the abstract contract of \<^verbatim>\<open>insert\<close>, and the
  locale \<open>candidate_list\<close> is the interface the searches rely on.
\<close>

section \<open>Neighbours and their order\<close>

record neighbor =
  nbr_id :: nat
  nbr_dist :: fl
  nbr_expanded :: bool

definition Neighbor :: "nat \<Rightarrow> fl \<Rightarrow> neighbor" where
  "Neighbor i d = \<lparr>nbr_id = i, nbr_dist = d, nbr_expanded = False\<rparr>"

text \<open>A value-initialised element of the backing vector.\<close>

definition zero_neighbor :: neighbor where
  "zero_neighbor = \<lparr>nbr_id = 0, nbr_dist = Fin 0, nbr_expanded = False\<rparr>"

definition nbr_less :: "neighbor \<Rightarrow> neighbor \<Rightarrow> bool" where
  "nbr_less a b \<longleftrightarrow> fl_lt (nbr_dist a) (nbr_dist b)
     \<or> (fl_eq (nbr_dist a) (nbr_dist b) \<and> nbr_id a < nbr_id b)"

definition nbr_equal :: "neighbor \<Rightarrow> neighbor \<Rightarrow> bool" where
  "nbr_equal a b \<longleftrightarrow> nbr_id a = nbr_id b"

abbreviation finite_dist :: "neighbor \<Rightarrow> bool" where
  "finite_dist n \<equiv> nbr_dist n \<noteq> NaN"

text \<open>Away from NaN the order is the lexicographic order of distance and id.\<close>

definition nbr_key :: "neighbor \<Rightarrow> fl \<times> nat" where
  "nbr_key n = (nbr_dist n, nbr_id n)"

lemma Neighbor_simps [simp]:
  "nbr_id (Neighbor i d) = i" "nbr_dist (Neighbor i d) = d" "\<not> nbr_expanded (Neighbor i d)"
  by (simp_all add: Neighbor_def)

lemma nbr_less_key: "finite_dist a \<Longrightarrow> finite_dist b \<Longrightarrow> nbr_less a b \<longleftrightarrow> nbr_key a < nbr_key b"
  by (auto simp: nbr_less_def nbr_key_def)

lemma nbr_key_id: "nbr_key a = nbr_key b \<Longrightarrow> nbr_id a = nbr_id b"
  by (simp add: nbr_key_def)

section \<open>The queue\<close>

record npq =
  npq_size :: nat
  npq_capacity :: nat
  npq_cur :: nat
  npq_data :: "neighbor list"

definition npq_new :: npq where
  "npq_new = \<lparr>npq_size = 0, npq_capacity = 0, npq_cur = 0, npq_data = []\<rparr>"

definition npq_make :: "nat \<Rightarrow> npq" where
  "npq_make cap = \<lparr>npq_size = 0, npq_capacity = cap, npq_cur = 0,
                   npq_data = replicate (cap + 1) zero_neighbor\<rparr>"

text \<open>
  The binary search of \<^verbatim>\<open>insert\<close>: \<open>None\<close> is the early \<^verbatim>\<open>return\<close> for an
  entry with the same id.
\<close>

function npq_locate :: "neighbor list \<Rightarrow> neighbor \<Rightarrow> nat \<Rightarrow> nat \<Rightarrow> nat option result" where
  "npq_locate data nbr lo hi =
     (if lo < hi then
        let mid = (lo + hi) div 2 in
        bindR (vec_at data mid) (\<lambda>x.
          if nbr_less nbr x then npq_locate data nbr lo mid
          else if nbr_id x = nbr_id nbr then Inr None
          else npq_locate data nbr (mid + 1) hi)
      else Inr (Some lo))"
  by pat_completeness auto
termination
  by (relation "measure (\<lambda>(data, nbr, lo, hi). hi - lo)") auto

declare npq_locate.simps [simp del]

definition npq_insert :: "npq \<Rightarrow> neighbor \<Rightarrow> npq result" where
  "npq_insert q nbr =
     bindR (if npq_size q = npq_capacity q
            then bindR (if npq_size q = 0 then Inl UndefinedBehaviour
                        else vec_at (npq_data q) (npq_size q - 1))
                       (\<lambda>worst. Inr (nbr_less worst nbr))
            else Inr False)
       (\<lambda>dropped.
          if dropped then Inr q
          else bindR (npq_locate (npq_data q) nbr 0 (npq_size q)) (\<lambda>found.
            case found of
              None \<Rightarrow> Inr q
            | Some lo \<Rightarrow>
                bindR (if lo < npq_capacity q
                       then memmove (npq_data q) (lo + 1) lo (npq_size q - lo)
                       else Inr (npq_data q)) (\<lambda>d.
                bindR (vec_put d lo (Neighbor (nbr_id nbr) (nbr_dist nbr))) (\<lambda>d'.
                  Inr (q\<lparr>npq_data := d',
                         npq_size := (if npq_size q < npq_capacity q then npq_size q + 1
                                      else npq_size q),
                         npq_cur := (if lo < npq_cur q then lo else npq_cur q)\<rparr>)))))"

function npq_advance :: "neighbor list \<Rightarrow> nat \<Rightarrow> nat \<Rightarrow> nat result" where
  "npq_advance data sz cur =
     (if cur < sz then
        bindR (vec_at data cur) (\<lambda>x.
          if nbr_expanded x then npq_advance data sz (cur + 1) else Inr cur)
      else Inr cur)"
  by pat_completeness auto
termination
  by (relation "measure (\<lambda>(data, sz, cur). sz - cur)") auto

declare npq_advance.simps [simp del]

definition npq_closest_unexpanded :: "npq \<Rightarrow> (neighbor \<times> npq) result" where
  "npq_closest_unexpanded q =
     bindR (vec_at (npq_data q) (npq_cur q)) (\<lambda>x.
     let pre = npq_cur q; d = (npq_data q)[pre := x\<lparr>nbr_expanded := True\<rparr>] in
     bindR (npq_advance d (npq_size q) pre) (\<lambda>cur'.
     bindR (vec_at d pre) (\<lambda>r.
       Inr (r, q\<lparr>npq_data := d, npq_cur := cur'\<rparr>))))"

definition npq_has_unexpanded_node :: "npq \<Rightarrow> bool" where
  "npq_has_unexpanded_node q \<longleftrightarrow> npq_cur q < npq_size q"

definition npq_reserve :: "npq \<Rightarrow> nat \<Rightarrow> npq" where
  "npq_reserve q cap =
     (let d = (if length (npq_data q) < cap + 1
               then vec_resize zero_neighbor (cap + 1) (npq_data q) else npq_data q)
      in q\<lparr>npq_data := d, npq_capacity := cap\<rparr>)"

definition npq_get :: "npq \<Rightarrow> nat \<Rightarrow> neighbor result" where
  "npq_get q i = vec_at (npq_data q) i"

definition npq_clear :: "npq \<Rightarrow> npq" where
  "npq_clear q = q\<lparr>npq_size := 0, npq_cur := 0\<rparr>"

section \<open>Abstraction and invariant\<close>

definition npq_live :: "npq \<Rightarrow> neighbor list" where
  "npq_live q = take (npq_size q) (npq_data q)"

abbreviation key_sorted :: "neighbor list \<Rightarrow> bool" where
  "key_sorted xs \<equiv> sorted_wrt (\<lambda>a b. nbr_key a < nbr_key b) xs"

definition npq_inv :: "npq \<Rightarrow> bool" where
  "npq_inv q \<longleftrightarrow> npq_size q \<le> npq_capacity q \<and> npq_capacity q < length (npq_data q)
     \<and> npq_cur q \<le> npq_size q
     \<and> key_sorted (npq_live q) \<and> (\<forall>x \<in> set (npq_live q). finite_dist x)
     \<and> (\<forall>i < npq_cur q. nbr_expanded (npq_data q ! i))
     \<and> (npq_cur q < npq_size q \<longrightarrow> \<not> nbr_expanded (npq_data q ! npq_cur q))"

text \<open>
  What \<^verbatim>\<open>insert\<close> promises: an entry whose id is present already changes nothing;
  otherwise the entry takes its place in the order and the list is cut off at the capacity.
\<close>

definition best_insert :: "nat \<Rightarrow> neighbor \<Rightarrow> neighbor list \<Rightarrow> neighbor list" where
  "best_insert cap n xs =
     (if \<exists>x \<in> set xs. nbr_id x = nbr_id n then xs else take cap (insort_key nbr_key n xs))"

lemma npq_invD:
  assumes "npq_inv q"
  shows "npq_size q \<le> npq_capacity q" "npq_capacity q < length (npq_data q)"
    "npq_size q < length (npq_data q)" "length (npq_live q) = npq_size q"
    "key_sorted (npq_live q)" "npq_cur q \<le> npq_size q"
    "\<And>x. x \<in> set (npq_live q) \<Longrightarrow> finite_dist x"
  using assms by (auto simp: npq_inv_def npq_live_def)

lemma npq_live_nth: "i < npq_size q \<Longrightarrow> npq_live q ! i = npq_data q ! i"
  by (simp add: npq_live_def)

lemma in_npq_live: "npq_inv q \<Longrightarrow> x \<in> set (npq_live q) \<longleftrightarrow> (\<exists>i < npq_size q. npq_data q ! i = x)"
  using npq_invD(4) [of q] npq_live_nth [of _ q] unfolding in_set_conv_nth by metis

lemma insort_key_split:
  assumes "\<forall>y \<in> set ys. nbr_key y < nbr_key x" "\<forall>z \<in> set zs. nbr_key x < nbr_key z"
  shows "insort_key nbr_key x (ys @ zs) = ys @ x # zs"
  using assms
proof (induction ys)
  case Nil
  then show ?case by (cases zs) (auto simp: less_imp_le)
next
  case (Cons y ys)
  then show ?case by (auto simp: not_le)
qed

section \<open>The binary search\<close>

text \<open>
  On a sorted prefix the search either finds the gap for the key or stops at an entry with the
  same id; it never leaves the vector.
\<close>

lemma npq_locate_spec:
  assumes "hi \<le> n" "n \<le> length data"
    and "\<forall>x \<in> set (take n data). finite_dist x" "finite_dist nbr"
    and "key_sorted (take n data)" "lo \<le> hi"
    and "\<forall>i < lo. nbr_key (data ! i) < nbr_key nbr"
    and "\<forall>i. hi \<le> i \<and> i < n \<longrightarrow> nbr_key nbr < nbr_key (data ! i)"
  shows "(\<exists>p. npq_locate data nbr lo hi = Inr (Some p) \<and> p \<le> n
           \<and> (\<forall>i < p. nbr_key (data ! i) < nbr_key nbr)
           \<and> (\<forall>i. p \<le> i \<and> i < n \<longrightarrow> nbr_key nbr < nbr_key (data ! i)))
       \<or> (npq_locate data nbr lo hi = Inr None \<and> (\<exists>i < n. nbr_id (data ! i) = nbr_id nbr))"
  using assms
proof (induction data nbr lo hi rule: npq_locate.induct)
  case (1 data nbr lo hi)
  show ?case
  proof (cases "lo < hi")
    case False
    then have e: "npq_locate data nbr lo hi = Inr (Some lo)"
      by (simp add: npq_locate.simps [of data nbr lo hi])
    have "lo = hi" using False "1.prems"(6) by simp
    then show ?thesis unfolding e using "1.prems"(1,7,8) by auto
  next
    case True
    define mid where "mid = (lo + hi) div 2"
    have mid: "lo \<le> mid" "mid < hi" using True by (auto simp: mid_def)
    then have mlen: "mid < length data" and mn: "mid < n" using "1.prems"(1,2) by auto
    have mono: "nbr_key (data ! i) < nbr_key (data ! j)" if "i < j" "j < n" for i j
      using sorted_wrt_nth_less [OF "1.prems"(5) that(1)] that "1.prems"(2) by simp
    have "take n data ! mid \<in> set (take n data)" using mn mlen by (intro nth_mem) simp
    then have fin: "finite_dist (data ! mid)" using "1.prems"(3) mn by simp
    note unf = npq_locate.simps [of data nbr lo hi]
    show ?thesis
    proof (cases "nbr_less nbr (data ! mid)")
      case less: True
      then have key: "nbr_key nbr < nbr_key (data ! mid)"
        using nbr_less_key fin "1.prems"(4) by blast
      have "\<forall>i. mid \<le> i \<and> i < n \<longrightarrow> nbr_key nbr < nbr_key (data ! i)"
        using key mono by (metis le_neq_implies_less less_trans)
      then have "?thesis" if "npq_locate data nbr lo hi = npq_locate data nbr lo mid"
        using that "1.IH"(1) [OF True mid_def vec_at_in [OF mlen], simplified] "1.prems" less mid mn
        by (simp add: less_imp_le)
      then show ?thesis using True less mlen by (simp add: unf mid_def Let_def)
    next
      case nless: False
      then have nkey: "nbr_key (data ! mid) \<le> nbr_key nbr"
        using nbr_less_key fin "1.prems"(4) by (meson not_le)
      show ?thesis
      proof (cases "nbr_id (data ! mid) = nbr_id nbr")
        case same: True
        then have "npq_locate data nbr lo hi = Inr None"
          using True nless mlen by (simp add: unf mid_def Let_def)
        then show ?thesis using same mn by blast
      next
        case diff: False
        then have key: "nbr_key (data ! mid) < nbr_key nbr"
          using nkey nbr_key_id by (metis le_neq_trans)
        have "\<forall>i < mid + 1. nbr_key (data ! i) < nbr_key nbr"
          using key mono mn by (metis less_Suc_eq less_trans Suc_eq_plus1)
        then have "?thesis" if "npq_locate data nbr lo hi = npq_locate data nbr (mid + 1) hi"
          using that "1.IH"(2) [OF True mid_def vec_at_in [OF mlen], simplified] "1.prems" nless diff mid
          by simp
        then show ?thesis using True nless diff mlen by (simp add: unf mid_def Let_def)
      qed
    qed
  qed
qed

section \<open>Insertion\<close>

lemma insert_shift:
  assumes "p \<le> n" "n < length data"
  shows "memmove data (p + 1) p (n - p) = Inr
           (take (p + 1) data @ take (n - p) (drop p data) @ drop (n + 1) data)"
  using assms by (simp add: memmove_def)

lemma insert_shift_take:
  assumes "p \<le> n" "n < length data"
    and "d = (take (p + 1) data @ take (n - p) (drop p data) @ drop (n + 1) data)[p := x]"
  shows "take (n + 1) d = take p (take n data) @ x # drop p (take n data)"
    and "length d = length data" and "i < p \<Longrightarrow> d ! i = data ! i" and "d ! p = x"
proof -
  have tp: "take (p + 1) data = take p data @ [data ! p]" "p < length data"
    using assms(1,2) by (simp_all add: take_Suc_conv_app_nth)
  have d: "d = take p data @ x # take (n - p) (drop p data) @ drop (n + 1) data"
    using tp assms(3) by (simp add: list_update_append)
  have "length (take p data @ x # take (n - p) (drop p data)) = n + 1" using assms(1,2) by simp
  moreover have "d = (take p data @ x # take (n - p) (drop p data)) @ drop (n + 1) data"
    by (simp add: d)
  ultimately have "take (n + 1) d = take p data @ x # take (n - p) (drop p data)"
    by (metis append_eq_conv_conj)
  then show "take (n + 1) d = take p (take n data) @ x # drop p (take n data)"
    using assms(1) by (simp add: drop_take min_absorb1)
  show "length d = length data" using assms by simp
  show "i < p \<Longrightarrow> d ! i = data ! i" using tp(2) by (simp add: d nth_append)
  show "d ! p = x" using tp(2) by (simp add: d nth_append)
qed

lemma best_insert_present:
  "\<exists>x \<in> set xs. nbr_id x = nbr_id n \<Longrightarrow> best_insert cap n xs = xs"
  by (simp add: best_insert_def)

lemma best_insert_split:
  assumes "\<forall>y \<in> set ys. nbr_key y < nbr_key n" "\<forall>z \<in> set zs. nbr_key n < nbr_key z"
    and "\<forall>x \<in> set (ys @ zs). nbr_id x = nbr_id n \<longrightarrow> nbr_dist x = nbr_dist n"
  shows "best_insert cap n (ys @ zs) = take cap (ys @ n # zs)"
proof -
  have "nbr_id x \<noteq> nbr_id n" if "x \<in> set (ys @ zs)" for x
  proof
    assume "nbr_id x = nbr_id n"
    then have "nbr_key x = nbr_key n" using assms(3) that by (simp add: nbr_key_def)
    then show False using assms(1,2) that by auto
  qed
  then have "\<not> (\<exists>x \<in> set (ys @ zs). nbr_id x = nbr_id n)" by blast
  then show ?thesis unfolding best_insert_def using insort_key_split [OF assms(1,2)] by simp
qed

lemma npq_insert_at:
  assumes inv: "npq_inv q" and fin: "finite_dist n" and p: "p \<le> npq_size q" "p < npq_capacity q"
    and below: "\<forall>i < p. nbr_key (npq_data q ! i) < nbr_key n"
    and above: "\<forall>i. p \<le> i \<and> i < npq_size q \<longrightarrow> nbr_key n < nbr_key (npq_data q ! i)"
    and n: "\<not> nbr_expanded n"
    and d: "d = (take (p + 1) (npq_data q) @ take (npq_size q - p) (drop p (npq_data q))
                 @ drop (npq_size q + 1) (npq_data q))[p := n]"
    and q': "q' = q\<lparr>npq_data := d,
              npq_size := (if npq_size q < npq_capacity q then npq_size q + 1 else npq_size q),
              npq_cur := (if p < npq_cur q then p else npq_cur q)\<rparr>"
  shows "npq_inv q'"
    and "npq_live q' = take (npq_capacity q) (take p (npq_live q) @ n # drop p (npq_live q))"
proof -
  let ?L = "npq_live q" and ?N = "npq_size q"
  note I = npq_invD [OF inv]
  note sh = insert_shift_take [OF p(1) I(3) d]
  have len: "length (take p ?L @ n # drop p ?L) = ?N + 1" using I(4) p(1) by simp
  have tk: "take (?N + 1) d = take p ?L @ n # drop p ?L" using sh(1) by (simp add: npq_live_def)
  have sz: "npq_size q' = min (npq_capacity q) (?N + 1)" using I(1) by (simp add: q')
  have live: "npq_live q' = take (npq_size q') d" by (simp add: npq_live_def q')
  also have "\<dots> = take (npq_capacity q) (take (?N + 1) d)" by (simp add: sz)
  finally show live': "npq_live q' = take (npq_capacity q) (take p ?L @ n # drop p ?L)"
    unfolding tk .
  have b: "\<forall>y \<in> set (take p ?L). nbr_key y < nbr_key n"
    using below p(1) I(4) by (auto simp: in_set_conv_nth npq_live_nth)
  have a: "\<forall>z \<in> set (drop p ?L). nbr_key n < nbr_key z"
    using above I(4) by (auto simp: in_set_conv_nth npq_live_nth)
  have "key_sorted (take p ?L @ drop p ?L)" using I(5) by simp
  then have "key_sorted (take p ?L @ n # drop p ?L)"
    using a b unfolding sorted_wrt_append by auto
  then have so: "key_sorted (npq_live q')" unfolding live' by (rule sorted_wrt_take)
  have sub: "set (npq_live q') \<subseteq> insert n (set ?L)"
    unfolding live' by (auto dest!: in_set_takeD in_set_dropD)
  have frame: "d ! i = npq_data q ! i" if "i < p" for i using sh(3) that .
  have ex: "nbr_expanded (d ! i)" if "i < npq_cur q" "i < p" for i
    using inv that frame by (simp add: npq_inv_def)
  have cur: "\<not> nbr_expanded (d ! npq_cur q')" if "npq_cur q' < npq_size q'"
  proof (cases "npq_cur q < p")
    case True
    then have "\<not> nbr_expanded (npq_data q ! npq_cur q)" using inv p(1) by (simp add: npq_inv_def)
    then show ?thesis using True frame by (simp add: q')
  next
    case False
    then have "npq_cur q' = p" by (simp add: q')
    then show ?thesis using sh(4) n by simp
  qed
  have "npq_data q' = d" "npq_capacity q' = npq_capacity q" by (simp_all add: q')
  moreover have "npq_cur q' \<le> npq_size q'" using I(6) p by (auto simp: q')
  moreover have "\<forall>i < npq_cur q'. nbr_expanded (d ! i)" using ex by (auto simp: q')
  ultimately show "npq_inv q'"
    unfolding npq_inv_def using so sub fin I(2,7) cur sh(2) sz by (auto dest!: subsetD)
qed

text \<open>Insertion meets its contract and keeps the class invariant.\<close>

lemma npq_insert_spec:
  assumes inv: "npq_inv q" and cap: "0 < npq_capacity q" and fin: "finite_dist n"
    and con: "\<forall>x \<in> set (npq_live q). nbr_id x = nbr_id n \<longrightarrow> nbr_dist x = nbr_dist n"
  shows "\<exists>q'. npq_insert q n = Inr q' \<and> npq_inv q' \<and> npq_capacity q' = npq_capacity q
           \<and> npq_live q' = best_insert (npq_capacity q) (Neighbor (nbr_id n) (nbr_dist n)) (npq_live q)"
proof -
  let ?L = "npq_live q" and ?N = "npq_size q" and ?n = "Neighbor (nbr_id n) (nbr_dist n)"
  note I = npq_invD [OF inv]
  have kn: "nbr_key ?n = nbr_key n" by (simp add: nbr_key_def)
  have con': "\<forall>x \<in> set (ys @ zs). nbr_id x = nbr_id ?n \<longrightarrow> nbr_dist x = nbr_dist ?n"
    if "ys @ zs = ?L" for ys zs using con that by simp
  let ?drop = "?N = npq_capacity q \<and> nbr_less (npq_data q ! (?N - 1)) n"
  show ?thesis
  proof (cases ?drop)
    case True
    then have pos: "0 < ?N" and res: "npq_insert q n = Inr q"
      using cap I(3) by (auto simp: npq_insert_def)
    have "npq_data q ! (?N - 1) \<in> set ?L"
      using I(4) pos nth_mem [of "?N - 1" ?L] by (simp add: npq_live_nth)
    then have last: "nbr_key (npq_data q ! (?N - 1)) < nbr_key n"
      using True I(7) fin nbr_less_key by blast
    have "nbr_key y < nbr_key ?n" if y: "y \<in> set ?L" for y
    proof -
      obtain i where i: "i < ?N" "y = npq_data q ! i" using y in_npq_live [OF inv] by auto
      have "i = ?N - 1 \<or> nbr_key y < nbr_key (npq_data q ! (?N - 1))"
      proof (cases "i < ?N - 1")
        case True
        then show ?thesis using sorted_wrt_nth_less [OF I(5) True] i pos I(4) by (simp add: npq_live_nth)
      next
        case False
        then have "i = ?N - 1" using i(1) by linarith
        then show ?thesis ..
      qed
      then show ?thesis using last i(2) kn by auto
    qed
    then have "best_insert (npq_capacity q) ?n (?L @ []) = take (npq_capacity q) (?L @ [?n])"
      by (intro best_insert_split con') auto
    then show ?thesis using res inv True I(4) by simp
  next
    case nd: False
    have nodrop: "npq_insert q n = bindR (npq_locate (npq_data q) n 0 ?N) (\<lambda>found.
            case found of
              None \<Rightarrow> Inr q
            | Some lo \<Rightarrow>
                bindR (if lo < npq_capacity q then memmove (npq_data q) (lo + 1) lo (?N - lo)
                       else Inr (npq_data q)) (\<lambda>d.
                bindR (vec_put d lo ?n) (\<lambda>d'.
                  Inr (q\<lparr>npq_data := d', npq_size := (if ?N < npq_capacity q then ?N + 1 else ?N),
                         npq_cur := (if lo < npq_cur q then lo else npq_cur q)\<rparr>))))"
      using nd cap I(3) by (auto simp: npq_insert_def)
    have "(\<exists>p. npq_locate (npq_data q) n 0 ?N = Inr (Some p) \<and> p \<le> ?N
           \<and> (\<forall>i < p. nbr_key (npq_data q ! i) < nbr_key n)
           \<and> (\<forall>i. p \<le> i \<and> i < ?N \<longrightarrow> nbr_key n < nbr_key (npq_data q ! i)))
       \<or> (npq_locate (npq_data q) n 0 ?N = Inr None \<and> (\<exists>i < ?N. nbr_id (npq_data q ! i) = nbr_id n))"
      by (rule npq_locate_spec) (use I fin in \<open>auto simp: npq_live_def\<close>)
    then consider (none) i where "npq_locate (npq_data q) n 0 ?N = Inr None" "i < ?N"
        "nbr_id (npq_data q ! i) = nbr_id n"
      | (some) p where "npq_locate (npq_data q) n 0 ?N = Inr (Some p)" "p \<le> ?N"
        "\<forall>i < p. nbr_key (npq_data q ! i) < nbr_key n"
        "\<forall>i. p \<le> i \<and> i < ?N \<longrightarrow> nbr_key n < nbr_key (npq_data q ! i)"
      by blast
    then show ?thesis
    proof cases
      case none
      have "npq_data q ! i \<in> set ?L" using in_npq_live [OF inv] none(2) by blast
      moreover have "nbr_id (npq_data q ! i) = nbr_id ?n" using none(3) by simp
      ultimately have "best_insert (npq_capacity q) ?n ?L = ?L" by (intro best_insert_present) blast
      then show ?thesis using inv none(1) by (simp add: nodrop)
    next
      case some
      have pc: "p < npq_capacity q"
      proof (rule ccontr)
        assume "\<not> p < npq_capacity q"
        then have "p = ?N" "?N = npq_capacity q" using some(2) I(1) by auto
        then have "nbr_key (npq_data q ! (?N - 1)) < nbr_key n" using some(3) cap by simp
        moreover have "finite_dist (npq_data q ! (?N - 1))"
          using I(7) in_npq_live [OF inv] cap \<open>?N = npq_capacity q\<close> by (metis diff_less zero_less_one)
        ultimately show False using nd nbr_less_key fin \<open>?N = npq_capacity q\<close> by blast
      qed
      define d where "d = (take (p + 1) (npq_data q) @ take (?N - p) (drop p (npq_data q))
                 @ drop (?N + 1) (npq_data q))[p := ?n]"
      define q' where "q' = q\<lparr>npq_data := d,
              npq_size := (if ?N < npq_capacity q then ?N + 1 else ?N),
              npq_cur := (if p < npq_cur q then p else npq_cur q)\<rparr>"
      have pl: "p < length (npq_data q)" using some(2) I(3) by simp
      have res: "npq_insert q n = Inr q'"
        using some(1) pc pl I(3) by (simp add: nodrop insert_shift [OF some(2) I(3), simplified] q'_def d_def)
      note at = npq_insert_at [OF inv _ some(2) pc _ _ _ d_def q'_def]
      have inv': "npq_inv q'" by (rule at(1)) (use fin some(3,4) kn in simp_all)
      have live': "npq_live q' = take (npq_capacity q) (take p ?L @ ?n # drop p ?L)"
        by (rule at(2)) (use fin some(3,4) kn in simp_all)
      have below: "\<forall>y \<in> set (take p ?L). nbr_key y < nbr_key ?n"
        using some(2,3) I(4) kn by (auto simp: in_set_conv_nth npq_live_nth)
      have above: "\<forall>z \<in> set (drop p ?L). nbr_key ?n < nbr_key z"
        using some(4) I(4) kn by (auto simp: in_set_conv_nth npq_live_nth)
      have "best_insert (npq_capacity q) ?n (take p ?L @ drop p ?L)
            = take (npq_capacity q) (take p ?L @ ?n # drop p ?L)"
        by (rule best_insert_split [OF below above con']) simp
      then show ?thesis using res inv' live' by (simp add: q'_def)
    qed
  qed
qed

section \<open>Popping the closest unexpanded entry\<close>

lemma npq_advance_spec:
  assumes "sz \<le> length data" "c \<le> sz"
  shows "\<exists>c'. npq_advance data sz c = Inr c' \<and> c \<le> c' \<and> c' \<le> sz
           \<and> (\<forall>i. c \<le> i \<and> i < c' \<longrightarrow> nbr_expanded (data ! i))
           \<and> (c' < sz \<longrightarrow> \<not> nbr_expanded (data ! c'))"
  using assms
proof (induction data sz c rule: npq_advance.induct)
  case (1 data sz cur)
  show ?case
  proof (cases "cur < sz \<and> nbr_expanded (data ! cur)")
    case True
    then have cl: "cur < length data" using "1.prems"(1) by simp
    obtain c' where c': "npq_advance data sz (cur + 1) = Inr c'" "cur + 1 \<le> c'" "c' \<le> sz"
      "\<forall>i. cur + 1 \<le> i \<and> i < c' \<longrightarrow> nbr_expanded (data ! i)"
      "c' < sz \<longrightarrow> \<not> nbr_expanded (data ! c')"
      using "1.IH" [OF _ vec_at_in [OF cl]] True "1.prems" by auto
    have "\<forall>i. cur \<le> i \<and> i < c' \<longrightarrow> nbr_expanded (data ! i)"
      using c'(4) True by (metis Suc_eq_plus1 Suc_leI le_neq_implies_less)
    then show ?thesis
      using True cl c' by (simp add: npq_advance.simps [of data sz cur])
  next
    case False
    then have "npq_advance data sz cur = Inr cur"
      using "1.prems" by (auto simp: npq_advance.simps [of data sz cur])
    then show ?thesis using False "1.prems" by auto
  qed
qed

lemma key_sorted_map: "key_sorted xs \<longleftrightarrow> sorted_wrt (<) (map nbr_key xs)"
  by (simp add: sorted_wrt_map)

lemma npq_closest_unexpanded_spec:
  assumes inv: "npq_inv q" and more: "npq_has_unexpanded_node q"
  shows "\<exists>r q'. npq_closest_unexpanded q = Inr (r, q') \<and> npq_inv q'
           \<and> r = (npq_live q ! npq_cur q)\<lparr>nbr_expanded := True\<rparr>
           \<and> npq_live q' = (npq_live q)[npq_cur q := r] \<and> npq_capacity q' = npq_capacity q"
proof -
  let ?c = "npq_cur q" and ?N = "npq_size q"
  note I = npq_invD [OF inv]
  have c: "?c < ?N" using more by (simp add: npq_has_unexpanded_node_def)
  then have cl: "?c < length (npq_data q)" using I(3) by simp
  define r where "r = (npq_data q ! ?c)\<lparr>nbr_expanded := True\<rparr>"
  define d where "d = (npq_data q)[?c := r]"
  have dl: "length d = length (npq_data q)" by (simp add: d_def)
  obtain c' where c': "npq_advance d ?N ?c = Inr c'" "?c \<le> c'" "c' \<le> ?N"
      "\<forall>i. ?c \<le> i \<and> i < c' \<longrightarrow> nbr_expanded (d ! i)" "c' < ?N \<longrightarrow> \<not> nbr_expanded (d ! c')"
    using npq_advance_spec [of ?N d ?c] c I(3) dl by auto
  define q' where "q' = q\<lparr>npq_data := d, npq_cur := c'\<rparr>"
  have res: "npq_closest_unexpanded q = Inr (r, q')"
    using cl c'(1) by (simp add: npq_closest_unexpanded_def Let_def r_def [symmetric] d_def [symmetric] q'_def)
  have live: "npq_live q' = (npq_live q)[?c := r]"
    by (simp add: npq_live_def q'_def d_def take_update_swap)
  have r: "r = (npq_live q ! ?c)\<lparr>nbr_expanded := True\<rparr>" using c by (simp add: r_def npq_live_nth)
  have "map nbr_key (npq_live q') = map nbr_key (npq_live q)"
    using c I(4) by (simp add: live map_update r nbr_key_def list_update_same_conv)
  then have so: "key_sorted (npq_live q')" using I(5) by (simp only: key_sorted_map)
  have "npq_live q ! ?c \<in> set (npq_live q)" using c I(4) by simp
  then have "finite_dist r" using I(7) by (simp add: r)
  then have fin: "\<forall>x \<in> set (npq_live q'). finite_dist x"
    using I(7) set_update_subset_insert [of "npq_live q" ?c r] by (auto simp: live)
  have ex: "nbr_expanded (d ! i)" if "i < c'" for i
  proof (cases "i < ?c")
    case True
    then show ?thesis using inv by (simp add: npq_inv_def d_def)
  next
    case False
    then show ?thesis using c'(4) that by simp
  qed
  have "npq_inv q'"
    using I(1,2) so fin ex c'(3,5) dl unfolding npq_inv_def by (simp add: q'_def)
  then show ?thesis using res live r by (auto simp: q'_def)
qed

lemma npq_cur_first:
  assumes "npq_inv q" "npq_has_unexpanded_node q"
  shows "npq_live q = take (npq_cur q) (npq_live q) @ npq_live q ! npq_cur q # drop (npq_cur q + 1) (npq_live q)"
    and "\<forall>y \<in> set (take (npq_cur q) (npq_live q)). nbr_expanded y"
    and "\<not> nbr_expanded (npq_live q ! npq_cur q)"
proof -
  note I = npq_invD [OF assms(1)]
  have c: "npq_cur q < npq_size q" using assms(2) by (simp add: npq_has_unexpanded_node_def)
  show "npq_live q = take (npq_cur q) (npq_live q) @ npq_live q ! npq_cur q # drop (npq_cur q + 1) (npq_live q)"
    using c I(4) by (simp add: id_take_nth_drop [symmetric])
  show "\<forall>y \<in> set (take (npq_cur q) (npq_live q)). nbr_expanded y"
    using assms(1) c I(4) by (auto simp: in_set_conv_nth npq_live_nth npq_inv_def)
  show "\<not> nbr_expanded (npq_live q ! npq_cur q)"
    using assms(1) c by (simp add: npq_live_nth npq_inv_def)
qed

lemma npq_has_unexpanded_iff:
  assumes "npq_inv q"
  shows "npq_has_unexpanded_node q \<longleftrightarrow> (\<exists>x \<in> set (npq_live q). \<not> nbr_expanded x)"
proof
  assume "npq_has_unexpanded_node q"
  then show "\<exists>x \<in> set (npq_live q). \<not> nbr_expanded x"
    using npq_cur_first(3) [OF assms] npq_invD(4) [OF assms]
    by (metis npq_has_unexpanded_node_def nth_mem)
next
  assume "\<exists>x \<in> set (npq_live q). \<not> nbr_expanded x"
  then have "\<exists>i < npq_size q. \<not> nbr_expanded (npq_data q ! i)"
    using in_npq_live [OF assms] by auto
  then obtain i where i: "i < npq_size q" "\<not> nbr_expanded (npq_data q ! i)" by blast
  then have "\<not> i < npq_cur q" using assms by (auto simp: npq_inv_def)
  then show "npq_has_unexpanded_node q" using i(1) by (simp add: npq_has_unexpanded_node_def)
qed

section \<open>Construction, reserve and clear\<close>

lemma npq_make_inv [simp]: "npq_inv (npq_make cap)"
  by (simp add: npq_inv_def npq_make_def npq_live_def)

lemma npq_clear_live [simp]: "npq_live (npq_clear q) = []"
  by (simp add: npq_clear_def npq_live_def)

lemma npq_clear_inv: "npq_inv q \<Longrightarrow> npq_inv (npq_clear q)"
  by (simp add: npq_inv_def npq_clear_def npq_live_def)

lemma npq_reserve_simps [simp]:
  "npq_capacity (npq_reserve q c) = c" "npq_size (npq_reserve q c) = npq_size q"
  "npq_cur (npq_reserve q c) = npq_cur q"
  by (simp_all add: npq_reserve_def Let_def)

lemma npq_reserve_inv:
  assumes "npq_inv q" "npq_size q \<le> c"
  shows "npq_inv (npq_reserve q c) \<and> npq_live (npq_reserve q c) = npq_live q"
proof -
  note I = npq_invD [OF assms(1)]
  have nth: "npq_data (npq_reserve q c) ! i = npq_data q ! i" if "i < npq_size q" for i
    using that I(3) assms(2) by (simp add: npq_reserve_def Let_def nth_vec_resize)
  have len: "c < length (npq_data (npq_reserve q c))"
    by (simp add: npq_reserve_def Let_def)
  have live: "npq_live (npq_reserve q c) = npq_live q"
    using nth len assms(2) I(3) by (intro nth_equalityI) (simp_all add: npq_live_def)
  show ?thesis
    using assms I len live nth unfolding npq_inv_def by auto
qed

lemma npq_reserve_cleared: "npq_size q = 0 \<Longrightarrow> npq_cur q = 0 \<Longrightarrow> npq_inv (npq_reserve q c)"
  by (simp add: npq_inv_def npq_reserve_def npq_live_def Let_def)

section \<open>The interface of the searches\<close>

text \<open>
  What a best-first search relies on: a bounded list of entries sorted by distance, insertion
  by \<open>best_insert\<close>, and a pop that returns the closest entry not yet expanded. The client
  lemmas say that the list always holds the nearest of everything inserted so far.
\<close>

lemma take_insort_take:
  "sorted xs \<Longrightarrow> take c (insort x (take c xs)) = take c (insort x (xs :: 'a::linorder list))"
proof (induction xs arbitrary: c)
  case Nil
  then show ?case by simp
next
  case (Cons y ys)
  then show ?case by (cases c) (auto simp: take_Cons')
qed

lemma insort_key_end: "\<forall>y \<in> set xs. f y < (f x :: 'a::linorder) \<Longrightarrow> insort_key f x xs = xs @ [x]"
  by (induction xs) (auto simp: not_le [symmetric])

lemma map_insort_key: "map f (insort_key f x xs) = insort (f x) (map f xs)"
  by (induction xs) auto

text \<open>The keys of a set of candidates under a distance oracle, nearest first.\<close>

definition ranking :: "(nat \<Rightarrow> fl) \<Rightarrow> nat set \<Rightarrow> (fl \<times> nat) list" where
  "ranking d V = sorted_list_of_set ((\<lambda>i. (d i, i)) ` V)"

lemma ranking_insert:
  assumes "finite V" "i \<notin> V"
  shows "ranking d (insert i V) = insort (d i, i) (ranking d V)"
proof -
  have "(d i, i) \<notin> (\<lambda>i. (d i, i)) ` V" using assms(2) by auto
  then show ?thesis using assms(1) by (simp add: ranking_def sorted_list_of_set_insert)
qed

lemma set_ranking: "finite V \<Longrightarrow> set (ranking d V) = (\<lambda>i. (d i, i)) ` V"
  by (simp add: ranking_def)

lemma sorted_ranking [simp]: "sorted (ranking d V)"
  by (simp add: ranking_def)

lemma ranking_empty [simp]: "ranking d {} = []"
  by (simp add: ranking_def)

locale candidate_list =
  fixes ins :: "'q \<Rightarrow> neighbor \<Rightarrow> 'q result"
    and pop :: "'q \<Rightarrow> (neighbor \<times> 'q) result"
    and more :: "'q \<Rightarrow> bool"
    and entries :: "'q \<Rightarrow> neighbor list"
    and cap :: "'q \<Rightarrow> nat"
    and inv :: "'q \<Rightarrow> bool"
  assumes ins_law: "inv q \<Longrightarrow> finite_dist n
      \<Longrightarrow> \<forall>x \<in> set (entries q). nbr_id x = nbr_id n \<longrightarrow> nbr_dist x = nbr_dist n
      \<Longrightarrow> \<exists>q'. ins q n = Inr q' \<and> inv q' \<and> cap q' = cap q
            \<and> entries q' = best_insert (cap q) (Neighbor (nbr_id n) (nbr_dist n)) (entries q)"
    and entries_sorted: "inv q \<Longrightarrow> key_sorted (entries q)"
    and entries_bounded: "inv q \<Longrightarrow> length (entries q) \<le> cap q"
    and more_law: "inv q \<Longrightarrow> more q \<longleftrightarrow> (\<exists>x \<in> set (entries q). \<not> nbr_expanded x)"
    and pop_law: "inv q \<Longrightarrow> more q \<Longrightarrow> \<exists>ys x zs q'. entries q = ys @ x # zs
      \<and> (\<forall>y \<in> set ys. nbr_expanded y) \<and> \<not> nbr_expanded x
      \<and> pop q = Inr (x\<lparr>nbr_expanded := True\<rparr>, q') \<and> inv q' \<and> cap q' = cap q
      \<and> entries q' = ys @ x\<lparr>nbr_expanded := True\<rparr> # zs"
begin

text \<open>\<open>tracks d V q\<close>: the list holds the \<open>cap q\<close> nearest elements of \<open>V\<close>.\<close>

definition tracks :: "(nat \<Rightarrow> fl) \<Rightarrow> nat set \<Rightarrow> 'q \<Rightarrow> bool" where
  "tracks d V q \<longleftrightarrow> map nbr_key (entries q) = take (cap q) (ranking d V)"

lemma tracks_entry:
  assumes "tracks d V q" "finite V" "x \<in> set (entries q)"
  shows "nbr_id x \<in> V" and "nbr_dist x = d (nbr_id x)"
proof -
  have "nbr_key x \<in> set (take (cap q) (ranking d V))"
    using assms(1,3) unfolding tracks_def by (metis image_eqI list.set_map)
  then have "nbr_key x \<in> (\<lambda>i. (d i, i)) ` V" using set_ranking [OF assms(2)] by (auto dest: in_set_takeD)
  then show "nbr_id x \<in> V" and "nbr_dist x = d (nbr_id x)" by (auto simp: nbr_key_def)
qed

lemma ins_tracks:
  assumes "inv q" "tracks d V q" "finite V" "i \<notin> V" "d i \<noteq> NaN"
  shows "\<exists>q'. ins q (Neighbor i (d i)) = Inr q' \<and> inv q' \<and> cap q' = cap q
           \<and> tracks d (insert i V) q'
           \<and> entries q' = take (cap q) (insort_key nbr_key (Neighbor i (d i)) (entries q))"
proof -
  let ?n = "Neighbor i (d i)"
  have new: "\<forall>x \<in> set (entries q). nbr_id x \<noteq> nbr_id ?n"
    using tracks_entry(1) [OF assms(2,3)] assms(4) by auto
  then have "\<forall>x \<in> set (entries q). nbr_id x = nbr_id ?n \<longrightarrow> nbr_dist x = nbr_dist ?n" by blast
  then obtain q' where q': "ins q ?n = Inr q'" "inv q'" "cap q' = cap q"
      "entries q' = best_insert (cap q) ?n (entries q)"
    using ins_law [OF assms(1), of ?n] assms(5) by auto
  have e: "entries q' = take (cap q) (insort_key nbr_key ?n (entries q))"
    using q'(4) new by (auto simp: best_insert_def)
  have "map nbr_key (entries q') = take (cap q) (insort (nbr_key ?n) (map nbr_key (entries q)))"
    by (simp only: e take_map map_insort_key [symmetric])
  also have "\<dots> = take (cap q) (insort (d i, i) (ranking d V))"
    using assms(2) by (simp add: tracks_def take_insort_take nbr_key_def)
  also have "\<dots> = take (cap q') (ranking d (insert i V))"
    using ranking_insert [OF assms(3,4)] q'(3) by simp
  finally have "tracks d (insert i V) q'" by (simp add: tracks_def)
  then show ?thesis using q' e by blast
qed

text \<open>Inserting what was inserted before changes nothing, whether it was kept or cut off.\<close>

lemma ins_again:
  assumes "inv q" "tracks d V q" "finite V" "i \<in> V" "d i \<noteq> NaN"
  shows "\<exists>q'. ins q (Neighbor i (d i)) = Inr q' \<and> inv q' \<and> cap q' = cap q \<and> tracks d V q' \<and> entries q' = entries q"
proof -
  let ?n = "Neighbor i (d i)" and ?R = "ranking d V"
  have same: "\<forall>x \<in> set (entries q). nbr_id x = nbr_id ?n \<longrightarrow> nbr_dist x = nbr_dist ?n"
    using tracks_entry(2) [OF assms(2,3)] by auto
  then obtain q' where q': "ins q ?n = Inr q'" "inv q'" "cap q' = cap q"
      "entries q' = best_insert (cap q) ?n (entries q)"
    using ins_law [OF assms(1), of ?n] assms(5) by auto
  have "best_insert (cap q) ?n (entries q) = entries q"
  proof (cases "\<exists>x \<in> set (entries q). nbr_id x = i")
    case False
    have k: "map nbr_key (entries q) = take (cap q) ?R" using assms(2) by (simp add: tracks_def)
    have "(d i, i) \<notin> set (take (cap q) ?R)"
    proof
      assume "(d i, i) \<in> set (take (cap q) ?R)"
      then obtain x where "x \<in> set (entries q)" "nbr_key x = (d i, i)"
        unfolding k [symmetric] by (auto simp: nbr_key_def)
      then show False using False by (auto simp: nbr_key_def)
    qed
    moreover have "(d i, i) \<in> set ?R" using assms(3,4) by (simp add: set_ranking)
    moreover have sp: "?R = take (cap q) ?R @ drop (cap q) ?R" by simp
    ultimately have dr: "(d i, i) \<in> set (drop (cap q) ?R)" by (metis Un_iff set_append)
    then have "cap q < length ?R" by (cases "cap q < length ?R") simp_all
    then have len: "length (entries q) = cap q" using arg_cong [OF k, of length] by simp
    have "sorted (take (cap q) ?R @ drop (cap q) ?R)" by simp
    then have "\<forall>y \<in> set (take (cap q) ?R). y \<le> (d i, i)" using dr by (auto simp only: sorted_append)
    then have "\<forall>x \<in> set (entries q). nbr_key x \<le> (d i, i)" unfolding k [symmetric] by simp
    moreover have "\<forall>x \<in> set (entries q). nbr_key x \<noteq> (d i, i)" using False by (auto simp: nbr_key_def)
    ultimately have "\<forall>x \<in> set (entries q). nbr_key x < nbr_key ?n" by (auto simp: nbr_key_def less_le)
    then have "insort_key nbr_key ?n (entries q) = entries q @ [?n]" by (rule insort_key_end)
    then show ?thesis using len by (simp add: best_insert_def)
  qed (simp add: best_insert_def)
  then show ?thesis using q' assms(2) by (auto simp: tracks_def)
qed

lemma ins_candidate:
  assumes "inv q" "tracks d V q" "finite V" "d i \<noteq> NaN"
  shows "\<exists>q'. ins q (Neighbor i (d i)) = Inr q' \<and> inv q' \<and> cap q' = cap q \<and> tracks d (insert i V) q'
     \<and> set (entries q') \<subseteq> insert (Neighbor i (d i)) (set (entries q)) \<and> (i \<in> V \<longrightarrow> entries q' = entries q)"
proof (cases "i \<in> V")
  case True
  then show ?thesis using ins_again [OF assms(1-3) True assms(4)] by (auto simp: insert_absorb)
next
  case False
  then show ?thesis
    using ins_tracks [OF assms(1-3) False assms(4)] by (auto dest!: in_set_takeD simp: set_insort_key)
qed

lemma pop_tracks:
  assumes "inv q" "more q" "tracks d V q"
  shows "\<exists>x q'. pop q = Inr (x, q') \<and> inv q' \<and> cap q' = cap q \<and> tracks d V q'
           \<and> nbr_id x \<in> nbr_id ` {y \<in> set (entries q). \<not> nbr_expanded y}
           \<and> map nbr_key (entries q') = map nbr_key (entries q)
           \<and> (\<forall>y \<in> set (entries q). \<not> nbr_expanded y \<longrightarrow> nbr_key x \<le> nbr_key y)"
proof -
  obtain ys x zs q' where p: "entries q = ys @ x # zs" "\<forall>y \<in> set ys. nbr_expanded y" "\<not> nbr_expanded x"
      "pop q = Inr (x\<lparr>nbr_expanded := True\<rparr>, q')" "inv q'" "cap q' = cap q"
      "entries q' = ys @ x\<lparr>nbr_expanded := True\<rparr> # zs"
    using pop_law [OF assms(1,2)] by blast
  have k: "map nbr_key (entries q') = map nbr_key (entries q)" by (simp add: p(1,7) nbr_key_def)
  have "\<forall>z \<in> set zs. nbr_key x < nbr_key z"
    using entries_sorted [OF assms(1)] by (simp add: p(1) sorted_wrt_append)
  then have "\<forall>y \<in> set (entries q). \<not> nbr_expanded y \<longrightarrow> nbr_key (x\<lparr>nbr_expanded := True\<rparr>) \<le> nbr_key y"
    using p(2) by (auto simp: p(1) nbr_key_def less_imp_le)
  moreover have "nbr_id (x\<lparr>nbr_expanded := True\<rparr>) \<in> nbr_id ` {y \<in> set (entries q). \<not> nbr_expanded y}"
    using p(1,3) by simp
  moreover have "tracks d V q'" using assms(3) k p(6) by (simp add: tracks_def)
  ultimately show ?thesis using p(4,5,6) k by blast
qed

end

definition npq_ready :: "npq \<Rightarrow> bool" where
  "npq_ready q \<longleftrightarrow> npq_inv q \<and> 0 < npq_capacity q"

interpretation nq: candidate_list npq_insert npq_closest_unexpanded npq_has_unexpanded_node
  npq_live npq_capacity npq_ready
proof
  fix q n
  assume "npq_ready q" "finite_dist n"
    "\<forall>x \<in> set (npq_live q). nbr_id x = nbr_id n \<longrightarrow> nbr_dist x = nbr_dist n"
  then show "\<exists>q'. npq_insert q n = Inr q' \<and> npq_ready q' \<and> npq_capacity q' = npq_capacity q
      \<and> npq_live q' = best_insert (npq_capacity q) (Neighbor (nbr_id n) (nbr_dist n)) (npq_live q)"
    using npq_insert_spec [of q n] by (auto simp: npq_ready_def)
next
  fix q assume "npq_ready q"
  then have inv: "npq_inv q" by (simp add: npq_ready_def)
  show "key_sorted (npq_live q)" by (rule npq_invD(5) [OF inv])
  show "length (npq_live q) \<le> npq_capacity q" using npq_invD(1,4) [OF inv] by simp
  show "npq_has_unexpanded_node q \<longleftrightarrow> (\<exists>x \<in> set (npq_live q). \<not> nbr_expanded x)"
    by (rule npq_has_unexpanded_iff [OF inv])
next
  fix q assume "npq_ready q" and more: "npq_has_unexpanded_node q"
  then have inv: "npq_inv q" and pos: "0 < npq_capacity q" by (simp_all add: npq_ready_def)
  let ?c = "npq_cur q" and ?L = "npq_live q"
  obtain r q' where p: "npq_closest_unexpanded q = Inr (r, q')" "npq_inv q'"
      "r = (?L ! ?c)\<lparr>nbr_expanded := True\<rparr>" "npq_live q' = ?L[?c := r]"
      "npq_capacity q' = npq_capacity q"
    using npq_closest_unexpanded_spec [OF inv more] by blast
  have c: "?c < length ?L" using more npq_invD(4) [OF inv] by (simp add: npq_has_unexpanded_node_def)
  have "npq_live q' = take ?c ?L @ r # drop (?c + 1) ?L"
    using p(4) c by (simp add: upd_conv_take_nth_drop)
  then show "\<exists>ys x zs q'. ?L = ys @ x # zs \<and> (\<forall>y \<in> set ys. nbr_expanded y) \<and> \<not> nbr_expanded x
      \<and> npq_closest_unexpanded q = Inr (x\<lparr>nbr_expanded := True\<rparr>, q') \<and> npq_ready q'
      \<and> npq_capacity q' = npq_capacity q \<and> npq_live q' = ys @ x\<lparr>nbr_expanded := True\<rparr> # zs"
    using npq_cur_first [OF inv more] p pos unfolding npq_ready_def by metis
qed

section \<open>Properties\<close>

text \<open>\<^bold>\<open>C8\<close> Inserting any sequence of distinct candidates with non-NaN distances into a fresh
  queue of capacity c > 0 never fails, and leaves exactly the c candidates of least distance
  (ties broken by id), sorted, whatever the insertion order.\<close>

theorem queue_keeps_nearest:
  assumes "0 < c" "distinct ids" "\<forall>i \<in> set ids. d i \<noteq> NaN"
  shows "\<exists>q. foldR (\<lambda>i q. npq_insert q (Neighbor i (d i))) ids (npq_make c) = Inr q
     \<and> map nbr_key (npq_live q) = take c (ranking d (set ids))"
proof -
  have step: "\<exists>q'. foldR (\<lambda>i q. npq_insert q (Neighbor i (d i))) js q = Inr q' \<and> npq_ready q'
      \<and> npq_capacity q' = c \<and> nq.tracks d (V \<union> set js) q'"
    if "npq_ready q" "npq_capacity q = c" "nq.tracks d V q" "finite V" "distinct js"
      "set js \<inter> V = {}" "\<forall>i \<in> set js. d i \<noteq> NaN" for js V q
    using that
  proof (induction js arbitrary: q V)
    case Nil
    then show ?case by simp
  next
    case (Cons j js)
    then obtain q1 where q1: "npq_insert q (Neighbor j (d j)) = Inr q1" "npq_ready q1"
        "npq_capacity q1 = c" "nq.tracks d (insert j V) q1"
      using nq.ins_tracks [of q d V j] by auto
    from Cons.IH [OF q1(2-4)] Cons.prems show ?case by (simp add: q1(1))
  qed
  have mk: "npq_ready (npq_make c)" "npq_capacity (npq_make c) = c" "nq.tracks d {} (npq_make c)"
    using assms(1) npq_make_inv [of c]
    by (simp_all add: npq_ready_def nq.tracks_def npq_live_def) (simp_all add: npq_make_def)
  obtain q where "foldR (\<lambda>i q. npq_insert q (Neighbor i (d i))) ids (npq_make c) = Inr q"
      "npq_capacity q = c" "nq.tracks d ({} \<union> set ids) q"
    using step [OF mk finite.emptyI assms(2) _ assms(3)] by blast
  then show ?thesis by (auto simp: nq.tracks_def)
qed

lemma queue_keeps_nearest_witness:
  "\<exists>q. foldR (\<lambda>i q. npq_insert q (Neighbor i (Fin (of_nat (5 - i))))) [1, 4, 2] (npq_make 2) = Inr q
     \<and> map nbr_key (npq_live q) = take 2 (ranking (\<lambda>i. Fin (of_nat (5 - i))) {1, 4, 2})"
  using queue_keeps_nearest [of 2 "[1, 4, 2]" "\<lambda>i. Fin (of_nat (5 - i))"] by simp

end
