(* ===== verification/Natural_Number_Map.thy ===== *)
theory Natural_Number_Map
  imports Prelude
begin

text \<open>
  \<^verbatim>\<open>natural_number_map\<close> (location to tag) and \<^verbatim>\<open>natural_number_set\<close> (the
  free locations) of \<^verbatim>\<open>src/natural_number_map.cpp\<close> and
  \<^verbatim>\<open>src/natural_number_set.cpp\<close>. The \<^verbatim>\<open>boost::dynamic_bitset\<close> behind
  both is a list of booleans; its documented operations used here are a resize that fills with
  zeros, \<^verbatim>\<open>test\<close> and \<^verbatim>\<open>set\<close> inside the size only, and
  \<^verbatim>\<open>find_first\<close>, \<^verbatim>\<open>find_next\<close>, where \<open>None\<close> stands for
  \<^verbatim>\<open>npos\<close>. The locales \<open>key_map\<close> and \<open>slot_pool\<close> state what the index
  relies on.
\<close>

section \<open>The bitset\<close>

fun bits_find :: "bool list \<Rightarrow> nat \<Rightarrow> nat option" where
  "bits_find [] k = None"
| "bits_find (b # bs) k = (if b then Some k else bits_find bs (k + 1))"

definition bits_find_first :: "bool list \<Rightarrow> nat option" where
  "bits_find_first bs = bits_find bs 0"

definition bits_find_next :: "bool list \<Rightarrow> nat \<Rightarrow> nat option" where
  "bits_find_next bs k = bits_find (drop (k + 1) bs) (k + 1)"

definition bits_test :: "bool list \<Rightarrow> nat \<Rightarrow> bool result" where
  "bits_test bs k = vec_at bs k"

definition bits_set :: "bool list \<Rightarrow> nat \<Rightarrow> bool \<Rightarrow> bool list result" where
  "bits_set bs k b = vec_put bs k b"

definition bits_on :: "bool list \<Rightarrow> nat set" where
  "bits_on bs = {i. i < length bs \<and> bs ! i}"

lemma finite_bits_on [simp]: "finite (bits_on bs)"
  by (rule finite_subset [of _ "{..<length bs}"]) (auto simp: bits_on_def)

lemma bits_find_Some:
  "bits_find bs k = Some i \<longleftrightarrow> k \<le> i \<and> i - k < length bs \<and> bs ! (i - k) \<and> (\<forall>j < i - k. \<not> bs ! j)"
proof (induction bs arbitrary: k)
  case Nil
  then show ?case by simp
next
  case (Cons b bs)
  show ?case
  proof (cases b)
    case True
    then show ?thesis by (auto intro: Suc_leI)
      (metis le_antisym nth_Cons_0 zero_less_diff not_le)
  next
    case False
    have s: "i - k = Suc (i - (k + 1))" if "k + 1 \<le> i" using that by simp
    show ?thesis
    proof (cases "k + 1 \<le> i")
      case True
      then show ?thesis using False Cons.IH [of "k + 1"] s [OF True] by (auto simp: All_less_Suc2)
    next
      case g: False
      then have "i - k = 0" by simp
      then show ?thesis using False g Cons.IH [of "k + 1"] by auto
    qed
  qed
qed

lemma bits_find_None: "bits_find bs k = None \<longleftrightarrow> (\<forall>b \<in> set bs. \<not> b)"
  by (induction bs arbitrary: k) auto

section \<open>The map\<close>

record 'v nnm =
  nnm_size :: nat
  nnm_values :: "'v list"
  nnm_bits :: "bool list"

definition nnm_empty :: "'v nnm" where
  "nnm_empty = \<lparr>nnm_size = 0, nnm_values = [], nnm_bits = []\<rparr>"

definition nnm_count :: "'v nnm \<Rightarrow> nat" where
  "nnm_count m = nnm_size m"

definition nnm_set :: "('v::zero) nnm \<Rightarrow> nat \<Rightarrow> 'v \<Rightarrow> 'v nnm" where
  "nnm_set m key value =
     (let m1 = (if length (nnm_bits m) \<le> key
                then let bits = vec_resize False (key + 1) (nnm_bits m)
                     in m\<lparr>nnm_bits := bits, nnm_values := vec_resize 0 (length bits) (nnm_values m)\<rparr>
                else m);
          was_present = nnm_bits m1 ! key
      in m1\<lparr>nnm_values := (nnm_values m1)[key := value],
            nnm_bits := (nnm_bits m1)[key := True],
            nnm_size := (if was_present then nnm_size m1 else nnm_size m1 + 1)\<rparr>)"

definition nnm_erase :: "'v nnm \<Rightarrow> nat \<Rightarrow> 'v nnm" where
  "nnm_erase m key =
     (if key < length (nnm_bits m)
      then let was_present = nnm_bits m ! key
           in m\<lparr>nnm_bits := (nnm_bits m)[key := False],
                nnm_size := (if was_present then nnm_size m - 1 else nnm_size m)\<rparr>
      else m)"

definition nnm_contains :: "'v nnm \<Rightarrow> nat \<Rightarrow> bool" where
  "nnm_contains m key \<longleftrightarrow> key < length (nnm_bits m) \<and> nnm_bits m ! key"

definition nnm_try_get :: "'v nnm \<Rightarrow> nat \<Rightarrow> 'v option" where
  "nnm_try_get m key = (if \<not> nnm_contains m key then None else Some (nnm_values m ! key))"

definition nnm_clear :: "'v nnm \<Rightarrow> 'v nnm" where
  "nnm_clear m = m\<lparr>nnm_size := 0, nnm_values := [], nnm_bits := []\<rparr>"

text \<open>Enumeration positions.\<close>

record nnm_position =
  pos_key :: "nat option"
  pos_enumerated :: nat

definition nnm_is_valid :: "nnm_position \<Rightarrow> bool" where
  "nnm_is_valid pos \<longleftrightarrow> pos_key pos \<noteq> None"

definition nnm_find_first :: "'v nnm \<Rightarrow> nnm_position" where
  "nnm_find_first m =
     \<lparr>pos_key = (if 0 < nnm_size m then bits_find_first (nnm_bits m) else None), pos_enumerated = 0\<rparr>"

definition nnm_find_next :: "'v nnm \<Rightarrow> nnm_position \<Rightarrow> nnm_position" where
  "nnm_find_next m after =
     \<lparr>pos_key = (if pos_enumerated after < nnm_size m
                 then (case pos_key after of None \<Rightarrow> None | Some k \<Rightarrow> bits_find_next (nnm_bits m) k)
                 else None),
      pos_enumerated = pos_enumerated after + 1\<rparr>"

definition nnm_get :: "'v nnm \<Rightarrow> nnm_position \<Rightarrow> 'v result" where
  "nnm_get m pos = (case pos_key pos of None \<Rightarrow> Inl UndefinedBehaviour | Some k \<Rightarrow> vec_at (nnm_values m) k)"

text \<open>
  The enumeration loop \<^verbatim>\<open>for (pos = find_first(); pos.is_valid(); pos = find_next(pos))\<close>
  as its callers write it, collecting the keys.
\<close>

lemma bits_find_next_greater:
  "bits_find_next bs k = Some i \<Longrightarrow> k < i \<and> i < length bs"
  by (auto simp: bits_find_next_def bits_find_Some)

function nnm_enumerate :: "'v nnm \<Rightarrow> nnm_position \<Rightarrow> nat list" where
  "nnm_enumerate m pos =
     (if nnm_is_valid pos then the (pos_key pos) # nnm_enumerate m (nnm_find_next m pos) else [])"
  by pat_completeness auto
termination
proof (relation "measure (\<lambda>(m, pos). case pos_key pos of None \<Rightarrow> 0 | Some k \<Rightarrow> Suc (length (nnm_bits m) - k))")
  show "wf (measure (\<lambda>(m, pos). case pos_key pos of None \<Rightarrow> 0 | Some k \<Rightarrow> Suc (length (nnm_bits m) - k)))"
    by simp
next
  fix m :: "'v nnm" and pos
  assume "nnm_is_valid pos"
  then show "((m, nnm_find_next m pos), m, pos) \<in>
      measure (\<lambda>(m, pos). case pos_key pos of None \<Rightarrow> 0 | Some k \<Rightarrow> Suc (length (nnm_bits m) - k))"
    by (auto simp: nnm_is_valid_def nnm_find_next_def split: option.splits
        dest!: bits_find_next_greater)
qed

declare nnm_enumerate.simps [simp del]

subsection \<open>Correctness of the map\<close>

definition nnm_inv :: "'v nnm \<Rightarrow> bool" where
  "nnm_inv m \<longleftrightarrow> length (nnm_values m) = length (nnm_bits m) \<and> nnm_size m = card (bits_on (nnm_bits m))"

lemma nnm_empty_inv [simp]: "nnm_inv nnm_empty"
  by (simp add: nnm_inv_def nnm_empty_def bits_on_def)

lemma nnm_clear_inv [simp]: "nnm_inv (nnm_clear m)" "nnm_try_get (nnm_clear m) = Map.empty"
  by (auto simp: nnm_inv_def nnm_clear_def bits_on_def nnm_try_get_def nnm_contains_def)

lemma nnm_try_get_empty [simp]: "nnm_try_get nnm_empty = Map.empty"
  by (auto simp: nnm_try_get_def nnm_contains_def nnm_empty_def)

lemma nnm_contains_iff: "nnm_contains m k \<longleftrightarrow> k \<in> dom (nnm_try_get m)"
  by (auto simp: nnm_try_get_def split: if_splits)

lemma dom_nnm_try_get: "dom (nnm_try_get m) = bits_on (nnm_bits m)"
  by (auto simp: nnm_try_get_def nnm_contains_def bits_on_def split: if_splits)

lemma bits_on_resize: "length bs \<le> n \<Longrightarrow> bits_on (vec_resize False n bs) = bits_on bs"
  by (auto simp: bits_on_def nth_vec_resize split: if_splits)

lemma bits_on_update: "k < length bs \<Longrightarrow>
  bits_on (bs[k := b]) = (if b then insert k (bits_on bs) else bits_on bs - {k})"
  by (auto simp: bits_on_def nth_list_update split: if_splits)

lemma nnm_set_correct:
  assumes "nnm_inv m"
  shows "nnm_inv (nnm_set m k v)" and "nnm_try_get (nnm_set m k v) = (nnm_try_get m)(k \<mapsto> v)"
proof -
  define m1 where "m1 = (if length (nnm_bits m) \<le> k
                then let bits = vec_resize False (k + 1) (nnm_bits m)
                     in m\<lparr>nnm_bits := bits, nnm_values := vec_resize 0 (length bits) (nnm_values m)\<rparr>
                else m)"
  have m1: "length (nnm_values m1) = length (nnm_bits m1)" "k < length (nnm_bits m1)"
    "bits_on (nnm_bits m1) = bits_on (nnm_bits m)" "nnm_size m1 = nnm_size m"
    using assms by (auto simp: m1_def Let_def nnm_inv_def bits_on_resize)
  have get: "nnm_try_get m1 = nnm_try_get m"
  proof
    fix i
    have "nnm_contains m1 i = nnm_contains m i" using m1(3) by (auto simp: nnm_contains_def bits_on_def)
    moreover have "nnm_values m1 ! i = nnm_values m ! i" if "nnm_contains m i"
      using that assms by (auto simp: m1_def Let_def nnm_contains_def nnm_inv_def nth_vec_resize)
    ultimately show "nnm_try_get m1 i = nnm_try_get m i" by (simp add: nnm_try_get_def)
  qed
  have s: "nnm_set m k v = m1\<lparr>nnm_values := (nnm_values m1)[k := v], nnm_bits := (nnm_bits m1)[k := True],
            nnm_size := (if nnm_bits m1 ! k then nnm_size m1 else nnm_size m1 + 1)\<rparr>"
    by (simp add: nnm_set_def m1_def [symmetric] Let_def)
  have "k \<in> bits_on (nnm_bits m1) \<longleftrightarrow> nnm_bits m1 ! k" using m1(2) by (simp add: bits_on_def)
  then show "nnm_inv (nnm_set m k v)"
    using m1 assms by (simp add: s nnm_inv_def bits_on_update insert_absorb)
  show "nnm_try_get (nnm_set m k v) = (nnm_try_get m)(k \<mapsto> v)"
  proof
    fix i
    show "nnm_try_get (nnm_set m k v) i = ((nnm_try_get m)(k \<mapsto> v)) i"
      using m1(1,2) unfolding get [symmetric]
      by (auto simp: s nnm_try_get_def nnm_contains_def nth_list_update)
  qed
qed

lemma nnm_erase_correct:
  assumes "nnm_inv m"
  shows "nnm_inv (nnm_erase m k)" and "nnm_try_get (nnm_erase m k) = (nnm_try_get m)(k := None)"
proof -
  have "k \<in> bits_on (nnm_bits m) \<longleftrightarrow> k < length (nnm_bits m) \<and> nnm_bits m ! k" by (simp add: bits_on_def)
  then show "nnm_inv (nnm_erase m k)"
    using assms by (simp add: nnm_erase_def nnm_inv_def Let_def bits_on_update)
  show "nnm_try_get (nnm_erase m k) = (nnm_try_get m)(k := None)"
    by (rule ext) (auto simp: nnm_erase_def nnm_try_get_def nnm_contains_def Let_def nth_list_update)
qed

lemma nnm_count_correct: "nnm_inv m \<Longrightarrow> nnm_count m = card (dom (nnm_try_get m))"
  by (simp add: nnm_count_def nnm_inv_def dom_nnm_try_get)

text \<open>
  The enumeration visits every key once, in increasing order. The cut-off by the count of
  enumerated keys never ends it early.
\<close>

lemma filter_upt_find_None:
  assumes "bits_find (drop k bs) k = None"
  shows "filter (\<lambda>i. bs ! i) [k..<length bs] = []"
proof -
  have "\<not> bs ! i" if "k \<le> i" "i < length bs" for i
  proof -
    have "drop k bs ! (i - k) \<in> set (drop k bs)" using that by (intro nth_mem) simp
    then show ?thesis using assms that by (auto simp: bits_find_None)
  qed
  then show ?thesis by (simp add: filter_empty_conv)
qed

lemma filter_upt_find_Some:
  assumes "bits_find (drop k bs) k = Some i"
  shows "filter (\<lambda>i. bs ! i) [k..<length bs] = i # filter (\<lambda>i. bs ! i) [i + 1..<length bs]"
proof -
  from assms have i: "k \<le> i" "i - k < length bs - k" "bs ! i" and
    no: "\<forall>j < i - k. \<not> bs ! (k + j)" by (auto simp: bits_find_Some)
  then have l: "i < length bs" by simp
  have "[k..<length bs] = [k..<i] @ [i..<length bs]"
    using upt_add_eq_append [OF i(1), of "length bs - i"] l by simp
  also have "[i..<length bs] = i # [i + 1..<length bs]" using l by (simp add: upt_conv_Cons)
  finally have "[k..<length bs] = [k..<i] @ i # [i + 1..<length bs]" .
  moreover have "\<not> bs ! j" if "j \<in> set [k..<i]" for j
    using no [rule_format, of "j - k"] that by (simp add: diff_less_mono)
  then have "filter (\<lambda>i. bs ! i) [k..<i] = []" by (simp add: filter_empty_conv)
  ultimately show ?thesis using i(3) by simp
qed

lemma nnm_enumerate_from:
  assumes "nnm_inv m" "pos_key pos = bits_find (drop k (nnm_bits m)) k"
    and "pos_enumerated pos = card (bits_on (nnm_bits m) \<inter> {..<k})"
  shows "nnm_enumerate m pos = filter (\<lambda>i. nnm_bits m ! i) [k..<length (nnm_bits m)]"
  using assms
proof (induction m pos arbitrary: k rule: nnm_enumerate.induct)
  case (1 m pos)
  let ?bs = "nnm_bits m"
  show ?case
  proof (cases "pos_key pos")
    case None
    then have "\<not> nnm_is_valid pos" by (simp add: nnm_is_valid_def)
    then show ?thesis
      using None "1.prems"(2) by (simp add: nnm_enumerate.simps [of m pos] filter_upt_find_None)
  next
    case (Some i)
    then have v: "nnm_is_valid pos" by (simp add: nnm_is_valid_def)
    have f: "bits_find (drop k ?bs) k = Some i" using Some "1.prems"(2) by simp
    then have i: "k \<le> i" "i < length ?bs" "?bs ! i" and no: "\<forall>j < i - k. \<not> ?bs ! (k + j)"
      by (auto simp: bits_find_Some)
    have on: "i \<in> bits_on ?bs" using i by (simp add: bits_on_def)
    have none: "\<not> ?bs ! j" if "k \<le> j" "j < i" for j
      using no that by (metis le_add_diff_inverse diff_less_mono)
    have split: "bits_on ?bs \<inter> {..<i + 1} = insert i (bits_on ?bs \<inter> {..<k})"
      using on i(1) none by (auto simp: bits_on_def less_Suc_eq) (metis linorder_not_le)
    have c: "card (bits_on ?bs \<inter> {..<i + 1}) = card (bits_on ?bs \<inter> {..<k}) + 1"
      unfolding split using i(1) by simp
    have "card (bits_on ?bs \<inter> {..<i + 1}) \<le> nnm_size m"
      using "1.prems"(1) by (simp add: nnm_inv_def card_mono)
    then have lt: "pos_enumerated pos < nnm_size m" using c "1.prems"(3) by simp
    have "nnm_enumerate m (nnm_find_next m pos) = filter (\<lambda>i. ?bs ! i) [i + 1..<length ?bs]"
      by (rule "1.IH" [OF v "1.prems"(1)])
        (use lt Some c "1.prems"(3) in \<open>simp_all add: nnm_find_next_def bits_find_next_def\<close>)
    then show ?thesis
      using filter_upt_find_Some [OF f] Some v by (simp add: nnm_enumerate.simps [of m pos])
  qed
qed

lemma nnm_enumerate_all:
  assumes "nnm_inv m"
  shows "nnm_enumerate m (nnm_find_first m) = sorted_list_of_set (dom (nnm_try_get m))"
proof -
  let ?bs = "nnm_bits m"
  have key: "pos_key (nnm_find_first m) = bits_find (drop 0 ?bs) 0"
  proof (cases "0 < nnm_size m")
    case True
    then show ?thesis by (simp add: nnm_find_first_def bits_find_first_def)
  next
    case False
    then have "bits_on ?bs = {}" using assms by (simp add: nnm_inv_def)
    then have "bits_find ?bs 0 = None" by (auto simp: bits_find_None bits_on_def in_set_conv_nth)
    then show ?thesis using False by (simp add: nnm_find_first_def)
  qed
  have "nnm_enumerate m (nnm_find_first m) = filter (\<lambda>i. ?bs ! i) [0..<length ?bs]"
    by (rule nnm_enumerate_from [OF assms key]) (simp add: nnm_find_first_def)
  moreover have "sorted_list_of_set (set (filter (\<lambda>i. ?bs ! i) [0..<length ?bs]))
      = filter (\<lambda>i. ?bs ! i) [0..<length ?bs]"
    by (intro sorted_list_of_set.idem_if_sorted_distinct sorted_wrt_filter) simp_all
  moreover have "set (filter (\<lambda>i. ?bs ! i) [0..<length ?bs]) = bits_on ?bs"
    by (auto simp: bits_on_def)
  ultimately show ?thesis by (simp add: dom_nnm_try_get)
qed

section \<open>The set of free locations\<close>

record nns =
  nns_values :: "nat list"
  nns_bits :: "bool list"

definition nns_empty :: nns where
  "nns_empty = \<lparr>nns_values = [], nns_bits = []\<rparr>"

definition nns_is_empty :: "nns \<Rightarrow> bool" where
  "nns_is_empty s \<longleftrightarrow> nns_values s = []"

definition nns_insert :: "nns \<Rightarrow> nat \<Rightarrow> nns" where
  "nns_insert s k =
     (let bits = (if length (nns_bits s) \<le> k then vec_resize False (k + 1) (nns_bits s) else nns_bits s)
      in \<lparr>nns_values = nns_values s @ [k], nns_bits = bits[k := True]\<rparr>)"

definition nns_pop_any :: "nns \<Rightarrow> (nat \<times> nns) result" where
  "nns_pop_any s =
     (if nns_values s = [] then Inl (ANNException ''No values available'')
      else let k = last (nns_values s)
           in bindR (bits_set (nns_bits s) k False) (\<lambda>bits.
                Inr (k, \<lparr>nns_values = butlast (nns_values s), nns_bits = bits\<rparr>)))"

definition nns_clear :: "nns \<Rightarrow> nns" where
  "nns_clear s = \<lparr>nns_values = [], nns_bits = []\<rparr>"

definition nns_size :: "nns \<Rightarrow> nat" where
  "nns_size s = length (nns_values s)"

text \<open>\<^verbatim>\<open>is_in_set\<close> tests the bit without looking at the size of the bitset.\<close>

definition nns_is_in_set :: "nns \<Rightarrow> nat \<Rightarrow> bool result" where
  "nns_is_in_set s k = bits_test (nns_bits s) k"

definition nns_inv :: "nns \<Rightarrow> bool" where
  "nns_inv s \<longleftrightarrow> distinct (nns_values s) \<and> set (nns_values s) = bits_on (nns_bits s)"

definition nns_elems :: "nns \<Rightarrow> nat set" where
  "nns_elems s = set (nns_values s)"

lemma nns_empty_correct [simp]:
  "nns_inv nns_empty" "nns_elems nns_empty = {}" "nns_inv (nns_clear s)" "nns_elems (nns_clear s) = {}"
  "nns_size (nns_clear s) = 0" "nns_bits (nns_clear s) = []"
  by (simp_all add: nns_inv_def nns_empty_def nns_clear_def nns_elems_def bits_on_def nns_size_def)

lemma nns_insert_correct:
  assumes "nns_inv s" "k \<notin> nns_elems s"
  shows "nns_inv (nns_insert s k)" "nns_elems (nns_insert s k) = insert k (nns_elems s)"
    and "nns_size (nns_insert s k) = nns_size s + 1"
proof -
  define bits where
    "bits = (if length (nns_bits s) \<le> k then vec_resize False (k + 1) (nns_bits s) else nns_bits s)"
  have i: "nns_insert s k = \<lparr>nns_values = nns_values s @ [k], nns_bits = bits[k := True]\<rparr>"
    by (simp add: nns_insert_def bits_def Let_def)
  have "bits_on bits = bits_on (nns_bits s)" "k < length bits"
    by (auto simp: bits_def bits_on_resize)
  then have "bits_on (bits[k := True]) = insert k (bits_on (nns_bits s))" by (simp add: bits_on_update)
  then show "nns_inv (nns_insert s k)" using assms by (simp add: i nns_inv_def nns_elems_def)
  show "nns_elems (nns_insert s k) = insert k (nns_elems s)" by (simp add: i nns_elems_def)
  show "nns_size (nns_insert s k) = nns_size s + 1" by (simp add: i nns_size_def)
qed

lemma nns_pop_any_correct:
  assumes "nns_inv s" "nns_elems s \<noteq> {}"
  shows "\<exists>k s'. nns_pop_any s = Inr (k, s') \<and> k \<in> nns_elems s \<and> nns_inv s'
           \<and> nns_elems s' = nns_elems s - {k} \<and> nns_size s = nns_size s' + 1"
proof -
  obtain vs k where v: "nns_values s = vs @ [k]"
    using assms(2) by (cases "nns_values s" rule: rev_cases) (auto simp: nns_elems_def)
  have d: "distinct (vs @ [k])" and on: "insert k (set vs) = bits_on (nns_bits s)"
    using assms(1) by (simp_all add: nns_inv_def v)
  then have k: "k < length (nns_bits s)" by (auto simp: bits_on_def)
  have "bits_on ((nns_bits s)[k := False]) = set vs" using d on k by (auto simp: bits_on_update)
  then show ?thesis
    using d k by (auto simp: nns_pop_any_def v Let_def bits_set_def nns_inv_def nns_elems_def nns_size_def)
qed

lemma nns_pop_any_empty: "nns_elems s = {} \<Longrightarrow> nns_pop_any s = Inl (ANNException ''No values available'')"
  by (simp add: nns_pop_any_def nns_elems_def)

lemma nns_is_in_set_inside:
  "nns_inv s \<Longrightarrow> k < length (nns_bits s) \<Longrightarrow> nns_is_in_set s k = Inr (k \<in> nns_elems s)"
  by (auto simp: nns_is_in_set_def bits_test_def nns_inv_def nns_elems_def bits_on_def)

lemma nns_is_in_set_outside:
  "length (nns_bits s) \<le> k \<Longrightarrow> nns_is_in_set s k = Inl UndefinedBehaviour"
  by (simp add: nns_is_in_set_def bits_test_def vec_at_out)

lemma nns_is_in_set_member: "nns_inv s \<Longrightarrow> k \<in> nns_elems s \<Longrightarrow> nns_is_in_set s k = Inr True"
  by (auto simp: nns_is_in_set_def bits_test_def nns_inv_def nns_elems_def bits_on_def)

lemma nns_is_empty_iff: "nns_is_empty s \<longleftrightarrow> nns_elems s = {}"
  by (simp add: nns_is_empty_def nns_elems_def)

lemma nns_size_card: "nns_inv s \<Longrightarrow> nns_size s = card (nns_elems s)"
  using distinct_card [of "nns_values s"] by (simp add: nns_inv_def nns_size_def nns_elems_def)

lemma finite_nns_elems [simp]: "finite (nns_elems s)"
  by (simp add: nns_elems_def)

section \<open>Interfaces\<close>

text \<open>A map from keys to values with a count, as the index uses it for its tags.\<close>

locale key_map =
  fixes upd :: "'m \<Rightarrow> nat \<Rightarrow> 'v \<Rightarrow> 'm"
    and del :: "'m \<Rightarrow> nat \<Rightarrow> 'm"
    and look :: "'m \<Rightarrow> nat \<Rightarrow> 'v option"
    and cnt :: "'m \<Rightarrow> nat"
    and inv :: "'m \<Rightarrow> bool"
  assumes look_upd: "inv m \<Longrightarrow> look (upd m k v) = (look m)(k \<mapsto> v)"
    and look_del: "inv m \<Longrightarrow> look (del m k) = (look m)(k := None)"
    and inv_upd: "inv m \<Longrightarrow> inv (upd m k v)"
    and inv_del: "inv m \<Longrightarrow> inv (del m k)"
    and cnt_card: "inv m \<Longrightarrow> cnt m = card (dom (look m))"
    and finite_keys: "inv m \<Longrightarrow> finite (dom (look m))"
begin

text \<open>The two directions of the tag table are inverse to each other.\<close>

definition inverse_of :: "'m \<Rightarrow> ('v \<rightharpoonup> nat) \<Rightarrow> bool" where
  "inverse_of m back \<longleftrightarrow> (\<forall>k v. look m k = Some v \<longleftrightarrow> back v = Some k)"

lemma inverse_upd:
  assumes "inv m" "inverse_of m back" "look m k = None" "back v = None"
  shows "inverse_of (upd m k v) (back(v \<mapsto> k))"
proof -
  have iff: "look m k' = Some v' \<longleftrightarrow> back v' = Some k'" for k' v'
    using assms(2) by (simp add: inverse_of_def)
  have nv: "look m k' \<noteq> Some v" for k' using iff [of k' v] assms(4) by simp
  have nk: "back v' \<noteq> Some k" for v' using iff [of k v'] assms(3) by simp
  show ?thesis unfolding inverse_of_def look_upd [OF assms(1)]
  proof (intro allI)
    fix k' v'
    show "((look m)(k \<mapsto> v)) k' = Some v' \<longleftrightarrow> (back(v \<mapsto> k)) v' = Some k'"
      using iff [of k' v'] nv [of k'] nk [of v'] by (cases "k' = k"; cases "v' = v") auto
  qed
qed

lemma inverse_del:
  assumes "inv m" "inverse_of m back" "back v = Some k"
  shows "inverse_of (del m k) (back(v := None))"
proof -
  have iff: "look m k' = Some v' \<longleftrightarrow> back v' = Some k'" for k' v'
    using assms(2) by (simp add: inverse_of_def)
  show ?thesis unfolding inverse_of_def look_del [OF assms(1)]
  proof (intro allI)
    fix k' v'
    have "look m k = Some v" using iff assms(3) by simp
    then show "((look m)(k := None)) k' = Some v' \<longleftrightarrow> (back(v := None)) v' = Some k'"
      using iff [of k' v'] assms(3) by (cases "k' = k"; cases "v' = v") auto
  qed
qed

lemma inverse_dom:
  assumes "inv m" "inverse_of m back"
  shows "dom (look m) = ran back" "dom back = ran (look m)" "finite (dom back)"
    and "cnt m = card (dom back)"
proof -
  have iff: "look m k = Some v \<longleftrightarrow> back v = Some k" for k v
    using assms(2) by (simp add: inverse_of_def)
  show d: "dom (look m) = ran back" unfolding dom_def ran_def using iff by blast
  show r: "dom back = ran (look m)" unfolding dom_def ran_def using iff by blast
  have the: "back (the (look m k)) = Some k" if k: "k \<in> dom (look m)" for k
  proof -
    obtain v where "look m k = Some v" using k by blast
    then show ?thesis using iff [of k v] by simp
  qed
  have inj: "inj_on (\<lambda>k. the (look m k)) (dom (look m))"
  proof (rule inj_onI)
    fix j k
    assume jk: "j \<in> dom (look m)" "k \<in> dom (look m)" and eq: "the (look m j) = the (look m k)"
    have "Some j = back (the (look m k))" unfolding eq [symmetric] by (rule the [OF jk(1), symmetric])
    then show "j = k" unfolding the [OF jk(2)] by (rule option.inject [THEN iffD1])
  qed
  have im: "(\<lambda>k. the (look m k)) ` dom (look m) = dom back"
  proof (intro equalityI subsetI)
    fix v assume "v \<in> (\<lambda>k. the (look m k)) ` dom (look m)"
    then show "v \<in> dom back" using the by blast
  next
    fix v assume "v \<in> dom back"
    then obtain k where "back v = Some k" by blast
    then have "look m k = Some v" by (simp only: iff)
    then show "v \<in> (\<lambda>k. the (look m k)) ` dom (look m)" by (intro image_eqI [of _ _ k]) auto
  qed
  show "finite (dom back)" using finite_keys [OF assms(1)] im by (metis finite_imageI)
  show "cnt m = card (dom back)" using card_image [OF inj] im cnt_card [OF assms(1)] by simp
qed

end

interpretation nnm_map: key_map "nnm_set :: ('v::zero) nnm \<Rightarrow> _" nnm_erase nnm_try_get nnm_count nnm_inv
  by unfold_locales
    (simp_all add: nnm_set_correct nnm_erase_correct nnm_count_correct dom_nnm_try_get)

text \<open>A pool of free locations: insertion of a new one, and removal of any one.\<close>

locale slot_pool =
  fixes put :: "'p \<Rightarrow> nat \<Rightarrow> 'p"
    and take_any :: "'p \<Rightarrow> (nat \<times> 'p) result"
    and free :: "'p \<Rightarrow> nat set"
    and cnt :: "'p \<Rightarrow> nat"
    and inv :: "'p \<Rightarrow> bool"
  assumes put_law: "inv p \<Longrightarrow> k \<notin> free p \<Longrightarrow> inv (put p k) \<and> free (put p k) = insert k (free p)"
    and take_law: "inv p \<Longrightarrow> free p \<noteq> {} \<Longrightarrow>
      \<exists>k p'. take_any p = Inr (k, p') \<and> k \<in> free p \<and> inv p' \<and> free p' = free p - {k}"
    and cnt_law: "inv p \<Longrightarrow> cnt p = card (free p)"
    and finite_free: "inv p \<Longrightarrow> finite (free p)"
begin

lemma put_all:
  "inv p \<Longrightarrow> distinct ks \<Longrightarrow> set ks \<inter> free p = {} \<Longrightarrow>
     inv (foldl put p ks) \<and> free (foldl put p ks) = free p \<union> set ks"
proof (induction ks arbitrary: p)
  case Nil
  then show ?case by simp
next
  case (Cons k ks)
  have p: "inv (put p k)" "free (put p k) = insert k (free p)"
    using put_law [OF Cons.prems(1), of k] Cons.prems(3) by auto
  show ?case using Cons.IH [OF p(1)] Cons.prems(2,3) p(2) by auto
qed

lemma take_put_cnt:
  assumes "inv p" "free p \<noteq> {}" "take_any p = Inr (k, p')"
  shows "k \<in> free p" "inv p'" "free p' = free p - {k}" "cnt p = cnt p' + 1"
proof -
  show t: "k \<in> free p" "inv p'" "free p' = free p - {k}"
    using take_law [OF assms(1,2)] assms(3) by auto
  show "cnt p = cnt p' + 1"
    using card.remove [OF finite_free [OF assms(1)] t(1)] cnt_law [OF assms(1)] cnt_law [OF t(2)] t(3)
    by simp
qed

end

interpretation slots: slot_pool nns_insert nns_pop_any nns_elems nns_size nns_inv
proof
  fix p k assume "nns_inv p" "k \<notin> nns_elems p"
  then show "nns_inv (nns_insert p k) \<and> nns_elems (nns_insert p k) = insert k (nns_elems p)"
    using nns_insert_correct by blast
next
  fix p assume "nns_inv p" "nns_elems p \<noteq> {}"
  then show "\<exists>k p'. nns_pop_any p = Inr (k, p') \<and> k \<in> nns_elems p \<and> nns_inv p' \<and> nns_elems p' = nns_elems p - {k}"
    using nns_pop_any_correct by blast
qed (simp_all add: nns_size_card)

section \<open>Properties\<close>

definition nnm_op :: "nat \<times> ('v::zero) option \<Rightarrow> 'v nnm \<Rightarrow> 'v nnm" where
  "nnm_op kv m = (case snd kv of None \<Rightarrow> nnm_erase m (fst kv) | Some v \<Rightarrow> nnm_set m (fst kv) v)"

lemma nnm_ops_correct:
  "nnm_inv m \<Longrightarrow> nnm_inv (fold nnm_op ops m)
     \<and> nnm_try_get (fold nnm_op ops m) = fold (\<lambda>(k, v) f. f(k := v)) ops (nnm_try_get m)"
proof (induction ops arbitrary: m)
  case (Cons kv ops)
  have "nnm_inv (nnm_op kv m)" "nnm_try_get (nnm_op kv m) = (nnm_try_get m)(fst kv := snd kv)"
    using Cons.prems by (cases "snd kv"; simp add: nnm_op_def nnm_set_correct nnm_erase_correct)+
  then show ?case using Cons.IH by (simp add: case_prod_unfold)
qed simp

text \<open>\<^bold>\<open>C19\<close> After any sequence of set and erase operations the bitset-backed map holds what a
  finite map holds after the same updates, its count is the number of keys present, and the
  find-first/find-next enumeration visits every key once, in increasing order.\<close>

theorem nnm_is_a_map:
  "nnm_try_get (fold nnm_op ops nnm_empty) = fold (\<lambda>(k, v) f. f(k := v)) ops Map.empty
   \<and> nnm_count (fold nnm_op ops nnm_empty) = card (dom (nnm_try_get (fold nnm_op ops nnm_empty)))
   \<and> nnm_enumerate (fold nnm_op ops nnm_empty) (nnm_find_first (fold nnm_op ops nnm_empty))
       = sorted_list_of_set (dom (nnm_try_get (fold nnm_op ops nnm_empty)))"
proof -
  have inv: "nnm_inv (fold nnm_op ops nnm_empty)" and
    get: "nnm_try_get (fold nnm_op ops nnm_empty) = fold (\<lambda>(k, v) f. f(k := v)) ops Map.empty"
    using nnm_ops_correct [OF nnm_empty_inv, of ops] by simp_all
  show ?thesis by (intro conjI get nnm_count_correct [OF inv] nnm_enumerate_all [OF inv])
qed

end
