(* ===== verification/Scratch_Pool.thy ===== *)
theory Scratch_Pool
  imports Neighbor_Queue "HOL-Library.Multiset"
begin

text \<open>
  The query scratch spaces: \<^verbatim>\<open>include/concurrent_queue.h\<close> (the shared queue),
  \<^verbatim>\<open>include/scratch.h\<close> and \<^verbatim>\<open>src/scratch.cpp\<close> (the in-memory and SSD
  scratch, and \<^verbatim>\<open>ScratchStoreManager\<close>, which takes a scratch space from the queue in
  its constructor and clears and returns it in its destructor). The managers of concurrent
  threads are a step relation over one shared queue; every queue operation holds the queue's
  mutex, so it is one atomic step.
\<close>

section \<open>The concurrent queue\<close>

record 'a cq =
  cq_items :: "'a list"
  cq_null :: 'a

definition cq_make :: "'a \<Rightarrow> 'a cq" where
  "cq_make nullT = \<lparr>cq_items = [], cq_null = nullT\<rparr>"

definition cq_size :: "'a cq \<Rightarrow> nat" where
  "cq_size q = length (cq_items q)"

definition cq_empty :: "'a cq \<Rightarrow> bool" where
  "cq_empty q \<longleftrightarrow> cq_size q = 0"

definition cq_push :: "'a cq \<Rightarrow> 'a \<Rightarrow> 'a cq" where
  "cq_push q x = q\<lparr>cq_items := cq_items q @ [x]\<rparr>"

definition cq_insert :: "'a cq \<Rightarrow> 'a list \<Rightarrow> 'a cq" where
  "cq_insert q xs = fold (\<lambda>x q. cq_push q x) xs q"

definition cq_pop :: "'a cq \<Rightarrow> 'a \<times> 'a cq" where
  "cq_pop q = (case cq_items q of [] \<Rightarrow> (cq_null q, q) | x # xs \<Rightarrow> (x, q\<lparr>cq_items := xs\<rparr>))"

lemma cq_insert_items: "cq_items (cq_insert q xs) = cq_items q @ xs"
  by (induction xs arbitrary: q) (simp_all add: cq_insert_def cq_push_def)

text \<open>The interface of a shared pool of objects, with \<open>None\<close> for "nothing there".\<close>

locale object_pool =
  fixes give :: "'q \<Rightarrow> 'a \<Rightarrow> 'q"
    and grab :: "'q \<Rightarrow> 'a option \<times> 'q"
    and contents :: "'q \<Rightarrow> 'a list"
  assumes give_law: "contents (give q x) = contents q @ [x]"
    and grab_empty: "contents q = [] \<Longrightarrow> grab q = (None, q)"
    and grab_first: "contents q = x # xs \<Longrightarrow> \<exists>q'. grab q = (Some x, q') \<and> contents q' = xs"
begin

lemma grab_cases:
  assumes "grab q = (r, q')"
  shows "(r = None \<and> contents q = [] \<and> q' = q) \<or> (\<exists>x. r = Some x \<and> contents q = x # contents q')"
proof (cases "contents q")
  case Nil
  then show ?thesis using grab_empty [OF Nil] assms by simp
next
  case (Cons x xs)
  then show ?thesis using grab_first [OF Cons] assms by auto
qed

text \<open>First in, first out.\<close>

lemma give_grab: "contents q = [] \<Longrightarrow> fst (grab (give (give q x) y)) = Some x"
  using grab_first [of "give (give q x) y" x "[y]"] by (auto simp: give_law)

end

text \<open>A queue of scratch pointers, with \<^verbatim>\<open>nullptr\<close> as the null element.\<close>

definition ptr_items :: "'a option cq \<Rightarrow> 'a list" where
  "ptr_items q = map the (cq_items q)"

definition ptr_queue :: "'a option cq \<Rightarrow> bool" where
  "ptr_queue q \<longleftrightarrow> cq_null q = None \<and> None \<notin> set (cq_items q)"

typedef 'a ptr_cq = "{q :: 'a option cq. ptr_queue q}"
  by (rule exI [of _ "cq_make None"]) (simp add: ptr_queue_def cq_make_def)

setup_lifting type_definition_ptr_cq

lift_definition pq_give :: "'a ptr_cq \<Rightarrow> 'a \<Rightarrow> 'a ptr_cq" is "\<lambda>q x. cq_push q (Some x)"
  by (simp add: ptr_queue_def cq_push_def)

lift_definition pq_grab :: "'a ptr_cq \<Rightarrow> 'a option \<times> 'a ptr_cq" is cq_pop
  by (auto simp: ptr_queue_def cq_pop_def split: list.splits)

lift_definition pq_contents :: "'a ptr_cq \<Rightarrow> 'a list" is ptr_items .

lift_definition pq_new :: "'a ptr_cq" is "cq_make None"
  by (simp add: ptr_queue_def cq_make_def)

lemma pq_new_contents [simp]: "pq_contents pq_new = []"
  by transfer (simp add: ptr_items_def cq_make_def)

interpretation scratch_q: object_pool pq_give pq_grab pq_contents
proof
  fix q :: "'a ptr_cq" and x
  show "pq_contents (pq_give q x) = pq_contents q @ [x]"
    by transfer (simp add: ptr_items_def cq_push_def)
next
  fix q :: "'a ptr_cq"
  assume "pq_contents q = []"
  then show "pq_grab q = (None, q)"
    by transfer (simp add: ptr_items_def cq_pop_def ptr_queue_def)
next
  fix q :: "'a ptr_cq" and x xs
  assume "pq_contents q = x # xs"
  then show "\<exists>q'. pq_grab q = (Some x, q') \<and> pq_contents q' = xs"
    by transfer (auto simp: ptr_items_def cq_pop_def ptr_queue_def split: list.splits)
qed

section \<open>Scratch spaces\<close>

text \<open>
  \<^verbatim>\<open>InMemQueryScratch\<close>. Vector capacities have no effect on values and are not
  kept; the two robin sets are sets.
\<close>

record 'a scratch =
  sc_L :: nat
  sc_R :: nat
  sc_maxc :: nat
  sc_query :: "'a list"
  sc_pool :: "neighbor list"
  sc_best :: npq
  sc_occlude :: "fl list"
  sc_inserted_rs :: "nat set"
  sc_inserted_bs :: "bool list"
  sc_ids :: "nat list"
  sc_dists :: "fl list"
  sc_expanded_set :: "nat set"
  sc_expanded_vec :: "neighbor list"
  sc_occlude_out :: "nat list"

definition resize_for_new_L :: "nat \<Rightarrow> 'a scratch \<Rightarrow> 'a scratch" where
  "resize_for_new_L new_l s =
     (if sc_L s < new_l then s\<lparr>sc_L := new_l, sc_best := npq_reserve (sc_best s) new_l\<rparr> else s)"

definition scratch_make ::
  "nat \<Rightarrow> nat \<Rightarrow> nat \<Rightarrow> nat \<Rightarrow> nat \<Rightarrow> nat \<Rightarrow> ('a::zero) scratch result" where
  "scratch_make search_l indexing_l r maxc dims aligned_dim =
     (if search_l = 0 \<or> indexing_l = 0 \<or> r = 0 \<or> dims = 0
      then Inl (ANNException ''In InMemQueryScratch, one of search_l, indexing_l, dim or r is zero.'')
      else Inr (resize_for_new_L (max search_l indexing_l)
        \<lparr>sc_L = 0, sc_R = r, sc_maxc = maxc, sc_query = replicate aligned_dim 0, sc_pool = [],
         sc_best = npq_new, sc_occlude = [], sc_inserted_rs = {}, sc_inserted_bs = [], sc_ids = [],
         sc_dists = [], sc_expanded_set = {}, sc_expanded_vec = [], sc_occlude_out = []\<rparr>))"

definition scratch_clear :: "'a scratch \<Rightarrow> 'a scratch" where
  "scratch_clear s = s\<lparr>sc_pool := [], sc_best := npq_clear (sc_best s), sc_occlude := [],
     sc_inserted_rs := {}, sc_inserted_bs := replicate (length (sc_inserted_bs s)) False,
     sc_ids := [], sc_dists := [], sc_expanded_set := {}, sc_expanded_vec := [], sc_occlude_out := []\<rparr>"

text \<open>What a search expects of the scratch space it is handed.\<close>

definition scratch_clean :: "'a scratch \<Rightarrow> bool" where
  "scratch_clean s \<longleftrightarrow> sc_pool s = [] \<and> npq_size (sc_best s) = 0 \<and> npq_cur (sc_best s) = 0
     \<and> sc_occlude s = [] \<and> sc_inserted_rs s = {} \<and> True \<notin> set (sc_inserted_bs s) \<and> sc_ids s = []
     \<and> sc_dists s = [] \<and> sc_expanded_set s = {} \<and> sc_expanded_vec s = [] \<and> sc_occlude_out s = []"

lemma scratch_clear_clean [simp]: "scratch_clean (scratch_clear s)"
  by (simp add: scratch_clean_def scratch_clear_def npq_clear_def)

lemma resize_for_new_L_clean: "scratch_clean s \<Longrightarrow> scratch_clean (resize_for_new_L l s)"
  by (simp add: scratch_clean_def resize_for_new_L_def)

lemma scratch_make_clean: "scratch_make sl il r maxc dims ad = Inr s \<Longrightarrow> scratch_clean s"
  by (auto simp: scratch_make_def scratch_clean_def resize_for_new_L_def npq_new_def split: if_splits)

lemma resize_for_new_L_ge: "sc_L (resize_for_new_L l s) = max (sc_L s) l"
  by (simp add: resize_for_new_L_def)

text \<open>\<^verbatim>\<open>SSDQueryScratch\<close> and \<^verbatim>\<open>SSDThreadData::clear\<close>.\<close>

record ssd_scratch =
  ssd_sector_idx :: nat
  ssd_visited :: "nat set"
  ssd_retset :: npq
  ssd_full_retset :: "neighbor list"

definition ssd_reset :: "ssd_scratch \<Rightarrow> ssd_scratch" where
  "ssd_reset s = s\<lparr>ssd_sector_idx := 0, ssd_visited := {}, ssd_retset := npq_clear (ssd_retset s),
     ssd_full_retset := []\<rparr>"

text \<open>
  \<^verbatim>\<open>PQScratch::initialize\<close>: the query, divided by its norm unless the norm is 1,
  goes into both query buffers; \<open>to_float\<close> is the cast of an element.
\<close>

record pq_scratch =
  pqs_query :: "fl list"
  pqs_rotated :: "fl list"

fun pqs_fill :: "('a \<Rightarrow> fl) \<Rightarrow> 'a list \<Rightarrow> fl \<Rightarrow> nat \<Rightarrow> nat \<Rightarrow> pq_scratch \<Rightarrow> pq_scratch result" where
  "pqs_fill to_float query nrm d 0 s = Inr s"
| "pqs_fill to_float query nrm d (Suc n) s =
     bindR (vec_at query d) (\<lambda>x.
     let v = (if \<not> fl_eq nrm (f32 1) then fl_div F32 (to_float x) nrm else to_float x) in
     bindR (vec_put (pqs_query s) d v) (\<lambda>qs.
     bindR (vec_put (pqs_rotated s) d v) (\<lambda>rs.
       pqs_fill to_float query nrm (d + 1) n \<lparr>pqs_query = qs, pqs_rotated = rs\<rparr>)))"

definition pqs_initialize :: "('a \<Rightarrow> fl) \<Rightarrow> nat \<Rightarrow> 'a list \<Rightarrow> fl \<Rightarrow> pq_scratch \<Rightarrow> pq_scratch result" where
  "pqs_initialize to_float dims query nrm s = pqs_fill to_float query nrm 0 dims s"

section \<open>Scratch managers of concurrent threads\<close>

datatype tstate = Idle | Waiting | Holding nat

record 'a pool_state =
  ps_queue :: "nat ptr_cq"          \<comment> \<open>the pool, of scratch addresses\<close>
  ps_store :: "nat \<Rightarrow> 'a scratch"
  ps_thread :: "nat \<Rightarrow> tstate"

text \<open>
  \<open>acquire\<close> and \<open>wait\<close> are one \<^verbatim>\<open>pop\<close> of the constructor's loop (a waiting thread
  retries after a notification or the timeout), \<open>work\<close> is any use of the held scratch space,
  \<open>release\<close> is the destructor.
\<close>

inductive pool_step :: "'a pool_state \<Rightarrow> 'a pool_state \<Rightarrow> bool" where
  acquire: "ps_thread st t = Idle \<or> ps_thread st t = Waiting \<Longrightarrow> pq_grab (ps_queue st) = (Some s, q') \<Longrightarrow>
     pool_step st (st\<lparr>ps_queue := q', ps_thread := (ps_thread st)(t := Holding s)\<rparr>)"
| wait: "ps_thread st t = Idle \<or> ps_thread st t = Waiting \<Longrightarrow> pq_grab (ps_queue st) = (None, q') \<Longrightarrow>
     pool_step st (st\<lparr>ps_queue := q', ps_thread := (ps_thread st)(t := Waiting)\<rparr>)"
| work: "ps_thread st t = Holding s \<Longrightarrow>
     pool_step st (st\<lparr>ps_store := (ps_store st)(s := x)\<rparr>)"
| release: "ps_thread st t = Holding s \<Longrightarrow>
     pool_step st (st\<lparr>ps_store := (ps_store st)(s := scratch_clear (ps_store st s)),
       ps_queue := pq_give (ps_queue st) s, ps_thread := (ps_thread st)(t := Idle)\<rparr>)"

inductive_cases pool_stepE: "pool_step st st'"

inductive pool_run :: "'a pool_state \<Rightarrow> 'a pool_state \<Rightarrow> bool" for st0 where
  pool_start: "pool_run st0 st0"
| pool_next: "pool_run st0 st \<Longrightarrow> pool_step st st' \<Longrightarrow> pool_run st0 st'"

definition held :: "'a pool_state \<Rightarrow> nat set" where
  "held st = {s. \<exists>t. ps_thread st t = Holding s}"

text \<open>
  Every scratch space is in the pool or with exactly one thread, and what lies in the pool is
  clean.
\<close>

definition exclusive :: "'a pool_state \<Rightarrow> bool" where
  "exclusive st \<longleftrightarrow> (\<forall>t t' s. ps_thread st t = Holding s \<and> ps_thread st t' = Holding s \<longrightarrow> t = t')"

definition pool_inv :: "nat set \<Rightarrow> 'a pool_state \<Rightarrow> bool" where
  "pool_inv ids st \<longleftrightarrow> distinct (pq_contents (ps_queue st))
     \<and> set (pq_contents (ps_queue st)) \<union> held st = ids
     \<and> set (pq_contents (ps_queue st)) \<inter> held st = {}
     \<and> exclusive st
     \<and> (\<forall>s \<in> set (pq_contents (ps_queue st)). scratch_clean (ps_store st s))"

definition pool_initial :: "nat list \<Rightarrow> 'a pool_state \<Rightarrow> bool" where
  "pool_initial ids st \<longleftrightarrow> distinct ids \<and> pq_contents (ps_queue st) = ids \<and> (\<forall>t. ps_thread st t = Idle)
     \<and> (\<forall>s \<in> set ids. scratch_clean (ps_store st s))"

lemma pool_initial_inv: "pool_initial ids st \<Longrightarrow> pool_inv (set ids) st"
  by (auto simp: pool_initial_def pool_inv_def held_def exclusive_def)

lemma held_update:
  "held (st\<lparr>ps_thread := (ps_thread st)(t := x)\<rparr>)
     = (case x of Holding s \<Rightarrow> {s} | _ \<Rightarrow> {}) \<union> {s. \<exists>u. u \<noteq> t \<and> ps_thread st u = Holding s}"
  by (auto simp: held_def split: tstate.splits)

lemma held_split:
  "held st = (case ps_thread st t of Holding s \<Rightarrow> {s} | _ \<Rightarrow> {}) \<union> {s. \<exists>u. u \<noteq> t \<and> ps_thread st u = Holding s}"
proof -
  have "st\<lparr>ps_thread := (ps_thread st)(t := ps_thread st t)\<rparr> = st" by simp
  then show ?thesis using held_update [of st t "ps_thread st t"] by simp
qed

lemma held_frame [simp]: "held (ps_queue_update f st) = held st" "held (ps_store_update g st) = held st"
  by (simp_all add: held_def)

lemma pool_step_inv:
  assumes "pool_step st st'" "pool_inv ids st"
  shows "pool_inv ids st'"
  using assms
proof (cases rule: pool_step.cases)
  case (acquire t s q')
  have c: "pq_contents (ps_queue st) = s # pq_contents q'"
    using scratch_q.grab_cases [OF acquire(3)] by auto
  have h: "held st' = insert s (held st)"
    using acquire(2) held_split [of st t] held_update [of "st\<lparr>ps_queue := q'\<rparr>" t "Holding s"]
    by (auto simp: acquire(1))
  have ns: "s \<notin> held st" using assms(2) c by (auto simp: pool_inv_def)
  have "exclusive st'"
    using assms(2) ns by (auto simp: acquire(1) pool_inv_def held_def exclusive_def split: if_splits)
  moreover have "ps_queue st' = q'" "ps_store st' = ps_store st" by (simp_all add: acquire(1))
  ultimately show ?thesis using assms(2) c ns by (auto simp: pool_inv_def h)
next
  case (wait t q')
  have "q' = ps_queue st" using scratch_q.grab_cases [OF wait(3)] by auto
  moreover have "held st' = held st"
    using wait(2) held_split [of st t] held_update [of "st\<lparr>ps_queue := q'\<rparr>" t Waiting]
    by (auto simp: wait(1))
  moreover have "exclusive st'"
    using assms(2) by (auto simp: wait(1) pool_inv_def exclusive_def split: if_splits)
  ultimately show ?thesis using assms(2) by (simp add: pool_inv_def wait(1))
next
  case (work t s x)
  have "held st' = held st" by (simp add: work(1) held_def)
  moreover have "s \<in> held st" using work(2) by (auto simp: held_def)
  moreover have "exclusive st'" using assms(2) by (simp add: work(1) pool_inv_def exclusive_def)
  ultimately show ?thesis using assms(2) by (auto simp: pool_inv_def work(1))
next
  case (release t s)
  have s: "s \<in> held st" "s \<notin> set (pq_contents (ps_queue st))"
    using release(2) assms(2) by (auto simp: held_def pool_inv_def)
  have excl: "ps_thread st u = Holding s \<Longrightarrow> u = t" for u
    using release(2) assms(2) unfolding pool_inv_def exclusive_def by blast
  let ?R = "{x. \<exists>u. u \<noteq> t \<and> ps_thread st u = Holding x}"
  have "held st = insert s ?R" using held_split [of st t] release(2) by simp
  moreover have "held st' = ?R"
    using held_update [of "st\<lparr>ps_store := (ps_store st)(s := scratch_clear (ps_store st s)),
            ps_queue := pq_give (ps_queue st) s\<rparr>" t Idle] by (simp add: release(1))
  moreover have "s \<notin> ?R" using excl by auto
  ultimately have h: "held st' = held st - {s}" by simp
  have "exclusive st'"
    using assms(2) by (auto simp: release(1) pool_inv_def exclusive_def split: if_splits)
  moreover have "pq_contents (ps_queue st') = pq_contents (ps_queue st) @ [s]"
    by (simp add: release(1) scratch_q.give_law)
  moreover have "ps_store st' = (ps_store st)(s := scratch_clear (ps_store st s))" by (simp add: release(1))
  ultimately show ?thesis using assms(2) s by (auto simp: pool_inv_def h)
qed

lemma pool_run_inv: "pool_run st0 st \<Longrightarrow> pool_inv ids st0 \<Longrightarrow> pool_inv ids st"
  by (induction rule: pool_run.induct) (auto intro: pool_step_inv)

section \<open>No deadlock\<close>

lemma pool_run_trans: "pool_run b c \<Longrightarrow> pool_run a b \<Longrightarrow> pool_run a c"
  by (induction rule: pool_run.induct) (auto intro: pool_next)

lemma acquire_possible:
  assumes "pq_contents (ps_queue st) \<noteq> []" "ps_thread st t = Idle \<or> ps_thread st t = Waiting"
  shows "\<exists>st' s. pool_step st st' \<and> ps_thread st' t = Holding s"
proof -
  obtain s xs where c: "pq_contents (ps_queue st) = s # xs"
    using assms(1) by (cases "pq_contents (ps_queue st)") auto
  obtain q' where "pq_grab (ps_queue st) = (Some s, q')" using scratch_q.grab_first [OF c] by (elim exE conjE)
  then have "pool_step st (st\<lparr>ps_queue := q', ps_thread := (ps_thread st)(t := Holding s)\<rparr>)"
    using pool_step.acquire [of st t s q'] assms(2) by blast
  moreover have "ps_thread (st\<lparr>ps_queue := q', ps_thread := (ps_thread st)(t := Holding s)\<rparr>) t = Holding s" by simp
  ultimately show ?thesis by blast
qed

lemma release_refills:
  assumes "ps_thread st u = Holding s" "t \<noteq> u"
  shows "\<exists>st'. pool_step st st' \<and> pq_contents (ps_queue st') \<noteq> [] \<and> ps_thread st' t = ps_thread st t"
proof (intro exI conjI)
  show "pool_step st (st\<lparr>ps_store := (ps_store st)(s := scratch_clear (ps_store st s)),
       ps_queue := pq_give (ps_queue st) s, ps_thread := (ps_thread st)(u := Idle)\<rparr>)"
    by (rule pool_step.release [OF assms(1)])
qed (use assms(2) in \<open>simp_all add: scratch_q.give_law\<close>)

lemma grab_nonempty:
  assumes "pq_contents q \<noteq> []"
  shows "fst (pq_grab q) = Some (hd (pq_contents q)) \<and> pq_contents (snd (pq_grab q)) = tl (pq_contents q)"
  using assms scratch_q.grab_first [of q] by (cases "pq_contents q") auto

text \<open>
  \<^verbatim>\<open>ScratchStoreManager::destroy\<close>: the loop pops and frees scratch spaces until the queue
  is empty; a null pointer popped meanwhile would make it wait (\<open>None\<close>).
\<close>

function pool_destroy :: "nat ptr_cq \<Rightarrow> nat list option" where
  "pool_destroy q = (if pq_contents q = [] then Some []
     else case fst (pq_grab q) of None \<Rightarrow> None
       | Some s \<Rightarrow> map_option (\<lambda>freed. s # freed) (pool_destroy (snd (pq_grab q))))"
  by pat_completeness auto

termination
  by (relation "measure (\<lambda>q. length (pq_contents q))") (simp_all add: grab_nonempty)

declare pool_destroy.simps [simp del]

lemma pool_destroy_contents: "pool_destroy q = Some (pq_contents q)"
proof (induction q rule: pool_destroy.induct)
  case (1 q)
  show ?case
  proof (cases "pq_contents q = []")
    case True
    then show ?thesis by (simp add: pool_destroy.simps)
  next
    case False
    then show ?thesis using 1 [OF False] grab_nonempty [OF False]
      by (subst pool_destroy.simps) (simp del: not_None_eq)
  qed
qed

section \<open>Properties\<close>

text \<open>\<^bold>\<open>C20\<close> However the scratch managers of concurrent threads interleave, no scratch space is ever
  held by two threads, none is lost (each is in the pool or held), and every scratch space lying
  in the pool has been cleared.\<close>

theorem scratch_exclusive:
  assumes "pool_initial ids st0" "pool_run st0 st"
  shows "exclusive st \<and> set (pq_contents (ps_queue st)) \<union> held st = set ids
     \<and> set (pq_contents (ps_queue st)) \<inter> held st = {}
     \<and> (\<forall>s \<in> set (pq_contents (ps_queue st)). scratch_clean (ps_store st s))"
  using pool_run_inv [OF assms(2) pool_initial_inv [OF assms(1)]] by (simp add: pool_inv_def)

definition demo_pool :: "nat pool_state" where
  "demo_pool = \<lparr>ps_queue = pq_give pq_new 7, ps_store = (\<lambda>_. scratch_clear undefined), ps_thread = (\<lambda>_. Idle)\<rparr>"

lemma demo_pool_initial: "pool_initial [7] demo_pool"
  by (simp add: pool_initial_def demo_pool_def scratch_q.give_law)

lemma demo_pool_run: "\<exists>st :: nat pool_state. pool_run demo_pool st \<and> ps_thread st 3 = Holding 7 \<and> ps_thread st 5 = Idle"
proof -
  obtain q' where q: "pq_grab (ps_queue demo_pool) = (Some 7, q')"
    using scratch_q.grab_first [of "ps_queue demo_pool" 7 "[]"]
    by (auto simp: demo_pool_def scratch_q.give_law)
  have "pool_step demo_pool (demo_pool\<lparr>ps_queue := q', ps_thread := (ps_thread demo_pool)(3 := Holding 7)\<rparr>)"
    by (rule acquire [OF _ q]) (simp add: demo_pool_def)
  from pool_next [OF pool_start this] show ?thesis
    by (intro exI [of _ "demo_pool\<lparr>ps_queue := q', ps_thread := (ps_thread demo_pool)(3 := Holding 7)\<rparr>"])
      (simp add: demo_pool_def)
qed

lemma scratch_exclusive_witness:
  "\<exists>st. pool_run demo_pool st \<and> ps_thread st 3 = Holding 7 \<and> exclusive st
     \<and> set (pq_contents (ps_queue st)) \<union> held st = {7}"
  using demo_pool_run scratch_exclusive [OF demo_pool_initial] by fastforce



end
