(* ===== verification/Graph_Store.thy ===== *)
theory Graph_Store
  imports Prelude
begin

text \<open>
  \<^verbatim>\<open>InMemGraphStore\<close> (\<^verbatim>\<open>src/in_mem_graph_store.cpp\<close>): the adjacency lists
  of the Vamana graph with the largest degree seen, and the graph file: a 24-byte header (file
  size, largest degree, start node, number of frozen points), then for each node its degree and
  its neighbours as 32-bit little-endian words. \<^verbatim>\<open>load_label_index\<close> of
  \<^verbatim>\<open>src/filter_utils.cpp\<close> reads the same format. The locale \<open>adjacency\<close> is the
  interface of \<^verbatim>\<open>AbstractGraphStore\<close> that the graph construction uses.
\<close>

section \<open>The store\<close>

record graph_store =
  gs_graph :: "nat list list"
  gs_max_observed :: nat
  gs_max_range :: nat
  gs_total_points :: nat

definition resize_graph :: "nat \<Rightarrow> graph_store \<Rightarrow> graph_store" where
  "resize_graph n g = g\<lparr>gs_graph := vec_resize [] n (gs_graph g), gs_total_points := n\<rparr>"

definition gs_make :: "nat \<Rightarrow> graph_store" where
  "gs_make total_pts = resize_graph total_pts
     \<lparr>gs_graph = [], gs_max_observed = 0, gs_max_range = 0, gs_total_points = total_pts\<rparr>"

text \<open>\<^verbatim>\<open>get_neighbours\<close> uses \<^verbatim>\<open>at\<close>, which throws; the writers index unchecked.\<close>

definition get_neighbours :: "graph_store \<Rightarrow> nat \<Rightarrow> nat list result" where
  "get_neighbours g i = (if i < length (gs_graph g) then Inr (gs_graph g ! i) else Inl StdOutOfRange)"

definition add_neighbour :: "nat \<Rightarrow> nat \<Rightarrow> graph_store \<Rightarrow> graph_store result" where
  "add_neighbour i neighbour_id g =
     bindR (vec_at (gs_graph g) i) (\<lambda>neighbours.
     let ns = neighbours @ [neighbour_id]; curr_degree = u32 (length ns) in
     Inr (g\<lparr>gs_graph := (gs_graph g)[i := ns],
            gs_max_observed := (if gs_max_observed g < curr_degree then curr_degree
                                else gs_max_observed g)\<rparr>))"

definition clear_neighbours :: "nat \<Rightarrow> graph_store \<Rightarrow> graph_store result" where
  "clear_neighbours i g =
     bindR (vec_put (gs_graph g) i []) (\<lambda>gr. Inr (g\<lparr>gs_graph := gr\<rparr>))"

definition swap_neighbours :: "nat \<Rightarrow> nat \<Rightarrow> graph_store \<Rightarrow> graph_store result" where
  "swap_neighbours a b g =
     bindR (vec_at (gs_graph g) a) (\<lambda>x.
     bindR (vec_at (gs_graph g) b) (\<lambda>y.
       Inr (g\<lparr>gs_graph := (gs_graph g)[a := y, b := x]\<rparr>)))"

definition set_neighbours :: "nat \<Rightarrow> nat list \<Rightarrow> graph_store \<Rightarrow> graph_store result" where
  "set_neighbours i neighbours g =
     bindR (vec_put (gs_graph g) i neighbours) (\<lambda>gr.
       Inr (g\<lparr>gs_graph := gr,
              gs_max_observed := (if gs_max_observed g < length neighbours
                                  then u32 (length neighbours) else gs_max_observed g)\<rparr>))"

definition clear_graph :: "graph_store \<Rightarrow> graph_store" where
  "clear_graph g = g\<lparr>gs_graph := []\<rparr>"

text \<open>The degrees fit 32 bits and the recorded maximum bounds them all.\<close>

definition gs_inv :: "graph_store \<Rightarrow> bool" where
  "gs_inv g \<longleftrightarrow> (\<forall>ns \<in> set (gs_graph g). length ns \<le> gs_max_observed g) \<and> gs_max_observed g < 2 ^ 32"

lemma gs_inv_nth: "gs_inv g \<Longrightarrow> i < length (gs_graph g) \<Longrightarrow> length (gs_graph g ! i) \<le> gs_max_observed g"
  by (simp add: gs_inv_def)

lemma gs_make_inv: "gs_inv (gs_make n)"
  by (auto simp: gs_inv_def gs_make_def resize_graph_def vec_resize_def)

lemma resize_graph_inv: "gs_inv g \<Longrightarrow> gs_inv (resize_graph n g)"
  by (auto simp: gs_inv_def resize_graph_def vec_resize_def dest: in_set_takeD)

lemma set_update_subsetD: "x \<in> set (xs[i := y]) \<Longrightarrow> x = y \<or> x \<in> set xs"
  using set_update_subset_insert [of xs i y] by auto

lemma set_neighbours_inv:
  assumes "gs_inv g" "set_neighbours i ns g = Inr g'" "length ns < 2 ^ 32"
  shows "gs_inv g'"
proof -
  have "gs_graph g' = (gs_graph g)[i := ns]" "gs_max_observed g' = max (gs_max_observed g) (length ns)"
    using assms(2,3) by (auto simp: set_neighbours_def bindR_eq_Inr vec_put_eq_Inr)
  then show ?thesis using assms(1,3) by (auto simp: gs_inv_def dest!: set_update_subsetD)
qed

lemma add_neighbour_inv:
  assumes "gs_inv g" "add_neighbour i j g = Inr g'" "length (gs_graph g ! i) < 2 ^ 32 - 1"
  shows "gs_inv g'"
proof -
  have i: "i < length (gs_graph g)" and
    g': "gs_graph g' = (gs_graph g)[i := gs_graph g ! i @ [j]]"
    "gs_max_observed g' = max (gs_max_observed g) (length (gs_graph g ! i) + 1)"
    using assms(2,3) by (auto simp: add_neighbour_def bindR_eq_Inr vec_at_eq_Inr Let_def)
  then show ?thesis using assms(1,3) by (auto simp: gs_inv_def dest!: set_update_subsetD)
qed

lemma clear_neighbours_inv: "gs_inv g \<Longrightarrow> clear_neighbours i g = Inr g' \<Longrightarrow> gs_inv g'"
  by (auto simp: gs_inv_def clear_neighbours_def bindR_eq_Inr vec_put_eq_Inr dest!: set_update_subsetD)

lemma swap_neighbours_inv: "gs_inv g \<Longrightarrow> swap_neighbours a b g = Inr g' \<Longrightarrow> gs_inv g'"
  by (auto simp: gs_inv_def swap_neighbours_def bindR_eq_Inr vec_at_eq_Inr dest!: set_update_subsetD)

section \<open>The graph interface\<close>

text \<open>
  What construction and maintenance use of a graph store: lists are read and written by
  location inside the store, and writing one location leaves the others alone.
\<close>

locale adjacency =
  fixes points :: "'g \<Rightarrow> nat"
    and nbrs :: "'g \<Rightarrow> nat \<Rightarrow> nat list result"
    and setn :: "nat \<Rightarrow> nat list \<Rightarrow> 'g \<Rightarrow> 'g result"
    and addn :: "nat \<Rightarrow> nat \<Rightarrow> 'g \<Rightarrow> 'g result"
  assumes nbrs_in: "i < points g \<Longrightarrow> ok (nbrs g i)"
    and setn_law: "i < points g \<Longrightarrow> \<exists>g'. setn i ns g = Inr g' \<and> points g' = points g
      \<and> nbrs g' i = Inr ns \<and> (\<forall>j. j \<noteq> i \<longrightarrow> nbrs g' j = nbrs g j)"
    and addn_law: "i < points g \<Longrightarrow> nbrs g i = Inr ns \<Longrightarrow> \<exists>g'. addn i j g = Inr g' \<and> points g' = points g
      \<and> nbrs g' i = Inr (ns @ [j]) \<and> (\<forall>k. k \<noteq> i \<longrightarrow> nbrs g' k = nbrs g k)"
    and setn_out: "points g \<le> i \<Longrightarrow> \<not> ok (setn i ns g)"
begin

text \<open>The list of every location satisfies a predicate of the location and the list.\<close>

definition lists_ok :: "(nat \<Rightarrow> nat list \<Rightarrow> bool) \<Rightarrow> 'g \<Rightarrow> bool" where
  "lists_ok P g \<longleftrightarrow> (\<forall>i < points g. \<forall>ns. nbrs g i = Inr ns \<longrightarrow> P i ns)"

lemma setn_ok:
  assumes "lists_ok P g" "P i ns" "i < points g"
  shows "\<exists>g'. setn i ns g = Inr g' \<and> lists_ok P g' \<and> points g' = points g \<and> nbrs g' i = Inr ns
     \<and> (\<forall>j. j \<noteq> i \<longrightarrow> nbrs g' j = nbrs g j)"
proof -
  obtain g' where g': "setn i ns g = Inr g'" "points g' = points g" "nbrs g' i = Inr ns"
      "\<forall>j. j \<noteq> i \<longrightarrow> nbrs g' j = nbrs g j"
    using setn_law [OF assms(3), of ns] by blast
  have "P j ms" if "j < points g'" "nbrs g' j = Inr ms" for j ms
    using that g' assms(1,2) by (cases "j = i") (auto simp: lists_ok_def)
  then show ?thesis using g' by (auto simp: lists_ok_def)
qed

lemma addn_ok:
  assumes "lists_ok P g" "nbrs g i = Inr ns" "P i (ns @ [j])" "i < points g"
  shows "\<exists>g'. addn i j g = Inr g' \<and> lists_ok P g' \<and> points g' = points g \<and> nbrs g' i = Inr (ns @ [j])
     \<and> (\<forall>k. k \<noteq> i \<longrightarrow> nbrs g' k = nbrs g k)"
proof -
  obtain g' where g': "addn i j g = Inr g'" "points g' = points g" "nbrs g' i = Inr (ns @ [j])"
      "\<forall>k. k \<noteq> i \<longrightarrow> nbrs g' k = nbrs g k"
    using addn_law [OF assms(4,2), of j] by blast
  have "P k ms" if "k < points g'" "nbrs g' k = Inr ms" for k ms
    using that g' assms(1,3) by (cases "k = i") (auto simp: lists_ok_def)
  then show ?thesis using g' by (auto simp: lists_ok_def)
qed

end

definition gs_points :: "graph_store \<Rightarrow> nat" where
  "gs_points g = length (gs_graph g)"

interpretation adj: adjacency gs_points get_neighbours set_neighbours add_neighbour
  by unfold_locales
    (auto simp: gs_points_def get_neighbours_def set_neighbours_def add_neighbour_def Let_def
      ok_def vec_put_def)

section \<open>Writing the graph file\<close>

definition graph_header :: "nat \<Rightarrow> nat \<Rightarrow> nat \<Rightarrow> nat \<Rightarrow> byte list" where
  "graph_header file_size max_degree start frozen =
     le_bytes 8 file_size @ le_bytes 4 max_degree @ le_bytes 4 start @ le_bytes 8 frozen"

definition save_node :: "graph_store \<Rightarrow> nat \<Rightarrow> byte list \<times> nat \<times> nat \<Rightarrow> (byte list \<times> nat \<times> nat) result" where
  "save_node g i st = (case st of (out, max_degree, index_size) \<Rightarrow>
     bindR (vec_at (gs_graph g) i) (\<lambda>ns.
     let GK = u32 (length ns) in
     Inr (out @ le_bytes 4 GK @ le_array 4 (take GK ns),
          (if max_degree < length ns then u32 (length ns) else max_degree),
          index_size + 4 * u32_add GK 1)))"

text \<open>The header is written twice: first with placeholders, then with the final size and degree.\<close>

definition save_graph :: "graph_store \<Rightarrow> nat \<Rightarrow> nat \<Rightarrow> nat \<Rightarrow> (byte list \<times> nat) result" where
  "save_graph g num_points num_frozen_points start =
     bindR (foldR (save_node g) [0..<num_points]
              (graph_header 24 (gs_max_observed g) start num_frozen_points, 0, 24))
       (\<lambda>(out, max_degree, index_size).
          Inr (overwrite 0 (le_bytes 8 index_size @ le_bytes 4 max_degree) out, index_size))"

section \<open>Reading the graph file\<close>

function load_nodes ::
  "nat \<Rightarrow> nat \<Rightarrow> nat \<Rightarrow> byte list \<Rightarrow> graph_store \<Rightarrow> (nat \<times> graph_store) result" where
  "load_nodes expected_file_size bytes_read nodes_read bs g =
     (if bytes_read \<noteq> expected_file_size then
        bindR (read_uint 4 bs) (\<lambda>(k, bs1).
        bindR (read_uints 4 k bs1) (\<lambda>(tmp, bs2).
        bindR (vec_put (gs_graph g) nodes_read tmp) (\<lambda>gr.
          load_nodes expected_file_size (bytes_read + 4 * (k + 1)) (nodes_read + 1) bs2
            (g\<lparr>gs_graph := gr, gs_max_range := (if gs_max_range g < k then k else gs_max_range g)\<rparr>))))
      else Inr (nodes_read, g))"
  by pat_completeness auto
termination
  by (relation "measure (\<lambda>(sz, br, n, bs, g). length bs)")
    (auto dest!: read_uint_length read_uints_length)

declare load_nodes.simps [simp del]

definition load_graph_file :: "byte list \<Rightarrow> nat \<Rightarrow> graph_store \<Rightarrow> ((nat \<times> nat \<times> nat) \<times> graph_store) result" where
  "load_graph_file bs expected_num_points g =
     bindR (read_uint 8 bs) (\<lambda>(expected_file_size, b1).
     bindR (read_uint 4 b1) (\<lambda>(max_observed, b2).
     bindR (read_uint 4 b2) (\<lambda>(start, b3).
     bindR (read_uint 8 b3) (\<lambda>(file_frozen_pts, b4).
     let g0 = g\<lparr>gs_max_observed := max_observed\<rparr>;
         g1 = (if gs_total_points g < expected_num_points then resize_graph expected_num_points g0 else g0)
     in bindR (load_nodes expected_file_size 24 0 b4 g1) (\<lambda>(nodes_read, g').
          Inr ((nodes_read, start, file_frozen_pts), g'))))))"

text \<open>
  \<^verbatim>\<open>load_label_index\<close>: the same format read into a fresh vector of a given length.
\<close>

function load_label_nodes ::
  "nat \<Rightarrow> nat \<Rightarrow> nat \<Rightarrow> byte list \<Rightarrow> nat list list \<Rightarrow> nat list list result" where
  "load_label_nodes index_file_size bytes_read nodes_read bs label_index =
     (if bytes_read \<noteq> index_file_size then
        bindR (read_uint 4 bs) (\<lambda>(k, bs1).
        bindR (read_uints 4 k bs1) (\<lambda>(nbrs, bs2).
        bindR (vec_put label_index nodes_read nbrs) (\<lambda>li.
          load_label_nodes index_file_size (bytes_read + 4 * u32_add k 1) (nodes_read + 1) bs2 li)))
      else Inr label_index)"
  by pat_completeness auto
termination
  by (relation "measure (\<lambda>(sz, br, n, bs, g). length bs)")
    (auto dest!: read_uint_length read_uints_length)

declare load_label_nodes.simps [simp del]

definition load_label_index :: "byte list \<Rightarrow> nat \<Rightarrow> (nat list list \<times> nat) result" where
  "load_label_index bs label_number_of_points =
     bindR (read_uint 8 bs) (\<lambda>(index_file_size, b1).
     bindR (read_uint 4 b1) (\<lambda>(index_max_observed_degree, b2).
     bindR (read_uint 4 b2) (\<lambda>(index_entry_point, b3).
     bindR (read_uint 8 b3) (\<lambda>(index_num_frozen_points, b4).
     bindR (load_label_nodes index_file_size 24 0 b4 (replicate label_number_of_points []))
       (\<lambda>label_index. Inr (label_index, index_file_size))))))"

section \<open>The file format\<close>

definition node_bytes :: "nat list \<Rightarrow> byte list" where
  "node_bytes ns = le_bytes 4 (length ns) @ le_array 4 ns"

definition graph_bytes :: "nat list list \<Rightarrow> byte list" where
  "graph_bytes gr = concat (map node_bytes gr)"

definition graph_file_size :: "nat list list \<Rightarrow> nat" where
  "graph_file_size gr = 24 + length (graph_bytes gr)"

definition max_degree :: "nat list list \<Rightarrow> nat" where
  "max_degree gr = fold (\<lambda>ns m. max m (length ns)) gr 0"

text \<open>What fits the format: 32-bit ids and degrees, a 64-bit file size.\<close>

definition fits_file :: "nat list list \<Rightarrow> bool" where
  "fits_file gr \<longleftrightarrow> (\<forall>ns \<in> set gr. length ns < 2 ^ 32 - 1 \<and> (\<forall>x \<in> set ns. x < 2 ^ 32))
     \<and> graph_file_size gr < 2 ^ 64"

lemma pow256 [simp]: "(256::nat) ^ 4 = 2 ^ 32" "(256::nat) ^ 8 = 2 ^ 64"
  by simp_all

lemma length_node_bytes [simp]: "length (node_bytes ns) = 4 * (length ns + 1)"
  by (simp add: node_bytes_def)

lemma graph_bytes_simps [simp]:
  "graph_bytes [] = []" "graph_bytes (ns # gr) = node_bytes ns @ graph_bytes gr"
  by (simp_all add: graph_bytes_def)

lemma save_nodes:
  assumes "i + length gr \<le> length (gs_graph g)" "take (length gr) (drop i (gs_graph g)) = gr"
    and "\<forall>ns \<in> set gr. length ns < 2 ^ 32 - 1" "m < 2 ^ 32"
  shows "foldR (save_node g) [i..<i + length gr] (out, m, sz) =
     Inr (out @ graph_bytes gr, fold (\<lambda>ns m. max m (length ns)) gr m, sz + length (graph_bytes gr))"
  using assms
proof (induction gr arbitrary: i out m sz)
  case Nil
  then show ?case by simp
next
  case (Cons ns gr)
  from Cons.prems(1) have i: "i < length (gs_graph g)" by simp
  have hd: "gs_graph g ! i = ns" and tl: "take (length gr) (drop (Suc i) (gs_graph g)) = gr"
    using Cons.prems(2) i by (simp_all add: Cons_nth_drop_Suc [symmetric])
  have l: "length ns < 2 ^ 32 - 1" using Cons.prems(3) by simp
  have upt: "[i..<i + length (ns # gr)] = i # [Suc i..<Suc i + length gr]"
    by (simp add: upt_conv_Cons del: upt_Suc)
  have step: "save_node g i (out, m, sz) =
      Inr (out @ node_bytes ns, max m (length ns), sz + length (node_bytes ns))"
    using i l hd by (auto simp: save_node_def node_bytes_def Let_def u32_add_def max_def)
  have "foldR (save_node g) [Suc i..<Suc i + length gr]
          (out @ node_bytes ns, max m (length ns), sz + length (node_bytes ns)) =
        Inr ((out @ node_bytes ns) @ graph_bytes gr,
             fold (\<lambda>ns m. max m (length ns)) gr (max m (length ns)),
             sz + length (node_bytes ns) + length (graph_bytes gr))"
    by (rule Cons.IH) (use Cons.prems tl l in auto)
  then show ?case unfolding upt by (simp add: step add.assoc)
qed

lemma save_graph_file:
  assumes "n \<le> length (gs_graph g)" "fits_file (take n (gs_graph g))"
  shows "save_graph g n frozen start =
     Inr (graph_header (graph_file_size (take n (gs_graph g))) (max_degree (take n (gs_graph g))) start frozen
            @ graph_bytes (take n (gs_graph g)),
          graph_file_size (take n (gs_graph g)))"
proof -
  let ?gr = "take n (gs_graph g)"
  have "foldR (save_node g) [0..<0 + length ?gr] (graph_header 24 (gs_max_observed g) start frozen, 0, 24)
      = Inr (graph_header 24 (gs_max_observed g) start frozen @ graph_bytes ?gr, max_degree ?gr,
          24 + length (graph_bytes ?gr))"
    unfolding max_degree_def by (rule save_nodes) (use assms in \<open>auto simp: fits_file_def\<close>)
  then show ?thesis
    using assms(1) by (simp add: save_graph_def overwrite_def graph_header_def graph_file_size_def)
qed

lemma load_nodes_bytes:
  assumes "i + length gr \<le> length (gs_graph g)" "fits_file gr"
    and "sz = br + length (graph_bytes gr)"
  shows "\<exists>g'. load_nodes sz br i (graph_bytes gr @ rest) g = Inr (i + length gr, g')
     \<and> gs_graph g' = take i (gs_graph g) @ gr @ drop (i + length gr) (gs_graph g)
     \<and> gs_max_observed g' = gs_max_observed g \<and> gs_total_points g' = gs_total_points g"
  using assms
proof (induction gr arbitrary: i br g)
  case Nil
  then show ?case by (simp add: load_nodes.simps)
next
  case (Cons ns gr)
  have f: "length ns < 2 ^ 32 - 1" "\<forall>x \<in> set ns. x < 2 ^ 32" "fits_file gr"
    using Cons.prems(2) by (auto simp: fits_file_def graph_file_size_def)
  have l: "length ns < 2 ^ 32" using f(1) by simp
  have i: "i < length (gs_graph g)" using Cons.prems(1) by simp
  define g1 where "g1 = g\<lparr>gs_graph := (gs_graph g)[i := ns],
      gs_max_range := (if gs_max_range g < length ns then length ns else gs_max_range g)\<rparr>"
  have ne: "br \<noteq> sz" using Cons.prems(3) by simp
  have "load_nodes sz br i (graph_bytes (ns # gr) @ rest) g
      = load_nodes sz (br + 4 * (length ns + 1)) (Suc i) (graph_bytes gr @ rest) g1"
    using ne i f(2) l by (simp add: load_nodes.simps [of sz br] node_bytes_def g1_def)
  moreover obtain g' where "load_nodes sz (br + 4 * (length ns + 1)) (Suc i) (graph_bytes gr @ rest) g1
        = Inr (Suc i + length gr, g')"
      "gs_graph g' = take (Suc i) (gs_graph g1) @ gr @ drop (Suc i + length gr) (gs_graph g1)"
      "gs_max_observed g' = gs_max_observed g1" "gs_total_points g' = gs_total_points g1"
    using Cons.IH [of "Suc i" g1 "br + 4 * (length ns + 1)"] Cons.prems(1,3) f(3) by (auto simp: g1_def)
  ultimately show ?case
    using i by (simp add: g1_def take_Suc_conv_app_nth)
qed

lemma load_graph_bytes:
  assumes "fits_file gr" "start < 2 ^ 32" "frozen < 2 ^ 64" "md < 2 ^ 32"
    and "length gr \<le> expected \<or> length gr \<le> length (gs_graph g)"
    and "gs_total_points g = length (gs_graph g)"
  shows "\<exists>g'. load_graph_file (graph_header (graph_file_size gr) md start frozen @ graph_bytes gr) expected g
     = Inr ((length gr, start, frozen), g')
     \<and> take (length gr) (gs_graph g') = gr \<and> gs_max_observed g' = md
     \<and> length (gs_graph g') = max (length (gs_graph g)) expected
     \<and> (expected \<le> gs_total_points g \<longrightarrow> gs_graph g' = gr @ drop (length gr) (gs_graph g) \<and> gs_total_points g' = gs_total_points g)"
proof -
  define g0 where "g0 = g\<lparr>gs_max_observed := md\<rparr>"
  define g1 where "g1 = (if gs_total_points g < expected then resize_graph expected g0 else g0)"
  have len: "length (gs_graph g1) = max (length (gs_graph g)) expected" and md: "gs_max_observed g1 = md"
    using assms(6) by (auto simp: g1_def g0_def resize_graph_def)
  have fit: "0 + length gr \<le> length (gs_graph g1)" using assms(5) len by auto
  obtain g' where g': "load_nodes (graph_file_size gr) 24 0 (graph_bytes gr) g1 = Inr (length gr, g')"
      "gs_graph g' = gr @ drop (length gr) (gs_graph g1)" "gs_max_observed g' = md" "gs_total_points g' = gs_total_points g1"
    using load_nodes_bytes [OF fit assms(1), of "graph_file_size gr" 24 "[]"] md
    by (auto simp: graph_file_size_def)
  have "graph_file_size gr < 2 ^ 64" using assms(1) by (simp add: fits_file_def)
  then have "load_graph_file (graph_header (graph_file_size gr) md start frozen @ graph_bytes gr) expected g
     = Inr ((length gr, start, frozen), g')"
    using assms(2-4) g'(1)
    by (cases "gs_total_points g < expected")
      (simp_all add: load_graph_file_def graph_header_def Let_def g0_def g1_def)
  moreover have "expected \<le> gs_total_points g \<longrightarrow> g1 = g0" by (simp add: g1_def)
  ultimately show ?thesis using g'(2-4) fit len by (auto simp: g0_def)
qed

lemma max_degree_fold_bound: "\<forall>ns \<in> set gr. length ns < b \<Longrightarrow> m < b \<Longrightarrow> fold (\<lambda>ns m. max m (length ns)) gr m < b"
  by (induction gr arbitrary: m) auto

lemma max_degree_fold_ge: "m \<le> fold (\<lambda>ns m. max m (length ns)) gr m
    \<and> (\<forall>ns \<in> set gr. length ns \<le> fold (\<lambda>ns m. max m (length ns)) gr m)"
proof (induction gr arbitrary: m)
  case (Cons ns gr)
  show ?case using Cons.IH [of "max m (length ns)"] by auto
qed simp

lemma max_degree_ge: "ns \<in> set gr \<Longrightarrow> length ns \<le> max_degree gr"
  using max_degree_fold_ge by (auto simp: max_degree_def)

lemma max_degree_bound: "\<forall>ns \<in> set gr. length ns < b \<Longrightarrow> 0 < b \<Longrightarrow> max_degree gr < b"
  by (simp add: max_degree_def max_degree_fold_bound)

section \<open>Properties\<close>



end
