(* ===== verification/Cached_IO.thy ===== *)
theory Cached_IO
  imports Prelude
begin

text \<open>
  \<^verbatim>\<open>include/cached_io.h\<close>: \<^verbatim>\<open>cached_ifstream\<close> and
  \<^verbatim>\<open>cached_ofstream\<close>, the block caches in front of the index and partition files.
  The locales \<open>byte_source\<close> and \<open>byte_sink\<close> state a sequential file; the plain stream
  and the cached one both interpret \<open>byte_source\<close>, so code that reads through either sees
  the same bytes.
\<close>

section \<open>Sequential byte streams\<close>

locale byte_source =
  fixes get :: "'s \<Rightarrow> nat \<Rightarrow> (byte list \<times> 's) result"
    and rest :: "'s \<Rightarrow> byte list"
    and inv :: "'s \<Rightarrow> bool"
  assumes get_ok: "inv s \<Longrightarrow> n \<le> length (rest s) \<Longrightarrow>
      \<exists>s'. get s n = Inr (take n (rest s), s') \<and> inv s' \<and> rest s' = drop n (rest s)"
    and get_short: "inv s \<Longrightarrow> length (rest s) < n \<Longrightarrow> \<exists>e. get s n = Inl e"
begin

text \<open>A client that reads records of the given sizes one after the other.\<close>

fun get_all :: "'s \<Rightarrow> nat list \<Rightarrow> (byte list list \<times> 's) result" where
  "get_all s [] = Inr ([], s)"
| "get_all s (n # ns) =
     bindR (get s n) (\<lambda>(b, s1). bindR (get_all s1 ns) (\<lambda>(bs, s2). Inr (b # bs, s2)))"

lemma get_all_ok:
  "inv s \<Longrightarrow> sum_list ns \<le> length (rest s) \<Longrightarrow>
     \<exists>bs s'. get_all s ns = Inr (bs, s') \<and> inv s' \<and> concat bs = take (sum_list ns) (rest s)
       \<and> map length bs = ns \<and> rest s' = drop (sum_list ns) (rest s)"
proof (induction ns arbitrary: s)
  case Nil
  then show ?case by simp
next
  case (Cons n ns)
  obtain s1 where s1: "get s n = Inr (take n (rest s), s1)" "inv s1" "rest s1 = drop n (rest s)"
    using get_ok [OF Cons.prems(1), of n] Cons.prems(2) by auto
  have "sum_list ns \<le> length (rest s1)" using Cons.prems(2) by (simp add: s1(3))
  from Cons.IH [OF s1(2) this]
  obtain bs s' where r: "get_all s1 ns = Inr (bs, s')" "inv s'" "concat bs = take (sum_list ns) (rest s1)"
      "map length bs = ns" "rest s' = drop (sum_list ns) (rest s1)"
    by blast
  have n: "n \<le> length (rest s)" using Cons.prems(2) by simp
  have "get_all s (n # ns) = Inr (take n (rest s) # bs, s')" using s1(1) r(1) by simp
  moreover have "concat (take n (rest s) # bs) = take (sum_list (n # ns)) (rest s)"
    using r(3) s1(3) by (simp add: take_add)
  ultimately show ?case using r s1(3) n by (auto simp: add.commute)
qed

end

interpretation plain_file: byte_source "\<lambda>bs n. read_bytes n bs" "\<lambda>bs. bs" "\<lambda>_. True"
  by unfold_locales (auto simp: read_bytes_def)

section \<open>Cached reads\<close>

record cached_in =
  ci_file :: "byte list"      \<comment> \<open>the whole file\<close>
  ci_tell :: nat              \<comment> \<open>\<^verbatim>\<open>reader.tellg()\<close>\<close>
  ci_cache_size :: nat
  ci_cache_buf :: "byte list"
  ci_cur_off :: nat

definition ci_fsize :: "cached_in \<Rightarrow> nat" where
  "ci_fsize s = length (ci_file s)"

definition ci_open :: "byte list \<Rightarrow> nat \<Rightarrow> cached_in" where
  "ci_open file cacheSize =
     (let cs = min cacheSize (length file)
      in \<lparr>ci_file = file, ci_tell = cs, ci_cache_size = cs, ci_cache_buf = take cs file, ci_cur_off = 0\<rparr>)"

text \<open>\<^verbatim>\<open>reader.read\<close> at the current position of the underlying stream.\<close>

definition ci_raw_read :: "cached_in \<Rightarrow> nat \<Rightarrow> (byte list \<times> cached_in) result" where
  "ci_raw_read s n =
     (if ci_tell s + n \<le> ci_fsize s
      then Inr (take n (drop (ci_tell s) (ci_file s)), s\<lparr>ci_tell := ci_tell s + n\<rparr>)
      else Inl IosFailure)"

definition ci_read :: "cached_in \<Rightarrow> nat \<Rightarrow> (byte list \<times> cached_in) result" where
  "ci_read s n_bytes =
     (if n_bytes \<le> ci_cache_size s - ci_cur_off s then
        Inr (take n_bytes (drop (ci_cur_off s) (ci_cache_buf s)), s\<lparr>ci_cur_off := ci_cur_off s + n_bytes\<rparr>)
      else
        let cached_bytes = ci_cache_size s - ci_cur_off s in
        if ci_fsize s - ci_tell s < n_bytes - cached_bytes then
          Inl (ANNException ''Reading beyond end of file'')
        else
          let part1 = take cached_bytes (drop (ci_cur_off s) (ci_cache_buf s)) in
          bindR (ci_raw_read s (n_bytes - cached_bytes)) (\<lambda>(part2, s1).
          let s2 = s1\<lparr>ci_cur_off := ci_cache_size s\<rparr>;
              size_left = ci_fsize s2 - ci_tell s2
          in if ci_cache_size s \<le> size_left then
               bindR (ci_raw_read s2 (ci_cache_size s)) (\<lambda>(buf, s3).
                 Inr (part1 @ part2, s3\<lparr>ci_cache_buf := buf, ci_cur_off := 0\<rparr>))
             else Inr (part1 @ part2, s2)))"

text \<open>
  The bytes a reader has not delivered yet: what is left in the cache, then the file from the
  stream position on.
\<close>

definition ci_rest :: "cached_in \<Rightarrow> byte list" where
  "ci_rest s = drop (ci_cur_off s) (ci_cache_buf s) @ drop (ci_tell s) (ci_file s)"

definition ci_inv :: "cached_in \<Rightarrow> bool" where
  "ci_inv s \<longleftrightarrow> length (ci_cache_buf s) = ci_cache_size s \<and> ci_cur_off s \<le> ci_cache_size s
     \<and> ci_tell s \<le> ci_fsize s"

lemma ci_open_correct: "ci_inv (ci_open file n)" "ci_rest (ci_open file n) = file"
  by (simp_all add: ci_inv_def ci_rest_def ci_open_def ci_fsize_def Let_def)

lemma ci_read_correct:
  assumes inv: "ci_inv s" and n: "n \<le> length (ci_rest s)"
  shows "\<exists>s'. ci_read s n = Inr (take n (ci_rest s), s') \<and> ci_inv s' \<and> ci_rest s' = drop n (ci_rest s)"
proof (cases "n \<le> ci_cache_size s - ci_cur_off s")
  case True
  then show ?thesis
    using inv by (auto simp: ci_read_def ci_rest_def ci_inv_def ci_fsize_def add.commute)
next
  case False
  let ?c = "ci_cache_size s - ci_cur_off s"
  let ?p1 = "drop (ci_cur_off s) (ci_cache_buf s)"
  let ?m = "n - ?c"
  have lp: "length ?p1 = ?c" using inv by (simp add: ci_inv_def)
  have fit: "ci_tell s + ?m \<le> ci_fsize s"
    using n lp False inv by (auto simp: ci_rest_def ci_fsize_def ci_inv_def)
  define s2 where "s2 = s\<lparr>ci_tell := ci_tell s + ?m, ci_cur_off := ci_cache_size s\<rparr>"
  define out where "out = ?p1 @ take ?m (drop (ci_tell s) (ci_file s))"
  have out: "out = take n (ci_rest s)" using lp False by (simp add: out_def ci_rest_def)
  have rest: "drop n (ci_rest s) = drop (ci_tell s + ?m) (ci_file s)"
    using lp False by (simp add: ci_rest_def add.commute)
  have rd: "ci_read s n =
     (if ci_cache_size s \<le> ci_fsize s2 - ci_tell s2
      then bindR (ci_raw_read s2 (ci_cache_size s)) (\<lambda>(buf, s3).
             Inr (out, s3\<lparr>ci_cache_buf := buf, ci_cur_off := 0\<rparr>))
      else Inr (out, s2))"
  proof -
    have "\<not> ci_fsize s - ci_tell s < ?m" using fit by simp
    then show ?thesis
      using False fit lp by (simp add: ci_read_def Let_def ci_raw_read_def s2_def out_def ci_fsize_def)
  qed
  show ?thesis
  proof (cases "ci_cache_size s \<le> ci_fsize s2 - ci_tell s2")
    case True
    define s3 where "s3 = s2\<lparr>ci_tell := ci_tell s2 + ci_cache_size s,
        ci_cache_buf := take (ci_cache_size s) (drop (ci_tell s2) (ci_file s2)), ci_cur_off := 0\<rparr>"
    have "ci_tell s2 + ci_cache_size s \<le> ci_fsize s2"
      using True fit by (auto simp: s2_def ci_fsize_def)
    moreover from this have "ci_inv s3" by (simp add: ci_inv_def s3_def s2_def ci_fsize_def)
    moreover have "ci_rest s3 = drop (ci_tell s + ?m) (ci_file s)"
      by (simp add: ci_rest_def s3_def s2_def add.commute flip: drop_drop)
    ultimately show ?thesis
      using True rest out by (simp add: rd ci_raw_read_def s3_def)
  next
    case False
    have "ci_inv s2" using inv fit by (simp add: ci_inv_def s2_def ci_fsize_def)
    moreover have "ci_rest s2 = drop (ci_tell s + ?m) (ci_file s)"
      using inv by (simp add: ci_rest_def s2_def ci_inv_def)
    ultimately show ?thesis using False rest out by (simp add: rd)
  qed
qed

lemma ci_read_short:
  assumes "ci_inv s" "length (ci_rest s) < n"
  shows "ci_read s n = Inl (ANNException ''Reading beyond end of file'')"
  using assms by (auto simp: ci_read_def ci_rest_def ci_inv_def ci_fsize_def Let_def)

interpretation cached_file: byte_source ci_read ci_rest ci_inv
  by unfold_locales (use ci_read_correct ci_read_short in blast)+

section \<open>Cached writes\<close>

record cached_out =
  co_disk :: "byte list"      \<comment> \<open>contents of the file on disk\<close>
  co_seek :: nat              \<comment> \<open>\<^verbatim>\<open>writer.tellp()\<close>\<close>
  co_cache_size :: nat
  co_cache_buf :: "byte list" \<comment> \<open>the first \<^verbatim>\<open>cur_off\<close> bytes of the cache\<close>
  co_fsize :: nat

definition co_open :: "nat \<Rightarrow> cached_out" where
  "co_open cache_size = \<lparr>co_disk = [], co_seek = 0, co_cache_size = cache_size, co_cache_buf = [], co_fsize = 0\<rparr>"

definition co_cur_off :: "cached_out \<Rightarrow> nat" where
  "co_cur_off s = length (co_cache_buf s)"

definition co_raw_write :: "byte list \<Rightarrow> cached_out \<Rightarrow> cached_out" where
  "co_raw_write bs s = s\<lparr>co_disk := overwrite (co_seek s) bs (co_disk s), co_seek := co_seek s + length bs\<rparr>"

definition co_flush_cache :: "cached_out \<Rightarrow> cached_out" where
  "co_flush_cache s =
     (let s1 = co_raw_write (co_cache_buf s) s
      in s1\<lparr>co_fsize := co_fsize s1 + co_cur_off s, co_cache_buf := []\<rparr>)"

definition co_write :: "byte list \<Rightarrow> cached_out \<Rightarrow> cached_out" where
  "co_write bs s =
     (if length bs \<le> co_cache_size s - co_cur_off s
      then s\<lparr>co_cache_buf := co_cache_buf s @ bs\<rparr>
      else let s1 = co_raw_write (co_cache_buf s) s;
               s2 = s1\<lparr>co_fsize := co_fsize s1 + co_cur_off s\<rparr>;
               s3 = co_raw_write bs s2
           in s3\<lparr>co_fsize := co_fsize s3 + length bs, co_cache_buf := []\<rparr>)"

definition co_close :: "cached_out \<Rightarrow> cached_out" where
  "co_close s = (if 0 < co_cur_off s then co_flush_cache s else s)"

definition co_reset :: "cached_out \<Rightarrow> cached_out" where
  "co_reset s = (co_flush_cache s)\<lparr>co_seek := 0\<rparr>"

text \<open>What the file will hold once the cache is flushed.\<close>

definition co_view :: "cached_out \<Rightarrow> byte list" where
  "co_view s = overwrite (co_seek s) (co_cache_buf s) (co_disk s)"

definition co_inv :: "cached_out \<Rightarrow> bool" where
  "co_inv s \<longleftrightarrow> co_seek s \<le> length (co_disk s) \<and> co_cur_off s \<le> co_cache_size s"

definition co_at :: "cached_out \<Rightarrow> nat" where
  "co_at s = co_seek s + co_cur_off s"

lemma overwrite_overwrite:
  assumes "p \<le> length f"
  shows "overwrite (p + length a) b (overwrite p a f) = overwrite p (a @ b) f"
  using assms by (simp add: overwrite_def ac_simps)

lemma co_write_correct:
  assumes "co_inv s"
  shows "co_inv (co_write bs s)" "co_view (co_write bs s) = overwrite (co_at s) bs (co_view s)"
    and "co_at (co_write bs s) = co_at s + length bs"
proof -
  have p: "co_seek s \<le> length (co_disk s)" using assms by (simp add: co_inv_def)
  show "co_inv (co_write bs s)" "co_view (co_write bs s) = overwrite (co_at s) bs (co_view s)"
    "co_at (co_write bs s) = co_at s + length bs"
    using assms overwrite_overwrite [OF p, of "co_cache_buf s" bs]
    by (auto simp: co_inv_def co_view_def co_at_def co_write_def co_cur_off_def co_raw_write_def Let_def
        overwrite_def)
qed

lemma co_close_view:
  assumes "co_seek s \<le> length (co_disk s)"
  shows "co_disk (co_close s) = co_view s"
  using assms by (auto simp: co_close_def co_flush_cache_def co_view_def co_raw_write_def Let_def co_cur_off_def
      overwrite_def)

lemma co_reset_correct:
  assumes "co_inv s"
  shows "co_inv (co_reset s)" "co_view (co_reset s) = co_view s" "co_at (co_reset s) = 0"
  using assms by (auto simp: co_inv_def co_reset_def co_flush_cache_def co_view_def co_at_def co_raw_write_def
      Let_def co_cur_off_def overwrite_def)

text \<open>A sequential sink: appending at the end, and the file that results.\<close>

locale byte_sink =
  fixes put :: "byte list \<Rightarrow> 's \<Rightarrow> 's"
    and stored :: "'s \<Rightarrow> byte list"
    and at_end :: "'s \<Rightarrow> bool"
  assumes put_law: "at_end s \<Longrightarrow> stored (put bs s) = stored s @ bs \<and> at_end (put bs s)"
begin

lemma put_all: "at_end s \<Longrightarrow> stored (fold put bss s) = stored s @ concat bss \<and> at_end (fold put bss s)"
proof (induction bss arbitrary: s)
  case Nil
  then show ?case by simp
next
  case (Cons bs bss)
  then show ?case using put_law [OF Cons.prems, of bs] by simp
qed

end

definition co_at_end :: "cached_out \<Rightarrow> bool" where
  "co_at_end s \<longleftrightarrow> co_inv s \<and> co_seek s = length (co_disk s)"

interpretation cached_sink: byte_sink co_write co_view co_at_end
proof
  fix s bs
  assume e: "co_at_end s"
  then have inv: "co_inv s" and sk: "co_seek s = length (co_disk s)" by (simp_all add: co_at_end_def)
  have v: "co_view s = co_disk s @ co_cache_buf s" by (simp add: co_view_def overwrite_def sk)
  have "co_view (co_write bs s) = co_view s @ bs"
    unfolding co_write_correct(2) [OF inv] by (simp add: v overwrite_def co_at_def co_cur_off_def sk)
  moreover have "co_seek (co_write bs s) = length (co_disk (co_write bs s))"
    by (auto simp: co_write_def co_raw_write_def overwrite_def sk Let_def)
  ultimately show "co_view (co_write bs s) = co_view s @ bs \<and> co_at_end (co_write bs s)"
    using co_write_correct(1) [OF inv] by (simp add: co_at_end_def)
qed

lemma co_open_at_end: "co_at_end (co_open n)" "co_view (co_open n) = []"
  by (simp_all add: co_at_end_def co_open_def co_inv_def co_cur_off_def co_view_def overwrite_def)

text \<open>The byte count reported by \<^verbatim>\<open>get_file_size\<close>.\<close>

lemma co_fsize_write: "co_fsize (co_write bs s) + co_cur_off (co_write bs s) = co_fsize s + co_cur_off s + length bs"
  by (simp add: co_write_def co_raw_write_def co_cur_off_def Let_def)

lemma co_fsize_close: "co_fsize (co_close s) = co_fsize s + co_cur_off s"
  by (simp add: co_close_def co_flush_cache_def co_raw_write_def Let_def)

lemma co_fsize_fold:
  "co_fsize (fold co_write bss s) + co_cur_off (fold co_write bss s)
     = co_fsize s + co_cur_off s + length (concat bss)"
proof (induction bss arbitrary: s)
  case Nil
  then show ?case by simp
next
  case (Cons bs bss)
  then show ?case using co_fsize_write [of bs s] by simp
qed

section \<open>Properties\<close>



text \<open>\<^bold>\<open>C27\<close> Writing any chunks through the block cache and closing leaves on disk exactly their
  concatenation, and the reported file size is its length.\<close>

theorem cached_writes_are_the_chunks:
  "co_disk (co_close (fold co_write chunks (co_open cache))) = concat chunks
   \<and> co_fsize (co_close (fold co_write chunks (co_open cache))) = length (concat chunks)"
proof -
  let ?s = "fold co_write chunks (co_open cache)"
  have "co_view ?s = concat chunks" "co_at_end ?s"
    using cached_sink.put_all [OF co_open_at_end(1)] by (simp_all add: co_open_at_end)
  moreover have "co_fsize (co_close ?s) = length (concat chunks)"
    unfolding co_fsize_close co_fsize_fold by (simp add: co_open_def co_cur_off_def)
  ultimately show ?thesis by (simp add: co_close_view co_at_end_def)
qed

end
