(* ===== verification/Bin_IO.thy ===== *)
theory Bin_IO
  imports Cached_IO Floats "HOL-Library.Word"
begin

text \<open>
  The binary matrix files of \<^verbatim>\<open>include/utils.h\<close>: two 32-bit words (points,
  dimensions) followed by the elements row by row. An element type is a \<open>codec\<close> (its size and
  its byte representation); a file is the list of its bytes and a flat buffer the list of its
  elements. \<open>mem_get\<close> and \<open>mem_put\<close> are \<^verbatim>\<open>memcpy\<close> and
  \<^verbatim>\<open>memset\<close> inside a buffer.
\<close>

section \<open>Buffers\<close>

definition mem_get :: "'a list \<Rightarrow> nat \<Rightarrow> nat \<Rightarrow> 'a list result" where
  "mem_get buf off n = (if off + n \<le> length buf then Inr (take n (drop off buf)) else Inl UndefinedBehaviour)"

definition mem_put :: "'a list \<Rightarrow> nat \<Rightarrow> 'a list \<Rightarrow> 'a list result" where
  "mem_put buf off xs =
     (if off + length xs \<le> length buf then Inr (take off buf @ xs @ drop (off + length xs) buf)
      else Inl UndefinedBehaviour)"

lemma mem_put_length: "mem_put buf off xs = Inr buf' \<Longrightarrow> length buf' = length buf"
  by (auto simp: mem_put_def split: if_splits)

lemma mem_get_in [vec_simps]: "off + n \<le> length buf \<Longrightarrow> mem_get buf off n = Inr (take n (drop off buf))"
  by (simp add: mem_get_def)

lemma mem_get_put_same: "mem_put buf off xs = Inr buf' \<Longrightarrow> mem_get buf' off (length xs) = Inr xs"
  by (auto simp: mem_put_def mem_get_def split: if_splits)

lemma mem_put_nth:
  assumes "mem_put buf off xs = Inr buf'" "i < length buf"
  shows "buf' ! i = (if off \<le> i \<and> i < off + length xs then xs ! (i - off) else buf ! i)"
proof -
  from assms(1) have b: "off + length xs \<le> length buf" and
    buf': "buf' = take off buf @ xs @ drop (off + length xs) buf"
    by (auto simp: mem_put_def split: if_splits)
  have l: "length (take off buf) = off" using b by simp
  show ?thesis using b assms(2) unfolding buf' nth_append l by auto
qed

lemma mem_get_put_other:
  assumes "mem_put buf off xs = Inr buf'" "o2 + n \<le> off \<or> off + length xs \<le> o2"
  shows "mem_get buf' o2 n = mem_get buf o2 n"
proof -
  note len = mem_put_length [OF assms(1)]
  show ?thesis
  proof (cases "o2 + n \<le> length buf")
    case True
    have "take n (drop o2 buf') = take n (drop o2 buf)"
    proof (rule nth_equalityI)
      fix i assume "i < length (take n (drop o2 buf'))"
      then have i: "i < n" "o2 + i < length buf" using len True by simp_all
      then have "\<not> (off \<le> o2 + i \<and> o2 + i < off + length xs)" using assms(2) by auto
      then have "buf' ! (o2 + i) = buf ! (o2 + i)"
        unfolding mem_put_nth [OF assms(1) i(2)] by (rule if_not_P)
      then show "take n (drop o2 buf') ! i = take n (drop o2 buf) ! i" using i len True by simp
    qed (simp add: len)
    then show ?thesis using len by (simp add: mem_get_def)
  next
    case False
    then show ?thesis using len by (simp add: mem_get_def)
  qed
qed

section \<open>Element codecs\<close>

record 'a codec =
  cd_size :: nat
  cd_enc :: "'a \<Rightarrow> byte list"
  cd_dec :: "byte list \<Rightarrow> 'a"

definition codec_ok :: "'a codec \<Rightarrow> bool" where
  "codec_ok C \<longleftrightarrow> (\<forall>x. length (cd_enc C x) = cd_size C \<and> cd_dec C (cd_enc C x) = x)"

text \<open>The codec of \<^verbatim>\<open>uint32_t\<close>, on numbers taken modulo \<open>2 ^ 32\<close>.\<close>

definition u32_codec :: "nat codec" where
  "u32_codec = \<lparr>cd_size = 4, cd_enc = le_bytes 4, cd_dec = le_value\<rparr>"

text \<open>The codec of \<^verbatim>\<open>uint64_t\<close>.\<close>

definition u64_codec :: "nat codec" where
  "u64_codec = \<lparr>cd_size = 8, cd_enc = le_bytes 8, cd_dec = le_value\<rparr>"

fun split_chunks :: "nat \<Rightarrow> nat \<Rightarrow> 'b list \<Rightarrow> 'b list list" where
  "split_chunks w 0 bs = []"
| "split_chunks w (Suc k) bs = take w bs # split_chunks w k (drop w bs)"

definition elems_bytes :: "'a codec \<Rightarrow> 'a list \<Rightarrow> byte list" where
  "elems_bytes C xs = concat (map (cd_enc C) xs)"

definition read_elems :: "'a codec \<Rightarrow> nat \<Rightarrow> byte list \<Rightarrow> ('a list \<times> byte list) result" where
  "read_elems C k bs = bindR (read_bytes (k * cd_size C) bs) (\<lambda>(b, rest).
     Inr (map (cd_dec C) (split_chunks (cd_size C) k b), rest))"

lemma length_elems_bytes: "codec_ok C \<Longrightarrow> length (elems_bytes C xs) = length xs * cd_size C"
  by (induction xs) (simp_all add: elems_bytes_def codec_ok_def)

lemma split_elems_bytes:
  "codec_ok C \<Longrightarrow> map (cd_dec C) (split_chunks (cd_size C) (length xs) (elems_bytes C xs)) = xs"
  by (induction xs) (simp_all add: elems_bytes_def codec_ok_def)

lemma read_elems_append:
  "codec_ok C \<Longrightarrow> k = length xs \<Longrightarrow> read_elems C k (elems_bytes C xs @ rest) = Inr (xs, rest)"
  by (simp add: read_elems_def length_elems_bytes split_elems_bytes)

text \<open>A codec that is right on some values only: numbers below the range of the type.\<close>

definition codec_on :: "'a codec \<Rightarrow> 'a set \<Rightarrow> bool" where
  "codec_on C S \<longleftrightarrow> (\<forall>x \<in> S. length (cd_enc C x) = cd_size C \<and> cd_dec C (cd_enc C x) = x)"

lemma codec_on_u32: "codec_on u32_codec {..<2 ^ 32}"
  by (simp add: codec_on_def u32_codec_def)

lemma codec_on_u64: "codec_on u64_codec {..<2 ^ 64}"
  by (simp add: codec_on_def u64_codec_def)

lemma le_array_u64: "elems_bytes u64_codec xs = le_array 8 xs"
  by (simp add: elems_bytes_def u64_codec_def le_array_def)

lemma read_elems_append_on:
  assumes "codec_on C (set xs)" "k = length xs"
  shows "read_elems C k (elems_bytes C xs @ rest) = Inr (xs, rest)"
proof -
  have "length (elems_bytes C xs) = length xs * cd_size C" using assms(1)
    by (induction xs) (simp_all add: elems_bytes_def codec_on_def)
  moreover have "map (cd_dec C) (split_chunks (cd_size C) (length xs) (elems_bytes C xs)) = xs" using assms(1)
    by (induction xs) (simp_all add: elems_bytes_def codec_on_def)
  ultimately show ?thesis using assms(2) by (simp add: read_elems_def)
qed

section \<open>Files\<close>

text \<open>
  \<^verbatim>\<open>seekp\<close> past the end leaves a gap of zeros; a file opened by
  \<^verbatim>\<open>open_file_to_write\<close> keeps what it had outside the written range.
\<close>

definition write_at :: "nat \<Rightarrow> byte list \<Rightarrow> byte list \<Rightarrow> byte list" where
  "write_at pos bs file = overwrite pos bs (file @ replicate (pos - length file) 0)"

lemma drop_write_at: "drop pos (write_at pos bs file) = bs @ drop (pos + length bs) file"
  by (simp add: write_at_def overwrite_def)

definition bin_header :: "nat \<Rightarrow> nat \<Rightarrow> byte list" where
  "bin_header npts ndims = le_bytes 4 npts @ le_bytes 4 ndims"

lemma length_bin_header [simp]: "length (bin_header n d) = 8"
  by (simp add: bin_header_def)

text \<open>Reads of the header as \<^verbatim>\<open>int\<close>, widened with its sign to \<^verbatim>\<open>size_t\<close>.\<close>

definition sext64 :: "nat \<Rightarrow> nat" where
  "sext64 v = (if v < 2 ^ 31 then v else v + (2 ^ 64 - 2 ^ 32))"

definition get_bin_metadata :: "byte list \<Rightarrow> nat \<Rightarrow> (nat \<times> nat) result" where
  "get_bin_metadata file offset =
     (case bindR (read_uint 4 (drop offset file)) (\<lambda>(nrows, r).
        bindR (read_uint 4 r) (\<lambda>(ncols, _). Inr (sext64 nrows, sext64 ncols))) of
        Inl _ \<Rightarrow> Inl UndefinedBehaviour \<comment> \<open>the stream does not throw and the variables stay uninitialised\<close>
      | Inr p \<Rightarrow> Inr p)"

definition load_bin :: "'a codec \<Rightarrow> byte list \<Rightarrow> nat \<Rightarrow> ('a list \<times> nat \<times> nat) result" where
  "load_bin C file offset =
     bindR (read_uint 4 (drop offset file)) (\<lambda>(npts, r1).
     bindR (read_uint 4 r1) (\<lambda>(dims, r2).
     bindR (read_elems C (npts * dims) r2) (\<lambda>(data, _). Inr (data, npts, dims))))"

definition save_bin :: "'a codec \<Rightarrow> byte list \<Rightarrow> 'a list \<Rightarrow> nat \<Rightarrow> nat \<Rightarrow> nat \<Rightarrow> (byte list \<times> nat) result" where
  "save_bin C file data npts ndims offset =
     bindR (mem_get data 0 (npts * ndims)) (\<lambda>xs.
       Inr (write_at offset (bin_header npts ndims @ elems_bytes C xs) file,
            npts * ndims * cd_size C + 8))"

text \<open>Rows padded with zeros to the rounded dimension.\<close>

definition pad_row :: "nat \<Rightarrow> ('a::zero) list \<Rightarrow> 'a list" where
  "pad_row w v = v @ replicate (w - length v) 0"

definition round_up :: "nat \<Rightarrow> nat \<Rightarrow> nat" where
  "round_up x y = (x div y + (if x mod y = 0 then 0 else 1)) * y"

definition aligned_row :: "('a::zero) codec \<Rightarrow> nat \<Rightarrow> nat \<Rightarrow> nat \<Rightarrow> 'a list \<times> byte list \<Rightarrow> ('a list \<times> byte list) result" where
  "aligned_row C dims rounded i st = (case st of (data, rd) \<Rightarrow>
     bindR (read_elems C dims rd) (\<lambda>(v, rd').
     bindR (mem_put data (i * rounded) v) (\<lambda>d1.
     if rounded < dims then Inl UndefinedBehaviour
     else bindR (mem_put d1 (i * rounded + dims) (replicate (rounded - dims) 0)) (\<lambda>d2. Inr (d2, rd')))))"

text \<open>
  \<^verbatim>\<open>aligned_alloc\<close> leaves the buffer uninitialised; every element is written by the
  loop, so the model starts from zeros.
\<close>

definition load_aligned_bin ::
  "('a::zero) codec \<Rightarrow> byte list \<Rightarrow> ('a list \<times> nat \<times> nat \<times> nat) result" where
  "load_aligned_bin C file =
     bindR (read_uint 4 file) (\<lambda>(npts, r1).
     bindR (read_uint 4 r1) (\<lambda>(dims, r2).
     if length file \<noteq> npts * dims * cd_size C + 8 then Inl (ANNException ''Error. File size mismatch.'')
     else let rounded = round_up dims 8 in
       bindR (foldR (aligned_row C dims rounded) [0..<npts] (replicate (npts * rounded) 0, r2)) (\<lambda>(data, _).
         Inr (data, npts, dims, rounded))))"

definition copy_aligned_data_from_file ::
  "('a::zero) codec \<Rightarrow> byte list \<Rightarrow> 'a list \<Rightarrow> nat \<Rightarrow> nat \<Rightarrow> ('a list \<times> nat \<times> nat) result" where
  "copy_aligned_data_from_file C file data rounded offset =
     bindR (read_uint 4 (drop offset file)) (\<lambda>(npts, r1).
     bindR (read_uint 4 r1) (\<lambda>(dims, r2).
     bindR (foldR (aligned_row C dims rounded) [0..<npts] (data, r2)) (\<lambda>(data', _).
       Inr (data', npts, dims))))"

definition save_row :: "'a codec \<Rightarrow> 'a list \<Rightarrow> nat \<Rightarrow> nat \<Rightarrow> nat \<Rightarrow> byte list \<Rightarrow> byte list result" where
  "save_row C data ndims aligned i out =
     bindR (mem_get data (i * aligned) ndims) (\<lambda>v. Inr (out @ elems_bytes C v))"

definition save_data_in_base_dimensions ::
  "'a codec \<Rightarrow> byte list \<Rightarrow> 'a list \<Rightarrow> nat \<Rightarrow> nat \<Rightarrow> nat \<Rightarrow> nat \<Rightarrow> (byte list \<times> nat) result" where
  "save_data_in_base_dimensions C file data npts ndims aligned offset =
     bindR (foldR (save_row C data ndims aligned) [0..<npts] (bin_header npts ndims)) (\<lambda>out.
       Inr (write_at offset out file, 8 + npts * ndims * cd_size C))"

text \<open>\<^verbatim>\<open>get_graph_num_frozen_points\<close> and \<^verbatim>\<open>validate_index_file_size\<close>: readers of graph headers.\<close>

definition get_graph_num_frozen_points :: "byte list \<Rightarrow> nat result" where
  "get_graph_num_frozen_points file =
     bindR (read_uint 8 file) (\<lambda>(expected_file_size, r1).
     bindR (read_uint 4 r1) (\<lambda>(max_observed_degree, r2).
     bindR (read_uint 4 r2) (\<lambda>(start, r3).
     bindR (read_uint 8 r3) (\<lambda>(file_frozen_pts, _). Inr file_frozen_pts))))"

definition validate_index_file_size :: "byte list \<Rightarrow> bool result" where
  "validate_index_file_size file =
     (case read_uint 8 file of Inl _ \<Rightarrow> Inl UndefinedBehaviour
      | Inr (expected_file_size, _) \<Rightarrow> Inr (length file = expected_file_size))"

text \<open>
  \<^verbatim>\<open>load_truthset\<close>, through the cached reader: ids and, when the file is long
  enough for them, distances. The distances are read with the codec of \<^verbatim>\<open>float\<close>.
\<close>

definition truthset_block :: nat where
  "truthset_block = 64 * 1024 * 1024"

definition load_truthset :: "fl codec \<Rightarrow> byte list \<Rightarrow> (nat list \<times> fl list option \<times> nat \<times> nat) result" where
  "load_truthset F file =
     (let reader = ci_open file truthset_block; actual_file_size = ci_fsize reader in
      bindR (ci_read reader 4) (\<lambda>(b1, s1).
      bindR (ci_read s1 4) (\<lambda>(b2, s2).
      let npts = le_value b1; dims = le_value b2;
          with_dists = (2 * npts * dims * 4 + 8) mod 2 ^ 64;
          just_ids = (npts * dims * 4 + 8) mod 2 ^ 64;
          t1 = (if actual_file_size = with_dists then 1 else 0 :: nat);
          truthset_type = (if actual_file_size = just_ids then 2 else t1)
      in if truthset_type = 0 then Inl (ANNException ''Error. File size mismatch.'')
         else bindR (ci_read s2 (npts * dims * 4)) (\<lambda>(idb, s3).
           let ids = le_words 4 (npts * dims) idb in
           if truthset_type = 1 then
             bindR (ci_read s3 (npts * dims * 4)) (\<lambda>(db, s4).
               Inr (ids, Some (map (cd_dec F) (split_chunks 4 (npts * dims) db)), npts, dims))
           else Inr (ids, None, npts, dims)))))"

section \<open>Rows in and out\<close>

lemma aligned_row_step:
  assumes "codec_ok C" "length v = dims" "dims \<le> rounded" "i * rounded + rounded \<le> length data"
  shows "aligned_row C dims rounded i (data, elems_bytes C v @ rest) =
     Inr (take (i * rounded) data @ pad_row rounded v @ drop (i * rounded + rounded) data, rest)"
proof -
  let ?o = "i * rounded"
  let ?d1 = "take ?o data @ v @ drop (?o + dims) data"
  have p1: "mem_put data ?o v = Inr ?d1" using assms(2-4) by (simp add: mem_put_def)
  have o: "length (take ?o data) = ?o" using assms(4) by simp
  have "mem_put ?d1 (?o + dims) (replicate (rounded - dims) 0)
      = Inr (take (?o + dims) ?d1 @ replicate (rounded - dims) 0 @ drop (?o + rounded) ?d1)"
    using assms(2-4) by (simp add: mem_put_def)
  also have "take (?o + dims) ?d1 = take ?o data @ v" using o assms(2) by simp
  also have "drop (?o + rounded) ?d1 = drop (?o + rounded) data"
    using o assms(2,3) by (simp add: add.commute)
  finally show ?thesis
    using assms(1-3) p1 by (simp add: aligned_row_def read_elems_append pad_row_def not_less)
qed

lemma aligned_rows:
  assumes "codec_ok C" "\<forall>v \<in> set rows. length v = dims" "dims \<le> rounded"
    and "(i + length rows) * rounded \<le> length data"
  shows "foldR (aligned_row C dims rounded) [i..<i + length rows] (data, concat (map (elems_bytes C) rows) @ rest) =
     Inr (take (i * rounded) data @ concat (map (pad_row rounded) rows) @ drop ((i + length rows) * rounded) data, rest)"
  using assms(2,4)
proof (induction rows arbitrary: i data)
  case Nil
  then show ?case by simp
next
  case (Cons v rows)
  let ?tl = "concat (map (elems_bytes C) rows) @ rest"
  let ?d2 = "take (i * rounded) data @ pad_row rounded v @ drop (i * rounded + rounded) data"
  have b: "i * rounded + rounded \<le> length data" using Cons.prems(2) by (simp add: algebra_simps)
  have pl: "length (pad_row rounded v) = rounded" using Cons.prems(1) assms(3) by (simp add: pad_row_def)
  have hd: "aligned_row C dims rounded i (data, elems_bytes C v @ ?tl) = Inr (?d2, ?tl)"
    by (rule aligned_row_step [OF assms(1) _ assms(3) b]) (use Cons.prems(1) in simp)
  have upt: "[i..<i + length (v # rows)] = i # [Suc i..<Suc i + length rows]"
    by (simp add: upt_conv_Cons del: upt_Suc)
  have o: "length (take (i * rounded) data) = i * rounded" using b by simp
  have len: "length ?d2 = length data" using b pl by simp
  have t: "take (Suc i * rounded) ?d2 = take (i * rounded) data @ pad_row rounded v"
    using o pl by (simp add: add.commute)
  have d: "drop ((Suc i + length rows) * rounded) ?d2 = drop ((Suc i + length rows) * rounded) data"
    using o pl by (simp add: algebra_simps)
  have "foldR (aligned_row C dims rounded) [Suc i..<Suc i + length rows] (?d2, ?tl)
      = Inr (take (Suc i * rounded) ?d2 @ concat (map (pad_row rounded) rows)
               @ drop ((Suc i + length rows) * rounded) ?d2, rest)"
    by (rule Cons.IH) (use Cons.prems len in auto)
  then show ?case unfolding upt t d using hd by simp
qed

lemma save_rows:
  "\<forall>k \<in> set ks. k * aligned + ndims \<le> length data \<Longrightarrow>
   foldR (save_row C data ndims aligned) ks out =
     Inr (out @ concat (map (\<lambda>k. elems_bytes C (take ndims (drop (k * aligned) data))) ks))"
  by (induction ks arbitrary: out) (simp_all add: save_row_def mem_get_def)

lemma read_bin_header [simp]:
  "n < 2 ^ 32 \<Longrightarrow> read_uint 4 (bin_header n d @ r) = Inr (n, le_bytes 4 d @ r)"
  by (simp add: bin_header_def)

lemma get_bin_metadata_header:
  "n < 2 ^ 31 \<Longrightarrow> d < 2 ^ 31 \<Longrightarrow> get_bin_metadata (bin_header n d @ r) 0 = Inr (n, d)"
  by (simp add: get_bin_metadata_def sext64_def)

lemma load_saved_bin:
  assumes "codec_on C (set xs)" "length xs = npts * ndims" "npts < 2 ^ 32" "ndims < 2 ^ 32"
  shows "\<exists>sz. save_bin C [] xs npts ndims 0 = Inr (bin_header npts ndims @ elems_bytes C xs, sz)"
    "load_bin C (bin_header npts ndims @ elems_bytes C xs) 0 = Inr (xs, npts, ndims)"
  using assms read_elems_append_on [OF assms(1) refl, of "[]"]
  by (simp_all add: save_bin_def mem_get_def write_at_def overwrite_def load_bin_def bin_header_def)

section \<open>Properties\<close>

text \<open>A matrix written by \<^verbatim>\<open>save_bin\<close> at any offset of a file is read back by
  \<^verbatim>\<open>load_bin\<close> at that offset with the same elements and dimensions, and the bytes
  of the file before the offset are untouched.\<close>

theorem save_load_bin:
  assumes "codec_ok C" "length data = npts * ndims" "npts < 2 ^ 32" "ndims < 2 ^ 32"
  shows "\<exists>file' sz. save_bin C file data npts ndims offset = Inr (file', sz)
     \<and> load_bin C file' offset = Inr (data, npts, ndims)
     \<and> sz = 8 + length (elems_bytes C data) \<and> take (min offset (length file)) file' = take (min offset (length file)) file"
proof -
  let ?f = "write_at offset (bin_header npts ndims @ elems_bytes C data) file"
  have "save_bin C file data npts ndims offset = Inr (?f, npts * ndims * cd_size C + 8)"
    using assms(2) by (simp add: save_bin_def mem_get_def)
  moreover have "load_bin C ?f offset = Inr (data, npts, ndims)"
    using assms(2-4) read_elems_append [OF assms(1) refl, of data]
    by (simp add: load_bin_def drop_write_at)
  moreover have "take (min offset (length file)) ?f = take (min offset (length file)) file"
    by (simp add: write_at_def overwrite_def min_def)
  ultimately show ?thesis using assms(2) by (simp add: length_elems_bytes [OF assms(1)])
qed


text \<open>The codec of \<^verbatim>\<open>uint8_t\<close> elements.\<close>

definition uint8_codec :: "8 word codec" where
  "uint8_codec = \<lparr>cd_size = 1, cd_enc = (\<lambda>w. [unat w]), cd_dec = (\<lambda>bs. word_of_nat (hd bs))\<rparr>"

lemma uint8_codec_ok: "codec_ok uint8_codec"
  by (simp add: codec_ok_def uint8_codec_def)

lemma save_load_bin_witness:
  "\<exists>file' sz. save_bin uint8_codec [9] [1, 2, 3, 250] 2 2 5 = Inr (file', sz)
     \<and> load_bin uint8_codec file' 5 = Inr ([1, 2, 3, 250], 2, 2)"
  using save_load_bin [OF uint8_codec_ok, of "[1, 2, 3, 250]" 2 2 "[9]" 5] by auto

end
