(* ===== verification/Data_Store.thy ===== *)
theory Data_Store
  imports Bin_IO
begin

text \<open>
  \<^verbatim>\<open>InMemDataStore\<close> (\<^verbatim>\<open>src/in_mem_data_store.cpp\<close>) and the
  \<^verbatim>\<open>resize\<close> of \<^verbatim>\<open>AbstractDataStore\<close>: the vectors of the index, one
  row of the aligned dimension per location in one flat buffer. The distance object behind it
  is a parameter \<open>distance_fn\<close>: the comparison of two rows, whether points are preprocessed, and the
  preprocessing of a region. The locale \<open>vector_store\<close> is what the index relies on.
\<close>

record 'a distance_fn =
  df_compare :: "'a list \<Rightarrow> 'a list \<Rightarrow> fl"
  df_required_alignment :: nat
  df_preprocessing_required :: bool
  df_preprocess_base_points :: "'a list \<Rightarrow> nat \<Rightarrow> nat \<Rightarrow> 'a list"

record 'a data_store =
  ds_capacity :: nat
  ds_dim :: nat
  ds_aligned_dim :: nat
  ds_data :: "'a list"

definition ds_make :: "'a distance_fn \<Rightarrow> nat \<Rightarrow> nat \<Rightarrow> ('a::zero) data_store" where
  "ds_make df num_points dims =
     (let aligned = round_up dims (df_required_alignment df)
      in \<lparr>ds_capacity = num_points, ds_dim = dims, ds_aligned_dim = aligned,
          ds_data = replicate (num_points * aligned) 0\<rparr>)"

text \<open>Expansion leaves the new rows uninitialised; the model puts zeros there.\<close>

definition ds_expand :: "nat \<Rightarrow> ('a::zero) data_store \<Rightarrow> 'a data_store result" where
  "ds_expand new_size s =
     (if new_size = ds_capacity s then Inr s
      else if new_size < ds_capacity s then Inl (ANNException ''Cannot 'expand' datastore'')
      else bindR (mem_put (replicate (new_size * ds_aligned_dim s) 0) 0
                    (take (ds_capacity s * ds_aligned_dim s) (ds_data s)))
             (\<lambda>d. Inr (s\<lparr>ds_data := d, ds_capacity := new_size\<rparr>)))"

definition ds_shrink :: "nat \<Rightarrow> ('a::zero) data_store \<Rightarrow> 'a data_store result" where
  "ds_shrink new_size s =
     (if new_size = ds_capacity s then Inr s
      else if ds_capacity s < new_size then Inl (ANNException ''Cannot 'shrink' datastore'')
      else bindR (mem_get (ds_data s) 0 (new_size * ds_aligned_dim s))
             (\<lambda>d. Inr (s\<lparr>ds_data := d, ds_capacity := new_size\<rparr>)))"

definition ds_resize :: "nat \<Rightarrow> ('a::zero) data_store \<Rightarrow> 'a data_store result" where
  "ds_resize n s =
     (if ds_capacity s < n then ds_expand n s
      else if n < ds_capacity s then ds_shrink n s
      else Inr s)"

section \<open>Vectors\<close>

definition ds_get_vector :: "'a data_store \<Rightarrow> nat \<Rightarrow> 'a list result" where
  "ds_get_vector s i = mem_get (ds_data s) (i * ds_aligned_dim s) (ds_dim s)"

definition ds_row :: "'a data_store \<Rightarrow> nat \<Rightarrow> 'a list result" where
  "ds_row s i = mem_get (ds_data s) (i * ds_aligned_dim s) (ds_aligned_dim s)"

definition ds_set_vector :: "'a distance_fn \<Rightarrow> nat \<Rightarrow> 'a list \<Rightarrow> ('a::zero) data_store \<Rightarrow> 'a data_store result" where
  "ds_set_vector df loc vec s =
     (let off = loc * ds_aligned_dim s in
      bindR (mem_put (ds_data s) off (replicate (ds_aligned_dim s) 0)) (\<lambda>d1.
      bindR (mem_get vec 0 (ds_dim s)) (\<lambda>v.
      bindR (mem_put d1 off v) (\<lambda>d2.
      if df_preprocessing_required df then
        bindR (mem_get d2 off (ds_aligned_dim s)) (\<lambda>r.
        bindR (mem_put d2 off (df_preprocess_base_points df r (ds_aligned_dim s) 1)) (\<lambda>d3.
          Inr (s\<lparr>ds_data := d3\<rparr>)))
      else Inr (s\<lparr>ds_data := d2\<rparr>)))))"

definition ds_populate_row :: "'a list \<Rightarrow> nat \<Rightarrow> ('a::zero) data_store \<Rightarrow> 'a data_store result" where
  "ds_populate_row vectors i s =
     bindR (mem_get vectors (i * ds_dim s) (ds_dim s)) (\<lambda>v.
     bindR (mem_put (ds_data s) (i * ds_aligned_dim s) v) (\<lambda>d. Inr (s\<lparr>ds_data := d\<rparr>)))"

definition ds_populate_data :: "'a distance_fn \<Rightarrow> 'a list \<Rightarrow> nat \<Rightarrow> ('a::zero) data_store \<Rightarrow> 'a data_store result" where
  "ds_populate_data df vectors num_pts s =
     bindR (mem_put (ds_data s) 0 (replicate (ds_aligned_dim s * num_pts) 0)) (\<lambda>d0.
     bindR (foldR (ds_populate_row vectors) [0..<num_pts] (s\<lparr>ds_data := d0\<rparr>)) (\<lambda>s1.
     if df_preprocessing_required df then
       bindR (mem_get (ds_data s1) 0 (ds_aligned_dim s1 * num_pts)) (\<lambda>r.
       bindR (mem_put (ds_data s1) 0 (df_preprocess_base_points df r (ds_aligned_dim s1) num_pts)) (\<lambda>d.
         Inr (s1\<lparr>ds_data := d\<rparr>)))
     else Inr s1))"

text \<open>
  Population from a file copies first and checks the header against the store afterwards; a file
  with more points than the capacity has then already been written past the buffer.
\<close>

definition ds_populate_file ::
  "'a codec \<Rightarrow> 'a distance_fn \<Rightarrow> byte list \<Rightarrow> nat \<Rightarrow> ('a::zero) data_store \<Rightarrow> 'a data_store result" where
  "ds_populate_file C df file offset s =
     bindR (copy_aligned_data_from_file C file (ds_data s) (ds_aligned_dim s) offset) (\<lambda>(d, npts, ndim).
     if ds_capacity s < u32 npts then Inl (ANNException ''Number of points in the file is greater than the capacity'')
     else if u32 ndim \<noteq> ds_dim s then Inl (ANNException ''Number of dimensions of a point in the file'')
     else if df_preprocessing_required df then
       bindR (mem_get d 0 (ds_aligned_dim s * ds_capacity s)) (\<lambda>r.
       bindR (mem_put d 0 (df_preprocess_base_points df r (ds_aligned_dim s) (ds_capacity s))) (\<lambda>d'.
         Inr (s\<lparr>ds_data := d'\<rparr>)))
     else Inr (s\<lparr>ds_data := d\<rparr>))"

text \<open>\<^verbatim>\<open>load\<close>: \<open>None\<close> is a file that does not exist.\<close>

definition ds_load :: "'a codec \<Rightarrow> byte list option \<Rightarrow> ('a::zero) data_store \<Rightarrow> (nat \<times> 'a data_store) result" where
  "ds_load C file_opt s =
     (case file_opt of
        None \<Rightarrow> Inl (ANNException ''ERROR: data file does not exist.'')
      | Some file \<Rightarrow>
          bindR (get_bin_metadata file 0) (\<lambda>(file_num_points, file_dim).
          if file_dim \<noteq> ds_dim s then Inl (ANNException ''ERROR: Driver requests loading other dimension'')
          else bindR (if ds_capacity s < file_num_points then ds_resize (u32 file_num_points) s else Inr s) (\<lambda>s1.
          bindR (copy_aligned_data_from_file C file (ds_data s1) (ds_aligned_dim s1) 0) (\<lambda>(d, npts, ndim).
            Inr (u32 npts, s1\<lparr>ds_data := d\<rparr>)))))"

definition ds_save :: "'a codec \<Rightarrow> byte list \<Rightarrow> nat \<Rightarrow> 'a data_store \<Rightarrow> (byte list \<times> nat) result" where
  "ds_save C file num_points s =
     save_data_in_base_dimensions C file (ds_data s) num_points (ds_dim s) (ds_aligned_dim s) 0"

text \<open>\<^verbatim>\<open>preprocess_query\<close> copies the base dimensions into the aligned query buffer.\<close>

definition ds_preprocess_query :: "'a list \<Rightarrow> 'a list \<Rightarrow> 'a data_store \<Rightarrow> 'a list result" where
  "ds_preprocess_query query buf s = bindR (mem_get query 0 (ds_dim s)) (mem_put buf 0)"

section \<open>Distances\<close>

definition ds_distance_query :: "'a distance_fn \<Rightarrow> 'a data_store \<Rightarrow> 'a list \<Rightarrow> nat \<Rightarrow> fl result" where
  "ds_distance_query df s query loc = bindR (ds_row s loc) (\<lambda>r. Inr (df_compare df query r))"

definition ds_distance_locs :: "'a distance_fn \<Rightarrow> 'a data_store \<Rightarrow> nat \<Rightarrow> nat \<Rightarrow> fl result" where
  "ds_distance_locs df s loc1 loc2 =
     bindR (ds_row s loc1) (\<lambda>r1. bindR (ds_row s loc2) (\<lambda>r2. Inr (df_compare df r1 r2)))"

definition ds_distance_batch :: "'a distance_fn \<Rightarrow> 'a data_store \<Rightarrow> 'a list \<Rightarrow> nat list \<Rightarrow> fl list result" where
  "ds_distance_batch df s query locations = mapR (ds_distance_query df s query) locations"

section \<open>Moving vectors\<close>

definition ds_copy_vectors :: "nat \<Rightarrow> nat \<Rightarrow> nat \<Rightarrow> 'a data_store \<Rightarrow> 'a data_store result" where
  "ds_copy_vectors from_loc to_loc num_points s =
     bindR (memmove (ds_data s) (ds_aligned_dim s * to_loc) (ds_aligned_dim s * from_loc)
              (num_points * ds_aligned_dim s)) (\<lambda>d. Inr (s\<lparr>ds_data := d\<rparr>))"

definition ds_move_vectors :: "nat \<Rightarrow> nat \<Rightarrow> nat \<Rightarrow> ('a::zero) data_store \<Rightarrow> 'a data_store result" where
  "ds_move_vectors old_start new_start num s =
     (if num = 0 \<or> old_start = new_start then Inr s
      else
        let start0 = old_start; end0 = u32_add old_start num;
            start1 = (if new_start < old_start \<and> start0 < u32_add new_start num
                      then u32_add new_start num else start0);
            end1 = (if \<not> new_start < old_start \<and> new_start < end0 then new_start else end0)
        in bindR (ds_copy_vectors old_start new_start num s) (\<lambda>s1.
           bindR (mem_put (ds_data s1) (ds_aligned_dim s1 * start1)
                    (replicate (ds_aligned_dim s1 * u32_sub end1 start1) 0)) (\<lambda>d.
             Inr (s1\<lparr>ds_data := d\<rparr>))))"

section \<open>The medoid\<close>

text \<open>
  \<open>tf\<close> is the conversion of an element to \<^verbatim>\<open>float\<close>. The centroid is
  accumulated row by row, then the squared distance of every row to it, and the first smallest
  one wins.
\<close>

definition add_row :: "('a \<Rightarrow> fl) \<Rightarrow> 'a list \<Rightarrow> fl list \<Rightarrow> fl list" where
  "add_row tf r center = map2 (\<lambda>c x. fl_add F32 c (tf x)) center r"

definition ds_center :: "('a \<Rightarrow> fl) \<Rightarrow> 'a data_store \<Rightarrow> fl list result" where
  "ds_center tf s =
     bindR (foldR (\<lambda>i c. bindR (ds_row s i) (\<lambda>r. Inr (add_row tf r c))) [0..<ds_capacity s]
              (replicate (ds_aligned_dim s) (Fin 0)))
       (\<lambda>c. Inr (map (\<lambda>x. fl_div F32 x (round_fl F32 (of_nat (ds_capacity s)))) c))"

definition sq_dist :: "('a \<Rightarrow> fl) \<Rightarrow> fl list \<Rightarrow> 'a list \<Rightarrow> fl" where
  "sq_dist tf center r = foldl (\<lambda>dist cx.
     let diff = fl_sub F32 (fst cx) (tf (snd cx)) in fl_add F32 dist (fl_mul F32 diff diff))
     (Fin 0) (zip center r)"

fun argmin_from :: "fl list \<Rightarrow> nat \<Rightarrow> nat \<Rightarrow> fl \<Rightarrow> nat" where
  "argmin_from [] i min_idx min_dist = min_idx"
| "argmin_from (x # xs) i min_idx min_dist =
     (if fl_lt x min_dist then argmin_from xs (i + 1) i x else argmin_from xs (i + 1) min_idx min_dist)"

definition ds_calculate_medoid :: "('a \<Rightarrow> fl) \<Rightarrow> 'a data_store \<Rightarrow> nat result" where
  "ds_calculate_medoid tf s =
     bindR (ds_center tf s) (\<lambda>center.
     bindR (mapR (\<lambda>i. bindR (ds_row s i) (\<lambda>r. Inr (sq_dist tf center r))) [0..<ds_capacity s]) (\<lambda>distances.
     case distances of [] \<Rightarrow> Inl UndefinedBehaviour
     | d0 # ds \<Rightarrow> Inr (argmin_from ds 1 0 d0)))"

section \<open>Rows\<close>

definition ds_inv :: "'a data_store \<Rightarrow> bool" where
  "ds_inv s \<longleftrightarrow> length (ds_data s) = ds_capacity s * ds_aligned_dim s \<and> ds_dim s \<le> ds_aligned_dim s"

lemma row_end: "i < c \<Longrightarrow> i * a + a \<le> c * (a :: nat)"
  using mult_le_mono1 [of "Suc i" c a] by (simp add: add.commute)

lemma row_apart: "i \<noteq> j \<Longrightarrow> i * a + a \<le> j * (a :: nat) \<or> j * a + a \<le> i * a"
  using row_end [of i j a] row_end [of j i a] by (cases i j rule: linorder_cases) auto

lemma cell_row: "p < a \<Longrightarrow> a * n \<le> r * a + p \<longleftrightarrow> n \<le> (r :: nat)"
proof
  assume p: "p < a" and le: "a * n \<le> r * a + p"
  show "n \<le> r"
  proof (rule ccontr)
    assume "\<not> n \<le> r"
    then have "r * a + a \<le> n * a" by (intro row_end) simp
    then show False using le p by (simp add: mult.commute)
  qed
next
  assume "n \<le> r"
  then show "a * n \<le> r * a + p" using mult_le_mono2 [of n r a] by (simp add: mult.commute trans_le_add1)
qed

lemma ds_row_in [vec_simps]:
  "ds_inv s \<Longrightarrow> i < ds_capacity s \<Longrightarrow> ds_row s i = Inr (take (ds_aligned_dim s) (drop (i * ds_aligned_dim s) (ds_data s)))"
  using row_end [of i "ds_capacity s" "ds_aligned_dim s"] by (simp add: ds_row_def mem_get_def ds_inv_def)

lemma ds_get_vector_row: "ds_inv s \<Longrightarrow> i < ds_capacity s \<Longrightarrow>
    ds_get_vector s i = bindR (ds_row s i) (\<lambda>r. Inr (take (ds_dim s) r))"
  using row_end [of i "ds_capacity s" "ds_aligned_dim s"]
  by (simp add: ds_row_in) (simp add: ds_get_vector_def mem_get_def ds_inv_def min_def)

lemma ds_row_length: "ds_row s i = Inr r \<Longrightarrow> length r = ds_aligned_dim s"
  by (auto simp: ds_row_def mem_get_def split: if_splits)

lemma ds_make_inv: "0 < df_required_alignment df \<Longrightarrow> ds_inv (ds_make df n dims)"
proof -
  assume a: "0 < df_required_alignment df"
  define k q r where "k = df_required_alignment df" and "q = dims div k" and "r = dims mod k"
  have "dims = q * k + r" unfolding q_def r_def by simp
  moreover have "r < k" using a by (simp add: r_def k_def)
  ultimately have "dims \<le> round_up dims (df_required_alignment df)"
    unfolding round_up_def k_def [symmetric] q_def [symmetric] r_def [symmetric]
    by (cases "r = 0") (simp_all add: algebra_simps)
  then show ?thesis by (simp add: ds_inv_def ds_make_def Let_def)
qed

text \<open>Writing a region inside one row changes that row only.\<close>

lemma put_in_row:
  assumes "ds_inv s" "i < ds_capacity s" "mem_put (ds_data s) (i * ds_aligned_dim s) xs = Inr d"
    and "length xs \<le> ds_aligned_dim s"
  shows "ds_inv (s\<lparr>ds_data := d\<rparr>)" "j \<noteq> i \<Longrightarrow> ds_row (s\<lparr>ds_data := d\<rparr>) j = ds_row s j"
    and "\<And>r. ds_row s i = Inr r \<Longrightarrow> ds_row (s\<lparr>ds_data := d\<rparr>) i = Inr (xs @ drop (length xs) r)"
proof -
  let ?a = "ds_aligned_dim s"
  show "ds_inv (s\<lparr>ds_data := d\<rparr>)" using assms(1,3) by (simp add: ds_inv_def mem_put_length)
  show "ds_row (s\<lparr>ds_data := d\<rparr>) j = ds_row s j" if "j \<noteq> i"
    using mem_get_put_other [OF assms(3), of "j * ?a" ?a] row_apart [OF that, of ?a] assms(4)
    by (auto simp: ds_row_def)
  fix r assume r: "ds_row s i = Inr r"
  have le: "i * ?a + ?a \<le> length (ds_data s)"
    using row_end [OF assms(2)] assms(1) by (simp add: ds_inv_def)
  have d: "d = take (i * ?a) (ds_data s) @ xs @ drop (i * ?a + length xs) (ds_data s)"
    using assms(3) by (simp add: mem_put_def split: if_splits)
  have l: "length d = length (ds_data s)" by (rule mem_put_length [OF assms(3)])
  have "take ?a (drop (i * ?a) d) = xs @ drop (length xs) (take ?a (drop (i * ?a) (ds_data s)))"
    using le assms(4) by (simp add: d drop_take add.commute)
  then show "ds_row (s\<lparr>ds_data := d\<rparr>) i = Inr (xs @ drop (length xs) r)"
    using r le l by (simp add: ds_row_def mem_get_def split: if_splits)
qed

lemma put_in_row_ok:
  "ds_inv s \<Longrightarrow> i < ds_capacity s \<Longrightarrow> length xs \<le> ds_aligned_dim s \<Longrightarrow>
     \<exists>d. mem_put (ds_data s) (i * ds_aligned_dim s) xs = Inr d"
  using row_end [of i "ds_capacity s" "ds_aligned_dim s"] by (simp add: mem_put_def ds_inv_def)

text \<open>The preprocessing of one row keeps its length.\<close>

definition df_ok :: "'a distance_fn \<Rightarrow> bool" where
  "df_ok df \<longleftrightarrow> 0 < df_required_alignment df
     \<and> (\<forall>r d n. length (df_preprocess_base_points df r d n) = length r)"

definition prepared :: "'a distance_fn \<Rightarrow> nat \<Rightarrow> ('a::zero) list \<Rightarrow> 'a list" where
  "prepared df a v = (if df_preprocessing_required df then df_preprocess_base_points df (pad_row a v) a 1
                      else pad_row a v)"

lemma ds_set_vector_correct:
  assumes "ds_inv s" "i < ds_capacity s" "length v = ds_dim s" "df_ok df"
  shows "\<exists>s'. ds_set_vector df i v s = Inr s' \<and> ds_inv s' \<and> ds_capacity s' = ds_capacity s
     \<and> ds_aligned_dim s' = ds_aligned_dim s \<and> ds_dim s' = ds_dim s
     \<and> ds_row s' i = Inr (prepared df (ds_aligned_dim s) v) \<and> (\<forall>j. j \<noteq> i \<longrightarrow> ds_row s' j = ds_row s j)"
proof -
  let ?a = "ds_aligned_dim s"
  have dim: "ds_dim s \<le> ?a" using assms(1) by (simp add: ds_inv_def)
  obtain r0 where r0: "ds_row s i = Inr r0" using ds_row_in [OF assms(1,2)] by blast
  obtain d1 where d1: "mem_put (ds_data s) (i * ?a) (replicate ?a 0) = Inr d1"
    using put_in_row_ok [OF assms(1,2)] by (metis le_refl length_replicate)
  define s1 where "s1 = s\<lparr>ds_data := d1\<rparr>"
  have s1: "ds_inv s1" "ds_capacity s1 = ds_capacity s" "ds_aligned_dim s1 = ?a" "ds_data s1 = d1"
    "\<And>j. j \<noteq> i \<Longrightarrow> ds_row s1 j = ds_row s j" "ds_row s1 i = Inr (replicate ?a 0)"
    using put_in_row [OF assms(1,2) d1] r0 ds_row_length [OF r0] by (simp_all add: s1_def)
  obtain d2 where d2: "mem_put d1 (i * ?a) v = Inr d2"
    using put_in_row_ok [OF s1(1), of i v] assms(2,3) dim s1(2,3,4) by auto
  define s2 where "s2 = s1\<lparr>ds_data := d2\<rparr>"
  have p2: "mem_put (ds_data s1) (i * ds_aligned_dim s1) v = Inr d2" using d2 s1(3,4) by simp
  have i1: "i < ds_capacity s1" and l1: "length v \<le> ds_aligned_dim s1" using assms(2,3) dim s1(2,3) by simp_all
  have s2: "ds_inv s2" "ds_capacity s2 = ds_capacity s" "ds_aligned_dim s2 = ?a" "ds_data s2 = d2"
    "\<And>j. j \<noteq> i \<Longrightarrow> ds_row s2 j = ds_row s j" "ds_row s2 i = Inr (pad_row ?a v)"
    using put_in_row [OF s1(1) i1 p2 l1] s1(2,3,5,6) by (simp_all add: s2_def pad_row_def)
  have vget: "mem_get v 0 (ds_dim s) = Inr v" using assms(3) by (simp add: mem_get_def)
  have rget: "mem_get d2 (i * ?a) ?a = Inr (pad_row ?a v)" using s2(3,4,6) by (simp add: ds_row_def)
  have eq: "s\<lparr>ds_data := d\<rparr> = s2\<lparr>ds_data := d\<rparr>" for d by (simp add: s2_def s1_def)
  have pl: "length (pad_row ?a v) = ?a" by (rule ds_row_length [OF s2(6), unfolded s2(3)])
  show ?thesis
  proof (cases "df_preprocessing_required df")
    case False
    then have "ds_set_vector df i v s = Inr s2"
      by (simp add: ds_set_vector_def Let_def d1 vget d2) (simp add: s2_def s1_def)
    then show ?thesis using s2 False by (auto simp: prepared_def s2_def s1_def)
  next
    case True
    let ?p = "df_preprocess_base_points df (pad_row ?a v) ?a 1"
    have lp: "length ?p = ?a" using assms(4) pl by (simp add: df_ok_def)
    obtain d3 where d3: "mem_put d2 (i * ?a) ?p = Inr d3"
      using put_in_row_ok [OF s2(1), of i ?p] assms(2) lp s2(2,3,4) by auto
    have p3: "mem_put (ds_data s2) (i * ds_aligned_dim s2) ?p = Inr d3" using d3 s2(3,4) by simp
    have i2: "i < ds_capacity s2" and l2: "length ?p \<le> ds_aligned_dim s2" using assms(2) s2(2,3) lp by simp_all
    have "ds_set_vector df i v s = Inr (s2\<lparr>ds_data := d3\<rparr>)"
      using True by (simp add: ds_set_vector_def Let_def d1 vget d2 rget d3 [simplified] eq)
    then show ?thesis
      using put_in_row [OF s2(1) i2 p3 l2] s2 True lp pl by (auto simp: prepared_def s2_def s1_def)
  qed
qed

section \<open>Relocation\<close>

lemma ds_row_nth:
  assumes "ds_inv s" "i < ds_capacity s" "ds_row s i = Inr r" "p < ds_aligned_dim s"
  shows "r ! p = ds_data s ! (i * ds_aligned_dim s + p)"
  using assms ds_row_in [OF assms(1,2)] row_end [OF assms(2), of "ds_aligned_dim s"]
  by (auto simp: ds_inv_def)

text \<open>Two stores agree on a row when their buffers agree on its cells.\<close>

lemma ds_row_cong:
  assumes "ds_inv s" "ds_inv t" "ds_aligned_dim t = ds_aligned_dim s" "i < ds_capacity s" "j < ds_capacity t"
    and "\<And>p. p < ds_aligned_dim s \<Longrightarrow>
           ds_data t ! (j * ds_aligned_dim s + p) = ds_data s ! (i * ds_aligned_dim s + p)"
  shows "ds_row t j = ds_row s i"
proof -
  let ?a = "ds_aligned_dim s"
  have b: "i * ?a + ?a \<le> length (ds_data s)" "j * ?a + ?a \<le> length (ds_data t)"
    using assms(1-5) row_end by (auto simp: ds_inv_def)
  have "take ?a (drop (j * ?a) (ds_data t)) = take ?a (drop (i * ?a) (ds_data s))"
    using b assms(6) by (intro nth_equalityI) simp_all
  then show ?thesis using assms(1-5) by (simp add: ds_row_in)
qed

lemma ds_copy_vectors_correct:
  assumes "ds_inv s" "old + n \<le> ds_capacity s" "new + n \<le> ds_capacity s"
  shows "\<exists>s'. ds_copy_vectors old new n s = Inr s' \<and> ds_inv s' \<and> ds_capacity s' = ds_capacity s
     \<and> ds_aligned_dim s' = ds_aligned_dim s \<and> ds_dim s' = ds_dim s
     \<and> (\<forall>r < ds_capacity s. ds_row s' r = (if new \<le> r \<and> r < new + n then ds_row s (old + (r - new)) else ds_row s r))"
proof -
  let ?a = "ds_aligned_dim s"
  have len: "length (ds_data s) = ds_capacity s * ?a" using assms(1) by (simp add: ds_inv_def)
  have "old * ?a + n * ?a \<le> ds_capacity s * ?a" "new * ?a + n * ?a \<le> ds_capacity s * ?a"
    using mult_le_mono1 [OF assms(2), of ?a] mult_le_mono1 [OF assms(3), of ?a] by (simp_all add: algebra_simps)
  then obtain d where d: "memmove (ds_data s) (?a * new) (?a * old) (n * ?a) = Inr d"
    using len by (auto simp: memmove_def mult.commute)
  define s' where "s' = s\<lparr>ds_data := d\<rparr>"
  have inv': "ds_inv s'" using assms(1) by (simp add: ds_inv_def s'_def memmove_length [OF d])
  have f: "ds_aligned_dim s' = ?a" "ds_capacity s' = ds_capacity s" "ds_data s' = d" by (simp_all add: s'_def)
  have "ds_row s' r = (if new \<le> r \<and> r < new + n then ds_row s (old + (r - new)) else ds_row s r)"
    if r: "r < ds_capacity s" for r
  proof -
    have cell: "d ! (r * ?a + p) = (if new \<le> r \<and> r < new + n then ds_data s ! ((old + (r - new)) * ?a + p)
        else ds_data s ! (r * ?a + p))" if p: "p < ?a" for p
    proof -
      have i: "r * ?a + p < length (ds_data s)" using row_end [OF r, of ?a] p len by simp
      have lo: "?a * new \<le> r * ?a + p \<longleftrightarrow> new \<le> r" by (rule cell_row [OF p])
      have "?a * new + n * ?a \<le> r * ?a + p \<longleftrightarrow> new + n \<le> r"
        using cell_row [OF p, of "new + n" r] by (simp add: algebra_simps)
      then have hi: "r * ?a + p < ?a * new + n * ?a \<longleftrightarrow> r < new + n" by (simp add: not_le [symmetric])
      have off: "?a * old + (r * ?a + p - ?a * new) = (old + (r - new)) * ?a + p" if "new \<le> r"
        using that by (auto simp: le_iff_add algebra_simps)
      show ?thesis unfolding memmove_nth [OF d i] lo hi using off by simp
    qed
    show ?thesis
    proof (cases "new \<le> r \<and> r < new + n")
      case True
      then have o: "old + (r - new) < ds_capacity s" using assms(2) by linarith
      have "ds_row s' r = ds_row s (old + (r - new))"
        by (rule ds_row_cong [OF assms(1) inv' f(1) o]) (use r f cell True in simp_all)
      then show ?thesis using True by simp
    next
      case False
      have "ds_row s' r = ds_row s r"
        by (rule ds_row_cong [OF assms(1) inv' f(1) r]) (use r f cell False in simp_all)
      then show ?thesis using False by auto
    qed
  qed
  moreover have "ds_copy_vectors old new n s = Inr s'" by (simp add: ds_copy_vectors_def d s'_def)
  ultimately show ?thesis using inv' f by (auto simp: s'_def)
qed

lemma clear_rows:
  assumes "ds_inv s" "lo \<le> hi" "hi \<le> ds_capacity s"
  shows "\<exists>d. mem_put (ds_data s) (ds_aligned_dim s * lo) (replicate (ds_aligned_dim s * (hi - lo)) 0) = Inr d
     \<and> ds_inv (s\<lparr>ds_data := d\<rparr>)
     \<and> (\<forall>r < ds_capacity s. ds_row (s\<lparr>ds_data := d\<rparr>) r =
          (if lo \<le> r \<and> r < hi then Inr (replicate (ds_aligned_dim s) 0) else ds_row s r))"
proof -
  let ?a = "ds_aligned_dim s"
  have len: "length (ds_data s) = ds_capacity s * ?a" using assms(1) by (simp add: ds_inv_def)
  have span: "?a * lo + ?a * (hi - lo) = ?a * hi" using assms(2) by (simp flip: distrib_left)
  have "?a * hi \<le> ds_capacity s * ?a" using mult_le_mono1 [OF assms(3), of ?a] by (simp add: mult.commute)
  then obtain d where d: "mem_put (ds_data s) (?a * lo) (replicate (?a * (hi - lo)) 0) = Inr d"
    using len span by (auto simp: mem_put_def)
  define s' where "s' = s\<lparr>ds_data := d\<rparr>"
  have inv': "ds_inv s'" using assms(1) by (simp add: ds_inv_def s'_def mem_put_length [OF d])
  have f: "ds_aligned_dim s' = ?a" "ds_capacity s' = ds_capacity s" "ds_data s' = d" by (simp_all add: s'_def)
  have "ds_row s' r = (if lo \<le> r \<and> r < hi then Inr (replicate ?a 0) else ds_row s r)"
    if r: "r < ds_capacity s" for r
  proof -
    have cell: "d ! (r * ?a + p) = (if lo \<le> r \<and> r < hi then 0 else ds_data s ! (r * ?a + p))" if p: "p < ?a" for p
    proof -
      have i: "r * ?a + p < length (ds_data s)" using row_end [OF r, of ?a] p len by simp
      have lo: "?a * lo \<le> r * ?a + p \<longleftrightarrow> lo \<le> r" by (rule cell_row [OF p])
      have hi: "r * ?a + p < ?a * lo + ?a * (hi - lo) \<longleftrightarrow> r < hi"
        unfolding span using cell_row [OF p, of hi r] by linarith
      have "r * ?a + p - ?a * lo < ?a * (hi - lo)" if "lo \<le> r \<and> r < hi"
        using that lo hi by linarith
      then show ?thesis unfolding mem_put_nth [OF d i] length_replicate lo hi by simp
    qed
    show ?thesis
    proof (cases "lo \<le> r \<and> r < hi")
      case True
      have e: "r * ?a + ?a \<le> length d" using row_end [OF r, of ?a] len mem_put_length [OF d] by simp
      have "take ?a (drop (r * ?a) d) = replicate ?a 0"
        using e cell True by (intro nth_equalityI) simp_all
      then show ?thesis using True inv' f r by (simp add: ds_row_in)
    next
      case False
      have "ds_row s' r = ds_row s r"
        by (rule ds_row_cong [OF assms(1) inv' f(1) r]) (use r f cell False in simp_all)
      then show ?thesis using False by auto
    qed
  qed
  then show ?thesis using d inv' by (auto simp: s'_def)
qed

section \<open>The interface of the index\<close>

text \<open>
  A store of rows by location: writing one location changes that row only, and a block of rows can
  be copied to another place, each row landing at the same offset in the block.
\<close>

locale vector_store =
  fixes row :: "'s \<Rightarrow> nat \<Rightarrow> 'v result"
    and cap :: "'s \<Rightarrow> nat"
    and setv :: "nat \<Rightarrow> 'v \<Rightarrow> 's \<Rightarrow> 's result"
    and copyv :: "nat \<Rightarrow> nat \<Rightarrow> nat \<Rightarrow> 's \<Rightarrow> 's result"
    and prep :: "'s \<Rightarrow> 'v \<Rightarrow> 'v"
    and fits :: "'s \<Rightarrow> 'v \<Rightarrow> bool"
    and inv :: "'s \<Rightarrow> bool"
  assumes row_in: "inv s \<Longrightarrow> i < cap s \<Longrightarrow> ok (row s i)"
    and set_law: "inv s \<Longrightarrow> i < cap s \<Longrightarrow> fits s v \<Longrightarrow> \<exists>s'. setv i v s = Inr s' \<and> inv s' \<and> cap s' = cap s
      \<and> row s' i = Inr (prep s v) \<and> (\<forall>j. j \<noteq> i \<longrightarrow> row s' j = row s j)"
    and copy_law: "inv s \<Longrightarrow> old + n \<le> cap s \<Longrightarrow> new + n \<le> cap s \<Longrightarrow>
      \<exists>s'. copyv old new n s = Inr s' \<and> inv s' \<and> cap s' = cap s
      \<and> (\<forall>r < cap s. row s' r = (if new \<le> r \<and> r < new + n then row s (old + (r - new)) else row s r))"
begin

text \<open>A block moved elsewhere and back is where it was.\<close>

lemma copy_back:
  assumes "inv s" "old + n \<le> cap s" "new + n \<le> cap s" "old + n \<le> new \<or> new + n \<le> old"
  shows "\<exists>s1 s2. copyv old new n s = Inr s1 \<and> copyv new old n s1 = Inr s2
     \<and> (\<forall>r. old \<le> r \<and> r < old + n \<longrightarrow> row s2 r = row s r)"
proof -
  obtain s1 where s1: "copyv old new n s = Inr s1" "inv s1" "cap s1 = cap s"
      "\<forall>r < cap s. row s1 r = (if new \<le> r \<and> r < new + n then row s (old + (r - new)) else row s r)"
    using copy_law [OF assms(1-3)] by blast
  obtain s2 where s2: "copyv new old n s1 = Inr s2"
      "\<forall>r < cap s1. row s2 r = (if old \<le> r \<and> r < old + n then row s1 (new + (r - old)) else row s1 r)"
    using copy_law [OF s1(2), of new n old] assms(2,3) s1(3) by auto
  have "row s2 r = row s r" if r: "old \<le> r" "r < old + n" for r
  proof -
    let ?k = "new + (r - old)"
    have b: "?k < cap s" "r < cap s" "new \<le> ?k" "?k < new + n" "old + (?k - new) = r" using r assms(2,3) by auto
    have "row s2 r = row s1 ?k" using s2(2) r b(2) s1(3) by simp
    also have "\<dots> = row s r" using s1(4) [rule_format, OF b(1)] b(3-5) by simp
    finally show ?thesis .
  qed
  then show ?thesis using s1(1) s2(1) by blast
qed

end

definition ds_fits :: "'a data_store \<Rightarrow> 'a list \<Rightarrow> bool" where
  "ds_fits s v \<longleftrightarrow> length v = ds_dim s"

text \<open>A distance object that keeps the length of what it preprocesses.\<close>

typedef 'a dist_obj = "{df :: 'a distance_fn. df_ok df}"
  by (rule exI [of _ "\<lparr>df_compare = undefined, df_required_alignment = 8, df_preprocessing_required = False,
        df_preprocess_base_points = (\<lambda>r d n. r)\<rparr>"]) (simp add: df_ok_def)

interpretation vectors: vector_store ds_row ds_capacity "ds_set_vector (Rep_dist_obj D)" ds_copy_vectors
    "\<lambda>s. prepared (Rep_dist_obj D) (ds_aligned_dim s)" ds_fits ds_inv
  for D :: "('a::zero) dist_obj"
proof
  fix s :: "'a data_store" and i v
  assume s: "ds_inv s" "i < ds_capacity s"
  then show "ok (ds_row s i)" by (simp add: ds_row_in)
  have df: "df_ok (Rep_dist_obj D)" using Rep_dist_obj [of D] by simp
  show "\<exists>s'. ds_set_vector (Rep_dist_obj D) i v s = Inr s' \<and> ds_inv s' \<and> ds_capacity s' = ds_capacity s
      \<and> ds_row s' i = Inr (prepared (Rep_dist_obj D) (ds_aligned_dim s) v)
      \<and> (\<forall>j. j \<noteq> i \<longrightarrow> ds_row s' j = ds_row s j)" if "ds_fits s v"
    using ds_set_vector_correct [OF s _ df, of v] that unfolding ds_fits_def by blast
qed (use ds_copy_vectors_correct in blast)

section \<open>The medoid\<close>

lemma argmin_from_least:
  assumes "md \<noteq> NaN" "\<forall>x \<in> set xs. x \<noteq> NaN" "mi < i" "m = argmin_from xs i mi md"
  shows "(m = mi \<and> (\<forall>x \<in> set xs. md \<le> x) \<or>
      i \<le> m \<and> m < i + length xs \<and> xs ! (m - i) < md \<and> (\<forall>x \<in> set xs. xs ! (m - i) \<le> x)
        \<and> (\<forall>k < m - i. xs ! (m - i) < xs ! k))"
  using assms
proof (induction xs arbitrary: i mi md m)
  case Nil
  then show ?case by simp
next
  case (Cons x xs)
  show ?case
  proof (cases "x < md")
    case True
    let ?m = "argmin_from xs (i + 1) i x"
    have m: "m = ?m" using True Cons.prems by simp
    have "?m = i \<and> (\<forall>y \<in> set xs. x \<le> y) \<or>
      i + 1 \<le> ?m \<and> ?m < i + 1 + length xs \<and> xs ! (?m - (i + 1)) < x \<and> (\<forall>y \<in> set xs. xs ! (?m - (i + 1)) \<le> y)
        \<and> (\<forall>k < ?m - (i + 1). xs ! (?m - (i + 1)) < xs ! k)"
      by (rule Cons.IH [OF _ _ _ refl]) (use Cons.prems in simp_all)
    then show ?thesis unfolding m
    proof (elim disjE conjE, goal_cases)
      case 1
      then show ?case using True by auto
    next
      case 2
      then have s: "?m - i = Suc (?m - (i + 1))" by simp
      have "(x # xs) ! (?m - i) < (x # xs) ! k" if "k < ?m - i" for k
        using that 2(3,5) s by (cases k) simp_all
      then show ?case using 2 True s by auto
    qed
  next
    case False
    let ?m = "argmin_from xs (i + 1) mi md"
    have m: "m = ?m" using False Cons.prems by simp
    have "?m = mi \<and> (\<forall>y \<in> set xs. md \<le> y) \<or>
      i + 1 \<le> ?m \<and> ?m < i + 1 + length xs \<and> xs ! (?m - (i + 1)) < md \<and> (\<forall>y \<in> set xs. xs ! (?m - (i + 1)) \<le> y)
        \<and> (\<forall>k < ?m - (i + 1). xs ! (?m - (i + 1)) < xs ! k)"
      by (rule Cons.IH [OF _ _ _ refl]) (use Cons.prems in simp_all)
    then show ?thesis unfolding m
    proof (elim disjE conjE, goal_cases)
      case 1
      then show ?case using False by auto
    next
      case 2
      then have s: "?m - i = Suc (?m - (i + 1))" by simp
      have le: "md \<le> x" using False by simp
      have "(x # xs) ! (?m - i) < (x # xs) ! k" if "k < ?m - i" for k
        using that 2(3,5) s le by (cases k) (simp_all add: less_le_trans)
      then show ?case using 2 le s by (auto intro: less_imp_le less_le_trans)
    qed
  qed
qed

lemma move_vectors_rows_library:
  assumes inv: "ds_inv s" and fit: "old + n \<le> ds_capacity s" "new + n \<le> ds_capacity s" "ds_capacity s < 2 ^ 32"
  shows "\<exists>s'. ds_move_vectors old new n s = Inr s' \<and> ds_inv s' \<and> ds_capacity s' = ds_capacity s
     \<and> ds_aligned_dim s' = ds_aligned_dim s \<and> ds_dim s' = ds_dim s
     \<and> (\<forall>r < ds_capacity s. ds_row s' r =
          (if new \<le> r \<and> r < new + n then ds_row s (old + (r - new))
           else if old \<le> r \<and> r < old + n then Inr (replicate (ds_aligned_dim s) 0)
           else ds_row s r))"
proof (cases "n = 0 \<or> old = new")
  case True
  then show ?thesis using inv by (auto simp: ds_move_vectors_def)
next
  case False
  define lo where "lo = (if new < old \<and> old < new + n then new + n else old)"
  define hi where "hi = (if \<not> new < old \<and> new < old + n then new else old + n)"
  have b: "old + n < 2 ^ 32" "new + n < 2 ^ 32" using fit by simp_all
  have lh: "lo \<le> hi" "hi \<le> ds_capacity s" using False fit by (auto simp: lo_def hi_def)
  obtain s1 where s1: "ds_copy_vectors old new n s = Inr s1" "ds_inv s1" "ds_capacity s1 = ds_capacity s"
      "ds_aligned_dim s1 = ds_aligned_dim s" "ds_dim s1 = ds_dim s"
      "\<forall>r < ds_capacity s. ds_row s1 r = (if new \<le> r \<and> r < new + n then ds_row s (old + (r - new)) else ds_row s r)"
    using ds_copy_vectors_correct [OF inv fit(1,2)] by blast
  obtain d where d: "mem_put (ds_data s1) (ds_aligned_dim s1 * lo) (replicate (ds_aligned_dim s1 * (hi - lo)) 0) = Inr d"
      "ds_inv (s1\<lparr>ds_data := d\<rparr>)"
      "\<forall>r < ds_capacity s1. ds_row (s1\<lparr>ds_data := d\<rparr>) r =
          (if lo \<le> r \<and> r < hi then Inr (replicate (ds_aligned_dim s1) 0) else ds_row s1 r)"
    using clear_rows [OF s1(2) lh(1)] lh(2) s1(3) by auto
  have add: "u32_add old n = old + n" "u32_add new n = new + n" using b by (simp_all add: u32_add_def)
  have sub: "u32_sub hi lo = hi - lo" by (rule u32_sub_ge [OF lh(1)]) (use lh(2) fit(3) in simp)
  have "ds_move_vectors old new n s = Inr (s1\<lparr>ds_data := d\<rparr>)"
    using False s1(1) d(1)
    unfolding ds_move_vectors_def Let_def add lo_def [symmetric] hi_def [symmetric] sub by simp
  moreover have "ds_row (s1\<lparr>ds_data := d\<rparr>) r =
      (if new \<le> r \<and> r < new + n then ds_row s (old + (r - new))
       else if old \<le> r \<and> r < old + n then Inr (replicate (ds_aligned_dim s) 0)
       else ds_row s r)" if "r < ds_capacity s" for r
  proof -
    have "lo \<le> r \<and> r < hi \<longleftrightarrow> old \<le> r \<and> r < old + n \<and> \<not> (new \<le> r \<and> r < new + n)"
      using False by (auto simp: lo_def hi_def)
    then show ?thesis using d(3) s1(3,4,6) that by simp
  qed
  ultimately show ?thesis using d(2) s1(3-5) by auto
qed

lemma store_save_load_library:
  assumes "codec_ok C" "ds_inv s" "ds_inv t" "ds_dim t = ds_dim s" "ds_aligned_dim t = ds_aligned_dim s"
    and "n \<le> ds_capacity s" "n < 2 ^ 31" "ds_dim s < 2 ^ 31"
  shows "\<exists>file sz t'. ds_save C [] n s = Inr (file, sz) \<and> ds_load C (Some file) t = Inr (n, t') \<and> ds_inv t'
     \<and> ds_capacity t' = max n (ds_capacity t) \<and> ds_dim t' = ds_dim t \<and> ds_aligned_dim t' = ds_aligned_dim t
     \<and> get_bin_metadata file 0 = Inr (n, ds_dim s) \<and> (\<forall>i < n. ds_get_vector t' i = ds_get_vector s i)"
proof -
  let ?a = "ds_aligned_dim s" and ?d = "ds_dim s"
  define rows where "rows = map (\<lambda>k. take ?d (drop (k * ?a) (ds_data s))) [0..<n]"
  have da: "?d \<le> ?a" and len: "length (ds_data s) = ds_capacity s * ?a" using assms(2) by (simp_all add: ds_inv_def)
  have fit: "k * ?a + ?d \<le> length (ds_data s)" if "k < n" for k
    using row_end [of k "ds_capacity s" ?a] that assms(6) da len by simp
  have rl: "\<forall>v \<in> set rows. length v = ?d" "length rows = n" using fit by (fastforce simp: rows_def)+
  define fbytes where "fbytes = bin_header n ?d @ concat (map (elems_bytes C) rows)"
  have "foldR (save_row C (ds_data s) ?d ?a) [0..<n] (bin_header n ?d) = Inr fbytes"
    using save_rows [of "[0..<n]" ?a ?d "ds_data s" C "bin_header n ?d"] fit
    by (simp add: fbytes_def rows_def comp_def)
  then have sv: "ds_save C [] n s = Inr (fbytes, 8 + n * ?d * cd_size C)"
    by (simp add: ds_save_def save_data_in_base_dimensions_def write_at_def overwrite_def)
  have "\<exists>t1. (if ds_capacity t < n then ds_resize n t else Inr t) = Inr t1 \<and> ds_inv t1
      \<and> ds_capacity t1 = max n (ds_capacity t) \<and> ds_dim t1 = ?d \<and> ds_aligned_dim t1 = ?a"
  proof (cases "ds_capacity t < n")
    case True
    then have "ds_capacity t * ?a \<le> n * ?a" by simp
    then show ?thesis using True assms(3-5)
      by (auto simp: ds_resize_def ds_expand_def mem_put_def ds_inv_def max_def)
  next
    case False
    then show ?thesis using assms(3-5) by auto
  qed
  then obtain t1 where t1: "(if ds_capacity t < n then ds_resize n t else Inr t) = Inr t1" "ds_inv t1"
      "ds_capacity t1 = max n (ds_capacity t)" "ds_dim t1 = ?d" "ds_aligned_dim t1 = ?a" by blast
  have lt: "length (ds_data t1) = ds_capacity t1 * ?a" using t1(2,5) by (simp add: ds_inv_def)
  have cap: "(0 + length rows) * ?a \<le> length (ds_data t1)" using t1(3) lt rl(2) by simp
  define d' where "d' = concat (map (pad_row ?a) rows) @ drop (n * ?a) (ds_data t1)"
  have cp: "foldR (aligned_row C ?d ?a) [0..<n] (ds_data t1, concat (map (elems_bytes C) rows)) = Inr (d', [])"
    using aligned_rows [OF assms(1) rl(1) da cap, of "[]"] rl(2) by (simp add: d'_def)
  have "copy_aligned_data_from_file C fbytes (ds_data t1) ?a 0 = Inr (d', n, ?d)"
    using assms(7,8) cp by (simp add: copy_aligned_data_from_file_def fbytes_def)
  then have ld: "ds_load C (Some fbytes) t = Inr (n, t1\<lparr>ds_data := d'\<rparr>)"
    using assms(4,7,8) t1(1,5) by (auto simp: ds_load_def fbytes_def get_bin_metadata_header)
  have pl: "\<forall>v \<in> set rows. length (pad_row ?a v) = ?a" using rl(1) da by (simp add: pad_row_def)
  have lc: "length (concat (map (pad_row ?a) vs)) = length vs * ?a" if "set vs \<subseteq> set rows" for vs
    using that pl by (induction vs) auto
  have "n * ?a \<le> length (ds_data t1)" using cap rl(2) by simp
  then have inv': "ds_inv (t1\<lparr>ds_data := d'\<rparr>)"
    using t1(2,5) lt lc [of rows] rl(2) by (simp add: ds_inv_def d'_def)
  have "ds_get_vector (t1\<lparr>ds_data := d'\<rparr>) i = ds_get_vector s i" if i: "i < n" for i
  proof -
    have sp: "rows = take i rows @ rows ! i # drop (i + 1) rows" using i rl(2) by (simp add: id_take_nth_drop)
    have "d' = concat (map (pad_row ?a) (take i rows)) @ pad_row ?a (rows ! i)
        @ (concat (map (pad_row ?a) (drop (i + 1) rows)) @ drop (n * ?a) (ds_data t1))"
      unfolding d'_def by (subst sp) simp
    moreover have "length (concat (map (pad_row ?a) (take i rows))) = i * ?a"
      using lc [OF set_take_subset, of i] i rl(2) by simp
    moreover have li: "length (rows ! i) = ?d" using rl i by simp
    ultimately have "take ?d (drop (i * ?a) d') = rows ! i" by (simp add: pad_row_def)
    also have "\<dots> = take ?d (drop (i * ?a) (ds_data s))" using i by (simp add: rows_def)
    finally have e: "take ?d (drop (i * ?a) d') = take ?d (drop (i * ?a) (ds_data s))" .
    have "i * ?a + ?d \<le> length d'"
    proof -
      have "i < ds_capacity t1" using i t1(3) by simp
      from row_end [OF this, of ?a] show ?thesis using inv' t1(5) da by (simp add: ds_inv_def)
    qed
    then show ?thesis using e fit [OF i] t1(4,5) by (simp add: ds_get_vector_def mem_get_def)
  qed
  moreover have "get_bin_metadata fbytes 0 = Inr (n, ?d)" using assms(7,8) by (simp add: fbytes_def get_bin_metadata_header)
  ultimately show ?thesis using sv ld inv' t1(3-5) assms(4,5) by auto
qed

section \<open>Properties\<close>

text \<open>\<^bold>\<open>C33\<close> Moving a block of vectors (overlapping or not, up or down) puts every row of the old
  range at its new place, clears exactly the rows of the old range that are not reused, and leaves
  every other row alone.\<close>

theorem move_vectors_rows:
  assumes inv: "ds_inv s" and fit: "old + n \<le> ds_capacity s" "new + n \<le> ds_capacity s" "ds_capacity s < 2 ^ 32"
  shows "\<exists>s'. ds_move_vectors old new n s = Inr s' \<and> ds_inv s' \<and> ds_capacity s' = ds_capacity s
     \<and> (\<forall>r < ds_capacity s. ds_row s' r =
          (if new \<le> r \<and> r < new + n then ds_row s (old + (r - new))
           else if old \<le> r \<and> r < old + n then Inr (replicate (ds_aligned_dim s) 0)
           else ds_row s r))"
  using move_vectors_rows_library [OF assms] by blast

definition demo_store :: "nat data_store" where
  "demo_store = \<lparr>ds_capacity = 3, ds_dim = 1, ds_aligned_dim = 1, ds_data = [0, 9, 3]\<rparr>"

lemma demo_store_simps [simp]:
  "ds_inv demo_store" "ds_capacity demo_store = 3" "ds_dim demo_store = 1" "ds_aligned_dim demo_store = 1"
  by (simp_all add: demo_store_def ds_inv_def)

lemma move_vectors_rows_witness:
  "\<exists>s'. ds_move_vectors 0 1 2 demo_store = Inr s' \<and> ds_inv s' \<and> ds_capacity s' = 3
     \<and> (\<forall>r < 3. ds_row s' r = (if 1 \<le> r \<and> r < 1 + 2 then ds_row demo_store (0 + (r - 1))
           else if 0 \<le> r \<and> r < 0 + 2 then Inr (replicate 1 0) else ds_row demo_store r))"
  using move_vectors_rows [of demo_store 0 2 1] unfolding demo_store_simps by simp

text \<open>\<^bold>\<open>C34\<close> When the store is not empty and the computed distances contain no NaN, the medoid is a
  location of the store, no location is closer to the centroid, and every earlier location is
  strictly farther.\<close>

theorem medoid_is_first_nearest:
  assumes "ds_inv s" "0 < ds_capacity s" "ds_center tf s = Inr center"
    and "\<forall>i < ds_capacity s. \<forall>r. ds_row s i = Inr r \<longrightarrow> sq_dist tf center r \<noteq> NaN"
  shows "\<exists>m. ds_calculate_medoid tf s = Inr m \<and> m < ds_capacity s
     \<and> (\<forall>rm. ds_row s m = Inr rm \<longrightarrow>
          (\<forall>i < ds_capacity s. \<forall>r. ds_row s i = Inr r \<longrightarrow> sq_dist tf center rm \<le> sq_dist tf center r
             \<and> (i < m \<longrightarrow> sq_dist tf center rm < sq_dist tf center r)))"
proof -
  let ?n = "ds_capacity s"
  define d where "d i = sq_dist tf center (take (ds_aligned_dim s) (drop (i * ds_aligned_dim s) (ds_data s)))" for i
  have row: "ds_row s i = Inr r \<Longrightarrow> i < ?n \<Longrightarrow> d i = sq_dist tf center r" for i r
    using ds_row_in [OF assms(1), of i] by (simp add: d_def)
  have nan: "d i \<noteq> NaN" if "i < ?n" for i
    using assms(4) that ds_row_in [OF assms(1) that] by (auto simp: d_def)
  have "mapR (\<lambda>i. bindR (ds_row s i) (\<lambda>r. Inr (sq_dist tf center r))) [0..<?n] = Inr (map d [0..<?n])"
    by (rule mapR_total) (use ds_row_in [OF assms(1)] in \<open>auto simp: d_def\<close>)
  moreover have sp: "map d [0..<?n] = d 0 # map d [1..<?n]"
    using assms(2) by (simp add: upt_conv_Cons del: upt_Suc)
  ultimately have res: "ds_calculate_medoid tf s = Inr (argmin_from (map d [1..<?n]) 1 0 (d 0))"
    using assms(3) by (simp add: ds_calculate_medoid_def)
  define m where "m = argmin_from (map d [1..<?n]) 1 0 (d 0)"
  have nxs: "\<forall>x \<in> set (map d [1..<?n]). x \<noteq> NaN" using nan by auto
  have nth: "map d [1..<?n] ! k = d (k + 1)" if "k < ?n - 1" for k using that by simp
  have inset: "d i \<in> set (map d [1..<?n])" if "0 < i" "i < ?n" for i using that by simp
  from argmin_from_least [OF nan [OF assms(2)] nxs zero_less_one m_def]
  have "m < ?n \<and> (\<forall>i < ?n. d m \<le> d i) \<and> (\<forall>i < m. d m < d i)"
  proof (elim disjE conjE, goal_cases)
    case 1
    have "d 0 \<le> d i" if "i < ?n" for i using 1 inset [of i] that by (cases "i = 0") auto
    then show ?case using 1 assms(2) by simp
  next
    case 2
    then have mm: "m < ?n" "map d [1..<?n] ! (m - 1) = d m" by simp_all
    have le: "d m \<le> d i" if "i < ?n" for i
    proof (cases i)
      case 0
      then show ?thesis using 2 mm by simp
    next
      case (Suc j)
      then show ?thesis using 2 mm inset [of i] that by (metis zero_less_Suc)
    qed
    have "d m < d i" if "i < m" for i
    proof (cases i)
      case 0
      then show ?thesis using 2 mm by simp
    next
      case (Suc j)
      then have "j < m - 1" using that by simp
      then have "map d [1..<?n] ! (m - 1) < map d [1..<?n] ! j" using 2 by blast
      then show ?thesis using mm nth [of j] Suc \<open>j < m - 1\<close> by simp
    qed
    then show ?case using mm le by blast
  qed
  then show ?thesis using res row unfolding m_def [symmetric] by (metis less_trans)
qed

lemma demo_center: "ds_center (\<lambda>x. Fin (of_nat x)) demo_store = Inr [Fin 4]"
  by code_simp

lemma demo_distances:
  "sq_dist (\<lambda>x :: nat. Fin (of_nat x)) [Fin 4] [0] = Fin 16" "sq_dist (\<lambda>x :: nat. Fin (of_nat x)) [Fin 4] [9] = Fin 25"
  "sq_dist (\<lambda>x :: nat. Fin (of_nat x)) [Fin 4] [3] = Fin 1"
  by code_simp+

lemma demo_rows: "i < 3 \<Longrightarrow> ds_row demo_store i = Inr [[0, 9, 3] ! i]"
  by (auto simp: ds_row_def mem_get_def demo_store_def less_Suc_eq numeral_3_eq_3)

lemma medoid_is_first_nearest_witness:
  "\<exists>m. ds_calculate_medoid (\<lambda>x. Fin (of_nat x)) demo_store = Inr m \<and> m < 3"
proof -
  have "sq_dist (\<lambda>x. Fin (of_nat x)) [Fin 4] r \<noteq> NaN" if "i < 3" "ds_row demo_store i = Inr r" for i r
  proof -
    consider "i = 0" | "i = 1" | "i = 2" using \<open>i < 3\<close> by linarith
    then show ?thesis using that demo_rows [OF \<open>i < 3\<close>] demo_distances by cases auto
  qed
  then show ?thesis
    using medoid_is_first_nearest [of demo_store "\<lambda>x. Fin (of_nat x)" "[Fin 4]"] demo_center by auto
qed

text \<open>Vectors saved from one store and loaded into another of the same dimensions come back
  unchanged for every location, the loader reports their number, and a store that is too small
  grows to hold them.\<close>

theorem store_save_load:
  assumes "codec_ok C" "ds_inv s" "ds_inv t" "ds_dim t = ds_dim s" "ds_aligned_dim t = ds_aligned_dim s"
    and "n \<le> ds_capacity s" "n < 2 ^ 31" "ds_dim s < 2 ^ 31"
  shows "\<exists>file sz t'. ds_save C [] n s = Inr (file, sz) \<and> ds_load C (Some file) t = Inr (n, t') \<and> ds_inv t'
     \<and> ds_capacity t' = max n (ds_capacity t) \<and> (\<forall>i < n. ds_get_vector t' i = ds_get_vector s i)"
  using store_save_load_library [OF assms] by blast

definition demo_words :: "8 word data_store" where
  "demo_words = \<lparr>ds_capacity = 2, ds_dim = 1, ds_aligned_dim = 8,
     ds_data = pad_row 8 [7] @ pad_row 8 [255]\<rparr>"

lemma store_save_load_witness:
  "\<exists>file sz t'. ds_save uint8_codec [] 2 demo_words = Inr (file, sz)
     \<and> ds_load uint8_codec (Some file) (demo_words\<lparr>ds_capacity := 1, ds_data := replicate 8 0\<rparr>) = Inr (2, t')
     \<and> (\<forall>i < 2. ds_get_vector t' i = ds_get_vector demo_words i)"
  using store_save_load [OF uint8_codec_ok, of demo_words "demo_words\<lparr>ds_capacity := 1, ds_data := replicate 8 0\<rparr>" 2]
  by (fastforce simp: ds_inv_def demo_words_def pad_row_def)

end
