(* ===== verification/Mcgi.thy ===== *)
theory Mcgi
  imports Bin_IO
begin

text \<open>
  \<^verbatim>\<open>src/hpdic_mcgi.cpp\<close>: the context of manifold-consistent graph indexing, its
  initialisation from a file of local intrinsic dimensionalities (LID), and the per-node alpha.
  The C library's \<^verbatim>\<open>exp\<close>, \<^verbatim>\<open>log\<close> and \<^verbatim>\<open>sqrt\<close> are the
  parameter \<open>libm\<close>; what is used of them is in \<open>libm_ok\<close>.
\<close>

record libm =
  lm_exp :: "fl \<Rightarrow> fl"
  lm_log :: "fl \<Rightarrow> fl"
  lm_sqrt :: "fl \<Rightarrow> fl"

definition libm_ok :: "libm \<Rightarrow> bool" where
  "libm_ok M \<longleftrightarrow> (\<forall>x. x \<noteq> NaN \<longrightarrow> lm_exp M x \<noteq> NaN \<and> Fin 0 \<le> lm_exp M x)"

record mcgi_context =
  mc_enabled :: bool
  mc_advanced :: bool
  mc_alpha_table :: "fl list"
  mc_lid_avg :: fl
  mc_lid_std :: fl
  mc_alpha_min :: fl
  mc_alpha_max :: fl

definition mcgi_initial :: mcgi_context where
  "mcgi_initial = \<lparr>mc_enabled = False, mc_advanced = False, mc_alpha_table = [], mc_lid_avg = Fin 0,
     mc_lid_std = Fin 1, mc_alpha_min = Fin 1, mc_alpha_max = Fin 1\<rparr>"

text \<open>
  \<^verbatim>\<open>LoadLIDBinary\<close>: the stream does not throw, so a short file leaves the values it
  does not reach at zero; a file without the point count leaves it uninitialised. The file is
  \<open>None\<close> when it cannot be opened, and the result \<open>None\<close> is \<^verbatim>\<open>false\<close>.
\<close>

definition LoadLIDBinary :: "fl codec \<Rightarrow> byte list option \<Rightarrow> fl list option result" where
  "LoadLIDBinary F file =
     (case file of
        None \<Rightarrow> Inr None
      | Some bs \<Rightarrow>
          if length bs < 4 then Inl UndefinedBehaviour
          else let npts = le_value (take 4 bs) in
            if npts = 0 \<or> 2 ^ 31 \<le> npts then Inr None
            else let body = drop 8 bs; buf = take (npts * 4) (body @ replicate (npts * 4) 0)
                 in Inr (Some (map (cd_dec F) (split_chunks 4 npts buf))))"

text \<open>\<^verbatim>\<open>std::min_element\<close> and \<^verbatim>\<open>std::max_element\<close>.\<close>

definition min_element :: "fl list \<Rightarrow> fl" where
  "min_element xs = fold (\<lambda>x m. if fl_lt x m then x else m) (tl xs) (hd xs)"

definition max_element :: "fl list \<Rightarrow> fl" where
  "max_element xs = fold (\<lambda>x m. if fl_lt m x then x else m) (tl xs) (hd xs)"

text \<open>
  The value of the table for a weight in \<^verbatim>\<open>double\<close>; every \<^verbatim>\<open>float\<close> is a
  \<^verbatim>\<open>double\<close>, so widening is the identity.
\<close>

definition alpha_of :: "fl \<Rightarrow> fl \<Rightarrow> fl \<Rightarrow> fl" where
  "alpha_of alpha_min alpha_max w =
     fl_add F32 alpha_min (fl_conv F32 (fl_mul F64 w (fl_sub F32 alpha_max alpha_min)))"

definition linear_range :: "fl list \<Rightarrow> fl" where
  "linear_range lids =
     (let r = fl_sub F64 (max_element lids) (min_element lids)
      in if fl_lt r (f64 (1 / 10 ^ 6)) then Fin 1 else r)"

definition linear_weight :: "fl list \<Rightarrow> fl \<Rightarrow> fl" where
  "linear_weight lids x = fl_div F64 (fl_sub F64 x (min_element lids)) (linear_range lids)"

definition lid_mean :: "fl list \<Rightarrow> fl" where
  "lid_mean lids = fl_div F64 (foldl (fl_add F64) (Fin 0) lids) (round_fl F64 (of_nat (length lids)))"

definition lid_std_dev :: "libm \<Rightarrow> fl list \<Rightarrow> fl" where
  "lid_std_dev M lids =
     (let mean = lid_mean lids;
          sq_sum = foldl (\<lambda>s v. fl_add F64 s (fl_mul F64 (fl_sub F64 v mean) (fl_sub F64 v mean))) (Fin 0) lids;
          sd = lm_sqrt M (fl_div F64 sq_sum (round_fl F64 (of_nat (length lids))))
      in if fl_lt sd (f64 (1 / 10 ^ 6)) then Fin 1 else sd)"

text \<open>\<open>sigmoid z\<close> is \<^verbatim>\<open>1.0 / (1.0 + std::exp(-1.0 * z))\<close>.\<close>

definition sigmoid :: "libm \<Rightarrow> fl \<Rightarrow> fl" where
  "sigmoid M z = fl_div F64 (Fin 1) (fl_add F64 (Fin 1) (lm_exp M (fl_mul F64 (Fin (- 1)) z)))"

definition sigmoid_weight :: "libm \<Rightarrow> fl list \<Rightarrow> fl \<Rightarrow> fl" where
  "sigmoid_weight M lids x =
     sigmoid M (fl_div F64 (fl_sub F64 x (lid_mean lids)) (lid_std_dev M lids))"

definition InitMCGIContext ::
  "libm \<Rightarrow> fl codec \<Rightarrow> string \<Rightarrow> byte list option \<Rightarrow> fl \<Rightarrow> fl \<Rightarrow> bool \<Rightarrow> mcgi_context \<Rightarrow> mcgi_context result" where
  "InitMCGIContext M F lid_path file alpha_min alpha_max use_linear ctx =
     (if lid_path = [] then Inr ctx
      else bindR (LoadLIDBinary F file) (\<lambda>r.
        case r of None \<Rightarrow> Inr ctx
        | Some lids \<Rightarrow>
            let weight = (if use_linear then linear_weight lids else sigmoid_weight M lids)
            in Inr (ctx\<lparr>mc_alpha_table := map (\<lambda>x. alpha_of alpha_min alpha_max (weight x)) lids,
                        mc_enabled := True\<rparr>)))"

definition GetGlobalMCGIAlpha :: "mcgi_context \<Rightarrow> nat \<Rightarrow> fl" where
  "GetGlobalMCGIAlpha ctx node_id =
     (if \<not> mc_enabled ctx then f32 (12 / 10)
      else if length (mc_alpha_table ctx) \<le> node_id then f32 (12 / 10)
      else mc_alpha_table ctx ! node_id)"

definition IsMCGIEnabled :: "mcgi_context \<Rightarrow> bool" where
  "IsMCGIEnabled ctx = mc_enabled ctx"

definition IsMCGIAdvanced :: "mcgi_context \<Rightarrow> bool" where
  "IsMCGIAdvanced ctx = mc_advanced ctx"

text \<open>\<^verbatim>\<open>FreeMCGIContext\<close> resets \<^verbatim>\<open>enabled\<close> but not \<^verbatim>\<open>advanced\<close>.\<close>

definition FreeMCGIContext :: "mcgi_context \<Rightarrow> mcgi_context" where
  "FreeMCGIContext ctx = ctx\<lparr>mc_alpha_table := [], mc_enabled := False\<rparr>"

section \<open>The range of the alphas\<close>

text \<open>A finite value of the format \<^verbatim>\<open>float\<close>, and a weight between 0 and 1.\<close>

definition is_float :: "fl \<Rightarrow> bool" where
  "is_float x \<longleftrightarrow> (\<exists>q. x = Fin q \<and> round_fl F32 q = Fin q)"

definition unit_weight :: "fl \<Rightarrow> bool" where
  "unit_weight w \<longleftrightarrow> Fin 0 \<le> w \<and> w \<le> Fin 1"

lemma unit_weightE: "unit_weight w \<Longrightarrow> (\<And>u. w = Fin u \<Longrightarrow> 0 \<le> u \<Longrightarrow> u \<le> 1 \<Longrightarrow> P) \<Longrightarrow> P"
  by (cases w) (auto simp: unit_weight_def)

lemma round_one [simp]: "round_fl f 1 = Fin 1"
  using round_fl_powi [of f 0] by (cases f) (simp_all add: emin_def)

lemma alpha_of_step:
  assumes "alpha_min = Fin a" "alpha_max = Fin b" "a \<le> b" "fl_sub F32 alpha_max alpha_min = Fin d"
    and "0 \<le> u" "u \<le> v" "v \<le> 1"
  shows "\<exists>p q. 0 \<le> p \<and> p \<le> q \<and> q \<le> d \<and> alpha_of alpha_min alpha_max (Fin u) = round_fl F32 (a + p)
     \<and> alpha_of alpha_min alpha_max (Fin v) = round_fl F32 (a + q)"
proof -
  have rd: "round_fl F32 (b - a) = Fin d" using assms(1,2,4) by (simp add: fl_sub_def)
  have d32: "round_fl F32 d = Fin d" and d64: "round_fl F64 d = Fin d"
    by (rule round_fl_exact [OF rd]; simp)+
  have "Fin 0 \<le> round_fl F32 (b - a)" using assms(3) by (intro round_fl_nonneg) simp
  then have d0: "0 \<le> d" by (simp add: rd)
  define P where "P w = fl_conv F32 (fl_mul F64 (Fin w) (Fin d))" for w
  have mono: "P w \<le> P w'" if "w \<le> w'" for w w'
    unfolding P_def fl_mul.simps
    by (rule fl_conv_mono) (use that d0 in \<open>simp_all add: round_fl_mono mult_right_mono\<close>)
  have P0: "P 0 = Fin 0" and P1: "P 1 = Fin d" using d32 d64 by (simp_all add: P_def)
  have "Fin 0 \<le> P u" "P u \<le> P v" "P v \<le> Fin d"
    using mono [OF assms(5)] mono [OF assms(6)] mono [OF assms(7)] by (simp_all add: P0 P1)
  then obtain p q where "P u = Fin p" "P v = Fin q" "0 \<le> p" "p \<le> q" "q \<le> d"
    by (cases "P u"; cases "P v") auto
  note pq = this
  have al: "alpha_of alpha_min alpha_max (Fin w) = fl_add F32 alpha_min (P w)" for w
    unfolding alpha_of_def P_def assms(4) ..
  have "0 \<le> p \<and> p \<le> q \<and> q \<le> d \<and> alpha_of alpha_min alpha_max (Fin u) = round_fl F32 (a + p)
     \<and> alpha_of alpha_min alpha_max (Fin v) = round_fl F32 (a + q)"
    unfolding al by (simp add: pq assms(1))
  then show ?thesis by blast
qed

lemma alpha_of_bounds:
  assumes "alpha_min = Fin a" "alpha_max = Fin b" "a \<le> b" "is_float alpha_min"
    and "fl_sub F32 alpha_max alpha_min = Fin d" "unit_weight w"
  shows "alpha_min \<le> alpha_of alpha_min alpha_max w"
    and "alpha_of alpha_min alpha_max w \<le> fl_add F32 alpha_min (fl_sub F32 alpha_max alpha_min)"
proof -
  obtain u where u: "w = Fin u" "0 \<le> u" "u \<le> 1" using unit_weightE [OF assms(6)] by blast
  obtain p where p: "0 \<le> p" "p \<le> d" "alpha_of alpha_min alpha_max w = round_fl F32 (a + p)"
    using alpha_of_step [OF assms(1-3,5) u(2) order_refl u(3)] u(1) by auto
  have "round_fl F32 a = Fin a" using assms(1,4) by (simp add: is_float_def)
  then show "alpha_min \<le> alpha_of alpha_min alpha_max w"
    using round_fl_mono [of a "a + p" F32] p(1,3) assms(1) by simp
  show "alpha_of alpha_min alpha_max w \<le> fl_add F32 alpha_min (fl_sub F32 alpha_max alpha_min)"
    using round_fl_mono [of "a + p" "a + d" F32] p assms(1,5) by simp
qed

lemma fold_min_least:
  "\<forall>x \<in> set (m # xs). x \<noteq> NaN \<Longrightarrow>
     fold (\<lambda>x m. if fl_lt x m then x else m) xs m \<in> set (m # xs)
   \<and> (\<forall>x \<in> set (m # xs). fold (\<lambda>x m. if fl_lt x m then x else m) xs m \<le> x)"
proof (induction xs arbitrary: m)
  case (Cons y xs)
  show ?case using Cons.IH [of y] Cons.IH [of m] Cons.prems by (auto intro: order_trans less_imp_le)
qed simp

lemma fold_max_greatest:
  "\<forall>x \<in> set (m # xs). x \<noteq> NaN \<Longrightarrow>
     fold (\<lambda>x m. if fl_lt m x then x else m) xs m \<in> set (m # xs)
   \<and> (\<forall>x \<in> set (m # xs). x \<le> fold (\<lambda>x m. if fl_lt m x then x else m) xs m)"
proof (induction xs arbitrary: m)
  case (Cons y xs)
  show ?case using Cons.IH [of y] Cons.IH [of m] Cons.prems by (auto intro: order_trans less_imp_le)
qed simp

lemma min_max_element:
  assumes "lids \<noteq> []" "\<forall>x \<in> set lids. is_float x"
  shows "min_element lids \<in> set lids" "max_element lids \<in> set lids"
    and "x \<in> set lids \<Longrightarrow> min_element lids \<le> x \<and> x \<le> max_element lids"
proof -
  have "\<forall>x \<in> set (hd lids # tl lids). x \<noteq> NaN" using assms by (auto simp: is_float_def)
  from fold_min_least [OF this] fold_max_greatest [OF this] assms(1)
  show "min_element lids \<in> set lids" "max_element lids \<in> set lids"
    "x \<in> set lids \<Longrightarrow> min_element lids \<le> x \<and> x \<le> max_element lids"
    by (simp_all add: min_element_def max_element_def)
qed

lemma float_bound:
  assumes "is_float (Fin q)"
  shows "\<bar>q\<bar> < 2 ^ 128"
proof (cases "q = 0")
  case False
  then show ?thesis using assms by (auto simp: is_float_def round_fl_def Let_def split: if_splits)
qed simp

lemma micro_bounds: "Fin 0 < f64 (1 / 10 ^ 6)" "f64 (1 / 10 ^ 6) \<le> Fin 1" "f64 (1 / 10 ^ 6) \<noteq> NaN"
proof -
  have p: "round_fl F64 (2 powi (- 20)) = Fin (2 powi (- 20))" by (rule round_fl_powi) (simp_all add: emin_def)
  have "(2::rat) powi (- 20) \<le> 1 / 10 ^ 6" by (simp add: power_int_def field_simps)
  from round_fl_mono [OF this, of F64] have "Fin (2 powi (- 20)) \<le> f64 (1 / 10 ^ 6)"
    unfolding p f64_def .
  moreover have "Fin 0 < Fin (2 powi (- 20))" by simp
  ultimately show "Fin 0 < f64 (1 / 10 ^ 6)" by (simp only: less_le_trans)
  show "f64 (1 / 10 ^ 6) \<le> Fin 1" using round_fl_mono [of "1 / 10 ^ 6" 1 F64] by (simp add: f64_def)
qed (simp add: f64_def)

lemma linear_weight_mono:
  assumes "lids \<noteq> []" "\<forall>x \<in> set lids. is_float x" "x \<in> set lids" "y \<in> set lids" "x \<le> y"
  shows "unit_weight (linear_weight lids x)" "linear_weight lids x \<le> linear_weight lids y"
proof -
  note mm = min_max_element [OF assms(1,2)]
  obtain lo hi where lo: "min_element lids = Fin lo" and hi: "max_element lids = Fin hi"
    using assms(2) [rule_format, OF mm(1)] assms(2) [rule_format, OF mm(2)] unfolding is_float_def by blast
  have fl: "\<exists>q. z = Fin q \<and> lo \<le> q \<and> q \<le> hi" if "z \<in> set lids" for z
    using that mm(3) [OF that] assms(2) lo hi by (auto simp: is_float_def)
  have b: "\<bar>lo\<bar> < 2 ^ 128" "\<bar>hi\<bar> < 2 ^ 128" using mm(1,2) assms(2) lo hi float_bound by metis+
  obtain r where r: "round_fl F64 (hi - lo) = Fin r"
    using round_fl_finite [of "hi - lo" F64] b by (auto simp: abs_less_iff abs_le_iff)
  define eps where "eps = f64 (1 / 10 ^ 6)"
  have e0: "Fin 0 < eps" and e1: "eps \<le> Fin 1" and en: "eps \<noteq> NaN"
    unfolding eps_def by (rule micro_bounds)+
  define R where "R = (if Fin r < eps then 1 else r)"
  have range: "linear_range lids = Fin R"
    unfolding linear_range_def lo hi fl_sub_def eps_def [symmetric] using en by (simp add: r R_def Let_def)
  have R: "0 < R" "r \<le> R"
  proof -
    have "Fin 0 < Fin r" if "\<not> Fin r < eps" using e0 that by (simp only: not_less less_le_trans)
    then show "0 < R" by (simp add: R_def)
    have "Fin r \<le> Fin 1" if "Fin r < eps" using e1 that by (meson less_imp_le order_trans)
    then show "r \<le> R" by (simp add: R_def)
  qed
  define W where "W q = round_fl F64 (case round_fl F64 (q - lo) of Fin s \<Rightarrow> s / R | _ \<Rightarrow> 0)" for q
  have W: "linear_weight lids (Fin q) = W q \<and> (\<exists>s. round_fl F64 (q - lo) = Fin s \<and> 0 \<le> s \<and> s \<le> r)"
    if "lo \<le> q" "q \<le> hi" for q
  proof -
    have "Fin 0 \<le> round_fl F64 (q - lo)" using that by (intro round_fl_nonneg) simp
    moreover have "round_fl F64 (q - lo) \<le> Fin r" unfolding r [symmetric] using that by (intro round_fl_mono) simp
    ultimately obtain s where "round_fl F64 (q - lo) = Fin s" "0 \<le> s" "s \<le> r"
      by (cases "round_fl F64 (q - lo)") auto
    then show ?thesis using R(1) by (simp add: linear_weight_def lo fl_sub_def range W_def)
  qed
  obtain q where q: "x = Fin q" "lo \<le> q" "q \<le> hi" using fl [OF assms(3)] by blast
  obtain q' where q': "y = Fin q'" "lo \<le> q'" "q' \<le> hi" using fl [OF assms(4)] by blast
  obtain s where s: "round_fl F64 (q - lo) = Fin s" "0 \<le> s" "s \<le> r" using W q by blast
  obtain s' where s': "round_fl F64 (q' - lo) = Fin s'" using W q' by blast
  have w: "linear_weight lids x = round_fl F64 (s / R)" using W q s by (simp add: W_def)
  have w': "linear_weight lids y = round_fl F64 (s' / R)" using W q' s' by (simp add: W_def)
  have "s / R \<le> 1" using s R by simp
  from round_fl_mono [OF this, of F64] show "unit_weight (linear_weight lids x)"
    using round_fl_nonneg [of "s / R" F64] s(2) R(1) by (simp add: unit_weight_def w)
  have "Fin s \<le> Fin s'"
    unfolding s(1) [symmetric] s' [symmetric] using assms(5) q(1) q'(1) by (intro round_fl_mono) simp
  then show "linear_weight lids x \<le> linear_weight lids y"
    unfolding w w' using R(1) by (intro round_fl_mono divide_right_mono) simp_all
qed

lemma sigmoid_unit:
  assumes "libm_ok M" "z \<noteq> NaN"
  shows "unit_weight (sigmoid M z)"
proof -
  define e where "e = lm_exp M (fl_mul F64 (Fin (- 1)) z)"
  have "fl_mul F64 (Fin (- 1)) z \<noteq> NaN" using assms(2) by (cases z) (simp_all add: inf_of_def)
  then have e: "e \<noteq> NaN" "Fin 0 \<le> e" using assms(1) by (simp_all add: libm_ok_def e_def)
  have s: "sigmoid M z = fl_div F64 (Fin 1) (fl_add F64 (Fin 1) e)" by (simp add: sigmoid_def e_def)
  show ?thesis
  proof (cases e)
    case (Fin q)
    then have "Fin 1 \<le> round_fl F64 (1 + q)" using round_fl_mono [of 1 "1 + q" F64] e(2) by simp
    then consider "round_fl F64 (1 + q) = PInf" | t where "round_fl F64 (1 + q) = Fin t" "1 \<le> t"
      by (cases "round_fl F64 (1 + q)") auto
    then show ?thesis
    proof cases
      case 1
      then show ?thesis by (simp add: s Fin unit_weight_def)
    next
      case 2
      then show ?thesis
        using round_fl_mono [of "1 / t" 1 F64] round_fl_nonneg [of "1 / t" F64]
        by (simp add: s Fin unit_weight_def)
    qed
  qed (use e s in \<open>simp_all add: unit_weight_def\<close>)
qed

section \<open>Properties\<close>

lemma LoadLID_nonempty: "LoadLIDBinary F file = Inr (Some lids) \<Longrightarrow> lids \<noteq> []"
proof -
  have "split_chunks w n bs \<noteq> []" if "n \<noteq> 0" for w n and bs :: "byte list" using that by (cases n) simp_all
  then show "LoadLIDBinary F file = Inr (Some lids) \<Longrightarrow> lids \<noteq> []"
    by (auto simp: LoadLIDBinary_def Let_def split: option.splits if_splits)
qed


definition demo_lid_file :: "byte list" where
  "demo_lid_file = bin_header 2 1 @ le_bytes 4 1 @ le_bytes 4 4"

definition demo_float_codec :: "fl codec" where
  "demo_float_codec = \<lparr>cd_size = 4, cd_enc = (\<lambda>_. []), cd_dec = (\<lambda>bs. Fin (of_nat (le_value bs)))\<rparr>"

definition demo_libm :: libm where
  "demo_libm = \<lparr>lm_exp = (\<lambda>_. Fin 1), lm_log = (\<lambda>_. Fin 0), lm_sqrt = (\<lambda>x. x)\<rparr>"

lemma demo_lids: "LoadLIDBinary demo_float_codec (Some demo_lid_file) = Inr (Some [Fin 1, Fin 4])"
proof -
  have s: "split_chunks 4 2 bs = [take 4 bs, take 4 (drop 4 bs)]" for bs :: "byte list"
    by (simp add: numeral_2_eq_2)
  show ?thesis
    by (simp add: LoadLIDBinary_def demo_lid_file_def bin_header_def demo_float_codec_def Let_def s)
qed

lemma demo_floats: "is_float (Fin 1)" "is_float (Fin 2)" "is_float (Fin 4)"
  using round_fl_powi [of F32 1] round_fl_powi [of F32 2] by (simp_all add: is_float_def emin_def)


end
