(* ===== verification/Search.thy ===== *)
theory Search
  imports Scratch_Pool Natural_Number_Map
begin

text \<open>
  \<^verbatim>\<open>Index::iterate_to_fixed_point\<close> (\<^verbatim>\<open>src/index.cpp\<close>): the best-first
  search over the graph that every query and every insertion runs. What the search reads of the
  index is the environment record: the number of locations, the adjacency lists, the distance of a location to
  the query, and the label filter. The loop is given fuel one above the number of locations,
  and the theorems show that it never runs out.
\<close>

section \<open>The search\<close>

definition MAX_POINTS_FOR_USING_BITSET :: nat where
  "MAX_POINTS_FOR_USING_BITSET = 10000000"

record search_env =
  se_total :: nat                          \<comment> \<open>\<^verbatim>\<open>_max_points + _num_frozen_pts\<close>\<close>
  se_nbrs :: "nat \<Rightarrow> nat list result"      \<comment> \<open>\<^verbatim>\<open>_graph_store->get_neighbours\<close>\<close>
  se_qdist :: "nat \<Rightarrow> fl result"           \<comment> \<open>\<^verbatim>\<open>_pq_data_store->get_distance\<close> to the query\<close>
  se_use_filter :: bool
  se_detect :: "nat \<Rightarrow> bool result"        \<comment> \<open>\<^verbatim>\<open>detect_common_filters\<close> with the given labels\<close>
  se_search_invocation :: bool

text \<open>
  \<^verbatim>\<open>_dist_scratch\<close> is written through \<^verbatim>\<open>operator[]\<close> without being resized, so
  it must have been reserved large enough: \<open>ceil(1.5 * GRAPH_SLACK_FACTOR * R)\<close> elements.
\<close>

definition GRAPH_SLACK_FACTOR :: fl where
  "GRAPH_SLACK_FACTOR = f32 (13 / 10)"

fun ceil_fl :: "fl \<Rightarrow> nat" where
  "ceil_fl (Fin q) = nat \<lceil>q\<rceil>"
| "ceil_fl x = 0"

definition dist_capacity :: "nat \<Rightarrow> nat" where
  "dist_capacity r =
     ceil_fl (fl_mul F64 (fl_mul F64 (Fin (3 / 2)) GRAPH_SLACK_FACTOR) (round_fl F64 (of_nat r)))"

definition is_not_visited :: "bool \<Rightarrow> 'a scratch \<Rightarrow> nat \<Rightarrow> bool result" where
  "is_not_visited fast_iterate s i =
     (if fast_iterate then bindR (bits_test (sc_inserted_bs s) i) (\<lambda>b. Inr (\<not> b))
      else Inr (i \<notin> sc_inserted_rs s))"

definition mark_visited :: "bool \<Rightarrow> nat \<Rightarrow> 'a scratch \<Rightarrow> 'a scratch result" where
  "mark_visited fast_iterate i s =
     (if fast_iterate then bindR (bits_set (sc_inserted_bs s) i True) (\<lambda>bs. Inr (s\<lparr>sc_inserted_bs := bs\<rparr>))
      else Inr (s\<lparr>sc_inserted_rs := insert i (sc_inserted_rs s)\<rparr>))"

definition filter_passes :: "search_env \<Rightarrow> nat \<Rightarrow> bool result" where
  "filter_passes env i = (if se_use_filter env then se_detect env i else Inr True)"

definition init_candidate :: "search_env \<Rightarrow> bool \<Rightarrow> nat \<Rightarrow> 'a scratch \<Rightarrow> 'a scratch result" where
  "init_candidate env fast_iterate i s =
     (if se_total env \<le> i then Inl (ANNException ''Wrong loc'')
      else bindR (filter_passes env i) (\<lambda>p.
        if \<not> p then Inr s
        else bindR (is_not_visited fast_iterate s i) (\<lambda>nv.
          if \<not> nv then Inr s
          else bindR (mark_visited fast_iterate i s) (\<lambda>s1.
               bindR (se_qdist env i) (\<lambda>d.
               bindR (npq_insert (sc_best s1) (Neighbor i d)) (\<lambda>q. Inr (s1\<lparr>sc_best := q\<rparr>)))))))"

fun collect_unvisited :: "search_env \<Rightarrow> bool \<Rightarrow> 'a scratch \<Rightarrow> nat list \<Rightarrow> nat list result" where
  "collect_unvisited env fast_iterate s [] = Inr []"
| "collect_unvisited env fast_iterate s (i # ids) =
     bindR (filter_passes env i) (\<lambda>p.
     if \<not> p then collect_unvisited env fast_iterate s ids
     else bindR (is_not_visited fast_iterate s i) (\<lambda>nv.
          bindR (collect_unvisited env fast_iterate s ids) (\<lambda>r. Inr (if nv then i # r else r))))"

definition insert_candidate :: "nat \<times> fl \<Rightarrow> npq \<Rightarrow> npq result" where
  "insert_candidate c q = npq_insert q (Neighbor (fst c) (snd c))"

definition add_expanded :: "search_env \<Rightarrow> neighbor \<Rightarrow> neighbor list \<Rightarrow> neighbor list" where
  "add_expanded env nbr pool =
     (if se_search_invocation env then pool
      else if \<not> se_use_filter env then pool @ [nbr]
      else if \<exists>x \<in> set pool. nbr_equal x nbr then pool else pool @ [nbr])"

definition expand_closest :: "search_env \<Rightarrow> bool \<Rightarrow> 'a scratch \<Rightarrow> (nat \<times> 'a scratch) result" where
  "expand_closest env fast_iterate s =
     bindR (npq_closest_unexpanded (sc_best s)) (\<lambda>(nbr, q).
     let s1 = s\<lparr>sc_best := q, sc_pool := add_expanded env nbr (sc_pool s), sc_ids := [], sc_dists := []\<rparr>
     in bindR (se_nbrs env (nbr_id nbr)) (\<lambda>ns.
        bindR (collect_unvisited env fast_iterate s1 ns) (\<lambda>ids.
        bindR (foldR (mark_visited fast_iterate) ids (s1\<lparr>sc_ids := ids\<rparr>)) (\<lambda>s2.
        bindR (if dist_capacity (sc_R s2) < length ids then Inl UndefinedBehaviour
               else mapR (se_qdist env) ids) (\<lambda>dists.
        bindR (foldR insert_candidate (zip ids dists) (sc_best s2)) (\<lambda>q'.
          Inr (length ids, s2\<lparr>sc_best := q'\<rparr>)))))))"

fun expand_loop :: "nat \<Rightarrow> search_env \<Rightarrow> bool \<Rightarrow> nat \<Rightarrow> 'a scratch \<Rightarrow> (nat \<times> 'a scratch) result" where
  "expand_loop fuel env fast_iterate cmps s =
     (if \<not> npq_has_unexpanded_node (sc_best s) then Inr (cmps, s)
      else case fuel of 0 \<Rightarrow> Inl OutOfFuel
      | Suc fuel' \<Rightarrow> bindR (expand_closest env fast_iterate s) (\<lambda>(k, s').
          expand_loop fuel' env fast_iterate (u32_add cmps k) s'))"

declare expand_loop.simps [simp del]

definition iterate_to_fixed_point ::
  "search_env \<Rightarrow> nat \<Rightarrow> nat list \<Rightarrow> 'a scratch \<Rightarrow> ((nat \<times> nat) \<times> 'a scratch) result" where
  "iterate_to_fixed_point env Lsize init_ids s =
     (let s0 = s\<lparr>sc_best := npq_reserve (sc_best s) Lsize\<rparr> in
      if sc_pool s0 \<noteq> [] \<or> sc_ids s0 \<noteq> []
      then Inl (ANNException ''ERROR: Clear scratch space before passing.'')
      else
        let total = se_total env;
            fast_iterate = (total \<le> MAX_POINTS_FOR_USING_BITSET);
            resize_size = (if MAX_POINTS_FOR_USING_BITSET < 2 * total then MAX_POINTS_FOR_USING_BITSET else 2 * total);
            s1 = (if fast_iterate \<and> length (sc_inserted_bs s0) < total
                  then s0\<lparr>sc_inserted_bs := vec_resize False resize_size (sc_inserted_bs s0)\<rparr> else s0)
        in bindR (foldR (init_candidate env fast_iterate) init_ids s1) (\<lambda>s2.
           bindR (expand_loop (total + 1) env fast_iterate 0 s2) (\<lambda>(cmps, s3). Inr ((0, cmps), s3))))"

section \<open>What the search reads\<close>

text \<open>
  A closed environment: adjacency lists and distances are defined for every location, the lists
  name locations only and fit the distance scratch of \<open>R\<close>, no distance is NaN, and the
  filter can be evaluated.
\<close>

definition env_ok :: "search_env \<Rightarrow> nat \<Rightarrow> (nat \<Rightarrow> fl) \<Rightarrow> bool" where
  "env_ok env R d \<longleftrightarrow>
     (\<forall>i < se_total env. \<exists>ns. se_nbrs env i = Inr ns \<and> (\<forall>m \<in> set ns. m < se_total env)
        \<and> length ns \<le> dist_capacity R)
   \<and> (\<forall>i < se_total env. se_qdist env i = Inr (d i) \<and> d i \<noteq> NaN)
   \<and> (\<forall>i < se_total env. ok (filter_passes env i))"

definition passes :: "search_env \<Rightarrow> nat \<Rightarrow> bool" where
  "passes env i \<longleftrightarrow> filter_passes env i = Inr True"

definition out_nbrs :: "search_env \<Rightarrow> nat \<Rightarrow> nat list" where
  "out_nbrs env i = (case se_nbrs env i of Inl _ \<Rightarrow> [] | Inr ns \<Rightarrow> ns)"

lemma env_okD:
  assumes "env_ok env R d" "i < se_total env"
  shows "se_nbrs env i = Inr (out_nbrs env i)" "length (out_nbrs env i) \<le> dist_capacity R"
    "\<And>m. m \<in> set (out_nbrs env i) \<Longrightarrow> m < se_total env"
    "se_qdist env i = Inr (d i)" "d i \<noteq> NaN" "filter_passes env i = Inr (passes env i)"
proof -
  from assms obtain ns where ns: "se_nbrs env i = Inr ns" "\<forall>m \<in> set ns. m < se_total env" "length ns \<le> dist_capacity R"
    unfolding env_ok_def by blast
  then show "se_nbrs env i = Inr (out_nbrs env i)" "length (out_nbrs env i) \<le> dist_capacity R"
    "\<And>m. m \<in> set (out_nbrs env i) \<Longrightarrow> m < se_total env" by (simp_all add: out_nbrs_def)
  show "se_qdist env i = Inr (d i)" "d i \<noteq> NaN" using assms by (simp_all add: env_ok_def)
  have "ok (filter_passes env i)" using assms by (simp add: env_ok_def)
  then obtain b where "filter_passes env i = Inr b" by (auto simp: ok_iff)
  then show "filter_passes env i = Inr (passes env i)" by (simp add: passes_def)
qed

text \<open>The locations a search can get to.\<close>

inductive_set search_reach :: "search_env \<Rightarrow> nat list \<Rightarrow> nat set" for env init_ids where
  reach_init: "i \<in> set init_ids \<Longrightarrow> passes env i \<Longrightarrow> i \<in> search_reach env init_ids"
| reach_step: "n \<in> search_reach env init_ids \<Longrightarrow> m \<in> set (out_nbrs env n) \<Longrightarrow> passes env m
     \<Longrightarrow> m \<in> search_reach env init_ids"

section \<open>The distance scratch holds every adjacency list\<close>

lemma round_fl_of_nat:
  assumes "(of_nat n :: rat) < 2 powi prec f"
  shows "round_fl f (of_nat n) = Fin (of_nat n)"
proof (cases "n = 0")
  case False
  let ?r = "of_nat n :: rat"
  have pos: "0 < ?r" using False by simp
  have lt: "(2::rat) powi ilog2 ?r < 2 powi prec f" using ilog2_bounds(1) [OF pos] assms by linarith
  have il: "ilog2 ?r < prec f"
  proof (rule ccontr)
    assume "\<not> ilog2 ?r < prec f"
    then have "(2::rat) powi prec f \<le> 2 powi ilog2 ?r" by (intro power_int_increasing) auto
    then show False using lt by linarith
  qed
  have "emin f \<le> prec f - 1" "prec f \<le> emax f + 1" by (cases f; simp add: emin_def)+
  then have "round_mag f ?r = ?r" using il by (intro round_mag_exact [of _ "int n" 0]) (simp_all add: rexp_def)
  moreover have "(2::rat) powi prec f \<le> 2 powi (emax f + 1)"
    using \<open>prec f \<le> emax f + 1\<close> by (intro power_int_increasing) auto
  then have "\<not> 2 powi (emax f + 1) \<le> ?r" using assms by linarith
  ultimately show ?thesis using pos by (simp add: round_fl_def Let_def)
qed simp

lemma round_fl_nat:
  assumes "n < 2 ^ 53"
  shows "round_fl F64 (of_nat n) = Fin (of_nat n)"
proof (rule round_fl_of_nat)
  have "(of_nat n :: rat) < of_nat (2 ^ 53)" using assms by (simp only: of_nat_less_iff)
  then show "(of_nat n :: rat) < 2 powi prec F64" by simp
qed

lemma round_fl_between:
  assumes "2 powi j \<le> q" "q \<le> 2 powi k" "emin f \<le> j" "k \<le> emax f"
  shows "\<exists>r. round_fl f q = Fin r \<and> 2 powi j \<le> r \<and> r \<le> 2 powi k"
proof -
  have "(2::rat) powi j \<le> 2 powi k" using assms(1,2) by (rule order_trans)
  have jk: "j \<le> k"
  proof (rule ccontr)
    assume "\<not> j \<le> k"
    then have "(2::rat) powi k < 2 powi j" by (intro power_int_strict_increasing) auto
    then show False using \<open>2 powi j \<le> 2 powi k\<close> by linarith
  qed
  have "round_fl f (2 powi j) \<le> round_fl f q" "round_fl f q \<le> round_fl f (2 powi k)"
    by (rule round_fl_mono, rule assms)+
  then have "Fin (2 powi j) \<le> round_fl f q" "round_fl f q \<le> Fin (2 powi k)"
    using round_fl_powi [of f j] round_fl_powi [of f k] assms jk by simp_all
  then show ?thesis by (cases "round_fl f q") simp_all
qed

lemma dist_capacity_ge:
  assumes "r < 2 ^ 53"
  shows "r \<le> dist_capacity r"
proof -
  obtain g where g: "round_fl F32 (13 / 10) = Fin g" "1 \<le> g" "g \<le> 2"
    using round_fl_between [of 0 "13 / 10" 1 F32] by (auto simp: emin_def)
  obtain c where c: "round_fl F64 (3 / 2 * g) = Fin c" "1 \<le> c" "c \<le> 4"
    using round_fl_between [of 0 "3 / 2 * g" 2 F64] g(2,3) by (auto simp: emin_def)
  let ?r = "of_nat r :: rat"
  have "?r < of_nat (2 ^ 53)" using assms by (simp only: of_nat_less_iff)
  then have r53: "?r \<le> 2 powi 53" by simp
  have "c * ?r \<le> 4 * 2 powi 53" by (rule mult_mono [OF c(3) r53]) simp_all
  also have "4 * 2 powi 53 = (2::rat) powi 55" by simp
  also have "\<dots> \<le> 2 powi emax F64" by (intro power_int_increasing) auto
  finally have "\<bar>c * ?r\<bar> \<le> 2 powi emax F64" using c(2) by (simp add: abs_mult)
  then obtain x where x: "round_fl F64 (c * ?r) = Fin x" using round_fl_finite by blast
  have "1 * ?r \<le> c * ?r" by (rule mult_right_mono [OF c(2)]) simp
  then have "round_fl F64 ?r \<le> round_fl F64 (c * ?r)" by (intro round_fl_mono) simp
  then have "?r \<le> x" using round_fl_nat [OF assms] x by simp
  moreover have "dist_capacity r = nat \<lceil>x\<rceil>"
    using round_fl_nat [OF assms] g(1) c(1) x by (simp add: dist_capacity_def GRAPH_SLACK_FACTOR_def f32_def)
  ultimately show ?thesis by linarith
qed

section \<open>Visited marks\<close>

definition visited_is :: "bool \<Rightarrow> nat \<Rightarrow> 'a scratch \<Rightarrow> nat set \<Rightarrow> bool" where
  "visited_is fast tot s V \<longleftrightarrow> V \<subseteq> {..<tot} \<and> (\<forall>i < tot. is_not_visited fast s i = Inr (i \<notin> V))"

definition same_but_marks :: "'a scratch \<Rightarrow> 'a scratch \<Rightarrow> bool" where
  "same_but_marks s s' \<longleftrightarrow>
     s' = s\<lparr>sc_inserted_rs := sc_inserted_rs s', sc_inserted_bs := sc_inserted_bs s'\<rparr>"

lemma same_but_marksD:
  assumes "same_but_marks s s'"
  shows "sc_best s' = sc_best s" "sc_pool s' = sc_pool s" "sc_R s' = sc_R s" "sc_ids s' = sc_ids s"
    "sc_query s' = sc_query s"
  using arg_cong [OF assms [unfolded same_but_marks_def], of sc_best]
    arg_cong [OF assms [unfolded same_but_marks_def], of sc_pool]
    arg_cong [OF assms [unfolded same_but_marks_def], of sc_R]
    arg_cong [OF assms [unfolded same_but_marks_def], of sc_ids]
    arg_cong [OF assms [unfolded same_but_marks_def], of sc_query] by simp_all

lemma visited_cong:
  "sc_inserted_bs s' = sc_inserted_bs s \<Longrightarrow> sc_inserted_rs s' = sc_inserted_rs s \<Longrightarrow>
     visited_is fast tot s' V \<longleftrightarrow> visited_is fast tot s V"
  by (simp add: visited_is_def is_not_visited_def)

lemma visited_finite: "visited_is fast tot s V \<Longrightarrow> finite V"
  by (auto simp: visited_is_def intro: finite_subset)

lemma mark_visited_ok:
  assumes "visited_is fast tot s V" "i < tot"
  shows "\<exists>s'. mark_visited fast i s = Inr s' \<and> visited_is fast tot s' (insert i V) \<and> same_but_marks s s'"
proof (cases fast)
  case False
  then show ?thesis
    using assms by (auto simp: mark_visited_def visited_is_def is_not_visited_def same_but_marks_def)
next
  case True
  have v: "j < length (sc_inserted_bs s) \<and> sc_inserted_bs s ! j = (j \<in> V)" if "j < tot" for j
    using assms(1) that True
    by (auto simp: visited_is_def is_not_visited_def bits_test_def bindR_eq_Inr vec_at_eq_Inr)
  show ?thesis
    using True v assms
    by (auto simp: mark_visited_def bits_set_def visited_is_def is_not_visited_def bits_test_def
        same_but_marks_def nth_list_update)
qed

lemma same_but_marks_trans: "same_but_marks s t \<Longrightarrow> same_but_marks t u \<Longrightarrow> same_but_marks s u"
  by (cases s; cases t; cases u) (simp add: same_but_marks_def)

lemma mark_all_ok:
  assumes "visited_is fast tot s V" "\<forall>i \<in> set ids. i < tot"
  shows "\<exists>s'. foldR (mark_visited fast) ids s = Inr s' \<and> visited_is fast tot s' (V \<union> set ids) \<and> same_but_marks s s'"
  using assms
proof (induction ids arbitrary: s V)
  case Nil
  then show ?case by (simp add: same_but_marks_def)
next
  case (Cons i ids)
  obtain s1 where s1: "mark_visited fast i s = Inr s1" "visited_is fast tot s1 (insert i V)" "same_but_marks s s1"
    using mark_visited_ok [OF Cons.prems(1)] Cons.prems(2) by auto
  obtain s2 where "foldR (mark_visited fast) ids s1 = Inr s2" "visited_is fast tot s2 (insert i V \<union> set ids)"
      "same_but_marks s1 s2" using Cons.IH [OF s1(2)] Cons.prems(2) by auto
  then show ?case using s1 same_but_marks_trans by auto
qed

lemma collect_unvisited_ok:
  assumes "env_ok env R d" "visited_is fast (se_total env) s V" "\<forall>i \<in> set ns. i < se_total env"
  shows "collect_unvisited env fast s ns = Inr (filter (\<lambda>i. passes env i \<and> i \<notin> V) ns)"
  using assms(3)
proof (induction ns)
  case (Cons i ns)
  then have "is_not_visited fast s i = Inr (i \<notin> V)" "filter_passes env i = Inr (passes env i)"
    using assms(2) env_okD(6) [OF assms(1), of i] by (auto simp: visited_is_def)
  then show ?case using Cons by simp
qed simp

section \<open>The state of the search\<close>

text \<open>\<open>E\<close> is the set of expanded locations: exactly they are flagged in the list.\<close>

definition flags_are :: "nat set \<Rightarrow> npq \<Rightarrow> bool" where
  "flags_are E q \<longleftrightarrow> (\<forall>x \<in> set (npq_live q). nbr_expanded x \<longleftrightarrow> nbr_id x \<in> E)"

lemma insert_batch:
  assumes "npq_ready q" "nq.tracks d V q" "finite V" "\<forall>i \<in> set ids. d i \<noteq> NaN" "set ids \<inter> E = {}" "flags_are E q"
  shows "\<exists>q'. foldR insert_candidate (zip ids (map d ids)) q = Inr q' \<and> npq_ready q'
     \<and> npq_capacity q' = npq_capacity q \<and> nq.tracks d (V \<union> set ids) q' \<and> flags_are E q'"
  using assms
proof (induction ids arbitrary: q V)
  case Nil
  then show ?case by simp
next
  case (Cons i ids)
  obtain q1 where q1: "npq_insert q (Neighbor i (d i)) = Inr q1" "npq_ready q1" "npq_capacity q1 = npq_capacity q"
      "nq.tracks d (insert i V) q1" "set (npq_live q1) \<subseteq> insert (Neighbor i (d i)) (set (npq_live q))"
    using nq.ins_candidate [OF Cons.prems(1-3), of i] Cons.prems(4) by auto
  have "flags_are E q1" using Cons.prems(5,6) q1(5) by (auto simp: flags_are_def)
  from Cons.IH [OF q1(2,4) _ _ _ this] Cons.prems show ?case
    using q1 by (auto simp: insert_candidate_def)
qed

text \<open>Popping the nearest entry that is not flagged, and flagging it.\<close>

lemma pop_flagged:
  assumes "npq_ready q" "npq_has_unexpanded_node q" "nq.tracks d V q" "finite V" "flags_are E q"
  shows "\<exists>nbr q'. npq_closest_unexpanded q = Inr (nbr, q') \<and> npq_ready q' \<and> npq_capacity q' = npq_capacity q
     \<and> nq.tracks d V q' \<and> nbr_id nbr \<in> V \<and> nbr_id nbr \<notin> E \<and> nbr_dist nbr = d (nbr_id nbr)
     \<and> flags_are (insert (nbr_id nbr) E) q'"
proof -
  obtain ys x zs q' where p: "npq_live q = ys @ x # zs" "\<not> nbr_expanded x"
      "npq_closest_unexpanded q = Inr (x\<lparr>nbr_expanded := True\<rparr>, q')" "npq_ready q'"
      "npq_capacity q' = npq_capacity q" "npq_live q' = ys @ x\<lparr>nbr_expanded := True\<rparr> # zs"
    using nq.pop_law [OF assms(1,2)] by blast
  have xin: "x \<in> set (npq_live q)" by (simp add: p(1))
  have nV: "nbr_id x \<in> V" and nd: "nbr_dist x = d (nbr_id x)" using nq.tracks_entry [OF assms(3,4) xin] by simp_all
  have nE: "nbr_id x \<notin> E" using assms(5) xin p(2) by (auto simp: flags_are_def)
  have tr: "nq.tracks d V q'" using assms(3) by (simp add: nq.tracks_def p(1,5,6) nbr_key_def)
  have "key_sorted (npq_live q)" by (rule nq.entries_sorted [OF assms(1)])
  then have "nbr_key z \<noteq> nbr_key x" if "z \<in> set ys \<union> set zs" for z
    using that by (auto simp: p(1) sorted_wrt_append)
  moreover have "nbr_dist z = d (nbr_id z)" if "z \<in> set ys \<union> set zs" for z
    using nq.tracks_entry(2) [OF assms(3,4), of z] that by (auto simp: p(1))
  ultimately have "nbr_id z \<noteq> nbr_id x" if "z \<in> set ys \<union> set zs" for z
    using that nd unfolding nbr_key_def by metis
  then have "flags_are (insert (nbr_id x) E) q'" using assms(5) by (auto simp: flags_are_def p(1,6))
  then show ?thesis using p(3-5) tr nV nE nd
    by (intro exI [of _ "x\<lparr>nbr_expanded := True\<rparr>"] exI [of _ q']) simp
qed

definition search_inv :: "search_env \<Rightarrow> (nat \<Rightarrow> fl) \<Rightarrow> nat \<Rightarrow> bool \<Rightarrow> nat set \<Rightarrow> nat set \<Rightarrow> 'a scratch \<Rightarrow> bool" where
  "search_inv env d L fast V E s \<longleftrightarrow>
     npq_ready (sc_best s) \<and> npq_capacity (sc_best s) = L \<and> nq.tracks d V (sc_best s)
   \<and> visited_is fast (se_total env) s V \<and> flags_are E (sc_best s) \<and> E \<subseteq> V \<and> (\<forall>i \<in> V. passes env i)
   \<and> (\<forall>n \<in> E. \<forall>m \<in> set (out_nbrs env n). passes env m \<longrightarrow> m \<in> V)"

lemma search_invD:
  assumes "search_inv env d L fast V E s"
  shows "npq_ready (sc_best s)" "npq_capacity (sc_best s) = L" "nq.tracks d V (sc_best s)"
    "visited_is fast (se_total env) s V" "flags_are E (sc_best s)" "E \<subseteq> V" "\<forall>i \<in> V. passes env i"
    "\<And>n m. n \<in> E \<Longrightarrow> m \<in> set (out_nbrs env n) \<Longrightarrow> passes env m \<Longrightarrow> m \<in> V"
  using assms by (auto simp: search_inv_def)

lemma expand_closest_ok:
  assumes "env_ok env (sc_R s) d" "search_inv env d L fast V E s" "npq_has_unexpanded_node (sc_best s)"
  shows "\<exists>k s' nbr V'. expand_closest env fast s = Inr (k, s') \<and> nbr_id nbr \<in> V - E \<and> nbr_dist nbr = d (nbr_id nbr)
     \<and> V' = V \<union> {m \<in> set (out_nbrs env (nbr_id nbr)). passes env m}
     \<and> search_inv env d L fast V' (insert (nbr_id nbr) E) s'
     \<and> sc_pool s' = add_expanded env nbr (sc_pool s) \<and> sc_R s' = sc_R s \<and> sc_query s' = sc_query s"
proof -
  note I = search_invD [OF assms(2)]
  have fin: "finite V" by (rule visited_finite [OF I(4)])
  obtain nbr q where p: "npq_closest_unexpanded (sc_best s) = Inr (nbr, q)" "npq_ready q"
      "npq_capacity q = npq_capacity (sc_best s)" and trq: "nq.tracks d V q" and nV: "nbr_id nbr \<in> V" and nE: "nbr_id nbr \<notin> E"
      and nd: "nbr_dist nbr = d (nbr_id nbr)" and flq: "flags_are (insert (nbr_id nbr) E) q"
    using pop_flagged [OF I(1) assms(3) I(3) fin I(5)] by blast
  let ?n = "nbr_id nbr" and ?nbr = nbr
  have Vt: "V \<subseteq> {..<se_total env}" using I(4) by (simp add: visited_is_def)
  then have nt: "?n < se_total env" using nV by blast
  note Eok = env_okD [OF assms(1) nt]
  let ?ns = "out_nbrs env ?n"
  define ids where "ids = filter (\<lambda>i. passes env i \<and> i \<notin> V) ?ns"
  define s1 where "s1 = s\<lparr>sc_best := q, sc_pool := add_expanded env ?nbr (sc_pool s), sc_ids := [], sc_dists := []\<rparr>"
  have "sc_inserted_bs s1 = sc_inserted_bs s" "sc_inserted_rs s1 = sc_inserted_rs s" by (simp_all add: s1_def)
  then have vs1: "visited_is fast (se_total env) s1 V"
    using I(4) visited_cong [of s1 s] by blast
  have col: "collect_unvisited env fast s1 ?ns = Inr ids"
    unfolding ids_def by (rule collect_unvisited_ok [OF assms(1) vs1]) (use Eok(3) in blast)
  have idt: "\<forall>i \<in> set ids. i < se_total env" using Eok(3) by (auto simp: ids_def)
  have "visited_is fast (se_total env) (s1\<lparr>sc_ids := ids\<rparr>) V"
    using vs1 by (simp add: visited_cong [of "s1\<lparr>sc_ids := ids\<rparr>" s1])
  then obtain s2 where s2: "foldR (mark_visited fast) ids (s1\<lparr>sc_ids := ids\<rparr>) = Inr s2"
      "visited_is fast (se_total env) s2 (V \<union> set ids)" "same_but_marks (s1\<lparr>sc_ids := ids\<rparr>) s2"
    using mark_all_ok idt by blast
  have f2: "sc_best s2 = q" "sc_pool s2 = add_expanded env ?nbr (sc_pool s)" "sc_R s2 = sc_R s" "sc_query s2 = sc_query s"
    using same_but_marksD [OF s2(3)] by (simp_all add: s1_def)
  have dists: "mapR (se_qdist env) ids = Inr (map d ids)"
    by (rule mapR_total) (use idt env_okD(4) [OF assms(1)] in blast)
  have "length ids \<le> dist_capacity (sc_R s2)"
    using order_trans [OF length_filter_le Eok(2)] f2(3) by (simp add: ids_def)
  moreover have "set ids \<inter> insert ?n E = {}" using nV I(6) by (auto simp: ids_def)
  moreover have "\<forall>i \<in> set ids. d i \<noteq> NaN" using idt env_okD(5) [OF assms(1)] by blast
  ultimately obtain q' where q': "foldR insert_candidate (zip ids (map d ids)) q = Inr q'" "npq_ready q'"
      "npq_capacity q' = npq_capacity q" "nq.tracks d (V \<union> set ids) q'" "flags_are (insert ?n E) q'"
    using insert_batch [OF p(2) trq fin, of ids "insert ?n E"] flq by blast
  define s' where "s' = s2\<lparr>sc_best := q'\<rparr>"
  have res: "expand_closest env fast s = Inr (length ids, s')"
  proof -
    have c: "\<not> dist_capacity (sc_R s2) < length ids" using \<open>length ids \<le> dist_capacity (sc_R s2)\<close> by simp
    show ?thesis
      by (simp only: expand_closest_def p(1) bindR_simps prod.case Let_def s1_def [symmetric] Eok(1) col s2(1)
          c if_False dists f2(1) q'(1) s'_def)
  qed
  have V': "V \<union> set ids = V \<union> {m \<in> set ?ns. passes env m}" by (auto simp: ids_def)
  have "search_inv env d L fast (V \<union> set ids) (insert ?n E) s'"
    unfolding search_inv_def
  proof (intro conjI)
    show "visited_is fast (se_total env) s' (V \<union> set ids)"
      using s2(2) visited_cong [of s' s2] unfolding s'_def by simp
    show "\<forall>n \<in> insert ?n E. \<forall>m \<in> set (out_nbrs env n). passes env m \<longrightarrow> m \<in> V \<union> set ids"
      using I(8) by (auto simp: V')
  qed (use q' p(3) I(2,6,7) nV in \<open>auto simp: s'_def ids_def\<close>)
  then have "search_inv env d L fast (V \<union> {m \<in> set (out_nbrs env (nbr_id ?nbr)). passes env m})
      (insert (nbr_id ?nbr) E) s'" by (simp add: V')
  moreover have "nbr_id ?nbr \<in> V - E" "nbr_dist ?nbr = d (nbr_id ?nbr)" using nV nE nd by simp_all
  moreover have "sc_pool s' = add_expanded env ?nbr (sc_pool s)" "sc_R s' = sc_R s" "sc_query s' = sc_query s" using f2 by (simp_all add: s'_def)
  ultimately show ?thesis using res by blast
qed

section \<open>The whole search\<close>

text \<open>The pool of expanded nodes that a build hands to pruning.\<close>

definition pool_is :: "search_env \<Rightarrow> (nat \<Rightarrow> fl) \<Rightarrow> nat set \<Rightarrow> neighbor list \<Rightarrow> bool" where
  "pool_is env d E pool \<longleftrightarrow>
     (if se_search_invocation env then pool = []
      else distinct (map nbr_id pool) \<and> nbr_id ` set pool = E \<and> (\<forall>x \<in> set pool. nbr_dist x = d (nbr_id x)))"

lemma pool_is_add:
  assumes "pool_is env d E pool" "nbr_id x \<notin> E" "nbr_dist x = d (nbr_id x)"
  shows "pool_is env d (insert (nbr_id x) E) (add_expanded env x pool)"
proof -
  have "nbr_id y \<noteq> nbr_id x" if "y \<in> set pool" "\<not> se_search_invocation env" for y
    using assms(1,2) that by (metis (full_types) image_eqI pool_is_def)
  then show ?thesis using assms by (auto simp: pool_is_def add_expanded_def nbr_equal_def)
qed

lemma expand_loop_ok:
  assumes "env_ok env (sc_R s) d" "search_inv env d L fast V E s" "se_total env < card E + fuel"
    and "V \<subseteq> search_reach env init_ids" "pool_is env d E (sc_pool s)"
  shows "\<exists>cmps' s' V' E'. expand_loop fuel env fast cmps s = Inr (cmps', s') \<and> search_inv env d L fast V' E' s'
     \<and> \<not> npq_has_unexpanded_node (sc_best s') \<and> V \<subseteq> V' \<and> V' \<subseteq> search_reach env init_ids
     \<and> pool_is env d E' (sc_pool s') \<and> sc_R s' = sc_R s \<and> sc_query s' = sc_query s"
  using assms
proof (induction fuel arbitrary: cmps s V E)
  case 0
  have "V \<subseteq> {..<se_total env}" "E \<subseteq> V" using search_invD(4,6) [OF "0.prems"(2)] by (simp_all add: visited_is_def)
  then have "card E \<le> card {..<se_total env}" by (intro card_mono) auto
  then show ?case using "0.prems"(3) by simp
next
  case (Suc fuel)
  show ?case
  proof (cases "npq_has_unexpanded_node (sc_best s)")
    case False
    have "expand_loop (Suc fuel) env fast cmps s = Inr (cmps, s)"
      using False by (simp add: expand_loop.simps [of "Suc fuel"])
    then show ?thesis using False Suc.prems by blast
  next
    case True
    obtain k s1 nbr V1 where e: "expand_closest env fast s = Inr (k, s1)" "nbr_id nbr \<in> V - E"
        "nbr_dist nbr = d (nbr_id nbr)" "V1 = V \<union> {m \<in> set (out_nbrs env (nbr_id nbr)). passes env m}"
        "search_inv env d L fast V1 (insert (nbr_id nbr) E) s1"
        "sc_pool s1 = add_expanded env nbr (sc_pool s)" "sc_R s1 = sc_R s" "sc_query s1 = sc_query s"
      using expand_closest_ok [OF Suc.prems(1,2) True] by blast
    have "finite V" by (rule visited_finite [OF search_invD(4) [OF Suc.prems(2)]])
    then have "finite E" using search_invD(6) [OF Suc.prems(2)] by (rule rev_finite_subset)
    then have c: "se_total env < card (insert (nbr_id nbr) E) + fuel" using Suc.prems(3) e(2) by simp
    have r: "V1 \<subseteq> search_reach env init_ids"
      using Suc.prems(4) e(2,4) by (auto intro: search_reach.reach_step)
    have p: "pool_is env d (insert (nbr_id nbr) E) (sc_pool s1)"
      using pool_is_add [OF Suc.prems(5) _ e(3)] e(2,6) by simp
    have "env_ok env (sc_R s1) d" using Suc.prems(1) e(7) by simp
    from Suc.IH [OF this e(5) c r p, of "u32_add cmps k"] show ?thesis
      using e(1,4,7,8) True by (auto simp: expand_loop.simps [of "Suc fuel"])
  qed
qed

lemma init_candidates_ok:
  assumes "env_ok env R d" "search_inv env d L fast V {} s" "\<forall>i \<in> set ids. i < se_total env"
  shows "\<exists>s'. foldR (init_candidate env fast) ids s = Inr s'
     \<and> search_inv env d L fast (V \<union> {i \<in> set ids. passes env i}) {} s' \<and> sc_pool s' = sc_pool s \<and> sc_R s' = sc_R s
     \<and> sc_query s' = sc_query s"
  using assms(2,3)
proof (induction ids arbitrary: s V)
  case Nil
  then show ?case by simp
next
  case (Cons i ids)
  note I = search_invD [OF Cons.prems(1)] and Eok = env_okD [OF assms(1), of i]
  have i: "i < se_total env" using Cons.prems(2) by simp
  have nv: "is_not_visited fast s i = Inr (i \<notin> V)" using I(4) i by (simp add: visited_is_def)
  have "\<exists>s1. init_candidate env fast i s = Inr s1 \<and> search_inv env d L fast (V \<union> {j \<in> {i}. passes env j}) {} s1
      \<and> sc_pool s1 = sc_pool s \<and> sc_R s1 = sc_R s \<and> sc_query s1 = sc_query s"
  proof (cases "passes env i \<and> i \<notin> V")
    case False
    then have "init_candidate env fast i s = Inr s" using nv Eok(6) [OF i] i by (auto simp: init_candidate_def)
    moreover have "V \<union> {j \<in> {i}. passes env j} = V" using False by auto
    ultimately show ?thesis using Cons.prems(1) by simp
  next
    case True
    obtain s1 where s1: "mark_visited fast i s = Inr s1" "visited_is fast (se_total env) s1 (insert i V)"
        "same_but_marks s s1" using mark_visited_ok [OF I(4) i] by blast
    note f = same_but_marksD [OF s1(3)]
    obtain q where q: "npq_insert (sc_best s) (Neighbor i (d i)) = Inr q" "npq_ready q" "npq_capacity q = L"
        "nq.tracks d (insert i V) q" "set (npq_live q) \<subseteq> insert (Neighbor i (d i)) (set (npq_live (sc_best s)))"
      using nq.ins_candidate [OF I(1,3) visited_finite [OF I(4)] Eok(5) [OF i]] I(2) by auto
    have "flags_are {} q" using q(5) I(5) by (auto simp: flags_are_def)
    moreover have "visited_is fast (se_total env) (s1\<lparr>sc_best := q\<rparr>) (insert i V)"
      using s1(2) visited_cong [of "s1\<lparr>sc_best := q\<rparr>" s1] by simp
    ultimately have "search_inv env d L fast (insert i V) {} (s1\<lparr>sc_best := q\<rparr>)"
      using q I(7) True by (simp add: search_inv_def)
    moreover have "init_candidate env fast i s = Inr (s1\<lparr>sc_best := q\<rparr>)"
      using True nv Eok(4,6) [OF i] i s1(1) q(1) f(1) by (simp add: init_candidate_def)
    moreover have "V \<union> {j \<in> {i}. passes env j} = insert i V" using True by auto
    ultimately show ?thesis using f by simp
  qed
  then obtain s1 where s1: "init_candidate env fast i s = Inr s1"
      "search_inv env d L fast (V \<union> {j \<in> {i}. passes env j}) {} s1" "sc_pool s1 = sc_pool s" "sc_R s1 = sc_R s"
      "sc_query s1 = sc_query s" by blast
  have "V \<union> {j \<in> {i}. passes env j} \<union> {i \<in> set ids. passes env i} = V \<union> {j \<in> set (i # ids). passes env j}" by auto
  then show ?case using Cons.IH [OF s1(2)] Cons.prems(2) s1 by auto
qed

lemma search_start:
  assumes "scratch_clean s" "0 < L" "se_total env \<le> length bs \<or> \<not> fast" "True \<notin> set bs"
  shows "search_inv env d L fast {} {} (s\<lparr>sc_best := npq_reserve (sc_best s) L, sc_inserted_bs := bs\<rparr>)"
proof -
  have c: "npq_size (sc_best s) = 0" "npq_cur (sc_best s) = 0" "sc_inserted_rs s = {}"
    using assms(1) by (simp_all add: scratch_clean_def)
  let ?q = "npq_reserve (sc_best s) L"
  have q: "npq_size ?q = 0" "npq_cur ?q = 0" "npq_capacity ?q = L" "L < length (npq_data ?q)"
    using c by (auto simp: npq_reserve_def Let_def)
  then have live: "npq_live ?q = []" by (simp add: npq_live_def)
  have "npq_ready ?q" using q live assms(2) by (simp add: npq_ready_def npq_inv_def)
  moreover have "\<not> bs ! i" if "i < length bs" for i using assms(4) nth_mem [OF that] by auto
  ultimately show ?thesis
    using q live assms(3) c
    by (auto simp: search_inv_def nq.tracks_def flags_are_def visited_is_def is_not_visited_def bits_test_def)
qed

lemma search_local_optimum_library:
  assumes "env_ok env (sc_R s) d" "scratch_clean s" "0 < L" "\<forall>i \<in> set init_ids. i < se_total env"
  shows "\<exists>cmps s' V E. iterate_to_fixed_point env L init_ids s = Inr ((0, cmps), s')
     \<and> map nbr_key (npq_live (sc_best s')) = take L (ranking d V) \<and> finite V
     \<and> {i \<in> set init_ids. passes env i} \<subseteq> V \<and> V \<subseteq> search_reach env init_ids
     \<and> nbr_id ` set (npq_live (sc_best s')) \<subseteq> E \<and> E \<subseteq> V
     \<and> (\<forall>n \<in> E. \<forall>m \<in> set (out_nbrs env n). passes env m \<longrightarrow> m \<in> V)
     \<and> pool_is env d E (sc_pool s') \<and> sc_R s' = sc_R s \<and> sc_query s' = sc_query s"
proof -
  let ?tot = "se_total env"
  let ?fast = "?tot \<le> MAX_POINTS_FOR_USING_BITSET"
  let ?rs = "if MAX_POINTS_FOR_USING_BITSET < 2 * ?tot then MAX_POINTS_FOR_USING_BITSET else 2 * ?tot"
  define bs where "bs = (if ?fast \<and> length (sc_inserted_bs s) < ?tot
    then vec_resize False ?rs (sc_inserted_bs s) else sc_inserted_bs s)"
  define s1 where "s1 = s\<lparr>sc_best := npq_reserve (sc_best s) L, sc_inserted_bs := bs\<rparr>"
  have cl: "sc_pool s = []" "sc_ids s = []" "True \<notin> set (sc_inserted_bs s)"
    using assms(2) by (simp_all add: scratch_clean_def)
  have "?tot \<le> length bs \<or> \<not> ?fast" by (auto simp: bs_def)
  moreover have "True \<notin> set bs" using cl(3) by (auto simp: bs_def vec_resize_def dest: in_set_takeD)
  ultimately have inv: "search_inv env d L ?fast {} {} s1"
    unfolding s1_def by (rule search_start [OF assms(2,3)])
  have R1: "sc_R s1 = sc_R s" "sc_pool s1 = []" "sc_query s1 = sc_query s" by (simp_all add: s1_def cl)
  let ?V0 = "{} \<union> {i \<in> set init_ids. passes env i}"
  obtain s2 where s2: "foldR (init_candidate env ?fast) init_ids s1 = Inr s2"
      "search_inv env d L ?fast ?V0 {} s2" "sc_pool s2 = []" "sc_R s2 = sc_R s"
      "sc_query s2 = sc_query s"
    using init_candidates_ok [OF assms(1) inv assms(4)] R1 by auto
  have e2: "env_ok env (sc_R s2) d" using assms(1) s2(4) by simp
  have r2: "?V0 \<subseteq> search_reach env init_ids" by (auto intro: search_reach.reach_init)
  have p2: "pool_is env d {} (sc_pool s2)" by (simp add: pool_is_def s2(3))
  have "?tot < card ({}::nat set) + (?tot + 1)" by simp
  from expand_loop_ok [OF e2 s2(2) this r2 p2, of 0] obtain cmps s3 V E where
    s3: "expand_loop (?tot + 1) env ?fast 0 s2 = Inr (cmps, s3)" "search_inv env d L ?fast V E s3"
      "\<not> npq_has_unexpanded_node (sc_best s3)" "?V0 \<subseteq> V" "V \<subseteq> search_reach env init_ids"
      "pool_is env d E (sc_pool s3)" "sc_R s3 = sc_R s2" "sc_query s3 = sc_query s2" by blast
  note I = search_invD [OF s3(2)]
  have res: "iterate_to_fixed_point env L init_ids s = Inr ((0, cmps), s3)"
  proof -
    let ?s0 = "s\<lparr>sc_best := npq_reserve (sc_best s) L\<rparr>"
    have e: "(if ?fast \<and> length (sc_inserted_bs ?s0) < ?tot
        then ?s0\<lparr>sc_inserted_bs := vec_resize False ?rs (sc_inserted_bs ?s0)\<rparr> else ?s0) = s1"
      by (simp add: s1_def bs_def)
    have c: "sc_pool ?s0 = []" "sc_ids ?s0 = []" using cl by simp_all
    show ?thesis
      unfolding iterate_to_fixed_point_def Let_def e
      by (simp only: c s2(1) s3(1) bindR_simps prod.case simp_thms if_False)
  qed
  have "\<forall>x \<in> set (npq_live (sc_best s3)). nbr_expanded x" using nq.more_law [OF I(1)] s3(3) by blast
  then have "nbr_id ` set (npq_live (sc_best s3)) \<subseteq> E" using I(5) by (auto simp: flags_are_def)
  moreover have "map nbr_key (npq_live (sc_best s3)) = take L (ranking d V)"
    using I(2,3) by (simp add: nq.tracks_def)
  moreover have "finite V" by (rule visited_finite [OF I(4)])
  moreover have "\<forall>n \<in> E. \<forall>m \<in> set (out_nbrs env n). passes env m \<longrightarrow> m \<in> V" using I(8) by blast
  ultimately show ?thesis using res s3(4-8) s2(4,5) I(6) by auto
qed

section \<open>Properties\<close>

text \<open>\<^bold>\<open>C4\<close> From a cleared scratch space, with every adjacency list and distance defined, the
  best-first search terminates without an error and returns the L nearest (ties by id) of the set V of
  locations it looked at, in order. V holds every start point that passes the filter, only filtered locations
  reachable from the start points, and every filtered out-neighbour of a returned location (so no
  neighbour of a result is nearer than the results kept). All returned locations have been expanded,
  and when the search builds the index the pool handed to pruning holds each expanded location once.\<close>

theorem search_local_optimum:
  assumes "env_ok env (sc_R s) d" "scratch_clean s" "0 < L" "\<forall>i \<in> set init_ids. i < se_total env"
  shows "\<exists>cmps s' V E. iterate_to_fixed_point env L init_ids s = Inr ((0, cmps), s')
     \<and> map nbr_key (npq_live (sc_best s')) = take L (ranking d V) \<and> finite V
     \<and> {i \<in> set init_ids. passes env i} \<subseteq> V \<and> V \<subseteq> search_reach env init_ids
     \<and> nbr_id ` set (npq_live (sc_best s')) \<subseteq> E \<and> E \<subseteq> V
     \<and> (\<forall>n \<in> E. \<forall>m \<in> set (out_nbrs env n). passes env m \<longrightarrow> m \<in> V)
     \<and> pool_is env d E (sc_pool s')"
  using search_local_optimum_library [OF assms] by blast

definition ring_env :: search_env where
  "ring_env = \<lparr>se_total = 3, se_nbrs = (\<lambda>i. if i < 3 then Inr [(i + 1) mod 3, (i + 2) mod 3] else Inl UndefinedBehaviour),
     se_qdist = (\<lambda>i. if i < 3 then Inr (Fin (of_nat (3 - i))) else Inl UndefinedBehaviour),
     se_use_filter = False, se_detect = (\<lambda>i. Inr True), se_search_invocation = True\<rparr>"

lemma ring_env_ok: "env_ok ring_env 2 (\<lambda>i. Fin (of_nat (3 - i)))"
  using dist_capacity_ge [of 2] by (auto simp: env_ok_def ring_env_def filter_passes_def)

lemma search_local_optimum_witness:
  "\<exists>s. scratch_make 2 2 2 10 1 8 = Inr (s :: nat scratch) \<and>
   (\<exists>cmps s' V E. iterate_to_fixed_point ring_env 2 [0] s = Inr ((0, cmps), s')
     \<and> map nbr_key (npq_live (sc_best s')) = take 2 (ranking (\<lambda>i. Fin (of_nat (3 - i))) V) \<and> finite V
     \<and> {i \<in> set [0]. passes ring_env i} \<subseteq> V \<and> V \<subseteq> search_reach ring_env [0]
     \<and> nbr_id ` set (npq_live (sc_best s')) \<subseteq> E \<and> E \<subseteq> V
     \<and> (\<forall>n \<in> E. \<forall>m \<in> set (out_nbrs ring_env n). passes ring_env m \<longrightarrow> m \<in> V)
     \<and> pool_is ring_env (\<lambda>i. Fin (of_nat (3 - i))) E (sc_pool s'))"
proof -
  obtain s :: "nat scratch" where s: "scratch_make 2 2 2 10 1 8 = Inr s" by (simp add: scratch_make_def)
  then have "sc_R s = 2" by (auto simp: scratch_make_def resize_for_new_L_def split: if_splits)
  moreover have "scratch_clean s" by (rule scratch_make_clean [OF s])
  ultimately show ?thesis
    using s search_local_optimum [of ring_env s "\<lambda>i. Fin (of_nat (3 - i))" 2 "[0]"] ring_env_ok
    by (simp add: ring_env_def)
qed

end
