(* ===== verification/Labels.thy ===== *)
theory Labels
  imports Bin_IO
begin

text \<open>
  Filter labels: the label parsers and the label test of \<^verbatim>\<open>src/index.cpp\<close>
  (\<^verbatim>\<open>detect_common_filters\<close>, \<^verbatim>\<open>parse_label_file\<close>,
  \<^verbatim>\<open>load_label_map\<close>, \<^verbatim>\<open>get_converted_label\<close>, the choice of one
  start point per label in \<^verbatim>\<open>build_filtered_index\<close>) and the converter
  \<^verbatim>\<open>convert_labels_string_to_int\<close> of \<^verbatim>\<open>include/utils.h\<close>. Text
  files are strings. The iteration order of a hash container and the values of
  \<^verbatim>\<open>rand()\<close> are parameters.
\<close>

section \<open>Text\<close>

text \<open>
  The pieces that repeated \<^verbatim>\<open>getline\<close> calls with delimiter \<open>d\<close> extract: no empty
  piece after a final delimiter.
\<close>

function getlines :: "char \<Rightarrow> string \<Rightarrow> string list" where
  "getlines d [] = []"
| "getlines d (c # s) = takeWhile (\<lambda>x. x \<noteq> d) (c # s) # getlines d (drop 1 (dropWhile (\<lambda>x. x \<noteq> d) (c # s)))"
  by pat_completeness auto
termination
  by (relation "measure (\<lambda>(d, s). length s)") (auto simp: le_imp_less_Suc length_dropWhile_le less_Suc_eq_le intro: le_trans [OF diff_le_self])

definition is_digit :: "char \<Rightarrow> bool" where
  "is_digit c \<longleftrightarrow> 48 \<le> (of_char c :: nat) \<and> (of_char c :: nat) \<le> 57"

definition digit_val :: "char \<Rightarrow> nat" where
  "digit_val c = (of_char c :: nat) - 48"

definition is_space :: "char \<Rightarrow> bool" where
  "is_space c \<longleftrightarrow> (of_char c :: nat) \<in> {9, 10, 11, 12, 13, 32}"

definition read_digits :: "string \<Rightarrow> nat" where
  "read_digits s = foldl (\<lambda>n c. 10 * n + digit_val c) 0 s"

text \<open>\<^verbatim>\<open>std::stoul\<close> in base 10; a minus sign negates in 64 bits.\<close>

definition stoul :: "string \<Rightarrow> nat result" where
  "stoul s =
     (let s1 = dropWhile is_space s;
          neg = (s1 \<noteq> [] \<and> hd s1 = CHR ''-'');
          s2 = (if s1 \<noteq> [] \<and> (hd s1 = CHR ''-'' \<or> hd s1 = CHR ''+'') then tl s1 else s1);
          ds = takeWhile is_digit s2; v = read_digits ds
      in if ds = [] then Inl StdInvalidArgument
         else if 2 ^ 64 \<le> v then Inl StdOutOfRange
         else Inr (if neg then (2 ^ 64 - v) mod 2 ^ 64 else v))"

text \<open>Decimal output of an unsigned number.\<close>

fun show_nat :: "nat \<Rightarrow> string" where
  "show_nat n = (if n < 10 then [char_of (48 + n)] else show_nat (n div 10) @ [char_of (48 + n mod 10)])"

declare show_nat.simps [simp del]

abbreviation tab :: char where "tab \<equiv> CHR 0x09"
abbreviation newline :: char where "newline \<equiv> CHR 0x0A"
abbreviation cr :: char where "cr \<equiv> CHR 0x0D"
abbreviation comma :: char where "comma \<equiv> CHR '',''"

definition strip_eol :: "string \<Rightarrow> string" where
  "strip_eol s = filter (\<lambda>c. c \<noteq> cr \<and> c \<noteq> newline) s"

section \<open>Label files\<close>

text \<open>
  \<^verbatim>\<open>parse_label_file\<close> of the index: the labels of each point, sorted, as values of
  \<open>w\<close> bits, and the set of all labels. \<open>None\<close> is a file that cannot be opened.
\<close>

definition parse_labels_line :: "nat \<Rightarrow> string \<Rightarrow> nat list result" where
  "parse_labels_line w line =
     bindR (mapR (\<lambda>t. bindR (stoul (strip_eol t)) (\<lambda>v. Inr (v mod 2 ^ w)))
             (getlines comma (takeWhile (\<lambda>c. c \<noteq> tab) line))) (\<lambda>lbls. Inr (sort lbls))"

definition parse_label_file :: "nat \<Rightarrow> string option \<Rightarrow> nat set \<Rightarrow> (nat list list \<times> nat set \<times> nat) result" where
  "parse_label_file w label_file labels =
     (case label_file of
        None \<Rightarrow> Inl (ANNException ''Failed to open file'')
      | Some txt \<Rightarrow>
          bindR (mapR (parse_labels_line w) (getlines newline txt)) (\<lambda>l2l.
            Inr (l2l, labels \<union> \<Union> (set (map set l2l)), u32 (length l2l))))"

text \<open>
  \<^verbatim>\<open>load_label_map\<close>: label, tab, number on each line; without a tab the second
  \<^verbatim>\<open>getline\<close> fails and leaves the label in the token.
\<close>

definition load_label_line :: "nat \<Rightarrow> string \<Rightarrow> (string \<times> nat) result" where
  "load_label_line w line =
     (let lbl = takeWhile (\<lambda>c. c \<noteq> tab) line; rest = dropWhile (\<lambda>c. c \<noteq> tab) line;
          token = (if rest = [] then lbl else takeWhile (\<lambda>c. c \<noteq> tab) (tl rest))
      in bindR (stoul token) (\<lambda>v. Inr (lbl, v mod 2 ^ w)))"

definition load_label_map :: "nat \<Rightarrow> string \<Rightarrow> (string \<rightharpoonup> nat) result" where
  "load_label_map w txt =
     foldR (\<lambda>line m. bindR (load_label_line w line) (\<lambda>(l, v). Inr (m(l \<mapsto> v)))) (getlines newline txt) Map.empty"

definition get_converted_label :: "(string \<rightharpoonup> nat) \<Rightarrow> bool \<Rightarrow> nat \<Rightarrow> string \<Rightarrow> nat result" where
  "get_converted_label label_map use_universal_label universal_label raw_label =
     (case label_map raw_label of
        Some v \<Rightarrow> Inr v
      | None \<Rightarrow> if use_universal_label then Inr universal_label
                else Inl (ANNException ''Unable to find label in the Label Map''))"

text \<open>
  \<^verbatim>\<open>convert_labels_string_to_int\<close>. The hash map is the list of its entries in insertion
  order; the order in which it is written is the parameter \<open>ord\<close>.
\<close>

definition label_id :: "string \<Rightarrow> (string \<times> nat) list \<Rightarrow> nat \<times> (string \<times> nat) list" where
  "label_id token m =
     (case map_of m token of
        Some k \<Rightarrow> (k, m)
      | None \<Rightarrow> let nextId = u32_add (u32 (length m)) 1 in (nextId, m @ [(token, nextId)]))"

fun label_ids :: "string list \<Rightarrow> (string \<times> nat) list \<Rightarrow> nat list \<times> (string \<times> nat) list" where
  "label_ids [] m = ([], m)"
| "label_ids (t # ts) m =
     (let (k, m1) = label_id (strip_eol t) m; (ks, m2) = label_ids ts m1 in (k # ks, m2))"

fun write_labels :: "nat list \<Rightarrow> string" where
  "write_labels [] = []"
| "write_labels [k] = show_nat k @ [newline]"
| "write_labels (k # ks) = show_nat k @ [comma] @ write_labels ks"

definition convert_line :: "string \<Rightarrow> string \<times> (string \<times> nat) list \<Rightarrow> (string \<times> (string \<times> nat) list) result" where
  "convert_line line = (\<lambda>(out, m).
     let (lbls, m') = label_ids (getlines comma line) m
     in if lbls = [] then Inl ProcessExit else Inr (out @ write_labels lbls, m'))"

definition write_map :: "(string \<times> nat) list \<Rightarrow> string" where
  "write_map m = concat (map (\<lambda>(l, k). l @ [tab] @ show_nat k @ [newline]) m)"

definition convert_labels_string_to_int ::
  "((string \<times> nat) list \<Rightarrow> (string \<times> nat) list) \<Rightarrow> string \<Rightarrow> string \<Rightarrow> (string \<times> string) result" where
  "convert_labels_string_to_int ord txt unv_label =
     (let m0 = (if unv_label \<noteq> [] then [(unv_label, 0)] else [])
      in bindR (foldR convert_line (getlines newline txt) ([], m0)) (\<lambda>(out, m). Inr (out, write_map (ord m))))"

section \<open>Common labels\<close>

fun two_pointer :: "nat list \<Rightarrow> nat list \<Rightarrow> bool" where
  "two_pointer (i # inc) (c # cur) =
     (if i < c then two_pointer inc (c # cur)
      else if c < i then two_pointer (i # inc) cur
      else True)"
| "two_pointer _ _ = False"

definition detect_common_filters ::
  "nat list list \<Rightarrow> bool \<Rightarrow> nat \<Rightarrow> nat \<Rightarrow> bool \<Rightarrow> nat list \<Rightarrow> bool result" where
  "detect_common_filters labels use_universal_label universal_label point_id search_invocation incoming =
     bindR (vec_at labels point_id) (\<lambda>curr.
       if two_pointer incoming curr then Inr True
       else if use_universal_label then
         (if \<not> search_invocation
          then Inr (universal_label \<in> set incoming \<or> universal_label \<in> set curr)
          else Inr (universal_label \<in> set curr))
       else Inr False)"

section \<open>One start point per label\<close>

text \<open>The points listed under a label; a point with the universal label is listed under all.\<close>

definition labeled_points :: "nat list list \<Rightarrow> nat set \<Rightarrow> nat \<Rightarrow> nat \<Rightarrow> nat \<Rightarrow> nat list" where
  "labeled_points l2l labels universal_label n x =
     concat (map (\<lambda>p. concat (map (\<lambda>l. if l \<noteq> universal_label then (if l = x then [p] else [])
                                         else (if x \<in> labels then [p] else [])) (l2l ! p))) [0..<n])"

text \<open>
  25 random candidates, the one least often chosen so far wins; \<open>rnd k\<close> is the \<open>k\<close>-th value of
  \<^verbatim>\<open>rand()\<close>. The state is the number of calls made, the counts, and the best so far.
\<close>

definition try_medoid :: "(nat \<Rightarrow> nat) \<Rightarrow> nat list \<Rightarrow> nat \<times> (nat \<rightharpoonup> nat) \<times> nat \<times> nat \<Rightarrow> nat \<times> (nat \<rightharpoonup> nat) \<times> nat \<times> nat" where
  "try_medoid rnd pts = (\<lambda>(k, counts, best_count, best).
     let cand = pts ! (rnd k mod length pts);
         (counts', cnt) = (case counts cand of None \<Rightarrow> (counts(cand \<mapsto> 0), 0) | Some c \<Rightarrow> (counts, c))
     in if cnt < best_count then (k + 1, counts', cnt, cand) else (k + 1, counts', best_count, best))"

definition num_cands :: nat where
  "num_cands = 25"

definition choose_medoid ::
  "(nat \<Rightarrow> nat) \<Rightarrow> (nat \<Rightarrow> nat list) \<Rightarrow> nat \<Rightarrow> nat \<times> (nat \<rightharpoonup> nat) \<times> (nat \<rightharpoonup> nat) \<Rightarrow> (nat \<times> (nat \<rightharpoonup> nat) \<times> (nat \<rightharpoonup> nat)) result" where
  "choose_medoid rnd pts_of label = (\<lambda>(k, counts, starts).
     if pts_of label = [] then Inl UndefinedBehaviour
     else let (k', counts', best_count, best) = (try_medoid rnd (pts_of label) ^^ num_cands) (k, counts, UINT32_MAX, 0)
       in if best_count = UINT32_MAX then Inl UndefinedBehaviour
          else Inr (k', counts'(best := Some (u32_add (case counts' best of None \<Rightarrow> 0 | Some c \<Rightarrow> c) 1)), starts(label \<mapsto> best)))"

definition choose_medoids ::
  "(nat set \<Rightarrow> nat list) \<Rightarrow> (nat \<Rightarrow> nat) \<Rightarrow> nat list list \<Rightarrow> nat set \<Rightarrow> nat \<Rightarrow> nat \<Rightarrow> (nat \<rightharpoonup> nat)
     \<Rightarrow> ((nat \<rightharpoonup> nat) \<times> (nat \<rightharpoonup> nat)) result" where
  "choose_medoids ord rnd l2l labels universal_label n counts =
     (if length l2l < n then Inl UndefinedBehaviour
      else bindR (foldR (choose_medoid rnd (labeled_points l2l labels universal_label n)) (ord labels) (0, counts, Map.empty))
             (\<lambda>(k, counts', starts). Inr (starts, counts')))"

section \<open>Reading back what was written\<close>

lemma getlines_piece:
  assumes "d \<notin> set l"
  shows "getlines d (l @ d # s) = l # getlines d s"
proof -
  have t: "takeWhile (\<lambda>x. x \<noteq> d) (l @ d # s) = l" "dropWhile (\<lambda>x. x \<noteq> d) (l @ d # s) = d # s"
    using assms by (induction l) auto
  obtain c r where cr: "l @ d # s = c # r" by (cases l) auto
  show ?thesis using t unfolding cr by simp
qed

lemma getlines_last: "d \<notin> set l \<Longrightarrow> l \<noteq> [] \<Longrightarrow> getlines d l = [l]"
proof -
  assume a: "d \<notin> set l" "l \<noteq> []"
  have "takeWhile (\<lambda>x. x \<noteq> d) l = l" "dropWhile (\<lambda>x. x \<noteq> d) l = []"
    using a(1) by (induction l) auto
  then show ?thesis using a(2) by (cases l) auto
qed

lemma getlines_lines: "\<forall>l \<in> set ls. d \<notin> set l \<Longrightarrow> getlines d (concat (map (\<lambda>l. l @ [d]) ls)) = ls"
  by (induction ls) (simp_all add: getlines_piece)

lemma of_char_digit: "n < 10 \<Longrightarrow> (of_char (char_of (48 + n) :: char) :: nat) = 48 + n"
  by simp

lemma show_nat_digits: "c \<in> set (show_nat n) \<Longrightarrow> is_digit c"
proof (induction n rule: show_nat.induct)
  case (1 n)
  have d: "is_digit (char_of (48 + k))" if "k < 10" for k :: nat using that by (simp add: is_digit_def)
  show ?case
  proof (cases "n < 10")
    case True
    then show ?thesis using "1.prems" d [of n] by (simp add: show_nat.simps [of n])
  next
    case False
    then show ?thesis using 1 d [of "n mod 10"] by (auto simp: show_nat.simps [of n])
  qed
qed

lemma show_nat_not_empty [simp]: "show_nat n \<noteq> []"
  by (simp add: show_nat.simps [of n])

lemma read_digits_show: "read_digits (show_nat n) = n"
proof (induction n rule: show_nat.induct)
  case (1 n)
  show ?case
  proof (cases "n < 10")
    case True
    then show ?thesis by (simp add: show_nat.simps [of n] read_digits_def digit_val_def)
  next
    case False
    have "digit_val (char_of (48 + n mod 10)) = n mod 10" by (simp add: digit_val_def)
    then show ?thesis using 1 False by (simp add: show_nat.simps [of n] read_digits_def)
  qed
qed

lemma digit_not: "is_digit c \<Longrightarrow> \<not> is_space c \<and> c \<noteq> CHR ''-'' \<and> c \<noteq> CHR ''+'' \<and> c \<noteq> tab \<and> c \<noteq> newline \<and> c \<noteq> cr \<and> c \<noteq> comma"
  by (auto simp: is_digit_def is_space_def)

lemma stoul_show: "n < 2 ^ 64 \<Longrightarrow> stoul (show_nat n) = Inr n"
proof -
  assume n: "n < 2 ^ 64"
  obtain c r where cr: "show_nat n = c # r" by (cases "show_nat n") auto
  have dig: "\<forall>x \<in> set (c # r). is_digit x" using show_nat_digits [of _ n] cr by auto
  have tw: "takeWhile is_digit r = r" using dig by (simp add: takeWhile_eq_all_conv)
  have "dropWhile is_space (c # r) = c # r" using dig digit_not [of c] by simp
  then show ?thesis
    using n dig digit_not [of c] read_digits_show [of n] unfolding cr
    by (simp add: stoul_def Let_def tw)
qed

lemma show_nat_avoids: "set (show_nat n) \<inter> {tab, newline, cr, comma} = {}"
  using show_nat_digits [of _ n] digit_not by blast

lemma strip_eol_id: "newline \<notin> set s \<Longrightarrow> cr \<notin> set s \<Longrightarrow> strip_eol s = s"
  unfolding strip_eol_def by (rule filter_True) auto

lemma strip_show [simp]: "strip_eol (show_nat n) = show_nat n"
  by (rule strip_eol_id) (use show_nat_avoids [of n] in auto)

text \<open>A written line of ids, and what the parser makes of it.\<close>

definition join_ids :: "nat list \<Rightarrow> string" where
  "join_ids ks = concat (map (\<lambda>k. show_nat k @ [comma]) (butlast ks)) @ show_nat (last ks)"

lemma write_labels_join: "ks \<noteq> [] \<Longrightarrow> write_labels ks = join_ids ks @ [newline]"
  by (induction ks rule: write_labels.induct) (auto simp: join_ids_def)

lemma getlines_join: "ks \<noteq> [] \<Longrightarrow> getlines comma (join_ids ks) = map show_nat ks"
proof (induction ks rule: write_labels.induct)
  case (2 k)
  then show ?case using show_nat_avoids [of k] by (simp add: join_ids_def getlines_last)
next
  case (3 k k' ks)
  have "join_ids (k # k' # ks) = show_nat k @ comma # join_ids (k' # ks)" by (simp add: join_ids_def)
  then show ?case using 3 show_nat_avoids [of k] by (simp add: getlines_piece)
qed simp

lemma join_avoids: "ks \<noteq> [] \<Longrightarrow> tab \<notin> set (join_ids ks) \<and> newline \<notin> set (join_ids ks)"
proof -
  have "tab \<notin> set (show_nat k)" "newline \<notin> set (show_nat k)" for k using show_nat_avoids [of k] by auto
  then show "ks \<noteq> [] \<Longrightarrow> tab \<notin> set (join_ids ks) \<and> newline \<notin> set (join_ids ks)"
    by (auto simp: join_ids_def)
qed

lemma parse_written_line:
  assumes "ks \<noteq> []" "\<forall>k \<in> set ks. k < 2 ^ w" "w \<le> 64"
  shows "parse_labels_line w (join_ids ks) = Inr (sort ks)"
proof -
  have t: "takeWhile (\<lambda>c. c \<noteq> tab) (join_ids ks) = join_ids ks"
    using join_avoids [OF assms(1)] by (auto simp: takeWhile_eq_all_conv)
  have "(2::nat) ^ w \<le> 2 ^ 64" using assms(3) by (intro power_increasing) auto
  then have "k < 2 ^ 64" if "k \<in> set ks" for k using assms(2) that by fastforce
  then have "mapR (\<lambda>t. bindR (stoul (strip_eol t)) (\<lambda>v. Inr (v mod 2 ^ w))) (map show_nat ks) = Inr (map (\<lambda>k. k) ks)"
    using assms(2) by (induction ks) (auto simp: stoul_show)
  then show ?thesis by (simp add: parse_labels_line_def t getlines_join [OF assms(1)])
qed

section \<open>The converter\<close>

text \<open>
  The map so far: distinct labels, distinct ids, every id at most the number of entries
  (so the next one, the number of entries plus one, is new).
\<close>

definition map_inv :: "(string \<times> nat) list \<Rightarrow> bool" where
  "map_inv m \<longleftrightarrow> distinct (map fst m) \<and> distinct (map snd m) \<and> (\<forall>k \<in> snd ` set m. k \<le> length m)"

definition extends :: "(string \<times> nat) list \<Rightarrow> (string \<times> nat) list \<Rightarrow> bool" where
  "extends m m' \<longleftrightarrow> (\<exists>r. m' = m @ r)"

lemma extends_refl [simp]: "extends m m"
  by (simp add: extends_def)

lemma extends_trans: "extends a b \<Longrightarrow> extends b c \<Longrightarrow> extends a c"
  by (auto simp: extends_def)

lemma extends_lookup:
  assumes "extends m m'" "map_of m t = Some k"
  shows "map_of m' t = Some k"
  using assms by (auto simp: extends_def map_of_append)

lemma label_id_spec:
  assumes "map_inv m" "length m < 2 ^ 32 - 1" "label_id t m = (k, m')"
  shows "map_inv m' \<and> extends m m' \<and> map_of m' t = Some k \<and> length m' \<le> Suc (length m)
     \<and> set (map fst m') = insert t (set (map fst m)) \<and> (\<forall>l. (l, 0) \<in> set m' \<longrightarrow> (l, 0) \<in> set m)"
proof (cases "map_of m t")
  case (Some j)
  then have "(t, j) \<in> set m" by (rule map_of_SomeD)
  then have "t \<in> fst ` set m" by force
  then show ?thesis using assms(1,3) Some by (auto simp: label_id_def)
next
  case None
  have n: "u32_add (u32 (length m)) 1 = length m + 1" using assms(2) by (simp add: u32_add_def)
  have m': "k = length m + 1" "m' = m @ [(t, k)]" using assms(3) None n by (auto simp: label_id_def Let_def)
  have "length m + 1 \<notin> snd ` set m"
  proof
    assume "length m + 1 \<in> snd ` set m"
    then have "length m + 1 \<le> length m" using assms(1) unfolding map_inv_def by blast
    then show False by simp
  qed
  moreover have "t \<notin> fst ` set m" using None by (simp add: map_of_eq_None_iff)
  ultimately show ?thesis
    using assms(1) m' None by (auto simp: map_inv_def extends_def map_of_append map_add_def le_SucI)
qed

lemma label_ids_spec:
  assumes "map_inv m" "length m + length ts < 2 ^ 32" "label_ids ts m = (ks, m')"
  shows "map_inv m' \<and> extends m m' \<and> map (\<lambda>t. map_of m' (strip_eol t)) ts = map Some ks \<and> length m' \<le> length m + length ts
     \<and> set (map fst m') = set (map fst m) \<union> strip_eol ` set ts \<and> (\<forall>l. (l, 0) \<in> set m' \<longrightarrow> (l, 0) \<in> set m)"
  using assms
proof (induction ts arbitrary: m ks)
  case Nil
  then show ?case by simp
next
  case (Cons t ts)
  obtain k m1 where k: "label_id (strip_eol t) m = (k, m1)" by (cases "label_id (strip_eol t) m")
  obtain ks' where r: "label_ids ts m1 = (ks', m')" "ks = k # ks'"
    using Cons.prems(3) k by (auto split: prod.splits)
  have s: "map_inv m1" "extends m m1" "map_of m1 (strip_eol t) = Some k" "length m1 \<le> Suc (length m)"
     "set (map fst m1) = insert (strip_eol t) (set (map fst m))" "\<forall>l. (l, 0) \<in> set m1 \<longrightarrow> (l, 0) \<in> set m"
    using label_id_spec [OF Cons.prems(1) _ k] Cons.prems(2) by simp_all
  have "length m1 + length ts < 2 ^ 32" using s(4) Cons.prems(2) by simp
  note i = Cons.IH [OF s(1) this r(1)]
  have e: "extends m m'" using s(2) i extends_trans by blast
  have "map_of m' (strip_eol t) = Some k" using s(3) i extends_lookup by blast
  moreover have "map_inv m'" "map (\<lambda>t. map_of m' (strip_eol t)) ts = map Some ks'" using i by simp_all
  moreover have "length m' \<le> length m + length (t # ts)" using s(4) i by simp
  moreover have "set (map fst m') = set (map fst m) \<union> strip_eol ` set (t # ts)" using s(5) i by simp
  moreover have "\<forall>l. (l, 0) \<in> set m' \<longrightarrow> (l, 0) \<in> set m" using s(6) i by blast
  ultimately show ?case using e r(2) by simp
qed

text \<open>A text file of lines of comma-separated labels.\<close>

definition plain_label :: "string \<Rightarrow> bool" where
  "plain_label l \<longleftrightarrow> l \<noteq> [] \<and> set l \<inter> {comma, newline, cr, tab} = {}"

definition join_labels :: "string list \<Rightarrow> string" where
  "join_labels ls = concat (map (\<lambda>l. l @ [comma]) (butlast ls)) @ last ls"

definition label_text :: "string list list \<Rightarrow> string" where
  "label_text rows = concat (map (\<lambda>r. join_labels r @ [newline]) rows)"

lemma getlines_join_labels: "ls \<noteq> [] \<Longrightarrow> \<forall>l \<in> set ls. plain_label l \<Longrightarrow> getlines comma (join_labels ls) = ls"
proof (induction ls rule: induct_list012)
  case (2 l)
  then show ?case by (simp add: join_labels_def plain_label_def getlines_last)
next
  case (3 l l' ls)
  have "join_labels (l # l' # ls) = l @ comma # join_labels (l' # ls)" by (simp add: join_labels_def)
  then show ?case using 3 by (simp add: plain_label_def getlines_piece)
qed simp

lemma join_labels_newline: "ls \<noteq> [] \<Longrightarrow> \<forall>l \<in> set ls. plain_label l \<Longrightarrow> newline \<notin> set (join_labels ls)"
  by (auto simp: join_labels_def plain_label_def dest: in_set_butlastD)

lemma plain_strip: "plain_label l \<Longrightarrow> strip_eol l = l"
  by (rule strip_eol_id) (auto simp: plain_label_def)

lemma convert_rows:
  assumes "map_inv m" "length m + length (concat rows) < 2 ^ 32"
    "\<forall>r \<in> set rows. r \<noteq> [] \<and> (\<forall>l \<in> set r. plain_label l)"
  shows "\<exists>iss m'. foldR convert_line (map join_labels rows) (out, m)
       = Inr (out @ concat (map (\<lambda>ks. join_ids ks @ [newline]) iss), m')
     \<and> map_inv m' \<and> extends m m' \<and> map (map Some) iss = map (map (map_of m')) rows
     \<and> length m' \<le> length m + length (concat rows) \<and> set (map fst m') = set (map fst m) \<union> set (concat rows)
     \<and> (\<forall>l. (l, 0) \<in> set m' \<longrightarrow> (l, 0) \<in> set m)"
  using assms
proof (induction rows arbitrary: out m)
  case Nil
  then show ?case by auto
next
  case (Cons r rows)
  obtain ks m1 where k: "label_ids r m = (ks, m1)" by (cases "label_ids r m")
  have st: "map strip_eol r = r" "strip_eol ` set r = set r" using Cons.prems(3) plain_strip by (auto intro: map_idI)
  have s: "map_inv m1" "extends m m1" "map (map_of m1) r = map Some ks" "length m1 \<le> length m + length r"
      "set (map fst m1) = set (map fst m) \<union> set r" "\<forall>l. (l, 0) \<in> set m1 \<longrightarrow> (l, 0) \<in> set m"
    using label_ids_spec [OF Cons.prems(1) _ k] Cons.prems(2) st
    by (auto simp: map_map [symmetric, unfolded comp_def] simp del: map_map)
  have "ks \<noteq> []" using s(3) Cons.prems(3) by (metis list.set_intros(1) map_is_Nil_conv)
  then have c: "convert_line (join_labels r) (out, m) = Inr ((out @ join_ids ks @ [newline]), m1)"
    using k Cons.prems(3) by (simp add: convert_line_def getlines_join_labels write_labels_join)
  obtain iss m' where i: "foldR convert_line (map join_labels rows) (out @ join_ids ks @ [newline], m1)
       = Inr ((out @ join_ids ks @ [newline]) @ concat (map (\<lambda>ks. join_ids ks @ [newline]) iss), m')"
     "map_inv m'" "extends m1 m'" "map (map Some) iss = map (map (map_of m')) rows"
     "length m' \<le> length m1 + length (concat rows)" "set (map fst m') = set (map fst m1) \<union> set (concat rows)"
     "\<forall>l. (l, 0) \<in> set m' \<longrightarrow> (l, 0) \<in> set m1"
    using Cons.IH [OF s(1), of "out @ join_ids ks @ [newline]"] Cons.prems(2,3) s(4) by auto
  have "map (map_of m') r = map Some ks"
  proof -
    have "map_of m' x = map_of m1 x" if "x \<in> set r" for x
    proof -
      have "map_of m1 x \<in> set (map Some ks)" unfolding s(3) [symmetric] using that by simp
      then obtain j where "map_of m1 x = Some j" by auto
      then show ?thesis using extends_lookup [OF i(3)] by simp
    qed
    then show ?thesis using s(3) by (metis map_cong)
  qed
  then have "map (map Some) (ks # iss) = map (map (map_of m')) (r # rows)" using i(4) by simp
  moreover have "foldR convert_line (map join_labels (r # rows)) (out, m)
       = Inr (out @ concat (map (\<lambda>ks. join_ids ks @ [newline]) (ks # iss)), m')" using c i(1) by simp
  moreover have "extends m m'" using s(2) i(3) by (rule extends_trans)
  moreover have "length m' \<le> length m + length (concat (r # rows))" using s(4) i(5) by simp
  moreover have "set (map fst m') = set (map fst m) \<union> set (concat (r # rows))" using s(5) i(6) by auto
  moreover have "\<forall>l. (l, 0) \<in> set m' \<longrightarrow> (l, 0) \<in> set m" using s(6) i(7) by blast
  ultimately show ?case using i(2) by blast
qed

lemma write_map_lines: "write_map m = concat (map (\<lambda>l. l @ [newline]) (map (\<lambda>(l, k). l @ [tab] @ show_nat k) m))"
  by (induction m) (auto simp: write_map_def)

lemma load_written_line:
  assumes "tab \<notin> set l" "k < 2 ^ w" "w \<le> 64"
  shows "load_label_line w (l @ [tab] @ show_nat k) = Inr (l, k)"
proof -
  have "(2::nat) ^ w \<le> 2 ^ 64" using assms(3) by (intro power_increasing) auto
  then have "k < 2 ^ 64" using assms(2) by linarith
  moreover have t: "takeWhile (\<lambda>c. c \<noteq> tab) (show_nat k) = show_nat k"
    using show_nat_avoids [of k] by (auto simp: takeWhile_eq_all_conv)
  moreover have "takeWhile (\<lambda>c. c \<noteq> tab) (l @ tab # s) = l" "dropWhile (\<lambda>c. c \<noteq> tab) (l @ tab # s) = tab # s" for s
    using assms(1) by (induction l) auto
  ultimately show ?thesis using assms(2) by (simp add: load_label_line_def stoul_show t)
qed

lemma load_written_map:
  assumes "\<forall>(l, k) \<in> set m. tab \<notin> set l \<and> newline \<notin> set l \<and> k < 2 ^ w" "w \<le> 64" "distinct (map fst m)"
  shows "load_label_map w (write_map m) = Inr (map_of m)"
proof -
  have "\<forall>x \<in> set (map (\<lambda>(l, k). l @ [tab] @ show_nat k) m). newline \<notin> set x"
    using assms(1) show_nat_avoids by fastforce
  then have g: "getlines newline (write_map m) = map (\<lambda>(l, k). l @ [tab] @ show_nat k) m"
    unfolding write_map_lines by (rule getlines_lines)
  define step where "step = (\<lambda>line m. bindR (load_label_line w line) (\<lambda>(l, v). Inr (m(l \<mapsto> v))))"
  have fl: "foldR step (map (\<lambda>(l, k). l @ [tab] @ show_nat k) m) f = Inr (f ++ map_of m)" for f
    using assms
  proof (induction m arbitrary: f)
    case Nil
    then show ?case by simp
  next
    case (Cons p m)
    obtain l k where p: "p = (l, k)" by (cases p)
    have l: "load_label_line w (l @ [tab] @ show_nat k) = Inr (l, k)"
      by (rule load_written_line) (use Cons.prems p in auto)
    have st: "step (l @ [tab] @ show_nat k) f = Inr (f(l \<mapsto> k))" unfolding step_def l by simp
    have "l \<notin> fst ` set m" using Cons.prems(3) p by simp
    then have up: "f(l \<mapsto> k) ++ map_of m = f ++ map_of (p # m)" by (simp add: p map_add_upd_left dom_map_of_conv_image_fst)
    have "foldR step (map (\<lambda>(l, k). l @ [tab] @ show_nat k) m) (f(l \<mapsto> k)) = Inr (f(l \<mapsto> k) ++ map_of m)"
      by (rule Cons.IH) (use Cons.prems in auto)
    then show ?case unfolding p list.map prod.case foldR.simps st bindR_simps up [unfolded p] .
  qed
  show ?thesis unfolding load_label_map_def g step_def [symmetric] fl by simp
qed

section \<open>Properties\<close>

text \<open>\<^bold>\<open>C36\<close> Converting a label file and reading the two files it produces back agree: the map file gives an
  injective numbering of the labels, the formatted file gives every point the sorted numbers of its own labels, and
  with a universal label that label is number 0 and no other label is. It holds for any order in which the hash map is
  written.\<close>

theorem label_files_roundtrip:
  assumes "\<forall>r \<in> set rows. r \<noteq> [] \<and> (\<forall>l \<in> set r. plain_label l)" "unv = [] \<or> plain_label unv"
    "Suc (length (concat rows)) < 2 ^ w" "w \<le> 32" "\<And>m. set (ord m) = set m \<and> length (ord m) = length m"
  shows "\<exists>lf mf f. convert_labels_string_to_int ord (label_text rows) unv = Inr (lf, mf)
     \<and> load_label_map w mf = Inr f \<and> dom f = set (concat rows) \<union> (if unv = [] then {} else {unv}) \<and> inj_on f (dom f)
     \<and> (\<forall>l. f l = Some 0 \<longleftrightarrow> unv \<noteq> [] \<and> l = unv)
     \<and> (\<exists>L n. parse_label_file w (Some lf) {} = Inr (map (\<lambda>r. sort (map (\<lambda>l. the (f l)) r)) rows, L, n))"
proof -
  define m0 where "m0 = (if unv \<noteq> [] then [(unv, 0::nat)] else [])"
  have i0: "map_inv m0" "length m0 \<le> 1" by (auto simp: m0_def map_inv_def)
  have pow: "(2::nat) ^ w \<le> 2 ^ 32" using assms(4) by (intro power_increasing) auto
  then have bound: "length m0 + length (concat rows) < 2 ^ 32" using i0(2) assms(3) by linarith
  obtain iss m where c: "foldR convert_line (map join_labels rows) ([], m0)
       = Inr (concat (map (\<lambda>ks. join_ids ks @ [newline]) iss), m)" "map_inv m" "extends m0 m"
      "map (map Some) iss = map (map (map_of m)) rows" "length m \<le> length m0 + length (concat rows)"
      "set (map fst m) = set (map fst m0) \<union> set (concat rows)" "\<forall>l. (l, 0) \<in> set m \<longrightarrow> (l, 0) \<in> set m0"
    using convert_rows [OF i0(1) bound assms(1), of "[]"] by auto
  let ?lf = "concat (map (\<lambda>ks. join_ids ks @ [newline]) iss)" and ?f = "map_of m"
  have "getlines newline (label_text rows) = map join_labels rows"
  proof -
    have "\<forall>l \<in> set (map join_labels rows). newline \<notin> set l" using assms(1) join_labels_newline by auto
    from getlines_lines [OF this] show ?thesis by (simp add: label_text_def comp_def)
  qed
  then have conv: "convert_labels_string_to_int ord (label_text rows) unv = Inr (?lf, write_map (ord m))"
    using c(1) by (simp add: convert_labels_string_to_int_def m0_def)
  have small: "k < 2 ^ w" if "k \<in> snd ` set m" for k
    using that c(2,5) i0(2) assms(3) unfolding map_inv_def by fastforce
  have dm: "distinct (map fst m)" "distinct (map snd m)" using c(2) by (simp_all add: map_inv_def)
  have dord: "distinct (map fst (ord m))"
    using dm(1) assms(5) [of m] by (metis card_distinct distinct_card length_map list.set_map)
  have "map_of (ord m) = ?f"
  proof -
    have "map_of (ord m) x = Some y \<longleftrightarrow> ?f x = Some y" for x y
      using assms(5) [of m] by (simp add: map_of_eq_Some_iff [OF dord] map_of_eq_Some_iff [OF dm(1)])
    then show ?thesis by (intro ext) (metis not_None_eq)
  qed
  moreover have "plain_label l" if "l \<in> fst ` set m" for l
    using that c(6) assms(1,2) by (auto simp: m0_def split: if_splits)
  then have "\<forall>(l, k) \<in> set (ord m). tab \<notin> set l \<and> newline \<notin> set l \<and> k < 2 ^ w"
    using small assms(5) [of m] by (force simp: plain_label_def)
  ultimately have load: "load_label_map w (write_map (ord m)) = Inr ?f"
    using load_written_map [OF _ _ dord] assms(4) by simp
  have rows_ids: "iss = map (map (\<lambda>l. the (?f l))) rows"
    using arg_cong [OF c(4), of "map (map the)"] by (simp add: comp_def)
  have ne: "ks \<noteq> []" "\<forall>k \<in> set ks. k < 2 ^ w" if ks: "ks \<in> set iss" for ks
  proof -
    obtain r where r: "r \<in> set rows" "map Some ks = map ?f r"
      using ks c(4) by (metis (no_types, lifting) image_iff list.set_map)
    show "ks \<noteq> []" using r assms(1) by fastforce
    show "\<forall>k \<in> set ks. k < 2 ^ w"
    proof
      fix k assume "k \<in> set ks"
      then have "Some k \<in> set (map ?f r)" unfolding r(2) [symmetric] by simp
      then obtain l where "?f l = Some k" by auto
      then have "(l, k) \<in> set m" by (rule map_of_SomeD)
      then show "k < 2 ^ w" using small by force
    qed
  qed
  have "\<forall>l \<in> set (map join_ids iss). newline \<notin> set l" using ne(1) join_avoids by auto
  from getlines_lines [OF this] have gl: "getlines newline ?lf = map join_ids iss" by (simp add: comp_def)
  have "parse_labels_line w (join_ids ks) = Inr (sort ks)" if "ks \<in> set iss" for ks
    using parse_written_line [OF ne [OF that]] assms(4) by simp
  then have pm: "mapR (parse_labels_line w) (map join_ids iss) = Inr (map sort iss)"
    by (induction iss) auto
  have srt: "map sort iss = map (\<lambda>r. sort (map (\<lambda>l. the (?f l)) r)) rows" by (simp add: rows_ids)
  have parse: "\<exists>L n. parse_label_file w (Some ?lf) {} = Inr (map (\<lambda>r. sort (map (\<lambda>l. the (?f l)) r)) rows, L, n)"
    by (simp add: parse_label_file_def gl pm srt del: getlines.simps)
  have "dom ?f = set (concat rows) \<union> (if unv = [] then {} else {unv})"
    using c(6) by (simp add: dom_map_of_conv_image_fst m0_def)
  moreover have "inj_on ?f (dom ?f)"
  proof (rule inj_onI)
    fix x y assume a: "x \<in> dom ?f" "y \<in> dom ?f" "?f x = ?f y"
    then obtain k where "(x, k) \<in> set m" "(y, k) \<in> set m" by (metis domD map_of_SomeD)
    then show "x = y" using dm(2) by (metis distinct_map inj_onD prod.inject snd_conv)
  qed
  moreover have "?f l = Some 0 \<longleftrightarrow> unv \<noteq> [] \<and> l = unv" for l
  proof
    assume "unv \<noteq> [] \<and> l = unv"
    then show "?f l = Some 0" using extends_lookup [OF c(3), of unv 0] by (simp add: m0_def)
  next
    assume l: "?f l = Some 0"
    then have "(l, 0) \<in> set m" by (rule map_of_SomeD)
    then have "(l, 0) \<in> set m0" using c(7) by blast
    then show "unv \<noteq> [] \<and> l = unv" by (auto simp: m0_def split: if_splits)
  qed
  ultimately show ?thesis using conv load parse by blast
qed

lemma label_files_roundtrip_witness:
  "\<exists>lf mf f. convert_labels_string_to_int rev (label_text [[''ab'', ''c''], [''c'', ''any'']]) ''any'' = Inr (lf, mf)
     \<and> load_label_map 16 mf = Inr f \<and> dom f = {''ab'', ''c'', ''any''} \<and> inj_on f (dom f)
     \<and> (\<forall>l. f l = Some 0 \<longleftrightarrow> ''any'' \<noteq> [] \<and> l = ''any'')
     \<and> (\<exists>L n. parse_label_file 16 (Some lf) {} = Inr (map (\<lambda>r. sort (map (\<lambda>l. the (f l)) r)) [[''ab'', ''c''], [''c'', ''any'']], L, n))"
  using label_files_roundtrip [of "[[''ab'', ''c''], [''c'', ''any'']]" "''any''" 16 rev]
  by (simp add: plain_label_def insert_commute)

lemma two_pointer_iff: "sorted inc \<Longrightarrow> sorted cur \<Longrightarrow> two_pointer inc cur \<longleftrightarrow> set inc \<inter> set cur \<noteq> {}"
proof (induction inc cur rule: two_pointer.induct)
  case (1 i inc c cur)
  consider "i < c" | "c < i" | "i = c" by linarith
  then show ?case
  proof cases
    case 1
    have "i \<notin> set (c # cur)" using 1 "1.prems"(2) by auto
    then show ?thesis using 1 "1.IH"(1) "1.prems" by auto
  next
    case 2
    have "c \<notin> set (i # inc)" using 2 "1.prems"(1) by auto
    then show ?thesis using 2 "1.IH"(2) "1.prems" by auto
  qed auto
qed simp_all

text \<open>\<^bold>\<open>C38\<close> On sorted label lists the two-pointer label test is exactly the intersection test, extended by the
  universal label: when building, a point or a query with the universal label matches everything; when searching, only
  a point with it does.\<close>

theorem detect_common_filters_iff:
  assumes "p < length labels" "sorted incoming" "sorted (labels ! p)"
  shows "detect_common_filters labels use_univ u p searching incoming = Inr
     (set incoming \<inter> set (labels ! p) \<noteq> {}
      \<or> use_univ \<and> (u \<in> set (labels ! p) \<or> \<not> searching \<and> u \<in> set incoming))"
  using two_pointer_iff [OF assms(2,3)] assms(1) by (auto simp: detect_common_filters_def)

lemma detect_common_filters_iff_witness:
  "detect_common_filters [[1, 4], [2, 3]] True 9 1 True [1, 3, 9] = Inr
     (set [1, 3, 9 :: nat] \<inter> set ([[1, 4], [2, 3]] ! 1) \<noteq> {}
      \<or> True \<and> ((9 :: nat) \<in> set ([[1, 4], [2, 3]] ! 1) \<or> \<not> True \<and> (9 :: nat) \<in> set [1, 3, 9]))"
  by (rule detect_common_filters_iff) simp_all

lemma in_labeled_points:
  "p \<in> set (labeled_points l2l labels u n x) \<longleftrightarrow>
     p < n \<and> ((x \<noteq> u \<and> x \<in> set (l2l ! p)) \<or> (u \<in> set (l2l ! p) \<and> x \<in> labels))"
  by (auto simp: labeled_points_def split: if_splits)

lemma try_medoid_best:
  assumes "pts \<noteq> []" "best_count = UINT32_MAX \<or> best \<in> set pts"
    "try_medoid rnd pts (k, counts, best_count, best) = (k', counts', best_count', best')"
  shows "best_count' = UINT32_MAX \<or> best' \<in> set pts"
proof -
  have "pts ! (rnd k mod length pts) \<in> set pts" using assms(1) by simp
  then show ?thesis using assms(2,3) by (auto simp: try_medoid_def Let_def split: if_splits option.splits)
qed

lemma try_medoids_best:
  assumes "pts \<noteq> []" "best_count = UINT32_MAX \<or> best \<in> set pts"
  shows "\<forall>k' counts' best_count' best'. (try_medoid rnd pts ^^ j) (k, counts, best_count, best) = (k', counts', best_count', best')
     \<longrightarrow> best_count' = UINT32_MAX \<or> best' \<in> set pts"
proof (induction j)
  case 0
  then show ?case using assms by simp
next
  case (Suc j)
  obtain a b c e where st: "(try_medoid rnd pts ^^ j) (k, counts, best_count, best) = (a, b, c, e)" by (metis prod_cases4)
  then have "c = UINT32_MAX \<or> e \<in> set pts" using Suc by blast
  then show ?case using try_medoid_best [OF assms(1)] st by simp
qed

text \<open>\<^bold>\<open>C39\<close> When a filtered index picks one start point per label, every label gets a start point, and that
  point is one of the loaded points and carries the label or the universal label, whatever the random numbers and the
  iteration order of the label set.\<close>

theorem label_start_points:
  assumes "choose_medoids ord rnd l2l labels u n counts = Inr (starts, counts')" "set (ord labels) = labels"
  shows "dom starts = labels \<and> (\<forall>x p. starts x = Some p \<longrightarrow> p < n \<and> (x \<in> set (l2l ! p) \<or> u \<in> set (l2l ! p)))"
proof -
  let ?pts = "labeled_points l2l labels u n"
  have fold: "dom s' = dom s \<union> set xs \<and> (\<forall>x p. s' x = Some p \<longrightarrow> p \<in> set (?pts x))"
    if "foldR (choose_medoid rnd ?pts) xs (k, c, s) = Inr (k', c', s')" "\<forall>x p. s x = Some p \<longrightarrow> p \<in> set (?pts x)"
    for xs k c s k' c' s'
    using that
  proof (induction xs arbitrary: k c s)
    case Nil
    then show ?case by simp
  next
    case (Cons x xs)
    obtain k1 c1 s1 where st: "choose_medoid rnd ?pts x (k, c, s) = Inr (k1, c1, s1)"
        "foldR (choose_medoid rnd ?pts) xs (k1, c1, s1) = Inr (k', c', s')"
      using Cons.prems(1) by (auto simp: bindR_eq_Inr)
    obtain a b bc e where m: "(try_medoid rnd (?pts x) ^^ num_cands) (k, c, UINT32_MAX, 0) = (a, b, bc, e)" by (metis prod_cases4)
    have ne: "?pts x \<noteq> []" using st(1) by (auto simp: choose_medoid_def)
    have bc: "bc \<noteq> UINT32_MAX" using st(1) m ne by (auto simp: choose_medoid_def)
    have s1: "s1 = s(x \<mapsto> e)" using st(1) m ne bc by (simp add: choose_medoid_def)
    have e: "e \<in> set (?pts x)"
      using try_medoids_best [OF ne, where best_count = UINT32_MAX and best = 0 and rnd = rnd and j = num_cands and k = k and counts = c]
        m bc by blast
    have "p \<in> set (?pts y)" if "s1 y = Some p" for y p
      using that e Cons.prems(2) by (cases "y = x") (simp_all add: s1)
    then have "\<forall>y p. s1 y = Some p \<longrightarrow> p \<in> set (?pts y)" by blast
    note IH = Cons.IH [OF st(2) this]
    have "dom s1 = insert x (dom s)" unfolding s1 by auto
    then show ?case using IH by simp
  qed
  obtain k c' where "foldR (choose_medoid rnd ?pts) (ord labels) (0, counts, Map.empty) = Inr (k, c', starts)"
    using assms(1) by (auto simp: choose_medoids_def bindR_eq_Inr split: if_splits)
  then have "dom starts = labels" "\<And>x p. starts x = Some p \<Longrightarrow> p \<in> set (?pts x)"
    using fold [of "ord labels" 0 counts Map.empty] assms(2) by auto
  then show ?thesis by (auto simp: in_labeled_points)
qed

lemma try_medoid_single:
  "(try_medoid rnd [0] ^^ Suc j) (0, Map.empty, UINT32_MAX, 0) = (Suc j, [0 \<mapsto> 0], 0, 0)"
  by (induction j) (auto simp: try_medoid_def UINT32_MAX_def)

lemma label_start_points_witness:
  "\<exists>starts counts'. choose_medoids sorted_list_of_set (\<lambda>k. k) [[1]] {1} 0 1 Map.empty = Inr (starts, counts')
     \<and> dom starts = {1} \<and> (\<forall>x p. starts x = Some p \<longrightarrow> p < 1 \<and> (x \<in> set ([[1]] ! p) \<or> 0 \<in> set ([[1]] ! p)))"
proof -
  have p: "labeled_points [[1]] {1} 0 1 1 = [0]" by (simp add: labeled_points_def)
  have "num_cands = Suc 24" by (simp add: num_cands_def)
  then have "\<exists>r. choose_medoids sorted_list_of_set (\<lambda>k. k) [[1]] {1} 0 1 Map.empty = Inr r"
    using try_medoid_single [where rnd = "\<lambda>k. k" and j = 24]
    by (simp add: choose_medoids_def choose_medoid_def p UINT32_MAX_def del: funpow.simps One_nat_def)
  then show ?thesis using label_start_points [of sorted_list_of_set "\<lambda>k. k" "[[1]]" "{1}" 0 1 Map.empty] by fastforce
qed

end
