(* ===== verification/Prune.thy ===== *)
theory Prune
  imports Search Mcgi
begin

text \<open>
  Choosing the out-neighbours of a node from a pool of candidates:
  \<^verbatim>\<open>Index::occlude_list\<close> and the two \<^verbatim>\<open>Index::prune_neighbors\<close> of
  \<^verbatim>\<open>src/index.cpp\<close>, with the alpha that \<^verbatim>\<open>hpdic_mcgi\<close> supplies. The
  loop over \<^verbatim>\<open>cur_alpha\<close> does not end for an infinite alpha, so it is given fuel; the
  theorems show that the fuel is enough for every finite alpha.
\<close>

section \<open>Occlusion\<close>

datatype metric = L2 | INNER_PRODUCT | COSINE | FAST_L2

text \<open>What pruning reads of the index.\<close>

record prune_env =
  pe_dist :: "nat \<Rightarrow> nat \<Rightarrow> fl result"     \<comment> \<open>\<^verbatim>\<open>_data_store->get_distance(loc1, loc2)\<close>\<close>
  pe_metric :: metric
  pe_filtered :: bool                    \<comment> \<open>\<^verbatim>\<open>_filtered_index\<close>\<close>
  pe_labels :: "nat list list"           \<comment> \<open>\<^verbatim>\<open>_location_to_labels\<close>\<close>
  pe_saturate :: bool
  pe_pq_dist :: bool
  pe_range :: nat                        \<comment> \<open>\<^verbatim>\<open>_indexingRange\<close>\<close>
  pe_maxc :: nat                         \<comment> \<open>\<^verbatim>\<open>_indexingMaxC\<close>\<close>
  pe_alpha :: fl                         \<comment> \<open>\<^verbatim>\<open>_indexingAlpha\<close>\<close>
  pe_mcgi :: mcgi_context                \<comment> \<open>\<^verbatim>\<open>g_mcgi_ctx\<close>\<close>
  pe_libm :: libm

text \<open>Whether an edge to \<open>b\<close> may be left out because of \<open>a\<close>: \<open>a\<close> must carry all labels of \<open>b\<close>.\<close>

definition labels_allow :: "prune_env \<Rightarrow> nat \<Rightarrow> nat \<Rightarrow> bool result" where
  "labels_allow env a b =
     (if \<not> pe_filtered env then Inr True
      else if length (pe_labels env) < b \<or> length (pe_labels env) < a then Inr False
      else bindR (vec_at (pe_labels env) b) (\<lambda>lb.
           if lb = [] then Inr True
           else bindR (vec_at (pe_labels env) a) (\<lambda>la. Inr (\<forall>x \<in> set lb. x \<in> set la))))"

text \<open>The new occlusion factor of the entry \<open>y\<close> after the entry \<open>x\<close> has been chosen.\<close>

definition occlude_one :: "prune_env \<Rightarrow> fl \<Rightarrow> fl \<Rightarrow> neighbor \<Rightarrow> neighbor \<times> fl \<Rightarrow> fl result" where
  "occlude_one env alpha cur_alpha x = (\<lambda>(y, f).
     if fl_lt alpha f then Inr f
     else bindR (labels_allow env (nbr_id x) (nbr_id y)) (\<lambda>prune_allowed.
       if \<not> prune_allowed then Inr f
       else bindR (pe_dist env (nbr_id y) (nbr_id x)) (\<lambda>djk.
         if pe_metric env = L2 \<or> pe_metric env = COSINE
         then Inr (if fl_eq djk (Fin 0) then FLT_MAX else fl_max f (fl_div F32 (nbr_dist y) djk))
         else if pe_metric env = INNER_PRODUCT
         then Inr (if fl_lt (fl_mul F32 cur_alpha (fl_neg (nbr_dist y))) (fl_neg djk)
                   then fl_max f (fl_add F32 cur_alpha (f32 (1 / 100))) else f)
         else Inr f)))"

definition occlude_rest :: "prune_env \<Rightarrow> fl \<Rightarrow> fl \<Rightarrow> neighbor list \<Rightarrow> nat \<Rightarrow> fl list \<Rightarrow> fl list result" where
  "occlude_rest env alpha cur_alpha pool i fs =
     bindR (mapR (occlude_one env alpha cur_alpha (pool ! i)) (zip (drop (i + 1) pool) (drop (i + 1) fs))) (\<lambda>r.
       Inr (take (i + 1) fs @ r))"

text \<open>One round over the pool at a fixed \<^verbatim>\<open>cur_alpha\<close>.\<close>

definition chosen :: "nat \<Rightarrow> nat set option \<Rightarrow> nat \<Rightarrow> bool" where
  "chosen location del i \<longleftrightarrow> (case del of None \<Rightarrow> True | Some D \<Rightarrow> i \<notin> D) \<and> i \<noteq> location"

function occlude_pass ::
  "prune_env \<Rightarrow> nat \<Rightarrow> fl \<Rightarrow> nat \<Rightarrow> nat set option \<Rightarrow> fl \<Rightarrow> neighbor list \<Rightarrow> nat \<Rightarrow> nat list \<times> fl list
     \<Rightarrow> (nat list \<times> fl list) result" where
  "occlude_pass env location alpha degree del cur_alpha pool i (result, fs) =
     (if length result < degree \<and> i < length pool then
        if fl_lt cur_alpha (fs ! i) then occlude_pass env location alpha degree del cur_alpha pool (i + 1) (result, fs)
        else
          let result' = (if chosen location del (nbr_id (pool ! i)) then result @ [nbr_id (pool ! i)] else result)
          in bindR (occlude_rest env alpha cur_alpha pool i (fs[i := FLT_MAX])) (\<lambda>fs'.
               occlude_pass env location alpha degree del cur_alpha pool (i + 1) (result', fs'))
      else Inr (result, fs))"
  by pat_completeness auto
termination
  by (relation "measure (\<lambda>(env, location, alpha, degree, del, cur_alpha, pool, i, st). length pool - i)") auto

declare occlude_pass.simps [simp del]

fun occlude_rounds ::
  "nat \<Rightarrow> prune_env \<Rightarrow> nat \<Rightarrow> fl \<Rightarrow> nat \<Rightarrow> nat set option \<Rightarrow> fl \<Rightarrow> neighbor list \<Rightarrow> nat list \<times> fl list
     \<Rightarrow> (nat list \<times> fl list) result" where
  "occlude_rounds fuel env location alpha degree del cur_alpha pool st =
     (if fl_le cur_alpha alpha \<and> length (fst st) < degree then
        (case fuel of 0 \<Rightarrow> Inl OutOfFuel
         | Suc fuel' \<Rightarrow>
             bindR (occlude_pass env location alpha degree del cur_alpha pool 0 st) (\<lambda>st'.
               occlude_rounds fuel' env location alpha degree del (fl_mul F32 cur_alpha (f32 (12 / 10))) pool st'))
      else Inr st)"

declare occlude_rounds.simps [simp del]

definition alpha_rounds :: nat where
  "alpha_rounds = 1100"

text \<open>
  \<^verbatim>\<open>occlude_list\<close> changes the pool (it cuts it off at \<open>maxc\<close>), appends to the result and
  overwrites the occlusion factors of the scratch space.
\<close>

definition occlude_list ::
  "prune_env \<Rightarrow> nat \<Rightarrow> neighbor list \<Rightarrow> fl \<Rightarrow> nat \<Rightarrow> nat \<Rightarrow> nat list \<Rightarrow> 'a scratch \<Rightarrow> nat set option
     \<Rightarrow> (neighbor list \<times> nat list \<times> 'a scratch) result" where
  "occlude_list env location pool alpha degree maxc result s del =
     (if pool = [] then Inr (pool, result, s)
      else let pool' = (if maxc < length pool then take maxc pool else pool) in
        bindR (occlude_rounds alpha_rounds env location alpha degree del (Fin 1) pool'
                 (result, replicate (length pool') (Fin 0))) (\<lambda>(result', fs).
          Inr (pool', result', s\<lparr>sc_occlude := fs\<rparr>)))"

section \<open>Pruning\<close>

text \<open>
  The alpha of the advanced mode, estimated from the pool; the source computes it in an inner
  variable \<^verbatim>\<open>alpha\<close> that shadows the one it goes on to use.
\<close>

definition log_ratio_sum :: "libm \<Rightarrow> fl \<Rightarrow> fl list \<Rightarrow> fl" where
  "log_ratio_sum M max_dist_sq ds =
     foldl (\<lambda>acc d. fl_add F64 acc (lm_log M (fl_div F32 max_dist_sq
              (if fl_lt d (f32 (1 / 10 ^ 9)) then f32 (1 / 10 ^ 9) else d)))) (Fin 0) ds"

definition amcgi_alpha :: "libm \<Rightarrow> mcgi_context \<Rightarrow> neighbor list \<Rightarrow> fl" where
  "amcgi_alpha M ctx pool =
     (if \<not> (mc_enabled ctx \<and> 5 < length pool) then f32 (12 / 10)
      else let lid_k = min 32 (length pool);
               max_dist_sq = nbr_dist (pool ! (lid_k - 1))
        in if \<not> fl_lt (f32 (1 / 10 ^ 9)) max_dist_sq then f32 (12 / 10)
        else let sum = log_ratio_sum M max_dist_sq (map nbr_dist (take lid_k pool));
                 current_lid = (if fl_lt (f64 (1 / 10 ^ 6)) sum
                   then fl_conv F32 (fl_div F64 (fl_mul F64 (Fin 2) (Fin (of_nat lid_k))) sum) else Fin 0)
        in if \<not> fl_lt (Fin 0) current_lid then f32 (12 / 10)
        else alpha_of (mc_alpha_min ctx) (mc_alpha_max ctx)
               (sigmoid M (fl_div F32 (fl_sub F32 current_lid (mc_lid_avg ctx)) (mc_lid_std ctx))))"

definition current_alpha :: "prune_env \<Rightarrow> nat \<Rightarrow> neighbor list \<Rightarrow> fl" where
  "current_alpha env location pool =
     (let ctx = pe_mcgi env in
      if IsMCGIAdvanced ctx then
        let alpha = f32 (12 / 10);
            shadowed = (if mc_enabled ctx \<and> pool \<noteq> [] then amcgi_alpha (pe_libm env) ctx pool else alpha)
        in alpha
      else if IsMCGIEnabled ctx then GetGlobalMCGIAlpha ctx location
      else pe_alpha env)"

text \<open>\<^verbatim>\<open>std::sort\<close> by \<^verbatim>\<open>operator<\<close>, which is no strict weak order on NaN.\<close>

definition sort_pool :: "neighbor list \<Rightarrow> neighbor list result" where
  "sort_pool pool = (if \<exists>x \<in> set pool. nbr_dist x = NaN then Inl UndefinedBehaviour else Inr (sort_key nbr_key pool))"

fun saturate :: "nat \<Rightarrow> nat \<Rightarrow> neighbor list \<Rightarrow> nat list \<Rightarrow> nat list" where
  "saturate rng location [] out = out"
| "saturate rng location (x # pool) out =
     (if rng \<le> length out then out
      else saturate rng location pool
             (if nbr_id x \<notin> set out \<and> nbr_id x \<noteq> location then out @ [nbr_id x] else out))"

definition prune_neighbors_with ::
  "prune_env \<Rightarrow> nat \<Rightarrow> neighbor list \<Rightarrow> nat \<Rightarrow> nat \<Rightarrow> fl \<Rightarrow> 'a scratch \<Rightarrow> (neighbor list \<times> nat list \<times> 'a scratch) result" where
  "prune_neighbors_with env location pool rng max_candidate_size alpha s =
     (if pool = [] then Inr ([], [], s)
      else bindR (if pe_pq_dist env
                  then mapR (\<lambda>x. bindR (pe_dist env (nbr_id x) location) (\<lambda>d. Inr (x\<lparr>nbr_dist := d\<rparr>))) pool
                  else Inr pool) (\<lambda>pool1.
           bindR (sort_pool pool1) (\<lambda>pool2.
           bindR (occlude_list env location pool2 alpha rng max_candidate_size [] s None) (\<lambda>(pool3, out, s').
             Inr (pool3, if pe_saturate env \<and> fl_lt (Fin 1) alpha then saturate rng location pool3 out else out, s')))))"

definition prune_neighbors ::
  "prune_env \<Rightarrow> nat \<Rightarrow> neighbor list \<Rightarrow> 'a scratch \<Rightarrow> (neighbor list \<times> nat list \<times> 'a scratch) result" where
  "prune_neighbors env location pool s =
     prune_neighbors_with env location pool (pe_range env) (pe_maxc env) (current_alpha env location pool) s"

section \<open>Occlusion factors\<close>

text \<open>Why the factor of \<open>y\<close> may be \<open>f\<close>: the chosen entry \<open>x\<close> put it there.\<close>

definition reason :: "prune_env \<Rightarrow> neighbor \<Rightarrow> neighbor \<Rightarrow> fl \<Rightarrow> bool" where
  "reason env x y f \<longleftrightarrow> labels_allow env (nbr_id x) (nbr_id y) = Inr True
     \<and> (\<exists>djk. pe_dist env (nbr_id y) (nbr_id x) = Inr djk
         \<and> (if pe_metric env = L2 \<or> pe_metric env = COSINE
            then (djk = Fin 0 \<and> f = FLT_MAX) \<or> f = fl_div F32 (nbr_dist y) djk
            else pe_metric env = INNER_PRODUCT
              \<and> (\<exists>c. fl_lt (fl_mul F32 c (fl_neg (nbr_dist y))) (fl_neg djk) \<and> f = fl_add F32 c (f32 (1 / 100)))))"

definition occl_ok :: "prune_env \<Rightarrow> neighbor list \<Rightarrow> bool" where
  "occl_ok env pool \<longleftrightarrow> (\<forall>x \<in> set pool. \<forall>y \<in> set pool.
     ok (pe_dist env (nbr_id y) (nbr_id x)) \<and> ok (labels_allow env (nbr_id x) (nbr_id y)))"

lemma fl_max_cases: "fl_max a b = a \<or> (fl_max a b = b \<and> b \<noteq> NaN)"
  by (simp add: fl_max_def fl_lt_def)

lemma occlude_one_spec:
  assumes "ok (pe_dist env (nbr_id y) (nbr_id x))" "ok (labels_allow env (nbr_id x) (nbr_id y))" "f \<noteq> NaN"
  shows "\<exists>f'. occlude_one env alpha cur x (y, f) = Inr f' \<and> (f' = f \<or> reason env x y f') \<and> f' \<noteq> NaN
     \<and> (fl_lt alpha f \<longrightarrow> f' = f)"
proof -
  obtain djk where djk: "pe_dist env (nbr_id y) (nbr_id x) = Inr djk" using assms(1) by (auto simp: ok_iff)
  obtain b where b: "labels_allow env (nbr_id x) (nbr_id y) = Inr b" using assms(2) by (auto simp: ok_iff)
  show ?thesis
  proof (cases "fl_lt alpha f \<or> \<not> b")
    case True
    then show ?thesis using b djk assms(3) by (auto simp: occlude_one_def)
  next
    case False
    consider "pe_metric env = L2 \<or> pe_metric env = COSINE" "djk = Fin 0"
      | "pe_metric env = L2 \<or> pe_metric env = COSINE" "djk \<noteq> Fin 0"
      | "pe_metric env = INNER_PRODUCT" | "pe_metric env = FAST_L2" by (cases "pe_metric env") auto
    then show ?thesis
    proof cases
      case 1
      then show ?thesis using False b djk by (auto simp: occlude_one_def reason_def)
    next
      case 2
      then show ?thesis
        using False b djk assms(3) fl_max_cases [of f "fl_div F32 (nbr_dist y) djk"]
        by (auto simp: occlude_one_def reason_def fl_eq_def)
    next
      case 3
      then show ?thesis
        using False b djk assms(3) fl_max_cases [of f "fl_add F32 cur (f32 (1 / 100))"]
        by (auto simp: occlude_one_def reason_def)
    next
      case 4
      then show ?thesis using False b djk assms(3) by (auto simp: occlude_one_def)
    qed
  qed
qed

lemma occlude_rest_spec:
  assumes "occl_ok env pool" "length fs = length pool" "\<forall>f \<in> set fs. f \<noteq> NaN" "i < length pool"
  shows "\<exists>fs'. occlude_rest env alpha cur pool i fs = Inr fs' \<and> length fs' = length pool \<and> (\<forall>f \<in> set fs'. f \<noteq> NaN)
     \<and> (\<forall>t \<le> i. fs' ! t = fs ! t)
     \<and> (\<forall>t. i < t \<and> t < length pool \<longrightarrow> (fs' ! t = fs ! t \<or> reason env (pool ! i) (pool ! t) (fs' ! t))
          \<and> (fl_lt alpha (fs ! t) \<longrightarrow> fs' ! t = fs ! t))"
proof -
  let ?g = "\<lambda>p. SOME f'. occlude_one env alpha cur (pool ! i) p = Inr f'"
  let ?zs = "zip (drop (i + 1) pool) (drop (i + 1) fs)"
  have spec: "\<exists>f'. occlude_one env alpha cur (pool ! i) (pool ! t, fs ! t) = Inr f'
      \<and> (f' = fs ! t \<or> reason env (pool ! i) (pool ! t) f') \<and> f' \<noteq> NaN \<and> (fl_lt alpha (fs ! t) \<longrightarrow> f' = fs ! t)"
    if "t < length pool" for t
    using occlude_one_spec assms that by (simp add: occl_ok_def)
  have z: "?zs ! k = (pool ! (i + 1 + k), fs ! (i + 1 + k))" if "k < length ?zs" for k
    using that assms(2) by simp
  have g: "occlude_one env alpha cur (pool ! i) p = Inr (?g p)" if p: "p \<in> set ?zs" for p
  proof -
    obtain k where k: "k < length ?zs" "p = ?zs ! k" using p by (auto simp: in_set_conv_nth)
    have "k < length pool - Suc i" using k(1) by simp
    then have "i + 1 + k < length pool" by arith
    then have "\<exists>f'. occlude_one env alpha cur (pool ! i) p = Inr f'"
      using spec [of "i + 1 + k"] unfolding k(2) z [OF k(1)] by blast
    then show ?thesis by (rule someI_ex)
  qed
  then have m: "mapR (occlude_one env alpha cur (pool ! i)) ?zs = Inr (map ?g ?zs)" by (intro mapR_total) blast
  let ?fs = "take (i + 1) fs @ map ?g ?zs"
  have e: "occlude_rest env alpha cur pool i fs = Inr ?fs" by (simp only: occlude_rest_def m bindR_simps)
  have len: "length ?fs = length pool" using assms(2,4) by simp
  have lo: "?fs ! t = fs ! t" if "t \<le> i" for t using that assms(2,4) by (simp add: nth_append)
  have hi: "occlude_one env alpha cur (pool ! i) (pool ! t, fs ! t) = Inr (?fs ! t)" if "i < t" "t < length pool" for t
  proof -
    have k: "t - (i + 1) < length ?zs" "?zs ! (t - (i + 1)) = (pool ! t, fs ! t)" using that assms(2) by auto
    have "length (take (i + 1) fs) = i + 1" using assms(2,4) by simp
    then have "?fs ! t = map ?g ?zs ! (t - (i + 1))" using that by (simp only: nth_append) simp
    then have "?fs ! t = ?g (pool ! t, fs ! t)" using k by simp
    moreover have "occlude_one env alpha cur (pool ! i) (pool ! t, fs ! t) = Inr (?g (pool ! t, fs ! t))"
      using g [OF nth_mem [OF k(1)]] unfolding k(2) .
    ultimately show ?thesis by simp
  qed
  have nn: "\<forall>f \<in> set ?fs. f \<noteq> NaN"
  proof
    fix f assume "f \<in> set ?fs"
    then obtain t where t: "t < length pool" "f = ?fs ! t" using len by (metis in_set_conv_nth)
    show "f \<noteq> NaN"
      using spec [OF t(1)] hi [of t] lo [of t] t assms(2,3) by (cases "t \<le> i") (auto simp: not_le)
  qed
  have "\<forall>t. i < t \<and> t < length pool \<longrightarrow> (?fs ! t = fs ! t \<or> reason env (pool ! i) (pool ! t) (?fs ! t))
          \<and> (fl_lt alpha (fs ! t) \<longrightarrow> ?fs ! t = fs ! t)"
  proof (intro allI impI)
    fix t assume t: "i < t \<and> t < length pool"
    obtain f' where f': "occlude_one env alpha cur (pool ! i) (pool ! t, fs ! t) = Inr f'"
        "f' = fs ! t \<or> reason env (pool ! i) (pool ! t) f'" "fl_lt alpha (fs ! t) \<longrightarrow> f' = fs ! t"
      using spec [of t] t by blast
    have "f' = ?fs ! t" using hi [OF conjunct1 [OF t] conjunct2 [OF t]] unfolding f'(1) by (rule Inr_inject)
    then show "(?fs ! t = fs ! t \<or> reason env (pool ! i) (pool ! t) (?fs ! t)) \<and> (fl_lt alpha (fs ! t) \<longrightarrow> ?fs ! t = fs ! t)"
      using f'(2,3) by (simp only:)
  qed
  then show ?thesis using e len nn lo by blast
qed

section \<open>Rounds\<close>

text \<open>\<open>S\<close> is the set of positions taken so far.\<close>

definition occl_inv :: "prune_env \<Rightarrow> nat \<Rightarrow> nat set option \<Rightarrow> neighbor list \<Rightarrow> nat set \<Rightarrow> nat list \<times> fl list \<Rightarrow> bool" where
  "occl_inv env location del pool S = (\<lambda>(result, fs).
     length fs = length pool \<and> S \<subseteq> {..<length pool} \<and> (\<forall>i \<in> S. fs ! i = FLT_MAX) \<and> (\<forall>f \<in> set fs. f \<noteq> NaN)
   \<and> set result = {nbr_id (pool ! i) | i. i \<in> S \<and> chosen location del (nbr_id (pool ! i))} \<and> distinct result
   \<and> (\<forall>t < length pool. t \<notin> S \<longrightarrow> fs ! t = Fin 0 \<or> (\<exists>i \<in> S. i < t \<and> reason env (pool ! i) (pool ! t) (fs ! t))))"

lemma occl_invD:
  assumes "occl_inv env location del pool S (result, fs)"
  shows "length fs = length pool" "S \<subseteq> {..<length pool}" "\<And>i. i \<in> S \<Longrightarrow> fs ! i = FLT_MAX" "\<forall>f \<in> set fs. f \<noteq> NaN"
    "set result = {nbr_id (pool ! i) | i. i \<in> S \<and> chosen location del (nbr_id (pool ! i))}" "distinct result"
    "\<And>t. t < length pool \<Longrightarrow> t \<notin> S \<Longrightarrow> fs ! t = Fin 0 \<or> (\<exists>i \<in> S. i < t \<and> reason env (pool ! i) (pool ! t) (fs ! t))"
  using assms by (auto simp: occl_inv_def)

lemma occl_inv_take:
  assumes inv: "occl_inv env location del pool S (result, fs)" and ok: "occl_ok env pool"
    and dist: "distinct (map nbr_id pool)" and i: "i < length pool" "i \<notin> S" and alpha: "fl_lt alpha FLT_MAX"
  shows "\<exists>fs'. occlude_rest env alpha cur pool i (fs[i := FLT_MAX]) = Inr fs'
     \<and> occl_inv env location del pool (insert i S)
         (if chosen location del (nbr_id (pool ! i)) then result @ [nbr_id (pool ! i)] else result, fs')
     \<and> (\<forall>t < i. fs' ! t = fs ! t)"
proof -
  note I = occl_invD [OF inv]
  let ?fs = "fs[i := FLT_MAX]"
  let ?r = "if chosen location del (nbr_id (pool ! i)) then result @ [nbr_id (pool ! i)] else result"
  have "\<forall>f \<in> set ?fs. f \<noteq> NaN"
    using I(4) set_update_subset_insert [of fs i FLT_MAX] FLT_MAX_not_NaN by (metis insert_iff subsetD)
  then obtain fs' where r: "occlude_rest env alpha cur pool i ?fs = Inr fs'" "length fs' = length pool"
      "\<forall>f \<in> set fs'. f \<noteq> NaN" "\<forall>t \<le> i. fs' ! t = ?fs ! t"
      "\<forall>t. i < t \<and> t < length pool \<longrightarrow> (fs' ! t = ?fs ! t \<or> reason env (pool ! i) (pool ! t) (fs' ! t))
          \<and> (fl_lt alpha (?fs ! t) \<longrightarrow> fs' ! t = ?fs ! t)"
    using occlude_rest_spec [OF ok, of ?fs i alpha cur] I(1) i(1) by auto
  have lower: "fs' ! t = fs ! t" if "t < i" for t using r(4) that by simp
  have at_i: "fs' ! i = FLT_MAX" using r(4) i(1) I(1) by simp
  have upper: "fs' ! t = fs ! t \<or> reason env (pool ! i) (pool ! t) (fs' ! t)" if "i < t" "t < length pool" for t
    using r(5) that by auto
  have keep: "fs' ! t = FLT_MAX" if "t \<in> insert i S" for t
  proof -
    consider "t = i" | "t < i" | "i < t" by linarith
    then show ?thesis
    proof cases
      case 3
      have "?fs ! t = FLT_MAX" using 3 that I(3) by auto
      then show ?thesis using r(5) 3 that I(2) alpha by auto
    qed (use that at_i lower I(3) in auto)
  qed
  have fresh: "nbr_id (pool ! i) \<notin> set result"
  proof
    assume "nbr_id (pool ! i) \<in> set result"
    then obtain j where j: "j \<in> S" "nbr_id (pool ! j) = nbr_id (pool ! i)" using I(5) by auto
    then have "j < length pool" using I(2) by auto
    then have "j = i" using dist j(2) i(1) by (metis length_map nth_eq_iff_index_eq nth_map)
    then show False using j(1) i(2) by simp
  qed
  have why: "fs' ! t = Fin 0 \<or> (\<exists>k \<in> insert i S. k < t \<and> reason env (pool ! k) (pool ! t) (fs' ! t))"
    if t: "t < length pool" "t \<notin> insert i S" for t
  proof -
    consider "fs' ! t = fs ! t" | "i < t" "reason env (pool ! i) (pool ! t) (fs' ! t)"
      using upper [of t] lower [of t] t by (cases "t < i") auto
    then show ?thesis
    proof cases
      case 1
      then show ?thesis using I(7) [of t] t by auto
    qed auto
  qed
  have "set ?r = {nbr_id (pool ! k) | k. k \<in> insert i S \<and> chosen location del (nbr_id (pool ! k))}"
    using I(5) by auto
  moreover have "distinct ?r" using I(6) fresh by simp
  ultimately have "occl_inv env location del pool (insert i S) (?r, fs')"
    unfolding occl_inv_def using r(2,3) I(2) i(1) keep why by auto
  then show ?thesis using r(1) lower by blast
qed

lemma occlude_pass_spec:
  assumes "occl_inv env location del pool S (result, fs)" "occl_ok env pool" "distinct (map nbr_id pool)"
    "fl_lt alpha FLT_MAX" "fl_le cur alpha" "length result \<le> degree"
    "\<forall>t < i. t < length pool \<and> t \<notin> S \<longrightarrow> fl_lt cur (fs ! t)"
  shows "\<exists>result' fs' S' more. occlude_pass env location alpha degree del cur pool i (result, fs) = Inr (result', fs')
     \<and> occl_inv env location del pool S' (result', fs') \<and> S \<subseteq> S' \<and> result' = result @ more \<and> length result' \<le> degree
     \<and> (length result' < degree \<longrightarrow> (\<forall>t < length pool. t \<notin> S' \<longrightarrow> fl_lt cur (fs' ! t)))"
  using assms
proof (induction env location alpha degree del cur pool i "(result, fs)" arbitrary: result fs S rule: occlude_pass.induct)
  case (1 env location alpha degree del cur pool i result fs)
  note unf = occlude_pass.simps [of env location alpha degree del cur pool i result fs]
  note I = occl_invD [OF "1.prems"(1)]
  show ?case
  proof (cases "length result < degree \<and> i < length pool")
    case False
    then show ?thesis using 1 by (auto simp: unf)
  next
    case True
    have cm: "fl_lt cur FLT_MAX" using "1.prems"(4,5) by (auto simp: fl_lt_def fl_le_def)
    show ?thesis
    proof (cases "fl_lt cur (fs ! i)")
      case skip: True
      have "\<forall>t < i + 1. t < length pool \<and> t \<notin> S \<longrightarrow> fl_lt cur (fs ! t)"
        using "1.prems"(7) skip by (auto simp: less_Suc_eq)
      from "1.hyps"(1) [OF True skip "1.prems"(1-6) this] show ?thesis
        using True skip by (simp add: unf)
    next
      case take: False
      have iS: "i \<notin> S" using I(3) [of i] cm take by auto
      let ?r = "if chosen location del (nbr_id (pool ! i)) then result @ [nbr_id (pool ! i)] else result"
      obtain fs' where f: "occlude_rest env alpha cur pool i (fs[i := FLT_MAX]) = Inr fs'"
          "occl_inv env location del pool (insert i S) (?r, fs')" "\<forall>t < i. fs' ! t = fs ! t"
        using occl_inv_take [OF "1.prems"(1-3) _ iS "1.prems"(4)] True by blast
      have "\<forall>t < i + 1. t < length pool \<and> t \<notin> insert i S \<longrightarrow> fl_lt cur (fs' ! t)"
        using "1.prems"(7) f(3) by (auto simp: less_Suc_eq)
      moreover have "length ?r \<le> degree" using True by simp
      ultimately obtain result' fs'' S' more where h:
          "occlude_pass env location alpha degree del cur pool (i + 1) (?r, fs') = Inr (result', fs'')"
          "occl_inv env location del pool S' (result', fs'')" "insert i S \<subseteq> S'" "result' = ?r @ more"
          "length result' \<le> degree"
          "length result' < degree \<longrightarrow> (\<forall>t < length pool. t \<notin> S' \<longrightarrow> fl_lt cur (fs'' ! t))"
        using "1.hyps"(2) [OF True take refl f(1,2) "1.prems"(2-5)] by blast
      have "occlude_pass env location alpha degree del cur pool i (result, fs) = Inr (result', fs'')"
        using True take f(1) h(1) by (simp add: unf Let_def)
      moreover have "\<exists>more. result' = result @ more" using h(4) by auto
      ultimately show ?thesis using h by blast
    qed
  qed
qed

text \<open>The growth of \<^verbatim>\<open>cur_alpha\<close> bounds the number of rounds.\<close>

definition grown :: "nat \<Rightarrow> fl \<Rightarrow> bool" where
  "grown n cur \<longleftrightarrow> cur = PInf \<or> (\<exists>c. cur = Fin c \<and> 1.1 ^ n \<le> c)"

lemma alpha_step: "\<exists>b. f32 (12 / 10) = Fin b \<and> 1.15 \<le> b"
proof -
  have "(1::rat) \<le> 2 powi emax F32" by (rule one_le_power_int) simp_all
  moreover have "(2::rat) powi 1 \<le> 2 powi emax F32" by (intro power_int_increasing) auto
  ultimately have "\<bar>12 / 10\<bar> \<le> (2::rat) powi emax F32" by simp
  then obtain b where b: "round_fl F32 (12 / 10) = Fin b" using round_fl_finite by blast
  have "b \<ge> 12 / 10 * (1 - 2 powi (- 24))" by (rule round_fl_close(1) [OF _ b]) simp
  moreover have small: "x \<le> 1 / 32 \<Longrightarrow> 12 / 10 * (1 - x) \<le> b \<Longrightarrow> 1.15 \<le> b" for x :: rat
    by (simp add: field_simps)
  moreover have "(2::rat) powi (- 24) \<le> 2 powi (- 5)" by (intro power_int_increasing) auto
  moreover have "(2::rat) powi (- 5) = 1 / 32" by (simp add: power_int_def power_divide)
  ultimately have "1.15 \<le> b" by metis
  then show ?thesis using b by (auto simp: f32_def)
qed

lemma grown_step:
  assumes "grown n cur"
  shows "grown (Suc n) (fl_mul F32 cur (f32 (12 / 10)))"
proof -
  obtain b where b: "f32 (12 / 10) = Fin b" "1.15 \<le> b" using alpha_step by blast
  from assms consider "cur = PInf" | c where "cur = Fin c" "1.1 ^ n \<le> c" by (auto simp: grown_def)
  then show ?thesis
  proof cases
    case 1
    then show ?thesis using b by (simp add: grown_def inf_of_def)
  next
    case 2
    have "(1::rat) \<le> 1.1 ^ n" by (rule one_le_power) simp
    then have "1 \<le> c" using 2(2) by linarith
    from fl_mul_grows [OF this b(2), of F32] show ?thesis
    proof (elim disjE exE conjE)
      fix e assume e: "fl_mul F32 (Fin c) (Fin b) = Fin e" "1.1 * c \<le> e"
      have "1.1 * 1.1 ^ n \<le> 1.1 * c" using 2(2) by simp
      then show ?thesis using e 2(1) b(1) by (simp add: grown_def)
    qed (use 2(1) b(1) in \<open>simp add: grown_def\<close>)
  qed
qed

lemma grown_ge_1:
  assumes "grown n cur"
  shows "Fin 1 \<le> cur"
proof (cases "cur = PInf")
  case False
  then obtain c where c: "cur = Fin c" "1.1 ^ n \<le> c" using assms by (auto simp: grown_def)
  have "(1::rat) \<le> 1.1 ^ n" by (rule one_le_power) simp
  then have "1 \<le> c" using c(2) by (rule order_trans)
  then show ?thesis using c(1) by simp
qed simp

lemma grown_exceeds:
  assumes "grown alpha_rounds cur" "fl_lt alpha FLT_MAX"
  shows "\<not> fl_le cur alpha"
proof
  assume le: "fl_le cur alpha"
  have two: "(2::rat) \<le> 1.1 ^ 8" by (simp add: power_divide)
  have "(2::rat) ^ 137 \<le> (1.1 ^ 8) ^ 137" using two by (rule power_mono) simp
  also have "\<dots> = 1.1 ^ (8 * 137)" by (simp only: power_mult)
  also have "\<dots> \<le> 1.1 ^ alpha_rounds" by (rule power_increasing) (simp_all add: alpha_rounds_def)
  finally have big: "(2::rat) ^ 137 \<le> 1.1 ^ alpha_rounds" .
  have fm: "FLT_MAX \<le> Fin (2 ^ 137)" by (simp add: FLT_MAX_def)
  from assms(1) le obtain c where c: "cur = Fin c" "1.1 ^ alpha_rounds \<le> c"
    using assms(2) by (auto simp: grown_def fl_le_def fl_lt_def FLT_MAX_def)
  have "Fin (2 ^ 137) \<le> cur" using c big by (simp only: c(1) less_eq_fl.simps fl.case)
  moreover have "cur \<le> alpha" "alpha < FLT_MAX" using le assms(2) by (simp_all add: fl_le_def fl_lt_def)
  ultimately show False using fm by (meson leD order_trans)
qed

text \<open>Every position that was not taken has been occluded beyond the last alpha \<open>l\<close>.\<close>

definition covered :: "fl \<Rightarrow> neighbor list \<Rightarrow> nat set \<Rightarrow> fl list \<Rightarrow> fl \<Rightarrow> bool" where
  "covered alpha pool S fs l \<longleftrightarrow> fl_le l alpha \<and> Fin 1 \<le> l \<and> \<not> fl_le (fl_mul F32 l (f32 (12 / 10))) alpha
     \<and> (\<forall>t < length pool. t \<notin> S \<longrightarrow> fl_lt l (fs ! t))"

lemma occlude_rounds_spec:
  assumes "occl_inv env location del pool S (result, fs)" "occl_ok env pool" "distinct (map nbr_id pool)"
    "fl_lt alpha FLT_MAX" "length result \<le> degree" "grown n cur" "n + fuel = alpha_rounds"
    "fl_le cur alpha \<or> (length result < degree \<longrightarrow> (\<exists>l. covered alpha pool S fs l))"
  shows "\<exists>result' fs' S' more. occlude_rounds fuel env location alpha degree del cur pool (result, fs) = Inr (result', fs')
     \<and> occl_inv env location del pool S' (result', fs') \<and> S \<subseteq> S' \<and> result' = result @ more \<and> length result' \<le> degree
     \<and> (length result' < degree \<longrightarrow> (\<exists>l. covered alpha pool S' fs' l))"
  using assms
proof (induction fuel arbitrary: cur n result fs S)
  case 0
  then have "\<not> fl_le cur alpha" using grown_exceeds by simp
  then show ?case using 0 by (auto simp: occlude_rounds.simps [of 0])
next
  case (Suc fuel)
  note unf = occlude_rounds.simps [of "Suc fuel" env location alpha degree del cur pool "(result, fs)"]
  show ?case
  proof (cases "fl_le cur alpha \<and> length result < degree")
    case False
    then show ?thesis using Suc.prems by (auto simp: unf)
  next
    case True
    obtain result1 fs1 S1 m1 where p: "occlude_pass env location alpha degree del cur pool 0 (result, fs) = Inr (result1, fs1)"
        "occl_inv env location del pool S1 (result1, fs1)" "S \<subseteq> S1" "result1 = result @ m1" "length result1 \<le> degree"
        "length result1 < degree \<longrightarrow> (\<forall>t < length pool. t \<notin> S1 \<longrightarrow> fl_lt cur (fs1 ! t))"
      using occlude_pass_spec [OF Suc.prems(1-4) conjunct1 [OF True] Suc.prems(5), of 0] by auto
    let ?cur' = "fl_mul F32 cur (f32 (12 / 10))"
    have "fl_le ?cur' alpha \<or> (length result1 < degree \<longrightarrow> (\<exists>l. covered alpha pool S1 fs1 l))"
      using p(6) True grown_ge_1 [OF Suc.prems(6)] by (auto simp: covered_def)
    moreover have "Suc n + fuel = alpha_rounds" using Suc.prems(7) by simp
    ultimately obtain result2 fs2 S2 m2 where q: "occlude_rounds fuel env location alpha degree del ?cur' pool (result1, fs1) = Inr (result2, fs2)"
        "occl_inv env location del pool S2 (result2, fs2)" "S1 \<subseteq> S2" "result2 = result1 @ m2" "length result2 \<le> degree"
        "length result2 < degree \<longrightarrow> (\<exists>l. covered alpha pool S2 fs2 l)"
      using Suc.IH [OF p(2) Suc.prems(2-4) p(5) grown_step [OF Suc.prems(6)]] by blast
    have "occlude_rounds (Suc fuel) env location alpha degree del cur pool (result, fs) = Inr (result2, fs2)"
      using True p(1) q(1) by (simp add: unf)
    moreover have "result2 = result @ (m1 @ m2)" "S \<subseteq> S2" using p(3,4) q(3,4) by auto
    ultimately show ?thesis using q(2,5,6) by blast
  qed
qed

section \<open>The list as a whole\<close>

definition pool_ids :: "nat \<Rightarrow> nat set option \<Rightarrow> neighbor list \<Rightarrow> nat set" where
  "pool_ids location del pool = {i \<in> nbr_id ` set pool. chosen location del i}"

text \<open>
  A candidate is occluded beyond \<open>l\<close>: an entry of the pool before it gives it a factor above \<open>l\<close>.
\<close>

definition occluded :: "prune_env \<Rightarrow> neighbor list \<Rightarrow> fl \<Rightarrow> nat \<Rightarrow> bool" where
  "occluded env pool l t \<longleftrightarrow> (\<exists>i < t. \<exists>f. reason env (pool ! i) (pool ! t) f \<and> fl_lt l f)"

text \<open>The last alpha of the loop: the next step would pass \<open>alpha\<close>.\<close>

definition last_alpha :: "fl \<Rightarrow> fl \<Rightarrow> bool" where
  "last_alpha alpha l \<longleftrightarrow> fl_le l alpha \<and> Fin 1 \<le> l \<and> \<not> fl_le (fl_mul F32 l (f32 (12 / 10))) alpha"

definition selects :: "prune_env \<Rightarrow> nat \<Rightarrow> nat set option \<Rightarrow> neighbor list \<Rightarrow> fl \<Rightarrow> nat \<Rightarrow> nat list \<Rightarrow> bool" where
  "selects env location del pool alpha degree out \<longleftrightarrow>
     distinct out \<and> length out \<le> degree \<and> set out \<subseteq> pool_ids location del pool
   \<and> (pool \<noteq> [] \<and> chosen location del (nbr_id (hd pool)) \<and> 0 < degree
        \<longrightarrow> out \<noteq> [] \<and> hd out = nbr_id (hd pool))
   \<and> (pool \<noteq> [] \<and> length out < degree \<longrightarrow> (\<exists>l. last_alpha alpha l \<and>
        (\<forall>t < length pool. nbr_id (pool ! t) \<in> pool_ids location del pool - set out \<longrightarrow> occluded env pool l t)))"

lemma occl_start:
  "occl_inv env location del pool {} ([], replicate (length pool) (Fin 0))"
  by (simp add: occl_inv_def)

lemma occlude_pass_first:
  assumes "occl_ok env pool" "distinct (map nbr_id pool)" "fl_lt alpha FLT_MAX" "fl_le (Fin 1) alpha"
    "pool \<noteq> []" "0 < degree" "chosen location del (nbr_id (hd pool))"
    "occlude_pass env location alpha degree del (Fin 1) pool 0 ([], replicate (length pool) (Fin 0)) = Inr (result, fs)"
  shows "result \<noteq> [] \<and> hd result = nbr_id (hd pool)"
proof -
  have p0: "pool ! 0 = hd pool" "0 < length pool" using assms(5) by (simp_all add: hd_conv_nth)
  let ?fs = "replicate (length pool) (Fin 0)"
  obtain fs1 where f: "occlude_rest env alpha (Fin 1) pool 0 (?fs[0 := FLT_MAX]) = Inr fs1"
      "occl_inv env location del pool {0} ([nbr_id (hd pool)], fs1)"
    using occl_inv_take [OF occl_start assms(1,2) p0(2) _ assms(3), of "Fin 1" location del] assms(7)
    unfolding p0(1) by auto
  have l1: "length [nbr_id (hd pool)] \<le> degree" using assms(6) by simp
  obtain result' fs' more where
      "occlude_pass env location alpha degree del (Fin 1) pool 1 ([nbr_id (hd pool)], fs1) = Inr (result', fs')"
      "result' = [nbr_id (hd pool)] @ more"
    using occlude_pass_spec [OF f(2) assms(1-4) l1, of 1] by auto
  then show ?thesis
    using assms(5-8) f(1) p0 by (auto simp: occlude_pass.simps [of env location alpha degree del "Fin 1" pool 0] Let_def)
qed

lemma occlude_list_selects_library:
  assumes ok: "occl_ok env (take maxc pool)" and dist: "distinct (map nbr_id pool)"
    and alpha: "fl_le (Fin 1) alpha" "fl_lt alpha FLT_MAX"
  shows "\<exists>out s'. occlude_list env location pool alpha degree maxc [] s del = Inr (take maxc pool, out, s')
     \<and> (\<exists>fs. s' = s\<lparr>sc_occlude := fs\<rparr>) \<and> selects env location del (take maxc pool) alpha degree out"
proof (cases "pool = []")
  case True
  have "\<exists>fs. s = s\<lparr>sc_occlude := fs\<rparr>" by (rule exI [of _ "sc_occlude s"]) simp
  then show ?thesis using True by (auto simp: occlude_list_def selects_def)
next
  case False
  let ?P = "take maxc pool"
  have P: "(if maxc < length pool then take maxc pool else pool) = ?P" by simp
  have dP: "distinct (map nbr_id ?P)" using dist by (simp add: take_map [symmetric])
  have "\<exists>result fs S. occlude_rounds alpha_rounds env location alpha degree del (Fin 1) ?P ([], replicate (length ?P) (Fin 0)) = Inr (result, fs)
     \<and> occl_inv env location del ?P S (result, fs) \<and> length result \<le> degree
     \<and> (length result < degree \<longrightarrow> (\<exists>l. covered alpha ?P S fs l))"
    using occlude_rounds_spec [OF occl_start ok dP alpha(2), of degree 0 "Fin 1" alpha_rounds] alpha(1)
    by (auto simp: grown_def)
  then obtain out fs S where r: "occlude_rounds alpha_rounds env location alpha degree del (Fin 1) ?P ([], replicate (length ?P) (Fin 0)) = Inr (out, fs)"
      "occl_inv env location del ?P S (out, fs)" "length out \<le> degree" "length out < degree \<longrightarrow> (\<exists>l. covered alpha ?P S fs l)"
    by blast
  note I = occl_invD [OF r(2)]
  have sub: "set out \<subseteq> pool_ids location del ?P"
  proof
    fix x assume "x \<in> set out"
    then obtain i where i: "i \<in> S" "x = nbr_id (?P ! i)" "chosen location del x" using I(5) by auto
    have "?P ! i \<in> set ?P" by (rule nth_mem) (use i(1) I(2) in blast)
    then show "x \<in> pool_ids location del ?P" using i by (auto simp: pool_ids_def)
  qed
  have first: "out \<noteq> [] \<and> hd out = nbr_id (hd ?P)" if f: "?P \<noteq> []" "chosen location del (nbr_id (hd ?P))" "0 < degree"
  proof -
    let ?st = "([] :: nat list, replicate (length ?P) (Fin 0))"
    obtain r1 f1 S1 where p: "occlude_pass env location alpha degree del (Fin 1) ?P 0 ?st = Inr (r1, f1)"
        "occl_inv env location del ?P S1 (r1, f1)" "length r1 \<le> degree"
        "length r1 < degree \<longrightarrow> (\<forall>t < length ?P. t \<notin> S1 \<longrightarrow> fl_lt (Fin 1) (f1 ! t))"
      using occlude_pass_spec [OF occl_start ok dP alpha(2,1), of degree 0 location del] by auto
    have g: "grown 1 (fl_mul F32 (Fin 1) (f32 (12 / 10)))" using grown_step [of 0 "Fin 1"] by (simp add: grown_def)
    have "fl_le (fl_mul F32 (Fin 1) (f32 (12 / 10))) alpha \<or> (length r1 < degree \<longrightarrow> (\<exists>l. covered alpha ?P S1 f1 l))"
      using p(4) alpha(1) by (auto simp: covered_def)
    then obtain more where m: "out = r1 @ more"
      using occlude_rounds_spec [OF p(2) ok dP alpha(2) p(3) g, of 1099] r(1) f(3) alpha(1) p(1)
      by (auto simp: alpha_rounds_def occlude_rounds.simps [of 1100])
    show ?thesis using occlude_pass_first [OF ok dP alpha(2,1) f(1,3,2) p(1)] m by auto
  qed
  have cov: "\<exists>l. last_alpha alpha l \<and>
        (\<forall>t < length ?P. nbr_id (?P ! t) \<in> pool_ids location del ?P - set out \<longrightarrow> occluded env ?P l t)"
    if lt: "length out < degree"
  proof -
    obtain l where l: "covered alpha ?P S fs l" using r(4) lt by blast
    have "occluded env ?P l t" if t: "t < length ?P" "nbr_id (?P ! t) \<in> pool_ids location del ?P - set out" for t
    proof -
      have tS: "t \<notin> S" using t I(5) by (auto simp: pool_ids_def)
      then have "fl_lt l (fs ! t)" "Fin 1 \<le> l" using l t(1) by (auto simp: covered_def)
      moreover from this have "fs ! t \<noteq> Fin 0" by (cases l) (auto simp: fl_lt_def)
      ultimately show ?thesis using I(7) [OF t(1) tS] unfolding occluded_def by blast
    qed
    then show ?thesis using l by (auto simp: covered_def last_alpha_def)
  qed
  have "selects env location del ?P alpha degree out"
    unfolding selects_def using I(6) r(3) sub first cov by blast
  moreover have "occlude_list env location pool alpha degree maxc [] s del = Inr (?P, out, s\<lparr>sc_occlude := fs\<rparr>)"
    using False r(1) P by (simp add: occlude_list_def Let_def)
  ultimately show ?thesis by blast
qed


definition demo_prune_env :: prune_env where
  "demo_prune_env = \<lparr>pe_dist = (\<lambda>a b. Inr (Fin (of_int (\<bar>int a - int b\<bar>)))), pe_metric = L2, pe_filtered = False,
     pe_labels = [], pe_saturate = True, pe_pq_dist = False, pe_range = 2, pe_maxc = 10, pe_alpha = Fin 1,
     pe_mcgi = mcgi_initial, pe_libm = demo_libm\<rparr>"

lemma demo_prune_ok: "occl_ok demo_prune_env pool"
  by (simp add: occl_ok_def demo_prune_env_def labels_allow_def)

lemma one_less_FLT_MAX [simp]: "fl_lt (Fin 1) FLT_MAX"
  by (simp add: FLT_MAX_def)


section \<open>Pruning a pool\<close>

lemma saturate_spec:
  "length out \<le> rng \<Longrightarrow> distinct out \<Longrightarrow> (let r = saturate rng location pool out in
     (\<exists>more. r = out @ more) \<and> distinct r \<and> length r \<le> rng
   \<and> set r \<subseteq> set out \<union> (nbr_id ` set pool - {location})
   \<and> (length r < rng \<longrightarrow> nbr_id ` set pool - {location} \<subseteq> set r))"
proof (induction pool arbitrary: out)
  case Nil
  then show ?case by simp
next
  case (Cons x pool)
  show ?case
  proof (cases "rng \<le> length out")
    case True
    then show ?thesis using Cons.prems by simp
  next
    case False
    define out1 where "out1 = (if nbr_id x \<notin> set out \<and> nbr_id x \<noteq> location then out @ [nbr_id x] else out)"
    have "length out1 \<le> rng" "distinct out1" using False Cons.prems by (auto simp: out1_def)
    note IH = Cons.IH [OF this]
    have e: "saturate rng location (x # pool) out = saturate rng location pool out1" using False by (simp add: out1_def)
    define r where "r = saturate rng location pool out1"
    obtain m1 where m1: "set out1 \<subseteq> set out \<union> ({nbr_id x} - {location})" "out1 = out @ m1" "{nbr_id x} - {location} \<subseteq> set out1"
      by (cases "nbr_id x \<notin> set out \<and> nbr_id x \<noteq> location") (auto simp: out1_def)
    obtain m2 where m2: "r = out1 @ m2" "distinct r" "length r \<le> rng"
        "set r \<subseteq> set out1 \<union> (nbr_id ` set pool - {location})"
        "length r < rng \<longrightarrow> nbr_id ` set pool - {location} \<subseteq> set r"
      using IH unfolding Let_def r_def [symmetric] by blast
    have u: "nbr_id ` set (x # pool) - {location} = ({nbr_id x} - {location}) \<union> (nbr_id ` set pool - {location})" by auto
    have o: "set out1 \<subseteq> set r" using m2(1) by auto
    show ?thesis
      unfolding e Let_def r_def [symmetric] u
    proof (intro conjI impI)
      show "\<exists>more. r = out @ more" using m1(2) m2(1) by auto
      show "set r \<subseteq> set out \<union> ({nbr_id x} - {location} \<union> (nbr_id ` set pool - {location}))" using m1(1) m2(4) by blast
      show "{nbr_id x} - {location} \<union> (nbr_id ` set pool - {location}) \<subseteq> set r" if "length r < rng"
        using m2(5) that m1(3) o by blast
    qed (rule m2(2), rule m2(3))
  qed
qed

text \<open>What \<^verbatim>\<open>prune_neighbors\<close> promises for the sorted pool \<open>P\<close>.\<close>

definition pruned_ok :: "prune_env \<Rightarrow> nat \<Rightarrow> neighbor list \<Rightarrow> fl \<Rightarrow> nat \<Rightarrow> nat list \<Rightarrow> bool" where
  "pruned_ok env location P alpha rng out \<longleftrightarrow>
     distinct out \<and> length out \<le> rng \<and> set out \<subseteq> nbr_id ` set P - {location}
   \<and> (P \<noteq> [] \<and> nbr_id (hd P) \<noteq> location \<and> 0 < rng \<longrightarrow> out \<noteq> [] \<and> hd out = nbr_id (hd P))
   \<and> (if pe_saturate env \<and> fl_lt (Fin 1) alpha
      then length out = rng \<or> set out = nbr_id ` set P - {location}
      else selects env location None P alpha rng out)"

lemma pool_ids_None: "pool_ids location None P = nbr_id ` set P - {location}"
  by (auto simp: pool_ids_def chosen_def)

lemma pruned_ok_saturate:
  assumes "selects env location None P alpha rng out"
  shows "pruned_ok env location P alpha rng
     (if pe_saturate env \<and> fl_lt (Fin 1) alpha then saturate rng location P out else out)"
proof -
  have s: "distinct out" "length out \<le> rng" "set out \<subseteq> nbr_id ` set P - {location}"
    "P \<noteq> [] \<and> nbr_id (hd P) \<noteq> location \<and> 0 < rng \<longrightarrow> out \<noteq> [] \<and> hd out = nbr_id (hd P)"
    using assms by (auto simp: selects_def pool_ids_None chosen_def)
  show ?thesis
  proof (cases "pe_saturate env \<and> fl_lt (Fin 1) alpha")
    case False
    then show ?thesis using s assms unfolding pruned_ok_def by (simp only: if_False)
  next
    case True
    define r where "r = saturate rng location P out"
    obtain more where m: "r = out @ more" "distinct r" "length r \<le> rng"
        "set r \<subseteq> set out \<union> (nbr_id ` set P - {location})"
        "length r < rng \<longrightarrow> nbr_id ` set P - {location} \<subseteq> set r"
      using saturate_spec [OF s(2,1), of location P] by (auto simp: r_def Let_def)
    have sub: "set r \<subseteq> nbr_id ` set P - {location}" using m(4) s(3) by blast
    have full: "length r = rng \<or> set r = nbr_id ` set P - {location}" using m(3,5) sub by fastforce
    have first: "P \<noteq> [] \<and> nbr_id (hd P) \<noteq> location \<and> 0 < rng \<longrightarrow> r \<noteq> [] \<and> hd r = nbr_id (hd P)"
      using s(4) m(1) by auto
    show ?thesis using True m(2,3) sub full first by (simp add: pruned_ok_def r_def [symmetric])
  qed
qed

lemma prune_neighbors_with_spec:
  assumes "\<not> pe_pq_dist env" "distinct (map nbr_id pool)" "\<forall>x \<in> set pool. nbr_dist x \<noteq> NaN" "occl_ok env pool"
    "fl_le (Fin 1) alpha" "fl_lt alpha FLT_MAX"
  shows "\<exists>out s'. prune_neighbors_with env location pool rng maxc alpha s
       = Inr (take maxc (sort_key nbr_key pool), out, s')
     \<and> (\<exists>fs. s' = s\<lparr>sc_occlude := fs\<rparr>)
     \<and> pruned_ok env location (take maxc (sort_key nbr_key pool)) alpha rng out"
proof (cases "pool = []")
  case True
  have "\<exists>fs. s = s\<lparr>sc_occlude := fs\<rparr>" by (rule exI [of _ "sc_occlude s"]) simp
  then show ?thesis using True by (auto simp: prune_neighbors_with_def pruned_ok_def selects_def)
next
  case False
  let ?S = "sort_key nbr_key pool"
  have "set (take maxc ?S) \<subseteq> set pool" using set_take_subset [of maxc ?S] by simp
  then have ok: "occl_ok env (take maxc ?S)" using assms(4) unfolding occl_ok_def by blast
  have "mset (map nbr_id ?S) = mset (map nbr_id pool)" by simp
  then have dist: "distinct (map nbr_id ?S)" using assms(2) by (metis mset_eq_imp_distinct_iff)
  obtain out s' where o: "occlude_list env location ?S alpha rng maxc [] s None = Inr (take maxc ?S, out, s')"
      "\<exists>fs. s' = s\<lparr>sc_occlude := fs\<rparr>" "selects env location None (take maxc ?S) alpha rng out"
    using occlude_list_selects_library [OF ok dist assms(5,6)] by blast
  have "sort_pool pool = Inr ?S" using assms(3) by (auto simp: sort_pool_def)
  then show ?thesis
    using False assms(1) o pruned_ok_saturate [OF o(3)] by (simp add: prune_neighbors_with_def)
qed

end
