(* ===== verification/Index_State.thy ===== *)
theory Index_State
  imports Prune Labels Graph_Store Data_Store
begin

text \<open>
  The state of \<^verbatim>\<open>Index\<close> (\<^verbatim>\<open>include/index.h\<close>,
  \<^verbatim>\<open>src/index.cpp\<close>) and the bookkeeping of locations: constructor, tags, free
  slots and lazy deletes. A location below \<^verbatim>\<open>_max_points\<close> is live (it has a
  tag), lazily deleted, or free; the invariant \<open>book_inv\<close> says so, and the counters agree with it. The index is one without a
  PQ build, so both data stores of the source are the one \<open>ix_data\<close>. Tags are natural numbers.
\<close>

section \<open>Configuration and state\<close>

text \<open>What is fixed once the index is constructed, and the library behaviour it uses.\<close>

record 'a index_config =
  ic_df :: "'a distance_fn"
  ic_metric :: metric
  ic_dynamic :: bool
  ic_enable_tags :: bool
  ic_conc_consolidate :: bool
  ic_L :: nat                    \<comment> \<open>\<^verbatim>\<open>_indexingQueueSize\<close>\<close>
  ic_R :: nat                    \<comment> \<open>\<^verbatim>\<open>_indexingRange\<close>\<close>
  ic_maxc :: nat                 \<comment> \<open>\<^verbatim>\<open>_indexingMaxC\<close>\<close>
  ic_alpha :: fl                 \<comment> \<open>\<^verbatim>\<open>_indexingAlpha\<close>\<close>
  ic_filterL :: nat              \<comment> \<open>\<^verbatim>\<open>_filterIndexingQueueSize\<close>\<close>
  ic_saturate :: bool
  ic_libm :: libm
  ic_mcgi :: mcgi_context
  ic_order :: "nat set \<Rightarrow> nat list"   \<comment> \<open>iteration order of a hash set\<close>
  ic_to_float :: "'a \<Rightarrow> fl"

record 'a index =
  ix_max_points :: nat
  ix_num_frozen :: nat
  ix_nd :: nat
  ix_start :: nat
  ix_frozen_used :: nat
  ix_has_built :: bool
  ix_filtered :: bool
  ix_deletes_enabled :: bool
  ix_data_compacted :: bool
  ix_data :: "'a data_store"
  ix_graph :: graph_store
  ix_l2t :: "nat nnm"            \<comment> \<open>\<^verbatim>\<open>_location_to_tag\<close>\<close>
  ix_t2l :: "nat \<rightharpoonup> nat"        \<comment> \<open>\<^verbatim>\<open>_tag_to_location\<close>\<close>
  ix_empty :: nns                \<comment> \<open>\<^verbatim>\<open>_empty_slots\<close>\<close>
  ix_deleted :: "nat set"        \<comment> \<open>\<^verbatim>\<open>_delete_set\<close>\<close>
  ix_labels :: "nat list list"   \<comment> \<open>\<^verbatim>\<open>_location_to_labels\<close>\<close>
  ix_label_set :: "nat set"      \<comment> \<open>\<^verbatim>\<open>_labels\<close>\<close>
  ix_label_start :: "nat \<rightharpoonup> nat" \<comment> \<open>\<^verbatim>\<open>_label_to_start_id\<close>\<close>
  ix_medoid_counts :: "nat \<rightharpoonup> nat"
  ix_label_map :: "string \<rightharpoonup> nat"
  ix_use_universal :: bool
  ix_universal :: nat

definition ix_total :: "'a index \<Rightarrow> nat" where
  "ix_total ix = ix_max_points ix + ix_num_frozen ix"

text \<open>\<^verbatim>\<open>enable_delete\<close>: the result is the return code.\<close>

definition enable_delete :: "'a index_config \<Rightarrow> 'a index \<Rightarrow> int \<times> 'a index" where
  "enable_delete cfg ix =
     (if \<not> ic_enable_tags cfg then (-2, ix)
      else if ix_deletes_enabled ix then (0, ix)
      else (0, ix\<lparr>ix_empty := (if ix_data_compacted ix
                               then foldl nns_insert (ix_empty ix) [ix_nd ix..<ix_max_points ix]
                               else ix_empty ix),
                  ix_deletes_enabled := True\<rparr>))"

text \<open>
  The constructor, for given data and graph stores; the size of the free bitset follows from
  \<open>enable_delete\<close>.
\<close>

definition index_make ::
  "'a index_config \<Rightarrow> nat \<Rightarrow> nat \<Rightarrow> bool \<Rightarrow> 'a data_store \<Rightarrow> graph_store \<Rightarrow> 'a index result" where
  "index_make cfg max_points num_frozen filtered data graph =
     (if ic_dynamic cfg \<and> \<not> ic_enable_tags cfg
      then Inl (ANNException ''ERROR: Dynamic Indexing must have tags enabled.'')
      else let frozen = (if ic_dynamic cfg \<and> num_frozen = 0 then 1 else num_frozen);
               maxp = (if max_points = 0 then 1 else max_points);
               ix = \<lparr>ix_max_points = maxp, ix_num_frozen = frozen, ix_nd = 0, ix_start = u32 maxp,
                     ix_frozen_used = 0, ix_has_built = False, ix_filtered = filtered,
                     ix_deletes_enabled = False, ix_data_compacted = True, ix_data = data, ix_graph = graph,
                     ix_l2t = nnm_empty, ix_t2l = Map.empty, ix_empty = nns_empty, ix_deleted = {},
                     ix_labels = [], ix_label_set = {}, ix_label_start = Map.empty,
                     ix_medoid_counts = Map.empty, ix_label_map = Map.empty,
                     ix_use_universal = False, ix_universal = 0\<rparr>
        in if ic_dynamic cfg
           then let ix1 = snd (enable_delete cfg ix)
             in Inr (if filtered then ix1\<lparr>ix_labels := vec_resize [] (maxp + frozen) (ix_labels ix1)\<rparr> else ix1)
           else Inr ix)"

section \<open>Start points and environments\<close>

definition get_init_ids :: "'a index \<Rightarrow> nat list" where
  "get_init_ids ix = ix_start ix # filter (\<lambda>f. f \<noteq> ix_start ix) [u32 (ix_max_points ix)..<ix_total ix]"

definition search_env_of :: "'a index_config \<Rightarrow> 'a index \<Rightarrow> 'a list \<Rightarrow> bool \<Rightarrow> nat list \<Rightarrow> bool \<Rightarrow> search_env" where
  "search_env_of cfg ix query use_filter labels searching =
     \<lparr>se_total = ix_total ix, se_nbrs = get_neighbours (ix_graph ix),
      se_qdist = ds_distance_query (ic_df cfg) (ix_data ix) query, se_use_filter = use_filter,
      se_detect = (\<lambda>i. detect_common_filters (ix_labels ix) (ix_use_universal ix) (ix_universal ix) i searching labels),
      se_search_invocation = searching\<rparr>"

definition prune_env_of :: "'a index_config \<Rightarrow> 'a index \<Rightarrow> prune_env" where
  "prune_env_of cfg ix =
     \<lparr>pe_dist = ds_distance_locs (ic_df cfg) (ix_data ix), pe_metric = ic_metric cfg, pe_filtered = ix_filtered ix,
      pe_labels = ix_labels ix, pe_saturate = ic_saturate cfg, pe_pq_dist = False, pe_range = ic_R cfg,
      pe_maxc = ic_maxc cfg, pe_alpha = ic_alpha cfg, pe_mcgi = ic_mcgi cfg, pe_libm = ic_libm cfg\<rparr>"

section \<open>Locations\<close>

text \<open>\<open>None\<close> is the return value -1.\<close>

definition reserve_location :: "'a index \<Rightarrow> (nat option \<times> 'a index) result" where
  "reserve_location ix =
     (if ix_max_points ix \<le> ix_nd ix then Inr (None, ix)
      else if ix_data_compacted ix \<and> nns_is_empty (ix_empty ix)
      then Inr (Some (u32 (ix_nd ix)), ix\<lparr>ix_nd := ix_nd ix + 1\<rparr>)
      else bindR (nns_pop_any (ix_empty ix)) (\<lambda>(location, slots).
        Inr (Some location, ix\<lparr>ix_empty := slots, ix_deleted := ix_deleted ix - {location}, ix_nd := ix_nd ix + 1\<rparr>)))"

definition size_dec :: "nat \<Rightarrow> nat" where
  "size_dec n = (if n = 0 then 2 ^ 64 - 1 else n - 1)"

definition release_location :: "nat \<Rightarrow> 'a index \<Rightarrow> 'a index result" where
  "release_location location ix =
     bindR (nns_is_in_set (ix_empty ix) location) (\<lambda>free.
       if free then Inl (ANNException ''Trying to release location, but location already in empty slots'')
       else Inr (ix\<lparr>ix_empty := nns_insert (ix_empty ix) location, ix_nd := size_dec (ix_nd ix)\<rparr>))"

definition release_locations :: "nat list \<Rightarrow> 'a index \<Rightarrow> (nat \<times> 'a index) result" where
  "release_locations locations ix =
     bindR (foldR release_location locations ix) (\<lambda>ix'.
       if nns_size (ix_empty ix') + ix_nd ix' \<noteq> ix_max_points ix'
       then Inl (ANNException ''#empty slots + nd != max points'')
       else Inr (ix_nd ix', ix'))"

section \<open>Tags\<close>

definition forget_tag :: "nat \<Rightarrow> nat \<Rightarrow> 'a index \<Rightarrow> 'a index" where
  "forget_tag tag location ix =
     ix\<lparr>ix_deleted := insert location (ix_deleted ix), ix_l2t := nnm_erase (ix_l2t ix) location,
        ix_t2l := (ix_t2l ix)(tag := None)\<rparr>"

definition lazy_delete :: "nat \<Rightarrow> 'a index \<Rightarrow> int \<times> 'a index" where
  "lazy_delete tag ix =
     (let ix1 = ix\<lparr>ix_data_compacted := False\<rparr>
      in case ix_t2l ix1 tag of
           None \<Rightarrow> (-1, ix1)
         | Some location \<Rightarrow> (0, forget_tag tag location ix1))"

fun delete_each :: "nat list \<Rightarrow> nat list \<Rightarrow> 'a index \<Rightarrow> nat list \<times> 'a index" where
  "delete_each [] failed ix = (failed, ix)"
| "delete_each (tag # tags) failed ix =
     (case ix_t2l ix tag of
        None \<Rightarrow> delete_each tags (failed @ [tag]) ix
      | Some location \<Rightarrow> delete_each tags failed (forget_tag tag location ix))"

definition lazy_delete_list :: "nat list \<Rightarrow> nat list \<Rightarrow> 'a index \<Rightarrow> (nat list \<times> 'a index) result" where
  "lazy_delete_list tags failed_tags ix =
     (if failed_tags \<noteq> [] then Inl (ANNException ''failed_tags should be passed as an empty list'')
      else Inr (delete_each tags [] (ix\<lparr>ix_data_compacted := False\<rparr>)))"

definition get_active_tags :: "'a index \<Rightarrow> nat set" where
  "get_active_tags ix = dom (ix_t2l ix)"

definition get_vector_by_tag :: "nat \<Rightarrow> 'a index \<Rightarrow> 'a list option result" where
  "get_vector_by_tag tag ix =
     (case ix_t2l ix tag of None \<Rightarrow> Inr None
      | Some location \<Rightarrow> bindR (ds_get_vector (ix_data ix) location) (\<lambda>v. Inr (Some v)))"

text \<open>The tag part of \<^verbatim>\<open>insert_point\<close>: \<open>False\<close> is the return value -1.\<close>

definition add_tag :: "'a index_config \<Rightarrow> nat \<Rightarrow> nat \<Rightarrow> 'a index \<Rightarrow> (bool \<times> 'a index) result" where
  "add_tag cfg tag location ix =
     (if \<not> ic_enable_tags cfg then Inr (True, ix)
      else if ix_t2l ix tag \<noteq> None then bindR (release_location location ix) (\<lambda>ix'. Inr (False, ix'))
      else Inr (True, ix\<lparr>ix_t2l := (ix_t2l ix)(tag \<mapsto> location), ix_l2t := nnm_set (ix_l2t ix) location tag\<rparr>))"

section \<open>The bookkeeping invariant\<close>

text \<open>The locations that hold a point with a tag.\<close>

definition live :: "'a index \<Rightarrow> nat set" where
  "live ix = dom (nnm_try_get (ix_l2t ix))"

definition book_inv :: "'a index \<Rightarrow> bool" where
  "book_inv ix \<longleftrightarrow> nnm_inv (ix_l2t ix) \<and> nns_inv (ix_empty ix) \<and> nnm_map.inverse_of (ix_l2t ix) (ix_t2l ix)
     \<and> live ix \<union> ix_deleted ix \<union> nns_elems (ix_empty ix) = {..<ix_max_points ix}
     \<and> live ix \<inter> ix_deleted ix = {} \<and> live ix \<inter> nns_elems (ix_empty ix) = {}
     \<and> ix_deleted ix \<inter> nns_elems (ix_empty ix) = {}
     \<and> ix_nd ix + nns_size (ix_empty ix) = ix_max_points ix \<and> ix_max_points ix < 2 ^ 32
     \<and> ix_max_points ix \<le> length (nns_bits (ix_empty ix))"

lemma book_invD:
  assumes "book_inv ix"
  shows "nnm_inv (ix_l2t ix)" "nns_inv (ix_empty ix)" "nnm_map.inverse_of (ix_l2t ix) (ix_t2l ix)"
    "live ix \<union> ix_deleted ix \<union> nns_elems (ix_empty ix) = {..<ix_max_points ix}"
    "live ix \<inter> ix_deleted ix = {}" "live ix \<inter> nns_elems (ix_empty ix) = {}"
    "ix_deleted ix \<inter> nns_elems (ix_empty ix) = {}"
    "ix_nd ix + nns_size (ix_empty ix) = ix_max_points ix" "ix_max_points ix < 2 ^ 32"
    "ix_max_points ix \<le> length (nns_bits (ix_empty ix))"
  using assms by (auto simp: book_inv_def)

section \<open>Every bookkeeping operation keeps the invariant\<close>

lemma nns_bits_insert: "length (nns_bits (nns_insert s k)) = max (length (nns_bits s)) (k + 1)"
  by (simp add: nns_insert_def Let_def)

lemma nns_bits_pop: "nns_pop_any s = Inr (k, s') \<Longrightarrow> length (nns_bits s') = length (nns_bits s)"
  by (auto simp: nns_pop_any_def Let_def bits_set_def vec_put_def bindR_eq_Inr split: if_splits)

lemma reserve_spec:
  assumes "book_inv ix" "ix_nd ix < ix_max_points ix"
  shows "\<exists>loc slots. reserve_location ix = Inr (Some loc, ix\<lparr>ix_empty := slots, ix_nd := ix_nd ix + 1\<rparr>)
     \<and> loc \<in> nns_elems (ix_empty ix) \<and> nns_inv slots \<and> nns_elems slots = nns_elems (ix_empty ix) - {loc}
     \<and> nns_size (ix_empty ix) = nns_size slots + 1 \<and> length (nns_bits slots) = length (nns_bits (ix_empty ix))"
proof -
  note I = book_invD [OF assms(1)]
  have "nns_size (ix_empty ix) \<noteq> 0" using assms(2) I(8) by linarith
  then have ne: "nns_elems (ix_empty ix) \<noteq> {}" using nns_size_card [OF I(2)] by auto
  then obtain loc slots where p: "nns_pop_any (ix_empty ix) = Inr (loc, slots)" "loc \<in> nns_elems (ix_empty ix)"
      "nns_inv slots" "nns_elems slots = nns_elems (ix_empty ix) - {loc}" "nns_size (ix_empty ix) = nns_size slots + 1"
    using nns_pop_any_correct [OF I(2)] by blast
  have "ix_deleted ix - {loc} = ix_deleted ix" using p(2) I(7) by blast
  then have "reserve_location ix = Inr (Some loc, ix\<lparr>ix_empty := slots, ix_nd := ix_nd ix + 1\<rparr>)"
    using assms(2) ne p(1) by (simp add: reserve_location_def nns_is_empty_iff)
  then show ?thesis using p nns_bits_pop [OF p(1)] by blast
qed

lemma reserve_full:
  assumes "ix_max_points ix \<le> ix_nd ix"
  shows "reserve_location ix = Inr (None, ix)"
  using assms by (simp add: reserve_location_def)

lemma live_simps [simp]:
  "live (ix\<lparr>ix_empty := a\<rparr>) = live ix" "live (ix\<lparr>ix_nd := b\<rparr>) = live ix" "live (ix\<lparr>ix_deleted := c\<rparr>) = live ix"
  "live (ix\<lparr>ix_t2l := d\<rparr>) = live ix" "live (ix\<lparr>ix_data_compacted := e\<rparr>) = live ix" "live (ix\<lparr>ix_graph := g\<rparr>) = live ix"
  "live (ix\<lparr>ix_data := h\<rparr>) = live ix"
  by (simp_all add: live_def)

lemma free_not_tagged:
  assumes "book_inv ix" "loc \<in> nns_elems (ix_empty ix)"
  shows "nnm_try_get (ix_l2t ix) loc = None"
proof -
  have "loc \<notin> live ix" using book_invD(6) [OF assms(1)] assms(2) by blast
  then show ?thesis by (auto simp: live_def)
qed

lemma tag_lookup:
  assumes "book_inv ix"
  shows "ix_t2l ix tag = Some loc \<longleftrightarrow> nnm_try_get (ix_l2t ix) loc = Some tag"
  using book_invD(3) [OF assms] by (simp add: nnm_map.inverse_of_def)

lemma tag_location:
  assumes "book_inv ix" "ix_t2l ix tag = Some loc"
  shows "loc \<in> live ix" "loc < ix_max_points ix"
proof -
  have "nnm_try_get (ix_l2t ix) loc = Some tag" using tag_lookup [OF assms(1)] assms(2) by blast
  then show l: "loc \<in> live ix" by (auto simp: live_def)
  have "live ix \<subseteq> {..<ix_max_points ix}" using book_invD(4) [OF assms(1)] by blast
  then show "loc < ix_max_points ix" using l by blast
qed

text \<open>Reserving a location and giving it a new tag.\<close>

lemma register_book:
  assumes inv: "book_inv ix" and loc: "loc \<in> nns_elems (ix_empty ix)" and slots: "nns_inv slots"
      "nns_elems slots = nns_elems (ix_empty ix) - {loc}" "nns_size (ix_empty ix) = nns_size slots + 1"
      "length (nns_bits slots) = length (nns_bits (ix_empty ix))"
    and fresh: "ix_t2l ix tag = None"
  shows "book_inv (ix\<lparr>ix_empty := slots, ix_nd := ix_nd ix + 1, ix_t2l := (ix_t2l ix)(tag \<mapsto> loc),
      ix_l2t := nnm_set (ix_l2t ix) loc tag\<rparr>)" (is "book_inv ?ix")
proof -
  note I = book_invD [OF inv]
  have un: "nnm_try_get (ix_l2t ix) loc = None" by (rule free_not_tagged [OF inv loc])
  have l: "live ?ix = insert loc (live ix)"
    using nnm_map.look_upd [OF I(1), of loc tag] by (auto simp: live_def)
  have e: "nns_elems (ix_empty ?ix) = nns_elems (ix_empty ix) - {loc}" by (simp add: slots)
  have "nnm_map.inverse_of (ix_l2t ?ix) (ix_t2l ?ix)"
    using nnm_map.inverse_upd [OF I(1,3) un fresh] by simp
  moreover have "nnm_inv (ix_l2t ?ix)" using nnm_map.inv_upd [OF I(1)] by simp
  moreover have "live ?ix \<union> ix_deleted ?ix \<union> nns_elems (ix_empty ?ix) = {..<ix_max_points ?ix}"
    unfolding l e using I(4) loc by auto
  moreover have "live ?ix \<inter> ix_deleted ?ix = {}" "live ?ix \<inter> nns_elems (ix_empty ?ix) = {}"
      "ix_deleted ?ix \<inter> nns_elems (ix_empty ?ix) = {}"
    unfolding l e using I(5,6,7) loc by auto
  ultimately show ?thesis
    unfolding book_inv_def using slots I(8,9,10) by simp
qed

text \<open>Releasing a location that is in nobody's possession: \<open>R\<close> are the locations still to release.\<close>

definition releasing :: "nat set \<Rightarrow> 'a index \<Rightarrow> bool" where
  "releasing R ix \<longleftrightarrow> nnm_inv (ix_l2t ix) \<and> nns_inv (ix_empty ix) \<and> nnm_map.inverse_of (ix_l2t ix) (ix_t2l ix)
     \<and> live ix \<union> ix_deleted ix \<union> nns_elems (ix_empty ix) \<union> R = {..<ix_max_points ix}
     \<and> live ix \<inter> ix_deleted ix = {} \<and> live ix \<inter> nns_elems (ix_empty ix) = {}
     \<and> ix_deleted ix \<inter> nns_elems (ix_empty ix) = {}
     \<and> R \<inter> (live ix \<union> ix_deleted ix \<union> nns_elems (ix_empty ix)) = {}
     \<and> ix_nd ix + nns_size (ix_empty ix) = ix_max_points ix \<and> ix_max_points ix < 2 ^ 32
     \<and> ix_max_points ix \<le> length (nns_bits (ix_empty ix))"

lemma releasingD:
  assumes "releasing R ix"
  shows "nns_inv (ix_empty ix)" "live ix \<union> ix_deleted ix \<union> nns_elems (ix_empty ix) \<union> R = {..<ix_max_points ix}"
    "R \<inter> (live ix \<union> ix_deleted ix \<union> nns_elems (ix_empty ix)) = {}"
    "ix_nd ix + nns_size (ix_empty ix) = ix_max_points ix" "ix_max_points ix \<le> length (nns_bits (ix_empty ix))"
proof -
  note conjs = assms [unfolded releasing_def]
  show "nns_inv (ix_empty ix)" using conjs by (elim conjE)
  show "live ix \<union> ix_deleted ix \<union> nns_elems (ix_empty ix) \<union> R = {..<ix_max_points ix}" using conjs by (elim conjE)
  show "R \<inter> (live ix \<union> ix_deleted ix \<union> nns_elems (ix_empty ix)) = {}" using conjs by (elim conjE)
  show "ix_nd ix + nns_size (ix_empty ix) = ix_max_points ix" using conjs by (elim conjE)
  show "ix_max_points ix \<le> length (nns_bits (ix_empty ix))" using conjs by (elim conjE)
qed

lemma releasing_done: "releasing {} ix \<longleftrightarrow> book_inv ix"
  by (simp add: releasing_def book_inv_def)

lemma release_location_spec:
  assumes "releasing R ix" "loc \<in> R"
  shows "\<exists>slots. release_location loc ix = Inr (ix\<lparr>ix_empty := slots, ix_nd := ix_nd ix - 1\<rparr>)
     \<and> nns_elems slots = insert loc (nns_elems (ix_empty ix)) \<and> releasing (R - {loc}) (ix\<lparr>ix_empty := slots, ix_nd := ix_nd ix - 1\<rparr>)"
proof -
  let ?slots = "nns_insert (ix_empty ix) loc"
  let ?ix = "ix\<lparr>ix_empty := ?slots, ix_nd := ix_nd ix - 1\<rparr>"
  note I = releasingD [OF assms(1)]
  have nf: "loc \<notin> nns_elems (ix_empty ix)" and lt: "loc < ix_max_points ix" using I(2,3) assms(2) by auto
  note ins = nns_insert_correct [OF I(1) nf]
  have "insert loc (nns_elems (ix_empty ix)) \<subseteq> {..<ix_max_points ix}" using I(2) lt by auto
  then have "card (insert loc (nns_elems (ix_empty ix))) \<le> card {..<ix_max_points ix}" by (intro card_mono) auto
  then have "nns_size (ix_empty ix) < ix_max_points ix" using nf nns_size_card [OF I(1)] by simp
  then have pos: "0 < ix_nd ix" using I(4) by linarith
  have "nns_is_in_set (ix_empty ix) loc = Inr False"
    using nns_is_in_set_inside [OF I(1), of loc] lt I(5) nf by simp
  then have "release_location loc ix = Inr ?ix" using pos by (simp add: release_location_def size_dec_def)
  moreover have "releasing (R - {loc}) ?ix"
    unfolding releasing_def
  proof (intro conjI)
    show "live ?ix \<union> ix_deleted ?ix \<union> nns_elems (ix_empty ?ix) \<union> (R - {loc}) = {..<ix_max_points ?ix}"
      using I(2) assms(2) ins(2) by auto
    show "live ?ix \<inter> nns_elems (ix_empty ?ix) = {}" "ix_deleted ?ix \<inter> nns_elems (ix_empty ?ix) = {}"
      "(R - {loc}) \<inter> (live ?ix \<union> ix_deleted ?ix \<union> nns_elems (ix_empty ?ix)) = {}"
      using assms ins(2) I(3) by (auto simp: releasing_def)
    show "ix_nd ?ix + nns_size (ix_empty ?ix) = ix_max_points ?ix" using I(4) ins(3) pos by simp
    show "ix_max_points ?ix \<le> length (nns_bits (ix_empty ?ix))" using I(5) by (simp add: nns_bits_insert)
    show "nns_inv (ix_empty ?ix)" using ins(1) by simp
  qed (use assms(1) in \<open>simp_all add: releasing_def\<close>)
  ultimately show ?thesis using ins(2) by blast
qed

lemma release_all_spec:
  assumes "releasing R ix" "set ls = R" "distinct ls"
  shows "\<exists>slots. foldR release_location ls ix = Inr (ix\<lparr>ix_empty := slots, ix_nd := ix_nd ix - length ls\<rparr>)
     \<and> nns_elems slots = R \<union> nns_elems (ix_empty ix) \<and> book_inv (ix\<lparr>ix_empty := slots, ix_nd := ix_nd ix - length ls\<rparr>)"
  using assms
proof (induction ls arbitrary: ix R)
  case Nil
  have R: "R = {}" using Nil.prems(2) by simp
  have "book_inv ix" using Nil.prems(1) unfolding R releasing_done .
  then show ?case by (intro exI [of _ "ix_empty ix"]) (simp add: R)
next
  case (Cons l ls)
  have lR: "l \<in> R" using Cons.prems(2) by auto
  obtain s1 where s1: "release_location l ix = Inr (ix\<lparr>ix_empty := s1, ix_nd := ix_nd ix - 1\<rparr>)"
      "nns_elems s1 = insert l (nns_elems (ix_empty ix))" "releasing (R - {l}) (ix\<lparr>ix_empty := s1, ix_nd := ix_nd ix - 1\<rparr>)"
    using release_location_spec [OF Cons.prems(1) lR] by blast
  have r: "set ls = R - {l}" "distinct ls" using Cons.prems(2,3) by auto
  obtain slots where "foldR release_location ls (ix\<lparr>ix_empty := s1, ix_nd := ix_nd ix - 1\<rparr>)
       = Inr (ix\<lparr>ix_empty := slots, ix_nd := ix_nd ix - 1 - length ls\<rparr>)"
     "nns_elems slots = (R - {l}) \<union> nns_elems s1" "book_inv (ix\<lparr>ix_empty := slots, ix_nd := ix_nd ix - 1 - length ls\<rparr>)"
    using Cons.IH [OF s1(3) r] by auto
  then show ?case using s1(1,2) Cons.prems(2) by (intro exI [of _ slots]) auto
qed

text \<open>What \<open>live\<close> and the tag table say about each other.\<close>

lemma live_card: "book_inv ix \<Longrightarrow> card (live ix) = card (dom (ix_t2l ix)) \<and> finite (live ix) \<and> finite (dom (ix_t2l ix))"
  using nnm_map.inverse_dom [of "ix_l2t ix" "ix_t2l ix"] nnm_map.cnt_card [of "ix_l2t ix"] nnm_map.finite_keys [of "ix_l2t ix"]
  by (simp add: book_inv_def live_def)

lemma nd_counts:
  assumes "book_inv ix"
  shows "ix_nd ix = card (dom (ix_t2l ix)) + card (ix_deleted ix)"
proof -
  note I = book_invD [OF assms]
  have fin: "finite (live ix)" "finite (ix_deleted ix)"
    using I(4) by (metis finite_Un finite_lessThan)+
  have "card (live ix \<union> ix_deleted ix \<union> nns_elems (ix_empty ix)) = ix_max_points ix" unfolding I(4) by simp
  moreover have "card (live ix \<union> ix_deleted ix \<union> nns_elems (ix_empty ix)) = card (live ix) + card (ix_deleted ix) + card (nns_elems (ix_empty ix))"
    using fin I(5,6,7) by (simp add: card_Un_disjoint Int_Un_distrib2)
  ultimately show ?thesis using I(8) nns_size_card [OF I(2)] live_card [OF assms] by simp
qed

lemma forget_tag_book:
  assumes inv: "book_inv ix" and tag: "ix_t2l ix tag = Some loc"
  shows "book_inv (forget_tag tag loc ix)" "ix_deleted (forget_tag tag loc ix) = insert loc (ix_deleted ix)"
    "loc \<notin> ix_deleted ix" "dom (ix_t2l (forget_tag tag loc ix)) = dom (ix_t2l ix) - {tag}"
proof -
  let ?ix = "forget_tag tag loc ix"
  note I = book_invD [OF inv]
  note L = tag_location [OF inv tag]
  have l: "live ?ix = live ix - {loc}"
    using nnm_map.look_del [OF I(1), of loc] by (simp add: live_def forget_tag_def)
  have d: "ix_deleted ?ix = insert loc (ix_deleted ix)" "ix_empty ?ix = ix_empty ix" "ix_max_points ?ix = ix_max_points ix"
    by (simp_all add: forget_tag_def)
  show "loc \<notin> ix_deleted ix" using L(1) I(5) by blast
  show "ix_deleted ?ix = insert loc (ix_deleted ix)" by (rule d)
  show "dom (ix_t2l ?ix) = dom (ix_t2l ix) - {tag}" by (simp add: forget_tag_def)
  show "book_inv ?ix"
    unfolding book_inv_def l d
  proof (intro conjI)
    show "nnm_inv (ix_l2t ?ix)" using nnm_map.inv_del [OF I(1)] by (simp add: forget_tag_def)
    show "nnm_map.inverse_of (ix_l2t ?ix) (ix_t2l ?ix)"
      using nnm_map.inverse_del [OF I(1,3) tag] by (simp add: forget_tag_def)
    show "live ix - {loc} \<union> insert loc (ix_deleted ix) \<union> nns_elems (ix_empty ix) = {..<ix_max_points ix}"
      using I(4) L by auto
    show "(live ix - {loc}) \<inter> insert loc (ix_deleted ix) = {}" "(live ix - {loc}) \<inter> nns_elems (ix_empty ix) = {}"
      "insert loc (ix_deleted ix) \<inter> nns_elems (ix_empty ix) = {}" using I(5,6,7) L(1) by auto
    show "ix_nd ?ix + nns_size (ix_empty ix) = ix_max_points ix" using I(8) by (simp add: forget_tag_def)
  qed (use I(2,9,10) in simp_all)
qed

lemma book_compacted [simp]: "book_inv (ix\<lparr>ix_data_compacted := c\<rparr>) = book_inv ix"
  by (simp add: book_inv_def)

lemma release_deleted_book:
  assumes inv: "book_inv ix" and ls: "set ls = ix_deleted ix" "distinct ls"
  shows "\<exists>ix'. release_locations ls (ix\<lparr>ix_deleted := {}\<rparr>) = Inr (card (live ix), ix') \<and> book_inv ix'
     \<and> ix_deleted ix' = {} \<and> ix_t2l ix' = ix_t2l ix \<and> ix_l2t ix' = ix_l2t ix \<and> ix_nd ix' = card (live ix)
     \<and> ix_graph ix' = ix_graph ix \<and> ix_data ix' = ix_data ix \<and> ix_max_points ix' = ix_max_points ix
     \<and> nns_elems (ix_empty ix') = ix_deleted ix \<union> nns_elems (ix_empty ix)
     \<and> ix_num_frozen ix' = ix_num_frozen ix \<and> ix_start ix' = ix_start ix \<and> ix_filtered ix' = ix_filtered ix"
proof -
  note I = book_invD [OF inv]
  let ?ix = "ix\<lparr>ix_deleted := {}\<rparr>"
  have "releasing (ix_deleted ix) ?ix"
    unfolding releasing_def
  proof (intro conjI)
    show "live ?ix \<union> ix_deleted ?ix \<union> nns_elems (ix_empty ?ix) \<union> ix_deleted ix = {..<ix_max_points ?ix}"
      using I(4) by auto
    show "ix_deleted ix \<inter> (live ?ix \<union> ix_deleted ?ix \<union> nns_elems (ix_empty ?ix)) = {}" using I(5,7) by auto
  qed (use I(1,2,3,6,8,9,10) in simp_all)
  then obtain slots where r: "foldR release_location ls ?ix = Inr (?ix\<lparr>ix_empty := slots, ix_nd := ix_nd ix - length ls\<rparr>)"
      "nns_elems slots = ix_deleted ix \<union> nns_elems (ix_empty ix)" "book_inv (?ix\<lparr>ix_empty := slots, ix_nd := ix_nd ix - length ls\<rparr>)"
    using release_all_spec [of "ix_deleted ix" ?ix ls] ls by auto
  let ?ix' = "?ix\<lparr>ix_empty := slots, ix_nd := ix_nd ix - length ls\<rparr>"
  have "length ls = card (ix_deleted ix)" using ls by (metis distinct_card)
  then have nd: "ix_nd ?ix' = card (live ix)" using nd_counts [OF inv] live_card [OF inv] by simp
  have "nns_size (ix_empty ?ix') + ix_nd ?ix' = ix_max_points ?ix'" using book_invD(8) [OF r(3)] by simp
  then have "release_locations ls ?ix = Inr (ix_nd ?ix', ?ix')" by (simp add: release_locations_def r(1))
  then show ?thesis using r nd by (intro exI [of _ ?ix']) simp
qed

section \<open>The tag table as the user sees it\<close>

text \<open>
  The bookkeeping part of each update: an insertion reserves a location and registers the tag; a
  consolidation ends by releasing the deleted locations.
\<close>

datatype book_op = Insert nat | Delete nat | Delete_All "nat list" | Consolidate

definition register :: "'a index_config \<Rightarrow> nat \<Rightarrow> 'a index \<Rightarrow> (nat option \<times> 'a index) result" where
  "register cfg tag ix =
     bindR (reserve_location ix) (\<lambda>(location, ix1).
       case location of
         None \<Rightarrow> Inr (None, ix1)
       | Some l \<Rightarrow> bindR (add_tag cfg tag l ix1) (\<lambda>(added, ix2). Inr (if added then Some l else None, ix2)))"

fun book_exec :: "'a index_config \<Rightarrow> book_op \<Rightarrow> 'a index \<Rightarrow> 'a index result" where
  "book_exec cfg (Insert tag) ix = bindR (register cfg tag ix) (\<lambda>(_, ix'). Inr ix')"
| "book_exec cfg (Delete tag) ix = Inr (snd (lazy_delete tag ix))"
| "book_exec cfg (Delete_All tags) ix = bindR (lazy_delete_list tags [] ix) (\<lambda>(_, ix'). Inr ix')"
| "book_exec cfg Consolidate ix =
     bindR (release_locations (ic_order cfg (ix_deleted ix)) (ix\<lparr>ix_deleted := {}\<rparr>)) (\<lambda>(_, ix'). Inr ix')"

text \<open>The specification: the set of active tags, and how many locations wait for a consolidation.\<close>

fun spec_op :: "nat \<Rightarrow> book_op \<Rightarrow> nat set \<times> nat \<Rightarrow> nat set \<times> nat" where
  "spec_op cap (Insert tag) (A, p) = (if cap \<le> card A + p then A else insert tag A, p)"
| "spec_op cap (Delete tag) (A, p) = (A - {tag}, if tag \<in> A then p + 1 else p)"
| "spec_op cap (Delete_All tags) (A, p) = (A - set tags, p + card (A \<inter> set tags))"
| "spec_op cap Consolidate (A, p) = (A, 0)"

definition abs_tags :: "'a index \<Rightarrow> nat set \<times> nat" where
  "abs_tags ix = (dom (ix_t2l ix), card (ix_deleted ix))"

definition order_ok :: "(nat set \<Rightarrow> nat list) \<Rightarrow> bool" where
  "order_ok ord \<longleftrightarrow> (\<forall>S. finite S \<longrightarrow> set (ord S) = S \<and> distinct (ord S))"

lemma book_finite: "book_inv ix \<Longrightarrow> finite (ix_deleted ix)"
  using book_invD(4) [of ix] by (metis finite_Un finite_lessThan)

lemma register_cases:
  assumes inv: "book_inv ix" and tags: "ic_enable_tags cfg"
  shows "(ix_max_points ix \<le> ix_nd ix \<and> register cfg tag ix = Inr (None, ix))
     \<or> (ix_nd ix < ix_max_points ix \<and> tag \<in> dom (ix_t2l ix) \<and> (\<exists>slots. register cfg tag ix = Inr (None, ix\<lparr>ix_empty := slots\<rparr>)
          \<and> book_inv (ix\<lparr>ix_empty := slots\<rparr>) \<and> nns_elems slots = nns_elems (ix_empty ix)))
     \<or> (ix_nd ix < ix_max_points ix \<and> tag \<notin> dom (ix_t2l ix) \<and> (\<exists>l slots ix'. register cfg tag ix = Inr (Some l, ix')
          \<and> l \<in> nns_elems (ix_empty ix) \<and> nns_elems slots = nns_elems (ix_empty ix) - {l} \<and> book_inv ix'
          \<and> ix' = ix\<lparr>ix_empty := slots, ix_nd := ix_nd ix + 1, ix_t2l := (ix_t2l ix)(tag \<mapsto> l), ix_l2t := nnm_set (ix_l2t ix) l tag\<rparr>))"
proof (cases "ix_nd ix < ix_max_points ix")
  case False
  then show ?thesis by (simp add: register_def reserve_full not_less)
next
  case True
  note I = book_invD [OF inv]
  obtain l slots where r: "reserve_location ix = Inr (Some l, ix\<lparr>ix_empty := slots, ix_nd := ix_nd ix + 1\<rparr>)"
      "l \<in> nns_elems (ix_empty ix)" "nns_inv slots" "nns_elems slots = nns_elems (ix_empty ix) - {l}"
      "nns_size (ix_empty ix) = nns_size slots + 1" "length (nns_bits slots) = length (nns_bits (ix_empty ix))"
    using reserve_spec [OF inv True] by blast
  show ?thesis
  proof (cases "ix_t2l ix tag")
    case None
    then show ?thesis
      using True r tags register_book [OF inv r(2-6) None] by (auto simp: register_def add_tag_def)
  next
    case (Some k)
    let ?ix = "ix\<lparr>ix_empty := slots, ix_nd := ix_nd ix + 1\<rparr>"
    have "releasing {l} ?ix"
      unfolding releasing_def
    proof (intro conjI)
      show "live ?ix \<union> ix_deleted ?ix \<union> nns_elems (ix_empty ?ix) \<union> {l} = {..<ix_max_points ?ix}"
        using I(4) r(2,4) by auto
      show "live ?ix \<inter> nns_elems (ix_empty ?ix) = {}" "ix_deleted ?ix \<inter> nns_elems (ix_empty ?ix) = {}"
        "{l} \<inter> (live ?ix \<union> ix_deleted ?ix \<union> nns_elems (ix_empty ?ix)) = {}"
        using I(6,7) r(2,4) by auto
    qed (use I(1,2,3,5,8,9,10) r in simp_all)
    then obtain s2 where s2: "release_location l ?ix = Inr (?ix\<lparr>ix_empty := s2, ix_nd := ix_nd ?ix - 1\<rparr>)"
        "nns_elems s2 = insert l (nns_elems (ix_empty ?ix))" "releasing ({l} - {l}) (?ix\<lparr>ix_empty := s2, ix_nd := ix_nd ?ix - 1\<rparr>)"
      using release_location_spec [of "{l}" ?ix l] by blast
    have e: "?ix\<lparr>ix_empty := s2, ix_nd := ix_nd ?ix - 1\<rparr> = ix\<lparr>ix_empty := s2\<rparr>" by simp
    have "book_inv (ix\<lparr>ix_empty := s2\<rparr>)" using s2(3) unfolding e Diff_cancel releasing_done .
    moreover have "register cfg tag ix = Inr (None, ix\<lparr>ix_empty := s2\<rparr>)"
      using r(1) s2(1) Some tags by (simp add: register_def add_tag_def e)
    moreover have "nns_elems s2 = nns_elems (ix_empty ix)" using s2(2) r(2,4) by auto
    ultimately show ?thesis using True Some by blast
  qed
qed

lemma delete_each_spec:
  "book_inv ix \<Longrightarrow> book_inv (snd (delete_each tags failed ix))
     \<and> abs_tags (snd (delete_each tags failed ix))
         = (dom (ix_t2l ix) - set tags, card (ix_deleted ix) + card (dom (ix_t2l ix) \<inter> set tags))
     \<and> ix_max_points (snd (delete_each tags failed ix)) = ix_max_points ix
     \<and> (\<exists>more. fst (delete_each tags failed ix) = failed @ more)"
proof (induction tags arbitrary: failed ix)
  case Nil
  then show ?case by (simp add: abs_tags_def)
next
  case (Cons tag tags)
  show ?case
  proof (cases "ix_t2l ix tag")
    case None
    then have "dom (ix_t2l ix) - set (tag # tags) = dom (ix_t2l ix) - set tags"
      "dom (ix_t2l ix) \<inter> set (tag # tags) = dom (ix_t2l ix) \<inter> set tags" by auto
    then show ?thesis using Cons.IH [OF Cons.prems, of "failed @ [tag]"] None by auto
  next
    case (Some loc)
    let ?ix = "forget_tag tag loc ix"
    note F = forget_tag_book [OF Cons.prems Some]
    have fin: "finite (dom (ix_t2l ix))" "finite (ix_deleted ix)"
      using live_card [OF Cons.prems] book_finite [OF Cons.prems] by simp_all
    have c1: "card (ix_deleted ?ix) = card (ix_deleted ix) + 1" using F(2,3) fin by simp
    have tagd: "tag \<in> dom (ix_t2l ix)" using Some by auto
    have "card (dom (ix_t2l ix) \<inter> set (tag # tags)) = card ((dom (ix_t2l ix) - {tag}) \<inter> set tags) + 1"
    proof -
      have "dom (ix_t2l ix) \<inter> set (tag # tags) = insert tag ((dom (ix_t2l ix) - {tag}) \<inter> set tags)" using tagd by auto
      then show ?thesis using fin by simp
    qed
    moreover have "dom (ix_t2l ix) - {tag} - set tags = dom (ix_t2l ix) - set (tag # tags)" by auto
    moreover have "ix_max_points ?ix = ix_max_points ix" by (simp add: forget_tag_def)
    ultimately show ?thesis using Cons.IH [OF F(1), of failed] Some c1 F(4) by simp
  qed
qed

lemma book_exec_spec:
  assumes "book_inv ix" "ic_enable_tags cfg" "order_ok (ic_order cfg)"
  shows "\<exists>ix'. book_exec cfg op ix = Inr ix' \<and> book_inv ix' \<and> abs_tags ix' = spec_op (ix_max_points ix) op (abs_tags ix)
     \<and> ix_max_points ix' = ix_max_points ix"
proof (cases op)
  case (Insert tag)
  have full: "ix_max_points ix \<le> ix_nd ix \<longleftrightarrow> ix_max_points ix \<le> card (dom (ix_t2l ix)) + card (ix_deleted ix)"
    using nd_counts [OF assms(1)] by simp
  from register_cases [OF assms(1,2), of tag] show ?thesis
  proof (elim disjE conjE exE, goal_cases)
    case 1
    then show ?case using Insert full assms(1) by (simp add: abs_tags_def)
  next
    case (2 slots)
    then show ?case using Insert full by (auto simp: abs_tags_def insert_absorb)
  next
    case (3 l slots ix')
    then show ?case using Insert full by (auto simp: abs_tags_def)
  qed
next
  case (Delete tag)
  have "lazy_delete tag ix = (let (f, ix') = delete_each [tag] [] (ix\<lparr>ix_data_compacted := False\<rparr>) in (if f = [] then 0 else -1, ix'))"
    by (simp add: lazy_delete_def split: option.splits)
  then have "snd (lazy_delete tag ix) = snd (delete_each [tag] [] (ix\<lparr>ix_data_compacted := False\<rparr>))"
    by (simp add: case_prod_beta Let_def)
  then show ?thesis
    using delete_each_spec [of "ix\<lparr>ix_data_compacted := False\<rparr>" "[tag]" "[]"] assms(1) Delete
    by (auto simp: abs_tags_def)
next
  case (Delete_All tags)
  then show ?thesis
    using delete_each_spec [of "ix\<lparr>ix_data_compacted := False\<rparr>" tags "[]"] assms(1)
    by (auto simp: abs_tags_def lazy_delete_list_def case_prod_beta)
next
  case Consolidate
  have "finite (ix_deleted ix)" by (rule book_finite [OF assms(1)])
  then have "set (ic_order cfg (ix_deleted ix)) = ix_deleted ix" "distinct (ic_order cfg (ix_deleted ix))"
    using assms(3) by (simp_all add: order_ok_def)
  from release_deleted_book [OF assms(1) this] show ?thesis using Consolidate by (auto simp: abs_tags_def)
qed

lemma fresh_book:
  assumes "ic_dynamic cfg" "ic_enable_tags cfg" "max_points < 2 ^ 32"
  shows "\<exists>ix. index_make cfg max_points frozen filtered data graph = Inr ix \<and> book_inv ix \<and> abs_tags ix = ({}, 0)
     \<and> ix_max_points ix = max 1 max_points \<and> ix_data_compacted ix \<and> ix_nd ix = 0
     \<and> nns_values (ix_empty ix) = [0..<max 1 max_points]"
proof -
  let ?m = "if max_points = 0 then 1 else max_points"
  let ?s = "foldl nns_insert nns_empty [0..<?m]"
  have s: "nns_inv ?s" "nns_elems ?s = {..<?m}" using slots.put_all [of nns_empty "[0..<?m]"] by auto
  have bits: "n \<le> length (nns_bits (foldl nns_insert nns_empty [0..<n]))" for n
    by (induction n) (simp_all add: nns_bits_insert)
  have vals: "nns_values (foldl nns_insert nns_empty [0..<n]) = [0..<n]" for n
    by (induction n) (simp_all add: nns_insert_def Let_def, simp add: nns_empty_def)
  have "nns_size ?s = ?m" using nns_size_card [OF s(1)] s(2) by simp
  moreover have "nnm_try_get (nnm_empty :: nat nnm) = Map.empty" by (auto simp: nnm_try_get_def nnm_contains_def nnm_empty_def)
  moreover have "max 1 max_points = ?m" by simp
  ultimately show ?thesis
    using assms s bits [of ?m] vals [of ?m]
    by (cases filtered; cases "frozen = 0") (simp_all add: index_make_def enable_delete_def Let_def book_inv_def live_def nnm_map.inverse_of_def abs_tags_def)
qed


definition demo_df :: "nat distance_fn" where
  "demo_df = \<lparr>df_compare = (\<lambda>a b. Fin (of_int \<bar>int (hd a) - int (hd b)\<bar>)), df_required_alignment = 1,
     df_preprocessing_required = False, df_preprocess_base_points = (\<lambda>r d n. r)\<rparr>"

definition demo_cfg :: "nat index_config" where
  "demo_cfg = \<lparr>ic_df = demo_df, ic_metric = L2, ic_dynamic = True, ic_enable_tags = True, ic_conc_consolidate = False,
     ic_L = 4, ic_R = 2, ic_maxc = 10, ic_alpha = Fin 1, ic_filterL = 4, ic_saturate = False, ic_libm = demo_libm,
     ic_mcgi = mcgi_initial, ic_order = sorted_list_of_set, ic_to_float = (\<lambda>x. Fin (of_nat x))\<rparr>"

lemma demo_cfg_simps [simp]:
  "ic_dynamic demo_cfg" "ic_enable_tags demo_cfg" "order_ok (ic_order demo_cfg)" "\<not> ic_conc_consolidate demo_cfg"
  by (simp_all add: demo_cfg_def order_ok_def)


end
