(* ===== verification/Build.thy ===== *)
theory Build
  imports Index_State
begin

text \<open>
  Building the graph (\<^verbatim>\<open>src/index.cpp\<close>): the search-and-prune step for one
  point, the reverse edges of \<^verbatim>\<open>inter_insert\<close>, the two passes of
  \<^verbatim>\<open>link\<close>, \<^verbatim>\<open>prune_all_neighbors\<close>, and the build entry
  points. The parallel loops run in the order of the loop variable. A scratch space comes from the
  pool and is cleared when it goes back to it, so it is threaded through the loops.
\<close>

section \<open>One point\<close>

text \<open>\<^verbatim>\<open>std::set<Neighbor>::insert\<close> over a list of candidates.\<close>

fun set_insert :: "neighbor \<Rightarrow> neighbor list \<Rightarrow> neighbor list" where
  "set_insert x [] = [x]"
| "set_insert x (y # ys) =
     (if nbr_less x y then x # y # ys else if nbr_less y x then y # set_insert x ys else y # ys)"

definition load_query :: "'a index \<Rightarrow> nat \<Rightarrow> 'a scratch \<Rightarrow> 'a scratch result" where
  "load_query ix location s =
     bindR (ds_get_vector (ix_data ix) location) (\<lambda>v.
       if length (sc_query s) < length v then Inl UndefinedBehaviour
       else Inr (s\<lparr>sc_query := v @ drop (length v) (sc_query s)\<rparr>))"

text \<open>\<^verbatim>\<open>_label_to_start_id[x]\<close> inserts 0 for a label that has no start point.\<close>

definition start_of_label :: "nat \<Rightarrow> (nat \<rightharpoonup> nat) \<Rightarrow> nat \<times> (nat \<rightharpoonup> nat)" where
  "start_of_label x m = (case m x of Some i \<Rightarrow> (i, m) | None \<Rightarrow> (0, m(x \<mapsto> 0)))"

fun starts_of_labels :: "nat list \<Rightarrow> (nat \<rightharpoonup> nat) \<Rightarrow> nat list \<times> (nat \<rightharpoonup> nat)" where
  "starts_of_labels [] m = ([], m)"
| "starts_of_labels (x # xs) m =
     (let (i, m1) = start_of_label x m; (is, m2) = starts_of_labels xs m1 in (i # is, m2))"

definition search_from ::
  "'a index_config \<Rightarrow> 'a index \<Rightarrow> nat \<Rightarrow> nat list \<Rightarrow> bool \<Rightarrow> nat list \<Rightarrow> 'a scratch \<Rightarrow> 'a scratch result" where
  "search_from cfg ix Lsize init_ids use_filter labels s =
     bindR (iterate_to_fixed_point (search_env_of cfg ix (sc_query s) use_filter labels False) Lsize init_ids s)
       (\<lambda>(_, s'). Inr s')"

text \<open>The candidates of a point, in the pool of the scratch space.\<close>

definition search_candidates ::
  "'a index_config \<Rightarrow> 'a index \<Rightarrow> nat \<Rightarrow> nat \<Rightarrow> bool \<Rightarrow> nat \<Rightarrow> 'a scratch \<Rightarrow> ('a index \<times> 'a scratch) result" where
  "search_candidates cfg ix location Lindex use_filter filteredL s =
     (if \<not> use_filter
      then bindR (load_query ix location s) (\<lambda>s1.
           bindR (search_from cfg ix Lindex (get_init_ids ix) False [] s1) (\<lambda>s2. Inr (ix, s2)))
      else bindR (vec_at (ix_labels ix) location) (\<lambda>labels.
           let (starts, m) = starts_of_labels labels (ix_label_start ix); ix' = ix\<lparr>ix_label_start := m\<rparr> in
           bindR (load_query ix' location s) (\<lambda>s1.
           bindR (search_from cfg ix' filteredL starts True labels s1) (\<lambda>s2.
           let best1 = fold set_insert (sc_pool s2) [] in
           bindR (load_query ix' location (scratch_clear s2)) (\<lambda>s3.
           bindR (search_from cfg ix' Lindex (get_init_ids ix') False [] s3) (\<lambda>s4.
             Inr (ix', s4\<lparr>sc_pool := fold set_insert (sc_pool s4) best1\<rparr>)))))))"

definition search_for_point_and_prune ::
  "'a index_config \<Rightarrow> 'a index \<Rightarrow> nat \<Rightarrow> nat \<Rightarrow> nat list \<Rightarrow> bool \<Rightarrow> nat \<Rightarrow> 'a scratch
     \<Rightarrow> (nat list \<times> 'a index \<times> 'a scratch) result" where
  "search_for_point_and_prune cfg ix location Lindex pruned_list use_filter filteredL s =
     bindR (search_candidates cfg ix location Lindex use_filter filteredL s) (\<lambda>(ix', s1).
     let pool = filter (\<lambda>x. nbr_id x \<noteq> location) (sc_pool s1) in
     if pruned_list \<noteq> [] then Inl (ANNException ''ERROR: non-empty pruned_list passed'')
     else bindR (prune_neighbors (prune_env_of cfg ix') location pool s1) (\<lambda>(pool', out, s2).
       let out' = (if out = [] then (if pool' \<noteq> [] then [nbr_id (hd pool')] else [ix_start ix']) else out)
       in Inr (out', ix', s2\<lparr>sc_pool := pool'\<rparr>)))"

section \<open>Reverse edges\<close>

text \<open>Distinct neighbours other than the node itself, with their distances to it.\<close>

fun nbr_pool :: "'a index_config \<Rightarrow> 'a index \<Rightarrow> nat \<Rightarrow> nat list \<Rightarrow> nat set \<Rightarrow> neighbor list result" where
  "nbr_pool cfg ix des [] visited = Inr []"
| "nbr_pool cfg ix des (i # ids) visited =
     (if i \<notin> visited \<and> i \<noteq> des
      then bindR (ds_distance_locs (ic_df cfg) (ix_data ix) des i) (\<lambda>d.
           bindR (nbr_pool cfg ix des ids (insert i visited)) (\<lambda>r. Inr (Neighbor i d # r)))
      else nbr_pool cfg ix des ids visited)"

text \<open>\<^verbatim>\<open>(uint64_t)(GRAPH_SLACK_FACTOR * range)\<close>.\<close>

fun trunc_fl :: "fl \<Rightarrow> nat" where
  "trunc_fl (Fin q) = nat \<lfloor>q\<rfloor>"
| "trunc_fl x = 0"

definition slack_size :: "nat \<Rightarrow> nat" where
  "slack_size rng = trunc_fl (fl_mul F32 GRAPH_SLACK_FACTOR (round_fl F32 (of_nat rng)))"

definition inter_insert_one ::
  "'a index_config \<Rightarrow> nat \<Rightarrow> nat \<Rightarrow> nat \<Rightarrow> 'a index \<times> 'a scratch \<Rightarrow> ('a index \<times> 'a scratch) result" where
  "inter_insert_one cfg n rng des = (\<lambda>(ix, s).
     bindR (get_neighbours (ix_graph ix) des) (\<lambda>des_pool.
     if n \<in> set des_pool then Inr (ix, s)
     else if length des_pool < slack_size rng
     then bindR (add_neighbour des n (ix_graph ix)) (\<lambda>g. Inr (ix\<lparr>ix_graph := g\<rparr>, s))
     else bindR (nbr_pool cfg ix des (des_pool @ [n]) {}) (\<lambda>pool.
          bindR (prune_neighbors (prune_env_of cfg ix) des pool s) (\<lambda>(_, out, s').
          bindR (set_neighbours des out (ix_graph ix)) (\<lambda>g. Inr (ix\<lparr>ix_graph := g\<rparr>, s'))))))"

definition inter_insert ::
  "'a index_config \<Rightarrow> nat \<Rightarrow> nat list \<Rightarrow> nat \<Rightarrow> 'a index \<times> 'a scratch \<Rightarrow> ('a index \<times> 'a scratch) result" where
  "inter_insert cfg n pruned_list rng st = foldR (inter_insert_one cfg n rng) pruned_list st"

section \<open>The whole graph\<close>

definition calculate_entry_point :: "'a index_config \<Rightarrow> 'a index \<Rightarrow> nat result" where
  "calculate_entry_point cfg ix = ds_calculate_medoid (ic_to_float cfg) (ix_data ix)"

definition visit_order :: "'a index \<Rightarrow> nat list" where
  "visit_order ix = [0..<u32 (ix_nd ix)] @ [u32 (ix_max_points ix)..<ix_total ix]"

definition link_node :: "'a index_config \<Rightarrow> nat \<Rightarrow> 'a index \<times> 'a scratch \<Rightarrow> ('a index \<times> 'a scratch) result" where
  "link_node cfg node = (\<lambda>(ix, s).
     bindR (search_for_point_and_prune cfg ix node (ic_L cfg) [] (ix_filtered ix) (ic_filterL cfg) s) (\<lambda>(pruned, ix1, s1).
     bindR (set_neighbours node pruned (ix_graph ix1)) (\<lambda>g.
     bindR (inter_insert cfg node pruned (ic_R cfg) (ix1\<lparr>ix_graph := g\<rparr>, s1)) (\<lambda>(ix2, s2).
       Inr (ix2, scratch_clear s2)))))"

text \<open>The final cleanup of one node: prune a list that is longer than \<open>rng\<close>.\<close>

definition shrink_node ::
  "'a index_config \<Rightarrow> nat \<Rightarrow> nat \<Rightarrow> fl option \<Rightarrow> nat \<Rightarrow> 'a index \<times> 'a scratch \<Rightarrow> ('a index \<times> 'a scratch) result" where
  "shrink_node cfg rng maxc alpha node = (\<lambda>(ix, s).
     bindR (get_neighbours (ix_graph ix) node) (\<lambda>ns.
     if length ns \<le> rng then Inr (ix, s)
     else bindR (nbr_pool cfg ix node ns {}) (\<lambda>pool.
          bindR (case alpha of None \<Rightarrow> prune_neighbors (prune_env_of cfg ix) node pool s
                 | Some a \<Rightarrow> prune_neighbors_with (prune_env_of cfg ix) node pool rng maxc a s) (\<lambda>(_, out, s').
          bindR (clear_neighbours node (ix_graph ix)) (\<lambda>g1.
          bindR (set_neighbours node out g1) (\<lambda>g.
            Inr (ix\<lparr>ix_graph := g\<rparr>, scratch_clear s')))))))"

definition link :: "'a index_config \<Rightarrow> 'a index \<times> 'a scratch \<Rightarrow> ('a index \<times> 'a scratch) result" where
  "link cfg = (\<lambda>(ix, s).
     bindR (if 0 < ix_num_frozen ix then Inr (u32 (ix_max_points ix)) else calculate_entry_point cfg ix) (\<lambda>start.
     let ix1 = ix\<lparr>ix_start := start\<rparr> in
     bindR (foldR (link_node cfg) (visit_order ix) (ix1, s)) (\<lambda>st.
       foldR (shrink_node cfg (ic_R cfg) (ic_maxc cfg) None) (visit_order ix) st)))"

definition prune_all_neighbors ::
  "'a index_config \<Rightarrow> nat \<Rightarrow> nat \<Rightarrow> fl \<Rightarrow> 'a index \<times> 'a scratch \<Rightarrow> ('a index \<times> 'a scratch) result" where
  "prune_all_neighbors cfg rng maxc alpha = (\<lambda>(ix, s).
     foldR (shrink_node cfg rng maxc (Some alpha))
       (filter (\<lambda>node. node < ix_nd ix \<or> ix_max_points ix \<le> node) [0..<ix_total ix]) (ix\<lparr>ix_filtered := True\<rparr>, s))"

section \<open>Build entry points\<close>

definition set_start_points :: "'a index_config \<Rightarrow> ('a::zero) list \<Rightarrow> 'a index \<Rightarrow> 'a index result" where
  "set_start_points cfg data ix =
     (if 0 < ix_nd ix then Inl (ANNException ''Can not set starting point for a non-empty index'')
      else if length data \<noteq> ix_num_frozen ix * ds_dim (ix_data ix) then Inl (ANNException ''Invalid number of points'')
      else bindR (foldR (\<lambda>i st. ds_set_vector (ic_df cfg) (i + ix_max_points ix)
                        (take (ds_dim (ix_data ix)) (drop (i * ds_dim (ix_data ix)) data)) st)
                   [0..<ix_num_frozen ix] (ix_data ix)) (\<lambda>d.
             Inr (ix\<lparr>ix_data := d, ix_has_built := True\<rparr>)))"

definition generate_frozen_point :: "'a index_config \<Rightarrow> 'a index \<Rightarrow> 'a index result" where
  "generate_frozen_point cfg ix =
     (if ix_num_frozen ix = 0 then Inr ix
      else if 1 < ix_num_frozen ix
      then Inl (ANNException ''More than one frozen point not supported in generate_frozen_point'')
      else if ix_nd ix = 0 then Inl (ANNException ''ERROR: Can not pick a frozen point since nd=0'')
      else bindR (calculate_entry_point cfg ix) (\<lambda>res.
           bindR (ds_copy_vectors res (ix_max_points ix) 1 (ix_data ix)) (\<lambda>d.
             Inr (ix\<lparr>ix_data := d, ix_frozen_used := ix_frozen_used ix + 1\<rparr>))))"

fun set_tags :: "nat \<Rightarrow> nat list \<Rightarrow> 'a index \<Rightarrow> 'a index" where
  "set_tags i [] ix = ix"
| "set_tags i (t # tags) ix =
     set_tags (i + 1) tags (ix\<lparr>ix_t2l := (ix_t2l ix)(t \<mapsto> u32 i), ix_l2t := nnm_set (ix_l2t ix) (u32 i) t\<rparr>)"

definition build_with_data_populated ::
  "'a index_config \<Rightarrow> nat list \<Rightarrow> 'a index \<times> 'a scratch \<Rightarrow> ('a index \<times> 'a scratch) result" where
  "build_with_data_populated cfg tags = (\<lambda>(ix, s).
     if ix_nd ix < 1 then Inl (ANNException ''Error: Trying to build an index with 0 points'')
     else if ic_enable_tags cfg \<and> length tags \<noteq> ix_nd ix
     then Inl (ANNException ''ERROR: Driver requests loading points from file, but tags vector has another size'')
     else let ix1 = (if ic_enable_tags cfg then set_tags 0 tags ix else ix) in
          bindR (generate_frozen_point cfg ix1) (\<lambda>ix2.
          bindR (link cfg (ix2, s)) (\<lambda>(ix3, s'). Inr (ix3\<lparr>ix_has_built := True\<rparr>, s'))))"

definition build_from_memory ::
  "'a index_config \<Rightarrow> ('a::zero) list \<Rightarrow> nat \<Rightarrow> nat list \<Rightarrow> 'a index \<times> 'a scratch \<Rightarrow> ('a index \<times> 'a scratch) result" where
  "build_from_memory cfg data num_points_to_load tags = (\<lambda>(ix, s).
     if num_points_to_load = 0 then Inl (ANNException ''Do not call build with 0 points'')
     else bindR (ds_populate_data (ic_df cfg) data num_points_to_load (ix_data ix)) (\<lambda>d.
          build_with_data_populated cfg tags (ix\<lparr>ix_nd := num_points_to_load, ix_data := d\<rparr>, s)))"

definition build_from_file ::
  "'a index_config \<Rightarrow> 'a codec \<Rightarrow> byte list option \<Rightarrow> nat \<Rightarrow> nat list \<Rightarrow> ('a::zero) index \<times> 'a scratch
     \<Rightarrow> ('a index \<times> 'a scratch) result" where
  "build_from_file cfg T file num_points_to_load tags = (\<lambda>(ix, s).
     if num_points_to_load = 0 then Inl (ANNException ''Do not call build with 0 points'')
     else case file of
       None \<Rightarrow> Inl (ANNException ''ERROR: Data file does not exist.'')
     | Some bs \<Rightarrow>
         bindR (get_bin_metadata bs 0) (\<lambda>(file_num_points, file_dim).
         if ix_max_points ix < file_num_points
         then Inl (ANNException ''ERROR: index can support fewer points than the file has'')
         else if file_num_points < num_points_to_load
         then Inl (ANNException ''ERROR: Driver requests loading more points than the file has'')
         else if file_dim \<noteq> ds_dim (ix_data ix)
         then Inl (ANNException ''ERROR: Driver requests loading another dimension'')
         else bindR (ds_populate_file T (ic_df cfg) bs 0 (ix_data ix)) (\<lambda>d.
              build_with_data_populated cfg tags (ix\<lparr>ix_data := d, ix_nd := num_points_to_load\<rparr>, s))))"

text \<open>With a tag file: \<open>tag_file\<close> is \<open>None\<close> for a null name, \<open>Some None\<close> for a missing file.\<close>

definition build_with_tag_file ::
  "'a index_config \<Rightarrow> 'a codec \<Rightarrow> nat codec \<Rightarrow> byte list option \<Rightarrow> nat \<Rightarrow> byte list option option
     \<Rightarrow> ('a::zero) index \<times> 'a scratch \<Rightarrow> ('a index \<times> 'a scratch) result" where
  "build_with_tag_file cfg T TagT file num_points_to_load tag_file st =
     bindR (if \<not> ic_enable_tags cfg then Inr []
            else case tag_file of
              None \<Rightarrow> Inl (ANNException ''Tag filename is null, while _enable_tags is set'')
            | Some None \<Rightarrow> Inl (ANNException ''Tag file does not exist'')
            | Some (Some bs) \<Rightarrow>
                bindR (load_bin TagT bs 0) (\<lambda>(tag_data, npts, ndim).
                if npts < num_points_to_load
                then Inl (ANNException ''Loaded tags insufficient to populate tags for points to load'')
                else if length tag_data < num_points_to_load then Inl UndefinedBehaviour
                else Inr (take num_points_to_load tag_data)))
       (\<lambda>tags. build_from_file cfg T file num_points_to_load tags st)"

text \<open>A filtered build: labels, one start point per label, then the graph.\<close>

definition build_filtered_index ::
  "'a index_config \<Rightarrow> 'a codec \<Rightarrow> (nat \<Rightarrow> nat) \<Rightarrow> nat \<Rightarrow> byte list option \<Rightarrow> string option \<Rightarrow> nat \<Rightarrow> nat list
     \<Rightarrow> ('a::zero) index \<times> 'a scratch \<Rightarrow> ('a index \<times> 'a scratch) result" where
  "build_filtered_index cfg T rnd w file label_file num_points_to_load tags = (\<lambda>(ix, s).
     bindR (parse_label_file w label_file (ix_label_set ix)) (\<lambda>(l2l, labels, _).
     bindR (choose_medoids (ic_order cfg) rnd l2l labels (ix_universal ix) num_points_to_load (ix_medoid_counts ix)) (\<lambda>(starts, counts).
       build_from_file cfg T file num_points_to_load tags
         (ix\<lparr>ix_filtered := True, ix_labels := l2l, ix_label_set := labels, ix_label_start := starts,
             ix_medoid_counts := counts\<rparr>, s))))"

definition set_universal_label :: "nat \<Rightarrow> 'a index \<Rightarrow> 'a index" where
  "set_universal_label label ix = ix\<lparr>ix_use_universal := True, ix_universal := label\<rparr>"

text \<open>
  The build from filter parameters: \<open>None\<close> is an empty label file name, \<open>unv\<close> the
  universal label (empty if there is none).
\<close>

definition build_with_filter_params ::
  "'a index_config \<Rightarrow> 'a codec \<Rightarrow> (nat \<Rightarrow> nat) \<Rightarrow> ((string \<times> nat) list \<Rightarrow> (string \<times> nat) list) \<Rightarrow> nat \<Rightarrow> byte list option
     \<Rightarrow> string option \<Rightarrow> string \<Rightarrow> nat \<Rightarrow> ('a::zero) index \<times> 'a scratch \<Rightarrow> ('a index \<times> 'a scratch) result" where
  "build_with_filter_params cfg T rnd ord w file label_file unv num_points_to_load = (\<lambda>(ix, s).
     let points_to_load = (if num_points_to_load = 0 then ix_max_points ix else num_points_to_load) in
     case label_file of
       None \<Rightarrow> build_from_file cfg T file points_to_load [] (ix, s)
     | Some txt \<Rightarrow>
         bindR (convert_labels_string_to_int ord txt unv) (\<lambda>(labels_file_to_use, _).
           build_filtered_index cfg T rnd w file (Some labels_file_to_use) points_to_load []
             (if unv \<noteq> [] then set_universal_label 0 ix else ix, s)))"

section \<open>The distance scratch holds every list the build makes\<close>

lemma slack_le_capacity:
  assumes "1 \<le> r" "r < 2 ^ 24"
  shows "slack_size r \<le> dist_capacity r"
proof -
  let ?r = "of_nat r :: rat"
  have e: "(2::rat) powi (- 24) \<le> 1 / 32"
  proof -
    have "(2::rat) powi (- 24) \<le> 2 powi (- 5)" by (intro power_int_increasing) auto
    also have "(2::rat) powi (- 5) = 1 / 32" by (simp add: power_int_def power_divide)
    finally show ?thesis .
  qed
  have r1: "1 \<le> ?r" using assms(1) by simp
  have "?r < of_nat (2 ^ 24)" using assms(2) by (simp only: of_nat_less_iff)
  then have r24: "?r < 2 powi 24" by simp
  have rf: "round_fl F32 ?r = Fin ?r" by (rule round_fl_of_nat) (use r24 in simp)
  have rd: "round_fl F64 ?r = Fin ?r" by (rule round_fl_nat) (use assms(2) in simp)
  obtain g where g: "round_fl F32 (13 / 10) = Fin g" "1 \<le> g" "g \<le> 2"
    using round_fl_between [of 0 "13 / 10" 1 F32] by (auto simp: emin_def)
  have gr: "1 \<le> g * ?r" using mult_mono [OF g(2) r1] g(2) by simp
  have "g * ?r \<le> 2 * 2 powi 24" using g(2,3) r24 r1 by (intro mult_mono) auto
  also have "2 * 2 powi 24 = (2::rat) powi 25" by simp
  finally have gr25: "g * ?r \<le> 2 powi 25" .
  obtain y where y: "round_fl F32 (g * ?r) = Fin y"
    using round_fl_between [of 0 "g * ?r" 25 F32] gr gr25 by (auto simp: emin_def)
  have "y \<le> g * ?r * (1 + 2 powi (- 24))" by (rule round_fl_close(2) [OF gr y])
  also have "\<dots> \<le> g * ?r * (33 / 32)" by (rule mult_left_mono) (use e gr in simp_all)
  finally have y_le: "y \<le> g * ?r * (33 / 32)" .
  obtain c where c: "round_fl F64 (3 / 2 * g) = Fin c" "c \<le> 4"
    using round_fl_between [of 0 "3 / 2 * g" 2 F64] g(2,3) by (auto simp: emin_def)
  have c': "round_fl F64 (3 * g / 2) = Fin c" using c(1) by simp
  have "3 / 2 * g * (31 / 32) \<le> 3 / 2 * g * (1 - 2 powi (- 24))" by (rule mult_left_mono) (use e g in simp_all)
  also have "\<dots> \<le> c" by (rule round_fl_close(1) [OF _ c(1)]) (use g(2) in simp)
  finally have c_ge: "g * (93 / 64) \<le> c" by simp
  have cr: "g * (93 / 64) * ?r \<le> c * ?r" by (rule mult_right_mono [OF c_ge]) simp
  then have cr1: "1 \<le> c * ?r" using gr by simp
  have "c * ?r \<le> 4 * 2 powi 24" using c(2) r24 r1 by (intro mult_mono) auto
  also have "4 * 2 powi 24 = (2::rat) powi 26" by simp
  finally obtain z where z: "round_fl F64 (c * ?r) = Fin z"
    using round_fl_between [of 0 "c * ?r" 26 F64] cr1 by (auto simp: emin_def)
  have "c * ?r * (31 / 32) \<le> c * ?r * (1 - 2 powi (- 24))" by (rule mult_left_mono) (use e cr1 in simp_all)
  also have "\<dots> \<le> z" by (rule round_fl_close(1) [OF cr1 z])
  finally have "c * ?r * (31 / 32) \<le> z" .
  then have "y \<le> z" using y_le cr gr by simp
  moreover have "slack_size r = nat \<lfloor>y\<rfloor>" by (simp add: slack_size_def GRAPH_SLACK_FACTOR_def f32_def g(1) rf y)
  moreover have "dist_capacity r = nat \<lceil>z\<rceil>"
    by (simp add: dist_capacity_def GRAPH_SLACK_FACTOR_def f32_def g(1) rd c' z)
  ultimately show ?thesis by (simp add: nat_mono) linarith
qed

definition list_bound :: "nat \<Rightarrow> nat" where
  "list_bound r = max r (slack_size r)"

lemma list_bound_capacity: "1 \<le> r \<Longrightarrow> r < 2 ^ 24 \<Longrightarrow> list_bound r \<le> dist_capacity r"
  using slack_le_capacity [of r] dist_capacity_ge [of r] by (simp add: list_bound_def)

section \<open>Graphs over the nodes in use\<close>

text \<open>
  Every list has at most \<open>b\<close> entries and names existing nodes; the nodes of \<open>V\<close> (those in use)
  have edges to each other only. Lists of unused locations may be out of date.
\<close>

definition list_ok :: "nat set \<Rightarrow> nat \<Rightarrow> nat \<Rightarrow> nat \<Rightarrow> nat list \<Rightarrow> bool" where
  "list_ok V b n i ns \<longleftrightarrow> set ns \<subseteq> {..<n} \<and> length ns \<le> b \<and> (i \<in> V \<longrightarrow> set ns \<subseteq> V)"

definition graph_wf :: "nat set \<Rightarrow> nat \<Rightarrow> graph_store \<Rightarrow> bool" where
  "graph_wf V b g \<longleftrightarrow> adj.lists_ok (list_ok V b (gs_points g)) g"

lemma graph_wf_nth:
  assumes "graph_wf V b g" "i < gs_points g"
  shows "\<exists>ns. get_neighbours g i = Inr ns \<and> list_ok V b (gs_points g) i ns"
  using assms by (auto simp: graph_wf_def adj.lists_ok_def get_neighbours_def gs_points_def)

lemma graph_wfI:
  assumes "\<And>i ns. i < gs_points g \<Longrightarrow> get_neighbours g i = Inr ns \<Longrightarrow> list_ok V b (gs_points g) i ns"
  shows "graph_wf V b g"
  using assms by (simp add: graph_wf_def adj.lists_ok_def)

text \<open>Writing and extending a list, and emptying it first.\<close>

lemma graph_wf_set:
  assumes "graph_wf V b g" "i < gs_points g" "list_ok V b (gs_points g) i ns"
  shows "\<exists>g'. set_neighbours i ns g = Inr g' \<and> graph_wf V b g' \<and> gs_points g' = gs_points g
     \<and> get_neighbours g' i = Inr ns \<and> (\<forall>j. j \<noteq> i \<longrightarrow> get_neighbours g' j = get_neighbours g j)"
proof -
  obtain g' where "set_neighbours i ns g = Inr g'" "adj.lists_ok (list_ok V b (gs_points g)) g'" "gs_points g' = gs_points g"
      "get_neighbours g' i = Inr ns" "\<forall>j. j \<noteq> i \<longrightarrow> get_neighbours g' j = get_neighbours g j"
    using adj.setn_ok [OF assms(1) [unfolded graph_wf_def] assms(3,2)] by blast
  then show ?thesis by (intro exI [of _ g']) (simp add: graph_wf_def)
qed

lemma graph_wf_add:
  assumes "graph_wf V b g" "i < gs_points g" "get_neighbours g i = Inr ns" "list_ok V b (gs_points g) i (ns @ [j])"
  shows "\<exists>g'. add_neighbour i j g = Inr g' \<and> graph_wf V b g' \<and> gs_points g' = gs_points g
     \<and> get_neighbours g' i = Inr (ns @ [j]) \<and> (\<forall>j. j \<noteq> i \<longrightarrow> get_neighbours g' j = get_neighbours g j)"
proof -
  obtain g' where "add_neighbour i j g = Inr g'" "adj.lists_ok (list_ok V b (gs_points g)) g'" "gs_points g' = gs_points g"
      "get_neighbours g' i = Inr (ns @ [j])" "\<forall>j. j \<noteq> i \<longrightarrow> get_neighbours g' j = get_neighbours g j"
    using adj.addn_ok [OF assms(1) [unfolded graph_wf_def] assms(3,4,2)] by blast
  then show ?thesis by (intro exI [of _ g']) (simp add: graph_wf_def)
qed

lemma clear_neighbours_law:
  assumes "i < gs_points g"
  shows "\<exists>g'. clear_neighbours i g = Inr g' \<and> gs_points g' = gs_points g \<and> get_neighbours g' i = Inr []
     \<and> (\<forall>j. j \<noteq> i \<longrightarrow> get_neighbours g' j = get_neighbours g j)"
  using assms by (auto simp: clear_neighbours_def gs_points_def get_neighbours_def)

lemma graph_wf_other:
  assumes "graph_wf V b g" "gs_points g' = gs_points g" "get_neighbours g' i = Inr ns" "list_ok V b (gs_points g) i ns"
    and "\<forall>j. j \<noteq> i \<longrightarrow> get_neighbours g' j = get_neighbours g j"
  shows "graph_wf V b g'"
proof (rule graph_wfI)
  fix j ms assume j: "j < gs_points g'" "get_neighbours g' j = Inr ms"
  show "list_ok V b (gs_points g') j ms"
  proof (cases "j = i")
    case True
    then show ?thesis using j(2) assms(2-4) by simp
  next
    case False
    then show ?thesis using j assms(2,5) graph_wf_nth [OF assms(1), of j] by auto
  qed
qed

lemma graph_wf_clear:
  assumes "graph_wf V b g" "i < gs_points g"
  shows "\<exists>g'. clear_neighbours i g = Inr g' \<and> graph_wf V b g' \<and> gs_points g' = gs_points g
     \<and> get_neighbours g' i = Inr [] \<and> (\<forall>j. j \<noteq> i \<longrightarrow> get_neighbours g' j = get_neighbours g j)"
proof -
  obtain g' where g': "clear_neighbours i g = Inr g'" "gs_points g' = gs_points g" "get_neighbours g' i = Inr []"
      "\<forall>j. j \<noteq> i \<longrightarrow> get_neighbours g' j = get_neighbours g j"
    using clear_neighbours_law [OF assms(2)] by blast
  have "graph_wf V b g'" by (rule graph_wf_other [OF assms(1) g'(2,3) _ g'(4)]) (simp add: list_ok_def)
  then show ?thesis using g' by blast
qed

lemma graph_wf_add_all:
  assumes "graph_wf V b g" "i < gs_points g" "get_neighbours g i = Inr ns" "list_ok V b (gs_points g) i (ns @ js)"
  shows "\<exists>g'. foldR (add_neighbour i) js g = Inr g' \<and> graph_wf V b g' \<and> gs_points g' = gs_points g
     \<and> get_neighbours g' i = Inr (ns @ js) \<and> (\<forall>j. j \<noteq> i \<longrightarrow> get_neighbours g' j = get_neighbours g j)"
  using assms
proof (induction js arbitrary: g ns)
  case Nil
  then show ?case by simp
next
  case (Cons j js)
  have "list_ok V b (gs_points g) i (ns @ [j])" using Cons.prems(4) by (auto simp: list_ok_def)
  from graph_wf_add [OF Cons.prems(1-3) this] obtain g1 where g1: "add_neighbour i j g = Inr g1" "graph_wf V b g1"
      "gs_points g1 = gs_points g" "get_neighbours g1 i = Inr (ns @ [j])" "\<forall>k. k \<noteq> i \<longrightarrow> get_neighbours g1 k = get_neighbours g k"
    by blast
  show ?case using Cons.IH [OF g1(2) _ g1(4)] g1 Cons.prems(2,4) by simp
qed

text \<open>A larger set of used nodes: the lists of the new ones are good too.\<close>

lemma graph_wf_insert:
  assumes "graph_wf V b g" "get_neighbours g i = Inr ns" "set ns \<subseteq> insert i V"
  shows "graph_wf (insert i V) b g"
  using assms by (auto simp: graph_wf_def adj.lists_ok_def list_ok_def)

definition cmp_total :: "'a index_config \<Rightarrow> bool" where
  "cmp_total cfg \<longleftrightarrow> (\<forall>x y. df_compare (ic_df cfg) x y \<noteq> NaN)"

text \<open>Every alpha that pruning may use is finite and at least 1.\<close>

definition alpha_in_range :: "fl \<Rightarrow> bool" where
  "alpha_in_range a \<longleftrightarrow> fl_le (Fin 1) a \<and> fl_lt a FLT_MAX"

definition alpha_ok :: "'a index_config \<Rightarrow> bool" where
  "alpha_ok cfg \<longleftrightarrow> alpha_in_range (ic_alpha cfg) \<and> (\<forall>a \<in> set (mc_alpha_table (ic_mcgi cfg)). alpha_in_range a)"

lemma default_alpha: "alpha_in_range (f32 (12 / 10))"
proof -
  obtain r where r: "round_fl F32 (12 / 10) = Fin r" "1 \<le> r" "r \<le> 2"
    using round_fl_between [of 0 "12 / 10" 1 F32] by (auto simp: emin_def)
  have "r < 2 ^ 128 - 2 ^ 104" using r(3) by (rule order_le_less_trans) simp
  then show ?thesis using r by (simp add: alpha_in_range_def f32_def FLT_MAX_def)
qed

lemma current_alpha_ok:
  assumes "alpha_ok cfg"
  shows "alpha_in_range (current_alpha (prune_env_of cfg ix) location pool)"
proof -
  let ?ctx = "ic_mcgi cfg"
  have "alpha_in_range (GetGlobalMCGIAlpha ?ctx location)"
    using assms default_alpha by (auto simp: GetGlobalMCGIAlpha_def alpha_ok_def)
  then show ?thesis using assms default_alpha
    by (simp add: current_alpha_def prune_env_of_def alpha_ok_def Let_def)
qed

text \<open>The data side of the index: every location of the graph has a row.\<close>

definition rows_ok :: "'a index \<Rightarrow> bool" where
  "rows_ok ix \<longleftrightarrow> ds_inv (ix_data ix) \<and> ix_total ix \<le> ds_capacity (ix_data ix)"

definition scratch_fits :: "'a index_config \<Rightarrow> 'a index \<Rightarrow> 'a scratch \<Rightarrow> bool" where
  "scratch_fits cfg ix s \<longleftrightarrow> sc_R s = ic_R cfg \<and> ds_dim (ix_data ix) \<le> length (sc_query s)"

definition cfg_ok :: "'a index_config \<Rightarrow> bool" where
  "cfg_ok cfg \<longleftrightarrow> cmp_total cfg \<and> alpha_ok cfg \<and> 0 < ic_L cfg \<and> 1 \<le> ic_R cfg \<and> ic_R cfg < 2 ^ 24"

lemma query_distance:
  assumes "cmp_total cfg" "rows_ok ix" "i < ix_total ix"
  shows "\<exists>d. ds_distance_query (ic_df cfg) (ix_data ix) q i = Inr d \<and> d \<noteq> NaN"
  using assms by (auto simp: rows_ok_def ds_distance_query_def ds_row_in cmp_total_def)

lemma locs_distance:
  assumes "cmp_total cfg" "rows_ok ix" "i < ix_total ix" "j < ix_total ix"
  shows "\<exists>d. ds_distance_locs (ic_df cfg) (ix_data ix) i j = Inr d \<and> d \<noteq> NaN"
  using assms by (auto simp: rows_ok_def ds_distance_locs_def ds_row_in cmp_total_def)

definition qdist :: "'a index_config \<Rightarrow> 'a index \<Rightarrow> 'a list \<Rightarrow> nat \<Rightarrow> fl" where
  "qdist cfg ix q i = projr (ds_distance_query (ic_df cfg) (ix_data ix) q i)"

lemma search_env_ok:
  assumes "cfg_ok cfg" "rows_ok ix" "graph_wf V (list_bound (ic_R cfg)) (ix_graph ix)"
    "gs_points (ix_graph ix) = ix_total ix"
  shows "env_ok (search_env_of cfg ix q False ls b) (ic_R cfg) (qdist cfg ix q)"
proof -
  have d: "ds_distance_query (ic_df cfg) (ix_data ix) q i = Inr (qdist cfg ix q i) \<and> qdist cfg ix q i \<noteq> NaN"
    if "i < ix_total ix" for i
    using query_distance [of cfg ix i q] assms(1,2) that by (auto simp: cfg_ok_def qdist_def)
  have g: "\<exists>ns. get_neighbours (ix_graph ix) i = Inr ns \<and> (\<forall>m \<in> set ns. m < ix_total ix) \<and> length ns \<le> dist_capacity (ic_R cfg)"
    if "i < ix_total ix" for i
    using graph_wf_nth [OF assms(3), of i] that assms(4) list_bound_capacity [of "ic_R cfg"] assms(1)
    by (fastforce simp: cfg_ok_def list_ok_def)
  show ?thesis using d g by (simp add: env_ok_def search_env_of_def filter_passes_def)
qed

lemma search_reach_within:
  assumes "set init \<subseteq> V" "graph_wf V b (ix_graph ix)" "V \<subseteq> {..<gs_points (ix_graph ix)}"
  shows "search_reach (search_env_of cfg ix q f ls c) init \<subseteq> V"
proof
  fix x assume "x \<in> search_reach (search_env_of cfg ix q f ls c) init"
  then show "x \<in> V"
  proof induction
    case (reach_step n m)
    then have "n < gs_points (ix_graph ix)" using assms(3) by blast
    then obtain ns where "get_neighbours (ix_graph ix) n = Inr ns" "set ns \<subseteq> V"
      using graph_wf_nth [OF assms(2), of n] reach_step.IH by (auto simp: list_ok_def)
    then show ?case using reach_step by (auto simp: out_nbrs_def search_env_of_def)
  qed (use assms(1) in blast)
qed

section \<open>One point of the build\<close>

text \<open>What a build step needs of the index, with the nodes in use \<open>V\<close>.\<close>

definition buildable :: "'a index_config \<Rightarrow> nat set \<Rightarrow> 'a index \<Rightarrow> bool" where
  "buildable cfg V ix \<longleftrightarrow> rows_ok ix \<and> gs_points (ix_graph ix) = ix_total ix \<and> V \<subseteq> {..<ix_total ix}
     \<and> graph_wf V (list_bound (ic_R cfg)) (ix_graph ix) \<and> set (get_init_ids ix) \<subseteq> V \<and> \<not> ix_filtered ix"

lemma load_query_ok:
  assumes "rows_ok ix" "i < ix_total ix" "scratch_fits cfg ix s"
  shows "\<exists>s'. load_query ix i s = Inr s' \<and> scratch_fits cfg ix s' \<and> (scratch_clean s \<longrightarrow> scratch_clean s')"
proof -
  have "\<exists>v. ds_get_vector (ix_data ix) i = Inr v \<and> length v = ds_dim (ix_data ix)"
    using assms(1,2) ds_get_vector_row [of "ix_data ix" i] ds_row_length [of "ix_data ix" i]
    by (auto simp: rows_ok_def ds_row_in ds_inv_def)
  then show ?thesis using assms(3) by (auto simp: load_query_def scratch_fits_def scratch_clean_def)
qed

lemma search_candidates_ok:
  assumes cfg: "cfg_ok cfg" and b: "buildable cfg V ix" and i: "location < ix_total ix"
    and s: "scratch_clean s" "scratch_fits cfg ix s"
  shows "\<exists>s'. search_candidates cfg ix location (ic_L cfg) False fl s = Inr (ix, s') \<and> scratch_fits cfg ix s'
     \<and> distinct (map nbr_id (sc_pool s')) \<and> nbr_id ` set (sc_pool s') \<subseteq> V \<and> (\<forall>x \<in> set (sc_pool s'). nbr_dist x \<noteq> NaN)"
proof -
  have B: "rows_ok ix" "gs_points (ix_graph ix) = ix_total ix" "V \<subseteq> {..<ix_total ix}"
    "graph_wf V (list_bound (ic_R cfg)) (ix_graph ix)" "set (get_init_ids ix) \<subseteq> V"
    using b by (simp_all add: buildable_def)
  obtain s1 where s1: "load_query ix location s = Inr s1" "scratch_fits cfg ix s1" "scratch_clean s1"
    using load_query_ok [OF B(1) i s(2)] s(1) by blast
  let ?env = "search_env_of cfg ix (sc_query s1) False [] False" and ?d = "qdist cfg ix (sc_query s1)"
  have R: "sc_R s1 = ic_R cfg" using s1(2) by (simp add: scratch_fits_def)
  have env: "env_ok ?env (sc_R s1) ?d" using search_env_ok [OF cfg B(1,4,2)] by (simp only: R)
  have L: "0 < ic_L cfg" using cfg by (simp add: cfg_ok_def)
  have tot: "se_total ?env = ix_total ix" by (simp add: search_env_of_def)
  have "\<forall>i \<in> set (get_init_ids ix). i < se_total ?env" using B(3,5) unfolding tot by blast
  from search_local_optimum_library [OF env s1(3) L this] obtain cmps s2 W E where
    c: "iterate_to_fixed_point ?env (ic_L cfg) (get_init_ids ix) s1 = Inr ((0, cmps), s2)
     \<and> map nbr_key (npq_live (sc_best s2)) = take (ic_L cfg) (ranking ?d W) \<and> finite W
     \<and> {i \<in> set (get_init_ids ix). passes ?env i} \<subseteq> W \<and> W \<subseteq> search_reach ?env (get_init_ids ix)
     \<and> nbr_id ` set (npq_live (sc_best s2)) \<subseteq> E \<and> E \<subseteq> W
     \<and> (\<forall>n \<in> E. \<forall>m \<in> set (out_nbrs ?env n). passes ?env m \<longrightarrow> m \<in> W)
     \<and> pool_is ?env ?d E (sc_pool s2) \<and> sc_R s2 = sc_R s1 \<and> sc_query s2 = sc_query s1"
    by (elim exE)
  have r1: "iterate_to_fixed_point ?env (ic_L cfg) (get_init_ids ix) s1 = Inr ((0, cmps), s2)" using c by (elim conjE)
  have r2: "W \<subseteq> search_reach ?env (get_init_ids ix)" using c by (elim conjE)
  have r3: "E \<subseteq> W" using c by (elim conjE)
  have r4: "pool_is ?env ?d E (sc_pool s2)" using c by (elim conjE)
  have r5: "sc_R s2 = sc_R s1" using c by (elim conjE)
  have r6: "sc_query s2 = sc_query s1" using c by (elim conjE)
  note r = r1 r2 r3 r4 r5 r6
  have WV: "W \<subseteq> V" by (rule subset_trans [OF r(2) search_reach_within [OF B(5,4)]]) (use B(2,3) in simp)
  have p: "distinct (map nbr_id (sc_pool s2))" "nbr_id ` set (sc_pool s2) = E" "\<forall>x \<in> set (sc_pool s2). nbr_dist x = ?d (nbr_id x)"
    using r(4) by (simp_all add: pool_is_def search_env_of_def)
  have "?d j \<noteq> NaN" if "j \<in> E" for j
    using env_okD(5) [OF env, of j] that r(3) WV B(3) unfolding tot by blast
  then have "\<forall>x \<in> set (sc_pool s2). nbr_dist x \<noteq> NaN" using p(2,3) by auto
  moreover have "search_candidates cfg ix location (ic_L cfg) False fl s = Inr (ix, s2)"
    by (simp add: search_candidates_def search_from_def s1(1) r(1))
  moreover have "scratch_fits cfg ix s2" using s1(2) r(5,6) by (simp add: scratch_fits_def)
  ultimately show ?thesis using p(1,2) r(3) WV by blast
qed

lemma occl_within:
  assumes cfg: "cfg_ok cfg" and ix: "rows_ok ix" "\<not> ix_filtered ix" "V \<subseteq> {..<ix_total ix}" and pool: "nbr_id ` set pool \<subseteq> V"
  shows "occl_ok (prune_env_of cfg ix) pool"
proof -
  have "ok (ds_distance_locs (ic_df cfg) (ix_data ix) (nbr_id y) (nbr_id x))" if "x \<in> set pool" "y \<in> set pool" for x y
    using locs_distance [of cfg ix "nbr_id y" "nbr_id x"] cfg ix(1,3) pool that by (auto simp: cfg_ok_def ok_iff)
  then show ?thesis using ix(2) by (simp add: occl_ok_def prune_env_of_def labels_allow_def)
qed

lemma prune_ok:
  assumes cfg: "cfg_ok cfg" and ix: "rows_ok ix" "\<not> ix_filtered ix" "V \<subseteq> {..<ix_total ix}"
    and pool: "distinct (map nbr_id pool)" "nbr_id ` set pool \<subseteq> V" "\<forall>x \<in> set pool. nbr_dist x \<noteq> NaN"
    and a: "alpha_in_range alpha"
  shows "\<exists>P out fs. prune_neighbors_with (prune_env_of cfg ix) location pool rng maxc alpha s = Inr (P, out, s\<lparr>sc_occlude := fs\<rparr>)
     \<and> set P \<subseteq> set pool \<and> distinct out \<and> length out \<le> rng \<and> set out \<subseteq> nbr_id ` set P - {location}"
proof -
  have "occl_ok (prune_env_of cfg ix) pool" by (rule occl_within [OF cfg ix pool(2)])
  moreover have "\<not> pe_pq_dist (prune_env_of cfg ix)" by (simp add: prune_env_of_def)
  ultimately obtain out s' fs where
    "prune_neighbors_with (prune_env_of cfg ix) location pool rng maxc alpha s = Inr (take maxc (sort_key nbr_key pool), out, s')"
    "s' = s\<lparr>sc_occlude := fs\<rparr>"
    "pruned_ok (prune_env_of cfg ix) location (take maxc (sort_key nbr_key pool)) alpha rng out"
    using prune_neighbors_with_spec [of "prune_env_of cfg ix" pool alpha location rng maxc s] pool(1,3) a
    by (auto simp: alpha_in_range_def)
  moreover have "set (take maxc (sort_key nbr_key pool)) \<subseteq> set pool"
    using set_take_subset [of maxc "sort_key nbr_key pool"] by simp
  ultimately show ?thesis by (auto simp: pruned_ok_def)
qed

lemma search_for_point_and_prune_ok:
  assumes cfg: "cfg_ok cfg" and b: "buildable cfg V ix" and i: "location < ix_total ix"
    and s: "scratch_clean s" "scratch_fits cfg ix s"
  shows "\<exists>out s'. search_for_point_and_prune cfg ix location (ic_L cfg) [] False fl s = Inr (out, ix, s')
     \<and> scratch_fits cfg ix s' \<and> out \<noteq> [] \<and> distinct out \<and> length out \<le> ic_R cfg \<and> set out \<subseteq> V
     \<and> (location \<in> set out \<longrightarrow> out = [ix_start ix])"
proof -
  have B: "rows_ok ix" "V \<subseteq> {..<ix_total ix}" "set (get_init_ids ix) \<subseteq> V" "\<not> ix_filtered ix"
    using b by (simp_all add: buildable_def)
  obtain s1 where s1: "search_candidates cfg ix location (ic_L cfg) False fl s = Inr (ix, s1)" "scratch_fits cfg ix s1"
      "distinct (map nbr_id (sc_pool s1))" "nbr_id ` set (sc_pool s1) \<subseteq> V" "\<forall>x \<in> set (sc_pool s1). nbr_dist x \<noteq> NaN"
    using search_candidates_ok [OF cfg b i s] by blast
  let ?pool = "filter (\<lambda>x. nbr_id x \<noteq> location) (sc_pool s1)"
  let ?env = "prune_env_of cfg ix"
  have pool: "distinct (map nbr_id ?pool)" "nbr_id ` set ?pool \<subseteq> V" "\<forall>x \<in> set ?pool. nbr_dist x \<noteq> NaN"
    using s1(3-5) by (auto simp: distinct_map_filter)
  have al: "alpha_in_range (current_alpha ?env location ?pool)" using current_alpha_ok cfg by (auto simp: cfg_ok_def)
  obtain P out fs where p: "prune_neighbors_with ?env location ?pool (ic_R cfg) (ic_maxc cfg) (current_alpha ?env location ?pool) s1
       = Inr (P, out, s1\<lparr>sc_occlude := fs\<rparr>)"
     "set P \<subseteq> set ?pool" "distinct out" "length out \<le> ic_R cfg" "set out \<subseteq> nbr_id ` set P - {location}"
    using prune_ok [OF cfg B(1,4,2) pool al, of location "ic_R cfg" "ic_maxc cfg" s1] by blast
  let ?out = "if out = [] then (if P \<noteq> [] then [nbr_id (hd P)] else [ix_start ix]) else out"
  have PV: "nbr_id ` set P \<subseteq> V - {location}" using p(2) pool(2) by auto
  have hdV: "nbr_id (hd P) \<in> V - {location}" if "P \<noteq> []" using PV hd_in_set [OF that] by blast
  have "ix_start ix \<in> V" using B(3) by (simp add: get_init_ids_def)
  then have out: "?out \<noteq> []" "distinct ?out" "length ?out \<le> ic_R cfg" "set ?out \<subseteq> V" "location \<in> set ?out \<longrightarrow> ?out = [ix_start ix]"
    using p(3-5) PV hdV cfg by (auto simp: cfg_ok_def)
  have "search_for_point_and_prune cfg ix location (ic_L cfg) [] False fl s = Inr (?out, ix, s1\<lparr>sc_occlude := fs, sc_pool := P\<rparr>)"
    using s1(1) p(1) by (simp add: search_for_point_and_prune_def Let_def prune_neighbors_def prune_env_of_def)
  moreover have "scratch_fits cfg ix (s1\<lparr>sc_occlude := fs, sc_pool := P\<rparr>)" using s1(2) by (simp add: scratch_fits_def)
  ultimately show ?thesis using out by blast
qed

section \<open>Every step keeps the graph well formed\<close>

lemma buildable_graph:
  assumes "buildable cfg V ix" "graph_wf V (list_bound (ic_R cfg)) g" "gs_points g = gs_points (ix_graph ix)"
  shows "buildable cfg V (ix\<lparr>ix_graph := g\<rparr>)"
  using assms by (simp add: buildable_def rows_ok_def ix_total_def get_init_ids_def)

lemma scratch_fits_simps [simp]:
  "scratch_fits cfg (ix\<lparr>ix_graph := g\<rparr>) s = scratch_fits cfg ix s" "scratch_fits cfg (ix\<lparr>ix_start := k\<rparr>) s = scratch_fits cfg ix s"
  "scratch_fits cfg ix (s\<lparr>sc_occlude := fs\<rparr>) = scratch_fits cfg ix s" "ix_total (ix\<lparr>ix_graph := g\<rparr>) = ix_total ix"
  "ix_total (ix\<lparr>ix_start := k\<rparr>) = ix_total ix"
  by (simp_all add: scratch_fits_def ix_total_def)

lemma nbr_pool_ok:
  assumes "cmp_total cfg" "rows_ok ix" "V \<subseteq> {..<ix_total ix}" "des < ix_total ix" "set ids \<subseteq> V"
  shows "\<exists>pool. nbr_pool cfg ix des ids vis = Inr pool \<and> distinct (map nbr_id pool)
     \<and> nbr_id ` set pool = set ids - vis - {des} \<and> (\<forall>x \<in> set pool. nbr_dist x \<noteq> NaN)"
  using assms(5)
proof (induction ids arbitrary: vis)
  case Nil
  then show ?case by simp
next
  case (Cons i ids)
  then have i: "i < ix_total ix" and ids: "set ids \<subseteq> V" using assms(3) by auto
  show ?case
  proof (cases "i \<notin> vis \<and> i \<noteq> des")
    case False
    then have "nbr_pool cfg ix des (i # ids) vis = nbr_pool cfg ix des ids vis" by auto
    moreover have "set (i # ids) - vis - {des} = set ids - vis - {des}" using False by auto
    ultimately show ?thesis using Cons.IH [OF ids, of vis] by (simp del: nbr_pool.simps)
  next
    case True
    obtain d where d: "ds_distance_locs (ic_df cfg) (ix_data ix) des i = Inr d" "d \<noteq> NaN"
      using locs_distance [OF assms(1,2,4) i] by blast
    obtain pool where p: "nbr_pool cfg ix des ids (insert i vis) = Inr pool" "distinct (map nbr_id pool)"
        "nbr_id ` set pool = set ids - insert i vis - {des}" "\<forall>x \<in> set pool. nbr_dist x \<noteq> NaN"
      using Cons.IH [OF ids] by blast
    have "i \<notin> nbr_id ` set pool" using p(3) by blast
    moreover have "insert i (nbr_id ` set pool) = set (i # ids) - vis - {des}" using p(3) True by auto
    ultimately show ?thesis using True d p(1,2,4) by simp
  qed
qed

lemma pruned_within:
  assumes "set P \<subseteq> set pool" "set out \<subseteq> nbr_id ` set P - {d}" "nbr_id ` set pool \<subseteq> V"
  shows "set out \<subseteq> V"
  using assms(2) image_mono [OF assms(1), of nbr_id] assms(3) by (meson Diff_subset order_trans)

lemma inter_insert_one_ok:
  assumes cfg: "cfg_ok cfg" and b: "buildable cfg V ix" and n: "n \<in> V" and des: "des \<in> V" and s: "scratch_fits cfg ix s"
  shows "\<exists>g s'. inter_insert_one cfg n (ic_R cfg) des (ix, s) = Inr (ix\<lparr>ix_graph := g\<rparr>, s') \<and> scratch_fits cfg ix s'
     \<and> buildable cfg V (ix\<lparr>ix_graph := g\<rparr>)"
proof -
  let ?P = "list_ok V (list_bound (ic_R cfg)) (gs_points (ix_graph ix))"
  have B: "rows_ok ix" "gs_points (ix_graph ix) = ix_total ix" "V \<subseteq> {..<ix_total ix}"
    "graph_wf V (list_bound (ic_R cfg)) (ix_graph ix)" "\<not> ix_filtered ix"
    using b by (simp_all add: buildable_def)
  have cmp: "cmp_total cfg" using cfg by (simp add: cfg_ok_def)
  have d: "des < gs_points (ix_graph ix)" "des < ix_total ix" using des B(2,3) by auto
  have VN: "V \<subseteq> {..<gs_points (ix_graph ix)}" using B(2,3) by simp
  obtain ns where ns: "get_neighbours (ix_graph ix) des = Inr ns" "set ns \<subseteq> V" "length ns \<le> list_bound (ic_R cfg)"
    using graph_wf_nth [OF B(4) d(1)] des by (auto simp: list_ok_def)
  consider "n \<in> set ns" | "n \<notin> set ns" "length ns < slack_size (ic_R cfg)" | "n \<notin> set ns" "\<not> length ns < slack_size (ic_R cfg)" by blast
  then show ?thesis
  proof cases
    case 1
    then show ?thesis using ns(1) s b by (intro exI [of _ "ix_graph ix"] exI [of _ s]) (simp add: inter_insert_one_def)
  next
    case 2
    have "set (ns @ [n]) \<subseteq> V" using ns(2) n by simp
    then have "?P des (ns @ [n])" using 2 VN by (auto simp: list_bound_def list_ok_def)
    from graph_wf_add [OF B(4) d(1) ns(1) this] obtain g where g: "add_neighbour des n (ix_graph ix) = Inr g"
        "graph_wf V (list_bound (ic_R cfg)) g" "gs_points g = gs_points (ix_graph ix)" by blast
    then have "buildable cfg V (ix\<lparr>ix_graph := g\<rparr>)" by (intro buildable_graph [OF b]) simp_all
    then show ?thesis using 2 ns(1) g(1) s by (intro exI [of _ g] exI [of _ s]) (simp add: inter_insert_one_def)
  next
    case 3
    have sub: "set (ns @ [n]) \<subseteq> V" using ns(2) n by simp
    obtain pool where p: "nbr_pool cfg ix des (ns @ [n]) {} = Inr pool" "distinct (map nbr_id pool)"
        "nbr_id ` set pool = set (ns @ [n]) - {} - {des}" "\<forall>x \<in> set pool. nbr_dist x \<noteq> NaN"
      using nbr_pool_ok [OF cmp B(1,3) d(2) sub, of "{}"] by blast
    have pV: "nbr_id ` set pool \<subseteq> V" using p(3) sub by blast
    have al: "alpha_in_range (current_alpha (prune_env_of cfg ix) des pool)" using current_alpha_ok cfg by (auto simp: cfg_ok_def)
    obtain P out fs where pr: "prune_neighbors_with (prune_env_of cfg ix) des pool (ic_R cfg) (ic_maxc cfg)
          (current_alpha (prune_env_of cfg ix) des pool) s = Inr (P, out, s\<lparr>sc_occlude := fs\<rparr>)"
        "set P \<subseteq> set pool" "length out \<le> ic_R cfg" "set out \<subseteq> nbr_id ` set P - {des}"
      using prune_ok [OF cfg B(1,5,3) p(2) pV p(4) al, of des "ic_R cfg" "ic_maxc cfg" s] by blast
    have "set out \<subseteq> V" by (rule pruned_within [OF pr(2,4) pV])
    then have "?P des out" using pr(3) VN by (auto simp: list_bound_def list_ok_def)
    from graph_wf_set [OF B(4) d(1) this] obtain g where g: "set_neighbours des out (ix_graph ix) = Inr g"
        "graph_wf V (list_bound (ic_R cfg)) g" "gs_points g = gs_points (ix_graph ix)" by blast
    then have "buildable cfg V (ix\<lparr>ix_graph := g\<rparr>)" by (intro buildable_graph [OF b]) simp_all
    moreover have "inter_insert_one cfg n (ic_R cfg) des (ix, s) = Inr (ix\<lparr>ix_graph := g\<rparr>, s\<lparr>sc_occlude := fs\<rparr>)"
      using 3 ns(1) p(1) pr(1) g(1) by (simp add: inter_insert_one_def prune_neighbors_def prune_env_of_def)
    ultimately show ?thesis using s by (intro exI [of _ g] exI [of _ "s\<lparr>sc_occlude := fs\<rparr>"]) simp
  qed
qed

lemma inter_insert_ok:
  assumes "cfg_ok cfg" "buildable cfg V ix" "n \<in> V" "set des \<subseteq> V" "scratch_fits cfg ix s"
  shows "\<exists>g s'. inter_insert cfg n des (ic_R cfg) (ix, s) = Inr (ix\<lparr>ix_graph := g\<rparr>, s') \<and> scratch_fits cfg ix s'
     \<and> buildable cfg V (ix\<lparr>ix_graph := g\<rparr>)"
  using assms(2,4,5)
proof (induction des arbitrary: ix s)
  case Nil
  then show ?case by (intro exI [of _ "ix_graph ix"] exI [of _ s]) (simp add: inter_insert_def)
next
  case (Cons d des)
  obtain g s1 where 1: "inter_insert_one cfg n (ic_R cfg) d (ix, s) = Inr (ix\<lparr>ix_graph := g\<rparr>, s1)" "scratch_fits cfg ix s1"
      "buildable cfg V (ix\<lparr>ix_graph := g\<rparr>)"
    using inter_insert_one_ok [OF assms(1) Cons.prems(1) assms(3) _ Cons.prems(3), of d] Cons.prems(2) by auto
  obtain g2 s2 where "inter_insert cfg n des (ic_R cfg) (ix\<lparr>ix_graph := g\<rparr>, s1) = Inr (ix\<lparr>ix_graph := g\<rparr>\<lparr>ix_graph := g2\<rparr>, s2)"
      "scratch_fits cfg ix s2" "buildable cfg V (ix\<lparr>ix_graph := g\<rparr>\<lparr>ix_graph := g2\<rparr>)"
    using Cons.IH [OF 1(3), of s1] Cons.prems(2) 1(2) by auto
  then show ?case using 1(1) by (intro exI [of _ g2] exI [of _ s2]) (simp add: inter_insert_def)
qed

lemma link_node_ok:
  assumes cfg: "cfg_ok cfg" and b: "buildable cfg V ix" and n: "node \<in> V" and s: "scratch_clean s" "scratch_fits cfg ix s"
  shows "\<exists>g s'. link_node cfg node (ix, s) = Inr (ix\<lparr>ix_graph := g\<rparr>, s') \<and> scratch_clean s' \<and> scratch_fits cfg ix s'
     \<and> buildable cfg V (ix\<lparr>ix_graph := g\<rparr>)"
proof -
  let ?P = "list_ok V (list_bound (ic_R cfg)) (gs_points (ix_graph ix))"
  have wf: "graph_wf V (list_bound (ic_R cfg)) (ix_graph ix)" and t: "node < ix_total ix" "node < gs_points (ix_graph ix)"
    and nf: "\<not> ix_filtered ix" and VN: "V \<subseteq> {..<gs_points (ix_graph ix)}"
    using b n by (auto simp: buildable_def)
  obtain out s1 where 1: "search_for_point_and_prune cfg ix node (ic_L cfg) [] False (ic_filterL cfg) s = Inr (out, ix, s1)"
      "scratch_fits cfg ix s1" "length out \<le> ic_R cfg" "set out \<subseteq> V"
    using search_for_point_and_prune_ok [OF cfg b t(1) s] by blast
  have "?P node out" using 1(3,4) VN by (auto simp: list_bound_def list_ok_def)
  from graph_wf_set [OF wf t(2) this] obtain g where g: "set_neighbours node out (ix_graph ix) = Inr g"
      "graph_wf V (list_bound (ic_R cfg)) g" "gs_points g = gs_points (ix_graph ix)" by blast
  have b1: "buildable cfg V (ix\<lparr>ix_graph := g\<rparr>)" by (rule buildable_graph [OF b g(2,3)])
  obtain g2 s2 where 2: "inter_insert cfg node out (ic_R cfg) (ix\<lparr>ix_graph := g\<rparr>, s1) = Inr (ix\<lparr>ix_graph := g\<rparr>\<lparr>ix_graph := g2\<rparr>, s2)"
      "scratch_fits cfg ix s2" "buildable cfg V (ix\<lparr>ix_graph := g\<rparr>\<lparr>ix_graph := g2\<rparr>)"
    using inter_insert_ok [OF cfg b1 n 1(4), of s1] 1(2) by auto
  have "scratch_fits cfg ix (scratch_clear s2)" using 2(2) by (simp add: scratch_fits_def scratch_clear_def)
  then show ?thesis using nf 1(1) g(1) 2(1,3) by (intro exI [of _ g2] exI [of _ "scratch_clear s2"]) (simp add: link_node_def)
qed

section \<open>The final cleanup\<close>

definition short_list :: "nat \<Rightarrow> graph_store \<Rightarrow> nat \<Rightarrow> bool" where
  "short_list rng g i \<longleftrightarrow> (\<exists>ns. get_neighbours g i = Inr ns \<and> length ns \<le> rng)"

lemma shrink_node_ok:
  assumes cfg: "cfg_ok cfg" and b: "buildable cfg V ix" and n: "node \<in> V" and s: "scratch_fits cfg ix s" and r: "rng \<le> ic_R cfg"
    and al: "alpha = None \<and> rng = ic_R cfg \<or> (\<exists>a. alpha = Some a \<and> alpha_in_range a)"
  shows "\<exists>g s'. shrink_node cfg rng maxc alpha node (ix, s) = Inr (ix\<lparr>ix_graph := g\<rparr>, s') \<and> scratch_fits cfg ix s'
     \<and> buildable cfg V (ix\<lparr>ix_graph := g\<rparr>) \<and> short_list rng g node \<and> (\<forall>j. short_list rng (ix_graph ix) j \<longrightarrow> short_list rng g j)"
proof -
  let ?P = "list_ok V (list_bound (ic_R cfg)) (gs_points (ix_graph ix))"
  have B: "rows_ok ix" "gs_points (ix_graph ix) = ix_total ix" "V \<subseteq> {..<ix_total ix}"
    "graph_wf V (list_bound (ic_R cfg)) (ix_graph ix)" "\<not> ix_filtered ix"
    using b by (simp_all add: buildable_def)
  have cmp: "cmp_total cfg" using cfg by (simp add: cfg_ok_def)
  have d: "node < gs_points (ix_graph ix)" "node < ix_total ix" using n B(2,3) by auto
  have VN: "V \<subseteq> {..<gs_points (ix_graph ix)}" using B(2,3) by simp
  obtain ns where ns: "get_neighbours (ix_graph ix) node = Inr ns" "set ns \<subseteq> V" "length ns \<le> list_bound (ic_R cfg)"
    using graph_wf_nth [OF B(4) d(1)] n by (auto simp: list_ok_def)
  show ?thesis
  proof (cases "length ns \<le> rng")
    case True
    then show ?thesis using ns(1) s b
      by (intro exI [of _ "ix_graph ix"] exI [of _ s]) (simp add: shrink_node_def short_list_def)
  next
    case False
    obtain pool where p: "nbr_pool cfg ix node ns {} = Inr pool" "distinct (map nbr_id pool)"
        "nbr_id ` set pool = set ns - {} - {node}" "\<forall>x \<in> set pool. nbr_dist x \<noteq> NaN"
      using nbr_pool_ok [OF cmp B(1,3) d(2) ns(2), of "{}"] by blast
    have pV: "nbr_id ` set pool \<subseteq> V" using p(3) ns(2) by blast
    define a where "a = (case alpha of None \<Rightarrow> current_alpha (prune_env_of cfg ix) node pool | Some a \<Rightarrow> a)"
    define mc where "mc = (case alpha of None \<Rightarrow> ic_maxc cfg | Some a \<Rightarrow> maxc)"
    have al': "alpha_in_range a" using al current_alpha_ok cfg by (auto simp: cfg_ok_def a_def)
    have eq: "(case alpha of None \<Rightarrow> prune_neighbors (prune_env_of cfg ix) node pool s
                 | Some a \<Rightarrow> prune_neighbors_with (prune_env_of cfg ix) node pool rng maxc a s)
        = prune_neighbors_with (prune_env_of cfg ix) node pool rng mc a s"
      using al by (auto simp: prune_neighbors_def a_def mc_def prune_env_of_def)
    obtain P out fs where pr: "prune_neighbors_with (prune_env_of cfg ix) node pool rng mc a s = Inr (P, out, s\<lparr>sc_occlude := fs\<rparr>)"
        "set P \<subseteq> set pool" "length out \<le> rng" "set out \<subseteq> nbr_id ` set P - {node}"
      using prune_ok [OF cfg B(1,5,3) p(2) pV p(4) al', of node rng mc s] by blast
    have out: "set out \<subseteq> V" by (rule pruned_within [OF pr(2,4) pV])
    obtain g1 where g1: "clear_neighbours node (ix_graph ix) = Inr g1" "graph_wf V (list_bound (ic_R cfg)) g1"
        "gs_points g1 = gs_points (ix_graph ix)" "\<forall>j. j \<noteq> node \<longrightarrow> get_neighbours g1 j = get_neighbours (ix_graph ix) j"
      using graph_wf_clear [OF B(4) d(1)] by blast
    have d1: "node < gs_points g1" using d(1) g1(3) by simp
    have "list_ok V (list_bound (ic_R cfg)) (gs_points g1) node out"
      using out pr(3) r VN g1(3) by (auto simp: list_ok_def list_bound_def)
    from graph_wf_set [OF g1(2) d1 this] obtain g where g: "set_neighbours node out g1 = Inr g"
        "graph_wf V (list_bound (ic_R cfg)) g" "gs_points g = gs_points g1" "get_neighbours g node = Inr out"
        "\<forall>j. j \<noteq> node \<longrightarrow> get_neighbours g j = get_neighbours g1 j" by blast
    have other: "get_neighbours g j = get_neighbours (ix_graph ix) j" if "j \<noteq> node" for j
      using g(5) g1(4) that by simp
    have "buildable cfg V (ix\<lparr>ix_graph := g\<rparr>)" by (rule buildable_graph [OF b g(2)]) (simp add: g(3) g1(3))
    moreover have "shrink_node cfg rng maxc alpha node (ix, s) = Inr (ix\<lparr>ix_graph := g\<rparr>, scratch_clear (s\<lparr>sc_occlude := fs\<rparr>))"
      using False ns(1) p(1) pr(1) g1(1) g(1) by (simp add: shrink_node_def eq)
    moreover have "scratch_fits cfg ix (scratch_clear (s\<lparr>sc_occlude := fs\<rparr>))"
      using s by (simp add: scratch_fits_def scratch_clear_def)
    moreover have "short_list rng g node" using g(4) pr(3) by (simp add: short_list_def)
    moreover have "short_list rng g j" if "short_list rng (ix_graph ix) j" for j
      using that other [of j] calculation(4) by (cases "j = node") (simp_all add: short_list_def)
    ultimately show ?thesis by (intro exI [of _ g] exI [of _ "scratch_clear (s\<lparr>sc_occlude := fs\<rparr>)"]) simp
  qed
qed

lemma visit_order_set:
  assumes "ix_nd ix \<le> ix_max_points ix" "ix_max_points ix < 2 ^ 32"
  shows "set (visit_order ix) = {..<ix_nd ix} \<union> {ix_max_points ix..<ix_total ix}" "set (visit_order ix) \<subseteq> {..<ix_total ix}"
  using assms by (auto simp: visit_order_def ix_total_def)

text \<open>The nodes that \<^verbatim>\<open>link\<close> visits, when it can start: there is a frozen point, or the medoid is a point.\<close>

definition linkable :: "'a index_config \<Rightarrow> 'a index \<Rightarrow> bool" where
  "linkable cfg ix \<longleftrightarrow> rows_ok ix \<and> gs_points (ix_graph ix) = ix_total ix \<and> \<not> ix_filtered ix
     \<and> ix_nd ix \<le> ix_max_points ix \<and> ix_max_points ix < 2 ^ 32
     \<and> graph_wf (set (visit_order ix)) (list_bound (ic_R cfg)) (ix_graph ix)
     \<and> (0 < ix_num_frozen ix \<or> (\<exists>m < ix_nd ix. calculate_entry_point cfg ix = Inr m))"

lemma foldR_link_node:
  assumes cfg: "cfg_ok cfg" and "buildable cfg V ix" "set nodes \<subseteq> V" "scratch_clean s" "scratch_fits cfg ix s"
  shows "\<exists>g s'. foldR (link_node cfg) nodes (ix, s) = Inr (ix\<lparr>ix_graph := g\<rparr>, s') \<and> scratch_clean s' \<and> scratch_fits cfg ix s'
     \<and> buildable cfg V (ix\<lparr>ix_graph := g\<rparr>)"
  using assms(2-5)
proof (induction nodes arbitrary: ix s)
  case Nil
  then show ?case by (intro exI [of _ "ix_graph ix"] exI [of _ s]) simp
next
  case (Cons n nodes)
  obtain g s1 where 1: "link_node cfg n (ix, s) = Inr (ix\<lparr>ix_graph := g\<rparr>, s1)" "scratch_clean s1" "scratch_fits cfg ix s1"
      "buildable cfg V (ix\<lparr>ix_graph := g\<rparr>)"
    using link_node_ok [OF cfg Cons.prems(1) _ Cons.prems(3,4), of n] Cons.prems(2) by auto
  obtain g2 s2 where "foldR (link_node cfg) nodes (ix\<lparr>ix_graph := g\<rparr>, s1) = Inr (ix\<lparr>ix_graph := g\<rparr>\<lparr>ix_graph := g2\<rparr>, s2)"
      "scratch_clean s2" "scratch_fits cfg ix s2" "buildable cfg V (ix\<lparr>ix_graph := g\<rparr>\<lparr>ix_graph := g2\<rparr>)"
    using Cons.IH [OF 1(4), of s1] Cons.prems(2) 1(2,3) by auto
  then show ?case using 1(1) by (intro exI [of _ g2] exI [of _ s2]) simp
qed

lemma foldR_shrink_node:
  assumes cfg: "cfg_ok cfg" and "buildable cfg V ix" "set nodes \<subseteq> V" "scratch_fits cfg ix s"
    and r: "rng \<le> ic_R cfg" and al: "alpha = None \<and> rng = ic_R cfg \<or> (\<exists>a. alpha = Some a \<and> alpha_in_range a)"
  shows "\<exists>g s'. foldR (shrink_node cfg rng maxc alpha) nodes (ix, s) = Inr (ix\<lparr>ix_graph := g\<rparr>, s') \<and> scratch_fits cfg ix s'
     \<and> buildable cfg V (ix\<lparr>ix_graph := g\<rparr>) \<and> (\<forall>i \<in> set nodes. short_list rng g i)"
proof -
  let ?P = "\<lambda>(ix', s'). (\<exists>g. ix' = ix\<lparr>ix_graph := g\<rparr>) \<and> scratch_fits cfg ix s' \<and> buildable cfg V ix'"
  let ?Q = "\<lambda>i (ix', s'). short_list rng (ix_graph ix') i"
  have "\<exists>st. foldR (shrink_node cfg rng maxc alpha) nodes (ix, s) = Inr st \<and> ?P st \<and> (\<forall>i \<in> set nodes. ?Q i st)
      \<and> (\<forall>i. ?Q i (ix, s) \<longrightarrow> ?Q i st)"
  proof (rule foldR_establish)
    show "?P (ix, s)" using assms(2,4) by (auto intro: exI [of _ "ix_graph ix"])
  next
    fix i st assume i: "i \<in> set nodes" and P: "?P st"
    obtain g s1 where st: "st = (ix\<lparr>ix_graph := g\<rparr>, s1)" "scratch_fits cfg ix s1" "buildable cfg V (ix\<lparr>ix_graph := g\<rparr>)"
      using P by auto
    have "i \<in> V" using i assms(3) by blast
    moreover have "scratch_fits cfg (ix\<lparr>ix_graph := g\<rparr>) s1" using st(2) by simp
    ultimately obtain g2 s2 where "shrink_node cfg rng maxc alpha i st = Inr (ix\<lparr>ix_graph := g\<rparr>\<lparr>ix_graph := g2\<rparr>, s2)"
        "scratch_fits cfg ix s2" "buildable cfg V (ix\<lparr>ix_graph := g\<rparr>\<lparr>ix_graph := g2\<rparr>)" "short_list rng g2 i"
        "\<forall>j. short_list rng g j \<longrightarrow> short_list rng g2 j"
      using shrink_node_ok [OF cfg st(3) _ _ r al, of i s1 maxc] st(1) by auto
    then show "\<exists>s'. shrink_node cfg rng maxc alpha i st = Inr s' \<and> ?P s' \<and> ?Q i s' \<and> (\<forall>y. ?Q y st \<longrightarrow> ?Q y s')"
      using st(1) by auto
  qed
  then show ?thesis by auto
qed

lemma link_ok:
  assumes cfg: "cfg_ok cfg" and l: "linkable cfg ix" and s: "scratch_clean s" "scratch_fits cfg ix s"
  shows "\<exists>k g s'. link cfg (ix, s) = Inr (ix\<lparr>ix_start := k, ix_graph := g\<rparr>, s') \<and> k \<in> set (visit_order ix)
     \<and> scratch_fits cfg ix s' \<and> buildable cfg (set (visit_order ix)) (ix\<lparr>ix_start := k, ix_graph := g\<rparr>)
     \<and> (\<forall>i \<in> set (visit_order ix). short_list (ic_R cfg) g i)"
proof -
  let ?V = "set (visit_order ix)"
  have L: "rows_ok ix" "gs_points (ix_graph ix) = ix_total ix" "\<not> ix_filtered ix" "ix_nd ix \<le> ix_max_points ix"
      "ix_max_points ix < 2 ^ 32" "graph_wf ?V (list_bound (ic_R cfg)) (ix_graph ix)"
      "0 < ix_num_frozen ix \<or> (\<exists>m < ix_nd ix. calculate_entry_point cfg ix = Inr m)"
    using l by (simp_all add: linkable_def)
  note V = visit_order_set [OF L(4,5)]
  obtain k where k: "(if 0 < ix_num_frozen ix then Inr (u32 (ix_max_points ix)) else calculate_entry_point cfg ix) = Inr k"
      "k \<in> ?V"
  proof (cases "0 < ix_num_frozen ix")
    case True
    then have "ix_max_points ix \<in> ?V" unfolding V(1) by (simp add: ix_total_def)
    then show ?thesis using True L(5) that [of "ix_max_points ix"] by simp
  next
    case False
    then obtain m where m: "m < ix_nd ix" "calculate_entry_point cfg ix = Inr m" using L(7) by auto
    then have "m \<in> ?V" unfolding V(1) by simp
    then show ?thesis using False m(2) that [of m] by simp
  qed
  let ?ix = "ix\<lparr>ix_start := k\<rparr>"
  have "{ix_max_points ix..<ix_total ix} \<subseteq> ?V" unfolding V(1) by blast
  moreover have "set (get_init_ids ?ix) \<subseteq> insert k {ix_max_points ix..<ix_total ix}" using L(5) by (auto simp: get_init_ids_def)
  ultimately have "set (get_init_ids ?ix) \<subseteq> ?V" using k(2) by blast
  then have b: "buildable cfg ?V ?ix" using L(1-3,6) V(2) by (simp add: buildable_def rows_ok_def)
  obtain g s1 where 1: "foldR (link_node cfg) (visit_order ix) (?ix, s) = Inr (?ix\<lparr>ix_graph := g\<rparr>, s1)"
      "scratch_fits cfg ?ix s1" "buildable cfg ?V (?ix\<lparr>ix_graph := g\<rparr>)"
    using foldR_link_node [OF cfg b subset_refl s(1)] s(2) by auto
  have f: "scratch_fits cfg (?ix\<lparr>ix_graph := g\<rparr>) s1" using 1(2) by simp
  obtain g2 s2 where "foldR (shrink_node cfg (ic_R cfg) (ic_maxc cfg) None) (visit_order ix) (?ix\<lparr>ix_graph := g\<rparr>, s1)
        = Inr (?ix\<lparr>ix_graph := g\<rparr>\<lparr>ix_graph := g2\<rparr>, s2)"
      "scratch_fits cfg ix s2" "buildable cfg ?V (?ix\<lparr>ix_graph := g\<rparr>\<lparr>ix_graph := g2\<rparr>)" "\<forall>i \<in> ?V. short_list (ic_R cfg) g2 i"
    using foldR_shrink_node [OF cfg 1(3) subset_refl f order_refl, of None "ic_maxc cfg"] by auto
  then show ?thesis using k 1(1) by (intro exI [of _ k] exI [of _ g2] exI [of _ s2]) (simp add: link_def)
qed

section \<open>Properties\<close>


definition demo_index :: "nat index" where
  "demo_index = \<lparr>ix_max_points = 2, ix_num_frozen = 1, ix_nd = 2, ix_start = 2, ix_frozen_used = 0, ix_has_built = False,
     ix_filtered = False, ix_deletes_enabled = False, ix_data_compacted = True,
     ix_data = \<lparr>ds_capacity = 3, ds_dim = 1, ds_aligned_dim = 1, ds_data = [0, 9, 3]\<rparr>,
     ix_graph = \<lparr>gs_graph = [[], [], []], gs_max_observed = 0, gs_max_range = 0, gs_total_points = 3\<rparr>,
     ix_l2t = nnm_empty, ix_t2l = Map.empty, ix_empty = nns_empty, ix_deleted = {},
     ix_labels = [], ix_label_set = {}, ix_label_start = Map.empty,
     ix_medoid_counts = Map.empty, ix_label_map = Map.empty, ix_use_universal = False, ix_universal = 0\<rparr>"

definition demo_scratch :: "nat scratch" where
  "demo_scratch = (scratch_clear undefined)\<lparr>sc_R := 2, sc_query := [0]\<rparr>"

lemma demo_cfg_ok: "cfg_ok demo_cfg"
  using one_less_FLT_MAX
  by (simp add: cfg_ok_def demo_cfg_def cmp_total_def demo_df_def alpha_ok_def alpha_in_range_def mcgi_initial_def)

lemma demo_linkable: "linkable demo_cfg demo_index"
proof -
  have "graph_wf (set (visit_order demo_index)) (list_bound (ic_R demo_cfg)) (ix_graph demo_index)"
    unfolding graph_wf_def adj.lists_ok_def by (auto simp: demo_index_def gs_points_def get_neighbours_def list_ok_def less_Suc_eq numeral_3_eq_3)
  moreover have "rows_ok demo_index" by (simp add: rows_ok_def ds_inv_def demo_index_def ix_total_def)
  ultimately show ?thesis unfolding linkable_def by (simp add: demo_index_def ix_total_def gs_points_def)
qed

lemma demo_scratch_ok: "scratch_clean demo_scratch" "scratch_fits demo_cfg demo_index demo_scratch"
  using scratch_clear_clean [of "undefined :: nat scratch"]
  by (simp_all add: scratch_clean_def demo_scratch_def scratch_fits_def demo_cfg_def demo_index_def)


end
