(* ===== verification/Update.thy ===== *)
theory Update
  imports Build
begin

text \<open>
  Updates of a dynamic index (\<^verbatim>\<open>src/index.cpp\<close>): \<^verbatim>\<open>insert_point\<close>
  with its label bookkeeping, \<^verbatim>\<open>process_delete\<close> and
  \<^verbatim>\<open>consolidate_deletes\<close>. \<^verbatim>\<open>EXPAND_IF_FULL\<close> is 0, so a full index
  refuses an insertion. A step that throws ends the operation; the model then keeps no state.
\<close>

section \<open>Insertion\<close>

text \<open>A label met for the first time takes the next frozen point, with the vector of the point.\<close>

definition new_label :: "'a index_config \<Rightarrow> 'a list \<Rightarrow> nat \<Rightarrow> ('a::zero) index \<Rightarrow> 'a index result" where
  "new_label cfg point label ix =
     (if label \<in> ix_label_set ix then Inr ix
      else if ix_num_frozen ix \<le> ix_frozen_used ix
      then Inl (ANNException ''Error: For dynamic filtered index, the number of frozen points should be atleast equal to number of unique labels.'')
      else let fz_location = ix_max_points ix + ix_frozen_used ix in
        bindR (vec_put (ix_labels ix) fz_location [label]) (\<lambda>ls.
        bindR (ds_set_vector (ic_df cfg) (u32 fz_location) point (ix_data ix)) (\<lambda>d.
          Inr (ix\<lparr>ix_label_set := insert label (ix_label_set ix), ix_label_start := (ix_label_start ix)(label \<mapsto> u32 fz_location),
                  ix_labels := ls, ix_data := d, ix_frozen_used := ix_frozen_used ix + 1\<rparr>))))"

text \<open>
  The label part of \<^verbatim>\<open>insert_point\<close>; \<open>False\<close> is the return value -1. With no location left it
  writes at index -1.
\<close>

definition insert_labels ::
  "'a index_config \<Rightarrow> 'a list \<Rightarrow> nat list \<Rightarrow> nat option \<Rightarrow> ('a::zero) index \<Rightarrow> (bool \<times> 'a index) result" where
  "insert_labels cfg point labels location ix =
     (if \<not> ix_filtered ix then Inr (True, ix)
      else case location of
        None \<Rightarrow> Inl UndefinedBehaviour
      | Some l \<Rightarrow>
          if labels = [] then bindR (release_location l ix) (\<lambda>ix'. Inr (False, ix'))
          else bindR (vec_put (ix_labels ix) l labels) (\<lambda>ls.
               bindR (foldR (new_label cfg point) labels (ix\<lparr>ix_labels := ls\<rparr>)) (\<lambda>ix'. Inr (True, ix'))))"

text \<open>The edges of the new point.\<close>

definition connect_point :: "'a index_config \<Rightarrow> nat \<Rightarrow> 'a index \<times> 'a scratch \<Rightarrow> ('a index \<times> 'a scratch) result" where
  "connect_point cfg location = (\<lambda>(ix, s).
     bindR (search_for_point_and_prune cfg ix location (ic_L cfg) [] (ix_filtered ix) (ic_filterL cfg) s) (\<lambda>(pruned_list, ix1, s1).
     bindR (clear_neighbours location (ix_graph ix1)) (\<lambda>g1.
     let neighbor_links = filter (\<lambda>link. \<not> ic_conc_consolidate cfg \<or> nnm_contains (ix_l2t ix1) link) pruned_list in
     bindR (set_neighbours location neighbor_links g1) (\<lambda>g2.
     bindR (inter_insert cfg location pruned_list (ic_R cfg) (ix1\<lparr>ix_graph := g2\<rparr>, s1)) (\<lambda>(ix2, s2).
       Inr (ix2, scratch_clear s2))))))"

definition insert_point ::
  "'a index_config \<Rightarrow> nat \<Rightarrow> 'a list \<Rightarrow> nat list \<Rightarrow> ('a::zero) index \<times> 'a scratch
     \<Rightarrow> (bool \<times> 'a index \<times> 'a scratch) result" where
  "insert_point cfg tag point labels = (\<lambda>(ix, s).
     if tag = 0 then Inl (ANNException ''Do not insert point with tag 0. That is reserved for points hidden from the user.'')
     else bindR (reserve_location ix) (\<lambda>(location, ix1).
          bindR (insert_labels cfg point labels location ix1) (\<lambda>(go, ix2).
          if \<not> go then Inr (False, ix2, s)
          else case location of
            None \<Rightarrow> Inr (False, ix2, s)
          | Some l \<Rightarrow>
              bindR (add_tag cfg tag l ix2) (\<lambda>(added, ix3).
              if \<not> added then Inr (False, ix3, s)
              else bindR (ds_set_vector (ic_df cfg) l point (ix_data ix3)) (\<lambda>d.
                   bindR (connect_point cfg l (ix3\<lparr>ix_data := d\<rparr>, s)) (\<lambda>(ix4, s'). Inr (True, ix4, s')))))))"

section \<open>Consolidation\<close>

text \<open>
  The neighbours of a node with every deleted one replaced by its own remaining neighbours; the
  flag says whether there was a deleted one.
\<close>

fun gather :: "nat set \<Rightarrow> graph_store \<Rightarrow> nat \<Rightarrow> nat list \<Rightarrow> bool \<times> nat set \<Rightarrow> (bool \<times> nat set) result" where
  "gather old g loc [] st = Inr st"
| "gather old g loc (ngh # adj_list) (modify, S) =
     (if ngh \<notin> old then gather old g loc adj_list (modify, insert ngh S)
      else bindR (get_neighbours g ngh) (\<lambda>js.
             gather old g loc adj_list (True, S \<union> {j \<in> set js. j \<noteq> loc \<and> j \<notin> old})))"

record delete_params =
  dp_max_degree :: nat
  dp_max_occlusion_size :: nat
  dp_alpha :: fl

definition process_delete ::
  "'a index_config \<Rightarrow> delete_params \<Rightarrow> nat set \<Rightarrow> nat \<Rightarrow> 'a index \<times> 'a scratch \<Rightarrow> ('a index \<times> 'a scratch) result" where
  "process_delete cfg params old loc = (\<lambda>(ix, s).
     bindR (get_neighbours (ix_graph ix) loc) (\<lambda>adj_list.
     bindR (gather old (ix_graph ix) loc adj_list (False, sc_expanded_set s)) (\<lambda>(modify, S).
     let s1 = s\<lparr>sc_expanded_set := S\<rparr> in
     if \<not> modify then Inr (ix, s1)
     else if card S \<le> dp_max_degree params
     then bindR (clear_neighbours loc (ix_graph ix)) (\<lambda>g1.
          bindR (foldR (add_neighbour loc) (ic_order cfg S) g1) (\<lambda>g2. Inr (ix\<lparr>ix_graph := g2\<rparr>, s1)))
     else bindR (mapR (\<lambda>n. bindR (ds_distance_locs (ic_df cfg) (ix_data ix) loc n) (\<lambda>d. Inr (Neighbor n d))) (ic_order cfg S)) (\<lambda>nghrs.
          bindR (sort_pool (sc_expanded_vec s1 @ nghrs)) (\<lambda>vec.
          bindR (occlude_list (prune_env_of cfg ix) loc vec (dp_alpha params) (dp_max_degree params)
                   (dp_max_occlusion_size params) (sc_occlude_out s1) s1 (Some old)) (\<lambda>(vec', out, s2).
          bindR (set_neighbours loc out (ix_graph ix)) (\<lambda>g2.
            Inr (ix\<lparr>ix_graph := g2\<rparr>, s2\<lparr>sc_expanded_vec := vec', sc_occlude_out := out\<rparr>))))))))"

datatype status_code = SUCCESS | FAIL | LOCK_FAIL | INCONSISTENT_COUNT_ERROR

record consolidation_report =
  cr_status :: status_code
  cr_active_points :: nat
  cr_max_points :: nat
  cr_empty_slots :: nat
  cr_slots_released :: nat
  cr_delete_set_size :: nat
  cr_num_calls :: nat

definition failed_report :: "status_code \<Rightarrow> consolidation_report" where
  "failed_report c = \<lparr>cr_status = c, cr_active_points = 0, cr_max_points = 0, cr_empty_slots = 0, cr_slots_released = 0,
     cr_delete_set_size = 0, cr_num_calls = 0\<rparr>"

text \<open>One location of the parallel loop, and the frozen points of the second loop.\<close>

definition process_location ::
  "'a index_config \<Rightarrow> delete_params \<Rightarrow> nat set \<Rightarrow> nat \<Rightarrow> ('a index \<times> 'a scratch) \<times> nat \<Rightarrow> (('a index \<times> 'a scratch) \<times> nat) result" where
  "process_location cfg params old loc = (\<lambda>(st, calls).
     bindR (process_delete cfg params old loc st) (\<lambda>(ix, s). Inr ((ix, scratch_clear s), calls + 1)))"

definition process_slot ::
  "'a index_config \<Rightarrow> delete_params \<Rightarrow> nat set \<Rightarrow> nat \<Rightarrow> ('a index \<times> 'a scratch) \<times> nat \<Rightarrow> (('a index \<times> 'a scratch) \<times> nat) result" where
  "process_slot cfg params old loc = (\<lambda>(st, calls).
     if loc \<in> old then Inr (st, calls)
     else bindR (nns_is_in_set (ix_empty (fst st)) loc) (\<lambda>free.
          if free then Inr (st, calls) else process_location cfg params old loc (st, calls)))"

text \<open>\<open>lock\<close> says whether the consolidation lock could be taken.\<close>

definition consolidate_deletes ::
  "'a index_config \<Rightarrow> delete_params \<Rightarrow> bool \<Rightarrow> 'a index \<times> 'a scratch
     \<Rightarrow> (consolidation_report \<times> 'a index \<times> 'a scratch) result" where
  "consolidate_deletes cfg params lock = (\<lambda>(ix, s).
     if \<not> ic_enable_tags cfg then Inl (ANNException ''Point tag array not instantiated'')
     else if nns_size (ix_empty ix) + ix_nd ix \<noteq> ix_max_points ix
     then Inl (ANNException ''#empty slots + nd != max points'')
     else if nnm_count (ix_l2t ix) + card (ix_deleted ix) \<noteq> ix_nd ix
     then Inr (failed_report INCONSISTENT_COUNT_ERROR, ix, s)
     else if nnm_count (ix_l2t ix) \<noteq> card (dom (ix_t2l ix))
     then Inl (ANNException ''_location_to_tag and _tag_to_location not of same size'')
     else if \<not> lock then Inr (failed_report LOCK_FAIL, ix, s)
     else let old = ix_deleted ix; ix1 = ix\<lparr>ix_deleted := {}\<rparr> in
     if ix_start ix1 \<in> old then Inl (ANNException ''ERROR: start node has been deleted'')
     else bindR (foldR (process_slot cfg params old) [0..<ix_max_points ix1] ((ix1, s), 0)) (\<lambda>st.
          bindR (foldR (process_location cfg params old) [ix_max_points ix1..<ix_total ix1] st) (\<lambda>((ix2, s2), calls).
          bindR (release_locations (ic_order cfg old) ix2) (\<lambda>(ret_nd, ix3).
            Inr (\<lparr>cr_status = SUCCESS, cr_active_points = ret_nd, cr_max_points = ix_max_points ix3,
                   cr_empty_slots = nns_size (ix_empty ix3), cr_slots_released = card old,
                   cr_delete_set_size = card (ix_deleted ix3), cr_num_calls = calls\<rparr>, ix3, s2)))))"

section \<open>The state of a dynamic index between operations\<close>

definition used :: "'a index \<Rightarrow> nat set" where
  "used ix = live ix \<union> ix_deleted ix \<union> {ix_max_points ix..<ix_total ix}"

definition dyn_inv :: "'a index_config \<Rightarrow> 'a index \<Rightarrow> bool" where
  "dyn_inv cfg ix \<longleftrightarrow> book_inv ix \<and> rows_ok ix \<and> gs_points (ix_graph ix) = ix_total ix \<and> \<not> ix_filtered ix
     \<and> 0 < ix_num_frozen ix \<and> ix_start ix = ix_max_points ix
     \<and> graph_wf (used ix) (list_bound (ic_R cfg)) (ix_graph ix)"

lemma dyn_invD:
  assumes "dyn_inv cfg ix"
  shows "book_inv ix" "rows_ok ix" "gs_points (ix_graph ix) = ix_total ix" "\<not> ix_filtered ix" "0 < ix_num_frozen ix"
    "ix_start ix = ix_max_points ix" "graph_wf (used ix) (list_bound (ic_R cfg)) (ix_graph ix)"
  using assms by (simp_all add: dyn_inv_def)

lemma used_bound:
  assumes "book_inv ix"
  shows "used ix \<subseteq> {..<ix_total ix}" "live ix \<subseteq> {..<ix_max_points ix}" "ix_deleted ix \<subseteq> {..<ix_max_points ix}"
proof -
  have "live ix \<union> ix_deleted ix \<union> nns_elems (ix_empty ix) = {..<ix_max_points ix}" by (rule book_invD(4) [OF assms])
  then show l: "live ix \<subseteq> {..<ix_max_points ix}" "ix_deleted ix \<subseteq> {..<ix_max_points ix}" by blast+
  have "{..<ix_max_points ix} \<subseteq> {..<ix_total ix}" by (auto simp: ix_total_def)
  then show "used ix \<subseteq> {..<ix_total ix}" using l unfolding used_def by fastforce
qed

lemma init_used:
  assumes "dyn_inv cfg ix"
  shows "set (get_init_ids ix) \<subseteq> used ix"
proof -
  note I = dyn_invD [OF assms]
  have m: "u32 (ix_max_points ix) = ix_max_points ix" using book_invD(9) [OF I(1)] by simp
  have "ix_start ix \<in> used ix" using I(5,6) by (simp add: used_def ix_total_def)
  then show ?thesis by (auto simp: get_init_ids_def m used_def)
qed

lemma dyn_buildable:
  assumes "dyn_inv cfg ix"
  shows "buildable cfg (used ix) ix"
  using dyn_invD [OF assms] used_bound(1) [OF dyn_invD(1) [OF assms]] init_used [OF assms] by (simp add: buildable_def)

section \<open>Insertion keeps the invariant\<close>

lemma buildable_insert:
  assumes "buildable cfg V ix" "i < ix_total ix" "graph_wf (insert i V) (list_bound (ic_R cfg)) g" "gs_points g = gs_points (ix_graph ix)"
  shows "buildable cfg (insert i V) (ix\<lparr>ix_graph := g\<rparr>)"
  using assms by (auto simp: buildable_def rows_ok_def ix_total_def get_init_ids_def)

lemma connect_point_ok:
  assumes cfg: "cfg_ok cfg" and b: "buildable cfg V ix" and l: "location < ix_total ix"
    and s: "scratch_clean s" "scratch_fits cfg ix s"
  shows "\<exists>g s'. connect_point cfg location (ix, s) = Inr (ix\<lparr>ix_graph := g\<rparr>, s') \<and> scratch_clean s' \<and> scratch_fits cfg ix s'
     \<and> buildable cfg (insert location V) (ix\<lparr>ix_graph := g\<rparr>)"
proof -
  have B: "gs_points (ix_graph ix) = ix_total ix" "V \<subseteq> {..<ix_total ix}" "graph_wf V (list_bound (ic_R cfg)) (ix_graph ix)" "\<not> ix_filtered ix"
    using b by (simp_all add: buildable_def)
  obtain out s1 where 1: "search_for_point_and_prune cfg ix location (ic_L cfg) [] False (ic_filterL cfg) s = Inr (out, ix, s1)"
      "scratch_fits cfg ix s1" "length out \<le> ic_R cfg" "set out \<subseteq> V"
    using search_for_point_and_prune_ok [OF cfg b l s] by blast
  have lg: "location < gs_points (ix_graph ix)" using l B(1) by simp
  obtain g1 where g1: "clear_neighbours location (ix_graph ix) = Inr g1" "graph_wf V (list_bound (ic_R cfg)) g1"
      "gs_points g1 = gs_points (ix_graph ix)" using graph_wf_clear [OF B(3) lg] by blast
  let ?links = "filter (\<lambda>link. \<not> ic_conc_consolidate cfg \<or> nnm_contains (ix_l2t ix) link) out"
  have links: "set ?links \<subseteq> V" "length ?links \<le> ic_R cfg" using 1(3,4) by (auto intro: order_trans [OF length_filter_le])
  have lg1: "location < gs_points g1" using lg g1(3) by simp
  have "set ?links \<subseteq> {..<gs_points g1}" using links(1) B(1,2) g1(3) by (metis order_trans)
  then have "list_ok V (list_bound (ic_R cfg)) (gs_points g1) location ?links"
    using links by (simp add: list_ok_def list_bound_def)
  from graph_wf_set [OF g1(2) lg1 this] obtain g2 where g2: "set_neighbours location ?links g1 = Inr g2"
      "graph_wf V (list_bound (ic_R cfg)) g2" "gs_points g2 = gs_points g1" "get_neighbours g2 location = Inr ?links" by blast
  have "set ?links \<subseteq> insert location V" using links(1) by blast
  then have wf: "graph_wf (insert location V) (list_bound (ic_R cfg)) g2" by (rule graph_wf_insert [OF g2(2,4)])
  have b2: "buildable cfg (insert location V) (ix\<lparr>ix_graph := g2\<rparr>)"
    by (rule buildable_insert [OF b l wf]) (simp add: g2(3) g1(3))
  have out: "set out \<subseteq> insert location V" using 1(4) by blast
  obtain g s2 where 2: "inter_insert cfg location out (ic_R cfg) (ix\<lparr>ix_graph := g2\<rparr>, s1) = Inr (ix\<lparr>ix_graph := g2\<rparr>\<lparr>ix_graph := g\<rparr>, s2)"
      "scratch_fits cfg ix s2" "buildable cfg (insert location V) (ix\<lparr>ix_graph := g2\<rparr>\<lparr>ix_graph := g\<rparr>)"
    using inter_insert_ok [OF cfg b2 insertI1 out, of s1] 1(2) by auto
  have "connect_point cfg location (ix, s) = Inr (ix\<lparr>ix_graph := g\<rparr>, scratch_clear s2)"
    using B(4) 1(1) g1(1) g2(1) 2(1) by (simp add: connect_point_def Let_def)
  moreover have "scratch_fits cfg ix (scratch_clear s2)" using 2(2) by (simp add: scratch_fits_def scratch_clear_def)
  ultimately show ?thesis using 2(3) by (intro exI [of _ g] exI [of _ "scratch_clear s2"]) simp
qed

lemma reserve_filtered: "reserve_location ix = Inr (l, ix') \<Longrightarrow> ix_filtered ix' = ix_filtered ix"
  by (auto simp: reserve_location_def bindR_eq_Inr split: if_splits)

text \<open>Without labels, an insertion is the registration of the tag followed by the vector and the edges.\<close>

lemma insert_point_unfiltered:
  assumes "\<not> ix_filtered ix" "tag \<noteq> 0"
  shows "insert_point cfg tag point labels (ix, s) =
    bindR (register cfg tag ix) (\<lambda>(location, ix1). case location of
      None \<Rightarrow> Inr (False, ix1, s)
    | Some l \<Rightarrow> bindR (ds_set_vector (ic_df cfg) l point (ix_data ix1)) (\<lambda>d.
                bindR (connect_point cfg l (ix1\<lparr>ix_data := d\<rparr>, s)) (\<lambda>(ix2, s'). Inr (True, ix2, s'))))"
proof (cases "reserve_location ix")
  case (Inl e)
  then show ?thesis using assms(2) by (simp add: insert_point_def register_def)
next
  case (Inr r)
  obtain loc ix1 where r: "r = (loc, ix1)" by (cases r)
  have nf: "\<not> ix_filtered ix1" using reserve_filtered [of ix loc ix1] Inr assms(1) r by simp
  show ?thesis
  proof (cases loc)
    case None
    then show ?thesis using Inr r assms(2) nf by (simp add: insert_point_def register_def insert_labels_def)
  next
    case (Some l)
    show ?thesis
    proof (cases "add_tag cfg tag l ix1")
      case (Inl e)
      then show ?thesis using Some Inr r assms(2) nf by (simp add: insert_point_def register_def insert_labels_def)
    next
      case (Inr a)
      then show ?thesis using Some \<open>reserve_location ix = Inr r\<close> r assms(2) nf
        by (cases a; cases "fst a") (simp_all add: insert_point_def register_def insert_labels_def)
    qed
  qed
qed

text \<open>The tags with their vectors, and the number of locations waiting for a consolidation.\<close>

definition tag_vectors :: "'a index \<Rightarrow> nat \<rightharpoonup> 'a list" where
  "tag_vectors ix tag = (case get_vector_by_tag tag ix of Inr v \<Rightarrow> v | Inl e \<Rightarrow> None)"

lemma get_vector_by_tag_eq:
  assumes "dyn_inv cfg ix"
  shows "get_vector_by_tag tag ix = Inr (tag_vectors ix tag)" "dom (tag_vectors ix) = dom (ix_t2l ix)"
proof -
  note I = dyn_invD [OF assms]
  have g: "\<exists>v. get_vector_by_tag t ix = Inr v \<and> (v = None \<longleftrightarrow> ix_t2l ix t = None)" for t
  proof (cases "ix_t2l ix t")
    case (Some l)
    have "l < ds_capacity (ix_data ix)" using tag_location(2) [OF I(1) Some] I(2) by (simp add: rows_ok_def ix_total_def)
    then show ?thesis using Some I(2) ds_row_in [of "ix_data ix" l] ds_get_vector_row [of "ix_data ix" l]
      by (simp add: rows_ok_def get_vector_by_tag_def)
  qed (simp add: get_vector_by_tag_def)
  then show "get_vector_by_tag tag ix = Inr (tag_vectors ix tag)" by (metis tag_vectors_def sum.case(2))
  have "tag_vectors ix t = None \<longleftrightarrow> ix_t2l ix t = None" for t using g [of t] by (auto simp: tag_vectors_def)
  then show "dom (tag_vectors ix) = dom (ix_t2l ix)" by (auto simp: dom_def)
qed

definition stored :: "'a index_config \<Rightarrow> 'a index \<Rightarrow> ('a::zero) list \<Rightarrow> 'a list" where
  "stored cfg ix v = take (ds_dim (ix_data ix)) (prepared (ic_df cfg) (ds_aligned_dim (ix_data ix)) v)"

definition same_shape :: "'a index \<Rightarrow> 'a index \<Rightarrow> bool" where
  "same_shape ix ix' \<longleftrightarrow> ix_max_points ix' = ix_max_points ix \<and> ix_num_frozen ix' = ix_num_frozen ix
     \<and> ds_dim (ix_data ix') = ds_dim (ix_data ix) \<and> ds_aligned_dim (ix_data ix') = ds_aligned_dim (ix_data ix)"

lemma book_other [simp]:
  "book_inv (ix\<lparr>ix_graph := g\<rparr>) = book_inv ix" "book_inv (ix\<lparr>ix_data := d\<rparr>) = book_inv ix"
  by (simp_all add: book_inv_def)

lemma dyn_inv_slots:
  assumes "dyn_inv cfg ix" "book_inv (ix\<lparr>ix_empty := slots\<rparr>)"
  shows "dyn_inv cfg (ix\<lparr>ix_empty := slots\<rparr>)"
proof -
  have "used (ix\<lparr>ix_empty := slots\<rparr>) = used ix" by (simp add: used_def ix_total_def)
  then show ?thesis using assms by (simp add: dyn_inv_def rows_ok_def ix_total_def)
qed

text \<open>Giving a free location \<open>l\<close> a tag, a vector and edges.\<close>

lemma insert_new_ok:
  assumes cfg: "cfg_ok cfg" "df_ok (ic_df cfg)" and inv: "dyn_inv cfg ix" and fresh: "tag \<notin> dom (ix_t2l ix)"
    and l: "l \<in> nns_elems (ix_empty ix)" and ix1: "ix1 = ix\<lparr>ix_empty := slots, ix_nd := ix_nd ix + 1,
        ix_t2l := (ix_t2l ix)(tag \<mapsto> l), ix_l2t := nnm_set (ix_l2t ix) l tag\<rparr>" "book_inv ix1"
    and point: "length point = ds_dim (ix_data ix)" and s: "scratch_clean s" "scratch_fits cfg ix s"
  shows "\<exists>d ix' s'. ds_set_vector (ic_df cfg) l point (ix_data ix1) = Inr d \<and> connect_point cfg l (ix1\<lparr>ix_data := d\<rparr>, s) = Inr (ix', s')
     \<and> dyn_inv cfg ix' \<and> scratch_clean s' \<and> scratch_fits cfg ix' s' \<and> same_shape ix ix' \<and> ix_deleted ix' = ix_deleted ix
     \<and> tag_vectors ix' = (tag_vectors ix)(tag \<mapsto> stored cfg ix point)"
proof -
  note I = dyn_invD [OF inv]
  have lm: "l < ix_max_points ix"
  proof -
    have "nns_elems (ix_empty ix) \<subseteq> {..<ix_max_points ix}" using book_invD(4) [OF I(1)] by blast
    then show ?thesis using l by blast
  qed
  have lcap: "l < ds_capacity (ix_data ix)" using lm I(2) by (simp add: rows_ok_def ix_total_def)
  have dsi: "ds_inv (ix_data ix)" using I(2) by (simp add: rows_ok_def)
  obtain d where d: "ds_set_vector (ic_df cfg) l point (ix_data ix) = Inr d" "ds_inv d" "ds_capacity d = ds_capacity (ix_data ix)"
      "ds_aligned_dim d = ds_aligned_dim (ix_data ix)" "ds_dim d = ds_dim (ix_data ix)"
      "ds_row d l = Inr (prepared (ic_df cfg) (ds_aligned_dim (ix_data ix)) point)" "\<forall>j. j \<noteq> l \<longrightarrow> ds_row d j = ds_row (ix_data ix) j"
    using ds_set_vector_correct [OF dsi lcap point cfg(2)] by blast
  let ?ix2 = "ix1\<lparr>ix_data := d\<rparr>"
  have b: "buildable cfg (used ix) ?ix2"
    using dyn_buildable [OF inv] d(2,3) by (simp add: buildable_def rows_ok_def ix_total_def get_init_ids_def ix1(1))
  have lt: "l < ix_total ?ix2" using lm by (simp add: ix1(1) ix_total_def)
  have f: "scratch_fits cfg ?ix2 s" using s(2) d(5) by (simp add: scratch_fits_def)
  obtain g s' where c: "connect_point cfg l (?ix2, s) = Inr (?ix2\<lparr>ix_graph := g\<rparr>, s')" "scratch_clean s'" "scratch_fits cfg ?ix2 s'"
      "buildable cfg (insert l (used ix)) (?ix2\<lparr>ix_graph := g\<rparr>)"
    using connect_point_ok [OF cfg(1) b lt s(1) f] by blast
  let ?ix' = "?ix2\<lparr>ix_graph := g\<rparr>"
  have nn: "nnm_inv (ix_l2t ix)" by (rule book_invD(1) [OF I(1)])
  have lv: "live ?ix' = insert l (live ix)" using nnm_map.look_upd [OF nn, of l tag] by (simp add: live_def ix1(1))
  have us: "used ?ix' = insert l (used ix)" unfolding used_def lv by (simp add: ix1(1) ix_total_def)
  have dyn: "dyn_inv cfg ?ix'"
    unfolding dyn_inv_def us using c(4) ix1(2) I(5,6) by (simp add: buildable_def) (simp add: ix1(1))
  have vec: "ds_get_vector d j = (if j = l then Inr (stored cfg ix point) else ds_get_vector (ix_data ix) j)"
    if "j < ds_capacity (ix_data ix)" for j
    using ds_get_vector_row [OF d(2), of j] ds_get_vector_row [OF dsi, of j] that d(3-7) by (simp add: stored_def)
  have "tag_vectors ?ix' t = ((tag_vectors ix)(tag \<mapsto> stored cfg ix point)) t" for t
  proof (cases "t = tag")
    case True
    then show ?thesis using vec [OF lcap] by (simp add: tag_vectors_def get_vector_by_tag_def ix1(1))
  next
    case False
    show ?thesis
    proof (cases "ix_t2l ix t")
      case None
      then show ?thesis using False by (simp add: tag_vectors_def get_vector_by_tag_def ix1(1))
    next
      case (Some k)
      have "k \<in> live ix" "k < ix_max_points ix" using tag_location [OF I(1) Some] by blast+
      moreover have "l \<notin> live ix" using l book_invD(6) [OF I(1)] by blast
      ultimately have "k \<noteq> l" "k < ds_capacity (ix_data ix)" using I(2) by (auto simp: rows_ok_def ix_total_def)
      then show ?thesis using False Some vec [of k] by (simp add: tag_vectors_def get_vector_by_tag_def ix1(1))
    qed
  qed
  then have tv: "tag_vectors ?ix' = (tag_vectors ix)(tag \<mapsto> stored cfg ix point)" by blast
  have "same_shape ix ?ix'" "ix_deleted ?ix' = ix_deleted ix" "scratch_fits cfg ?ix' s'"
    using d(4,5) c(3) by (simp_all add: same_shape_def ix1(1) scratch_fits_def)
  moreover have "ds_set_vector (ic_df cfg) l point (ix_data ix1) = Inr d" using d(1) by (simp add: ix1(1))
  ultimately show ?thesis using c(1,2) dyn tv by blast
qed

lemma insert_point_ok:
  assumes cfg: "cfg_ok cfg" "df_ok (ic_df cfg)" "ic_enable_tags cfg" and inv: "dyn_inv cfg ix" and tag: "tag \<noteq> 0"
    and point: "length point = ds_dim (ix_data ix)" and s: "scratch_clean s" "scratch_fits cfg ix s"
  shows "\<exists>added ix' s'. insert_point cfg tag point labels (ix, s) = Inr (added, ix', s') \<and> dyn_inv cfg ix'
     \<and> scratch_clean s' \<and> scratch_fits cfg ix' s' \<and> same_shape ix ix' \<and> ix_deleted ix' = ix_deleted ix
     \<and> added = (ix_nd ix < ix_max_points ix \<and> tag \<notin> dom (tag_vectors ix))
     \<and> tag_vectors ix' = (if added then (tag_vectors ix)(tag \<mapsto> stored cfg ix point) else tag_vectors ix)"
proof -
  note I = dyn_invD [OF inv]
  note u = insert_point_unfiltered [OF I(4) tag]
  note dom = get_vector_by_tag_eq(2) [OF inv]
  have sh: "same_shape ix ix" by (simp add: same_shape_def)
  from register_cases [OF I(1) cfg(3), of tag] show ?thesis
  proof (elim disjE conjE exE, goal_cases)
    case 1
    then show ?case using inv s sh dom
      by (intro exI [of _ False] exI [of _ ix] exI [of _ s]) (simp add: u)
  next
    case (2 slots)
    have tv: "tag_vectors (ix\<lparr>ix_empty := slots\<rparr>) = tag_vectors ix"
      by (rule ext) (simp add: tag_vectors_def get_vector_by_tag_def split: option.split)
    have fit: "scratch_fits cfg (ix\<lparr>ix_empty := slots\<rparr>) s" using s(2) by (simp add: scratch_fits_def)
    show ?case using 2 dyn_inv_slots [OF inv 2(4)] s(1) fit dom tv
      by (intro exI [of _ False] exI [of _ "ix\<lparr>ix_empty := slots\<rparr>"] exI [of _ s]) (simp add: u same_shape_def)
  next
    case (3 l slots ix1)
    obtain d ix' s' where n: "ds_set_vector (ic_df cfg) l point (ix_data ix1) = Inr d"
        "connect_point cfg l (ix1\<lparr>ix_data := d\<rparr>, s) = Inr (ix', s')"
        "dyn_inv cfg ix'" "scratch_clean s'" "scratch_fits cfg ix' s'" "same_shape ix ix'" "ix_deleted ix' = ix_deleted ix"
        "tag_vectors ix' = (tag_vectors ix)(tag \<mapsto> stored cfg ix point)"
      using insert_new_ok [OF cfg(1,2) inv 3(2,4) 3(7,6) point s] by blast
    show ?case using 3(1,2,3) n dom by (intro exI [of _ True] exI [of _ ix'] exI [of _ s']) (simp add: u)
  qed
qed

section \<open>Consolidation removes every edge to a deleted node\<close>

definition edges_into :: "nat set \<Rightarrow> graph_store \<Rightarrow> nat \<Rightarrow> bool" where
  "edges_into W g i \<longleftrightarrow> (\<exists>ns. get_neighbours g i = Inr ns \<and> set ns \<subseteq> W)"

definition params_ok :: "'a index_config \<Rightarrow> delete_params \<Rightarrow> bool" where
  "params_ok cfg p \<longleftrightarrow> alpha_in_range (dp_alpha p) \<and> dp_max_degree p \<le> ic_R cfg"

lemma gather_ok:
  assumes "graph_wf U b g" "U \<subseteq> {..<gs_points g}" "set adj \<subseteq> U" "S \<subseteq> U - old"
  shows "\<exists>m' S'. gather old g loc adj (m, S) = Inr (m', S') \<and> S' \<subseteq> U - old \<and> (\<not> m' \<longrightarrow> set adj \<inter> old = {}) \<and> (m \<longrightarrow> m')"
  using assms(3,4)
proof (induction adj arbitrary: m S)
  case Nil
  then show ?case by simp
next
  case (Cons n adj)
  show ?case
  proof (cases "n \<in> old")
    case False
    then have "insert n S \<subseteq> U - old" using Cons.prems by auto
    then show ?thesis using Cons.IH [of "insert n S" m] Cons.prems(1) False by auto
  next
    case True
    have n: "n < gs_points g" "n \<in> U" using Cons.prems(1) assms(2) by auto
    then obtain js where js: "get_neighbours g n = Inr js" "set js \<subseteq> U"
      using graph_wf_nth [OF assms(1), of n] by (auto simp: list_ok_def)
    then have "S \<union> {j \<in> set js. j \<noteq> loc \<and> j \<notin> old} \<subseteq> U - old" using Cons.prems(2) by auto
    then show ?thesis using Cons.IH [of "S \<union> {j \<in> set js. j \<noteq> loc \<and> j \<notin> old}" True] Cons.prems(1) True js(1) by auto
  qed
qed

lemma order_okD: "order_ok ord \<Longrightarrow> finite S \<Longrightarrow> set (ord S) = S \<and> distinct (ord S) \<and> length (ord S) = card S"
  by (metis order_ok_def distinct_card)

lemma process_delete_ok:
  assumes cfg: "cfg_ok cfg" "order_ok (ic_order cfg)" "params_ok cfg params" and b: "buildable cfg U ix" and l: "loc \<in> U"
    and s: "scratch_clean s" "scratch_fits cfg ix s"
  shows "\<exists>g s'. process_delete cfg params old loc (ix, s) = Inr (ix\<lparr>ix_graph := g\<rparr>, s') \<and> scratch_fits cfg ix s'
     \<and> buildable cfg U (ix\<lparr>ix_graph := g\<rparr>) \<and> edges_into (U - old) g loc
     \<and> (\<forall>j. j \<noteq> loc \<longrightarrow> get_neighbours g j = get_neighbours (ix_graph ix) j)"
proof -
  let ?b = "list_bound (ic_R cfg)"
  have B: "rows_ok ix" "gs_points (ix_graph ix) = ix_total ix" "U \<subseteq> {..<ix_total ix}" "graph_wf U ?b (ix_graph ix)" "\<not> ix_filtered ix"
    using b by (simp_all add: buildable_def)
  have UN: "U \<subseteq> {..<gs_points (ix_graph ix)}" using B(2,3) by simp
  have lg: "loc < gs_points (ix_graph ix)" "loc < ix_total ix" using l UN B(2) by auto
  obtain adj where adj: "get_neighbours (ix_graph ix) loc = Inr adj" "set adj \<subseteq> U"
    using graph_wf_nth [OF B(4) lg(1)] l by (auto simp: list_ok_def)
  have clean: "sc_expanded_set s = {}" "sc_expanded_vec s = []" "sc_occlude_out s = []" using s(1) by (simp_all add: scratch_clean_def)
  obtain m S where ga: "gather old (ix_graph ix) loc adj (False, {}) = Inr (m, S)" "S \<subseteq> U - old" "\<not> m \<longrightarrow> set adj \<inter> old = {}"
    using gather_ok [OF B(4) UN adj(2), of "{}" old loc False] by blast
  have finS: "finite S" by (rule finite_subset [OF subset_trans [OF ga(2) subset_trans [OF Diff_subset B(3)]]]) simp
  note ord = order_okD [OF cfg(2) finS]
  have SN: "S \<subseteq> {..<gs_points (ix_graph ix)}" "S \<subseteq> U" using ga(2) UN by auto
  show ?thesis
  proof (cases m)
    case False
    then have "set adj \<subseteq> U - old" using ga(3) adj(2) by auto
    then show ?thesis using False adj(1) ga(1) clean s(2) b
      by (intro exI [of _ "ix_graph ix"] exI [of _ "s\<lparr>sc_expanded_set := S\<rparr>"])
        (simp add: process_delete_def edges_into_def scratch_fits_def)
  next
    case m: True
    show ?thesis
    proof (cases "card S \<le> dp_max_degree params")
      case True
      obtain g1 where g1: "clear_neighbours loc (ix_graph ix) = Inr g1" "graph_wf U ?b g1" "gs_points g1 = gs_points (ix_graph ix)"
          "get_neighbours g1 loc = Inr []" "\<forall>j. j \<noteq> loc \<longrightarrow> get_neighbours g1 j = get_neighbours (ix_graph ix) j"
        using graph_wf_clear [OF B(4) lg(1)] by blast
      have l1: "loc < gs_points g1" using lg(1) g1(3) by simp
      have "card S \<le> ic_R cfg" using True cfg(3) by (simp add: params_ok_def)
      then have "list_ok U ?b (gs_points g1) loc ([] @ ic_order cfg S)"
        using ord SN g1(3) by (simp add: list_ok_def list_bound_def)
      from graph_wf_add_all [OF g1(2) l1 g1(4) this] obtain g2 where g2: "foldR (add_neighbour loc) (ic_order cfg S) g1 = Inr g2"
          "graph_wf U ?b g2" "gs_points g2 = gs_points g1" "get_neighbours g2 loc = Inr ([] @ ic_order cfg S)"
          "\<forall>j. j \<noteq> loc \<longrightarrow> get_neighbours g2 j = get_neighbours g1 j" by blast
      have "buildable cfg U (ix\<lparr>ix_graph := g2\<rparr>)" by (rule buildable_graph [OF b g2(2)]) (simp add: g2(3) g1(3))
      moreover have "edges_into (U - old) g2 loc" using g2(4) ord ga(2) by (simp add: edges_into_def)
      ultimately show ?thesis using m True adj(1) ga(1) clean s(2) g1(1,5) g2(1,5)
        by (intro exI [of _ g2] exI [of _ "s\<lparr>sc_expanded_set := S\<rparr>"]) (simp add: process_delete_def scratch_fits_def)
    next
      case False
      define nd where "nd n = projr (ds_distance_locs (ic_df cfg) (ix_data ix) loc n)" for n
      let ?pool = "map (\<lambda>n. Neighbor n (nd n)) (ic_order cfg S)"
      have dist: "ds_distance_locs (ic_df cfg) (ix_data ix) loc n = Inr (nd n) \<and> nd n \<noteq> NaN" if "n \<in> S" for n
      proof -
        have "n < ix_total ix" using SN(1) that B(2) by auto
        then obtain d where "ds_distance_locs (ic_df cfg) (ix_data ix) loc n = Inr d" "d \<noteq> NaN"
          using locs_distance [of cfg ix loc n] cfg(1) B(1) lg(2) by (auto simp: cfg_ok_def)
        then show ?thesis by (simp add: nd_def)
      qed
      have mp: "mapR (\<lambda>n. bindR (ds_distance_locs (ic_df cfg) (ix_data ix) loc n) (\<lambda>d. Inr (Neighbor n d))) (ic_order cfg S) = Inr ?pool"
        by (rule mapR_total) (use dist ord in simp)
      have nan: "\<forall>x \<in> set ?pool. nbr_dist x \<noteq> NaN" using dist ord by auto
      let ?P = "sort_key nbr_key ?pool"
      have sp: "sort_pool ?pool = Inr ?P" using nan by (auto simp: sort_pool_def)
      have ids: "nbr_id ` set ?pool = S" "map nbr_id ?pool = ic_order cfg S" using ord by (simp_all add: image_image comp_def)
      have "mset (map nbr_id ?P) = mset (map nbr_id ?pool)" by (simp only: mset_map mset_sort)
      then have dP: "distinct (map nbr_id ?P)" using ids(2) ord by (metis mset_eq_imp_distinct_iff)
      let ?mc = "dp_max_occlusion_size params"
      have tP: "nbr_id ` set (take ?mc ?P) \<subseteq> S" using image_mono [OF set_take_subset, of nbr_id ?mc ?P] ids(1) by simp
      have ok: "occl_ok (prune_env_of cfg ix) (take ?mc ?P)"
        by (rule occl_within [OF cfg(1) B(1,5,3)]) (use tP SN(2) in blast)
      have al: "fl_le (Fin 1) (dp_alpha params)" "fl_lt (dp_alpha params) FLT_MAX" using cfg(3) by (simp_all add: params_ok_def alpha_in_range_def)
      let ?s1 = "s\<lparr>sc_expanded_set := S\<rparr>"
      obtain out fs where o: "occlude_list (prune_env_of cfg ix) loc ?P (dp_alpha params) (dp_max_degree params) ?mc [] ?s1 (Some old)
            = Inr (take ?mc ?P, out, ?s1\<lparr>sc_occlude := fs\<rparr>)"
          "selects (prune_env_of cfg ix) loc (Some old) (take ?mc ?P) (dp_alpha params) (dp_max_degree params) out"
        using occlude_list_selects_library [OF ok dP al, of loc "dp_max_degree params" ?s1 "Some old"] by blast
      have "set out \<subseteq> nbr_id ` set (take ?mc ?P)" using o(2) unfolding selects_def pool_ids_def by blast
      then have oS: "set out \<subseteq> S" using tP by (rule subset_trans)
      have "length out \<le> dp_max_degree params" using o(2) by (simp add: selects_def)
      then have "list_ok U ?b (gs_points (ix_graph ix)) loc out"
        using oS SN cfg(3) by (auto simp: list_ok_def params_ok_def list_bound_def)
      from graph_wf_set [OF B(4) lg(1) this] obtain g where g: "set_neighbours loc out (ix_graph ix) = Inr g" "graph_wf U ?b g"
          "gs_points g = gs_points (ix_graph ix)" "get_neighbours g loc = Inr out"
          "\<forall>j. j \<noteq> loc \<longrightarrow> get_neighbours g j = get_neighbours (ix_graph ix) j" by blast
      have "buildable cfg U (ix\<lparr>ix_graph := g\<rparr>)" by (rule buildable_graph [OF b g(2,3)])
      moreover have "edges_into (U - old) g loc" using g(4) oS ga(2) by (auto simp: edges_into_def)
      ultimately show ?thesis using m False adj(1) ga(1) clean s(2) mp sp o(1) g(1,5)
        by (intro exI [of _ g] exI [of _ "?s1\<lparr>sc_occlude := fs, sc_expanded_vec := take ?mc ?P, sc_occlude_out := out\<rparr>"])
          (simp add: process_delete_def scratch_fits_def)
    qed
  qed
qed

text \<open>The two loops over the locations.\<close>

definition sweep_inv :: "'a index_config \<Rightarrow> nat set \<Rightarrow> 'a index \<Rightarrow> ('a index \<times> 'a scratch) \<times> nat \<Rightarrow> bool" where
  "sweep_inv cfg U ix st \<longleftrightarrow> (\<exists>g. fst (fst st) = ix\<lparr>ix_graph := g\<rparr>) \<and> buildable cfg U (fst (fst st))
     \<and> scratch_clean (snd (fst st)) \<and> scratch_fits cfg ix (snd (fst st))"

lemma sweep_invE:
  assumes "sweep_inv cfg U ix st"
  obtains g s n where "st = ((ix\<lparr>ix_graph := g\<rparr>, s), n)" "buildable cfg U (ix\<lparr>ix_graph := g\<rparr>)" "scratch_clean s" "scratch_fits cfg ix s"
proof -
  obtain g where g: "fst (fst st) = ix\<lparr>ix_graph := g\<rparr>" using assms unfolding sweep_inv_def by blast
  have st: "st = ((ix\<lparr>ix_graph := g\<rparr>, snd (fst st)), snd st)" using g by (metis prod.collapse)
  have "buildable cfg U (ix\<lparr>ix_graph := g\<rparr>)" "scratch_clean (snd (fst st))" "scratch_fits cfg ix (snd (fst st))"
    using assms unfolding sweep_inv_def g by simp_all
  then show ?thesis by (rule that [OF st])
qed

lemma process_location_ok:
  assumes cfg: "cfg_ok cfg" "order_ok (ic_order cfg)" "params_ok cfg params" and i: "sweep_inv cfg U ix st" and l: "loc \<in> U"
  shows "\<exists>st'. process_location cfg params old loc st = Inr st' \<and> sweep_inv cfg U ix st'
     \<and> edges_into (U - old) (ix_graph (fst (fst st'))) loc
     \<and> (\<forall>j. edges_into (U - old) (ix_graph (fst (fst st))) j \<longrightarrow> edges_into (U - old) (ix_graph (fst (fst st'))) j)"
proof -
  obtain g s n where st: "st = ((ix\<lparr>ix_graph := g\<rparr>, s), n)" "buildable cfg U (ix\<lparr>ix_graph := g\<rparr>)" "scratch_clean s" "scratch_fits cfg ix s"
    using sweep_invE [OF i] by blast
  have f: "scratch_fits cfg (ix\<lparr>ix_graph := g\<rparr>) s" using st(4) by simp
  obtain g2 s2 where p: "process_delete cfg params old loc (ix\<lparr>ix_graph := g\<rparr>, s) = Inr (ix\<lparr>ix_graph := g\<rparr>\<lparr>ix_graph := g2\<rparr>, s2)"
      "scratch_fits cfg ix s2" "buildable cfg U (ix\<lparr>ix_graph := g\<rparr>\<lparr>ix_graph := g2\<rparr>)" "edges_into (U - old) g2 loc"
      "\<forall>j. j \<noteq> loc \<longrightarrow> get_neighbours g2 j = get_neighbours g j"
    using process_delete_ok [OF cfg st(2) l st(3) f, of old] by auto
  have c: "scratch_fits cfg ix (scratch_clear s2)" using p(2) by (simp add: scratch_fits_def scratch_clear_def)
  have keep: "edges_into (U - old) g2 j" if "edges_into (U - old) g j" for j
    using that p(4,5) by (cases "j = loc") (simp_all add: edges_into_def)
  let ?st = "((ix\<lparr>ix_graph := g2\<rparr>, scratch_clear s2), n + 1)"
  have "sweep_inv cfg U ix ?st"
    unfolding sweep_inv_def by (intro conjI exI [of _ g2]) (use p(3) c in simp_all)
  moreover have "process_location cfg params old loc st = Inr ?st" by (simp add: process_location_def st(1) p(1))
  ultimately show ?thesis using p(4) keep by (intro exI [of _ ?st]) (simp add: st(1))
qed

lemma sweep_ok:
  fixes cfg :: "'a index_config"
  assumes cfg: "cfg_ok cfg" "order_ok (ic_order cfg)" "params_ok cfg params" and inv: "dyn_inv cfg ix0"
    and ix: "ix = ix0\<lparr>ix_deleted := {}\<rparr>" and s: "scratch_clean s" "scratch_fits cfg ix s"
  shows "\<exists>g s' n. bindR (foldR (process_slot cfg params (ix_deleted ix0)) [0..<ix_max_points ix] ((ix, s), 0))
         (foldR (process_location cfg params (ix_deleted ix0)) [ix_max_points ix..<ix_total ix]) = Inr ((ix\<lparr>ix_graph := g\<rparr>, s'), n)
     \<and> scratch_clean s' \<and> scratch_fits cfg ix s' \<and> buildable cfg (used ix0) (ix\<lparr>ix_graph := g\<rparr>)
     \<and> (\<forall>i \<in> used ix0 - ix_deleted ix0. edges_into (used ix0 - ix_deleted ix0) g i)"
proof -
  let ?U = "used ix0" and ?old = "ix_deleted ix0"
  let ?P = "sweep_inv cfg ?U ix" and ?Q = "\<lambda>i (st :: ('a index \<times> 'a scratch) \<times> nat). i \<in> ?U - ?old \<longrightarrow> edges_into (?U - ?old) (ix_graph (fst (fst st))) i"
  note bk = book_invD [OF dyn_invD(1) [OF inv]]
  have b: "buildable cfg ?U ix" using dyn_buildable [OF inv] by (simp add: buildable_def ix rows_ok_def ix_total_def get_init_ids_def)
  have P0: "?P ((ix, s), 0)" using b s by (auto simp: sweep_inv_def intro: exI [of _ "ix_graph ix"])
  have 1: "\<exists>st. foldR (process_slot cfg params ?old) [0..<ix_max_points ix] ((ix, s), 0) = Inr st \<and> ?P st
      \<and> (\<forall>i \<in> set [0..<ix_max_points ix]. ?Q i st) \<and> (\<forall>i. ?Q i ((ix, s), 0) \<longrightarrow> ?Q i st)"
  proof (rule foldR_establish [where P = ?P and Q = ?Q])
    show "?P ((ix, s), 0)" by (rule P0)
  next
    fix i st assume i: "i \<in> set [0..<ix_max_points ix]" and P: "?P st"
    obtain st0 n where st: "st = (st0, n)" by (cases st)
    show "\<exists>s'. process_slot cfg params ?old i st = Inr s' \<and> ?P s' \<and> ?Q i s' \<and> (\<forall>y. ?Q y st \<longrightarrow> ?Q y s')"
    proof (cases "i \<in> ?old")
      case True
      then show ?thesis using P st by (simp add: process_slot_def)
    next
      case False
      obtain g where g: "fst st0 = ix\<lparr>ix_graph := g\<rparr>" using sweep_invE [OF P] unfolding st by (metis fst_conv)
      have im: "i < ix_max_points ix0" using i by (simp add: ix)
      then have free: "nns_is_in_set (ix_empty (fst st0)) i = Inr (i \<in> nns_elems (ix_empty ix0))"
        using nns_is_in_set_inside [OF bk(2), of i] bk(10) by (simp add: g ix)
      show ?thesis
      proof (cases "i \<in> nns_elems (ix_empty ix0)")
        case True
        have "i \<notin> live ix0" using True bk(6) by blast
        then have "i \<notin> ?U" using False im by (simp add: used_def)
        then show ?thesis using P st False free True by (simp add: process_slot_def)
      next
        case nf: False
        have "i \<in> live ix0 \<union> ?old \<union> nns_elems (ix_empty ix0)" unfolding bk(4) using im by simp
        then have "i \<in> ?U" using False nf by (simp add: used_def)
        from process_location_ok [OF cfg P this, of ?old] obtain st' where st': "process_location cfg params ?old i st = Inr st'" "?P st'"
            "edges_into (?U - ?old) (ix_graph (fst (fst st'))) i"
            "\<forall>j. edges_into (?U - ?old) (ix_graph (fst (fst st))) j \<longrightarrow> edges_into (?U - ?old) (ix_graph (fst (fst st'))) j" by blast
        have "process_slot cfg params ?old i st = Inr st'" using st'(1) False nf free by (simp add: process_slot_def st)
        then show ?thesis using st'(2-4) by blast
      qed
    qed
  qed
  then obtain st1 where st1: "foldR (process_slot cfg params ?old) [0..<ix_max_points ix] ((ix, s), 0) = Inr st1" "?P st1"
      "\<forall>i \<in> set [0..<ix_max_points ix]. ?Q i st1" by blast
  have 2: "\<exists>st. foldR (process_location cfg params ?old) [ix_max_points ix..<ix_total ix] st1 = Inr st \<and> ?P st
      \<and> (\<forall>i \<in> set [ix_max_points ix..<ix_total ix]. ?Q i st) \<and> (\<forall>i. ?Q i st1 \<longrightarrow> ?Q i st)"
  proof (rule foldR_establish [where P = ?P and Q = ?Q])
    show "?P st1" by (rule st1(2))
  next
    fix i st assume i: "i \<in> set [ix_max_points ix..<ix_total ix]" and P: "?P st"
    have "i \<in> ?U" using i by (simp add: used_def ix ix_total_def)
    from process_location_ok [OF cfg P this, of ?old]
    show "\<exists>s'. process_location cfg params ?old i st = Inr s' \<and> ?P s' \<and> ?Q i s' \<and> (\<forall>y. ?Q y st \<longrightarrow> ?Q y s')" by blast
  qed
  then obtain st2 where st2: "foldR (process_location cfg params ?old) [ix_max_points ix..<ix_total ix] st1 = Inr st2" "?P st2"
      "\<forall>i \<in> set [ix_max_points ix..<ix_total ix]. ?Q i st2" "\<forall>i. ?Q i st1 \<longrightarrow> ?Q i st2" by blast
  have Q: "?Q i st2" for i
  proof
    assume i: "i \<in> ?U - ?old"
    then have "i < ix_total ix" using used_bound(1) [OF dyn_invD(1) [OF inv]] by (auto simp: ix ix_total_def)
    then have "?Q i st2" using st1(3) st2(3,4) by (cases "i < ix_max_points ix") simp_all
    then show "edges_into (?U - ?old) (ix_graph (fst (fst st2))) i" using i by blast
  qed
  obtain g s' n where e: "st2 = ((ix\<lparr>ix_graph := g\<rparr>, s'), n)" "buildable cfg ?U (ix\<lparr>ix_graph := g\<rparr>)"
      "scratch_clean s'" "scratch_fits cfg ix s'" using sweep_invE [OF st2(2)] by blast
  have "\<forall>i \<in> ?U - ?old. edges_into (?U - ?old) g i" using Q by (simp add: e(1))
  then show ?thesis using e(2-4) by (intro exI [of _ g] exI [of _ s'] exI [of _ n]) (simp add: st1(1) st2(1) e(1))
qed

end
