(* ===== verification/Dynamic.thy ===== *)
theory Dynamic
  imports Update
begin

text \<open>
  The updates of a dynamic index taken together: lazy deletion and consolidation keep the invariant
  of \<^verbatim>\<open>Update\<close>, and any sequence of insertions, deletions and consolidations
  implements a finite map from tags to vectors.
\<close>

section \<open>Lazy deletion\<close>

lemma forget_tag_dyn:
  assumes inv: "dyn_inv cfg ix" and tag: "ix_t2l ix tag = Some loc"
  shows "dyn_inv cfg (forget_tag tag loc ix)" "tag_vectors (forget_tag tag loc ix) = (tag_vectors ix)(tag := None)"
    "card (ix_deleted (forget_tag tag loc ix)) = card (ix_deleted ix) + 1" "same_shape ix (forget_tag tag loc ix)"
proof -
  let ?ix = "forget_tag tag loc ix"
  note I = dyn_invD [OF inv]
  note F = forget_tag_book [OF I(1) tag]
  note L = tag_location [OF I(1) tag]
  have "live ?ix = live ix - {loc}"
    using nnm_map.look_del [OF book_invD(1) [OF I(1)], of loc] by (simp add: live_def forget_tag_def)
  then have u: "used ?ix = used ix" unfolding used_def F(2) using L(1) by (auto simp: forget_tag_def ix_total_def)
  show "dyn_inv cfg ?ix"
    unfolding dyn_inv_def u using I(2-7) F(1) by (simp add: forget_tag_def rows_ok_def ix_total_def)
  show "tag_vectors ?ix = (tag_vectors ix)(tag := None)"
    by (rule ext) (simp add: tag_vectors_def get_vector_by_tag_def forget_tag_def split: option.split)
  show "card (ix_deleted ?ix) = card (ix_deleted ix) + 1" using F(2,3) book_finite [OF I(1)] by simp
  show "same_shape ix ?ix" by (simp add: same_shape_def forget_tag_def)
qed

lemma compacted_dyn [simp]:
  "dyn_inv cfg (ix\<lparr>ix_data_compacted := c\<rparr>) = dyn_inv cfg ix" "tag_vectors (ix\<lparr>ix_data_compacted := c\<rparr>) = tag_vectors ix"
  "same_shape (ix\<lparr>ix_data_compacted := c\<rparr>) ix' = same_shape ix ix'"
  by (auto simp: dyn_inv_def rows_ok_def used_def ix_total_def same_shape_def tag_vectors_def get_vector_by_tag_def fun_eq_iff split: option.split)

lemma same_shape_trans: "same_shape a b \<Longrightarrow> same_shape b c \<Longrightarrow> same_shape a c"
  by (simp add: same_shape_def)

lemma tag_vectors_dom: "dyn_inv cfg ix \<Longrightarrow> tag_vectors ix t = None \<longleftrightarrow> ix_t2l ix t = None"
  using get_vector_by_tag_eq(2) [of cfg ix] by (metis domIff)

lemma delete_each_dyn:
  "dyn_inv cfg ix \<Longrightarrow> dyn_inv cfg (snd (delete_each tags failed ix)) \<and> same_shape ix (snd (delete_each tags failed ix))
     \<and> tag_vectors (snd (delete_each tags failed ix)) = tag_vectors ix |` (- set tags)
     \<and> card (ix_deleted (snd (delete_each tags failed ix))) = card (ix_deleted ix) + card (dom (tag_vectors ix) \<inter> set tags)"
proof (induction tags arbitrary: failed ix)
  case Nil
  have "tag_vectors ix |` UNIV = tag_vectors ix" by (rule ext) simp
  then show ?case using Nil by (simp add: same_shape_def)
next
  case (Cons tag tags)
  show ?case
  proof (cases "ix_t2l ix tag")
    case None
    then have n: "tag_vectors ix tag = None" using tag_vectors_dom [OF Cons.prems] by simp
    then have "tag_vectors ix |` (- set (tag # tags)) = tag_vectors ix |` (- set tags)"
      by (intro ext) (simp add: restrict_map_def)
    moreover have "dom (tag_vectors ix) \<inter> set (tag # tags) = dom (tag_vectors ix) \<inter> set tags" using n by auto
    ultimately show ?thesis using Cons.IH [OF Cons.prems, of "failed @ [tag]"] None by simp
  next
    case (Some loc)
    let ?ix = "forget_tag tag loc ix"
    note F = forget_tag_dyn [OF Cons.prems Some]
    have tagd: "tag \<in> dom (tag_vectors ix)" using Some tag_vectors_dom [OF Cons.prems, of tag] by (auto simp: dom_def)
    have fin: "finite (dom (tag_vectors ix))"
      unfolding get_vector_by_tag_eq(2) [OF Cons.prems] using live_card [OF dyn_invD(1) [OF Cons.prems]] by blast
    have "dom (tag_vectors ix) \<inter> set (tag # tags) = insert tag (dom (tag_vectors ?ix) \<inter> set tags)" unfolding F(2) using tagd by auto
    then have "card (dom (tag_vectors ix) \<inter> set (tag # tags)) = card (dom (tag_vectors ?ix) \<inter> set tags) + 1"
      using fin by (simp add: F(2))
    moreover have "tag_vectors ?ix |` (- set tags) = tag_vectors ix |` (- set (tag # tags))"
      unfolding F(2) by (rule ext) (simp add: restrict_map_def)
    ultimately show ?thesis using Cons.IH [OF F(1), of failed] Some F(3) same_shape_trans [OF F(4)] by simp
  qed
qed

section \<open>Consolidation\<close>

lemma consolidate_deletes_ok:
  assumes cfg: "cfg_ok cfg" "order_ok (ic_order cfg)" "params_ok cfg params" "ic_enable_tags cfg" and inv: "dyn_inv cfg ix"
    and s: "scratch_clean s" "scratch_fits cfg ix s"
  shows "\<exists>report ix' s'. consolidate_deletes cfg params True (ix, s) = Inr (report, ix', s') \<and> dyn_inv cfg ix'
     \<and> scratch_clean s' \<and> scratch_fits cfg ix' s' \<and> same_shape ix ix' \<and> ix_deleted ix' = {} \<and> tag_vectors ix' = tag_vectors ix
     \<and> cr_status report = SUCCESS \<and> cr_active_points report = card (dom (tag_vectors ix)) \<and> ix_nd ix' = card (dom (tag_vectors ix))
     \<and> cr_slots_released report = card (ix_deleted ix)
     \<and> (\<forall>i \<in> used ix - ix_deleted ix. edges_into (used ix - ix_deleted ix) (ix_graph ix') i)"
proof -
  note I = dyn_invD [OF inv]
  note bk = book_invD [OF I(1)]
  note ord = order_okD [OF cfg(2) book_finite [OF I(1)]]
  let ?old = "ix_deleted ix" and ?ix1 = "ix\<lparr>ix_deleted := {}\<rparr>"
  have cnt: "nnm_count (ix_l2t ix) = card (live ix)" using nnm_map.cnt_card [OF bk(1)] by (simp add: live_def)
  have nd: "nnm_count (ix_l2t ix) + card ?old = ix_nd ix" "nnm_count (ix_l2t ix) = card (dom (ix_t2l ix))"
    using nd_counts [OF I(1)] live_card [OF I(1)] cnt by simp_all
  have "ix_max_points ix \<notin> ?old" using used_bound(3) [OF I(1)] by auto
  then have st: "ix_start ix \<notin> ?old" using I(6) by simp
  have s1: "scratch_fits cfg ?ix1 s" using s(2) by (simp add: scratch_fits_def)
  from sweep_ok [OF cfg(1-3) inv refl s(1) s1] obtain g s' n where sw:
      "bindR (foldR (process_slot cfg params ?old) [0..<ix_max_points ?ix1] ((?ix1, s), 0))
         (foldR (process_location cfg params ?old) [ix_max_points ?ix1..<ix_total ?ix1]) = Inr ((?ix1\<lparr>ix_graph := g\<rparr>, s'), n)"
      "scratch_clean s'" "scratch_fits cfg ?ix1 s'" "buildable cfg (used ix) (?ix1\<lparr>ix_graph := g\<rparr>)"
      "\<forall>i \<in> used ix - ?old. edges_into (used ix - ?old) g i" by blast
  let ?ix2 = "ix\<lparr>ix_graph := g\<rparr>"
  have b2: "book_inv ?ix2" "set (ic_order cfg ?old) = ix_deleted ?ix2" "distinct (ic_order cfg ?old)"
    using I(1) ord by simp_all
  obtain ix3 where r: "release_locations (ic_order cfg ?old) (?ix2\<lparr>ix_deleted := {}\<rparr>) = Inr (card (live ?ix2), ix3)" "book_inv ix3"
      "ix_deleted ix3 = {}" "ix_t2l ix3 = ix_t2l ?ix2" "ix_l2t ix3 = ix_l2t ?ix2" "ix_nd ix3 = card (live ?ix2)"
      "ix_graph ix3 = ix_graph ?ix2" "ix_data ix3 = ix_data ?ix2" "ix_max_points ix3 = ix_max_points ?ix2"
      "ix_num_frozen ix3 = ix_num_frozen ?ix2" "ix_start ix3 = ix_start ?ix2" "ix_filtered ix3 = ix_filtered ?ix2"
    using release_deleted_book [OF b2] by blast
  have eq: "?ix1\<lparr>ix_graph := g\<rparr> = ?ix2\<lparr>ix_deleted := {}\<rparr>" by simp
  have tot: "ix_total ix3 = ix_total ix" using r(9,10) by (simp add: ix_total_def)
  have u: "used ix3 = used ix - ?old"
  proof -
    have "live ix3 = live ix" using r(5) by (simp add: live_def)
    moreover have "{ix_max_points ix..<ix_total ix} \<inter> ?old = {}" using used_bound(3) [OF I(1)] by fastforce
    ultimately show ?thesis using r(3,9) tot bk(5) unfolding used_def by auto
  qed
  have wf: "graph_wf (used ix) (list_bound (ic_R cfg)) g" and gp: "gs_points g = ix_total ix"
    using sw(4) by (simp_all add: buildable_def ix_total_def)
  have "graph_wf (used ix3) (list_bound (ic_R cfg)) g"
  proof (rule graph_wfI)
    fix i ns assume i: "i < gs_points g" "get_neighbours g i = Inr ns"
    have "list_ok (used ix) (list_bound (ic_R cfg)) (gs_points g) i ns" using graph_wf_nth [OF wf i(1)] i(2) by simp
    moreover have "set ns \<subseteq> used ix3" if iu: "i \<in> used ix3"
    proof -
      have "edges_into (used ix - ?old) g i" using sw(5) iu u by blast
      then show ?thesis using i(2) u by (simp add: edges_into_def)
    qed
    ultimately show "list_ok (used ix3) (list_bound (ic_R cfg)) (gs_points g) i ns" by (simp add: list_ok_def)
  qed
  then have dyn: "dyn_inv cfg ix3" using I(2,4-6) r(2,7-12) tot gp by (simp add: dyn_inv_def rows_ok_def)
  have tv: "tag_vectors ix3 = tag_vectors ix"
    by (rule ext) (simp add: tag_vectors_def get_vector_by_tag_def r(4,8) split: option.split)
  have lc: "card (live ?ix2) = card (dom (tag_vectors ix))" using live_card [OF I(1)] get_vector_by_tag_eq(2) [OF inv] by simp
  define report where "report = \<lparr>cr_status = SUCCESS, cr_active_points = card (live ?ix2), cr_max_points = ix_max_points ix3,
      cr_empty_slots = nns_size (ix_empty ix3), cr_slots_released = card ?old,
      cr_delete_set_size = card (ix_deleted ix3), cr_num_calls = n\<rparr>"
  have swb: "\<And>f. bindR (foldR (process_slot cfg params ?old) [0..<ix_max_points ?ix1] ((?ix1, s), 0))
         (\<lambda>st. bindR (foldR (process_location cfg params ?old) [ix_max_points ?ix1..<ix_total ?ix1] st) f) = f ((?ix1\<lparr>ix_graph := g\<rparr>, s'), n)"
    using sw(1) unfolding bindR_assoc [symmetric] by simp
  have r1: "release_locations (ic_order cfg ?old) (?ix1\<lparr>ix_graph := g\<rparr>) = Inr (card (live ix), ix3)"
    using r(1) unfolding eq by simp
  have "consolidate_deletes cfg params True (ix, s) = Inr (report, ix3, s')"
    unfolding consolidate_deletes_def Let_def using cfg(4) bk(8) nd st r1
    by (simp add: swb [simplified] report_def del: foldR.simps)
  moreover have "same_shape ix ix3" using r(8-10) by (simp add: same_shape_def)
  moreover have "scratch_fits cfg ix3 s'" using sw(3) r(8) by (simp add: scratch_fits_def)
  moreover have "ix_graph ix3 = g" using r(7) by simp
  ultimately show ?thesis using dyn sw(2,5) tv r(3,6) lc by (intro exI [of _ report] exI [of _ ix3] exI [of _ s']) (simp add: report_def)
qed

section \<open>Any sequence of updates\<close>

datatype 'a dyn_op = Insert_Point nat "'a list" "nat list" | Lazy_Delete nat | Lazy_Delete_List "nat list"
  | Consolidate_Deletes delete_params

fun dyn_exec :: "('a::zero) index_config \<Rightarrow> 'a dyn_op \<Rightarrow> 'a index \<times> 'a scratch \<Rightarrow> ('a index \<times> 'a scratch) result" where
  "dyn_exec cfg (Insert_Point tag v labels) st = bindR (insert_point cfg tag v labels st) (\<lambda>(_, st'). Inr st')"
| "dyn_exec cfg (Lazy_Delete tag) (ix, s) = Inr (snd (lazy_delete tag ix), s)"
| "dyn_exec cfg (Lazy_Delete_List tags) (ix, s) = bindR (lazy_delete_list tags [] ix) (\<lambda>(_, ix'). Inr (ix', s))"
| "dyn_exec cfg (Consolidate_Deletes params) st = bindR (consolidate_deletes cfg params True st) (\<lambda>(_, st'). Inr st')"

text \<open>The specification: a finite map, and how many locations wait for a consolidation.\<close>

fun map_op :: "('a list \<Rightarrow> 'a list) \<Rightarrow> nat \<Rightarrow> 'a dyn_op \<Rightarrow> (nat \<rightharpoonup> 'a list) \<times> nat \<Rightarrow> (nat \<rightharpoonup> 'a list) \<times> nat" where
  "map_op st cap (Insert_Point tag v labels) (m, p) =
     (if card (dom m) + p < cap \<and> tag \<notin> dom m then m(tag \<mapsto> st v) else m, p)"
| "map_op st cap (Lazy_Delete tag) (m, p) = (m(tag := None), if tag \<in> dom m then p + 1 else p)"
| "map_op st cap (Lazy_Delete_List tags) (m, p) = (m |` (- set tags), p + card (dom m \<inter> set tags))"
| "map_op st cap (Consolidate_Deletes params) (m, p) = (m, 0)"

fun op_ok :: "'a index_config \<Rightarrow> nat \<Rightarrow> 'a dyn_op \<Rightarrow> bool" where
  "op_ok cfg d (Insert_Point tag v labels) \<longleftrightarrow> tag \<noteq> 0 \<and> length v = d"
| "op_ok cfg d (Consolidate_Deletes params) \<longleftrightarrow> params_ok cfg params"
| "op_ok cfg d _ \<longleftrightarrow> True"

definition abs_map :: "'a index \<Rightarrow> (nat \<rightharpoonup> 'a list) \<times> nat" where
  "abs_map ix = (tag_vectors ix, card (ix_deleted ix))"

lemma stored_same: "same_shape ix ix' \<Longrightarrow> stored cfg ix' = stored cfg ix"
  by (rule ext) (simp add: same_shape_def stored_def)

lemma dyn_exec_ok:
  assumes cfg: "cfg_ok cfg" "df_ok (ic_df cfg)" "order_ok (ic_order cfg)" "ic_enable_tags cfg" and inv: "dyn_inv cfg ix"
    and s: "scratch_clean s" "scratch_fits cfg ix s" and op: "op_ok cfg (ds_dim (ix_data ix)) op"
  shows "\<exists>ix' s'. dyn_exec cfg op (ix, s) = Inr (ix', s') \<and> dyn_inv cfg ix' \<and> scratch_clean s' \<and> scratch_fits cfg ix' s'
     \<and> same_shape ix ix' \<and> abs_map ix' = map_op (stored cfg ix) (ix_max_points ix) op (abs_map ix)"
proof (cases op)
  case (Insert_Point tag v labels)
  have t: "tag \<noteq> 0" "length v = ds_dim (ix_data ix)" using op Insert_Point by simp_all
  have nd: "ix_nd ix = card (dom (tag_vectors ix)) + card (ix_deleted ix)"
    using nd_counts [OF dyn_invD(1) [OF inv]] get_vector_by_tag_eq(2) [OF inv] by simp
  obtain added ix' s' where "insert_point cfg tag v labels (ix, s) = Inr (added, ix', s')" "dyn_inv cfg ix'"
      "scratch_clean s'" "scratch_fits cfg ix' s'" "same_shape ix ix'" "ix_deleted ix' = ix_deleted ix"
      "added = (ix_nd ix < ix_max_points ix \<and> tag \<notin> dom (tag_vectors ix))"
      "tag_vectors ix' = (if added then (tag_vectors ix)(tag \<mapsto> stored cfg ix v) else tag_vectors ix)"
    using insert_point_ok [OF cfg(1,2,4) inv t s, of labels] by blast
  then show ?thesis using Insert_Point nd by (intro exI [of _ ix'] exI [of _ s']) (simp add: abs_map_def)
next
  case (Lazy_Delete tag)
  let ?ix = "ix\<lparr>ix_data_compacted := False\<rparr>"
  have e: "snd (lazy_delete tag ix) = snd (delete_each [tag] [] ?ix)" by (simp add: lazy_delete_def split: option.split)
  have d: "dyn_inv cfg ?ix" using inv by simp
  have "tag_vectors ix |` (- {tag}) = (tag_vectors ix)(tag := None)" by (rule ext) (simp add: restrict_map_def)
  moreover have "card (dom (tag_vectors ix) \<inter> {tag}) = (if tag \<in> dom (tag_vectors ix) then 1 else 0)" by simp
  ultimately show ?thesis using delete_each_dyn [OF d, of "[tag]" "[]"] s Lazy_Delete
    by (auto simp: e abs_map_def scratch_fits_def same_shape_def)
next
  case (Lazy_Delete_List tags)
  let ?ix = "ix\<lparr>ix_data_compacted := False\<rparr>"
  have d: "dyn_inv cfg ?ix" using inv by simp
  obtain f ix' where e: "delete_each tags [] ?ix = (f, ix')" by (cases "delete_each tags [] ?ix")
  show ?thesis using delete_each_dyn [OF d, of tags "[]"] s Lazy_Delete_List
    by (intro exI [of _ ix'] exI [of _ s]) (simp add: e lazy_delete_list_def abs_map_def scratch_fits_def same_shape_def)
next
  case (Consolidate_Deletes params)
  then have "params_ok cfg params" using op by simp
  from consolidate_deletes_ok [OF cfg(1,3) this cfg(4) inv s] obtain report ix' s' where
    "consolidate_deletes cfg params True (ix, s) = Inr (report, ix', s')" "dyn_inv cfg ix'" "scratch_clean s'"
    "scratch_fits cfg ix' s'" "same_shape ix ix'" "ix_deleted ix' = {}" "tag_vectors ix' = tag_vectors ix" by blast
  then show ?thesis using Consolidate_Deletes by (intro exI [of _ ix'] exI [of _ s']) (simp add: abs_map_def)
qed

lemma dyn_run_ok:
  assumes cfg: "cfg_ok cfg" "df_ok (ic_df cfg)" "order_ok (ic_order cfg)" "ic_enable_tags cfg"
  shows "dyn_inv cfg ix \<Longrightarrow> scratch_clean s \<Longrightarrow> scratch_fits cfg ix s \<Longrightarrow> \<forall>op \<in> set ops. op_ok cfg (ds_dim (ix_data ix)) op \<Longrightarrow>
     \<exists>ix' s'. foldR (dyn_exec cfg) ops (ix, s) = Inr (ix', s') \<and> dyn_inv cfg ix'
       \<and> abs_map ix' = fold (map_op (stored cfg ix) (ix_max_points ix)) ops (abs_map ix)"
proof (induction ops arbitrary: ix s)
  case Nil
  then show ?case by simp
next
  case (Cons op ops)
  have op: "op_ok cfg (ds_dim (ix_data ix)) op" using Cons.prems(4) by simp
  from dyn_exec_ok [OF cfg Cons.prems(1-3) op] obtain ix1 s1 where 1: "dyn_exec cfg op (ix, s) = Inr (ix1, s1)" "dyn_inv cfg ix1"
      "scratch_clean s1" "scratch_fits cfg ix1 s1" "same_shape ix ix1"
      "abs_map ix1 = map_op (stored cfg ix) (ix_max_points ix) op (abs_map ix)" by blast
  have sh: "ds_dim (ix_data ix1) = ds_dim (ix_data ix)" "ix_max_points ix1 = ix_max_points ix" using 1(5) by (simp_all add: same_shape_def)
  have "\<forall>op \<in> set ops. op_ok cfg (ds_dim (ix_data ix1)) op" using Cons.prems(4) sh(1) by simp
  from Cons.IH [OF 1(2-4) this] show ?case using 1(1,6) sh(2) stored_same [OF 1(5)] by simp
qed

lemma fresh_dyn:
  assumes "ic_dynamic cfg" "ic_enable_tags cfg" "max_points < 2 ^ 32" "ds_inv data"
    "max 1 max_points + max 1 frozen \<le> ds_capacity data"
  shows "\<exists>ix. index_make cfg max_points frozen False data (gs_make (max 1 max_points + max 1 frozen)) = Inr ix \<and> dyn_inv cfg ix
     \<and> abs_map ix = (Map.empty, 0) \<and> ix_max_points ix = max 1 max_points \<and> ix_data ix = data"
proof -
  let ?n = "max 1 max_points + max 1 frozen" and ?g = "gs_make (max 1 max_points + max 1 frozen)"
  obtain ix where ix: "index_make cfg max_points frozen False data ?g = Inr ix" "book_inv ix" "abs_tags ix = ({}, 0)"
      "ix_max_points ix = max 1 max_points" using fresh_book [OF assms(1-3), of frozen False data ?g] by blast
  have f: "ix_data ix = data" "ix_graph ix = ?g" "ix_num_frozen ix = max 1 frozen" "ix_start ix = u32 (max 1 max_points)"
      "\<not> ix_filtered ix" "ix_t2l ix = Map.empty"
    using ix(1) assms(1,2) by (auto simp: index_make_def Let_def enable_delete_def split: if_splits)
  have t: "ix_total ix = ?n" using f(3) ix(4) by (simp add: ix_total_def)
  have g: "gs_points ?g = ?n" by (simp add: gs_points_def gs_make_def resize_graph_def)
  have "graph_wf (used ix) (list_bound (ic_R cfg)) ?g"
    by (rule graph_wfI) (auto simp: get_neighbours_def gs_make_def resize_graph_def vec_resize_def list_ok_def split: if_splits)
  moreover have "0 < max (Suc 0) frozen" by (simp add: less_max_iff_disj)
  ultimately have "dyn_inv cfg ix"
    using ix(2,4) f t g assms(3-5) by (simp add: dyn_inv_def rows_ok_def)
  moreover have "abs_map ix = (Map.empty, 0)"
    using ix(3) f(6) by (auto simp: abs_map_def abs_tags_def tag_vectors_def get_vector_by_tag_def)
  ultimately show ?thesis using ix(1,4) f(1) by blast
qed

section \<open>Properties\<close>


lemma demo_df_ok: "df_ok (ic_df demo_cfg)"
  by (simp add: df_ok_def demo_cfg_def demo_df_def)

definition demo_ops :: "nat dyn_op list" where
  "demo_ops = [Insert_Point 7 [0] [], Insert_Point 9 [5] [], Lazy_Delete 7,
     Consolidate_Deletes \<lparr>dp_max_degree = 2, dp_max_occlusion_size = 10, dp_alpha = Fin 1\<rparr>, Insert_Point 4 [3] []]"

lemma demo_ops_ok: "\<forall>op \<in> set demo_ops. op_ok demo_cfg 1 op"
  using one_less_FLT_MAX by (simp add: demo_ops_def params_ok_def alpha_in_range_def demo_cfg_def)




end
