(* ===== verification/Compact.thy ===== *)
theory Compact
  imports Dynamic
begin

text \<open>
  Moving points (\<^verbatim>\<open>src/index.cpp\<close>): \<^verbatim>\<open>reposition_points\<close> and its
  callers for the frozen points, \<^verbatim>\<open>compact_data\<close>, which renumbers the live
  points to a prefix of the locations, and \<^verbatim>\<open>resize\<close>.
\<close>

section \<open>Repositioning\<close>

definition shift_location :: "nat \<Rightarrow> nat \<Rightarrow> nat \<Rightarrow> nat \<Rightarrow> nat" where
  "shift_location old_start new_start num loc =
     (if old_start \<le> loc \<and> loc < u32_add old_start num then u32_add loc (u32_sub new_start old_start) else loc)"

definition shift_list :: "nat \<Rightarrow> nat \<Rightarrow> nat \<Rightarrow> nat \<Rightarrow> graph_store \<Rightarrow> graph_store result" where
  "shift_list old_start new_start num i g =
     bindR (get_neighbours g i) (\<lambda>ns. set_neighbours i (map (shift_location old_start new_start num) ns) g)"

definition swap_labels :: "nat \<Rightarrow> nat \<Rightarrow> 'b list \<Rightarrow> 'b list result" where
  "swap_labels a b ls = bindR (vec_at ls a) (\<lambda>x. bindR (vec_at ls b) (\<lambda>y. Inr (ls[a := y, b := x])))"

definition swap_location :: "'a index_config \<Rightarrow> nat \<Rightarrow> nat \<Rightarrow> nat \<Rightarrow> 'a index \<Rightarrow> 'a index result" where
  "swap_location cfg old_start new_start off ix =
     bindR (swap_neighbours (u32_add new_start off) (u32_add old_start off) (ix_graph ix)) (\<lambda>g.
     bindR (if ic_dynamic cfg \<and> ix_filtered ix
            then swap_labels (u32_add new_start off) (u32_add old_start off) (ix_labels ix) else Inr (ix_labels ix)) (\<lambda>ls.
       Inr (ix\<lparr>ix_graph := g, ix_labels := ls\<rparr>)))"

definition reposition_points :: "'a index_config \<Rightarrow> nat \<Rightarrow> nat \<Rightarrow> nat \<Rightarrow> ('a::zero) index \<Rightarrow> 'a index result" where
  "reposition_points cfg old_start new_start num ix =
     (if num = 0 \<or> old_start = new_start then Inr ix
      else bindR (foldR (shift_list old_start new_start num) [0..<ix_total ix] (ix_graph ix)) (\<lambda>g.
           bindR (foldR (swap_location cfg old_start new_start) (if new_start < old_start then [0..<num] else rev [0..<num])
                    (ix\<lparr>ix_graph := g\<rparr>)) (\<lambda>ix1.
           bindR (ds_move_vectors old_start new_start num (ix_data ix1)) (\<lambda>d. Inr (ix1\<lparr>ix_data := d\<rparr>)))))"

text \<open>The start points of the labels are frozen points, and move with them.\<close>

definition shift_label_starts :: "'a index_config \<Rightarrow> nat \<Rightarrow> nat \<Rightarrow> 'a index \<Rightarrow> 'a index" where
  "shift_label_starts cfg old new ix =
     (if ix_filtered ix \<and> ic_dynamic cfg
      then ix\<lparr>ix_label_start := (\<lambda>label. map_option (\<lambda>m. u32_add (u32 new) (u32_sub m (u32 old))) (ix_label_start ix label))\<rparr>
      else ix)"

definition compact_frozen_point :: "'a index_config \<Rightarrow> ('a::zero) index \<Rightarrow> 'a index result" where
  "compact_frozen_point cfg ix =
     (if ix_nd ix < ix_max_points ix \<and> 0 < ix_num_frozen ix
      then bindR (reposition_points cfg (u32 (ix_max_points ix)) (u32 (ix_nd ix)) (u32 (ix_num_frozen ix)) ix) (\<lambda>ix1.
           Inr (shift_label_starts cfg (ix_max_points ix1) (ix_nd ix1) (ix1\<lparr>ix_start := u32 (ix_nd ix1)\<rparr>)))
      else Inr ix)"

definition reposition_frozen_point_to_end :: "'a index_config \<Rightarrow> ('a::zero) index \<Rightarrow> 'a index result" where
  "reposition_frozen_point_to_end cfg ix =
     (if ix_num_frozen ix = 0 \<or> ix_nd ix = ix_max_points ix then Inr ix
      else bindR (reposition_points cfg (u32 (ix_nd ix)) (u32 (ix_max_points ix)) (u32 (ix_num_frozen ix)) ix) (\<lambda>ix1.
           Inr (shift_label_starts cfg (ix_nd ix1) (ix_max_points ix1) (ix1\<lparr>ix_start := u32 (ix_max_points ix1)\<rparr>))))"

definition resize_index :: "'a index_config \<Rightarrow> nat \<Rightarrow> ('a::zero) index \<Rightarrow> 'a index result" where
  "resize_index cfg new_max_points ix =
     (let new_internal_points = new_max_points + ix_num_frozen ix in
      bindR (ds_resize (u32 new_internal_points) (ix_data ix)) (\<lambda>d.
      let ix1 = ix\<lparr>ix_data := d, ix_graph := resize_graph new_internal_points (ix_graph ix)\<rparr> in
      bindR (if ix_num_frozen ix \<noteq> 0
             then bindR (reposition_points cfg (u32 (ix_max_points ix)) (u32 new_max_points) (u32 (ix_num_frozen ix)) ix1)
                    (\<lambda>ix2. Inr (ix2\<lparr>ix_start := u32 new_max_points\<rparr>))
             else Inr ix1) (\<lambda>ix2.
        Inr (ix2\<lparr>ix_max_points := new_max_points,
                 ix_empty := foldl nns_insert (ix_empty ix2) (map u32 [ix_nd ix2..<new_max_points])\<rparr>))))"

section \<open>What repositioning does\<close>

definition lists_of :: "graph_store \<Rightarrow> nat \<Rightarrow> nat list" where
  "lists_of g i = gs_graph g ! i"

lemma get_lists_of: "i < gs_points g \<Longrightarrow> get_neighbours g i = Inr (lists_of g i)"
  by (simp add: get_neighbours_def lists_of_def gs_points_def)

lemma get_neighbours_out: "gs_points g \<le> i \<Longrightarrow> get_neighbours g i = Inl StdOutOfRange"
  by (simp add: get_neighbours_def gs_points_def)

lemma set_neighbours_lists:
  assumes "i < gs_points g"
  shows "\<exists>g'. set_neighbours i ns g = Inr g' \<and> gs_points g' = gs_points g \<and> lists_of g' = (lists_of g)(i := ns)
     \<and> gs_total_points g' = gs_total_points g"
  using assms by (auto simp: set_neighbours_def gs_points_def lists_of_def fun_eq_iff)

lemma swap_neighbours_lists:
  assumes "a < gs_points g" "b < gs_points g"
  shows "\<exists>g'. swap_neighbours a b g = Inr g' \<and> gs_points g' = gs_points g
     \<and> lists_of g' = (lists_of g)(a := lists_of g b, b := lists_of g a) \<and> gs_total_points g' = gs_total_points g"
  using assms by (auto simp: swap_neighbours_def gs_points_def lists_of_def fun_eq_iff nth_list_update)

lemma shift_lists:
  assumes "n \<le> gs_points g"
  shows "\<exists>g'. foldR (shift_list old new num) [0..<n] g = Inr g' \<and> gs_points g' = gs_points g
     \<and> (\<forall>i. lists_of g' i = (if i < n then map (shift_location old new num) (lists_of g i) else lists_of g i))
     \<and> gs_total_points g' = gs_total_points g"
  using assms
proof (induction n)
  case 0
  then show ?case by simp
next
  case (Suc n)
  then obtain g1 where g1: "foldR (shift_list old new num) [0..<n] g = Inr g1" "gs_points g1 = gs_points g"
      "\<forall>i. lists_of g1 i = (if i < n then map (shift_location old new num) (lists_of g i) else lists_of g i)"
      "gs_total_points g1 = gs_total_points g" by auto
  have n: "n < gs_points g1" using Suc.prems g1(2) by simp
  obtain g2 where g2: "set_neighbours n (map (shift_location old new num) (lists_of g1 n)) g1 = Inr g2" "gs_points g2 = gs_points g1"
      "lists_of g2 = (lists_of g1)(n := map (shift_location old new num) (lists_of g1 n))" "gs_total_points g2 = gs_total_points g1"
    using set_neighbours_lists [OF n] by blast
  have "foldR (shift_list old new num) [0..<Suc n] g = Inr g2"
    using g1(1) g2(1) n by (simp add: foldR_append shift_list_def get_lists_of)
  then show ?case using g1(2-4) g2(2-4) by (intro exI [of _ g2]) auto
qed

text \<open>The lists after \<open>k\<close> swaps of the block from \<open>old\<close> to \<open>new\<close>, upwards and downwards.\<close>

definition block_moved :: "nat \<Rightarrow> nat \<Rightarrow> nat \<Rightarrow> nat \<Rightarrow> (nat \<Rightarrow> nat list) \<Rightarrow> nat \<Rightarrow> nat list" where
  "block_moved old new a b L i =
     (if new + a \<le> i \<and> i < new + b then L (old + (i - new)) else if old + a \<le> i \<and> i < old + b then [] else L i)"

lemma swap_step:
  assumes "\<not> ix_filtered ix" "old + off < gs_points (ix_graph ix)" "new + off < gs_points (ix_graph ix)"
    and "old + off < 2 ^ 32" "new + off < 2 ^ 32"
  shows "\<exists>g. swap_location cfg old new off ix = Inr (ix\<lparr>ix_graph := g\<rparr>) \<and> gs_points g = gs_points (ix_graph ix)
     \<and> lists_of g = (lists_of (ix_graph ix))(new + off := lists_of (ix_graph ix) (old + off), old + off := lists_of (ix_graph ix) (new + off))
     \<and> gs_total_points g = gs_total_points (ix_graph ix)"
proof -
  obtain g where "swap_neighbours (new + off) (old + off) (ix_graph ix) = Inr g" "gs_points g = gs_points (ix_graph ix)"
     "lists_of g = (lists_of (ix_graph ix))(new + off := lists_of (ix_graph ix) (old + off), old + off := lists_of (ix_graph ix) (new + off))"
     "gs_total_points g = gs_total_points (ix_graph ix)"
    using swap_neighbours_lists [OF assms(3,2)] by blast
  then show ?thesis using assms(1,4,5) by (intro exI [of _ g]) (simp add: swap_location_def u32_add_def)
qed

lemma swap_up:
  assumes nf: "\<not> ix_filtered ix" and new: "new < old" and fit: "old + num \<le> gs_points (ix_graph ix)" "old + num \<le> 2 ^ 32"
    and empty: "\<And>i. new \<le> i \<Longrightarrow> i < new + num \<Longrightarrow> i < old \<Longrightarrow> lists_of (ix_graph ix) i = []"
  shows "k \<le> num \<Longrightarrow> \<exists>g. foldR (swap_location cfg old new) [0..<k] ix = Inr (ix\<lparr>ix_graph := g\<rparr>) \<and> gs_points g = gs_points (ix_graph ix)
     \<and> lists_of g = block_moved old new 0 k (lists_of (ix_graph ix)) \<and> gs_total_points g = gs_total_points (ix_graph ix)"
proof (induction k)
  case 0
  then show ?case by (intro exI [of _ "ix_graph ix"]) (auto simp: block_moved_def fun_eq_iff)
next
  case (Suc k)
  let ?L = "lists_of (ix_graph ix)"
  obtain g1 where g1: "foldR (swap_location cfg old new) [0..<k] ix = Inr (ix\<lparr>ix_graph := g1\<rparr>)" "gs_points g1 = gs_points (ix_graph ix)"
      "lists_of g1 = block_moved old new 0 k ?L" "gs_total_points g1 = gs_total_points (ix_graph ix)" using Suc by auto
  have b: "old + k < gs_points (ix_graph (ix\<lparr>ix_graph := g1\<rparr>))" "new + k < gs_points (ix_graph (ix\<lparr>ix_graph := g1\<rparr>))"
      "old + k < 2 ^ 32" "new + k < 2 ^ 32" "\<not> ix_filtered (ix\<lparr>ix_graph := g1\<rparr>)"
    using Suc.prems fit new nf g1(2) by simp_all
  obtain g2 where g2: "swap_location cfg old new k (ix\<lparr>ix_graph := g1\<rparr>) = Inr (ix\<lparr>ix_graph := g1\<rparr>\<lparr>ix_graph := g2\<rparr>)" "gs_points g2 = gs_points g1"
      "lists_of g2 = (lists_of g1)(new + k := lists_of g1 (old + k), old + k := lists_of g1 (new + k))" "gs_total_points g2 = gs_total_points g1"
    using swap_step [OF b(5,1-4), of cfg] by auto
  have e: "lists_of g1 (new + k) = []" "lists_of g1 (old + k) = ?L (old + k)"
    using empty [of "new + k"] Suc.prems new unfolding g1(3) block_moved_def by auto
  have "lists_of g2 i = block_moved old new 0 (Suc k) ?L i" for i
    unfolding g2(3) e unfolding g1(3) using new by (auto simp: block_moved_def)
  then have "lists_of g2 = block_moved old new 0 (Suc k) ?L" by blast
  then show ?case using g1(1,2,4) g2(1,2,4) by (intro exI [of _ g2]) (simp add: foldR_append)
qed

lemma swap_down:
  assumes nf: "\<not> ix_filtered ix" and new: "old < new" and fit: "new + num \<le> gs_points (ix_graph ix)" "new + num \<le> 2 ^ 32"
    and empty: "\<And>i. new \<le> i \<Longrightarrow> i < new + num \<Longrightarrow> old + num \<le> i \<Longrightarrow> lists_of (ix_graph ix) i = []"
  shows "k \<le> num \<Longrightarrow> \<exists>g. foldR (swap_location cfg old new) (rev [k..<num]) ix = Inr (ix\<lparr>ix_graph := g\<rparr>) \<and> gs_points g = gs_points (ix_graph ix)
     \<and> lists_of g = block_moved old new k num (lists_of (ix_graph ix)) \<and> gs_total_points g = gs_total_points (ix_graph ix)"
proof (induction "num - k" arbitrary: k)
  case 0
  then show ?case by (intro exI [of _ "ix_graph ix"]) (auto simp: block_moved_def fun_eq_iff)
next
  case (Suc n)
  let ?L = "lists_of (ix_graph ix)"
  have k: "k < num" "Suc k \<le> num" "n = num - Suc k" using Suc.hyps(2) by simp_all
  obtain g1 where g1: "foldR (swap_location cfg old new) (rev [Suc k..<num]) ix = Inr (ix\<lparr>ix_graph := g1\<rparr>)" "gs_points g1 = gs_points (ix_graph ix)"
      "lists_of g1 = block_moved old new (Suc k) num ?L" "gs_total_points g1 = gs_total_points (ix_graph ix)"
    using Suc.hyps(1) [OF k(3,2)] by blast
  have b: "old + k < gs_points (ix_graph (ix\<lparr>ix_graph := g1\<rparr>))" "new + k < gs_points (ix_graph (ix\<lparr>ix_graph := g1\<rparr>))"
      "old + k < 2 ^ 32" "new + k < 2 ^ 32" "\<not> ix_filtered (ix\<lparr>ix_graph := g1\<rparr>)"
    using k fit new nf g1(2) by simp_all
  obtain g2 where g2: "swap_location cfg old new k (ix\<lparr>ix_graph := g1\<rparr>) = Inr (ix\<lparr>ix_graph := g1\<rparr>\<lparr>ix_graph := g2\<rparr>)" "gs_points g2 = gs_points g1"
      "lists_of g2 = (lists_of g1)(new + k := lists_of g1 (old + k), old + k := lists_of g1 (new + k))" "gs_total_points g2 = gs_total_points g1"
    using swap_step [OF b(5,1-4), of cfg] by auto
  have e: "lists_of g1 (new + k) = []" "lists_of g1 (old + k) = ?L (old + k)"
    using empty [of "new + k"] k(1) new unfolding g1(3) block_moved_def by auto
  have "lists_of g2 i = block_moved old new k num ?L i" for i
    unfolding g2(3) e unfolding g1(3) using new k(1) by (auto simp: block_moved_def le_less_Suc_eq)
  then have "lists_of g2 = block_moved old new k num ?L" by blast
  moreover have "rev [k..<num] = rev [Suc k..<num] @ [k]" using k(1) by (simp add: upt_conv_Cons)
  ultimately show ?case using g1(1,2,4) g2(1,2,4) by (intro exI [of _ g2]) (simp add: foldR_append del: upt_Suc)
qed

lemma reposition_points_ok:
  assumes nf: "\<not> ix_filtered ix" and ds: "ds_inv (ix_data ix)" "ds_capacity (ix_data ix) < 2 ^ 32"
    and fit: "old + num \<le> gs_points (ix_graph ix)" "new + num \<le> gs_points (ix_graph ix)" "ix_total ix \<le> gs_points (ix_graph ix)"
      "gs_points (ix_graph ix) \<le> ds_capacity (ix_data ix)"
    and ne: "old \<noteq> new"
    and empty: "\<And>i. new \<le> i \<Longrightarrow> i < new + num \<Longrightarrow> \<not> (old \<le> i \<and> i < old + num) \<Longrightarrow> lists_of (ix_graph ix) i = []"
  shows "\<exists>g d. reposition_points cfg old new num ix = Inr (ix\<lparr>ix_graph := g, ix_data := d\<rparr>) \<and> gs_points g = gs_points (ix_graph ix)
     \<and> lists_of g = block_moved old new 0 num (\<lambda>i. if i < ix_total ix then map (shift_location old new num) (lists_of (ix_graph ix) i)
                                              else lists_of (ix_graph ix) i)
     \<and> gs_total_points g = gs_total_points (ix_graph ix)
     \<and> ds_inv d \<and> ds_capacity d = ds_capacity (ix_data ix) \<and> ds_aligned_dim d = ds_aligned_dim (ix_data ix) \<and> ds_dim d = ds_dim (ix_data ix)
     \<and> (\<forall>r < ds_capacity (ix_data ix). \<not> (old \<le> r \<and> r < old + num) \<or> (new \<le> r \<and> r < new + num) \<longrightarrow>
          ds_row d r = (if new \<le> r \<and> r < new + num then ds_row (ix_data ix) (old + (r - new)) else ds_row (ix_data ix) r))"
proof (cases "num = 0")
  case True
  have "u32_add old 0 \<le> old" by (simp add: u32_add_def)
  then have "map (shift_location old new num) ns = ns" for ns :: "nat list"
    by (intro map_idI) (simp add: shift_location_def True)
  then show ?thesis using True ds by (intro exI [of _ "ix_graph ix"] exI [of _ "ix_data ix"]) (auto simp: reposition_points_def block_moved_def fun_eq_iff)
next
  case False
  let ?L = "\<lambda>i. if i < ix_total ix then map (shift_location old new num) (lists_of (ix_graph ix) i) else lists_of (ix_graph ix) i"
  obtain g1 where g1: "foldR (shift_list old new num) [0..<ix_total ix] (ix_graph ix) = Inr g1" "gs_points g1 = gs_points (ix_graph ix)"
      "\<forall>i. lists_of g1 i = ?L i" "gs_total_points g1 = gs_total_points (ix_graph ix)"
    using shift_lists [OF fit(3)] by blast
  let ?ix1 = "ix\<lparr>ix_graph := g1\<rparr>"
  have L: "lists_of g1 = ?L" using g1(3) by blast
  have e1: "lists_of (ix_graph ?ix1) i = []" if "new \<le> i" "i < new + num" "\<not> (old \<le> i \<and> i < old + num)" for i
    using empty [OF that] by (simp add: L)
  have b: "old + num \<le> 2 ^ 32" "new + num \<le> 2 ^ 32" using fit ds(2) by simp_all
  have nf1: "\<not> ix_filtered ?ix1" using nf by simp
  have "\<exists>g. foldR (swap_location cfg old new) (if new < old then [0..<num] else rev [0..<num]) ?ix1 = Inr (?ix1\<lparr>ix_graph := g\<rparr>)
      \<and> gs_points g = gs_points g1 \<and> lists_of g = block_moved old new 0 num (lists_of g1) \<and> gs_total_points g = gs_total_points g1"
  proof (cases "new < old")
    case True
    have f: "old + num \<le> gs_points (ix_graph ?ix1)" using fit(1) g1(2) by simp
    show ?thesis using swap_up [OF nf1 True f b(1) _ order_refl, of cfg] e1 True by auto
  next
    case False
    then have lt: "old < new" using ne by simp
    have f: "new + num \<le> gs_points (ix_graph ?ix1)" using fit(2) g1(2) by simp
    show ?thesis using swap_down [OF nf1 lt f b(2) _ le0, of cfg] e1 False by auto
  qed
  then obtain g where g: "foldR (swap_location cfg old new) (if new < old then [0..<num] else rev [0..<num]) ?ix1 = Inr (?ix1\<lparr>ix_graph := g\<rparr>)"
      "gs_points g = gs_points g1" "lists_of g = block_moved old new 0 num (lists_of g1)" "gs_total_points g = gs_total_points g1" by blast
  have cap: "old + num \<le> ds_capacity (ix_data ix)" "new + num \<le> ds_capacity (ix_data ix)" using fit by simp_all
  obtain d where d: "ds_move_vectors old new num (ix_data ix) = Inr d" "ds_inv d" "ds_capacity d = ds_capacity (ix_data ix)"
      "ds_aligned_dim d = ds_aligned_dim (ix_data ix)" "ds_dim d = ds_dim (ix_data ix)"
      "\<forall>r < ds_capacity (ix_data ix). ds_row d r = (if new \<le> r \<and> r < new + num then ds_row (ix_data ix) (old + (r - new))
           else if old \<le> r \<and> r < old + num then Inr (replicate (ds_aligned_dim (ix_data ix)) 0) else ds_row (ix_data ix) r)"
    using move_vectors_rows_library [OF ds(1) cap ds(2)] by blast
  have "reposition_points cfg old new num ix = Inr (ix\<lparr>ix_graph := g, ix_data := d\<rparr>)"
    using False ne g1(1) g(1) d(1) by (simp add: reposition_points_def)
  then show ?thesis using g(2-4) g1(2,4) d(2-6) unfolding L by (intro exI [of _ g] exI [of _ d]) auto
qed

section \<open>Compaction\<close>

text \<open>The new location of every old one, in order; a free location gets the largest number.\<close>

fun number_locations :: "'v nnm \<Rightarrow> nat list \<Rightarrow> nat \<Rightarrow> nat list" where
  "number_locations m [] new_counter = []"
| "number_locations m (old # locs) new_counter =
     (if nnm_contains m old then new_counter # number_locations m locs (u32_add new_counter 1)
      else UINT32_MAX # number_locations m locs new_counter)"

definition new_locations :: "'a index \<Rightarrow> nat list" where
  "new_locations ix = number_locations (ix_l2t ix) [0..<ix_max_points ix] 0 @ [ix_max_points ix..<ix_total ix]"

definition empty_locations :: "'a index \<Rightarrow> nat set" where
  "empty_locations ix = {old \<in> {..<ix_max_points ix}. \<not> nnm_contains (ix_l2t ix) old}"

text \<open>One location: rewrite its list, then move list, labels and vector down to the new place.\<close>

definition compact_location :: "'a index_config \<Rightarrow> nat list \<Rightarrow> nat set \<Rightarrow> nat \<Rightarrow> 'a index \<Rightarrow> 'a index result" where
  "compact_location cfg new_location empties old ix =
     bindR (vec_at new_location old) (\<lambda>new.
     if new < ix_max_points ix \<or> (ix_max_points ix \<le> old \<and> old < ix_total ix)
     then bindR (get_neighbours (ix_graph ix) old) (\<lambda>ns.
          bindR (mapR (vec_at new_location) (filter (\<lambda>n. n \<notin> empties) ns)) (\<lambda>new_adj_list.
          bindR (set_neighbours old new_adj_list (ix_graph ix)) (\<lambda>g1.
          if new = old then Inr (ix\<lparr>ix_graph := g1\<rparr>)
          else bindR (swap_neighbours new old g1) (\<lambda>g2.
               bindR (if ix_filtered ix then swap_labels new old (ix_labels ix) else Inr (ix_labels ix)) (\<lambda>ls.
               bindR (ds_copy_vectors old new 1 (ix_data ix)) (\<lambda>d.
                 Inr (ix\<lparr>ix_graph := g2, ix_labels := ls, ix_data := d\<rparr>)))))))
     else bindR (clear_neighbours old (ix_graph ix)) (\<lambda>g. Inr (ix\<lparr>ix_graph := g\<rparr>)))"

text \<open>The tag tables over the new locations.\<close>

definition retag_location :: "nat nnm \<Rightarrow> nat list \<Rightarrow> nat \<Rightarrow> (nat \<rightharpoonup> nat) \<Rightarrow> (nat \<rightharpoonup> nat) result" where
  "retag_location l2t new_location key t2l =
     bindR (vec_at (nnm_values l2t) key) (\<lambda>tag. bindR (vec_at new_location key) (\<lambda>l. Inr (t2l(tag \<mapsto> l))))"

definition compact_tags :: "'a index_config \<Rightarrow> nat list \<Rightarrow> 'a index \<Rightarrow> 'a index result" where
  "compact_tags cfg new_location ix =
     bindR (foldR (retag_location (ix_l2t ix) new_location) (nnm_enumerate (ix_l2t ix) (nnm_find_first (ix_l2t ix))) Map.empty) (\<lambda>t2l.
       Inr (ix\<lparr>ix_t2l := t2l, ix_l2t := fold (\<lambda>tag m. nnm_set m (the (t2l tag)) tag) (ic_order cfg (dom t2l)) (nnm_clear (ix_l2t ix))\<rparr>))"

definition clear_location :: "nat \<Rightarrow> 'a index \<Rightarrow> 'a index result" where
  "clear_location old ix =
     bindR (clear_neighbours old (ix_graph ix)) (\<lambda>g.
     bindR (if ix_filtered ix then vec_put (ix_labels ix) old [] else Inr (ix_labels ix)) (\<lambda>ls.
       Inr (ix\<lparr>ix_graph := g, ix_labels := ls\<rparr>)))"

definition compact_data :: "'a index_config \<Rightarrow> 'a index \<Rightarrow> 'a index result" where
  "compact_data cfg ix =
     (if \<not> ic_dynamic cfg then Inl (ANNException ''Can not compact a non-dynamic index'')
      else if ix_data_compacted ix then Inr ix
      else if 0 < card (ix_deleted ix) then Inl (ANNException ''Can not compact data when index has non-empty _delete_set'')
      else let new_location = new_locations ix in
      if ix_start ix < ix_max_points ix \<and> \<not> nnm_contains (ix_l2t ix) (ix_start ix)
      then Inl (ANNException ''ERROR: Start node deleted.'')
      else bindR (foldR (compact_location cfg new_location (empty_locations ix)) [0..<ix_total ix] ix) (\<lambda>ix1.
           bindR (compact_tags cfg new_location ix1) (\<lambda>ix2.
           bindR (foldR clear_location [ix_nd ix2..<ix_max_points ix2] ix2) (\<lambda>ix3.
             Inr (ix3\<lparr>ix_empty := foldl nns_insert (nns_clear (ix_empty ix3)) (map u32 [ix_nd ix3..<ix_max_points ix3]),
                      ix_data_compacted := True\<rparr>)))))"

section \<open>Compaction is a renaming\<close>

definition new_loc :: "'a index \<Rightarrow> nat \<Rightarrow> nat" where
  "new_loc ix i = (if i < ix_max_points ix then length (filter (nnm_contains (ix_l2t ix)) [0..<i]) else i)"

lemma number_locations_nth:
  assumes "c + (b - a) < 2 ^ 32" "a + k < b"
  shows "number_locations m [a..<b] c ! k = (if nnm_contains m (a + k) then c + length (filter (nnm_contains m) [a..<a + k]) else UINT32_MAX)"
  using assms
proof (induction "b - a" arbitrary: a c k)
  case 0
  then show ?case by simp
next
  case (Suc n)
  have ab: "a < b" using Suc.hyps(2) by simp
  then have upt: "[a..<b] = a # [Suc a..<b]" by (simp add: upt_conv_Cons)
  show ?case
  proof (cases k)
    case 0
    then show ?thesis using upt by simp
  next
    case (Suc j)
    have e: "[a..<a + Suc j] = a # [Suc a..<Suc a + j]" by (simp add: upt_conv_Cons del: upt_Suc)
    have add: "u32_add c (Suc 0) = Suc c" using Suc.prems(1) ab by (simp add: u32_add_def)
    have b1: "c + 1 + (b - Suc a) < 2 ^ 32" "c + (b - Suc a) < 2 ^ 32" "Suc a + j < b" "n = b - Suc a"
      using Suc.prems Suc ab \<open>Suc n = b - a\<close> by simp_all
    show ?thesis
      using Suc.hyps(1) [OF b1(4,1,3)] Suc.hyps(1) [OF b1(4,2,3)] unfolding upt Suc e by (simp add: add del: upt_Suc)
  qed
qed

lemma length_number_locations [simp]: "length (number_locations m ls c) = length ls"
  by (induction m ls c rule: number_locations.induct) auto

lemma new_locations_nth:
  assumes "ix_max_points ix < 2 ^ 32" "i < ix_total ix"
  shows "vec_at (new_locations ix) i = Inr (if i < ix_max_points ix \<and> \<not> nnm_contains (ix_l2t ix) i then UINT32_MAX else new_loc ix i)"
proof -
  have l: "length (new_locations ix) = ix_total ix" by (simp add: new_locations_def ix_total_def)
  show ?thesis
    using number_locations_nth [of 0 "ix_max_points ix" 0 i "ix_l2t ix"] assms l
    by (auto simp: new_locations_def nth_append new_loc_def ix_total_def)
qed

lemma live_contains: "live ix = {i. nnm_contains (ix_l2t ix) i}"
  by (auto simp: live_def nnm_contains_iff)

text \<open>The renaming is injective on the live and frozen points and fills the prefix.\<close>

lemma new_loc_live:
  assumes "book_inv ix" "i \<in> live ix"
  shows "new_loc ix i = card {j \<in> live ix. j < i}" "new_loc ix i \<le> i" "new_loc ix i < card (live ix)"
proof -
  have i: "i < ix_max_points ix" using assms used_bound(2) by blast
  have e: "set (filter (nnm_contains (ix_l2t ix)) [0..<i]) = {j \<in> live ix. j < i}" by (auto simp: live_contains)
  have "length (filter (nnm_contains (ix_l2t ix)) [0..<i]) = card (set (filter (nnm_contains (ix_l2t ix)) [0..<i]))"
    by (rule distinct_card [symmetric]) simp
  then show c: "new_loc ix i = card {j \<in> live ix. j < i}" using i unfolding e by (simp add: new_loc_def)
  have "card {j \<in> live ix. j < i} \<le> card {..<i}" by (intro card_mono) auto
  then show "new_loc ix i \<le> i" using c by simp
  have "{j \<in> live ix. j < i} \<subset> live ix" using assms(2) by auto
  then show "new_loc ix i < card (live ix)" unfolding c using live_card [OF assms(1)] by (intro psubset_card_mono) simp_all
qed

lemma new_loc_mono:
  assumes "book_inv ix" "i \<in> live ix" "j \<in> live ix" "i < j"
  shows "new_loc ix i < new_loc ix j"
proof -
  have "{k \<in> live ix. k < i} \<subset> {k \<in> live ix. k < j}" using assms(2,4) by auto
  then show ?thesis
    unfolding new_loc_live(1) [OF assms(1,2)] new_loc_live(1) [OF assms(1,3)] using live_card [OF assms(1)] by (intro psubset_card_mono) simp_all
qed

lemma new_loc_inj:
  assumes "book_inv ix"
  shows "inj_on (new_loc ix) (live ix)" "new_loc ix ` live ix = {..<card (live ix)}"
proof -
  show inj: "inj_on (new_loc ix) (live ix)"
  proof (rule inj_onI)
    fix i j assume "i \<in> live ix" "j \<in> live ix" "new_loc ix i = new_loc ix j"
    then show "i = j" using new_loc_mono [OF assms, of i j] new_loc_mono [OF assms, of j i] by (cases i j rule: linorder_cases) auto
  qed
  have "new_loc ix ` live ix \<subseteq> {..<card (live ix)}" using new_loc_live(3) [OF assms] by auto
  moreover have "card (new_loc ix ` live ix) = card {..<card (live ix)}" using card_image [OF inj] by simp
  ultimately show "new_loc ix ` live ix = {..<card (live ix)}" by (intro card_subset_eq) simp_all
qed

lemma swap_neighbours_law:
  assumes "a < gs_points g" "b < gs_points g"
  shows "\<exists>g'. swap_neighbours a b g = Inr g' \<and> gs_points g' = gs_points g \<and> get_neighbours g' a = get_neighbours g b
     \<and> get_neighbours g' b = get_neighbours g a \<and> (\<forall>j. j \<noteq> a \<and> j \<noteq> b \<longrightarrow> get_neighbours g' j = get_neighbours g j)"
  using assms by (auto simp: swap_neighbours_def gs_points_def get_neighbours_def nth_list_update)

text \<open>After the locations below \<open>n\<close>: renamed lists and rows are in place, the rest is untouched.\<close>

definition renamed :: "'a index \<Rightarrow> graph_store \<Rightarrow> 'a data_store \<Rightarrow> nat \<Rightarrow> bool" where
  "renamed ix g d i \<longleftrightarrow> get_neighbours g (new_loc ix i) = bindR (get_neighbours (ix_graph ix) i) (\<lambda>ns. Inr (map (new_loc ix) ns))
     \<and> ds_row d (new_loc ix i) = ds_row (ix_data ix) i"

definition comp_inv :: "'a index \<Rightarrow> nat \<Rightarrow> graph_store \<Rightarrow> 'a data_store \<Rightarrow> bool" where
  "comp_inv ix n g d \<longleftrightarrow> gs_points g = ix_total ix \<and> ds_inv d \<and> ds_capacity d = ds_capacity (ix_data ix)
     \<and> ds_aligned_dim d = ds_aligned_dim (ix_data ix) \<and> ds_dim d = ds_dim (ix_data ix)
     \<and> (\<forall>i \<in> used ix. i < n \<longrightarrow> renamed ix g d i)
     \<and> (\<forall>i. n \<le> i \<and> i < ix_total ix \<longrightarrow> get_neighbours g i = get_neighbours (ix_graph ix) i \<and> ds_row d i = ds_row (ix_data ix) i)"

lemma comp_invD:
  assumes "comp_inv ix n g d"
  shows "gs_points g = ix_total ix" "ds_inv d" "ds_capacity d = ds_capacity (ix_data ix)"
    "ds_aligned_dim d = ds_aligned_dim (ix_data ix)" "ds_dim d = ds_dim (ix_data ix)"
    "\<And>i. i \<in> used ix \<Longrightarrow> i < n \<Longrightarrow> renamed ix g d i"
    "\<And>i. n \<le> i \<Longrightarrow> i < ix_total ix \<Longrightarrow> get_neighbours g i = get_neighbours (ix_graph ix) i \<and> ds_row d i = ds_row (ix_data ix) i"
  using assms by (simp_all add: comp_inv_def)

lemma new_loc_used:
  assumes "book_inv ix" "ix_deleted ix = {}" "i \<in> used ix"
  shows "new_loc ix i \<le> i" "j \<in> used ix \<Longrightarrow> i < j \<Longrightarrow> new_loc ix i < new_loc ix j"
proof -
  have fr: "new_loc ix k = k" if "k \<in> used ix" "k \<notin> live ix" for k using that assms(2) by (simp add: used_def new_loc_def)
  show le: "new_loc ix i \<le> i" using new_loc_live(2) [OF assms(1), of i] fr [OF assms(3)] by (cases "i \<in> live ix") simp_all
  assume j: "j \<in> used ix" "i < j"
  show "new_loc ix i < new_loc ix j"
  proof (cases "j \<in> live ix")
    case True
    then have "j < ix_max_points ix" using used_bound(2) [OF assms(1)] by blast
    then have "i \<in> live ix" using assms(2,3) j(2) by (simp add: used_def)
    then show ?thesis by (rule new_loc_mono [OF assms(1) _ True j(2)])
  next
    case False
    then show ?thesis using le j fr [OF j(1)] by simp
  qed
qed

lemma compact_location_ok:
  assumes inv: "dyn_inv cfg ix" "ix_deleted ix = {}" and c: "comp_inv ix n g d" and n: "n < ix_total ix"
  shows "\<exists>g' d'. compact_location cfg2 (new_locations ix) (empty_locations ix) n (ix\<lparr>ix_graph := g, ix_data := d\<rparr>)
       = Inr (ix\<lparr>ix_graph := g', ix_data := d'\<rparr>) \<and> comp_inv ix (n + 1) g' d'"
proof -
  note I = dyn_invD [OF inv(1)]
  note C = comp_invD [OF c]
  note nl = new_loc_used [OF I(1) inv(2)]
  have m32: "ix_max_points ix < 2 ^ 32" by (rule book_invD(9) [OF I(1)])
  have tot: "ix_total (ix\<lparr>ix_graph := g, ix_data := d\<rparr>) = ix_total ix" by (simp add: ix_total_def)
  have ng: "n < gs_points g" using n C(1) by simp
  have cap: "ix_total ix \<le> ds_capacity d" using I(2) C(3) by (simp add: rows_ok_def)
  have at: "vec_at (new_locations ix) i = Inr (new_loc ix i)" if "i \<in> used ix" for i
    using new_locations_nth [OF m32, of i] that used_bound(1) [OF I(1)] inv(2) by (auto simp: used_def live_contains)
  show ?thesis
  proof (cases "n \<in> used ix")
    case False
    then have nm: "n < ix_max_points ix" "n \<notin> live ix" using n by (auto simp: used_def)
    then have "vec_at (new_locations ix) n = Inr UINT32_MAX" using new_locations_nth [OF m32 n] by (simp add: live_contains)
    moreover have "\<not> UINT32_MAX < ix_max_points ix" using m32 by (simp add: UINT32_MAX_def)
    moreover obtain g1 where g1: "clear_neighbours n g = Inr g1" "gs_points g1 = gs_points g"
        "\<forall>j. j \<noteq> n \<longrightarrow> get_neighbours g1 j = get_neighbours g j" using clear_neighbours_law [OF ng] by blast
    ultimately have "compact_location cfg2 (new_locations ix) (empty_locations ix) n (ix\<lparr>ix_graph := g, ix_data := d\<rparr>)
        = Inr (ix\<lparr>ix_graph := g1, ix_data := d\<rparr>)" using nm by (simp add: compact_location_def tot)
    moreover have "renamed ix g1 d i" if i: "i \<in> used ix" "i < n + 1" for i
    proof -
      have "i < n" using i False by (metis Suc_eq_plus1 less_SucE)
      then show ?thesis using C(6) [OF i(1)] nl(1) [OF i(1)] g1(3) by (simp add: renamed_def)
    qed
    ultimately show ?thesis using C(1-5,7) g1(2,3)
      by (intro exI [of _ g1] exI [of _ d]) (simp add: comp_inv_def)
  next
    case True
    let ?f = "new_loc ix"
    obtain ns where ns: "get_neighbours (ix_graph ix) n = Inr ns" "set ns \<subseteq> used ix"
      using graph_wf_nth [OF I(7), of n] n I(3) True by (auto simp: list_ok_def)
    have gn: "get_neighbours g n = Inr ns" using C(7) [OF order_refl n] ns(1) by simp
    have "i \<notin> empty_locations ix" if "i \<in> used ix" for i
      using that inv(2) by (auto simp: used_def empty_locations_def live_contains)
    then have fl: "filter (\<lambda>i. i \<notin> empty_locations ix) ns = ns" using ns(2) by (auto simp: filter_id_conv)
    have mp: "mapR (vec_at (new_locations ix)) ns = Inr (map ?f ns)" by (rule mapR_total) (use at ns(2) in blast)
    obtain g1 where g1: "set_neighbours n (map ?f ns) g = Inr g1" "gs_points g1 = gs_points g" "get_neighbours g1 n = Inr (map ?f ns)"
        "\<forall>j. j \<noteq> n \<longrightarrow> get_neighbours g1 j = get_neighbours g j" using adj.setn_law [OF ng] by blast
    have cond: "?f n < ix_max_points ix \<or> (ix_max_points ix \<le> n \<and> n < ix_total ix)"
      using nl(1) [OF True] n by (cases "n < ix_max_points ix") auto
    show ?thesis
    proof (cases "?f n = n")
      case same: True
      have "compact_location cfg2 (new_locations ix) (empty_locations ix) n (ix\<lparr>ix_graph := g, ix_data := d\<rparr>)
          = Inr (ix\<lparr>ix_graph := g1, ix_data := d\<rparr>)"
        using cond same by (simp add: compact_location_def tot at [OF True] gn fl mp g1(1))
      moreover have "renamed ix g1 d i" if i: "i \<in> used ix" "i < n + 1" for i
      proof (cases "i = n")
        case True
        then show ?thesis using same g1(3) ns(1) C(7) [OF order_refl n] by (simp add: renamed_def)
      next
        case False
        then have "i < n" using i(2) by simp
        then show ?thesis using C(6) [OF i(1)] nl(1) [OF i(1)] g1(4) by (simp add: renamed_def)
      qed
      ultimately show ?thesis using C(1-5,7) g1(2,4)
        by (intro exI [of _ g1] exI [of _ d]) (simp add: comp_inv_def)
    next
      case False
      have lt: "?f n < n" using False nl(1) [OF True] by simp
      have a: "?f n < gs_points g1" "n < gs_points g1" using lt ng g1(2) by simp_all
      obtain g2 where g2: "swap_neighbours (?f n) n g1 = Inr g2" "gs_points g2 = gs_points g1"
          "get_neighbours g2 (?f n) = get_neighbours g1 n"
          "\<forall>j. j \<noteq> ?f n \<and> j \<noteq> n \<longrightarrow> get_neighbours g2 j = get_neighbours g1 j" using swap_neighbours_law [OF a] by blast
      have cp: "n + 1 \<le> ds_capacity d" "?f n + 1 \<le> ds_capacity d" using n cap lt by simp_all
      obtain d1 where d1: "ds_copy_vectors n (?f n) 1 d = Inr d1" "ds_inv d1" "ds_capacity d1 = ds_capacity d"
          "ds_aligned_dim d1 = ds_aligned_dim d" "ds_dim d1 = ds_dim d"
          "\<forall>r < ds_capacity d. ds_row d1 r = (if ?f n \<le> r \<and> r < ?f n + 1 then ds_row d (n + (r - ?f n)) else ds_row d r)"
        using ds_copy_vectors_correct [OF C(2) cp] by blast
      have row: "ds_row d1 (?f n) = ds_row d n" "r < ds_capacity d \<Longrightarrow> r \<noteq> ?f n \<Longrightarrow> ds_row d1 r = ds_row d r" for r
        using d1(6) cp(2) by auto
      have "compact_location cfg2 (new_locations ix) (empty_locations ix) n (ix\<lparr>ix_graph := g, ix_data := d\<rparr>)
          = Inr (ix\<lparr>ix_graph := g2, ix_data := d1\<rparr>)"
        using cond False I(4) by (simp add: compact_location_def tot at [OF True] gn fl mp g1(1) g2(1) d1(1) [simplified])
      moreover have "renamed ix g2 d1 i" if i: "i \<in> used ix" "i < n + 1" for i
      proof (cases "i = n")
        case True
        then show ?thesis using g2(3) g1(3) ns(1) C(7) [OF order_refl n] row(1) by (simp add: renamed_def)
      next
        case ne: False
        then have "i < n" using i(2) by simp
        then have "renamed ix g d i" "?f i < ?f n" "?f i < n" using C(6) [OF i(1)] nl(1) [OF i(1)] nl(2) [OF i(1) True] by simp_all
        then show ?thesis using g2(4) g1(4) row(2) [of "?f i"] cp(1) by (simp add: renamed_def)
      qed
      moreover have "get_neighbours g2 i = get_neighbours (ix_graph ix) i \<and> ds_row d1 i = ds_row (ix_data ix) i"
        if i: "n + 1 \<le> i" "i < ix_total ix" for i
        using i lt g2(4) g1(4) row(2) [of i] cap C(7) [of i] by simp
      ultimately show ?thesis using C(1-5) g1(2) g2(2) d1(2-5)
        by (intro exI [of _ g2] exI [of _ d1]) (simp add: comp_inv_def)
    qed
  qed
qed

section \<open>The tag tables after compaction\<close>

lemma tag_inj:
  assumes "book_inv ix"
  shows "inj_on (\<lambda>t. the (ix_t2l ix t)) (dom (ix_t2l ix))" "inj_on (\<lambda>k. the (nnm_try_get (ix_l2t ix) k)) (live ix)"
proof (rule_tac [!] inj_onI)
  fix t u assume tu: "t \<in> dom (ix_t2l ix)" "u \<in> dom (ix_t2l ix)" "the (ix_t2l ix t) = the (ix_t2l ix u)"
  then obtain k where "ix_t2l ix t = Some k" "ix_t2l ix u = Some k" by auto
  then show "t = u" using tag_lookup [OF assms, of t k] tag_lookup [OF assms, of u k] by simp
next
  fix k j assume kj: "k \<in> live ix" "j \<in> live ix" "the (nnm_try_get (ix_l2t ix) k) = the (nnm_try_get (ix_l2t ix) j)"
  then obtain t where "nnm_try_get (ix_l2t ix) k = Some t" "nnm_try_get (ix_l2t ix) j = Some t" by (auto simp: live_def)
  then show "k = j" using tag_lookup [OF assms, of t k] tag_lookup [OF assms, of t j] by simp
qed

lemma retag_all:
  assumes "\<forall>k \<in> set ks. vec_at (nnm_values m) k = Inr (tg k) \<and> vec_at nl k = Inr (f k)"
  shows "foldR (retag_location m nl) ks t0 = Inr (fold (\<lambda>k t. t(tg k \<mapsto> f k)) ks t0)"
  using assms by (induction ks arbitrary: t0) (simp_all add: retag_location_def)

lemma fold_nnm_set:
  "nnm_inv m \<Longrightarrow> nnm_inv (fold (\<lambda>t m. nnm_set m (loc t) t) ts m)
     \<and> nnm_try_get (fold (\<lambda>t m. nnm_set m (loc t) t) ts m) = fold (\<lambda>t m. m(loc t \<mapsto> t)) ts (nnm_try_get m)"
  by (induction ts arbitrary: m) (simp_all add: nnm_set_correct)

lemma compact_tags_ok:
  assumes inv: "book_inv ix" and ord: "order_ok (ic_order cfg)"
    and ix1: "ix_l2t ix1 = ix_l2t ix"
  shows "\<exists>l2t. compact_tags cfg (new_locations ix) ix1 = Inr (ix1\<lparr>ix_t2l := map_option (new_loc ix) \<circ> ix_t2l ix, ix_l2t := l2t\<rparr>)
     \<and> nnm_inv l2t \<and> nnm_map.inverse_of l2t (map_option (new_loc ix) \<circ> ix_t2l ix)"
proof -
  note I = book_invD [OF inv]
  let ?f = "new_loc ix" and ?l2t = "ix_l2t ix" and ?t2l = "ix_t2l ix"
  let ?ks = "sorted_list_of_set (live ix)" and ?tg = "\<lambda>k. the (nnm_try_get (ix_l2t ix) k)"
  have fin: "finite (live ix)" using live_card [OF inv] by blast
  have en: "nnm_enumerate ?l2t (nnm_find_first ?l2t) = ?ks" using nnm_enumerate_all [OF I(1)] by (simp add: live_def)
  have k: "vec_at (nnm_values ?l2t) k = Inr (?tg k) \<and> vec_at (new_locations ix) k = Inr (?f k)" if "k \<in> live ix" for k
  proof -
    have c: "nnm_contains ?l2t k" using that by (simp add: live_contains)
    have "k < ix_total ix" using that used_bound(2) [OF inv] by (auto simp: ix_total_def)
    then show ?thesis using new_locations_nth [OF I(9), of k] c I(1)
      by (simp add: nnm_try_get_def) (simp add: nnm_contains_def nnm_inv_def)
  qed
  define t2l' where "t2l' = fold (\<lambda>k t. t(?tg k \<mapsto> ?f k)) ?ks Map.empty"
  have r: "foldR (retag_location ?l2t (new_locations ix)) ?ks Map.empty = Inr t2l'"
    unfolding t2l'_def by (rule retag_all) (use k fin in simp)
  have inj: "inj_on ?tg (set ?ks)" using tag_inj(2) [OF inv] fin by simp
  have "t2l' t = (map_option ?f \<circ> ?t2l) t" for t
  proof -
    have s: "t2l' t = Some l \<longleftrightarrow> (\<exists>k \<in> live ix. ?tg k = t \<and> ?f k = l)" for l
      unfolding t2l'_def fold_upd_inj [OF inj] using fin by simp
    have e: "k \<in> live ix \<and> ?tg k = t \<longleftrightarrow> ?t2l t = Some k" for k
      using tag_lookup [OF inv, of t k] by (auto simp: live_def)
    have "t2l' t = Some l \<longleftrightarrow> (map_option ?f \<circ> ?t2l) t = Some l" for l
      unfolding s using e by auto
    then show ?thesis by (metis not_None_eq)
  qed
  then have t2l': "t2l' = map_option ?f \<circ> ?t2l" by blast
  let ?ts = "ic_order cfg (dom t2l')"
  have "dom t2l' = dom ?t2l" by (auto simp: t2l' dom_def)
  then have ts: "set ?ts = dom ?t2l" using order_okD [OF ord, of "dom ?t2l"] live_card [OF inv] by simp
  define l2t where "l2t = fold (\<lambda>tag m. nnm_set m (the (t2l' tag)) tag) ?ts (nnm_clear ?l2t)"
  have L: "nnm_inv l2t" "nnm_try_get l2t = fold (\<lambda>t m. m(the (t2l' t) \<mapsto> t)) ?ts Map.empty"
    using fold_nnm_set [of "nnm_clear ?l2t" "\<lambda>t. the (t2l' t)" ?ts] by (simp_all add: l2t_def)
  have the: "the (t2l' t) = ?f (the (?t2l t))" if "t \<in> dom ?t2l" for t using that by (auto simp: t2l')
  have inj2: "inj_on (\<lambda>t. the (t2l' t)) (set ?ts)"
    unfolding ts
  proof (rule inj_onI)
    fix t u assume tu: "t \<in> dom ?t2l" "u \<in> dom ?t2l" "the (t2l' t) = the (t2l' u)"
    have lv: "the (?t2l t) \<in> live ix" "the (?t2l u) \<in> live ix" using tu(1,2) tag_location(1) [OF inv] by auto
    have "?f (the (?t2l t)) = ?f (the (?t2l u))" using tu the by simp
    then have "the (?t2l t) = the (?t2l u)" using inj_onD [OF new_loc_inj(1) [OF inv] _ lv] by blast
    then show "t = u" using inj_onD [OF tag_inj(1) [OF inv] _ tu(1,2)] by blast
  qed
  have "nnm_try_get l2t l = Some t \<longleftrightarrow> t \<in> dom ?t2l \<and> the (t2l' t) = l" for l t
    unfolding L(2) fold_upd_inj [OF inj2] ts by auto
  then have "nnm_try_get l2t l = Some t \<longleftrightarrow> t2l' t = Some l" for l t
    unfolding \<open>dom t2l' = dom ?t2l\<close> [symmetric] by (cases "t2l' t") auto
  then have "nnm_map.inverse_of l2t t2l'" by (simp add: nnm_map.inverse_of_def)
  moreover have "compact_tags cfg (new_locations ix) ix1 = Inr (ix1\<lparr>ix_t2l := t2l', ix_l2t := l2t\<rparr>)"
    by (simp add: compact_tags_def ix1 en r l2t_def)
  ultimately show ?thesis using L(1) unfolding t2l' by blast
qed

section \<open>Compaction keeps the index\<close>

lemma clear_locations_ok:
  assumes "n \<le> m" "m \<le> gs_points (ix_graph ix)" "\<not> ix_filtered ix"
  shows "\<exists>g. foldR clear_location [n..<m] ix = Inr (ix\<lparr>ix_graph := g\<rparr>) \<and> gs_points g = gs_points (ix_graph ix)
     \<and> (\<forall>i. get_neighbours g i = (if n \<le> i \<and> i < m then Inr [] else get_neighbours (ix_graph ix) i))"
  using assms
proof (induction m)
  case 0
  then show ?case by (intro exI [of _ "ix_graph ix"]) simp
next
  case (Suc m)
  show ?case
  proof (cases "n \<le> m")
    case False
    then have "n = Suc m" using Suc.prems(1) by simp
    then show ?thesis by (intro exI [of _ "ix_graph ix"]) auto
  next
    case True
    then obtain g where g: "foldR clear_location [n..<m] ix = Inr (ix\<lparr>ix_graph := g\<rparr>)" "gs_points g = gs_points (ix_graph ix)"
        "\<forall>i. get_neighbours g i = (if n \<le> i \<and> i < m then Inr [] else get_neighbours (ix_graph ix) i)" using Suc by auto
    have "m < gs_points g" using Suc.prems(2) g(2) by simp
    then obtain g1 where g1: "clear_neighbours m g = Inr g1" "gs_points g1 = gs_points g" "get_neighbours g1 m = Inr []"
        "\<forall>j. j \<noteq> m \<longrightarrow> get_neighbours g1 j = get_neighbours g j" using clear_neighbours_law by blast
    have "foldR clear_location [n..<Suc m] ix = Inr (ix\<lparr>ix_graph := g1\<rparr>)"
      using True g(1) g1(1) Suc.prems(3) by (simp add: foldR_append clear_location_def)
    moreover have "get_neighbours g1 i = (if n \<le> i \<and> i < Suc m then Inr [] else get_neighbours (ix_graph ix) i)" for i
      using g(3) g1(3,4) True by (cases "i = m") (auto simp: less_Suc_eq)
    ultimately show ?thesis using g(2) g1(2) by (intro exI [of _ g1]) simp
  qed
qed

lemma insert_slots:
  assumes "n \<le> m" "m < 2 ^ 32"
  shows "nns_inv (foldl nns_insert (nns_clear s) (map u32 [n..<m]))" "nns_elems (foldl nns_insert (nns_clear s) (map u32 [n..<m])) = {n..<m}"
    "nns_size (foldl nns_insert (nns_clear s) (map u32 [n..<m])) = m - n"
    "length (nns_bits (foldl nns_insert (nns_clear s) (map u32 [n..<m]))) = (if n = m then 0 else m)"
proof -
  have e: "map u32 [n..<m] = [n..<m]" by (rule map_idI) (use assms(2) in simp)
  have p: "nns_inv (foldl nns_insert (nns_clear s) [n..<m]) \<and> nns_elems (foldl nns_insert (nns_clear s) [n..<m]) = {n..<m}"
    using slots.put_all [of "nns_clear s" "[n..<m]"] by simp
  then show "nns_inv (foldl nns_insert (nns_clear s) (map u32 [n..<m]))"
    "nns_elems (foldl nns_insert (nns_clear s) (map u32 [n..<m])) = {n..<m}" unfolding e by blast+
  show "nns_size (foldl nns_insert (nns_clear s) (map u32 [n..<m])) = m - n"
    unfolding e using nns_size_card p by simp
  have "n \<le> k \<Longrightarrow> length (nns_bits (foldl nns_insert (nns_clear s) [n..<k])) = (if n = k then 0 else k)" for k
  proof (induction k)
    case (Suc k)
    then show ?case by (cases "n = Suc k") (auto simp: nns_bits_insert)
  qed simp
  then show "length (nns_bits (foldl nns_insert (nns_clear s) (map u32 [n..<m]))) = (if n = m then 0 else m)"
    unfolding e using assms(1) by blast
qed

text \<open>The compacted state: what moved where.\<close>

definition compacted :: "'a index \<Rightarrow> 'a index \<Rightarrow> bool" where
  "compacted ix ix' \<longleftrightarrow> ix_t2l ix' = map_option (new_loc ix) \<circ> ix_t2l ix \<and> live ix' = {..<ix_nd ix}
     \<and> (\<forall>i \<in> used ix. renamed ix (ix_graph ix') (ix_data ix') i)
     \<and> (\<forall>i. ix_nd ix \<le> i \<and> i < ix_max_points ix \<longrightarrow> get_neighbours (ix_graph ix') i = Inr [])
     \<and> ix_data_compacted ix' \<and> ix_deleted ix' = {} \<and> ix_nd ix' = ix_nd ix \<and> ix_start ix' = ix_start ix
     \<and> ix_max_points ix' = ix_max_points ix \<and> ix_num_frozen ix' = ix_num_frozen ix"

lemma compact_data_ok:
  fixes cfg :: "'a index_config"
  assumes cfg: "ic_dynamic cfg" "order_ok (ic_order cfg)" and inv: "dyn_inv cfg ix" and d: "ix_deleted ix = {}" "\<not> ix_data_compacted ix"
  shows "\<exists>g d l2t. compact_data cfg ix = Inr (ix\<lparr>ix_graph := g, ix_data := d, ix_t2l := map_option (new_loc ix) \<circ> ix_t2l ix, ix_l2t := l2t,
       ix_empty := foldl nns_insert (nns_clear (ix_empty ix)) (map u32 [ix_nd ix..<ix_max_points ix]), ix_data_compacted := True\<rparr>)
     \<and> nnm_inv l2t \<and> nnm_map.inverse_of l2t (map_option (new_loc ix) \<circ> ix_t2l ix) \<and> ds_inv d \<and> gs_points g = ix_total ix
     \<and> ds_capacity d = ds_capacity (ix_data ix) \<and> ds_aligned_dim d = ds_aligned_dim (ix_data ix) \<and> ds_dim d = ds_dim (ix_data ix)
     \<and> (\<forall>i \<in> used ix. renamed ix g d i)
     \<and> (\<forall>i. ix_nd ix \<le> i \<and> i < ix_max_points ix \<longrightarrow> get_neighbours g i = Inr [])"
proof -
  note I = dyn_invD [OF inv]
  let ?P = "\<lambda>n ix'. \<exists>g d. ix' = ix\<lparr>ix_graph := g, ix_data := d\<rparr> \<and> comp_inv ix n g d"
  have run: "n \<le> ix_total ix \<Longrightarrow> \<exists>g d. foldR (compact_location cfg (new_locations ix) (empty_locations ix)) [0..<n] ix
      = Inr (ix\<lparr>ix_graph := g, ix_data := d\<rparr>) \<and> comp_inv ix n g d" for n
  proof (induction n)
    case 0
    then show ?case using I(2,3) by (intro exI [of _ "ix_graph ix"] exI [of _ "ix_data ix"]) (simp add: comp_inv_def rows_ok_def)
  next
    case (Suc n)
    then obtain g dd where g: "foldR (compact_location cfg (new_locations ix) (empty_locations ix)) [0..<n] ix
        = Inr (ix\<lparr>ix_graph := g, ix_data := dd\<rparr>)" "comp_inv ix n g dd" by auto
    have "n < ix_total ix" using Suc.prems by simp
    from compact_location_ok [OF inv d(1) g(2) this, of cfg] obtain g' d' where
      "compact_location cfg (new_locations ix) (empty_locations ix) n (ix\<lparr>ix_graph := g, ix_data := dd\<rparr>)
        = Inr (ix\<lparr>ix_graph := g', ix_data := d'\<rparr>)" "comp_inv ix (n + 1) g' d'" by blast
    then show ?case using g(1) by (intro exI [of _ g'] exI [of _ d']) (simp add: foldR_append)
  qed
  obtain g1 d1 where 1: "foldR (compact_location cfg (new_locations ix) (empty_locations ix)) [0..<ix_total ix] ix
      = Inr (ix\<lparr>ix_graph := g1, ix_data := d1\<rparr>)" "comp_inv ix (ix_total ix) g1 d1" using run [OF order_refl] by blast
  note C = comp_invD [OF 1(2)]
  let ?ix1 = "ix\<lparr>ix_graph := g1, ix_data := d1\<rparr>"
  obtain l2t where 2: "compact_tags cfg (new_locations ix) ?ix1 = Inr (?ix1\<lparr>ix_t2l := map_option (new_loc ix) \<circ> ix_t2l ix, ix_l2t := l2t\<rparr>)"
      "nnm_inv l2t" "nnm_map.inverse_of l2t (map_option (new_loc ix) \<circ> ix_t2l ix)"
    using compact_tags_ok [OF I(1) cfg(2), of ?ix1] by auto
  let ?ix2 = "?ix1\<lparr>ix_t2l := map_option (new_loc ix) \<circ> ix_t2l ix, ix_l2t := l2t\<rparr>"
  have nd: "ix_nd ix \<le> ix_max_points ix" using book_invD(8) [OF I(1)] by simp
  have le: "ix_max_points ix \<le> gs_points (ix_graph ?ix2)" using C(1) by (simp add: ix_total_def)
  have nf: "\<not> ix_filtered ?ix2" using I(4) by simp
  from clear_locations_ok [OF nd le nf] obtain g where 3: "foldR clear_location [ix_nd ix..<ix_max_points ix] ?ix2 = Inr (?ix2\<lparr>ix_graph := g\<rparr>)"
      "gs_points g = gs_points (ix_graph ?ix2)"
      "\<forall>i. get_neighbours g i = (if ix_nd ix \<le> i \<and> i < ix_max_points ix then Inr [] else get_neighbours (ix_graph ?ix2) i)" by blast
  have ren: "renamed ix g d1 i" if i: "i \<in> used ix" for i
  proof -
    have r: "renamed ix g1 d1 i" using C(6) [OF i] i used_bound(1) [OF I(1)] by auto
    have "new_loc ix i < ix_nd ix \<or> ix_max_points ix \<le> new_loc ix i"
      using new_loc_live(3) [OF I(1), of i] nd_counts [OF I(1)] live_card [OF I(1)] i d(1) by (auto simp: used_def new_loc_def)
    then have "get_neighbours g (new_loc ix i) = get_neighbours g1 (new_loc ix i)" using 3(3) by auto
    then show ?thesis using r by (simp add: renamed_def)
  qed
  have st: "ix_start ix = ix_max_points ix" by (rule I(6))
  have "compact_data cfg ix = Inr (ix\<lparr>ix_graph := g, ix_data := d1, ix_t2l := map_option (new_loc ix) \<circ> ix_t2l ix, ix_l2t := l2t,
       ix_empty := foldl nns_insert (nns_clear (ix_empty ix)) (map u32 [ix_nd ix..<ix_max_points ix]), ix_data_compacted := True\<rparr>)"
    using cfg(1) d st 1(1) 2(1) 3(1) by (simp add: compact_data_def Let_def)
  moreover have "\<forall>i. ix_nd ix \<le> i \<and> i < ix_max_points ix \<longrightarrow> get_neighbours g i = Inr []" using 3(3) by simp
  moreover have "gs_points g = ix_total ix" using 3(2) C(1) by simp
  ultimately show ?thesis using 2(2,3) C(2-5) ren by blast
qed

lemma new_loc_image:
  assumes "book_inv ix" "ix_deleted ix = {}"
  shows "new_loc ix ` used ix = {..<ix_nd ix} \<union> {ix_max_points ix..<ix_total ix}" "card (live ix) = ix_nd ix"
proof -
  show c: "card (live ix) = ix_nd ix" using nd_counts [OF assms(1)] live_card [OF assms(1)] assms(2) by simp
  have "new_loc ix ` {ix_max_points ix..<ix_total ix} = {ix_max_points ix..<ix_total ix}" by (auto simp: new_loc_def image_iff)
  then show "new_loc ix ` used ix = {..<ix_nd ix} \<union> {ix_max_points ix..<ix_total ix}"
    using new_loc_inj(2) [OF assms(1)] c assms(2) by (simp add: used_def image_Un)
qed

lemma live_of_inverse:
  assumes "nnm_inv l2t" "nnm_map.inverse_of l2t t2l"
  shows "dom (nnm_try_get l2t) = ran t2l"
  using nnm_map.inverse_dom(1) [OF assms] .

lemma compact_data_dyn:
  fixes cfg :: "'a index_config"
  assumes cfg: "ic_dynamic cfg" "order_ok (ic_order cfg)" and inv: "dyn_inv cfg ix" and d: "ix_deleted ix = {}" "\<not> ix_data_compacted ix"
  shows "\<exists>ix'. compact_data cfg ix = Inr ix' \<and> compacted ix ix' \<and> tag_vectors ix' = tag_vectors ix
     \<and> (ix_nd ix < ix_max_points ix \<longrightarrow> dyn_inv cfg ix')"
proof -
  let ?f = "new_loc ix"
  note I = dyn_invD [OF inv]
  note B = book_invD [OF I(1)]
  obtain g dd l2t where c: "compact_data cfg ix = Inr (ix\<lparr>ix_graph := g, ix_data := dd, ix_t2l := map_option ?f \<circ> ix_t2l ix, ix_l2t := l2t,
       ix_empty := foldl nns_insert (nns_clear (ix_empty ix)) (map u32 [ix_nd ix..<ix_max_points ix]), ix_data_compacted := True\<rparr>)"
     "nnm_inv l2t" "nnm_map.inverse_of l2t (map_option ?f \<circ> ix_t2l ix)" "ds_inv dd" "gs_points g = ix_total ix"
     "ds_capacity dd = ds_capacity (ix_data ix)" "ds_aligned_dim dd = ds_aligned_dim (ix_data ix)" "ds_dim dd = ds_dim (ix_data ix)"
     "\<forall>i \<in> used ix. renamed ix g dd i" "\<forall>i. ix_nd ix \<le> i \<and> i < ix_max_points ix \<longrightarrow> get_neighbours g i = Inr []"
    using compact_data_ok [OF assms] by blast
  define slots where "slots = foldl nns_insert (nns_clear (ix_empty ix)) (map u32 [ix_nd ix..<ix_max_points ix])"
  define ix' where "ix' = ix\<lparr>ix_graph := g, ix_data := dd, ix_t2l := map_option ?f \<circ> ix_t2l ix, ix_l2t := l2t,
       ix_empty := slots, ix_data_compacted := True\<rparr>"
  have F: "ix_graph ix' = g" "ix_data ix' = dd" "ix_t2l ix' = map_option ?f \<circ> ix_t2l ix" "ix_l2t ix' = l2t" "ix_empty ix' = slots"
      "ix_data_compacted ix'" "ix_deleted ix' = {}" "ix_nd ix' = ix_nd ix" "ix_start ix' = ix_start ix" "ix_max_points ix' = ix_max_points ix"
      "ix_num_frozen ix' = ix_num_frozen ix" "ix_filtered ix' = ix_filtered ix" "ix_total ix' = ix_total ix"
    using d(1) by (simp_all add: ix'_def ix_total_def)
  have nd: "ix_nd ix \<le> ix_max_points ix" using B(8) by simp
  note img = new_loc_image [OF I(1) d(1)]
  have "ran (ix_t2l ix) = live ix" using live_of_inverse [OF B(1,3)] by (simp add: live_def)
  moreover have "ran (map_option ?f \<circ> ix_t2l ix) = ?f ` ran (ix_t2l ix)" by (auto simp: ran_def)
  ultimately have lv: "live ix' = {..<ix_nd ix}"
    using live_of_inverse [OF c(2,3)] new_loc_inj(2) [OF I(1)] img(2) by (simp add: live_def F(4))
  have us: "used ix' = {..<ix_nd ix} \<union> {ix_max_points ix..<ix_total ix}" unfolding used_def lv F by simp
  have cmp: "compacted ix ix'" unfolding compacted_def lv F using F(6) c(9,10) by simp
  have cap: "ix_total ix \<le> ds_capacity (ix_data ix)" using I(2) by (simp add: rows_ok_def)
  have "get_vector_by_tag t ix' = get_vector_by_tag t ix" for t
  proof (cases "ix_t2l ix t")
    case None
    then show ?thesis by (simp add: get_vector_by_tag_def F(3))
  next
    case (Some i)
    have iu: "i \<in> used ix" using tag_location(1) [OF I(1) Some] by (simp add: used_def)
    have it: "i < ix_total ix" using iu used_bound(1) [OF I(1)] by blast
    have fi: "?f i < ix_total ix" using new_loc_used(1) [OF I(1) d(1) iu] it by simp
    have "ds_row dd (?f i) = ds_row (ix_data ix) i" using c(9) iu by (simp add: renamed_def)
    then have "ds_get_vector dd (?f i) = ds_get_vector (ix_data ix) i"
      using ds_get_vector_row [OF c(4), of "?f i"] ds_get_vector_row [of "ix_data ix" i] I(2) fi it cap c(6,8) by (simp add: rows_ok_def)
    then show ?thesis using Some by (simp add: get_vector_by_tag_def F(2,3))
  qed
  then have tv: "tag_vectors ix' = tag_vectors ix" by (intro ext) (simp add: tag_vectors_def)
  have "dyn_inv cfg ix'" if lt: "ix_nd ix < ix_max_points ix"
  proof -
    note S = insert_slots [OF nd B(9), of "ix_empty ix", folded slots_def]
    have "book_inv ix'"
      unfolding book_inv_def lv F using c(2,3) S nd lt B(9) by auto
    moreover have "graph_wf (used ix') (list_bound (ic_R cfg)) g"
    proof (rule graph_wfI)
      fix i ms assume i: "i < gs_points g" "get_neighbours g i = Inr ms"
      show "list_ok (used ix') (list_bound (ic_R cfg)) (gs_points g) i ms"
      proof (cases "ix_nd ix \<le> i \<and> i < ix_max_points ix")
        case True
        then have "get_neighbours g i = Inr []" using c(10) by blast
        then show ?thesis using i(2) by (simp add: list_ok_def)
      next
        case False
        then have "i \<in> ?f ` used ix" unfolding img(1) using i(1) c(5) by auto
        then obtain j where j: "j \<in> used ix" "i = ?f j" by blast
        have "j < gs_points (ix_graph ix)" using j(1) used_bound(1) [OF I(1)] I(3) by auto
        then obtain ns where ns: "get_neighbours (ix_graph ix) j = Inr ns" "set ns \<subseteq> used ix" "length ns \<le> list_bound (ic_R cfg)"
          using graph_wf_nth [OF I(7), of j] j(1) by (auto simp: list_ok_def)
        have ms: "ms = map ?f ns" using c(9) j ns(1) i(2) by (simp add: renamed_def)
        have "set ms \<subseteq> ?f ` used ix" unfolding ms using ns(2) by auto
        then have sub: "set ms \<subseteq> used ix'" using us unfolding img(1) by simp
        moreover have "used ix' \<subseteq> {..<gs_points g}" unfolding us c(5) using nd by (auto simp: ix_total_def)
        ultimately show ?thesis using ns(3) by (simp add: list_ok_def ms)
      qed
    qed
    ultimately show ?thesis using I(2,4-6) c(4-6) by (simp add: dyn_inv_def F rows_ok_def)
  qed
  moreover have "compact_data cfg ix = Inr ix'" unfolding ix'_def slots_def by (rule c(1))
  ultimately show ?thesis using cmp tv by blast
qed

section \<open>Properties\<close>



end
