(* ===== verification/Save_Load.thy ===== *)
theory Save_Load
  imports Compact
begin

text \<open>
  Saving an index to its files and loading it (\<^verbatim>\<open>src/index.cpp\<close>). The files of
  one index name are a record; \<open>None\<close> is a file that does not exist. The iteration
  orders of the hash containers are parameters. The one-file format is not supported by the source.
\<close>

record index_files =
  if_graph :: "byte list option"
  if_data :: "byte list option"
  if_tags :: "byte list option"
  if_del :: "byte list option"
  if_labels :: "string option"
  if_medoids :: "string option"
  if_universal :: "string option"
  if_labels_map :: "string option"
  if_raw_labels :: "string option"

section \<open>Saving\<close>

text \<open>
  \<^verbatim>\<open>tag_data\<close> is uninitialised memory; the entries of the frozen points are written at
  \<^verbatim>\<open>_start\<close>, which lies outside when the frozen points have not been moved down.
\<close>

definition tag_data :: "'a index \<Rightarrow> nat list result" where
  "tag_data ix =
     (let tags = map (\<lambda>i. case nnm_try_get (ix_l2t ix) i of Some t \<Rightarrow> t | None \<Rightarrow> 0) [0..<ix_nd ix]
        @ replicate (ix_num_frozen ix) 0
      in if 0 < ix_num_frozen ix then mem_put tags (ix_start ix) (replicate (ix_num_frozen ix) 0) else Inr tags)"

definition save_tags :: "'a index_config \<Rightarrow> nat codec \<Rightarrow> 'a index \<Rightarrow> byte list option result" where
  "save_tags cfg TagT ix =
     (if \<not> ic_enable_tags cfg then Inr None
      else bindR (tag_data ix) (\<lambda>tags.
           bindR (save_bin TagT [] tags (ix_nd ix + ix_num_frozen ix) 1 0) (\<lambda>(bs, _). Inr (Some bs))))"

definition save_delete_list :: "'a index_config \<Rightarrow> 'a index \<Rightarrow> byte list option result" where
  "save_delete_list cfg ix =
     (if ix_deleted ix = {} then Inr None
      else let ds = ic_order cfg (ix_deleted ix) in
           bindR (save_bin u32_codec [] ds (length ds) 1 0) (\<lambda>(bs, _). Inr (Some bs)))"

definition save_data :: "'a codec \<Rightarrow> 'a index \<Rightarrow> byte list result" where
  "save_data T ix = bindR (ds_save T [] (u32 (ix_nd ix + ix_num_frozen ix)) (ix_data ix)) (\<lambda>(bs, _). Inr bs)"

definition save_graph_file :: "'a index \<Rightarrow> byte list result" where
  "save_graph_file ix =
     bindR (save_graph (ix_graph ix) (ix_nd ix + ix_num_frozen ix) (ix_num_frozen ix) (ix_start ix)) (\<lambda>(bs, _). Inr bs)"

fun join_labels :: "string list \<Rightarrow> string" where
  "join_labels [] = []"
| "join_labels [l] = l"
| "join_labels (l # ls) = l @ [comma] @ join_labels ls"

definition labels_text :: "(nat \<Rightarrow> string) \<Rightarrow> nat list list \<Rightarrow> nat \<Rightarrow> string result" where
  "labels_text name l2l n =
     bindR (mapR (\<lambda>i. bindR (vec_at l2l i) (\<lambda>ls. Inr (join_labels (map name ls) @ [newline]))) [0..<n]) (\<lambda>lines.
       Inr (concat lines))"

text \<open>The inverted label map: the first raw label met for a number, or an empty string.\<close>

definition raw_label :: "string list \<Rightarrow> (string \<rightharpoonup> nat) \<Rightarrow> nat \<Rightarrow> string" where
  "raw_label keys m v = (case filter (\<lambda>k. m k = Some v) keys of [] \<Rightarrow> [] | k # _ \<Rightarrow> k)"

definition save_label_files ::
  "'a index_config \<Rightarrow> nat \<Rightarrow> (string set \<Rightarrow> string list) \<Rightarrow> bool \<Rightarrow> 'a index \<Rightarrow> index_files \<Rightarrow> (index_files \<times> 'a index) result" where
  "save_label_files cfg w sord with_compaction ix files =
     (if \<not> ix_filtered ix then Inr (files, ix)
      else
        let f1 = (if dom (ix_label_start ix) \<noteq> {}
                  then files\<lparr>if_medoids := Some (concat (map (\<lambda>l. show_nat l @ '', '' @ show_nat (the (ix_label_start ix l)) @ [newline])
                         (ic_order cfg (dom (ix_label_start ix)))))\<rparr> else files);
            f2 = (if ix_use_universal ix then f1\<lparr>if_universal := Some (show_nat (ix_universal ix) @ [newline])\<rparr> else f1);
            n = ix_nd ix + ix_num_frozen ix
        in if ix_labels ix = [] then Inr (f2, ix)
           else bindR (labels_text show_nat (ix_labels ix) n) (\<lambda>txt.
                let f3 = f2\<lparr>if_labels := Some txt\<rparr> in
                if with_compaction \<and> ic_dynamic cfg
                then bindR (load_label_map w (case if_labels_map f3 of None \<Rightarrow> [] | Some t \<Rightarrow> t)) (\<lambda>m.
                     bindR (labels_text (raw_label (sord (dom m)) m) (ix_labels ix) n) (\<lambda>raw.
                       Inr (f3\<lparr>if_raw_labels := Some raw\<rparr>, ix\<lparr>ix_label_map := m\<rparr>)))
                else Inr (f3, ix)))"

definition save_index ::
  "('a::zero) index_config \<Rightarrow> 'a codec \<Rightarrow> nat codec \<Rightarrow> nat \<Rightarrow> (string set \<Rightarrow> string list) \<Rightarrow> bool \<Rightarrow> 'a index \<Rightarrow> index_files
     \<Rightarrow> (index_files \<times> 'a index) result" where
  "save_index cfg T TagT w sord compact_before_save ix files =
     bindR (if compact_before_save then bindR (compact_data cfg ix) (compact_frozen_point cfg)
            else if \<not> ix_data_compacted ix
            then Inl (ANNException ''Index save for non-compacted index is not yet implemented'')
            else Inr ix) (\<lambda>ix1.
     bindR (save_label_files cfg w sord compact_before_save ix1 files) (\<lambda>(f1, ix2).
     bindR (save_graph_file ix2) (\<lambda>gb.
     bindR (save_data T ix2) (\<lambda>db.
     bindR (save_tags cfg TagT ix2) (\<lambda>tb.
     bindR (save_delete_list cfg ix2) (\<lambda>lb.
     bindR (reposition_frozen_point_to_end cfg ix2) (\<lambda>ix3.
       Inr (f1\<lparr>if_graph := Some gb, if_data := Some db, if_tags := tb, if_del := lb\<rparr>, ix3))))))))"

section \<open>Loading\<close>

definition load_data :: "'a index_config \<Rightarrow> 'a codec \<Rightarrow> byte list option \<Rightarrow> ('a::zero) index \<Rightarrow> (nat \<times> 'a index) result" where
  "load_data cfg T file ix =
     (case file of
        None \<Rightarrow> Inl (ANNException ''ERROR: data file does not exist.'')
      | Some bs \<Rightarrow>
          bindR (get_bin_metadata bs 0) (\<lambda>(file_num_points, file_dim).
          let ix1 = ix\<lparr>ix_empty := nns_clear (ix_empty ix)\<rparr> in
          if file_dim \<noteq> ds_dim (ix_data ix1) then Inl (ANNException ''ERROR: Driver requests loading another dimension'')
          else bindR (if ix_max_points ix1 + ix_num_frozen ix1 < file_num_points
                      then resize_index cfg (file_num_points - ix_num_frozen ix1) ix1 else Inr ix1) (\<lambda>ix2.
               bindR (ds_load T (Some bs) (ix_data ix2)) (\<lambda>(_, d). Inr (file_num_points, ix2\<lparr>ix_data := d\<rparr>)))))"

definition load_delete_set :: "byte list \<Rightarrow> 'a index \<Rightarrow> (nat \<times> 'a index) result" where
  "load_delete_set bs ix =
     bindR (load_bin u32_codec bs 0) (\<lambda>(delete_list, npts, ndim).
     if length delete_list < npts then Inl UndefinedBehaviour
     else Inr (npts, ix\<lparr>ix_deleted := ix_deleted ix \<union> set (take npts delete_list)\<rparr>))"

definition load_tag :: "nat list \<Rightarrow> nat \<Rightarrow> 'a index \<Rightarrow> 'a index result" where
  "load_tag tags i ix =
     bindR (vec_at tags i) (\<lambda>tag.
     if i \<notin> ix_deleted ix then Inr (ix\<lparr>ix_l2t := nnm_set (ix_l2t ix) i tag, ix_t2l := (ix_t2l ix)(tag \<mapsto> i)\<rparr>) else Inr ix)"

definition load_tags :: "'a index_config \<Rightarrow> nat codec \<Rightarrow> byte list option \<Rightarrow> 'a index \<Rightarrow> (nat \<times> 'a index) result" where
  "load_tags cfg TagT file ix =
     (if \<not> ic_enable_tags cfg then Inr (0, ix)
      else case file of
        None \<Rightarrow> Inl (ANNException ''Tag file does not exist!'')
      | Some bs \<Rightarrow>
          bindR (load_bin TagT bs 0) (\<lambda>(tags, file_num_points, file_dim).
          if file_dim \<noteq> 1 then Inl (ANNException ''ERROR: tag file must have 1 dimension.'')
          else bindR (foldR (load_tag tags) [0..<u32_sub file_num_points (ix_num_frozen ix)] ix) (\<lambda>ix'.
            Inr (file_num_points, ix'))))"

definition load_graph_into :: "byte list option \<Rightarrow> nat \<Rightarrow> 'a index \<Rightarrow> (nat \<times> 'a index) result" where
  "load_graph_into file expected_num_points ix =
     (case file of
        None \<Rightarrow> Inl IosFailure
      | Some bs \<Rightarrow>
          bindR (load_graph_file bs expected_num_points (ix_graph ix)) (\<lambda>((nodes, start, frozen), g).
            Inr (nodes, ix\<lparr>ix_graph := g, ix_start := start, ix_num_frozen := frozen\<rparr>)))"

text \<open>One line of the medoids file; a line without a label leaves the variable uninitialised.\<close>

fun medoid_line :: "nat list \<Rightarrow> nat \<Rightarrow> nat option \<Rightarrow> nat \<Rightarrow> nat option \<times> nat" where
  "medoid_line [] cnt label medoid = (label, medoid)"
| "medoid_line (v # vs) cnt label medoid =
     (if cnt = 0 then medoid_line vs 1 (Some v) medoid else medoid_line vs (cnt + 1) label (u32 v))"

definition load_medoid :: "nat \<Rightarrow> string \<Rightarrow> (nat \<rightharpoonup> nat) \<Rightarrow> (nat \<rightharpoonup> nat) result" where
  "load_medoid w line m =
     bindR (mapR (\<lambda>t. bindR (stoul (strip_eol t)) (\<lambda>v. Inr (v mod 2 ^ w))) (getlines comma line)) (\<lambda>vs.
       case medoid_line vs 0 None 0 of
         (None, _) \<Rightarrow> Inl UndefinedBehaviour
       | (Some label, medoid) \<Rightarrow> Inr (m(label \<mapsto> medoid)))"

text \<open>\<^verbatim>\<open>universal_label_reader >> _universal_label\<close>; a failed extraction leaves 0.\<close>

definition extract_label :: "nat \<Rightarrow> string \<Rightarrow> nat" where
  "extract_label w txt =
     (let ds = takeWhile is_digit (dropWhile is_space txt) in if ds = [] then 0 else min (read_digits ds) (2 ^ w - 1))"

definition load_labels :: "nat \<Rightarrow> index_files \<Rightarrow> 'a index \<Rightarrow> 'a index result" where
  "load_labels w files ix =
     (case if_labels files of
        None \<Rightarrow> Inr ix
      | Some txt \<Rightarrow>
          bindR (load_label_map w (case if_labels_map files of None \<Rightarrow> [] | Some t \<Rightarrow> t)) (\<lambda>m.
          bindR (parse_label_file w (Some txt) (ix_label_set ix)) (\<lambda>(l2l, labels, _).
          let ix1 = ix\<lparr>ix_label_map := m, ix_labels := l2l, ix_label_set := labels\<rparr> in
          bindR (case if_medoids files of
                   None \<Rightarrow> Inr ix1
                 | Some mt \<Rightarrow> bindR (foldR (load_medoid w) (getlines newline mt) Map.empty) (\<lambda>ms. Inr (ix1\<lparr>ix_label_start := ms\<rparr>))) (\<lambda>ix2.
            case if_universal files of
              None \<Rightarrow> Inr ix2
            | Some u \<Rightarrow> Inr (ix2\<lparr>ix_universal := extract_label w u, ix_use_universal := True\<rparr>)))))"

definition load_index ::
  "('a::zero) index_config \<Rightarrow> 'a codec \<Rightarrow> nat codec \<Rightarrow> nat \<Rightarrow> index_files \<Rightarrow> 'a index \<Rightarrow> 'a index result" where
  "load_index cfg T TagT w files ix0 =
     (let ix = ix0\<lparr>ix_has_built := True\<rparr> in
      bindR (load_data cfg T (if_data files) ix) (\<lambda>(data_file_num_pts, ix1).
      bindR (case if_del files of None \<Rightarrow> Inr ix1 | Some bs \<Rightarrow> bindR (load_delete_set bs ix1) (\<lambda>(_, i). Inr i)) (\<lambda>ix2.
      bindR (load_tags cfg TagT (if_tags files) ix2) (\<lambda>(tags_file_num_pts, ix3).
      bindR (load_graph_into (if_graph files) data_file_num_pts ix3) (\<lambda>(graph_num_pts, ix4).
      if data_file_num_pts \<noteq> graph_num_pts \<or> (data_file_num_pts \<noteq> tags_file_num_pts \<and> ic_enable_tags cfg)
      then Inl (ANNException ''ERROR: When loading index, loaded points from datafile, graph and tags differ'')
      else bindR (load_labels w files ix4) (\<lambda>ix5.
           let nd = (data_file_num_pts + 2 ^ 64 - ix_num_frozen ix5) mod 2 ^ 64 in
           reposition_frozen_point_to_end cfg
             (ix5\<lparr>ix_nd := nd, ix_empty := foldl nns_insert (nns_clear (ix_empty ix5)) (map u32 [nd..<ix_max_points ix5])\<rparr>)))))))"

end
