(* ===== verification/Round_Trip.thy ===== *)
theory Round_Trip
  imports Save_Load
begin

text \<open>
  Saving a dynamic index and loading the files into a fresh one. A \<^emph>\<open>packed\<close> index is
  the state between the two moves of the frozen points in \<^verbatim>\<open>save\<close> and before the
  last move in \<^verbatim>\<open>load\<close>: the live points are the first locations and the frozen
  points follow them.
\<close>

section \<open>Packed indexes\<close>

definition packed :: "'a index_config \<Rightarrow> 'a index \<Rightarrow> bool" where
  "packed cfg ix \<longleftrightarrow> \<not> ix_filtered ix \<and> 0 < ix_num_frozen ix \<and> ix_deleted ix = {} \<and> ix_start ix = ix_nd ix
     \<and> ix_nd ix < ix_max_points ix \<and> rows_ok ix \<and> ds_capacity (ix_data ix) < 2 ^ 32 \<and> gs_points (ix_graph ix) = ix_total ix
     \<and> nnm_inv (ix_l2t ix) \<and> nnm_map.inverse_of (ix_l2t ix) (ix_t2l ix) \<and> live ix = {..<ix_nd ix}
     \<and> nns_inv (ix_empty ix) \<and> nns_elems (ix_empty ix) = {ix_nd ix..<ix_max_points ix}
     \<and> nns_size (ix_empty ix) = ix_max_points ix - ix_nd ix \<and> ix_max_points ix \<le> length (nns_bits (ix_empty ix))
     \<and> (\<forall>i < ix_nd ix + ix_num_frozen ix. set (lists_of (ix_graph ix) i) \<subseteq> {..<ix_nd ix + ix_num_frozen ix}
          \<and> length (lists_of (ix_graph ix) i) \<le> list_bound (ic_R cfg))
     \<and> (\<forall>i. ix_nd ix + ix_num_frozen ix \<le> i \<and> i < ix_total ix \<longrightarrow> lists_of (ix_graph ix) i = [])"

lemma packedD:
  assumes "packed cfg ix"
  shows "\<not> ix_filtered ix" "0 < ix_num_frozen ix" "ix_deleted ix = {}" "ix_start ix = ix_nd ix"
    "ix_nd ix < ix_max_points ix" "rows_ok ix" "ds_capacity (ix_data ix) < 2 ^ 32" "gs_points (ix_graph ix) = ix_total ix"
    "nnm_inv (ix_l2t ix)" "nnm_map.inverse_of (ix_l2t ix) (ix_t2l ix)" "live ix = {..<ix_nd ix}"
    "nns_inv (ix_empty ix)" "nns_elems (ix_empty ix) = {ix_nd ix..<ix_max_points ix}"
    "nns_size (ix_empty ix) = ix_max_points ix - ix_nd ix" "ix_max_points ix \<le> length (nns_bits (ix_empty ix))"
    "\<And>i. i < ix_nd ix + ix_num_frozen ix \<Longrightarrow> set (lists_of (ix_graph ix) i) \<subseteq> {..<ix_nd ix + ix_num_frozen ix}"
    "\<And>i. i < ix_nd ix + ix_num_frozen ix \<Longrightarrow> length (lists_of (ix_graph ix) i) \<le> list_bound (ic_R cfg)"
    "\<And>i. ix_nd ix + ix_num_frozen ix \<le> i \<Longrightarrow> i < ix_total ix \<Longrightarrow> lists_of (ix_graph ix) i = []"
  using assms unfolding packed_def by blast+

lemma shift_location_eq:
  assumes "old + num < 2 ^ 32" "new + num < 2 ^ 32"
  shows "shift_location old new num loc = (if old \<le> loc \<and> loc < old + num then new + (loc - old) else loc)"
proof (cases "old \<le> loc \<and> loc < old + num")
  case True
  have "u32_add loc (u32_sub new old) = new + (loc - old)"
  proof -
    have "u32_sub new old = (new + 2 ^ 32 - old) mod 2 ^ 32" using assms by (simp add: u32_sub_def)
    then have "u32_add loc (u32_sub new old) = (loc + (new + 2 ^ 32 - old)) mod 2 ^ 32" by (simp add: u32_add_def mod_simps)
    moreover have "loc + (new + 2 ^ 32 - old) = (new + (loc - old)) + 2 ^ 32" using True assms by simp
    ultimately have "u32_add loc (u32_sub new old) = (new + (loc - old)) mod 2 ^ 32" by (metis mod_add_self2)
    moreover have "new + (loc - old) < 2 ^ 32" using True assms by linarith
    ultimately show ?thesis by (metis mod_less)
  qed
  then show ?thesis using True assms by (simp add: shift_location_def u32_add_def)
next
  case False
  then show ?thesis using assms by (auto simp: shift_location_def u32_add_def)
qed

lemma same_rows_vectors:
  assumes "ix_t2l ix' = ix_t2l ix" "ds_inv (ix_data ix)" "ds_inv (ix_data ix')"
    and "ds_dim (ix_data ix') = ds_dim (ix_data ix)"
    and "\<And>t i. ix_t2l ix t = Some i \<Longrightarrow> i < ds_capacity (ix_data ix) \<and> i < ds_capacity (ix_data ix') \<and> ds_row (ix_data ix') i = ds_row (ix_data ix) i"
  shows "tag_vectors ix' = tag_vectors ix"
proof -
  have "get_vector_by_tag t ix' = get_vector_by_tag t ix" for t
    using assms by (cases "ix_t2l ix t") (simp_all add: get_vector_by_tag_def ds_get_vector_row)
  then show ?thesis by (intro ext) (simp add: tag_vectors_def)
qed

lemma inverse_live: "nnm_inv (ix_l2t ix) \<Longrightarrow> nnm_map.inverse_of (ix_l2t ix) (ix_t2l ix) \<Longrightarrow> ran (ix_t2l ix) = live ix"
  using live_of_inverse [of "ix_l2t ix" "ix_t2l ix"] by (simp add: live_def)

text \<open>The lists after moving the frozen points up, as a function of the lists before.\<close>

definition lifted :: "nat \<Rightarrow> nat \<Rightarrow> nat \<Rightarrow> (nat \<Rightarrow> nat list) \<Rightarrow> nat \<Rightarrow> nat list" where
  "lifted nd m f L i = (if i < nd then map (shift_location nd m f) (L i)
                        else if m \<le> i \<and> i < m + f then map (shift_location nd m f) (L (nd + (i - m))) else [])"

lemma packed_reposition:
  assumes "packed cfg ix"
  shows "\<exists>ix'. reposition_frozen_point_to_end cfg ix = Inr ix' \<and> dyn_inv cfg ix' \<and> tag_vectors ix' = tag_vectors ix
     \<and> ix_nd ix' = ix_nd ix \<and> ix_max_points ix' = ix_max_points ix \<and> ix_num_frozen ix' = ix_num_frozen ix
     \<and> used ix' = {..<ix_nd ix} \<union> {ix_max_points ix..<ix_total ix}
     \<and> (\<forall>i < ix_total ix. lists_of (ix_graph ix') i = lifted (ix_nd ix) (ix_max_points ix) (ix_num_frozen ix) (lists_of (ix_graph ix)) i)"
proof -
  note P = packedD [OF assms]
  let ?nd = "ix_nd ix" and ?m = "ix_max_points ix" and ?f = "ix_num_frozen ix" and ?L = "lists_of (ix_graph ix)"
  have tot: "ix_total ix = ?m + ?f" by (simp add: ix_total_def)
  have cap: "ix_total ix \<le> ds_capacity (ix_data ix)" "ds_inv (ix_data ix)" using P(6) by (simp_all add: rows_ok_def)
  have small: "?nd + ?f < 2 ^ 32" "?m + ?f < 2 ^ 32" using tot cap P(5,7) by simp_all
  have fit: "?nd + ?f \<le> gs_points (ix_graph ix)" "?m + ?f \<le> gs_points (ix_graph ix)" "ix_total ix \<le> gs_points (ix_graph ix)"
      "gs_points (ix_graph ix) \<le> ds_capacity (ix_data ix)" "?nd \<noteq> ?m" using P(5,8) tot cap by simp_all
  have emp: "?L i = []" if "?m \<le> i" "i < ?m + ?f" "\<not> (?nd \<le> i \<and> i < ?nd + ?f)" for i
    using P(18) [of i] that P(5) tot by simp
  obtain g d where r: "reposition_points cfg ?nd ?m ?f ix = Inr (ix\<lparr>ix_graph := g, ix_data := d\<rparr>)" "gs_points g = gs_points (ix_graph ix)"
      "lists_of g = block_moved ?nd ?m 0 ?f (\<lambda>i. if i < ix_total ix then map (shift_location ?nd ?m ?f) (?L i) else ?L i)"
      "ds_inv d" "ds_capacity d = ds_capacity (ix_data ix)" "ds_dim d = ds_dim (ix_data ix)"
      "\<forall>r < ds_capacity (ix_data ix). \<not> (?nd \<le> r \<and> r < ?nd + ?f) \<or> (?m \<le> r \<and> r < ?m + ?f) \<longrightarrow>
          ds_row d r = (if ?m \<le> r \<and> r < ?m + ?f then ds_row (ix_data ix) (?nd + (r - ?m)) else ds_row (ix_data ix) r)"
    using reposition_points_ok [OF P(1) cap(2) P(7) fit emp, of cfg] by blast
  define ix' where "ix' = ix\<lparr>ix_graph := g, ix_data := d, ix_start := ?m\<rparr>"
  have F: "ix_graph ix' = g" "ix_data ix' = d" "ix_start ix' = ?m" "ix_l2t ix' = ix_l2t ix" "ix_t2l ix' = ix_t2l ix" "ix_deleted ix' = {}"
      "ix_empty ix' = ix_empty ix" "ix_nd ix' = ?nd" "ix_max_points ix' = ?m" "ix_num_frozen ix' = ?f" "ix_filtered ix' = ix_filtered ix"
      "ix_total ix' = ix_total ix" "live ix' = {..<?nd}" using P(3,11) by (simp_all add: ix'_def ix_total_def live_def)
  have us: "used ix' = {..<?nd} \<union> {?m..<ix_total ix}" by (simp add: used_def F)
  have e: "u32 ?nd = ?nd" "u32 ?m = ?m" "u32 ?f = ?f" using small P(5) by simp_all
  have rep: "reposition_frozen_point_to_end cfg ix = Inr ix'"
    using P(1,2,5) r(1) e by (simp add: reposition_frozen_point_to_end_def shift_label_starts_def ix'_def)
  have L: "lists_of g i = lifted ?nd ?m ?f ?L i" if "i < ix_total ix" for i
    using that P(5,18) tot unfolding r(3) lifted_def block_moved_def by auto
  have tl: "i < ?nd" if "ix_t2l ix t = Some i" for t i
    using inverse_live [OF P(9,10)] P(11) that by (auto simp: ran_def)
  have "tag_vectors ix' = tag_vectors ix"
  proof (rule same_rows_vectors)
    fix t i assume "ix_t2l ix t = Some i"
    then show "i < ds_capacity (ix_data ix) \<and> i < ds_capacity (ix_data ix') \<and> ds_row (ix_data ix') i = ds_row (ix_data ix) i"
      using tl [of t i] r(5,7) P(5) cap(1) tot by (simp add: F)
  qed (use F r(4,6) cap in simp_all)
  moreover have "book_inv ix'"
    unfolding book_inv_def F using P(9,10,12,13,14,15) P(5) small by auto
  moreover have "graph_wf (used ix') (list_bound (ic_R cfg)) g"
  proof (rule graph_wfI)
    fix i ms assume i: "i < gs_points g" "get_neighbours g i = Inr ms"
    have it: "i < ix_total ix" using i(1) r(2) P(8) by simp
    have ms: "ms = lifted ?nd ?m ?f ?L i" using i L [OF it] get_lists_of [OF i(1)] by simp
    have sh: "set (map (shift_location ?nd ?m ?f) (?L j)) \<subseteq> used ix' \<and> length (?L j) \<le> list_bound (ic_R cfg)" if "j < ?nd + ?f" for j
      using P(16,17) [OF that] P(5) tot unfolding us by (auto simp: shift_location_eq [OF small])
    have "set ms \<subseteq> used ix' \<and> length ms \<le> list_bound (ic_R cfg)"
    proof (cases "?m \<le> i \<and> i < ?m + ?f")
      case True
      then have "?nd + (i - ?m) < ?nd + ?f" by linarith
      then show ?thesis using sh [of i] sh [of "?nd + (i - ?m)"] True by (simp only: ms lifted_def length_map if_True split: if_splits) simp
    next
      case False
      then show ?thesis using sh [of i] by (auto simp: ms lifted_def)
    qed
    moreover have "used ix' \<subseteq> {..<gs_points g}" unfolding us r(2) P(8) using P(5) tot by auto
    ultimately show "list_ok (used ix') (list_bound (ic_R cfg)) (gs_points g) i ms" by (auto simp: list_ok_def)
  qed
  ultimately show ?thesis
    using rep us L P(1,2,8) r(2,4,5) cap(1) by (intro exI [of _ ix']) (simp add: dyn_inv_def rows_ok_def F)
qed


text \<open>The frozen points moved down after a compaction.\<close>

lemma frozen_packed:
  assumes inv: "dyn_inv cfg ix" and st: "ix_deleted ix = {}" "live ix = {..<ix_nd ix}" "ix_nd ix < ix_max_points ix"
    and cap: "ds_capacity (ix_data ix) < 2 ^ 32"
    and emp: "\<And>i. ix_nd ix \<le> i \<Longrightarrow> i < ix_max_points ix \<Longrightarrow> lists_of (ix_graph ix) i = []"
  shows "\<exists>ix'. compact_frozen_point cfg ix = Inr ix' \<and> packed cfg ix' \<and> tag_vectors ix' = tag_vectors ix
     \<and> ix_nd ix' = ix_nd ix \<and> ix_max_points ix' = ix_max_points ix \<and> ix_num_frozen ix' = ix_num_frozen ix
     \<and> ix_t2l ix' = ix_t2l ix \<and> ds_dim (ix_data ix') = ds_dim (ix_data ix)
     \<and> ds_aligned_dim (ix_data ix') = ds_aligned_dim (ix_data ix)"
proof -
  note I = dyn_invD [OF inv] and B = book_invD [OF dyn_invD(1) [OF inv]]
  let ?nd = "ix_nd ix" and ?m = "ix_max_points ix" and ?f = "ix_num_frozen ix" and ?L = "lists_of (ix_graph ix)"
  have tot: "ix_total ix = ?m + ?f" by (simp add: ix_total_def)
  have dc: "ix_total ix \<le> ds_capacity (ix_data ix)" "ds_inv (ix_data ix)" using I(2) by (simp_all add: rows_ok_def)
  have small: "?m + ?f < 2 ^ 32" "?nd + ?f < 2 ^ 32" using tot dc cap st(3) by simp_all
  have fit: "?m + ?f \<le> gs_points (ix_graph ix)" "?nd + ?f \<le> gs_points (ix_graph ix)" "ix_total ix \<le> gs_points (ix_graph ix)"
      "gs_points (ix_graph ix) \<le> ds_capacity (ix_data ix)" "?m \<noteq> ?nd" using st(3) I(3) tot dc by simp_all
  have e0: "?L i = []" if "?nd \<le> i" "i < ?nd + ?f" "\<not> (?m \<le> i \<and> i < ?m + ?f)" for i
    using emp [of i] that st(3) by simp
  obtain g d where r: "reposition_points cfg ?m ?nd ?f ix = Inr (ix\<lparr>ix_graph := g, ix_data := d\<rparr>)" "gs_points g = gs_points (ix_graph ix)"
      "lists_of g = block_moved ?m ?nd 0 ?f (\<lambda>i. if i < ix_total ix then map (shift_location ?m ?nd ?f) (?L i) else ?L i)"
      "ds_inv d" "ds_capacity d = ds_capacity (ix_data ix)" "ds_dim d = ds_dim (ix_data ix)" "ds_aligned_dim d = ds_aligned_dim (ix_data ix)"
      "\<forall>r < ds_capacity (ix_data ix). \<not> (?m \<le> r \<and> r < ?m + ?f) \<or> (?nd \<le> r \<and> r < ?nd + ?f) \<longrightarrow>
          ds_row d r = (if ?nd \<le> r \<and> r < ?nd + ?f then ds_row (ix_data ix) (?m + (r - ?nd)) else ds_row (ix_data ix) r)"
    using reposition_points_ok [OF I(4) dc(2) cap fit e0, of cfg] by blast
  define ix' where "ix' = ix\<lparr>ix_graph := g, ix_data := d, ix_start := ?nd\<rparr>"
  have F: "ix_graph ix' = g" "ix_data ix' = d" "ix_start ix' = ?nd" "ix_l2t ix' = ix_l2t ix" "ix_t2l ix' = ix_t2l ix" "ix_deleted ix' = {}"
      "ix_empty ix' = ix_empty ix" "ix_nd ix' = ?nd" "ix_max_points ix' = ?m" "ix_num_frozen ix' = ?f" "ix_filtered ix' = ix_filtered ix"
      "ix_total ix' = ix_total ix" "live ix' = {..<?nd}" using st(1,2) by (simp_all add: ix'_def ix_total_def live_def)
  have e: "u32 ?nd = ?nd" "u32 ?m = ?m" "u32 ?f = ?f" using small st(3) by simp_all
  have run: "compact_frozen_point cfg ix = Inr ix'"
    using I(4,5) st(3) r(1) e by (simp add: compact_frozen_point_def shift_label_starts_def ix'_def)
  have us: "used ix = {..<?nd} \<union> {?m..<ix_total ix}" using st by (simp add: used_def)
  have src: "set (?L j) \<subseteq> used ix \<and> length (?L j) \<le> list_bound (ic_R cfg)" if "j \<in> used ix" for j
  proof -
    have "j < gs_points (ix_graph ix)" using that used_bound(1) [OF I(1)] I(3) by auto
    then show ?thesis using graph_wf_nth [OF I(7), of j] get_lists_of [of j "ix_graph ix"] that by (auto simp: list_ok_def)
  qed
  have sh: "set (map (shift_location ?m ?nd ?f) (?L j)) \<subseteq> {..<?nd + ?f} \<and> length (?L j) \<le> list_bound (ic_R cfg)" if "j \<in> used ix" for j
    using src [OF that] st(3) tot unfolding us by (auto simp: shift_location_eq [OF small])
  have low: "set (lists_of g i) \<subseteq> {..<?nd + ?f} \<and> length (lists_of g i) \<le> list_bound (ic_R cfg)" if i: "i < ?nd + ?f" for i
  proof (cases "?nd \<le> i")
    case True
    then have "?m + (i - ?nd) \<in> used ix" "?m + (i - ?nd) < ix_total ix" using i st(3) unfolding us tot by auto
    moreover have "lists_of g i = map (shift_location ?m ?nd ?f) (?L (?m + (i - ?nd)))"
      using True i calculation(2) unfolding r(3) block_moved_def by simp
    ultimately show ?thesis using sh by simp
  next
    case False
    then have "i \<in> used ix" "lists_of g i = map (shift_location ?m ?nd ?f) (?L i)"
      using st(3) unfolding us r(3) block_moved_def tot by auto
    then show ?thesis using sh [of i] by simp
  qed
  have high: "lists_of g i = []" if "?nd + ?f \<le> i" "i < ix_total ix" for i
    using that emp [of i] st(3) tot unfolding r(3) block_moved_def by auto
  have el: "nns_elems (ix_empty ix) = {?nd..<?m}"
  proof -
    have "{..<?nd} \<union> nns_elems (ix_empty ix) = {..<?m}" "{..<?nd} \<inter> nns_elems (ix_empty ix) = {}"
      using B(4,6) unfolding st(1,2) by simp_all
    then have "nns_elems (ix_empty ix) = {..<?m} - {..<?nd}" by blast
    also have "\<dots> = {?nd..<?m}" by auto
    finally show ?thesis .
  qed
  have "tag_vectors ix' = tag_vectors ix"
  proof (rule same_rows_vectors)
    fix t i assume "ix_t2l ix t = Some i"
    then have "i < ?nd" using tag_location(1) [OF I(1)] st(2) by auto
    then show "i < ds_capacity (ix_data ix) \<and> i < ds_capacity (ix_data ix') \<and> ds_row (ix_data ix') i = ds_row (ix_data ix) i"
      using r(5,8) st(3) dc(1) tot by (simp add: F)
  qed (use F r(4,6) dc in simp_all)
  moreover have "packed cfg ix'"
    unfolding packed_def F rows_ok_def using I(3-5) st(3) r(2,4,5) dc(1) cap B(1-3,8,10) el low high by auto
  ultimately show ?thesis using run r(6,7) by (intro exI [of _ ix']) (simp add: F)
qed

lemma compact_packed:
  fixes cfg :: "'a::zero index_config"
  assumes cfg: "ic_dynamic cfg" "order_ok (ic_order cfg)" and inv: "dyn_inv cfg ix" and st: "ix_deleted ix = {}" "\<not> ix_data_compacted ix"
    "ix_nd ix < ix_max_points ix" "ds_capacity (ix_data ix) < 2 ^ 32"
  shows "\<exists>ix'. bindR (compact_data cfg ix) (compact_frozen_point cfg) = Inr ix' \<and> packed cfg ix' \<and> tag_vectors ix' = tag_vectors ix
     \<and> ix_nd ix' = ix_nd ix \<and> ix_max_points ix' = ix_max_points ix \<and> ix_num_frozen ix' = ix_num_frozen ix
     \<and> dom (ix_t2l ix') = dom (ix_t2l ix) \<and> ds_dim (ix_data ix') = ds_dim (ix_data ix)
     \<and> ds_aligned_dim (ix_data ix') = ds_aligned_dim (ix_data ix)"
proof -
  obtain ix1 where 1: "compact_data cfg ix = Inr ix1" "compacted ix ix1" "tag_vectors ix1 = tag_vectors ix" "dyn_inv cfg ix1"
    using compact_data_dyn [OF cfg inv st(1,2)] st(3) by blast
  have d: "ds_capacity (ix_data ix1) = ds_capacity (ix_data ix)" "ds_dim (ix_data ix1) = ds_dim (ix_data ix)"
      "ds_aligned_dim (ix_data ix1) = ds_aligned_dim (ix_data ix)"
    using compact_data_ok [OF cfg inv st(1,2)] unfolding 1(1) by (elim exE conjE; simp)+
  have t: "dom (ix_t2l ix1) = dom (ix_t2l ix)"
    using get_vector_by_tag_eq(2) [OF inv] get_vector_by_tag_eq(2) [OF 1(4)] 1(3) by simp
  have C: "live ix1 = {..<ix_nd ix}" "ix_deleted ix1 = {}" "ix_nd ix1 = ix_nd ix" "ix_max_points ix1 = ix_max_points ix"
      "ix_num_frozen ix1 = ix_num_frozen ix" "\<And>i. ix_nd ix \<le> i \<Longrightarrow> i < ix_max_points ix \<Longrightarrow> get_neighbours (ix_graph ix1) i = Inr []"
    using 1(2) unfolding compacted_def by blast+
  have e: "lists_of (ix_graph ix1) i = []" if "ix_nd ix1 \<le> i" "i < ix_max_points ix1" for i
    using C(6) [of i] that C(3,4) get_lists_of [of i "ix_graph ix1"] dyn_invD(3) [OF 1(4)] by (simp add: ix_total_def)
  have s: "live ix1 = {..<ix_nd ix1}" "ix_nd ix1 < ix_max_points ix1" "ds_capacity (ix_data ix1) < 2 ^ 32"
    using C(1,3,4) st(3,4) d(1) by simp_all
  obtain ix2 where 2: "compact_frozen_point cfg ix1 = Inr ix2" "packed cfg ix2" "tag_vectors ix2 = tag_vectors ix1"
      "ix_nd ix2 = ix_nd ix1" "ix_max_points ix2 = ix_max_points ix1" "ix_num_frozen ix2 = ix_num_frozen ix1" "ix_t2l ix2 = ix_t2l ix1"
      "ds_dim (ix_data ix2) = ds_dim (ix_data ix1)" "ds_aligned_dim (ix_data ix2) = ds_aligned_dim (ix_data ix1)"
    using frozen_packed [OF 1(4) C(2) s e] by blast
  show ?thesis using 2 1(1,3) C(3-5) d(2,3) t by (intro exI [of _ ix2]) simp
qed


section \<open>The files of a packed index\<close>

lemma list_bound_small:
  assumes "1 \<le> r" "r < 2 ^ 24"
  shows "list_bound r < 2 ^ 29"
proof -
  let ?r = "of_nat r :: rat"
  have r1: "1 \<le> ?r" using assms(1) by simp
  have "?r < of_nat (2 ^ 24)" using assms(2) by (simp only: of_nat_less_iff)
  then have r24: "?r < 2 powi 24" by simp
  have rf: "round_fl F32 ?r = Fin ?r" by (rule round_fl_of_nat) (use r24 in simp)
  obtain g where g: "round_fl F32 (13 / 10) = Fin g" "1 \<le> g" "g \<le> 2"
    using round_fl_between [of 0 "13 / 10" 1 F32] by (auto simp: emin_def)
  have gr: "1 \<le> g * ?r" using mult_mono [OF g(2) r1] g(2) by simp
  have "g * ?r \<le> 2 * 2 powi 24" using g(2,3) r24 r1 by (intro mult_mono) auto
  also have "2 * 2 powi 24 = (2::rat) powi 25" by simp
  finally obtain y where y: "round_fl F32 (g * ?r) = Fin y" "y \<le> 2 powi 25"
    using round_fl_between [of 0 "g * ?r" 25 F32] gr by (auto simp: emin_def)
  have "slack_size r = nat \<lfloor>y\<rfloor>" by (simp add: slack_size_def GRAPH_SLACK_FACTOR_def f32_def g(1) rf y)
  also have "\<dots> \<le> 2 ^ 25"
  proof -
    have "\<lfloor>y\<rfloor> \<le> \<lfloor>(2::rat) powi 25\<rfloor>" using y(2) by (rule floor_mono)
    also have "\<lfloor>(2::rat) powi 25\<rfloor> = 2 ^ 25" by simp
    finally show ?thesis unfolding nat_le_iff by simp
  qed
  finally show ?thesis using assms(2) by (simp add: list_bound_def)
qed

lemma graph_bytes_bound: "(\<forall>ns \<in> set gr. length ns \<le> b) \<Longrightarrow> length (graph_bytes gr) \<le> length gr * (4 * (b + 1))"
  by (induction gr) (auto simp: algebra_simps intro: add_mono)

definition packed_tags :: "'a index \<Rightarrow> nat list" where
  "packed_tags ix = map (\<lambda>i. the (nnm_try_get (ix_l2t ix) i)) [0..<ix_nd ix] @ replicate (ix_num_frozen ix) 0"

definition packed_graph :: "'a index \<Rightarrow> nat list list" where
  "packed_graph ix = map (lists_of (ix_graph ix)) [0..<ix_nd ix + ix_num_frozen ix]"

lemma packed_small:
  assumes "packed cfg ix" "ix_total ix < 2 ^ 31"
  shows "ix_nd ix + ix_num_frozen ix < 2 ^ 31" "ix_nd ix + ix_num_frozen ix \<le> gs_points (ix_graph ix)"
    "ix_nd ix + ix_num_frozen ix \<le> ds_capacity (ix_data ix)" "ix_nd ix + ix_num_frozen ix \<le> ix_total ix"
  using packedD(5,6,8) [OF assms(1)] assms(2) by (simp_all add: ix_total_def rows_ok_def)

lemma packed_graph_fits:
  assumes p: "packed cfg ix" and s: "ix_total ix < 2 ^ 31" "list_bound (ic_R cfg) < 2 ^ 29"
  shows "fits_file (packed_graph ix)" "packed_graph ix = take (ix_nd ix + ix_num_frozen ix) (gs_graph (ix_graph ix))"
proof -
  note P = packedD [OF p] and n = packed_small [OF p s(1)]
  let ?n = "ix_nd ix + ix_num_frozen ix"
  have in_set: "\<exists>i < ?n. ns = lists_of (ix_graph ix) i" if "ns \<in> set (packed_graph ix)" for ns
    using that by (auto simp: packed_graph_def)
  have el: "length ns \<le> list_bound (ic_R cfg) \<and> set ns \<subseteq> {..<?n}" if "ns \<in> set (packed_graph ix)" for ns
    using in_set [OF that] P(16,17) by blast
  have "length (graph_bytes (packed_graph ix)) \<le> length (packed_graph ix) * (4 * (list_bound (ic_R cfg) + 1))"
    using el by (intro graph_bytes_bound) blast
  also have "\<dots> \<le> 2 ^ 31 * (4 * 2 ^ 29)" using n(1) s(2) by (intro mult_le_mono) (simp_all add: packed_graph_def)
  finally have "graph_file_size (packed_graph ix) < 2 ^ 64" by (simp add: graph_file_size_def)
  moreover have "length ns < 2 ^ 32 - 1 \<and> (\<forall>x \<in> set ns. x < 2 ^ 32)" if "ns \<in> set (packed_graph ix)" for ns
    using el [OF that] s(2) n(1) by fastforce
  ultimately show "fits_file (packed_graph ix)" by (simp add: fits_file_def)
  show "packed_graph ix = take ?n (gs_graph (ix_graph ix))"
    using n(2) by (intro nth_equalityI) (simp_all add: packed_graph_def lists_of_def gs_points_def)
qed

lemma packed_files:
  assumes p: "packed cfg ix" and s: "ix_total ix < 2 ^ 31" "list_bound (ic_R cfg) < 2 ^ 29" and t: "ic_enable_tags cfg"
    and c: "codec_on TagT (insert 0 (dom (ix_t2l ix)))"
  shows "save_graph_file ix = Inr (graph_header (graph_file_size (packed_graph ix)) (max_degree (packed_graph ix)) (ix_nd ix) (ix_num_frozen ix)
       @ graph_bytes (packed_graph ix))"
    and "save_tags cfg TagT ix = Inr (Some (bin_header (ix_nd ix + ix_num_frozen ix) 1 @ elems_bytes TagT (packed_tags ix)))"
    and "codec_on TagT (set (packed_tags ix))"
proof -
  note P = packedD [OF p] and n = packed_small [OF p s(1)] and g = packed_graph_fits [OF p s]
  let ?n = "ix_nd ix + ix_num_frozen ix"
  show "save_graph_file ix = Inr (graph_header (graph_file_size (packed_graph ix)) (max_degree (packed_graph ix)) (ix_nd ix) (ix_num_frozen ix)
       @ graph_bytes (packed_graph ix))"
    using save_graph_file [of ?n "ix_graph ix" "ix_num_frozen ix" "ix_nd ix"] n(2) g(1) P(4) unfolding g(2)
    by (simp add: save_graph_file_def gs_points_def)
  have dom: "nnm_try_get (ix_l2t ix) i = Some (the (nnm_try_get (ix_l2t ix) i))" if "i < ix_nd ix" for i
  proof -
    have "i \<in> dom (nnm_try_get (ix_l2t ix))" using that P(11) by (simp add: live_def)
    then show ?thesis by auto
  qed
  have "(case nnm_try_get (ix_l2t ix) i of Some t \<Rightarrow> t | None \<Rightarrow> 0) = the (nnm_try_get (ix_l2t ix) i)" if "i < ix_nd ix" for i
    using dom [OF that] by (metis option.simps(5))
  then have "map (\<lambda>i. case nnm_try_get (ix_l2t ix) i of Some t \<Rightarrow> t | None \<Rightarrow> 0) [0..<ix_nd ix]
      = map (\<lambda>i. the (nnm_try_get (ix_l2t ix) i)) [0..<ix_nd ix]"
    by simp
  then have td: "tag_data ix = Inr (packed_tags ix)" using P(2,4) by (simp add: tag_data_def packed_tags_def mem_put_def)
  have "the (nnm_try_get (ix_l2t ix) i) \<in> dom (ix_t2l ix)" if "i < ix_nd ix" for i
    using dom [OF that] P(10) by (auto simp: nnm_map.inverse_of_def)
  then have "(\<lambda>i. the (nnm_try_get (ix_l2t ix) i)) ` {..<ix_nd ix} \<subseteq> dom (ix_t2l ix)" by blast
  moreover have "set (packed_tags ix) \<subseteq> (\<lambda>i. the (nnm_try_get (ix_l2t ix) i)) ` {..<ix_nd ix} \<union> {0}" by (auto simp: packed_tags_def)
  ultimately have "set (packed_tags ix) \<subseteq> insert 0 (dom (ix_t2l ix))" by blast
  then show co: "codec_on TagT (set (packed_tags ix))" using c by (auto simp: codec_on_def)
  have "?n < 2 ^ 32" "length (packed_tags ix) = ?n * 1" using n(1) by (simp_all add: packed_tags_def)
  then show "save_tags cfg TagT ix = Inr (Some (bin_header ?n 1 @ elems_bytes TagT (packed_tags ix)))"
    using load_saved_bin(1) [OF co, of ?n 1] t td by (auto simp: save_tags_def)
qed


section \<open>Loading them\<close>

lemma load_tags_run:
  assumes src: "nnm_map.inverse_of src back" "dom (nnm_try_get src) = {..<n}"
    and ix: "ix_deleted ix = {}" "ix_l2t ix = nnm_empty" "ix_t2l ix = Map.empty"
    and tags: "n \<le> length tags" "\<And>i. i < n \<Longrightarrow> tags ! i = the (nnm_try_get src i)"
  shows "\<exists>l t. foldR (load_tag tags) [0..<n] ix = Inr (ix\<lparr>ix_l2t := l, ix_t2l := t\<rparr>) \<and> nnm_inv l \<and> nnm_map.inverse_of l t
     \<and> nnm_try_get l = nnm_try_get src \<and> t = back"
proof -
  have run: "k \<le> n \<Longrightarrow> \<exists>l t. foldR (load_tag tags) [0..<k] ix = Inr (ix\<lparr>ix_l2t := l, ix_t2l := t\<rparr>) \<and> nnm_inv l \<and> nnm_map.inverse_of l t
     \<and> nnm_try_get l = nnm_try_get src |` {..<k}" for k
  proof (induction k)
    case 0
    have "nnm_try_get (nnm_empty :: nat nnm) = Map.empty" by (auto simp: nnm_try_get_def nnm_contains_def nnm_empty_def)
    then show ?case using ix
      by (intro exI [of _ nnm_empty] exI [of _ Map.empty]) (simp add: nnm_map.inverse_of_def)
  next
    case (Suc k)
    then obtain l t where l: "foldR (load_tag tags) [0..<k] ix = Inr (ix\<lparr>ix_l2t := l, ix_t2l := t\<rparr>)" "nnm_inv l" "nnm_map.inverse_of l t"
        "nnm_try_get l = nnm_try_get src |` {..<k}" by auto
    have kn: "k < n" using Suc.prems by simp
    then have "k \<in> dom (nnm_try_get src)" using src(2) by simp
    then obtain v where v: "nnm_try_get src k = Some v" by blast
    have tv: "tags ! k = v" using tags(2) [OF kn] v by simp
    have nk: "nnm_try_get l k = None" using l(4) by simp
    have "t v = None"
    proof (rule ccontr)
      assume "t v \<noteq> None"
      then obtain j where "t v = Some j" by blast
      then have lj: "nnm_try_get l j = Some v" using l(3) by (simp add: nnm_map.inverse_of_def)
      have "j < k" "nnm_try_get src j = Some v" using lj unfolding l(4) by (auto simp: restrict_map_def split: if_splits)
      then have "back v = Some j" "back v = Some k" using src(1) v by (simp_all add: nnm_map.inverse_of_def)
      then show False using \<open>j < k\<close> by simp
    qed
    note i = nnm_map.inverse_upd [OF l(2,3) nk this]
    have e: "nnm_try_get (nnm_set l k v) = nnm_try_get src |` {..<Suc k}"
      unfolding nnm_map.look_upd [OF l(2)] l(4) using v by (auto simp: restrict_map_def fun_eq_iff less_Suc_eq)
    have "load_tag tags k (ix\<lparr>ix_l2t := l, ix_t2l := t\<rparr>) = Inr (ix\<lparr>ix_l2t := nnm_set l k v, ix_t2l := t(v \<mapsto> k)\<rparr>)"
      using tags(1) kn tv ix(1) by (simp add: load_tag_def)
    then have "foldR (load_tag tags) [0..<Suc k] ix = Inr (ix\<lparr>ix_l2t := nnm_set l k v, ix_t2l := t(v \<mapsto> k)\<rparr>)"
      using l(1) by (simp add: foldR_append)
    then show ?case using i e nnm_map.inv_upd [OF l(2)] by blast
  qed
  obtain l t where l: "foldR (load_tag tags) [0..<n] ix = Inr (ix\<lparr>ix_l2t := l, ix_t2l := t\<rparr>)" "nnm_inv l" "nnm_map.inverse_of l t"
     "nnm_try_get l = nnm_try_get src |` {..<n}" using run [OF order_refl] by blast
  have e: "nnm_try_get l = nnm_try_get src" unfolding l(4) src(2) [symmetric] by (auto simp: restrict_map_def fun_eq_iff domIff)
  have "t v = Some j \<longleftrightarrow> back v = Some j" for v j using l(3) src(1) e by (simp add: nnm_map.inverse_of_def)
  then have "t = back" by (metis ext option.exhaust)
  then show ?thesis using l(1-3) e by blast
qed


text \<open>A fresh index able to take the points, as the constructor leaves it.\<close>

definition loadable :: "'a index \<Rightarrow> ('a::zero) index \<Rightarrow> bool" where
  "loadable ix ix0 \<longleftrightarrow> \<not> ix_filtered ix0 \<and> ix_num_frozen ix0 = ix_num_frozen ix \<and> ix_deleted ix0 = {} \<and> ix_l2t ix0 = nnm_empty
     \<and> ix_t2l ix0 = Map.empty \<and> ix_graph ix0 = gs_make (ix_total ix0) \<and> rows_ok ix0 \<and> ds_capacity (ix_data ix0) < 2 ^ 32
     \<and> ds_dim (ix_data ix0) = ds_dim (ix_data ix) \<and> ds_aligned_dim (ix_data ix0) = ds_aligned_dim (ix_data ix)
     \<and> ix_nd ix < ix_max_points ix0"

lemma load_packed:
  assumes p: "packed cfg ix" and s: "ix_total ix < 2 ^ 31" "list_bound (ic_R cfg) < 2 ^ 29" and t: "ic_enable_tags cfg"
    and c: "codec_on TagT (insert 0 (dom (ix_t2l ix)))" "codec_ok T" and dim: "ds_dim (ix_data ix) < 2 ^ 31"
    and f: "save_graph_file ix = Inr gb" "save_data T ix = Inr db" "save_tags cfg TagT ix = Inr tb"
      "if_graph files = Some gb" "if_data files = Some db" "if_tags files = tb" "if_del files = None" "if_labels files = None"
    and ix0: "loadable ix ix0"
  shows "\<exists>jx. load_index cfg T TagT w files ix0 = reposition_frozen_point_to_end cfg jx \<and> packed cfg jx \<and> tag_vectors jx = tag_vectors ix
     \<and> ix_nd jx = ix_nd ix \<and> ix_max_points jx = ix_max_points ix0 \<and> ix_num_frozen jx = ix_num_frozen ix
     \<and> (\<forall>i < ix_nd ix + ix_num_frozen ix. lists_of (ix_graph jx) i = lists_of (ix_graph ix) i)"
proof -
  note P = packedD [OF p] and n = packed_small [OF p s(1)] and g = packed_graph_fits [OF p s]
    and pf = packed_files [OF p s t c(1)]
  let ?n = "ix_nd ix + ix_num_frozen ix" and ?gr = "packed_graph ix"
  have L: "\<not> ix_filtered ix0" "ix_num_frozen ix0 = ix_num_frozen ix" "ix_deleted ix0 = {}" "ix_l2t ix0 = nnm_empty"
      "ix_t2l ix0 = Map.empty" "ix_graph ix0 = gs_make (ix_total ix0)" "ds_inv (ix_data ix0)" "ix_total ix0 \<le> ds_capacity (ix_data ix0)"
      "ds_capacity (ix_data ix0) < 2 ^ 32" "ds_dim (ix_data ix0) = ds_dim (ix_data ix)"
      "ds_aligned_dim (ix_data ix0) = ds_aligned_dim (ix_data ix)" "ix_nd ix < ix_max_points ix0"
    using ix0 by (simp_all add: loadable_def rows_ok_def)
  have tot0: "?n < ix_total ix0" "ix_total ix0 = ix_max_points ix0 + ix_num_frozen ix" using L(2,12) by (simp_all add: ix_total_def)
  have m0: "ix_max_points ix0 < 2 ^ 32" using tot0 L(8,9) by linarith
  have dsi: "ds_inv (ix_data ix)" using P(6) by (simp add: rows_ok_def)
  obtain fb sz d where d: "ds_save T [] ?n (ix_data ix) = Inr (fb, sz)" "ds_load T (Some fb) (ix_data ix0) = Inr (?n, d)" "ds_inv d"
      "ds_capacity d = max ?n (ds_capacity (ix_data ix0))" "ds_dim d = ds_dim (ix_data ix0)"
      "get_bin_metadata fb 0 = Inr (?n, ds_dim (ix_data ix))" "\<forall>i < ?n. ds_get_vector d i = ds_get_vector (ix_data ix) i"
    using store_save_load_library [OF c(2) dsi L(7,10,11) n(3,1) dim] by blast
  have db: "db = fb" using f(2) d(1) n(1) by (simp add: save_data_def)
  have capd: "ds_capacity d = ds_capacity (ix_data ix0)" using d(4) tot0 L(8) by simp
  define ix1 where "ix1 = ix0\<lparr>ix_has_built := True, ix_empty := nns_clear (ix_empty ix0), ix_data := d\<rparr>"
  have 1: "load_data cfg T (if_data files) (ix0\<lparr>ix_has_built := True\<rparr>) = Inr (?n, ix1)"
    using d(2,6) f(5) db L(2,10) tot0 by (simp add: load_data_def ix1_def)
  have i1: "ix_deleted ix1 = {}" "ix_l2t ix1 = nnm_empty" "ix_t2l ix1 = Map.empty" using L(3-5) by (simp_all add: ix1_def)
  have dl: "dom (nnm_try_get (ix_l2t ix)) = {..<ix_nd ix}" using P(11) by (simp add: live_def)
  have tg: "ix_nd ix \<le> length (packed_tags ix)" "\<And>i. i < ix_nd ix \<Longrightarrow> packed_tags ix ! i = the (nnm_try_get (ix_l2t ix) i)"
    by (simp_all add: packed_tags_def nth_append)
  obtain l where l: "foldR (load_tag (packed_tags ix)) [0..<ix_nd ix] ix1 = Inr (ix1\<lparr>ix_l2t := l, ix_t2l := ix_t2l ix\<rparr>)" "nnm_inv l"
     "nnm_map.inverse_of l (ix_t2l ix)" "nnm_try_get l = nnm_try_get (ix_l2t ix)"
    using load_tags_run [OF P(10) dl i1 tg] by blast
  define ix3 where "ix3 = ix1\<lparr>ix_l2t := l, ix_t2l := ix_t2l ix\<rparr>"
  have lt: "length (packed_tags ix) = ?n * 1" "?n < 2 ^ 32" using n(1) by (simp_all add: packed_tags_def)
  have "load_bin TagT (bin_header ?n 1 @ elems_bytes TagT (packed_tags ix)) 0 = Inr (packed_tags ix, ?n, 1)"
    using load_saved_bin(2) [OF pf(3) lt] by simp
  moreover have "u32_sub ?n (ix_num_frozen ix1) = ix_nd ix" using n(1) L(2) by (simp add: u32_sub_def ix1_def)
  ultimately have 3: "load_tags cfg TagT (if_tags files) ix1 = Inr (?n, ix3)"
    using t f(3,6) pf(2) l(1) by (auto simp: load_tags_def ix3_def)
  have gp: "gs_total_points (ix_graph ix0) = ix_total ix0" "gs_graph (ix_graph ix0) = replicate (ix_total ix0) []"
    unfolding L(6) by (simp_all add: gs_make_def resize_graph_def vec_resize_def)
  have md: "max_degree ?gr < 2 ^ 32"
    by (rule max_degree_bound) (use g(1) in \<open>auto simp: fits_file_def\<close>)
  have lgr: "length ?gr = ?n" by (simp add: packed_graph_def)
  have small: "ix_nd ix < 2 ^ 32" "ix_num_frozen ix < 2 ^ 64" using n(1) by simp_all
  have ex: "length ?gr \<le> ?n \<or> length ?gr \<le> length (gs_graph (ix_graph ix0))" "gs_total_points (ix_graph ix0) = length (gs_graph (ix_graph ix0))"
    using lgr gp by simp_all
  obtain g' where g': "load_graph_file gb ?n (ix_graph ix0) = Inr ((?n, ix_nd ix, ix_num_frozen ix), g')"
      "gs_graph g' = ?gr @ drop ?n (replicate (ix_total ix0) [])"
    using load_graph_bytes [OF g(1) small md ex] pf(1) f(1) tot0(1) gp unfolding lgr by auto
  define ix4 where "ix4 = ix3\<lparr>ix_graph := g', ix_start := ix_nd ix, ix_num_frozen := ix_num_frozen ix\<rparr>"
  have 4: "load_graph_into (if_graph files) ?n ix3 = Inr (?n, ix4)"
    using g'(1) f(4) by (simp add: load_graph_into_def ix4_def ix3_def ix1_def)
  define jx where "jx = ix4\<lparr>ix_nd := ix_nd ix, ix_empty := foldl nns_insert (nns_clear (ix_empty ix4)) (map u32 [ix_nd ix..<ix_max_points ix4])\<rparr>"
  have nd: "(?n + 2 ^ 64 - ix_num_frozen ix) mod 2 ^ 64 = ix_nd ix" using small by simp
  have load: "load_index cfg T TagT w files ix0 = reposition_frozen_point_to_end cfg jx"
    using 1 3 4 f(7,8) nd by (simp add: load_index_def load_labels_def jx_def ix4_def Let_def)
  have F: "ix_graph jx = g'" "ix_data jx = d" "ix_start jx = ix_nd ix" "ix_l2t jx = l" "ix_t2l jx = ix_t2l ix" "ix_deleted jx = {}"
      "ix_nd jx = ix_nd ix" "ix_max_points jx = ix_max_points ix0" "ix_num_frozen jx = ix_num_frozen ix" "ix_filtered jx = ix_filtered ix0"
      "ix_total jx = ix_total ix0" "live jx = live ix"
      "ix_empty jx = foldl nns_insert (nns_clear (ix_empty ix4)) (map u32 [ix_nd ix..<ix_max_points ix0])"
    using L(2,3) l(4) by (simp_all add: jx_def ix4_def ix3_def ix1_def ix_total_def live_def)
  have le: "ix_nd ix \<le> ix_max_points ix0" using L(12) by simp
  note S = insert_slots [OF le m0, of "ix_empty ix4", folded F(13)]
  have gl: "gs_points g' = ix_total ix0" using g'(2) tot0 lgr by (simp add: gs_points_def)
  have lists: "lists_of g' i = (if i < ?n then lists_of (ix_graph ix) i else [])" if "i < ix_total ix0" for i
    using that tot0(1) lgr by (simp add: lists_of_def g'(2) nth_append) (simp add: packed_graph_def lists_of_def)
  have pk: "packed cfg jx"
    unfolding packed_def F(1-12) rows_ok_def
    using L(1,8,9,12) P(2,11,16,17) S gl d(3) capd l(2,3) tot0(1) lists by auto
  have "get_vector_by_tag tag jx = get_vector_by_tag tag ix" for tag
  proof (cases "ix_t2l ix tag")
    case (Some i)
    then have "i < ix_nd ix" using inverse_live [OF P(9,10)] P(11) by (auto simp: ran_def)
    then show ?thesis using Some d(7) by (simp add: get_vector_by_tag_def F)
  qed (simp add: get_vector_by_tag_def F)
  then have "tag_vectors jx = tag_vectors ix" by (intro ext) (simp add: tag_vectors_def)
  then show ?thesis using load pk F(7-9) lists tot0(1) unfolding F(1) [symmetric] by (intro exI [of _ jx]) simp
qed


section \<open>Properties\<close>

text \<open>The files before anything is saved.\<close>

definition no_files :: index_files where
  "no_files = \<lparr>if_graph = None, if_data = None, if_tags = None, if_del = None, if_labels = None, if_medoids = None,
     if_universal = None, if_labels_map = None, if_raw_labels = None\<rparr>"



text \<open>A byte index with one point, at location 1 of 2, and the frozen point at 2; and the fresh index it is loaded into.\<close>

definition byte_cfg :: "8 word index_config" where
  "byte_cfg = \<lparr>ic_df = \<lparr>df_compare = (\<lambda>a b. Fin (of_nat (unat (hd a - hd b)))), df_required_alignment = 1,
       df_preprocessing_required = False, df_preprocess_base_points = (\<lambda>r d n. r)\<rparr>,
     ic_metric = L2, ic_dynamic = True, ic_enable_tags = True, ic_conc_consolidate = False,
     ic_L = 4, ic_R = 2, ic_maxc = 10, ic_alpha = Fin 1, ic_filterL = 4, ic_saturate = False, ic_libm = demo_libm,
     ic_mcgi = mcgi_initial, ic_order = sorted_list_of_set, ic_to_float = (\<lambda>x. Fin (of_nat (unat x)))\<rparr>"

definition byte_index :: "8 word index" where
  "byte_index = \<lparr>ix_max_points = 2, ix_num_frozen = 1, ix_nd = 1, ix_start = 2, ix_frozen_used = 0, ix_has_built = False,
     ix_filtered = False, ix_deletes_enabled = True, ix_data_compacted = False,
     ix_data = \<lparr>ds_capacity = 3, ds_dim = 1, ds_aligned_dim = 1, ds_data = [0, 9, 3]\<rparr>,
     ix_graph = \<lparr>gs_graph = [[], [2], [1]], gs_max_observed = 1, gs_max_range = 0, gs_total_points = 3\<rparr>,
     ix_l2t = nnm_set nnm_empty 1 7, ix_t2l = [7 \<mapsto> 1], ix_empty = \<lparr>nns_values = [0], nns_bits = [True, False]\<rparr>, ix_deleted = {},
     ix_labels = [], ix_label_set = {}, ix_label_start = Map.empty,
     ix_medoid_counts = Map.empty, ix_label_map = Map.empty, ix_use_universal = False, ix_universal = 0\<rparr>"

definition byte_fresh :: "8 word index" where
  "byte_fresh = byte_index\<lparr>ix_nd := 0, ix_data_compacted := True, ix_graph := gs_make 3, ix_l2t := nnm_empty, ix_t2l := Map.empty,
     ix_data := \<lparr>ds_capacity = 3, ds_dim = 1, ds_aligned_dim = 1, ds_data = [0, 0, 0]\<rparr>,
     ix_empty := \<lparr>nns_values = [0, 1], nns_bits = [True, True]\<rparr>\<rparr>"

lemma byte_index_ok: "dyn_inv byte_cfg byte_index"
proof -
  have lv: "nnm_try_get (nnm_set nnm_empty 1 7) = [1 \<mapsto> 7]" "nnm_inv (nnm_set nnm_empty 1 7)"
    using nnm_map.look_upd [of nnm_empty 1 7] nnm_map.inv_upd [of nnm_empty 1 7] by simp_all
  have l: "live byte_index = {1}" by (simp add: live_def byte_index_def lv(1) [simplified])
  have bits: "bits_on [True, False] = {0}" by (auto simp: bits_on_def less_Suc_eq)
  have "book_inv byte_index"
    unfolding book_inv_def l by (simp add: byte_index_def lv [simplified] nnm_map.inverse_of_def nns_inv_def nns_elems_def nns_size_def bits) auto
  moreover have u: "used byte_index = {1, 2}"
    unfolding used_def l by (auto simp: byte_index_def ix_total_def)
  moreover have "graph_wf {1, 2} (list_bound (ic_R byte_cfg)) (ix_graph byte_index)"
    by (rule graph_wfI)
      (auto simp: byte_index_def byte_cfg_def gs_points_def get_neighbours_def list_ok_def list_bound_def less_Suc_eq numeral_3_eq_3)
  ultimately show ?thesis by (simp add: dyn_inv_def) (simp add: byte_index_def rows_ok_def ds_inv_def ix_total_def gs_points_def)
qed

lemma byte_loadable: "loadable byte_index byte_fresh"
  by (simp add: loadable_def byte_fresh_def byte_index_def rows_ok_def ds_inv_def ix_total_def)

lemma byte_facts:
  "ic_dynamic byte_cfg" "ic_enable_tags byte_cfg" "order_ok (ic_order byte_cfg)" "list_bound (ic_R byte_cfg) < 2 ^ 29"
  "codec_on u32_codec (insert 0 (dom (ix_t2l byte_index)))"
  "ix_deleted byte_index = {}" "\<not> ix_data_compacted byte_index" "ix_nd byte_index < ix_max_points byte_index"
  "ix_total byte_index < 2 ^ 31" "ds_dim (ix_data byte_index) < 2 ^ 31" "ds_capacity (ix_data byte_index) < 2 ^ 32"
  "ix_max_points byte_fresh = ix_max_points byte_index"
proof -
  show "list_bound (ic_R byte_cfg) < 2 ^ 29" by (rule list_bound_small) (simp_all add: byte_cfg_def)
  show "codec_on u32_codec (insert 0 (dom (ix_t2l byte_index)))" using codec_on_u32 by (simp add: codec_on_def byte_index_def)
qed (simp_all add: byte_cfg_def byte_index_def byte_fresh_def ix_total_def order_ok_def)


end
