(* ===== verification/Query.thy ===== *)
theory Query
  imports Dynamic
begin

text \<open>
  The queries of an index (\<^verbatim>\<open>src/index.cpp\<close>): \<^verbatim>\<open>search\<close>,
  \<^verbatim>\<open>search_with_filters\<close> and \<^verbatim>\<open>search_with_tags\<close>. The caller's output
  buffers are lists, written at the positions the code writes; \<open>None\<close> is a null pointer. The
  scratch space is the one the manager took from the pool, and is handed back cleared.
\<close>

section \<open>The queries\<close>

text \<open>\<^verbatim>\<open>-1 * distance\<close> for the inner product.\<close>

definition report_distance :: "metric \<Rightarrow> fl \<Rightarrow> fl" where
  "report_distance m d = (if m = INNER_PRODUCT then fl_neg d else d)"

type_synonym buffers = "nat list \<times> fl list option"

definition write_result :: "metric \<Rightarrow> nat \<Rightarrow> nat \<Rightarrow> fl \<Rightarrow> buffers \<Rightarrow> buffers result" where
  "write_result m pos x d out =
     (let (ids, dists) = out in
      bindR (vec_put ids pos x) (\<lambda>ids'.
      bindR (case dists of None \<Rightarrow> Inr None | Some ds \<Rightarrow> bindR (vec_put ds pos (report_distance m d)) (\<lambda>ds'. Inr (Some ds')))
        (\<lambda>dists'. Inr (ids', dists'))))"

text \<open>The frozen points, at or above \<^verbatim>\<open>_max_points\<close>, are not results.\<close>

fun report_points :: "nat \<Rightarrow> metric \<Rightarrow> nat \<Rightarrow> neighbor list \<Rightarrow> nat \<Rightarrow> buffers \<Rightarrow> (nat \<times> buffers) result" where
  "report_points maxp m k [] pos out = Inr (pos, out)"
| "report_points maxp m k (x # xs) pos out =
     bindR (if nbr_id x < maxp
            then bindR (write_result m pos (nbr_id x) (nbr_dist x) out) (\<lambda>out'. Inr (pos + 1, out'))
            else Inr (pos, out)) (\<lambda>(pos', out').
       if pos' = k then Inr (pos', out') else report_points maxp m k xs pos' out')"

definition query_scratch :: "nat \<Rightarrow> 'a scratch \<Rightarrow> 'a scratch" where
  "query_scratch L s = (if sc_L s < L then resize_for_new_L L s else s)"

definition run_search ::
  "'a index_config \<Rightarrow> 'a index \<Rightarrow> 'a list \<Rightarrow> nat \<Rightarrow> nat list \<Rightarrow> bool \<Rightarrow> nat list \<Rightarrow> 'a scratch \<Rightarrow> ((nat \<times> nat) \<times> 'a scratch) result" where
  "run_search cfg ix query L init_ids use_filter labels s =
     bindR (ds_preprocess_query query (sc_query s) (ix_data ix)) (\<lambda>q.
       iterate_to_fixed_point (search_env_of cfg ix q use_filter labels True) L init_ids (s\<lparr>sc_query := q\<rparr>))"

definition search ::
  "'a index_config \<Rightarrow> 'a list \<Rightarrow> nat \<Rightarrow> nat \<Rightarrow> buffers \<Rightarrow> 'a index \<times> 'a scratch \<Rightarrow> ((nat \<times> nat) \<times> buffers \<times> 'a scratch) result" where
  "search cfg query k L out st =
     (let (ix, s) = st in
      if L < k then Inl (ANNException ''Set L to a value of at least K'')
      else bindR (run_search cfg ix query L (get_init_ids ix) False [] (query_scratch L s)) (\<lambda>(retval, s').
           bindR (report_points (ix_max_points ix) (ic_metric cfg) k (npq_live (sc_best s')) 0 out) (\<lambda>(pos, out').
             Inr (retval, out', scratch_clear s'))))"

definition search_with_filters ::
  "'a index_config \<Rightarrow> 'a list \<Rightarrow> nat \<Rightarrow> nat \<Rightarrow> nat \<Rightarrow> buffers \<Rightarrow> 'a index \<times> 'a scratch \<Rightarrow> ((nat \<times> nat) \<times> buffers \<times> 'a scratch) result" where
  "search_with_filters cfg query filter_label k L out st =
     (let (ix, s) = st in
      if L < k then Inl (ANNException ''Set L to a value of at least K'')
      else case ix_label_start ix filter_label of
        None \<Rightarrow> Inl (ANNException ''No filtered medoid found. exitting '')
      | Some medoid \<Rightarrow>
          bindR (run_search cfg ix query L (get_init_ids ix @ [medoid]) True [filter_label] (query_scratch L s)) (\<lambda>(retval, s').
          bindR (report_points (ix_max_points ix) (ic_metric cfg) k (npq_live (sc_best s')) 0 out) (\<lambda>(pos, out').
            Inr (retval, out', scratch_clear s'))))"

text \<open>\<^verbatim>\<open>_search_with_filters\<close> converts the label first.\<close>

definition search_with_raw_filter ::
  "'a index_config \<Rightarrow> 'a list \<Rightarrow> string \<Rightarrow> nat \<Rightarrow> nat \<Rightarrow> buffers \<Rightarrow> 'a index \<times> 'a scratch \<Rightarrow> ((nat \<times> nat) \<times> buffers \<times> 'a scratch) result" where
  "search_with_raw_filter cfg query raw_label k L out st =
     bindR (get_converted_label (ix_label_map (fst st)) (ix_use_universal (fst st)) (ix_universal (fst st)) raw_label) (\<lambda>l.
       search_with_filters cfg query l k L out st)"

text \<open>Results by tag: \<^verbatim>\<open>get_vector\<close> copies into the caller's vector buffers, when there are any.\<close>

definition write_vector :: "'a index \<Rightarrow> nat \<Rightarrow> nat \<Rightarrow> 'a list list \<Rightarrow> 'a list list result" where
  "write_vector ix loc pos vecs =
     (if vecs = [] then Inr vecs
      else bindR (vec_at vecs pos) (\<lambda>buf. bindR (ds_get_vector (ix_data ix) loc) (\<lambda>v. bindR (mem_put buf 0 v) (vec_put vecs pos))))"

fun report_tags ::
  "metric \<Rightarrow> 'a index \<Rightarrow> nat \<Rightarrow> neighbor list \<Rightarrow> nat \<Rightarrow> buffers \<times> 'a list list \<Rightarrow> (nat \<times> buffers \<times> 'a list list) result" where
  "report_tags m ix k [] pos out = Inr (pos, out)"
| "report_tags m ix k (x # xs) pos (out, vecs) =
     (case nnm_try_get (ix_l2t ix) (nbr_id x) of
        None \<Rightarrow> report_tags m ix k xs pos (out, vecs)
      | Some tag \<Rightarrow>
          bindR (write_result m pos tag (nbr_dist x) out) (\<lambda>out'.
          bindR (write_vector ix (nbr_id x) pos vecs) (\<lambda>vecs'.
            if pos + 1 = k \<or> pos + 1 = length vecs' then Inr (pos + 1, out', vecs')
            else report_tags m ix k xs (pos + 1) (out', vecs'))))"

definition search_with_tags ::
  "'a index_config \<Rightarrow> 'a list \<Rightarrow> nat \<Rightarrow> nat \<Rightarrow> string option \<Rightarrow> buffers \<times> 'a list list \<Rightarrow> 'a index \<times> 'a scratch
     \<Rightarrow> (nat \<times> (buffers \<times> 'a list list) \<times> 'a scratch) result" where
  "search_with_tags cfg query k L filter_label out st =
     (let (ix, s) = st in
      if L < k then Inl (ANNException ''Set L to a value of at least K'')
      else bindR (case filter_label of
                    None \<Rightarrow> run_search cfg ix query L (get_init_ids ix) False [] (query_scratch L s)
                  | Some raw \<Rightarrow>
                      bindR (get_converted_label (ix_label_map ix) (ix_use_universal ix) (ix_universal ix) raw) (\<lambda>l.
                        run_search cfg ix query L (get_init_ids ix) True [l] (query_scratch L s))) (\<lambda>(_, s').
           bindR (report_tags (ic_metric cfg) ix k (npq_live (sc_best s')) 0 out) (\<lambda>(pos, out').
             Inr (pos, out', scratch_clear s'))))"

section \<open>Reporting\<close>

text \<open>\<open>ys\<close> written into a buffer from a position on.\<close>

definition overlay :: "nat \<Rightarrow> 'b list \<Rightarrow> 'b list \<Rightarrow> 'b list" where
  "overlay pos ys xs = take pos xs @ ys @ drop (pos + length ys) xs"

lemma length_overlay [simp]: "pos + length ys \<le> length xs \<Longrightarrow> length (overlay pos ys xs) = length xs"
  by (simp add: overlay_def)

lemma overlay_Nil [simp]: "overlay pos [] xs = xs"
  by (simp add: overlay_def)

lemma overlay_Cons: "pos < length xs \<Longrightarrow> overlay (Suc pos) ys (xs[pos := y]) = overlay pos (y # ys) xs"
  by (simp add: overlay_def take_Suc_conv_app_nth)

lemma overlay_one: "pos < length xs \<Longrightarrow> overlay pos [y] xs = xs[pos := y]"
  by (simp add: overlay_def upd_conv_take_nth_drop)

definition overlay_results :: "metric \<Rightarrow> nat \<Rightarrow> (nat \<times> fl) list \<Rightarrow> buffers \<Rightarrow> buffers" where
  "overlay_results m pos rs out =
     (overlay pos (map fst rs) (fst out), map_option (overlay pos (map (report_distance m \<circ> snd) rs)) (snd out))"

definition room :: "nat \<Rightarrow> buffers \<Rightarrow> bool" where
  "room n out \<longleftrightarrow> n \<le> length (fst out) \<and> (\<forall>ds. snd out = Some ds \<longrightarrow> n \<le> length ds)"

lemma write_result_ok:
  assumes "room (Suc pos) out"
  shows "write_result m pos x d out = Inr (overlay_results m pos [(x, d)] out)" "room n out \<Longrightarrow> room n (overlay_results m pos [(x, d)] out)"
    "Suc pos + length rs \<le> length (fst out) \<Longrightarrow>
       overlay_results m (Suc pos) rs (overlay_results m pos [(x, d)] out) = overlay_results m pos ((x, d) # rs) out"
proof -
  obtain ids dists where o: "out = (ids, dists)" by (cases out)
  have l: "pos < length ids" "\<And>ds. dists = Some ds \<Longrightarrow> pos < length ds" using assms by (auto simp: o room_def)
  show "write_result m pos x d out = Inr (overlay_results m pos [(x, d)] out)"
    using l by (cases dists) (simp_all add: o write_result_def overlay_results_def overlay_one)
  show "room n out \<Longrightarrow> room n (overlay_results m pos [(x, d)] out)"
    using l by (cases dists) (auto simp: o room_def overlay_results_def)
  show "overlay_results m (Suc pos) rs (overlay_results m pos [(x, d)] out) = overlay_results m pos ((x, d) # rs) out"
    using l by (cases dists) (simp_all add: o overlay_results_def overlay_one overlay_Cons)
qed

lemma overlay_results_Nil [simp]: "overlay_results m pos [] out = out"
  by (cases "snd out") (simp_all add: overlay_results_def prod_eq_iff)

lemma report_points_ok:
  assumes "pos < k" "room k out"
  shows "report_points maxp m k xs pos out =
     (let rs = take (k - pos) (map (\<lambda>x. (nbr_id x, nbr_dist x)) (filter (\<lambda>x. nbr_id x < maxp) xs))
      in Inr (pos + length rs, overlay_results m pos rs out))"
  using assms
proof (induction xs arbitrary: pos out)
  case Nil
  then show ?case by simp
next
  case (Cons x xs)
  show ?case
  proof (cases "nbr_id x < maxp")
    case False
    then show ?thesis using Cons by simp
  next
    case True
    have r: "room (Suc pos) out" using Cons.prems by (auto simp: room_def)
    note w = write_result_ok [OF r, where m = m and x = "nbr_id x" and d = "nbr_dist x"]
    have k: "k - pos = Suc (k - Suc pos)" using Cons.prems(1) by simp
    show ?thesis
    proof (cases "Suc pos = k")
      case True
      then show ?thesis using \<open>nbr_id x < maxp\<close> w(1) k by (simp add: Let_def)
    next
      case False
      then have "Suc pos < k" using Cons.prems(1) by simp
      note IH = Cons.IH [OF this w(2) [OF Cons.prems(2)]]
      have "Suc pos + length (take (k - Suc pos) (map (\<lambda>x. (nbr_id x, nbr_dist x)) (filter (\<lambda>x. nbr_id x < maxp) xs))) \<le> length (fst out)"
        using Cons.prems(2) \<open>Suc pos < k\<close> by (auto simp: room_def min_def)
      note w3 = w(3) [OF this]
      show ?thesis using \<open>nbr_id x < maxp\<close> False w(1) IH w3 k by (simp add: Let_def)
    qed
  qed
qed


text \<open>The tagged candidates, with their location.\<close>

definition tagged :: "'a index \<Rightarrow> neighbor list \<Rightarrow> (nat \<times> neighbor) list" where
  "tagged ix xs = map (\<lambda>x. (the (nnm_try_get (ix_l2t ix) (nbr_id x)), x)) (filter (\<lambda>x. nbr_id x \<in> live ix) xs)"

lemma tagged_simps [simp]:
  "tagged ix [] = []"
  "nnm_try_get (ix_l2t ix) (nbr_id x) = None \<Longrightarrow> tagged ix (x # xs) = tagged ix xs"
  "nnm_try_get (ix_l2t ix) (nbr_id x) = Some t \<Longrightarrow> tagged ix (x # xs) = (t, x) # tagged ix xs"
  by (simp_all add: tagged_def live_def domIff)

definition tag_limit :: "nat \<Rightarrow> 'b list \<Rightarrow> nat" where
  "tag_limit k vecs = (if vecs = [] then k else min k (length vecs))"

definition vector_at :: "'a index \<Rightarrow> nat \<Rightarrow> 'a list" where
  "vector_at ix i = projr (ds_get_vector (ix_data ix) i)"

definition overlay_vectors :: "'a index \<Rightarrow> nat \<Rightarrow> neighbor list \<Rightarrow> 'a list list \<Rightarrow> 'a list list" where
  "overlay_vectors ix pos xs vecs = (if vecs = [] then [] else overlay pos (map (vector_at ix \<circ> nbr_id) xs) vecs)"

lemma write_vector_ok:
  assumes "vecs = [] \<or> pos < length vecs" "\<forall>b \<in> set vecs. length b = ds_dim (ix_data ix)"
    and "ds_get_vector (ix_data ix) (nbr_id x) = Inr v" "length v = ds_dim (ix_data ix)"
  shows "write_vector ix (nbr_id x) pos vecs = Inr (overlay_vectors ix pos [x] vecs)"
    "\<forall>b \<in> set (overlay_vectors ix pos [x] vecs). length b = ds_dim (ix_data ix)"
    "length (overlay_vectors ix pos [x] vecs) = length vecs"
    "Suc pos + length xs \<le> length vecs \<or> vecs = [] \<Longrightarrow>
       overlay_vectors ix (Suc pos) xs (overlay_vectors ix pos [x] vecs) = overlay_vectors ix pos (x # xs) vecs"
proof -
  have v: "vector_at ix (nbr_id x) = v" using assms(3) by (simp add: vector_at_def)
  have "vecs \<noteq> [] \<Longrightarrow> length (vecs ! pos) = ds_dim (ix_data ix)" using assms(1,2) by auto
  then show "write_vector ix (nbr_id x) pos vecs = Inr (overlay_vectors ix pos [x] vecs)"
    using assms(1,3,4) by (auto simp: write_vector_def overlay_vectors_def mem_put_def overlay_one vec_put_def v)
  show "\<forall>b \<in> set (overlay_vectors ix pos [x] vecs). length b = ds_dim (ix_data ix)"
  proof (cases "vecs = []")
    case False
    then have "overlay_vectors ix pos [x] vecs = vecs[pos := v]" using assms(1) by (simp add: overlay_vectors_def overlay_one v)
    then show ?thesis using assms(2,4) by (auto dest!: set_update_subset_insert [THEN subsetD])
  qed (simp add: overlay_vectors_def)
  show "length (overlay_vectors ix pos [x] vecs) = length vecs"
    using assms(1) by (auto simp: overlay_vectors_def)
  show "Suc pos + length xs \<le> length vecs \<or> vecs = [] \<Longrightarrow>
       overlay_vectors ix (Suc pos) xs (overlay_vectors ix pos [x] vecs) = overlay_vectors ix pos (x # xs) vecs"
    using assms(1) by (auto simp: overlay_vectors_def overlay_one overlay_Cons)
qed

lemma report_tags_ok:
  assumes "pos < tag_limit k vecs" "room (tag_limit k vecs) out" "\<forall>b \<in> set vecs. length b = ds_dim (ix_data ix)"
    and "\<forall>x \<in> set xs. nbr_id x \<in> live ix \<longrightarrow> (\<exists>v. ds_get_vector (ix_data ix) (nbr_id x) = Inr v \<and> length v = ds_dim (ix_data ix))"
  shows "report_tags m ix k xs pos (out, vecs) =
     (let ts = take (tag_limit k vecs - pos) (tagged ix xs)
      in Inr (pos + length ts, overlay_results m pos (map (\<lambda>(t, x). (t, nbr_dist x)) ts) out, overlay_vectors ix pos (map snd ts) vecs))"
  using assms
proof (induction xs arbitrary: pos out vecs)
  case Nil
  then show ?case by (simp add: overlay_vectors_def)
next
  case (Cons x xs)
  show ?case
  proof (cases "nnm_try_get (ix_l2t ix) (nbr_id x)")
    case None
    then show ?thesis using Cons by simp
  next
    case (Some t)
    let ?lim = "tag_limit k vecs"
    have r: "room (Suc pos) out" using Cons.prems(1,2) by (auto simp: room_def)
    note w = write_result_ok [OF r, where m = m and x = t and d = "nbr_dist x"]
    have "nbr_id x \<in> live ix" using Some by (auto simp: live_def)
    then obtain v where v: "ds_get_vector (ix_data ix) (nbr_id x) = Inr v" "length v = ds_dim (ix_data ix)"
      using Cons.prems(4) by auto
    have pv: "vecs = [] \<or> pos < length vecs" using Cons.prems(1) by (auto simp: tag_limit_def split: if_splits)
    note wv = write_vector_ok [OF pv Cons.prems(3) v]
    define vecs' where "vecs' = overlay_vectors ix pos [x] vecs"
    have e: "vecs' = [] \<longleftrightarrow> vecs = []" using wv(3) unfolding vecs'_def by (metis length_0_conv)
    have lim: "tag_limit k vecs' = ?lim" using wv(3) e by (simp add: tag_limit_def vecs'_def)
    have k: "?lim - pos = Suc (?lim - Suc pos)" using Cons.prems(1) by simp
    have stop: "(Suc pos = k \<or> Suc pos = length vecs') \<longleftrightarrow> Suc pos = ?lim"
      using Cons.prems(1) e wv(3) unfolding vecs'_def by (auto simp: tag_limit_def min_def split: if_splits)
    let ?rest = "take (?lim - Suc pos) (tagged ix xs)"
    have l1: "Suc pos + length (map (\<lambda>(t, x). (t, nbr_dist x)) ?rest) \<le> length (fst out)"
      using Cons.prems(1,2) by (auto simp: room_def min_def)
    have l2: "Suc pos + length (map snd ?rest) \<le> length vecs \<or> vecs = []"
      using Cons.prems(1) by (auto simp: tag_limit_def min_def split: if_splits)
    have step: "report_tags m ix k (x # xs) pos (out, vecs) =
        (if Suc pos = ?lim then Inr (Suc pos, overlay_results m pos [(t, nbr_dist x)] out, vecs')
         else report_tags m ix k xs (Suc pos) (overlay_results m pos [(t, nbr_dist x)] out, vecs'))"
      using Some w(1) wv(1) stop by (simp add: vecs'_def [symmetric])
    show ?thesis
    proof (cases "Suc pos = ?lim")
      case True
      then show ?thesis using Some step k by (simp add: Let_def vecs'_def)
    next
      case False
      then have "Suc pos < tag_limit k vecs'" using Cons.prems(1) lim by simp
      moreover have "room (tag_limit k vecs') (overlay_results m pos [(t, nbr_dist x)] out)" using w(2) Cons.prems(2) lim by simp
      moreover have "\<forall>b \<in> set vecs'. length b = ds_dim (ix_data ix)" using wv(2) by (simp add: vecs'_def)
      ultimately show ?thesis
        using Cons.IH [of "Suc pos" vecs' "overlay_results m pos [(t, nbr_dist x)] out"] Cons.prems(4) False step Some k lim
          w(3) [OF l1] wv(4) [OF l2] by (simp add: Let_def vecs'_def [symmetric])
    qed
  qed
qed


section \<open>The search of a query\<close>

definition aligned_query :: "'a index \<Rightarrow> 'a list \<Rightarrow> 'a scratch \<Rightarrow> 'a list" where
  "aligned_query ix query s = take (ds_dim (ix_data ix)) query @ drop (ds_dim (ix_data ix)) (sc_query s)"

text \<open>\<open>W\<close> is a set of nodes closed around its nearest \<open>L\<close>: what a search has looked at.\<close>

definition explored :: "'a index \<Rightarrow> (nat \<Rightarrow> fl) \<Rightarrow> nat \<Rightarrow> nat set \<Rightarrow> nat set \<Rightarrow> bool" where
  "explored ix d L V W \<longleftrightarrow> finite W \<and> set (get_init_ids ix) \<subseteq> W \<and> W \<subseteq> V
     \<and> (\<forall>(x, i) \<in> set (take L (ranking d W)). \<forall>ns. get_neighbours (ix_graph ix) i = Inr ns \<longrightarrow> set ns \<subseteq> W)"

lemma query_scratch_ok:
  assumes "scratch_clean s" "scratch_fits cfg ix s"
  shows "scratch_clean (query_scratch L s)" "scratch_fits cfg ix (query_scratch L s)" "sc_query (query_scratch L s) = sc_query s"
proof -
  show "scratch_clean (query_scratch L s)"
    using assms(1) resize_for_new_L_clean [OF assms(1), of L] by (simp add: query_scratch_def)
qed (use assms in \<open>simp_all add: query_scratch_def scratch_fits_def resize_for_new_L_def\<close>)

lemma run_search_ok:
  assumes cfg: "cfg_ok cfg" and b: "buildable cfg V ix" and s: "scratch_clean s" "scratch_fits cfg ix s"
    and L: "0 < L" and q: "ds_dim (ix_data ix) \<le> length query"
  shows "\<exists>cmps s' W. run_search cfg ix query L (get_init_ids ix) False [] s = Inr ((0, cmps), s')
     \<and> map nbr_key (npq_live (sc_best s')) = take L (ranking (qdist cfg ix (aligned_query ix query s)) W)
     \<and> explored ix (qdist cfg ix (aligned_query ix query s)) L V W"
proof -
  have B: "rows_ok ix" "gs_points (ix_graph ix) = ix_total ix" "V \<subseteq> {..<ix_total ix}"
    "graph_wf V (list_bound (ic_R cfg)) (ix_graph ix)" "set (get_init_ids ix) \<subseteq> V"
    using b by (simp_all add: buildable_def)
  let ?q = "aligned_query ix query s"
  have pq: "ds_preprocess_query query (sc_query s) (ix_data ix) = Inr ?q"
    using q s(2) by (simp add: ds_preprocess_query_def mem_get_def mem_put_def aligned_query_def scratch_fits_def)
  define s1 where "s1 = s\<lparr>sc_query := ?q\<rparr>"
  let ?env = "search_env_of cfg ix ?q False [] True" and ?d = "qdist cfg ix ?q"
  have c1: "scratch_clean s1" "sc_R s1 = ic_R cfg" using s by (simp_all add: s1_def scratch_clean_def scratch_fits_def)
  have env: "env_ok ?env (sc_R s1) ?d" using search_env_ok [OF cfg B(1,4,2)] by (simp only: c1(2))
  have tot: "se_total ?env = ix_total ix" by (simp add: search_env_of_def)
  have ini: "\<forall>i \<in> set (get_init_ids ix). i < se_total ?env" using B(3,5) unfolding tot by blast
  obtain cmps s2 W E where
    r: "iterate_to_fixed_point ?env L (get_init_ids ix) s1 = Inr ((0, cmps), s2)"
       "map nbr_key (npq_live (sc_best s2)) = take L (ranking ?d W)" "finite W"
       "{i \<in> set (get_init_ids ix). passes ?env i} \<subseteq> W" "W \<subseteq> search_reach ?env (get_init_ids ix)"
       "nbr_id ` set (npq_live (sc_best s2)) \<subseteq> E" "\<forall>n \<in> E. \<forall>m \<in> set (out_nbrs ?env n). passes ?env m \<longrightarrow> m \<in> W"
    using search_local_optimum_library [OF env c1(1) L ini] by blast
  have p: "passes ?env i" for i by (simp add: passes_def filter_passes_def search_env_of_def)
  have WV: "W \<subseteq> V" by (rule subset_trans [OF r(5) search_reach_within [OF B(5,4)]]) (use B(2,3) in simp)
  have "set ns \<subseteq> W" if "(x, i) \<in> set (take L (ranking ?d W))" "get_neighbours (ix_graph ix) i = Inr ns" for x i ns
  proof -
    have "(x, i) \<in> nbr_key ` set (npq_live (sc_best s2))" using that(1) unfolding r(2) [symmetric] by simp
    then have "i \<in> E" using r(6) by (auto simp: nbr_key_def)
    moreover have "out_nbrs ?env i = ns" using that(2) by (simp add: out_nbrs_def search_env_of_def)
    ultimately show ?thesis using r(7) p by blast
  qed
  then have "explored ix ?d L V W" using r(3,4) WV p unfolding explored_def by fast
  moreover have "run_search cfg ix query L (get_init_ids ix) False [] s = Inr ((0, cmps), s2)"
    using pq r(1) by (simp add: run_search_def s1_def)
  ultimately show ?thesis using r(2) by blast
qed

text \<open>The results of a query, from what the search looked at.\<close>

definition point_results :: "'a index \<Rightarrow> (nat \<Rightarrow> fl) \<Rightarrow> nat \<Rightarrow> nat set \<Rightarrow> (nat \<times> fl) list" where
  "point_results ix d L W = map (\<lambda>(x, i). (i, x)) (filter (\<lambda>(x, i). i < ix_max_points ix) (take L (ranking d W)))"

definition tag_results :: "'a index \<Rightarrow> (nat \<Rightarrow> fl) \<Rightarrow> nat \<Rightarrow> nat set \<Rightarrow> (nat \<times> fl \<times> nat) list" where
  "tag_results ix d L W = map (\<lambda>(x, i). (the (nnm_try_get (ix_l2t ix) i), x, i)) (filter (\<lambda>(x, i). i \<in> live ix) (take L (ranking d W)))"

lemma point_results_live:
  assumes "map nbr_key xs = take L (ranking d W)"
  shows "map (\<lambda>x. (nbr_id x, nbr_dist x)) (filter (\<lambda>x. nbr_id x < ix_max_points ix) xs) = point_results ix d L W"
  unfolding point_results_def assms [symmetric] filter_map
  by (simp add: comp_def nbr_key_def)

lemma tag_results_live:
  assumes "map nbr_key xs = take L (ranking d W)"
  shows "map (\<lambda>(t, x). (t, nbr_dist x, nbr_id x)) (tagged ix xs) = tag_results ix d L W"
  unfolding tag_results_def assms [symmetric] filter_map tagged_def
  by (simp add: comp_def nbr_key_def)


section \<open>Properties\<close>

text \<open>\<^bold>\<open>C16\<close> A query of a valid index with a clean scratch space and buffers for K results, K from 1 to
  L, succeeds: it writes, from position 0 and in order of distance (negated for the inner product), at most K points
  and nothing else. They are the first K that are not frozen points among the L nearest (ties by
  location) of a set of nodes that holds all start points and every neighbour of those L, and the scratch space
  goes back clean.\<close>

theorem search_nearest_explored:
  assumes "cfg_ok cfg" "buildable cfg V ix" "scratch_clean s" "scratch_fits cfg ix s" "0 < k" "k \<le> L"
    "ds_dim (ix_data ix) \<le> length query" "room k out"
  defines "d \<equiv> qdist cfg ix (aligned_query ix query s)"
  shows "\<exists>cmps W s'. search cfg query k L out (ix, s)
       = Inr ((0, cmps), overlay_results (ic_metric cfg) 0 (take k (point_results ix d L W)) out, s')
     \<and> explored ix d L V W \<and> scratch_clean s'"
proof -
  note qs = query_scratch_ok [OF assms(3,4), of L]
  have L: "0 < L" using assms(5,6) by simp
  have e: "aligned_query ix query (query_scratch L s) = aligned_query ix query s" by (simp add: aligned_query_def qs(3))
  obtain cmps s' W where r: "run_search cfg ix query L (get_init_ids ix) False [] (query_scratch L s) = Inr ((0, cmps), s')"
      "map nbr_key (npq_live (sc_best s')) = take L (ranking d W)" "explored ix d L V W"
    using run_search_ok [OF assms(1,2) qs(1,2) L assms(7)] unfolding e d_def by blast
  have "report_points (ix_max_points ix) (ic_metric cfg) k (npq_live (sc_best s')) 0 out
      = Inr (length (take k (point_results ix d L W)), overlay_results (ic_metric cfg) 0 (take k (point_results ix d L W)) out)"
    using report_points_ok [OF assms(5,8), of "ix_max_points ix" "ic_metric cfg" "npq_live (sc_best s')"]
    unfolding point_results_live [OF r(2)] by (simp add: Let_def)
  then have "search cfg query k L out (ix, s)
       = Inr ((0, cmps), overlay_results (ic_metric cfg) 0 (take k (point_results ix d L W)) out, scratch_clear s')"
    using r(1) assms(6) by (simp add: search_def)
  then show ?thesis using r(3) scratch_clear_clean by blast
qed

text \<open>\<^bold>\<open>C7\<close> A query by tag on a valid dynamic index returns distinct active tags, never a deleted one, in
  order of distance: the first ones, up to K and to the number of vector buffers, among the L nearest
  explored nodes that carry a tag. With vector buffers, each receives the vector that
  \<^verbatim>\<open>get_vector_by_tag\<close> gives for its tag.\<close>

theorem tag_search_returns_active:
  fixes cfg :: "'a::zero index_config"
  assumes "cfg_ok cfg" "dyn_inv cfg ix" "scratch_clean s" "scratch_fits cfg ix s" "0 < k" "k \<le> L"
    "ds_dim (ix_data ix) \<le> length query" "room (tag_limit k vecs) out" "\<forall>b \<in> set vecs. length b = ds_dim (ix_data ix)"
  defines "d \<equiv> qdist cfg ix (aligned_query ix query s)"
  shows "\<exists>W rs s'. search_with_tags cfg query k L None (out, vecs) (ix, s)
       = Inr (length rs, (overlay_results (ic_metric cfg) 0 (map (\<lambda>(t, x, i). (t, x)) rs) out,
            if vecs = [] then [] else overlay 0 (map (\<lambda>(t, x, i). the (tag_vectors ix t)) rs) vecs), s')
     \<and> rs = take (tag_limit k vecs) (tag_results ix d L W) \<and> explored ix d L (used ix) W
     \<and> distinct (map fst rs) \<and> (\<forall>(t, x, i) \<in> set rs. t \<in> get_active_tags ix \<and> tag_vectors ix t \<noteq> None) \<and> scratch_clean s'"
proof -
  note qs = query_scratch_ok [OF assms(3,4), of L] and I = dyn_invD [OF assms(2)]
  have L: "0 < L" using assms(5,6) by simp
  have e: "aligned_query ix query (query_scratch L s) = aligned_query ix query s" by (simp add: aligned_query_def qs(3))
  obtain cmps s' W where r: "run_search cfg ix query L (get_init_ids ix) False [] (query_scratch L s) = Inr ((0, cmps), s')"
      "map nbr_key (npq_live (sc_best s')) = take L (ranking d W)" "explored ix d L (used ix) W"
    using run_search_ok [OF assms(1) dyn_buildable [OF assms(2)] qs(1,2) L assms(7)] unfolding e d_def by blast
  define xs where "xs = npq_live (sc_best s')"
  define rs where "rs = take (tag_limit k vecs) (tag_results ix d L W)"
  define ts where "ts = take (tag_limit k vecs) (tagged ix xs)"
  have trs: "rs = map (\<lambda>(t, x). (t, nbr_dist x, nbr_id x)) ts"
    unfolding rs_def ts_def take_map [symmetric] tag_results_live [OF r(2), folded xs_def] ..
  have row: "\<exists>v. ds_get_vector (ix_data ix) i = Inr v \<and> length v = ds_dim (ix_data ix)" if "i \<in> live ix" for i
  proof -
    have "i < ds_capacity (ix_data ix)" using that used_bound(2) [OF I(1)] I(2) by (auto simp: rows_ok_def ix_total_def)
    then show ?thesis using I(2) ds_row_in [of "ix_data ix" i] ds_get_vector_row [of "ix_data ix" i] ds_row_length [of "ix_data ix" i]
      by (auto simp: rows_ok_def ds_inv_def)
  qed
  have tv: "ix_t2l ix t = Some i" "tag_vectors ix t = Some (vector_at ix i)" if "(t, x, i) \<in> set (tag_results ix d L W)" for t x i
  proof -
    have il: "i \<in> live ix" "t = the (nnm_try_get (ix_l2t ix) i)" using that by (auto simp: tag_results_def)
    then have "nnm_try_get (ix_l2t ix) i = Some t" by (auto simp: live_def)
    then show t: "ix_t2l ix t = Some i" using tag_lookup [OF I(1)] by blast
    obtain v where "ds_get_vector (ix_data ix) i = Inr v" using row [OF il(1)] by blast
    then show "tag_vectors ix t = Some (vector_at ix i)" using t by (simp add: tag_vectors_def get_vector_by_tag_def vector_at_def)
  qed
  have sub: "set rs \<subseteq> set (tag_results ix d L W)" unfolding rs_def by (rule set_take_subset)
  have lim: "0 < tag_limit k vecs" using assms(5) by (simp add: tag_limit_def)
  have rows: "\<forall>x \<in> set xs. nbr_id x \<in> live ix \<longrightarrow> (\<exists>v. ds_get_vector (ix_data ix) (nbr_id x) = Inr v \<and> length v = ds_dim (ix_data ix))"
    using row by blast
  have l: "length rs = length ts" "map (\<lambda>(t, x, i). (t, x)) rs = map (\<lambda>(t, x). (t, nbr_dist x)) ts"
    unfolding trs by (simp_all add: comp_def case_prod_beta)
  have "map (\<lambda>(t, x, i). the (tag_vectors ix t)) rs = map (\<lambda>(t, x, i). vector_at ix i) rs"
    using tv(2) sub by (intro map_cong refl) auto
  also have "\<dots> = map (vector_at ix \<circ> nbr_id) (map snd ts)" unfolding trs by (simp add: comp_def case_prod_beta)
  finally have v: "(if vecs = [] then [] else overlay 0 (map (\<lambda>(t, x, i). the (tag_vectors ix t)) rs) vecs) = overlay_vectors ix 0 (map snd ts) vecs"
    by (simp add: overlay_vectors_def)
  have "report_tags (ic_metric cfg) ix k xs 0 (out, vecs) = Inr (length rs, overlay_results (ic_metric cfg) 0 (map (\<lambda>(t, x, i). (t, x)) rs) out,
      if vecs = [] then [] else overlay 0 (map (\<lambda>(t, x, i). the (tag_vectors ix t)) rs) vecs)"
    using report_tags_ok [OF lim assms(8,9) rows, of "ic_metric cfg"] unfolding l v by (simp add: Let_def ts_def)
  then have run: "search_with_tags cfg query k L None (out, vecs) (ix, s)
       = Inr (length rs, (overlay_results (ic_metric cfg) 0 (map (\<lambda>(t, x, i). (t, x)) rs) out,
            if vecs = [] then [] else overlay 0 (map (\<lambda>(t, x, i). the (tag_vectors ix t)) rs) vecs), scratch_clear s')"
    using r(1) assms(6) by (simp add: search_with_tags_def xs_def)
  have dist: "distinct (map fst rs)"
  proof -
    have fin: "finite W" using r(3) by (simp add: explored_def)
    have "distinct (map (snd \<circ> snd) (tag_results ix d L W))"
    proof -
      have "distinct (map snd (ranking d W))"
        using fin by (auto simp: distinct_map set_ranking inj_on_def ranking_def)
      then have "distinct (map snd (filter (\<lambda>(x, i). i \<in> live ix) (take L (ranking d W))))"
        by (intro distinct_map_filter) (simp add: take_map [symmetric])
      then show ?thesis by (simp add: tag_results_def comp_def case_prod_beta)
    qed
    then have di: "distinct (map (snd \<circ> snd) rs)" by (simp add: rs_def take_map [symmetric])
    have tl: "ix_t2l ix (fst a) = Some (snd (snd a))" if "a \<in> set rs" for a
      using that tv(1) [of "fst a" "fst (snd a)" "snd (snd a)"] sub by auto
    have "inj_on fst (set rs)"
    proof (rule inj_onI)
      fix a b assume ab: "a \<in> set rs" "b \<in> set rs" "fst a = fst b"
      then have "snd (snd a) = snd (snd b)" using tl [OF ab(1)] tl [OF ab(2)] by simp
      then show "a = b" using inj_onD [of "snd \<circ> snd" "set rs" a b] di ab(1,2) by (simp add: distinct_map)
    qed
    moreover have "distinct rs" using di by (simp add: distinct_map)
    ultimately show ?thesis by (simp add: distinct_map)
  qed
  have act: "\<forall>(t, x, i) \<in> set rs. t \<in> get_active_tags ix \<and> tag_vectors ix t \<noteq> None"
    using tv sub by (fastforce simp: get_active_tags_def)
  show ?thesis
    by (rule exI [of _ W], rule exI [of _ rs], rule exI [of _ "scratch_clear s'"], intro conjI)
      (rule run, rule rs_def, rule r(3), rule dist, rule act, rule scratch_clear_clean)
qed


text \<open>The witnesses: a fresh index asked for its nearest points, which are none.\<close>

lemma demo_query_scratch: "scratch_fits demo_cfg ix demo_scratch" if "ds_dim (ix_data ix) = 1"
  using demo_scratch_ok(2) that by (simp add: scratch_fits_def demo_index_def)

lemma search_nearest_explored_witness:
  "\<exists>cmps W s'. search demo_cfg [4] 1 3 ([0], Some [NaN]) (demo_index, demo_scratch)
       = Inr ((0, cmps), overlay_results L2 0 (take 1 (point_results demo_index (qdist demo_cfg demo_index [4]) 3 W)) ([0], Some [NaN]), s')
     \<and> explored demo_index (qdist demo_cfg demo_index [4]) 3 {2} W"
proof -
  have "graph_wf {2} (list_bound (ic_R demo_cfg)) (ix_graph demo_index)"
    by (rule graph_wfI) (auto simp: demo_index_def get_neighbours_def list_ok_def gs_points_def less_Suc_eq numeral_3_eq_3)
  then have b: "buildable demo_cfg {2} demo_index"
    by (simp add: buildable_def) (simp add: demo_index_def rows_ok_def ds_inv_def ix_total_def gs_points_def get_init_ids_def)
  have "aligned_query demo_index [4] demo_scratch = [4]" by (simp add: aligned_query_def demo_index_def demo_scratch_def)
  moreover have "ic_metric demo_cfg = L2" by (simp add: demo_cfg_def)
  ultimately show ?thesis
    using search_nearest_explored [OF demo_cfg_ok b demo_scratch_ok, of 1 3 "[4]" "([0], Some [NaN])"]
    by (auto simp: room_def demo_index_def)
qed

lemma tag_search_returns_active_witness:
  "\<exists>ix (rs :: (nat \<times> fl \<times> nat) list) out s'. index_make demo_cfg 2 1 False demo_store (gs_make (max 1 2 + max 1 1)) = Inr ix
     \<and> search_with_tags demo_cfg [4] 1 3 None (([0], None), [[0]]) (ix, demo_scratch) = Inr (length rs, out, s')
     \<and> distinct (map fst rs) \<and> (\<forall>(t, x, i) \<in> set rs. t \<in> get_active_tags ix \<and> tag_vectors ix t \<noteq> None)"
proof -
  obtain ix where ix: "index_make demo_cfg 2 1 False demo_store (gs_make (max 1 2 + max 1 1)) = Inr ix" "dyn_inv demo_cfg ix"
      "ix_data ix = demo_store" using fresh_dyn [of demo_cfg 2 demo_store 1] by auto
  have f: "scratch_fits demo_cfg ix demo_scratch" by (rule demo_query_scratch) (simp add: ix(3))
  have r: "room (tag_limit 1 [[0]]) ([0], None)" "\<forall>b \<in> set [[0]]. length b = ds_dim (ix_data ix)"
      "ds_dim (ix_data ix) \<le> length [4]" using ix(3) by (simp_all add: room_def tag_limit_def)
  have k: "(0::nat) < 1" "(1::nat) \<le> 3" by simp_all
  from tag_search_returns_active [OF demo_cfg_ok ix(2) demo_scratch_ok(1) f k r(3,1,2)] show ?thesis
    by (elim exE conjE) (intro exI conjI, rule ix(1), assumption+)
qed

end
