(* ===== verification/Disk_Layout.thy ===== *)
theory Disk_Layout
  imports Graph_Store Bin_IO
begin

text \<open>
  The on-disk index: \<^verbatim>\<open>create_disk_layout\<close> (\<^verbatim>\<open>src/disk_utils.cpp\<close>) puts the
  vectors of a base file and the lists of an in-memory graph file into sectors, and
  \<^verbatim>\<open>PQFlashIndex\<close> (\<^verbatim>\<open>src/pq_flash_index.cpp\<close>) reads the metadata and
  the nodes back. Elements are raw bytes: only their size matters here. Sizes stay far below \<open>2 ^ 64\<close>, so their
  64-bit arithmetic is that of the natural numbers.
\<close>

section \<open>Sectors\<close>

definition SECTOR_LEN :: nat where
  "SECTOR_LEN = 4096"

definition MAX_GRAPH_DEGREE :: nat where
  "MAX_GRAPH_DEGREE = 512"

definition div_round_up :: "nat \<Rightarrow> nat \<Rightarrow> nat" where
  "div_round_up x y = x div y + (if x mod y = 0 then 0 else 1)"

text \<open>A stream that does not throw, read into a zeroed buffer: what is missing stays zero.\<close>

definition quiet_read :: "nat \<Rightarrow> byte list \<Rightarrow> byte list \<times> byte list" where
  "quiet_read n bs = (take n bs @ replicate (n - length bs) 0, drop n bs)"

section \<open>Writing\<close>

text \<open>
  One node: its list from the graph file, cut to the width, and its coordinates. The node
  buffer holds the coordinates, the degree and the list.
\<close>

definition read_disk_node :: "nat \<Rightarrow> nat \<Rightarrow> byte list \<times> cached_in \<Rightarrow> (byte list \<times> byte list \<times> cached_in) result" where
  "read_disk_node clen width rd =
     (let (vamana, base) = rd;
          (b, v1) = quiet_read 4 vamana;
          nnbrs = le_value b;
          (nhood, v2) = quiet_read (min nnbrs width * 4) v1;
          v3 = (if width < nnbrs then drop ((nnbrs - width) * 4) v2 else v2)
      in bindR (ci_read base clen) (\<lambda>(coords, base').
           Inr (coords @ le_bytes 4 (min nnbrs width) @ nhood, v3, base')))"

text \<open>Several nodes per sector.\<close>

definition sector_node ::
  "nat \<Rightarrow> nat \<Rightarrow> nat \<Rightarrow> nat \<Rightarrow> nat \<Rightarrow> (byte list \<times> nat) \<times> byte list \<times> cached_in \<Rightarrow> ((byte list \<times> nat) \<times> byte list \<times> cached_in) result" where
  "sector_node clen width max_node_len npts sector_node_id st =
     (let ((sector_buf, cur_node_id), rd) = st in
      if npts \<le> cur_node_id then Inr st
      else bindR (read_disk_node clen width rd) (\<lambda>(node, rd').
           bindR (mem_put (replicate max_node_len 0) 0 node) (\<lambda>node_buf.
           bindR (mem_put sector_buf (sector_node_id * max_node_len) node_buf) (\<lambda>sector_buf'.
             Inr ((sector_buf', cur_node_id + 1), rd')))))"

definition write_sector ::
  "nat \<Rightarrow> nat \<Rightarrow> nat \<Rightarrow> nat \<Rightarrow> nat \<Rightarrow> (nat \<times> byte list \<times> cached_in) \<times> cached_out
     \<Rightarrow> ((nat \<times> byte list \<times> cached_in) \<times> cached_out) result" where
  "write_sector clen width max_node_len nnodes_per_sector npts st =
     (let ((cur_node_id, rd), writer) = st in
      bindR (foldR (sector_node clen width max_node_len npts) [0..<nnodes_per_sector] ((replicate SECTOR_LEN 0, cur_node_id), rd))
        (\<lambda>((sector_buf, cur'), rd'). Inr ((cur', rd'), co_write sector_buf writer)))"

text \<open>Several sectors per node.\<close>

definition write_wide_node ::
  "nat \<Rightarrow> nat \<Rightarrow> nat \<Rightarrow> (byte list \<times> cached_in) \<times> cached_out \<Rightarrow> ((byte list \<times> cached_in) \<times> cached_out) result" where
  "write_wide_node clen width max_node_len st =
     (let (rd, writer) = st in
      bindR (read_disk_node clen width rd) (\<lambda>(node, rd').
      bindR (mem_put (replicate (div_round_up max_node_len SECTOR_LEN * SECTOR_LEN) 0) 0 node) (\<lambda>multisector_buf.
        Inr (rd', co_write multisector_buf writer))))"

text \<open>
  The full-precision vectors for re-ordering. The inner loop compares \<^verbatim>\<open>sector_node_id\<close>, not
  the number of vectors written, with the number of points.
\<close>

definition reorder_vector :: "nat \<Rightarrow> nat \<Rightarrow> byte list \<times> byte list \<Rightarrow> (byte list \<times> byte list) result" where
  "reorder_vector vec_len sector_node_id st =
     (let (sector_buf, rd) = st in
      bindR (read_bytes vec_len rd) (\<lambda>(v, rd').
      bindR (mem_put sector_buf (sector_node_id * vec_len) v) (\<lambda>sector_buf'. Inr (sector_buf', rd'))))"

definition write_reorder_sector :: "nat \<Rightarrow> nat \<Rightarrow> nat \<Rightarrow> byte list \<times> cached_out \<Rightarrow> (byte list \<times> cached_out) result" where
  "write_reorder_sector vec_len n_data_nodes_per_sector npts st =
     (let (rd, writer) = st in
      bindR (foldR (reorder_vector vec_len) [0..<min n_data_nodes_per_sector npts] (replicate SECTOR_LEN 0, rd))
        (\<lambda>(sector_buf, rd'). Inr (rd', co_write sector_buf writer)))"

text \<open>The header of the re-ordering file; a failed read is rethrown as a \<^verbatim>\<open>FileException\<close>.\<close>

definition open_reorder_file :: "nat \<Rightarrow> byte list \<Rightarrow> (nat \<times> byte list) result" where
  "open_reorder_file npts reorder =
     (case bindR (read_uint 4 reorder) (\<lambda>(n, r1). bindR (read_uint 4 r1) (\<lambda>(d, r2). Inr (n, d, r2))) of
        Inl _ \<Rightarrow> Inl (ANNException ''FileException'')
      | Inr (n, d, rd) \<Rightarrow>
          if n \<noteq> npts then Inl (ANNException ''Mismatch in num_points between reorder data file and base file'')
          else if length reorder \<noteq> (8 + 4 * n * d) mod 2 ^ 64 then Inl (ANNException ''Discrepancy in reorder data file size '')
          else Inr (d, rd))"

record vamana_header =
  vh_width :: nat
  vh_medoid :: nat
  vh_frozen_num :: nat

text \<open>The graph header is read without exceptions: a file shorter than the header leaves variables unset.\<close>

definition read_vamana_header :: "byte list \<Rightarrow> (vamana_header \<times> byte list) result" where
  "read_vamana_header vamana =
     (if length vamana < 8 then Inl UndefinedBehaviour
      else if le_value (take 8 vamana) \<noteq> length vamana
      then Inl (ANNException ''Vamana Index file size does not match expected size per meta-data.'')
      else if length vamana < 24 then Inl UndefinedBehaviour
      else Inr (\<lparr>vh_width = le_value (take 4 (drop 8 vamana)), vh_medoid = le_value (take 4 (drop 12 vamana)),
                 vh_frozen_num = le_value (take 8 (drop 16 vamana))\<rparr>, drop 24 vamana))"

definition output_file_meta :: "nat \<Rightarrow> nat \<Rightarrow> vamana_header \<Rightarrow> nat \<Rightarrow> nat \<Rightarrow> (nat \<times> nat \<times> nat) option \<Rightarrow> nat \<Rightarrow> nat list" where
  "output_file_meta npts ndims h max_node_len nnodes_per_sector reorder disk_index_file_size =
     [npts, ndims, vh_medoid h, max_node_len, nnodes_per_sector, vh_frozen_num h,
      (if vh_frozen_num h = 1 then vh_medoid h else 0), (if reorder = None then 0 else 1)]
     @ (case reorder of None \<Rightarrow> [] | Some (start_sector, ndims_reorder, per_sector) \<Rightarrow> [start_sector, ndims_reorder, per_sector])
     @ [disk_index_file_size]"

definition layout_block :: nat where
  "layout_block = 64 * 1024 * 1024"

definition create_disk_layout :: "nat \<Rightarrow> byte list \<Rightarrow> byte list \<Rightarrow> byte list option \<Rightarrow> byte list result" where
  "create_disk_layout csize base vamana reorder =
     bindR (ci_read (ci_open base layout_block) 4) (\<lambda>(b1, br1).
     bindR (ci_read br1 4) (\<lambda>(b2, br2).
     let npts = le_value b1; ndims = le_value b2 in
     bindR (case reorder of None \<Rightarrow> Inr None | Some f \<Rightarrow> bindR (open_reorder_file npts f) (\<lambda>r. Inr (Some r))) (\<lambda>ro.
     bindR (read_vamana_header vamana) (\<lambda>(h, vr).
     let clen = ndims * csize;
         max_node_len = (vh_width h + 1) * 4 + clen;
         nnodes_per_sector = SECTOR_LEN div max_node_len;
         n_sectors = (if 0 < nnodes_per_sector then round_up npts nnodes_per_sector div nnodes_per_sector
                      else npts * div_round_up max_node_len SECTOR_LEN)
     in bindR (case ro of None \<Rightarrow> Inr None
          | Some (d, rd) \<Rightarrow>
              if d = 0 \<or> SECTOR_LEN div (d * 4) = 0 then Inl UndefinedBehaviour
              else let per = SECTOR_LEN div (d * 4) in Inr (Some (d, per, round_up npts per div per, rd))) (\<lambda>rs.
        let n_reorder_sectors = (case rs of None \<Rightarrow> 0 | Some (d, per, n, rd) \<Rightarrow> n);
            meta = output_file_meta npts ndims h max_node_len nnodes_per_sector
              (map_option (\<lambda>(d, per, n, rd). (n_sectors + 1, d, per)) rs) ((n_sectors + n_reorder_sectors + 1) * SECTOR_LEN);
            w0 = co_write (replicate SECTOR_LEN 0) (co_open layout_block)
        in bindR (if 0 < nnodes_per_sector
             then bindR (foldR (\<lambda>_. write_sector clen (vh_width h) max_node_len nnodes_per_sector npts) [0..<n_sectors] ((0, vr, br2), w0))
                    (\<lambda>(_, w). Inr w)
             else bindR (foldR (\<lambda>_. write_wide_node clen (vh_width h) max_node_len) [0..<npts] ((vr, br2), w0)) (\<lambda>(_, w). Inr w)) (\<lambda>w1.
           bindR (case rs of None \<Rightarrow> Inr w1
             | Some (d, per, n, rd) \<Rightarrow>
                 bindR (foldR (\<lambda>_. write_reorder_sector (d * 4) per npts) [0..<n] (rd, w1)) (\<lambda>(_, w). Inr w)) (\<lambda>w2.
           bindR (save_bin u64_codec (co_disk (co_close w2)) meta (length meta) 1 0) (\<lambda>(disk_index, _).
             Inr disk_index))))))))"

section \<open>Reading\<close>

record flash_index =
  fi_num_points :: nat
  fi_disk_bytes :: nat              \<comment> \<open>\<^verbatim>\<open>_disk_bytes_per_point\<close>\<close>
  fi_medoid :: nat
  fi_max_node_len :: nat
  fi_nnodes_per_sector :: nat
  fi_max_degree :: nat
  fi_num_frozen :: nat
  fi_frozen_location :: nat
  fi_reorder :: "(nat \<times> nat \<times> nat) option"   \<comment> \<open>start sector, dimension and vectors per sector\<close>

definition read_u64s :: "nat \<Rightarrow> byte list \<Rightarrow> (nat list \<times> byte list) result" where
  "read_u64s k bs = (case read_uints 8 k bs of Inl _ \<Rightarrow> Inl UndefinedBehaviour | Inr r \<Rightarrow> Inr r)"

text \<open>
  The metadata part of \<^verbatim>\<open>load_from_separate_paths\<close>; the number of points is that
  of the compressed vectors, loaded before. \<open>None\<close> is the return value -1.
\<close>

definition load_disk_metadata :: "nat \<Rightarrow> nat \<Rightarrow> bool \<Rightarrow> byte list \<Rightarrow> flash_index option result" where
  "load_disk_metadata disk_bytes num_points use_disk_pq disk_index =
     bindR (read_u64s 8 (drop 8 disk_index)) (\<lambda>(ms, r).
     if ms ! 0 \<noteq> num_points then Inr None
     else let max_degree = ((ms ! 3 + 2 ^ 64 - disk_bytes) mod 2 ^ 64 div 4 + 2 ^ 64 - 1) mod 2 ^ 64 in
     if MAX_GRAPH_DEGREE < max_degree
     then Inl (ANNException ''Error loading index. Ensure that max graph degree (R) does not exceed 512'')
     else let fi = \<lparr>fi_num_points = num_points, fi_disk_bytes = disk_bytes, fi_medoid = ms ! 2, fi_max_node_len = ms ! 3,
                    fi_nnodes_per_sector = ms ! 4, fi_max_degree = max_degree, fi_num_frozen = ms ! 5,
                    fi_frozen_location = (if ms ! 5 = 1 then ms ! 6 else 0), fi_reorder = None\<rparr> in
     if ms ! 7 = 0 then Inr (Some fi)
     else if \<not> use_disk_pq then Inl (ANNException ''Reordering is designed for used with disk PQ compression option'')
     else bindR (read_u64s 3 r) (\<lambda>(rs, _). Inr (Some (fi\<lparr>fi_reorder := Some (rs ! 0, rs ! 1, rs ! 2)\<rparr>))))"

definition get_node_sector :: "flash_index \<Rightarrow> nat \<Rightarrow> nat" where
  "get_node_sector fi node_id =
     1 + (if 0 < fi_nnodes_per_sector fi then node_id div fi_nnodes_per_sector fi
          else node_id * div_round_up (fi_max_node_len fi) SECTOR_LEN)"

definition offset_to_node :: "flash_index \<Rightarrow> nat \<Rightarrow> nat" where
  "offset_to_node fi node_id =
     (if fi_nnodes_per_sector fi = 0 then 0 else node_id mod fi_nnodes_per_sector fi * fi_max_node_len fi)"

text \<open>The sectors that hold a node; the reader returns the bytes of the file at the offset.\<close>

definition node_sectors :: "flash_index \<Rightarrow> nat" where
  "node_sectors fi = (if 0 < fi_nnodes_per_sector fi then 1 else div_round_up (fi_max_node_len fi) SECTOR_LEN)"

definition read_sectors :: "flash_index \<Rightarrow> byte list \<Rightarrow> nat \<Rightarrow> byte list result" where
  "read_sectors fi disk_index node_id =
     mem_get disk_index (get_node_sector fi node_id * SECTOR_LEN) (node_sectors fi * SECTOR_LEN)"

definition node_coords :: "flash_index \<Rightarrow> byte list \<Rightarrow> nat \<Rightarrow> byte list result" where
  "node_coords fi buf node_id = mem_get buf (offset_to_node fi node_id) (fi_disk_bytes fi)"

text \<open>The list is copied into a buffer of \<^verbatim>\<open>_max_degree + 1\<close> words.\<close>

definition node_nhood :: "flash_index \<Rightarrow> byte list \<Rightarrow> nat \<Rightarrow> nat list result" where
  "node_nhood fi buf node_id =
     (let off = offset_to_node fi node_id + fi_disk_bytes fi in
      bindR (mem_get buf off 4) (\<lambda>b.
      bindR (if fi_max_degree fi + 1 < le_value b then Inl UndefinedBehaviour
             else mem_get buf (off + 4) (le_value b * 4)) (\<lambda>nb. Inr (le_words 4 (le_value b) nb))))"

definition read_node :: "flash_index \<Rightarrow> byte list \<Rightarrow> nat \<Rightarrow> (byte list \<times> nat list) result" where
  "read_node fi disk_index node_id =
     bindR (read_sectors fi disk_index node_id) (\<lambda>buf.
     bindR (node_coords fi buf node_id) (\<lambda>c. bindR (node_nhood fi buf node_id) (\<lambda>ns. Inr (c, ns))))"

definition read_nodes :: "flash_index \<Rightarrow> byte list \<Rightarrow> nat list \<Rightarrow> (byte list \<times> nat list) list result" where
  "read_nodes fi disk_index node_ids = mapR (read_node fi disk_index) node_ids"


section \<open>The image of the nodes\<close>

text \<open>What the layout is made from: \<open>rows\<close> are the vectors, \<open>gr\<close> the lists.\<close>

definition layout_inputs :: "nat \<Rightarrow> nat \<Rightarrow> byte list \<Rightarrow> nat list list \<Rightarrow> bool" where
  "layout_inputs clen width rows gr \<longleftrightarrow> width < 2 ^ 32 \<and> length gr * clen \<le> length rows
     \<and> (\<forall>ns \<in> set gr. length ns \<le> width \<and> (\<forall>x \<in> set ns. x < 2 ^ 32))"

definition node_len :: "nat \<Rightarrow> nat \<Rightarrow> nat" where
  "node_len clen width = (width + 1) * 4 + clen"

definition row_bytes :: "nat \<Rightarrow> byte list \<Rightarrow> nat \<Rightarrow> byte list" where
  "row_bytes clen rows i = take clen (drop (i * clen) rows)"

definition disk_node :: "nat \<Rightarrow> byte list \<Rightarrow> nat list list \<Rightarrow> nat \<Rightarrow> byte list" where
  "disk_node clen rows gr i = row_bytes clen rows i @ node_bytes (gr ! i)"

lemma row_bytes_length:
  assumes "layout_inputs clen width rows gr" "i < length gr"
  shows "length (row_bytes clen rows i) = clen" "clen \<le> length (drop (i * clen) rows)"
proof -
  have "(i + 1) * clen \<le> length gr * clen" using assms(2) by (intro mult_le_mono) auto
  then have "(i + 1) * clen \<le> length rows" using assms(1) by (simp add: layout_inputs_def)
  then show "clen \<le> length (drop (i * clen) rows)" by simp
  then show "length (row_bytes clen rows i) = clen" by (simp add: row_bytes_def)
qed

lemma disk_node_length:
  assumes "layout_inputs clen width rows gr" "i < length gr"
  shows "length (disk_node clen rows gr i) \<le> node_len clen width"
proof -
  have "length (gr ! i) \<le> width" using assms by (auto simp: layout_inputs_def)
  then show ?thesis using row_bytes_length [OF assms] by (simp add: disk_node_def node_len_def)
qed

lemma pad_row_length: "length xs \<le> w \<Longrightarrow> length (pad_row w xs) = w"
  by (simp add: pad_row_def)

lemma put_first: "length xs \<le> w \<Longrightarrow> mem_put (replicate w 0) 0 xs = Inr (pad_row w xs)"
  by (simp add: mem_put_def pad_row_def)

lemma put_next:
  assumes "length xs + length ys \<le> w" "off = length xs"
  shows "mem_put (pad_row w xs) off ys = Inr (pad_row w (xs @ ys))"
  using assms by (simp add: mem_put_def pad_row_def)

lemma quiet_read_append: "n = length a \<Longrightarrow> quiet_read n (a @ r) = (a, r)"
  by (simp add: quiet_read_def)

lemma read_disk_node_ok:
  assumes inp: "layout_inputs clen width rows gr" and i: "i < length gr"
    and br: "ci_inv br" "ci_rest br = drop (i * clen) rows"
  shows "\<exists>br'. read_disk_node clen width (graph_bytes (drop i gr), br) = Inr (disk_node clen rows gr i, graph_bytes (drop (Suc i) gr), br')
     \<and> ci_inv br' \<and> ci_rest br' = drop (Suc i * clen) rows"
proof -
  let ?ns = "gr ! i"
  have ns: "length ?ns \<le> width" "length ?ns < 256 ^ 4" using inp i by (auto simp: layout_inputs_def dest!: nth_mem)
  have g: "graph_bytes (drop i gr) = le_bytes 4 (length ?ns) @ le_array 4 ?ns @ graph_bytes (drop (Suc i) gr)"
    using i by (simp add: Cons_nth_drop_Suc [symmetric] node_bytes_def)
  have v: "quiet_read 4 (graph_bytes (drop i gr)) = (le_bytes 4 (length ?ns), le_array 4 ?ns @ graph_bytes (drop (Suc i) gr))"
    unfolding g by (rule quiet_read_append) simp
  have h: "quiet_read (length ?ns * 4) (le_array 4 ?ns @ graph_bytes (drop (Suc i) gr)) = (le_array 4 ?ns, graph_bytes (drop (Suc i) gr))"
    by (rule quiet_read_append) simp
  have le: "le_value (le_bytes 4 (length ?ns)) = length ?ns" using ns(2) by (rule le_value_bytes)
  have "clen \<le> length (ci_rest br)" using row_bytes_length(2) [OF inp i] br(2) by simp
  then obtain br' where b: "ci_read br clen = Inr (take clen (ci_rest br), br')" "ci_inv br'" "ci_rest br' = drop clen (ci_rest br)"
    using ci_read_correct [OF br(1)] by blast
  have "read_disk_node clen width (graph_bytes (drop i gr), br) = Inr (disk_node clen rows gr i, graph_bytes (drop (Suc i) gr), br')"
    using b(1) ns(1) by (simp add: read_disk_node_def v le h min_absorb1 disk_node_def row_bytes_def node_bytes_def br(2))
  moreover have "ci_rest br' = drop (Suc i * clen) rows" using b(3) br(2) by (simp add: add.commute)
  ultimately show ?thesis using b(2) by blast
qed

section \<open>Blocks of nodes\<close>

definition node_image :: "nat \<Rightarrow> nat \<Rightarrow> byte list \<Rightarrow> nat list list \<Rightarrow> nat \<Rightarrow> byte list" where
  "node_image clen width rows gr i = pad_row (node_len clen width) (disk_node clen rows gr i)"

lemma node_image_length:
  "layout_inputs clen width rows gr \<Longrightarrow> i < length gr \<Longrightarrow> length (node_image clen width rows gr i) = node_len clen width"
  using disk_node_length by (simp add: node_image_def pad_row_length)

lemma images_length:
  assumes "layout_inputs clen width rows gr" "b \<le> length gr"
  shows "length (concat (map (node_image clen width rows gr) [a..<b])) = (b - a) * node_len clen width"
proof -
  have "map length (map (node_image clen width rows gr) [a..<b]) = map (\<lambda>_. node_len clen width) [a..<b]"
    using node_image_length [OF assms(1)] assms(2) by (simp add: map_idI)
  then show ?thesis by (simp add: length_concat sum_list_replicate map_replicate_const)
qed

lemma sector_nodes_ok:
  assumes inp: "layout_inputs clen width rows gr" and n: "npts = length gr" "a \<le> npts"
    and br: "ci_inv br" "ci_rest br = drop (a * clen) rows" and len: "len = node_len clen width" and j: "j * len \<le> S"
  shows "\<exists>br'. foldR (sector_node clen width len npts) [0..<j] ((replicate S 0, a), (graph_bytes (drop a gr), br))
     = Inr ((pad_row S (concat (map (node_image clen width rows gr) [a..<min npts (a + j)])), min npts (a + j)),
            graph_bytes (drop (min npts (a + j)) gr), br')
     \<and> ci_inv br' \<and> ci_rest br' = drop (min npts (a + j) * clen) rows"
  using j
proof (induction j)
  case 0
  then show ?case using n br by (intro exI [of _ br]) (simp add: pad_row_def)
next
  case (Suc j)
  then obtain br1 where 1: "foldR (sector_node clen width len npts) [0..<j] ((replicate S 0, a), (graph_bytes (drop a gr), br))
     = Inr ((pad_row S (concat (map (node_image clen width rows gr) [a..<min npts (a + j)])), min npts (a + j)),
            graph_bytes (drop (min npts (a + j)) gr), br1)"
     "ci_inv br1" "ci_rest br1 = drop (min npts (a + j) * clen) rows" by auto
  show ?case
  proof (cases "npts \<le> a + j")
    case True
    then have "min npts (a + j) = npts" "min npts (a + Suc j) = npts" by simp_all
    moreover have "sector_node clen width len npts j ((B, npts), R) = Inr ((B, npts), R)" for B R by (simp add: sector_node_def)
    ultimately show ?thesis using 1 by (intro exI [of _ br1]) (simp add: foldR_append)
  next
    case False
    then have m: "min npts (a + j) = a + j" "min npts (a + Suc j) = Suc (a + j)" "a + j < length gr" using n by simp_all
    obtain br2 where 2: "read_disk_node clen width (graph_bytes (drop (a + j) gr), br1)
        = Inr (disk_node clen rows gr (a + j), graph_bytes (drop (Suc (a + j)) gr), br2)"
        "ci_inv br2" "ci_rest br2 = drop (Suc (a + j) * clen) rows"
      using read_disk_node_ok [OF inp m(3) 1(2)] 1(3) unfolding m(1) by blast
    let ?xs = "concat (map (node_image clen width rows gr) [a..<a + j])"
    have lx: "length ?xs = j * len" using images_length [OF inp, of "a + j" a] m(3) len by simp
    have nb: "mem_put (replicate len 0) 0 (disk_node clen rows gr (a + j)) = Inr (node_image clen width rows gr (a + j))"
      using disk_node_length [OF inp m(3)] len by (simp add: put_first node_image_def)
    have li: "length (node_image clen width rows gr (a + j)) = len" using node_image_length [OF inp m(3)] len by simp
    have "mem_put (pad_row S ?xs) (j * len) (node_image clen width rows gr (a + j)) = Inr (pad_row S (?xs @ node_image clen width rows gr (a + j)))"
      by (rule put_next) (use Suc.prems lx li in simp_all)
    then have "sector_node clen width len npts j ((pad_row S ?xs, a + j), (graph_bytes (drop (a + j) gr), br1))
        = Inr ((pad_row S (?xs @ node_image clen width rows gr (a + j)), Suc (a + j)), graph_bytes (drop (Suc (a + j)) gr), br2)"
      using False 2(1) nb by (simp add: sector_node_def)
    then show ?thesis using 1(1) 2(2,3) m by (intro exI [of _ br2]) (simp add: foldR_append)
  qed
qed

text \<open>The bytes of the nodes of one sector, and of a node that takes several.\<close>

definition sector_image :: "nat \<Rightarrow> nat \<Rightarrow> byte list \<Rightarrow> nat list list \<Rightarrow> nat \<Rightarrow> nat \<Rightarrow> byte list" where
  "sector_image clen width rows gr nps k =
     pad_row SECTOR_LEN (concat (map (node_image clen width rows gr) [min (length gr) (k * nps)..<min (length gr) (k * nps + nps)]))"

definition wide_image :: "nat \<Rightarrow> nat \<Rightarrow> byte list \<Rightarrow> nat list list \<Rightarrow> nat \<Rightarrow> byte list" where
  "wide_image clen width rows gr i =
     pad_row (div_round_up (node_len clen width) SECTOR_LEN * SECTOR_LEN) (disk_node clen rows gr i)"

lemma write_sectors_ok:
  assumes inp: "layout_inputs clen width rows gr" and n: "npts = length gr" and len: "len = node_len clen width"
    and nps: "nps = SECTOR_LEN div len" and br: "ci_inv br" "ci_rest br = rows" and w: "co_at_end w0"
  shows "\<exists>rd w. foldR (\<lambda>_. write_sector clen width len nps npts) [0..<k] ((0, (graph_bytes gr, br)), w0)
        = Inr ((min npts (k * nps), (graph_bytes (drop (min npts (k * nps)) gr), rd)), w)
     \<and> ci_inv rd \<and> ci_rest rd = drop (min npts (k * nps) * clen) rows
     \<and> co_at_end w \<and> co_view w = co_view w0 @ concat (map (sector_image clen width rows gr nps) [0..<k])"
proof (induction k)
  case 0
  then show ?case using br w by simp
next
  case (Suc k)
  let ?a = "min npts (k * nps)"
  obtain rd w1 where 1: "foldR (\<lambda>_. write_sector clen width len nps npts) [0..<k] ((0, (graph_bytes gr, br)), w0)
        = Inr ((?a, (graph_bytes (drop ?a gr), rd)), w1)"
     "ci_inv rd" "ci_rest rd = drop (?a * clen) rows" "co_at_end w1"
     "co_view w1 = co_view w0 @ concat (map (sector_image clen width rows gr nps) [0..<k])" using Suc by blast
  have "nps * len \<le> SECTOR_LEN" unfolding nps by simp
  from sector_nodes_ok [OF inp n _ 1(2,3) len this] obtain rd' where 2:
     "foldR (sector_node clen width len npts) [0..<nps] ((replicate SECTOR_LEN 0, ?a), (graph_bytes (drop ?a gr), rd))
     = Inr ((pad_row SECTOR_LEN (concat (map (node_image clen width rows gr) [?a..<min npts (?a + nps)])), min npts (?a + nps)),
            graph_bytes (drop (min npts (?a + nps)) gr), rd')"
     "ci_inv rd'" "ci_rest rd' = drop (min npts (?a + nps) * clen) rows" by auto
  have m: "min npts (?a + nps) = min npts (Suc k * nps)" by simp
  have im: "pad_row SECTOR_LEN (concat (map (node_image clen width rows gr) [?a..<min npts (?a + nps)])) = sector_image clen width rows gr nps k"
    unfolding m by (simp add: sector_image_def n add.commute)
  have "write_sector clen width len nps npts ((?a, (graph_bytes (drop ?a gr), rd)), w1)
      = Inr ((min npts (Suc k * nps), (graph_bytes (drop (min npts (Suc k * nps)) gr), rd')), co_write (sector_image clen width rows gr nps k) w1)"
    unfolding write_sector_def Let_def prod.case 2(1) [unfolded im, unfolded m] by simp
  moreover note cached_sink.put_law [OF 1(4), of "sector_image clen width rows gr nps k"]
  ultimately show ?case using 1(1,5) 2(2,3) unfolding m
    by (intro exI [of _ rd'] exI [of _ "co_write (sector_image clen width rows gr nps k) w1"]) (simp add: foldR_append del: mult_Suc)
qed

lemma div_round_up_ge:
  assumes "0 < S"
  shows "x \<le> div_round_up x S * S"
proof -
  define q r where "q = x div S" and "r = x mod S"
  have "x = q * S + r" "r < S" using assms by (simp_all add: q_def r_def)
  then show ?thesis by (simp add: div_round_up_def q_def [symmetric] r_def [symmetric])
qed

lemma node_len_wide: "node_len clen width \<le> div_round_up (node_len clen width) SECTOR_LEN * SECTOR_LEN"
  by (rule div_round_up_ge) (simp add: SECTOR_LEN_def)

lemma write_wide_ok:
  assumes inp: "layout_inputs clen width rows gr" and len: "len = node_len clen width"
    and br: "ci_inv br" "ci_rest br = rows" and w: "co_at_end w0"
  shows "k \<le> length gr \<Longrightarrow> \<exists>rd w. foldR (\<lambda>_. write_wide_node clen width len) [0..<k] ((graph_bytes gr, br), w0)
        = Inr ((graph_bytes (drop k gr), rd), w) \<and> ci_inv rd \<and> ci_rest rd = drop (k * clen) rows
     \<and> co_at_end w \<and> co_view w = co_view w0 @ concat (map (wide_image clen width rows gr) [0..<k])"
proof (induction k)
  case 0
  then show ?case using br w by simp
next
  case (Suc k)
  then obtain rd w1 where 1: "foldR (\<lambda>_. write_wide_node clen width len) [0..<k] ((graph_bytes gr, br), w0)
        = Inr ((graph_bytes (drop k gr), rd), w1)" "ci_inv rd" "ci_rest rd = drop (k * clen) rows"
     "co_at_end w1" "co_view w1 = co_view w0 @ concat (map (wide_image clen width rows gr) [0..<k])" by auto
  have k: "k < length gr" using Suc.prems by simp
  obtain rd' where 2: "read_disk_node clen width (graph_bytes (drop k gr), rd) = Inr (disk_node clen rows gr k, graph_bytes (drop (Suc k) gr), rd')"
     "ci_inv rd'" "ci_rest rd' = drop (Suc k * clen) rows" using read_disk_node_ok [OF inp k 1(2,3)] by blast
  have "length (disk_node clen rows gr k) \<le> div_round_up len SECTOR_LEN * SECTOR_LEN"
    using disk_node_length [OF inp k] node_len_wide [of clen width] len by simp
  from put_first [OF this] have "write_wide_node clen width len ((graph_bytes (drop k gr), rd), w1)
      = Inr ((graph_bytes (drop (Suc k) gr), rd'), co_write (wide_image clen width rows gr k) w1)"
    using 2(1) len by (simp add: write_wide_node_def wide_image_def)
  moreover note cached_sink.put_law [OF 1(4), of "wide_image clen width rows gr k"]
  ultimately show ?case using 1(1,5) 2(2,3)
    by (intro exI [of _ rd'] exI [of _ "co_write (wide_image clen width rows gr k) w1"]) (simp add: foldR_append)
qed


section \<open>Reading a node back\<close>

text \<open>A node lying at its offset in the sectors that were read.\<close>

lemma node_in_block:
  assumes inp: "layout_inputs clen width rows gr" and i: "i < length gr"
    and buf: "buf = A @ disk_node clen rows gr i @ C" "length A = offset_to_node fi i"
    and fi: "fi_disk_bytes fi = clen" "fi_max_degree fi = width"
  shows "node_coords fi buf i = Inr (row_bytes clen rows i)" "node_nhood fi buf i = Inr (gr ! i)"
proof -
  let ?ns = "gr ! i"
  have ns: "length ?ns \<le> width" "length ?ns < 256 ^ 4" "\<forall>x \<in> set ?ns. x < 256 ^ 4"
    using inp i by (auto simp: layout_inputs_def dest!: nth_mem)
  have l: "length (row_bytes clen rows i) = clen" by (rule row_bytes_length(1) [OF inp i])
  have le: "le_value (le_bytes 4 (length ?ns)) = length ?ns" using ns(2) by (rule le_value_bytes)
  show "node_coords fi buf i = Inr (row_bytes clen rows i)"
    using buf l fi by (simp add: node_coords_def mem_get_def disk_node_def)
  have "mem_get buf (offset_to_node fi i + clen) 4 = Inr (le_bytes 4 (length ?ns))"
    using buf l by (simp add: mem_get_def disk_node_def node_bytes_def)
  moreover have "mem_get buf (offset_to_node fi i + clen + 4) (length ?ns * 4) = Inr (le_array 4 ?ns)"
    using buf l by (simp add: mem_get_def disk_node_def node_bytes_def)
  ultimately show "node_nhood fi buf i = Inr ?ns"
    using ns fi le by (simp add: node_nhood_def le_words_array)
qed

text \<open>The file as a sequence of equal blocks after the metadata sector.\<close>

lemma read_block:
  assumes df: "drop SECTOR_LEN disk_index = concat blocks" "SECTOR_LEN \<le> length disk_index"
    and blocks: "\<forall>b \<in> set blocks. length b = node_sectors fi * SECTOR_LEN" "k < length blocks"
    and fi: "get_node_sector fi i = 1 + k * node_sectors fi"
  shows "read_sectors fi disk_index i = Inr (blocks ! k)"
proof -
  let ?B = "node_sectors fi * SECTOR_LEN"
  have off: "get_node_sector fi i * SECTOR_LEN = SECTOR_LEN + k * ?B" by (simp add: fi algebra_simps)
  have get: "take ?B (drop (k * ?B) (concat blocks)) = blocks ! k" by (rule concat_nth_chunk [OF blocks])
  have "length (concat blocks) = length blocks * ?B" using blocks(1) by (induction blocks) auto
  moreover have "(k + 1) * ?B \<le> length blocks * ?B" using blocks(2) by (intro mult_le_mono) auto
  moreover have "(k + 1) * ?B = k * ?B + ?B" by simp
  moreover have "length disk_index = SECTOR_LEN + length (concat blocks)"
    using arg_cong [OF df(1), of length] df(2) by simp
  ultimately have fit: "SECTOR_LEN + k * ?B + ?B \<le> length disk_index" by linarith
  have "drop (SECTOR_LEN + k * ?B) disk_index = drop (k * ?B) (concat blocks)"
    unfolding df(1) [symmetric] drop_drop by (simp only: add.commute)
  then show ?thesis unfolding read_sectors_def mem_get_def off using fit get by (simp only: if_True)
qed

lemma read_narrow:
  assumes inp: "layout_inputs clen width rows gr" and i: "i < length gr" and nps: "nps = SECTOR_LEN div node_len clen width" "0 < nps"
    and df: "drop SECTOR_LEN disk_index = concat (map (sector_image clen width rows gr nps) [0..<n])" "SECTOR_LEN \<le> length disk_index"
    and n: "length gr \<le> n * nps"
    and fi: "fi_disk_bytes fi = clen" "fi_max_degree fi = width" "fi_nnodes_per_sector fi = nps" "fi_max_node_len fi = node_len clen width"
  shows "read_node fi disk_index i = Inr (row_bytes clen rows i, gr ! i)"
proof -
  let ?len = "node_len clen width" and ?k = "i div nps"
  have fit: "nps * ?len \<le> SECTOR_LEN" unfolding nps(1) by simp
  have kn: "?k < n" using i n nps(2) by (simp add: less_mult_imp_div_less)
  have len: "length (sector_image clen width rows gr nps k) = SECTOR_LEN" for k
  proof -
    let ?a = "min (length gr) (k * nps)" and ?b = "min (length gr) (k * nps + nps)"
    have "length (concat (map (node_image clen width rows gr) [?a..<?b])) = (?b - ?a) * ?len"
      by (rule images_length [OF inp]) simp
    also have "\<dots> \<le> nps * ?len" by (intro mult_le_mono) auto
    finally show ?thesis using fit by (simp add: sector_image_def pad_row_length)
  qed
  have r: "read_sectors fi disk_index i = Inr (map (sector_image clen width rows gr nps) [0..<n] ! ?k)"
    by (rule read_block [OF df]) (use len kn nps(2) fi(3) in \<open>auto simp: node_sectors_def get_node_sector_def\<close>)
  let ?hi = "min (length gr) (?k * nps + nps)"
  have ib: "?k * nps \<le> i" "i < ?k * nps + nps" using nps(2) dividend_less_div_times [of nps i] by simp_all
  have "[?k * nps..<?hi] = [?k * nps..<i] @ i # [Suc i..<?hi]"
  proof -
    have "[?k * nps..<?hi] = [?k * nps..<i] @ [i..<?hi]" using ib i by (metis le_add_diff_inverse less_imp_le min_less_iff_conj upt_add_eq_append)
    also have "[i..<?hi] = i # [Suc i..<?hi]" using ib i by (simp add: upt_conv_Cons)
    finally show ?thesis .
  qed
  moreover have "?k * nps \<le> length gr" using ib(1) i by linarith
  then have "min (length gr) (?k * nps) = ?k * nps" by (rule min_absorb2)
  ultimately have "sector_image clen width rows gr nps ?k
      = pad_row SECTOR_LEN (concat (map (node_image clen width rows gr) [?k * nps..<i]) @ node_image clen width rows gr i
          @ concat (map (node_image clen width rows gr) [Suc i..<?hi]))"
    by (simp add: sector_image_def)
  then obtain C where s: "sector_image clen width rows gr nps ?k
      = concat (map (node_image clen width rows gr) [?k * nps..<i]) @ disk_node clen rows gr i @ C"
    by (auto simp: node_image_def pad_row_def)
  have "length (concat (map (node_image clen width rows gr) [?k * nps..<i])) = (i - ?k * nps) * ?len"
    using images_length [OF inp, of i "?k * nps"] i by simp
  also have "i - ?k * nps = i mod nps" by (simp add: minus_div_mult_eq_mod)
  finally have off: "length (concat (map (node_image clen width rows gr) [?k * nps..<i])) = offset_to_node fi i"
    using nps(2) fi(3,4) by (simp add: offset_to_node_def)
  note nd = node_in_block [OF inp i s off fi(1,2)]
  show ?thesis using r kn nd by (simp add: read_node_def)
qed

lemma read_wide:
  assumes inp: "layout_inputs clen width rows gr" and i: "i < length gr"
    and df: "drop SECTOR_LEN disk_index = concat (map (wide_image clen width rows gr) [0..<length gr])" "SECTOR_LEN \<le> length disk_index"
    and fi: "fi_disk_bytes fi = clen" "fi_max_degree fi = width" "fi_nnodes_per_sector fi = 0" "fi_max_node_len fi = node_len clen width"
  shows "read_node fi disk_index i = Inr (row_bytes clen rows i, gr ! i)"
proof -
  have "length (wide_image clen width rows gr k) = node_sectors fi * SECTOR_LEN" if "k < length gr" for k
    using disk_node_length [OF inp that] node_len_wide [of clen width] fi(3,4) by (simp add: wide_image_def node_sectors_def pad_row_length)
  then have r: "read_sectors fi disk_index i = Inr (map (wide_image clen width rows gr) [0..<length gr] ! i)"
    by (intro read_block [OF df]) (use i fi(3,4) in \<open>auto simp: node_sectors_def get_node_sector_def\<close>)
  have s: "wide_image clen width rows gr i = [] @ disk_node clen rows gr i
      @ replicate (div_round_up (node_len clen width) SECTOR_LEN * SECTOR_LEN - length (disk_node clen rows gr i)) 0"
    by (simp add: wide_image_def pad_row_def)
  have "length ([] :: byte list) = offset_to_node fi i" using fi(3) by (simp add: offset_to_node_def)
  note nd = node_in_block [OF inp i s this fi(1,2)]
  show ?thesis using r i nd by (simp add: read_node_def)
qed


section \<open>The whole file\<close>

lemma save_meta:
  assumes "SECTOR_LEN \<le> length body" "length meta \<le> 100"
  shows "\<exists>disk sz after. save_bin u64_codec body meta (length meta) 1 0 = Inr (disk, sz) \<and> drop SECTOR_LEN disk = drop SECTOR_LEN body
     \<and> length disk = length body \<and> drop 8 disk = le_array 8 meta @ after"
proof -
  let ?h = "bin_header (length meta) 1 @ le_array 8 meta"
  have l: "length ?h \<le> SECTOR_LEN" using assms(2) by (simp add: SECTOR_LEN_def)
  let ?disk = "?h @ drop (length ?h) body"
  have "save_bin u64_codec body meta (length meta) 1 0 = Inr (?disk, length meta * 8 + 8)"
    by (simp add: save_bin_def mem_get_def write_at_def overwrite_def le_array_u64) (simp add: u64_codec_def)
  moreover have "drop SECTOR_LEN ?disk = drop SECTOR_LEN body" using l by simp
  moreover have "length ?disk = length body" using l assms(1) by simp
  moreover have "drop 8 ?disk = le_array 8 meta @ drop (length ?h) body" by simp
  ultimately show ?thesis by blast
qed

lemma load_meta:
  assumes disk: "drop 8 disk = le_array 8 (output_file_meta npts ndims h (node_len clen width) nps None sz) @ after"
    and small: "npts < 2 ^ 64" "ndims < 2 ^ 64" "vh_medoid h < 2 ^ 64" "vh_frozen_num h < 2 ^ 64" "node_len clen width < 2 ^ 64" "nps < 2 ^ 64"
    and width: "width \<le> MAX_GRAPH_DEGREE"
  shows "\<exists>fi. load_disk_metadata clen npts False disk = Inr (Some fi) \<and> fi_disk_bytes fi = clen \<and> fi_max_degree fi = width
     \<and> fi_nnodes_per_sector fi = nps \<and> fi_max_node_len fi = node_len clen width \<and> fi_medoid fi = vh_medoid h
     \<and> fi_num_frozen fi = vh_frozen_num h \<and> fi_num_points fi = npts"
proof -
  let ?ms = "[npts, ndims, vh_medoid h, node_len clen width, nps, vh_frozen_num h, (if vh_frozen_num h = 1 then vh_medoid h else 0), 0]"
  have "drop 8 disk = le_array 8 ?ms @ le_bytes 8 sz @ after"
    using disk by (simp add: output_file_meta_def)
  moreover have "\<forall>x \<in> set ?ms. x < 256 ^ 8" using small by auto
  then have "read_uints 8 8 (le_array 8 ?ms @ le_bytes 8 sz @ after) = Inr (?ms, le_bytes 8 sz @ after)"
    by (rule read_uints_append) simp
  ultimately have r: "read_u64s 8 (drop 8 disk) = Inr (?ms, le_bytes 8 sz @ after)" by (simp add: read_u64s_def)
  have w: "width < 2 ^ 32" using width by (simp add: MAX_GRAPH_DEGREE_def)
  have "node_len clen width + 2 ^ 64 - clen = (width + 1) * 4 + 2 ^ 64" unfolding node_len_def by linarith
  then have "(node_len clen width + 2 ^ 64 - clen) mod 2 ^ 64 = (width + 1) * 4 mod 2 ^ 64" by (simp only: mod_add_self2)
  moreover have "(width + 1) * 4 < 2 ^ 64" using w by simp
  ultimately have "(node_len clen width + 2 ^ 64 - clen) mod 2 ^ 64 = (width + 1) * 4" by (simp only: mod_less)
  then have "((node_len clen width + 2 ^ 64 - clen) mod 2 ^ 64 div 4 + 2 ^ 64 - 1) mod 2 ^ 64 = width"
    using w by simp
  then show ?thesis using r width by (simp add: load_disk_metadata_def)
qed

lemma read_header:
  assumes "fits_file gr" "start < 2 ^ 32" "frozen < 2 ^ 64" "max_degree gr < 2 ^ 32"
  shows "read_vamana_header (graph_header (graph_file_size gr) (max_degree gr) start frozen @ graph_bytes gr)
     = Inr (\<lparr>vh_width = max_degree gr, vh_medoid = start, vh_frozen_num = frozen\<rparr>, graph_bytes gr)"
proof -
  have "graph_file_size gr < 2 ^ 64" using assms(1) by (simp add: fits_file_def)
  then show ?thesis using assms(2-4)
    by (simp add: read_vamana_header_def graph_header_def) (simp add: graph_file_size_def)
qed

text \<open>The sectors after the metadata, and the numbers that describe them.\<close>

definition layout_width :: "nat \<Rightarrow> nat \<Rightarrow> nat" where
  "layout_width clen width = SECTOR_LEN div node_len clen width"

definition layout_sectors :: "nat \<Rightarrow> nat \<Rightarrow> nat \<Rightarrow> nat" where
  "layout_sectors clen width n =
     (if 0 < layout_width clen width then round_up n (layout_width clen width) div layout_width clen width
      else n * div_round_up (node_len clen width) SECTOR_LEN)"

definition layout_blocks :: "nat \<Rightarrow> nat \<Rightarrow> byte list \<Rightarrow> nat list list \<Rightarrow> byte list list" where
  "layout_blocks clen width rows gr =
     (if 0 < layout_width clen width
      then map (sector_image clen width rows gr (layout_width clen width)) [0..<layout_sectors clen width (length gr)]
      else map (wide_image clen width rows gr) [0..<length gr])"

definition layout_meta :: "nat \<Rightarrow> nat \<Rightarrow> vamana_header \<Rightarrow> nat \<Rightarrow> nat list" where
  "layout_meta n d h clen = output_file_meta n d h (node_len clen (vh_width h)) (layout_width clen (vh_width h)) None
     ((layout_sectors clen (vh_width h) n + 1) * SECTOR_LEN)"

lemma layout_blocks_written:
  assumes inp: "layout_inputs clen width rows gr" and br: "ci_inv br" "ci_rest br = rows" and w: "co_at_end w0" and n: "n = length gr"
    and ns: "ns = (if 0 < layout_width clen width then layout_sectors clen width n else 0)"
  shows "\<exists>w. (if 0 < layout_width clen width
       then bindR (foldR (\<lambda>_. write_sector clen width (node_len clen width) (layout_width clen width) n) [0..<ns] ((0, graph_bytes gr, br), w0)) (\<lambda>(_, w). Inr w)
       else bindR (foldR (\<lambda>_. write_wide_node clen width (node_len clen width)) [0..<n] ((graph_bytes gr, br), w0)) (\<lambda>(_, w). Inr w)) = Inr w
     \<and> co_at_end w \<and> co_view w = co_view w0 @ concat (layout_blocks clen width rows gr)"
  using write_sectors_ok [OF inp n refl layout_width_def br w, of ns] write_wide_ok [OF inp refl br w, of n] ns n
  by (cases "0 < layout_width clen width") (auto simp: layout_blocks_def)

lemma layout_written:
  assumes inp: "layout_inputs (d * csize) (vh_width h) rows gr" and n: "n = length gr" "n < 2 ^ 32" "d < 2 ^ 32"
    and vam: "read_vamana_header vamana = Inr (h, graph_bytes gr)"
  shows "\<exists>disk after. create_disk_layout csize (bin_header n d @ rows) vamana None = Inr disk
     \<and> drop SECTOR_LEN disk = concat (layout_blocks (d * csize) (vh_width h) rows gr) \<and> SECTOR_LEN \<le> length disk
     \<and> drop 8 disk = le_array 8 (layout_meta n d h (d * csize)) @ after"
proof -
  define clen where "clen = d * csize"
  define width where "width = vh_width h"
  note inp' = inp [folded clen_def width_def]
  let ?base = "bin_header n d @ rows"
  obtain br1 where b1: "ci_read (ci_open ?base layout_block) 4 = Inr (le_bytes 4 n, br1)" "ci_inv br1" "ci_rest br1 = le_bytes 4 d @ rows"
    using ci_read_correct [OF ci_open_correct(1), of 4 ?base layout_block] ci_open_correct(2) [of ?base layout_block] by (auto simp: bin_header_def)
  obtain br where b2: "ci_read br1 4 = Inr (le_bytes 4 d, br)" "ci_inv br" "ci_rest br = rows"
    using ci_read_correct [OF b1(2), of 4] b1(3) by auto
  have nd: "le_value (le_bytes 4 n) = n" "le_value (le_bytes 4 d) = d" using n(2,3) by simp_all
  define w0 where "w0 = co_write (replicate SECTOR_LEN 0) (co_open layout_block)"
  have w: "co_at_end w0" "co_view w0 = replicate SECTOR_LEN 0"
    using cached_sink.put_law [OF co_open_at_end(1), of "replicate SECTOR_LEN 0" layout_block] co_open_at_end(2) by (simp_all add: w0_def)
  obtain w1 where w1: "(if 0 < layout_width clen width
       then bindR (foldR (\<lambda>_. write_sector clen width (node_len clen width) (layout_width clen width) n)
              [0..<if 0 < layout_width clen width then layout_sectors clen width n else 0] ((0, graph_bytes gr, br), w0)) (\<lambda>(_, w). Inr w)
       else bindR (foldR (\<lambda>_. write_wide_node clen width (node_len clen width)) [0..<n] ((graph_bytes gr, br), w0)) (\<lambda>(_, w). Inr w)) = Inr w1"
      "co_at_end w1" "co_view w1 = replicate SECTOR_LEN 0 @ concat (layout_blocks clen width rows gr)"
    using layout_blocks_written [OF inp' b2(2,3) w(1) n(1) refl] w(2) by auto
  have cl: "co_disk (co_close w1) = replicate SECTOR_LEN 0 @ concat (layout_blocks clen width rows gr)"
    using co_close_view [of w1] w1(2,3) by (simp add: co_at_end_def)
  let ?meta = "layout_meta n d h clen"
  have "SECTOR_LEN \<le> length (co_disk (co_close w1))" "length ?meta \<le> 100" by (simp_all add: cl layout_meta_def output_file_meta_def)
  from save_meta [OF this] obtain disk after where disk: "\<exists>z. save_bin u64_codec (co_disk (co_close w1)) ?meta (length ?meta) 1 0 = Inr (disk, z)"
      "drop SECTOR_LEN disk = concat (layout_blocks clen width rows gr)" "SECTOR_LEN \<le> length disk" "drop 8 disk = le_array 8 ?meta @ after"
    unfolding cl by auto
  have nl: "4 + width * 4 + clen = node_len clen width" by (simp add: node_len_def)
  have nse: "0 < layout_width clen width \<Longrightarrow> round_up n (layout_width clen width) div layout_width clen width = layout_sectors clen width n"
      "layout_width clen width = 0 \<Longrightarrow> n * div_round_up (node_len clen width) SECTOR_LEN = layout_sectors clen width n"
    by (simp_all add: layout_sectors_def)
  have "create_disk_layout csize ?base vamana None = Inr disk"
    using b1(1) b2(1) vam w1(1) disk(1) unfolding layout_meta_def width_def [symmetric]
    by (auto simp: create_disk_layout_def nd width_def [symmetric] nl clen_def [symmetric] layout_width_def [symmetric] nse w0_def [symmetric] Let_def)
  then show ?thesis using disk(2-4) unfolding clen_def width_def by blast
qed

lemma layout_read_back:
  assumes inp: "layout_inputs clen width rows gr"
    and df: "drop SECTOR_LEN disk = concat (layout_blocks clen width rows gr)" "SECTOR_LEN \<le> length disk"
    and fi: "fi_disk_bytes fi = clen" "fi_max_degree fi = width" "fi_nnodes_per_sector fi = layout_width clen width" "fi_max_node_len fi = node_len clen width"
    and i: "i < length gr"
  shows "read_node fi disk i = Inr (row_bytes clen rows i, gr ! i)"
proof (cases "0 < layout_width clen width")
  case True
  let ?nps = "layout_width clen width"
  have "round_up (length gr) ?nps = div_round_up (length gr) ?nps * ?nps" by (simp add: round_up_def div_round_up_def)
  then have "length gr \<le> layout_sectors clen width (length gr) * ?nps"
    using True div_round_up_ge [OF True, of "length gr"] by (simp add: layout_sectors_def)
  then show ?thesis
    using read_narrow [OF inp i layout_width_def True _ df(2) _ fi] df(1) True by (simp add: layout_blocks_def)
next
  case False
  then show ?thesis using read_wide [OF inp i _ df(2) fi(1,2) _ fi(4)] df(1) fi(3) by (simp add: layout_blocks_def)
qed

lemma disk_layout_ok:
  assumes graph: "n \<le> length (gs_graph g)" "fits_file (take n (gs_graph g))" "save_graph g n frozen start = Inr (vamana, sz)"
    and small: "n < 2 ^ 32" "d < 2 ^ 32" "csize \<le> 16" "start < 2 ^ 32" "frozen < 2 ^ 64"
    and degree: "\<forall>ns \<in> set (take n (gs_graph g)). length ns \<le> MAX_GRAPH_DEGREE"
    and rows: "length rows = n * (d * csize)"
  shows "\<exists>disk fi. create_disk_layout csize (bin_header n d @ rows) vamana None = Inr disk
     \<and> load_disk_metadata (d * csize) n False disk = Inr (Some fi) \<and> fi_disk_bytes fi = d * csize \<and> fi_num_points fi = n
     \<and> fi_medoid fi = start \<and> fi_num_frozen fi = frozen \<and> fi_max_degree fi = max_degree (take n (gs_graph g))
     \<and> (\<forall>i < n. read_node fi disk i = Inr (take (d * csize) (drop (i * (d * csize)) rows), gs_graph g ! i))"
proof -
  define gr where "gr = take n (gs_graph g)"
  define clen where "clen = d * csize"
  define h where "h = \<lparr>vh_width = max_degree gr, vh_medoid = start, vh_frozen_num = frozen\<rparr>"
  have lg: "length gr = n" using graph(1) by (simp add: gr_def)
  have wd: "max_degree gr \<le> MAX_GRAPH_DEGREE"
    using max_degree_bound [of gr "MAX_GRAPH_DEGREE + 1"] degree by (simp add: gr_def le_imp_less_Suc less_Suc_eq_le)
  have w32: "max_degree gr < 2 ^ 32" using wd by (simp add: MAX_GRAPH_DEGREE_def)
  have inp: "layout_inputs clen (vh_width h) rows gr"
    using w32 rows lg graph(2) max_degree_ge [of _ gr] by (auto simp: layout_inputs_def h_def clen_def gr_def fits_file_def)
  have "vamana = graph_header (graph_file_size gr) (max_degree gr) start frozen @ graph_bytes gr"
    using trans [OF graph(3) [symmetric] save_graph_file [OF graph(1,2), of frozen start]] by (simp add: gr_def)
  then have vam: "read_vamana_header vamana = Inr (h, graph_bytes gr)"
    using read_header [of gr start frozen] graph(2) small w32 by (simp add: gr_def h_def)
  obtain disk after where disk: "create_disk_layout csize (bin_header n d @ rows) vamana None = Inr disk"
     "drop SECTOR_LEN disk = concat (layout_blocks clen (vh_width h) rows gr)" "SECTOR_LEN \<le> length disk"
     "drop 8 disk = le_array 8 (layout_meta n d h clen) @ after"
    using layout_written [OF inp [unfolded clen_def] lg [symmetric] small(1,2) vam] unfolding clen_def by blast
  have "d * csize \<le> 2 ^ 32 * 16" using small(2,3) by (intro mult_le_mono) simp_all
  then have len64: "node_len clen (vh_width h) < 2 ^ 64" using w32 by (simp add: node_len_def clen_def h_def)
  have "layout_width clen (vh_width h) \<le> SECTOR_LEN" by (simp add: layout_width_def)
  then have n64: "layout_width clen (vh_width h) < 2 ^ 64" by (simp add: SECTOR_LEN_def)
  have "vh_width h \<le> MAX_GRAPH_DEGREE" using wd by (simp add: h_def)
  from load_meta [OF disk(4) [unfolded layout_meta_def] _ _ _ _ len64 n64 this]
  obtain fi where fi: "load_disk_metadata clen n False disk = Inr (Some fi)" "fi_disk_bytes fi = clen" "fi_max_degree fi = vh_width h"
      "fi_nnodes_per_sector fi = layout_width clen (vh_width h)" "fi_max_node_len fi = node_len clen (vh_width h)"
      "fi_medoid fi = start" "fi_num_frozen fi = frozen" "fi_num_points fi = n"
    using small by (auto simp: h_def)
  have "\<forall>i < n. read_node fi disk i = Inr (take (d * csize) (drop (i * (d * csize)) rows), gs_graph g ! i)"
    using layout_read_back [OF inp disk(2,3) fi(2-5)] lg by (simp add: row_bytes_def clen_def gr_def)
  then show ?thesis using disk(1) fi by (intro exI [of _ disk] exI [of _ fi]) (simp add: clen_def gr_def h_def)
qed




section \<open>Re-ordering data that does not fill its last sector\<close>

lemma read_bytes_length: "read_bytes n bs = Inr (b, r) \<Longrightarrow> length bs = n + length r"
  by (auto simp: read_bytes_def split: if_splits)

lemma reorder_vector_length:
  "reorder_vector v j (buf, rd) = Inr (buf', rd') \<Longrightarrow> length rd = v + length rd'"
  by (auto simp: reorder_vector_def bindR_eq_Inr dest: read_bytes_length)

lemma reorder_vectors_length:
  "foldR (reorder_vector v) xs (buf, rd) = Inr (buf', rd') \<Longrightarrow> length rd = length xs * v + length rd'"
proof (induction xs arbitrary: buf rd)
  case (Cons x xs)
  then obtain buf1 rd1 where 1: "reorder_vector v x (buf, rd) = Inr (buf1, rd1)" "foldR (reorder_vector v) xs (buf1, rd1) = Inr (buf', rd')"
    by (auto simp: bindR_eq_Inr)
  show ?case using reorder_vector_length [OF 1(1)] Cons.IH [OF 1(2)] by simp
qed simp

lemma reorder_sectors_length:
  "foldR (\<lambda>_. write_reorder_sector v per npts) xs (rd, w) = Inr (rd', w') \<Longrightarrow> length rd = length xs * (min per npts * v) + length rd'"
proof (induction xs arbitrary: rd w)
  case (Cons x xs)
  then obtain rd1 w1 where 1: "write_reorder_sector v per npts (rd, w) = Inr (rd1, w1)"
      "foldR (\<lambda>_. write_reorder_sector v per npts) xs (rd1, w1) = Inr (rd', w')"
    by (auto simp: bindR_eq_Inr)
  then have "length rd = min per npts * v + length rd1"
    using reorder_vectors_length by (fastforce simp: write_reorder_sector_def bindR_eq_Inr)
  then show ?case using Cons.IH [OF 1(2)] by simp
qed simp

lemma create_reorder_reads:
  assumes "create_disk_layout csize base vamana (Some f) = Inr disk"
  shows "\<exists>b1 br1 d rd w rd' w'. ci_read (ci_open base layout_block) 4 = Inr (b1, br1) \<and> open_reorder_file (le_value b1) f = Inr (d, rd)
     \<and> d \<noteq> 0 \<and> SECTOR_LEN div (d * 4) \<noteq> 0
     \<and> foldR (\<lambda>_. write_reorder_sector (d * 4) (SECTOR_LEN div (d * 4)) (le_value b1))
          [0..<round_up (le_value b1) (SECTOR_LEN div (d * 4)) div (SECTOR_LEN div (d * 4))] (rd, w) = Inr (rd', w')"
  using assms unfolding create_disk_layout_def Let_def
  apply (clarsimp simp: bindR_eq_Inr simp del: div_eq_0_iff split: if_split_asm)
  apply blast
  apply blast
  done



end
