(* ===== verification/Pq_Table.thy ===== *)
theory Pq_Table
  imports Bin_IO
begin

text \<open>
  Product quantisation at query time (\<^verbatim>\<open>src/pq.cpp\<close>): the class
  \<^verbatim>\<open>FixedChunkPQTable\<close> and the distance look-up. The dimensions are cut into chunks,
  each chunk has 256 centres, and a compressed vector holds one centre number per chunk. The transposed table
  lists, for each dimension, the values of all centres.
\<close>

section \<open>The table\<close>

record pq_table =
  pt_tables :: "fl list"
  pt_ndims :: nat
  pt_n_chunks :: nat
  pt_use_rotation :: bool
  pt_chunk_offsets :: "nat list"
  pt_centroid :: "fl list"
  pt_tables_tr :: "fl list"
  pt_rotmat_tr :: "fl list"

definition NUM_PQ_CENTROIDS :: nat where
  "NUM_PQ_CENTROIDS = 256"

definition pt_make :: pq_table where
  "pt_make = \<lparr>pt_tables = [], pt_ndims = 0, pt_n_chunks = 0, pt_use_rotation = False, pt_chunk_offsets = [],
     pt_centroid = [], pt_tables_tr = [], pt_rotmat_tr = []\<rparr>"

definition transpose_tables :: "nat \<Rightarrow> fl list \<Rightarrow> fl list" where
  "transpose_tables nd tables = concat (map (\<lambda>j. map (\<lambda>i. tables ! (i * nd + j)) [0..<256]) [0..<nd])"

definition pivots_error :: "string \<Rightarrow> cxx_error" where
  "pivots_error part = ANNException (''Error reading pq_pivots file at '' @ part @ '' data.'')"

definition load_rotation :: "fl codec \<Rightarrow> byte list option \<Rightarrow> pq_table \<Rightarrow> pq_table result" where
  "load_rotation F rotmat_file pt =
     (case rotmat_file of None \<Rightarrow> Inr pt
      | Some file \<Rightarrow> bindR (load_bin F file 0) (\<lambda>(rotmat, nr, nc).
          if nr \<noteq> pt_ndims pt \<or> nc \<noteq> pt_ndims pt then Inl (ANNException ''Error loading rotation matrix file'')
          else Inr (pt\<lparr>pt_rotmat_tr := rotmat, pt_use_rotation := True\<rparr>)))"

text \<open>\<open>F\<close> is the representation of a \<^verbatim>\<open>float\<close>. The file starts with the offsets of its parts.\<close>

definition load_pq_centroid_bin ::
  "fl codec \<Rightarrow> byte list \<Rightarrow> byte list option \<Rightarrow> nat \<Rightarrow> pq_table \<Rightarrow> pq_table result" where
  "load_pq_centroid_bin F pq_table_file rotmat_file num_chunks pt =
     bindR (load_bin u64_codec pq_table_file 0) (\<lambda>(file_offset_data, nr, nc).
     if nr \<noteq> 4 \<and> nr \<noteq> 5 then Inl (pivots_error ''offsets'')
     else bindR (vec_at file_offset_data 0) (\<lambda>o0.
     bindR (load_bin F pq_table_file o0) (\<lambda>(tables, nr1, nc1).
     if nr1 \<noteq> NUM_PQ_CENTROIDS then Inl (pivots_error ''pivots'')
     else bindR (vec_at file_offset_data 1) (\<lambda>o1.
     bindR (load_bin F pq_table_file o1) (\<lambda>(centroid, nr2, nc2).
     if nr2 \<noteq> nc1 \<or> nc2 \<noteq> 1 then Inl (pivots_error ''centroid'')
     else bindR (vec_at file_offset_data (if nr = 5 then 3 else 2)) (\<lambda>o2.
     bindR (load_bin u32_codec pq_table_file o2) (\<lambda>(chunk_offsets, nr3, nc3).
     if nc3 \<noteq> 1 \<or> (nr3 \<noteq> num_chunks + 1 \<and> num_chunks \<noteq> 0) then Inl (ANNException ''Error loading chunk offsets file'')
     else load_rotation F rotmat_file
       (pt\<lparr>pt_tables := tables, pt_ndims := nc1, pt_centroid := centroid, pt_chunk_offsets := chunk_offsets,
           pt_n_chunks := (nr3 + 2 ^ 64 - 1) mod 2 ^ 64, pt_tables_tr := transpose_tables nc1 tables\<rparr>))))))))"

definition get_num_chunks :: "pq_table \<Rightarrow> nat" where
  "get_num_chunks pt = u32 (pt_n_chunks pt)"

section \<open>Queries\<close>

text \<open>Centring and rotating the query; the buffer may be longer than the dimension.\<close>

definition rotate_row :: "pq_table \<Rightarrow> fl list \<Rightarrow> nat \<Rightarrow> fl result" where
  "rotate_row pt query d =
     foldR (\<lambda>d1 s. bindR (vec_at query d1) (\<lambda>x. bindR (vec_at (pt_rotmat_tr pt) (d1 * pt_ndims pt + d)) (\<lambda>r.
       Inr (fl_add F32 s (fl_mul F32 x r))))) [0..<pt_ndims pt] (Fin 0)"

definition preprocess_query :: "pq_table \<Rightarrow> fl list \<Rightarrow> fl list result" where
  "preprocess_query pt query_vec =
     bindR (foldR (\<lambda>d q. bindR (vec_at q d) (\<lambda>x. bindR (vec_at (pt_centroid pt) d) (\<lambda>c. vec_put q d (fl_sub F32 x c))))
        [0..<pt_ndims pt] query_vec) (\<lambda>q.
     if pt_use_rotation pt
     then bindR (mapR (rotate_row pt q) [0..<pt_ndims pt]) (\<lambda>tmp. mem_put q 0 tmp)
     else Inr q)"

text \<open>The loop over the dimensions, chunk by chunk, that all the routines share.\<close>

definition chunk_loop :: "pq_table \<Rightarrow> nat \<Rightarrow> (nat \<Rightarrow> 's \<Rightarrow> 's result) \<Rightarrow> 's \<Rightarrow> 's result" where
  "chunk_loop pt chunk f s =
     bindR (vec_at (pt_chunk_offsets pt) chunk) (\<lambda>a. bindR (vec_at (pt_chunk_offsets pt) (chunk + 1)) (\<lambda>b.
       foldR f [a..<b] s))"

text \<open>One term of a chunk distance: the difference is a \<^verbatim>\<open>float\<close>, its square a \<^verbatim>\<open>double\<close>.\<close>

definition l2_term :: "fl \<Rightarrow> fl \<Rightarrow> fl \<Rightarrow> fl" where
  "l2_term s center x = (let diff = fl_sub F32 center x in fl_add F32 s (fl_conv F32 (fl_mul F64 diff diff)))"

definition ip_term :: "fl \<Rightarrow> fl \<Rightarrow> fl \<Rightarrow> fl" where
  "ip_term s center x = fl_sub F32 s (fl_mul F32 center x)"

definition add_dimension :: "(fl \<Rightarrow> fl \<Rightarrow> fl \<Rightarrow> fl) \<Rightarrow> pq_table \<Rightarrow> fl list \<Rightarrow> nat \<Rightarrow> fl list \<Rightarrow> fl list result" where
  "add_dimension term_of pt query_vec j chunk_dists =
     bindR (mem_get (pt_tables_tr pt) (256 * j) 256) (\<lambda>centers_dim_vec. bindR (vec_at query_vec j) (\<lambda>x.
       Inr (map2 (\<lambda>s center. term_of s center x) chunk_dists centers_dim_vec)))"

definition populate_with :: "(fl \<Rightarrow> fl \<Rightarrow> fl \<Rightarrow> fl) \<Rightarrow> pq_table \<Rightarrow> fl list \<Rightarrow> fl list \<Rightarrow> fl list result" where
  "populate_with term_of pt query_vec dist_vec =
     bindR (mem_put dist_vec 0 (replicate (256 * pt_n_chunks pt) (Fin 0))) (\<lambda>dv.
       foldR (\<lambda>chunk dv. bindR (mem_get dv (256 * chunk) 256) (\<lambda>chunk_dists.
           bindR (chunk_loop pt chunk (add_dimension term_of pt query_vec) chunk_dists) (\<lambda>cd. mem_put dv (256 * chunk) cd)))
         [0..<pt_n_chunks pt] dv)"

definition populate_chunk_distances :: "pq_table \<Rightarrow> fl list \<Rightarrow> fl list \<Rightarrow> fl list result" where
  "populate_chunk_distances = populate_with l2_term"

definition populate_chunk_inner_products :: "pq_table \<Rightarrow> fl list \<Rightarrow> fl list \<Rightarrow> fl list result" where
  "populate_chunk_inner_products = populate_with ip_term"

text \<open>Direct distances to a compressed vector.\<close>

definition center_at :: "pq_table \<Rightarrow> nat list \<Rightarrow> nat \<Rightarrow> nat \<Rightarrow> fl result" where
  "center_at pt base_vec chunk j = bindR (vec_at base_vec chunk) (\<lambda>c. vec_at (pt_tables_tr pt) (256 * j + c))"

definition l2_distance :: "pq_table \<Rightarrow> fl list \<Rightarrow> nat list \<Rightarrow> fl result" where
  "l2_distance pt query_vec base_vec =
     foldR (\<lambda>chunk. chunk_loop pt chunk (\<lambda>j res. bindR (center_at pt base_vec chunk j) (\<lambda>v. bindR (vec_at query_vec j) (\<lambda>x.
       let diff = fl_sub F32 v x in Inr (fl_add F32 res (fl_mul F32 diff diff)))))) [0..<pt_n_chunks pt] (Fin 0)"

definition inner_product :: "pq_table \<Rightarrow> fl list \<Rightarrow> nat list \<Rightarrow> fl result" where
  "inner_product pt query_vec base_vec =
     bindR (foldR (\<lambda>chunk. chunk_loop pt chunk (\<lambda>j res. bindR (center_at pt base_vec chunk j) (\<lambda>v. bindR (vec_at query_vec j) (\<lambda>x.
       Inr (fl_add F32 res (fl_mul F32 v x)))))) [0..<pt_n_chunks pt] (Fin 0)) (\<lambda>res. Inr (fl_neg res))"

definition inflate_vector :: "pq_table \<Rightarrow> nat list \<Rightarrow> fl list \<Rightarrow> fl list result" where
  "inflate_vector pt base_vec out_vec =
     foldR (\<lambda>chunk. chunk_loop pt chunk (\<lambda>j out. bindR (center_at pt base_vec chunk j) (\<lambda>v. bindR (vec_at (pt_centroid pt) j) (\<lambda>c.
       vec_put out j (fl_add F32 v c))))) [0..<pt_n_chunks pt] out_vec"

section \<open>Look-up\<close>

definition aggregate_coords :: "nat list \<Rightarrow> nat list \<Rightarrow> nat \<Rightarrow> nat list \<Rightarrow> nat list result" where
  "aggregate_coords ids all_coords ndims out =
     foldR (\<lambda>i out. bindR (mem_get all_coords (ids ! i * ndims) ndims) (\<lambda>v. mem_put out (i * ndims) v)) [0..<length ids] out"

definition lookup_step :: "nat list \<Rightarrow> nat \<Rightarrow> fl list \<Rightarrow> nat \<Rightarrow> nat \<Rightarrow> fl list \<Rightarrow> fl list result" where
  "lookup_step pq_ids pq_nchunks pq_dists chunk idx dists_out =
     bindR (vec_at pq_ids (pq_nchunks * idx + chunk)) (\<lambda>pq_centerid.
     bindR (vec_at pq_dists (256 * chunk + pq_centerid)) (\<lambda>d.
     bindR (vec_at dists_out idx) (\<lambda>s. vec_put dists_out idx (fl_add F32 s d))))"

definition pq_dist_lookup :: "nat list \<Rightarrow> nat \<Rightarrow> nat \<Rightarrow> fl list \<Rightarrow> fl list \<Rightarrow> fl list result" where
  "pq_dist_lookup pq_ids n_pts pq_nchunks pq_dists dists_out =
     bindR (mem_put dists_out 0 (replicate n_pts (Fin 0))) (\<lambda>out.
       foldR (\<lambda>chunk. foldR (lookup_step pq_ids pq_nchunks pq_dists chunk) [0..<n_pts]) [0..<pq_nchunks] out)"

text \<open>The variant on a vector, and the batch computation of the searches.\<close>

definition pq_dist_lookup_vec :: "nat list \<Rightarrow> nat \<Rightarrow> nat \<Rightarrow> fl list \<Rightarrow> fl list result" where
  "pq_dist_lookup_vec pq_ids n_pts pq_nchunks pq_dists = pq_dist_lookup pq_ids n_pts pq_nchunks pq_dists (replicate n_pts (Fin 0))"

definition compute_dists :: "nat list \<Rightarrow> nat \<Rightarrow> fl list \<Rightarrow> nat list \<Rightarrow> nat list \<times> fl list \<Rightarrow> (nat list \<times> fl list) result" where
  "compute_dists data n_chunks pq_dists ids scratch =
     (let (pq_coord_scratch, dist_scratch) = scratch in
      bindR (aggregate_coords ids data n_chunks pq_coord_scratch) (\<lambda>cs.
      bindR (pq_dist_lookup cs (length ids) n_chunks pq_dists dist_scratch) (\<lambda>ds. Inr (cs, ds))))"

section \<open>Chunks cover the dimensions\<close>

definition pt_ok :: "pq_table \<Rightarrow> bool" where
  "pt_ok pt \<longleftrightarrow> length (pt_chunk_offsets pt) = pt_n_chunks pt + 1 \<and> pt_chunk_offsets pt ! 0 = 0
     \<and> pt_chunk_offsets pt ! pt_n_chunks pt = pt_ndims pt
     \<and> (\<forall>c < pt_n_chunks pt. pt_chunk_offsets pt ! c \<le> pt_chunk_offsets pt ! (c + 1))
     \<and> length (pt_tables_tr pt) = 256 * pt_ndims pt \<and> length (pt_centroid pt) = pt_ndims pt"

definition chunk_of :: "pq_table \<Rightarrow> nat \<Rightarrow> nat" where
  "chunk_of pt j = length (filter (\<lambda>c. pt_chunk_offsets pt ! (c + 1) \<le> j) [0..<pt_n_chunks pt])"

text \<open>The centre values a compressed vector stands for.\<close>

definition reconstructed :: "pq_table \<Rightarrow> nat list \<Rightarrow> fl list" where
  "reconstructed pt base_vec = map (\<lambda>j. pt_tables_tr pt ! (256 * j + base_vec ! chunk_of pt j)) [0..<pt_ndims pt]"

lemma offsets_mono:
  assumes "pt_ok pt" "a \<le> b" "b \<le> pt_n_chunks pt"
  shows "pt_chunk_offsets pt ! a \<le> pt_chunk_offsets pt ! b"
  using assms(2,3)
proof (induction b rule: dec_induct)
  case (step m)
  then have "m < pt_n_chunks pt" by simp
  then have "pt_chunk_offsets pt ! m \<le> pt_chunk_offsets pt ! (m + 1)" using assms(1) by (simp add: pt_ok_def)
  then show ?case using step by simp
qed simp

lemma offset_bound: "pt_ok pt \<Longrightarrow> c \<le> pt_n_chunks pt \<Longrightarrow> pt_chunk_offsets pt ! c \<le> pt_ndims pt"
  using offsets_mono [of pt c "pt_n_chunks pt"] by (simp add: pt_ok_def)

lemma chunk_of_in:
  assumes ok: "pt_ok pt" and c: "c < pt_n_chunks pt" and j: "pt_chunk_offsets pt ! c \<le> j" "j < pt_chunk_offsets pt ! (c + 1)"
  shows "chunk_of pt j = c"
proof -
  have lo: "pt_chunk_offsets pt ! (i + 1) \<le> j" if "i < c" for i
    using offsets_mono [OF ok, of "i + 1" c] that c j(1) by simp
  have hi: "\<not> pt_chunk_offsets pt ! (i + 1) \<le> j" if "c \<le> i" "i < pt_n_chunks pt" for i
    using offsets_mono [OF ok, of "c + 1" "i + 1"] that j(2) by simp
  have up: "[0..<pt_n_chunks pt] = [0..<c] @ [c..<pt_n_chunks pt]" using c upt_add_eq_append [of 0 c "pt_n_chunks pt - c"] by simp
  have f1: "filter (\<lambda>i. pt_chunk_offsets pt ! (i + 1) \<le> j) [0..<c] = [0..<c]"
    by (rule filter_True) (use lo in auto)
  have f2: "filter (\<lambda>i. pt_chunk_offsets pt ! (i + 1) \<le> j) [c..<pt_n_chunks pt] = []"
    by (rule filter_False) (use hi in auto)
  show ?thesis unfolding chunk_of_def up filter_append f1 f2 by simp
qed

text \<open>The loops over the chunks visit each dimension once, in order.\<close>

lemma chunks_are_dimensions:
  assumes ok: "pt_ok pt"
  shows "foldR (\<lambda>chunk. chunk_loop pt chunk (f chunk)) [0..<pt_n_chunks pt] s = foldR (\<lambda>j. f (chunk_of pt j) j) [0..<pt_ndims pt] s"
proof -
  have "k \<le> pt_n_chunks pt \<Longrightarrow>
    foldR (\<lambda>chunk. chunk_loop pt chunk (f chunk)) [0..<k] s = foldR (\<lambda>j. f (chunk_of pt j) j) [0..<pt_chunk_offsets pt ! k] s" for k
  proof (induction k)
    case 0
    then show ?case using ok by (simp add: pt_ok_def)
  next
    case (Suc k)
    let ?a = "pt_chunk_offsets pt ! k" and ?b = "pt_chunk_offsets pt ! (k + 1)"
    have k: "k < pt_n_chunks pt" "?a \<le> ?b" using Suc.prems offsets_mono [OF ok, of k "k + 1"] by simp_all
    have "chunk_loop pt k (f k) s' = foldR (f k) [?a..<?b] s'" for s'
      using ok k(1) by (simp add: chunk_loop_def pt_ok_def)
    moreover have "foldR (f k) [?a..<?b] s' = foldR (\<lambda>j. f (chunk_of pt j) j) [?a..<?b] s'" for s'
      by (rule foldR_cong) (use chunk_of_in [OF ok k(1)] in simp)
    ultimately have loop: "chunk_loop pt k (f k) = foldR (\<lambda>j. f (chunk_of pt j) j) [?a..<?b]" by (intro ext) simp
    have up: "[0..<pt_chunk_offsets pt ! Suc k] = [0..<?a] @ [?a..<?b]" using upt_add_eq_append [of 0 ?a "?b - ?a"] k(2) by simp
    have IH: "foldR (\<lambda>chunk. chunk_loop pt chunk (f chunk)) [0..<k] s = foldR (\<lambda>j. f (chunk_of pt j) j) [0..<?a] s"
      using Suc.IH k(1) by simp
    show ?case unfolding up foldR_append IH [symmetric] loop [symmetric] upt_Suc by (simp add: foldR_append foldR_one)
  qed
  from this [of "pt_n_chunks pt"] show ?thesis using ok by (simp add: pt_ok_def)
qed

lemma chunk_of_less:
  assumes "pt_ok pt" "j < pt_ndims pt"
  shows "chunk_of pt j < pt_n_chunks pt"
proof -
  have n: "0 < pt_n_chunks pt" using assms by (cases "pt_n_chunks pt") (simp_all add: pt_ok_def)
  then have "\<not> pt_chunk_offsets pt ! (pt_n_chunks pt - 1 + 1) \<le> j" using assms by (simp add: pt_ok_def)
  then have "length (filter (\<lambda>c. pt_chunk_offsets pt ! (c + 1) \<le> j) [0..<pt_n_chunks pt]) < length [0..<pt_n_chunks pt]"
    by (rule length_filter_less [rotated]) (use n in simp)
  then show ?thesis by (simp add: chunk_of_def)
qed

definition code_ok :: "pq_table \<Rightarrow> nat list \<Rightarrow> bool" where
  "code_ok pt code \<longleftrightarrow> length code = pt_n_chunks pt \<and> (\<forall>c \<in> set code. c < 256)"

lemma center_at_ok:
  assumes "pt_ok pt" "code_ok pt code" "j < pt_ndims pt"
  shows "center_at pt code (chunk_of pt j) j = Inr (reconstructed pt code ! j)"
proof -
  have c: "chunk_of pt j < length code" using chunk_of_less [OF assms(1,3)] assms(2) by (simp add: code_ok_def)
  then have "code ! chunk_of pt j < 256" using assms(2) by (simp add: code_ok_def)
  then have "256 * j + code ! chunk_of pt j < length (pt_tables_tr pt)" using assms(1,3) by (simp add: pt_ok_def)
  then show ?thesis using c assms(3) by (simp add: center_at_def reconstructed_def)
qed

section \<open>Direct distances\<close>

text \<open>The squared distance of two vectors in \<^verbatim>\<open>float\<close> arithmetic, dimension by dimension.\<close>

definition float_l2 :: "fl list \<Rightarrow> fl list \<Rightarrow> fl" where
  "float_l2 v q = fold (\<lambda>j res. let diff = fl_sub F32 (v ! j) (q ! j) in fl_add F32 res (fl_mul F32 diff diff)) [0..<length v] (Fin 0)"

definition float_ip :: "fl list \<Rightarrow> fl list \<Rightarrow> fl" where
  "float_ip v q = fold (\<lambda>j res. fl_add F32 res (fl_mul F32 (v ! j) (q ! j))) [0..<length v] (Fin 0)"

text \<open>\<^bold>\<open>C25\<close> The distances \<^verbatim>\<open>FixedChunkPQTable\<close> computes to a compressed vector, chunk by chunk through the transposed table,
  are the \<^verbatim>\<open>float\<close> L2 distance and the negated inner product of the query and the reconstructed
  vector, dimension by dimension in the same order; \<^verbatim>\<open>inflate_vector\<close> writes that vector plus the centroid.\<close>

theorem pq_distance_is_reconstructed:
  assumes "pt_ok pt" "code_ok pt code" "pt_ndims pt \<le> length query" "pt_ndims pt \<le> length out"
  shows "l2_distance pt query code = Inr (float_l2 (reconstructed pt code) query)
     \<and> inner_product pt query code = Inr (fl_neg (float_ip (reconstructed pt code) query))
     \<and> inflate_vector pt code out = Inr (map2 (fl_add F32) (reconstructed pt code) (pt_centroid pt) @ drop (pt_ndims pt) out)"
proof (intro conjI)
  note dims = chunks_are_dimensions [OF assms(1)]
  have len: "length (reconstructed pt code) = pt_ndims pt" by (simp add: reconstructed_def)
  show "l2_distance pt query code = Inr (float_l2 (reconstructed pt code) query)"
    unfolding l2_distance_def dims float_l2_def len
    by (rule foldR_pure) (use assms center_at_ok [OF assms(1,2)] in \<open>auto simp: Let_def\<close>)
  have "foldR (\<lambda>j res. bindR (center_at pt code (chunk_of pt j) j) (\<lambda>v. bindR (vec_at query j) (\<lambda>x. Inr (fl_add F32 res (fl_mul F32 v x)))))
      [0..<pt_ndims pt] (Fin 0) = Inr (float_ip (reconstructed pt code) query)"
    unfolding float_ip_def len by (rule foldR_pure) (use assms center_at_ok [OF assms(1,2)] in auto)
  then show "inner_product pt query code = Inr (fl_neg (float_ip (reconstructed pt code) query))"
    unfolding inner_product_def dims by simp
  have c: "length (pt_centroid pt) = pt_ndims pt" using assms(1) by (simp add: pt_ok_def)
  have "k \<le> pt_ndims pt \<Longrightarrow> foldR (\<lambda>j out. bindR (center_at pt code (chunk_of pt j) j) (\<lambda>v. bindR (vec_at (pt_centroid pt) j) (\<lambda>c.
       vec_put out j (fl_add F32 v c)))) [0..<k] out
     = Inr (map (\<lambda>j. fl_add F32 (reconstructed pt code ! j) (pt_centroid pt ! j)) [0..<k] @ drop k out)" for k
  proof (induction k)
    case (Suc k)
    then have "k < pt_ndims pt" "k < length out" using assms(4) by simp_all
    then show ?case using Suc.IH center_at_ok [OF assms(1,2)] c
      by (simp add: foldR_append list_update_append Cons_nth_drop_Suc [symmetric] del: drop_eq_Nil)
  qed simp
  from this [of "pt_ndims pt"] have "inflate_vector pt code out
      = Inr (map (\<lambda>j. fl_add F32 (reconstructed pt code ! j) (pt_centroid pt ! j)) [0..<pt_ndims pt] @ drop (pt_ndims pt) out)"
    unfolding inflate_vector_def dims by simp
  moreover have "map (\<lambda>j. fl_add F32 (reconstructed pt code ! j) (pt_centroid pt ! j)) [0..<pt_ndims pt]
      = map2 (fl_add F32) (reconstructed pt code) (pt_centroid pt)"
    by (rule nth_equalityI) (simp_all add: len c)
  ultimately show "inflate_vector pt code out = Inr (map2 (fl_add F32) (reconstructed pt code) (pt_centroid pt) @ drop (pt_ndims pt) out)" by simp
qed

section \<open>Table look-up\<close>

lemma put_block:
  assumes "length A = off" "length B = length B'"
  shows "mem_put (A @ B @ C) off B' = Inr (A @ B' @ C)"
  using assms by (simp add: mem_put_def)

lemma get_block:
  assumes "length A = off" "length B = n"
  shows "mem_get (A @ B @ C) off n = Inr B"
  using assms by (simp add: mem_get_def)

text \<open>The distance of the query to one centre of a chunk, and the terms of one dimension.\<close>

definition chunk_distance :: "pq_table \<Rightarrow> fl list \<Rightarrow> nat \<Rightarrow> nat \<Rightarrow> fl" where
  "chunk_distance pt query chunk c =
     fold (\<lambda>j s. l2_term s (pt_tables_tr pt ! (256 * j + c)) (query ! j))
       [pt_chunk_offsets pt ! chunk..<pt_chunk_offsets pt ! (chunk + 1)] (Fin 0)"

lemma add_dimension_ok:
  assumes "length (pt_tables_tr pt) = 256 * pt_ndims pt" "j < pt_ndims pt" "j < length query"
  shows "add_dimension term_of pt query j (map h [0..<256]) = Inr (map (\<lambda>c. term_of (h c) (pt_tables_tr pt ! (256 * j + c)) (query ! j)) [0..<256])"
proof -
  have b: "256 * j + 256 \<le> length (pt_tables_tr pt)" using assms by simp
  have "map2 (\<lambda>s center. term_of s center (query ! j)) (map h [0..<256]) (take 256 (drop (256 * j) (pt_tables_tr pt)))
      = map (\<lambda>c. term_of (h c) (pt_tables_tr pt ! (256 * j + c)) (query ! j)) [0..<256]"
    using b by (intro nth_equalityI) simp_all
  then show ?thesis using b assms(3) by (simp add: add_dimension_def mem_get_def)
qed

lemma add_dimensions_ok:
  assumes "length (pt_tables_tr pt) = 256 * pt_ndims pt" "b \<le> pt_ndims pt" "pt_ndims pt \<le> length query" "a \<le> b"
  shows "foldR (add_dimension term_of pt query) [a..<b] (map h [0..<256])
     = Inr (map (\<lambda>c. fold (\<lambda>j s. term_of s (pt_tables_tr pt ! (256 * j + c)) (query ! j)) [a..<b] (h c)) [0..<256])"
  using assms(4,2)
proof (induction b rule: dec_induct)
  case (step m)
  have "add_dimension term_of pt query m (map (\<lambda>c. fold (\<lambda>j s. term_of s (pt_tables_tr pt ! (256 * j + c)) (query ! j)) [a..<m] (h c)) [0..<256])
     = Inr (map (\<lambda>c. term_of (fold (\<lambda>j s. term_of s (pt_tables_tr pt ! (256 * j + c)) (query ! j)) [a..<m] (h c)) (pt_tables_tr pt ! (256 * m + c)) (query ! m)) [0..<256])"
    by (rule add_dimension_ok) (use assms step in auto)
  then show ?case using step by (simp add: foldR_append foldR_one)
qed simp

lemma chunk_distances_ok:
  assumes ok: "pt_ok pt" and c: "chunk < pt_n_chunks pt" and q: "pt_ndims pt \<le> length query"
  shows "chunk_loop pt chunk (add_dimension l2_term pt query) (replicate 256 (Fin 0)) = Inr (map (chunk_distance pt query chunk) [0..<256])"
proof -
  let ?a = "pt_chunk_offsets pt ! chunk" and ?b = "pt_chunk_offsets pt ! (chunk + 1)"
  have ab: "?a \<le> ?b" "?b \<le> pt_ndims pt" using offsets_mono [OF ok, of chunk "chunk + 1"] offset_bound [OF ok, of "chunk + 1"] c by simp_all
  have "replicate 256 (Fin 0) = map (\<lambda>_. Fin 0) [0..<256]" by (simp add: map_replicate_const)
  then have "foldR (add_dimension l2_term pt query) [?a..<?b] (replicate 256 (Fin 0)) = Inr (map (chunk_distance pt query chunk) [0..<256])"
    using add_dimensions_ok [of pt ?b query ?a l2_term "\<lambda>_. Fin 0"] ok ab q by (simp add: pt_ok_def chunk_distance_def del: upt_rec_numeral)
  then show ?thesis using ok c by (simp add: chunk_loop_def pt_ok_def)
qed

definition distance_table :: "pq_table \<Rightarrow> fl list \<Rightarrow> fl list" where
  "distance_table pt query = concat (map (\<lambda>chunk. map (chunk_distance pt query chunk) [0..<256]) [0..<pt_n_chunks pt])"

lemma concat_blocks_length: "length (concat (map (\<lambda>k. map (f k) [0..<w]) [0..<n])) = w * n"
  by (induction n) simp_all

lemma concat_blocks_nth:
  assumes "k < n" "c < w"
  shows "concat (map (\<lambda>k. map (f k) [0..<w]) [0..<n]) ! (w * k + c) = f k c"
  using assms(1)
proof (induction n)
  case (Suc n)
  show ?case
  proof (cases "k < n")
    case True
    have "w * k + c < w * (k + 1)" using assms(2) by simp
    also have "\<dots> \<le> w * n" using True by (intro mult_le_mono2) simp
    finally show ?thesis using Suc True by (simp add: nth_append concat_blocks_length)
  next
    case False
    then have "k = n" using Suc.prems by simp
    then show ?thesis using assms(2) by (simp add: nth_append concat_blocks_length)
  qed
qed simp

lemma populate_ok:
  assumes ok: "pt_ok pt" and q: "pt_ndims pt \<le> length query" and d: "256 * pt_n_chunks pt \<le> length dist_vec"
  shows "populate_chunk_distances pt query dist_vec = Inr (distance_table pt query @ drop (256 * pt_n_chunks pt) dist_vec)"
proof -
  let ?step = "\<lambda>chunk dv. bindR (mem_get dv (256 * chunk) 256) (\<lambda>chunk_dists.
           bindR (chunk_loop pt chunk (add_dimension l2_term pt query) chunk_dists) (\<lambda>cd. mem_put dv (256 * chunk) cd))"
  let ?done = "\<lambda>k. concat (map (\<lambda>chunk. map (chunk_distance pt query chunk) [0..<256]) [0..<k])"
  let ?rest = "drop (256 * pt_n_chunks pt) dist_vec"
  have "k \<le> pt_n_chunks pt \<Longrightarrow> foldR ?step [0..<k] (replicate (256 * pt_n_chunks pt) (Fin 0) @ ?rest)
      = Inr (?done k @ replicate (256 * (pt_n_chunks pt - k)) (Fin 0) @ ?rest)" for k
  proof (induction k)
    case (Suc k)
    then have k: "k < pt_n_chunks pt" by simp
    have "256 * (pt_n_chunks pt - k) = 256 + 256 * (pt_n_chunks pt - Suc k)" using k by simp
    then have r: "replicate (256 * (pt_n_chunks pt - k)) (Fin 0) = replicate 256 (Fin 0) @ replicate (256 * (pt_n_chunks pt - Suc k)) (Fin 0)"
      by (simp only: replicate_add)
    have l: "length (?done k) = 256 * k" by (rule concat_blocks_length)
    have "?step k (?done k @ replicate 256 (Fin 0) @ replicate (256 * (pt_n_chunks pt - Suc k)) (Fin 0) @ ?rest)
        = Inr (?done k @ map (chunk_distance pt query k) [0..<256] @ replicate (256 * (pt_n_chunks pt - Suc k)) (Fin 0) @ ?rest)"
      unfolding get_block [OF l length_replicate] bindR_simps chunk_distances_ok [OF ok k q]
      by (rule put_block [OF l]) simp
    then show ?case using Suc.IH k r by (simp add: foldR_append foldR_one del: upt_rec_numeral)
  qed simp
  from this [of "pt_n_chunks pt"] show ?thesis using d
    by (simp add: populate_chunk_distances_def populate_with_def mem_put_def distance_table_def del: upt_rec_numeral)
qed

text \<open>The compressed vectors of all points, one after the other.\<close>

definition code_at :: "nat list \<Rightarrow> nat \<Rightarrow> nat \<Rightarrow> nat list" where
  "code_at data n_chunks p = take n_chunks (drop (p * n_chunks) data)"

lemma aggregate_ok:
  assumes "\<forall>p \<in> set ids. (p + 1) * nd \<le> length all_coords" "length ids * nd \<le> length out"
  shows "aggregate_coords ids all_coords nd out = Inr (concat (map (code_at all_coords nd) ids) @ drop (length ids * nd) out)"
proof -
  let ?step = "\<lambda>i out. bindR (mem_get all_coords (ids ! i * nd) nd) (\<lambda>v. mem_put out (i * nd) v)"
  have len: "length (code_at all_coords nd p) = nd" if "p \<in> set ids" for p
    using assms(1) that by (auto simp: code_at_def)
  have "k \<le> length ids \<Longrightarrow> foldR ?step [0..<k] out = Inr (concat (map (code_at all_coords nd) (take k ids)) @ drop (k * nd) out)" for k
  proof (induction k)
    case (Suc k)
    then have k: "k < length ids" by simp
    let ?A = "concat (map (code_at all_coords nd) (take k ids))"
    have "\<forall>p \<in> set (take k ids). length (code_at all_coords nd p) = nd" using len set_take_subset by fastforce
    then have "length ?A = length (take k ids) * nd" by (rule concat_map_length)
    then have l: "length ?A = k * nd" using k by simp
    have fit: "(ids ! k + 1) * nd \<le> length all_coords" using assms(1) k by auto
    have "Suc k * nd \<le> length ids * nd" using k by (intro mult_le_mono1) simp
    then have "k * nd + nd \<le> length out" using assms(2) by simp
    then have d: "drop (k * nd) out = take nd (drop (k * nd) out) @ drop (Suc k * nd) out" "length (take nd (drop (k * nd) out)) = nd"
      using append_take_drop_id [of nd "drop (k * nd) out", symmetric] by (simp_all add: add.commute)
    have "?step k (?A @ take nd (drop (k * nd) out) @ drop (Suc k * nd) out) = Inr (?A @ code_at all_coords nd (ids ! k) @ drop (Suc k * nd) out)"
      using fit put_block [OF l, of "take nd (drop (k * nd) out)" "code_at all_coords nd (ids ! k)"] d(2) len [of "ids ! k"] k
      by (simp add: mem_get_def code_at_def)
    then show ?case using Suc.IH k d(1) by (simp add: foldR_append foldR_one take_Suc_conv_app_nth)
  qed simp
  from this [of "length ids"] show ?thesis by (simp add: aggregate_coords_def)
qed

text \<open>The terms of one chunk, for all points.\<close>

lemma lookup_chunk_ok:
  assumes "\<forall>i < n_pts. nch * i + chunk < length pq_ids \<and> 256 * chunk + pq_ids ! (nch * i + chunk) < length pq_dists" "n_pts \<le> length out"
  shows "foldR (lookup_step pq_ids nch pq_dists chunk) [0..<n_pts] out
     = Inr (map (\<lambda>i. fl_add F32 (out ! i) (pq_dists ! (256 * chunk + pq_ids ! (nch * i + chunk)))) [0..<n_pts] @ drop n_pts out)"
  by (rule foldR_prefix [where g = "\<lambda>i s. fl_add F32 s (pq_dists ! (256 * chunk + pq_ids ! (nch * i + chunk)))"])
    (use assms in \<open>auto simp: lookup_step_def\<close>)

definition lookup_sum :: "nat list \<Rightarrow> nat \<Rightarrow> fl list \<Rightarrow> nat \<Rightarrow> nat \<Rightarrow> fl" where
  "lookup_sum pq_ids nch pq_dists k i = fold (\<lambda>chunk s. fl_add F32 s (pq_dists ! (256 * chunk + pq_ids ! (nch * i + chunk)))) [0..<k] (Fin 0)"

lemma lookup_ok:
  assumes "\<forall>i < n_pts. \<forall>chunk < nch. nch * i + chunk < length pq_ids \<and> 256 * chunk + pq_ids ! (nch * i + chunk) < length pq_dists"
    "n_pts \<le> length out"
  shows "pq_dist_lookup pq_ids n_pts nch pq_dists out = Inr (map (lookup_sum pq_ids nch pq_dists nch) [0..<n_pts] @ drop n_pts out)"
proof -
  have "k \<le> nch \<Longrightarrow> foldR (\<lambda>chunk. foldR (lookup_step pq_ids nch pq_dists chunk) [0..<n_pts]) [0..<k] (replicate n_pts (Fin 0) @ drop n_pts out)
      = Inr (map (lookup_sum pq_ids nch pq_dists k) [0..<n_pts] @ drop n_pts out)" for k
  proof (induction k)
    case 0
    then show ?case by (simp add: lookup_sum_def map_replicate_const)
  next
    case (Suc k)
    let ?xs = "map (lookup_sum pq_ids nch pq_dists k) [0..<n_pts] @ drop n_pts out"
    have "foldR (lookup_step pq_ids nch pq_dists k) [0..<n_pts] ?xs
        = Inr (map (\<lambda>i. fl_add F32 (?xs ! i) (pq_dists ! (256 * k + pq_ids ! (nch * i + k)))) [0..<n_pts] @ drop n_pts ?xs)"
      by (rule lookup_chunk_ok) (use Suc.prems assms in auto)
    moreover have "map (\<lambda>i. fl_add F32 (?xs ! i) (pq_dists ! (256 * k + pq_ids ! (nch * i + k)))) [0..<n_pts]
        = map (lookup_sum pq_ids nch pq_dists (Suc k)) [0..<n_pts]"
      by (rule map_cong) (simp_all add: lookup_sum_def nth_append)
    ultimately show ?case using Suc by (simp add: foldR_append foldR_one)
  qed
  from this [of nch] show ?thesis using assms(2) by (simp add: pq_dist_lookup_def mem_put_def)
qed

text \<open>The distance of the query to a point through its code: the chunk distances added up.\<close>

definition pq_distance :: "pq_table \<Rightarrow> fl list \<Rightarrow> nat list \<Rightarrow> fl" where
  "pq_distance pt query code = fold (\<lambda>chunk s. fl_add F32 s (chunk_distance pt query chunk (code ! chunk))) [0..<pt_n_chunks pt] (Fin 0)"

text \<open>The compressed data holds the points below \<open>n\<close>.\<close>

definition codes_ok :: "nat \<Rightarrow> nat list \<Rightarrow> nat \<Rightarrow> bool" where
  "codes_ok n_chunks data n \<longleftrightarrow> n * n_chunks \<le> length data \<and> (\<forall>c \<in> set data. c < 256)"

lemma compute_dists_ok:
  assumes ok: "pt_ok pt" and data: "codes_ok (pt_n_chunks pt) data n" and ids: "\<forall>p \<in> set ids. p < n"
    and table: "take (256 * pt_n_chunks pt) dv = distance_table pt query" "256 * pt_n_chunks pt \<le> length dv"
    and scratch: "length ids * pt_n_chunks pt \<le> length cs" "length ids \<le> length ds"
  shows "\<exists>cs'. compute_dists data (pt_n_chunks pt) dv ids (cs, ds)
     = Inr (cs', map (\<lambda>p. pq_distance pt query (code_at data (pt_n_chunks pt) p)) ids @ drop (length ids) ds)"
proof -
  let ?n = "pt_n_chunks pt"
  let ?cs = "concat (map (code_at data ?n) ids) @ drop (length ids * ?n) cs"
  have fit: "\<forall>p \<in> set ids. (p + 1) * ?n \<le> length data"
    using data ids unfolding codes_ok_def by (metis Suc_eq_plus1 Suc_leI mult_le_mono1 order_trans)
  have len: "\<forall>p \<in> set ids. length (code_at data ?n p) = ?n" using fit by (auto simp: code_at_def)
  have agg: "aggregate_coords ids data ?n cs = Inr ?cs" by (rule aggregate_ok [OF fit scratch(1)])
  have total_len: "length (concat (map (code_at data ?n) ids)) = length ids * ?n" by (rule concat_map_length [OF len])
  have code: "?cs ! (?n * i + chunk) = code_at data ?n (ids ! i) ! chunk" "?n * i + chunk < length ids * ?n"
    if i: "i < length ids" and c: "chunk < ?n" for i chunk
  proof -
    have "?n * i + chunk < ?n * (i + 1)" using c by simp
    also have "\<dots> \<le> ?n * length ids" using i by (intro mult_le_mono2) simp
    finally show lt: "?n * i + chunk < length ids * ?n" by (simp add: mult.commute)
    have "take ?n (drop (i * ?n) (concat (map (code_at data ?n) ids))) = map (code_at data ?n) ids ! i"
      by (rule concat_nth_chunk) (use len i in auto)
    then have "code_at data ?n (ids ! i) ! chunk = take ?n (drop (i * ?n) (concat (map (code_at data ?n) ids))) ! chunk" using i by simp
    also have "\<dots> = concat (map (code_at data ?n) ids) ! (?n * i + chunk)"
      using c i total_len by (simp add: mult.commute)
    finally have "code_at data ?n (ids ! i) ! chunk = concat (map (code_at data ?n) ids) ! (?n * i + chunk)" .
    then show "?cs ! (?n * i + chunk) = code_at data ?n (ids ! i) ! chunk" using lt total_len by (simp add: nth_append)
  qed
  have small: "code_at data ?n p ! chunk < 256" if "p \<in> set ids" "chunk < ?n" for p chunk
  proof -
    have "code_at data ?n p ! chunk \<in> set (code_at data ?n p)" using len that by simp
    then show ?thesis using data by (auto simp: codes_ok_def code_at_def dest: in_set_takeD in_set_dropD)
  qed
  have dv: "256 * chunk + c < length dv \<and> dv ! (256 * chunk + c) = chunk_distance pt query chunk c" if "chunk < ?n" "c < 256" for chunk c
  proof -
    have "256 * chunk + c < 256 * (chunk + 1)" using that by simp
    also have "\<dots> \<le> 256 * ?n" using that by (intro mult_le_mono2) simp
    finally have lt: "256 * chunk + c < 256 * ?n" .
    then have "dv ! (256 * chunk + c) = distance_table pt query ! (256 * chunk + c)" using table(1) by (metis nth_take)
    then show ?thesis using lt table(2) concat_blocks_nth [OF that, of "chunk_distance pt query"] by (simp add: distance_table_def)
  qed
  have acc: "\<forall>i < length ids. \<forall>chunk < ?n. ?n * i + chunk < length ?cs \<and> 256 * chunk + ?cs ! (?n * i + chunk) < length dv"
  proof (intro allI impI)
    fix i chunk assume i: "i < length ids" and c: "chunk < ?n"
    have "?n * i + chunk < length ?cs" using code(2) [OF i c] total_len scratch(1) by simp
    moreover have "256 * chunk + code_at data ?n (ids ! i) ! chunk < length dv" using dv [OF c small [OF nth_mem [OF i] c]] by simp
    ultimately show "?n * i + chunk < length ?cs \<and> 256 * chunk + ?cs ! (?n * i + chunk) < length dv" by (simp only: code(1) [OF i c])
  qed
  have "lookup_sum ?cs ?n dv ?n i = pq_distance pt query (code_at data ?n (ids ! i))" if i: "i < length ids" for i
    unfolding lookup_sum_def pq_distance_def
    by (rule fold_cong) (use code(1) [OF i] dv small [OF nth_mem [OF i]] in auto)
  then have "map (lookup_sum ?cs ?n dv ?n) [0..<length ids] = map (\<lambda>p. pq_distance pt query (code_at data ?n p)) ids"
    by (intro nth_equalityI) simp_all
  then show ?thesis using agg lookup_ok [OF acc scratch(2)] by (simp add: compute_dists_def)
qed

lemma distance_table_length: "length (distance_table pt query) = 256 * pt_n_chunks pt"
  by (simp add: distance_table_def concat_blocks_length del: upt_rec_numeral)

text \<open>\<^bold>\<open>C24\<close> The batched distances of a search, from the table filled once per query: for every point of the
  list the sum over the chunks of the distances between the query and the point's centres, and nothing else
  of the scratch buffer changes.\<close>

theorem pq_lookup_is_distance:
  assumes "pt_ok pt" "codes_ok (pt_n_chunks pt) data n" "\<forall>p \<in> set ids. p < n"
    and "pt_ndims pt \<le> length query" "256 * pt_n_chunks pt \<le> length dist_vec"
    and "length ids * pt_n_chunks pt \<le> length cs" "length ids \<le> length ds"
  shows "\<exists>dv cs'. populate_chunk_distances pt query dist_vec = Inr dv
     \<and> compute_dists data (pt_n_chunks pt) dv ids (cs, ds)
         = Inr (cs', map (\<lambda>p. pq_distance pt query (code_at data (pt_n_chunks pt) p)) ids @ drop (length ids) ds)"
  using compute_dists_ok [OF assms(1-3), of "distance_table pt query @ drop (256 * pt_n_chunks pt) dist_vec" query cs ds]
    populate_ok [OF assms(1,4,5)] assms(6,7) distance_table_length [of pt query] by simp

definition sample_table :: pq_table where
  "sample_table = pt_make\<lparr>pt_ndims := 3, pt_n_chunks := 2, pt_chunk_offsets := [0, 2, 3], pt_centroid := [Fin 1, Fin 1, Fin 0],
     pt_tables_tr := replicate 768 (Fin 2)\<rparr>"

lemma sample_table_ok: "pt_ok sample_table"
  by (auto simp: pt_ok_def sample_table_def less_Suc_eq numeral_2_eq_2)

lemma pq_lookup_is_distance_witness:
  "\<exists>dv cs'. populate_chunk_distances sample_table [Fin 0, Fin 1, Fin 2] (replicate 512 PInf) = Inr dv
     \<and> compute_dists [3, 4, 5, 6] 2 dv [1] ([0, 0], [NaN, NaN])
         = Inr (cs', [pq_distance sample_table [Fin 0, Fin 1, Fin 2] [5, 6], NaN])"
  using pq_lookup_is_distance [OF sample_table_ok, of "[3, 4, 5, 6]" 2 "[1]" "[Fin 0, Fin 1, Fin 2]" "replicate 512 PInf" "[0, 0]" "[NaN, NaN]"]
  by (simp add: sample_table_def codes_ok_def code_at_def)

lemma pq_distance_is_reconstructed_witness:
  "l2_distance sample_table [Fin 0, Fin 1, Fin 2] [5, 6] = Inr (float_l2 (reconstructed sample_table [5, 6]) [Fin 0, Fin 1, Fin 2])
     \<and> inflate_vector sample_table [5, 6] [NaN, NaN, NaN, PInf]
        = Inr (map2 (fl_add F32) (reconstructed sample_table [5, 6]) [Fin 1, Fin 1, Fin 0] @ [PInf])"
  using pq_distance_is_reconstructed [OF sample_table_ok, of "[5, 6]" "[Fin 0, Fin 1, Fin 2]" "[NaN, NaN, NaN, PInf]"]
  by (simp add: sample_table_def code_ok_def)

end
