(* ===== verification/Beam_Search.thy ===== *)
theory Beam_Search
  imports Prune Pq_Table Disk_Layout
begin

text \<open>
  Searching the index on disk: \<^verbatim>\<open>PQFlashIndex::cached_beam_search\<close> and
  \<^verbatim>\<open>range_search\<close> (\<^verbatim>\<open>src/pq_flash_index.cpp\<close>). A candidate list ordered by
  compressed distances decides which nodes are read; every node read gets its exact distance. The environment
  record holds what the loop reads: the nodes (through the caches or the sectors), the two distances, the filter. The
  loop is given fuel one above the number of nodes, which the theorems show to be enough for a beam that is not empty.
\<close>

section \<open>The beam\<close>

definition MAX_N_SECTOR_READS :: nat where
  "MAX_N_SECTOR_READS = 128"

record beam_env =
  be_width :: nat
  be_io_limit :: nat
  be_sectors_per_node :: nat
  be_node :: "nat \<Rightarrow> (byte list \<times> nat list) result"     \<comment> \<open>coordinates and list of a node, from its sectors\<close>
  be_nhood_cache :: "nat \<Rightarrow> nat list option"
  be_coord_cache :: "nat \<Rightarrow> byte list option"
  be_dists :: "nat list \<Rightarrow> fl list result"              \<comment> \<open>\<^verbatim>\<open>compute_dists\<close>\<close>
  be_full_dist :: "byte list \<Rightarrow> fl result"              \<comment> \<open>the exact distance, or that of the disk PQ\<close>
  be_skip :: "nat \<Rightarrow> bool result"                       \<comment> \<open>a dummy point, or a point without the label\<close>
  be_count_visited :: bool

record query_stats =
  qs_n_cache_hits :: nat
  qs_n_hops :: nat
  qs_n_4k :: nat
  qs_n_ios :: nat
  qs_n_cmps :: nat

record beam_state =
  bm_retset :: npq
  bm_visited :: "nat set"
  bm_full :: "neighbor list"
  bm_ios :: nat
  bm_stats :: query_stats
  bm_counter :: "nat list"          \<comment> \<open>\<^verbatim>\<open>_node_visit_counter\<close>\<close>

text \<open>Taking the next beam: cached nodes and nodes to read. The first argument counts \<^verbatim>\<open>num_seen\<close> down from the beam width.\<close>

definition sort_out :: "beam_env \<Rightarrow> nat \<Rightarrow> nat list \<times> (nat \<times> nat list) list \<Rightarrow> beam_state
    \<Rightarrow> (nat list \<times> (nat \<times> nat list) list) \<times> beam_state" where
  "sort_out env i beam s =
     (let (frontier, cached) = beam in
      case be_nhood_cache env i of
        Some ns \<Rightarrow> ((frontier, cached @ [(i, ns)]), s\<lparr>bm_stats := qs_n_cache_hits_update Suc (bm_stats s)\<rparr>)
      | None \<Rightarrow> ((frontier @ [i], cached), s))"

definition count_visit :: "beam_env \<Rightarrow> nat \<Rightarrow> beam_state \<Rightarrow> beam_state result" where
  "count_visit env i s =
     (if be_count_visited env
      then bindR (vec_at (bm_counter s) i) (\<lambda>k. bindR (vec_put (bm_counter s) i (u32_add k 1)) (\<lambda>c. Inr (s\<lparr>bm_counter := c\<rparr>)))
      else Inr s)"

fun find_beam :: "nat \<Rightarrow> beam_env \<Rightarrow> nat list \<times> (nat \<times> nat list) list \<Rightarrow> beam_state
    \<Rightarrow> ((nat list \<times> (nat \<times> nat list) list) \<times> beam_state) result" where
  "find_beam 0 env beam s = Inr (beam, s)"
| "find_beam (Suc k) env beam s =
     (if \<not> npq_has_unexpanded_node (bm_retset s) \<or> be_width env \<le> length (fst beam) then Inr (beam, s)
      else bindR (npq_closest_unexpanded (bm_retset s)) (\<lambda>(nbr, q).
        let (beam', s1) = sort_out env (nbr_id nbr) beam (s\<lparr>bm_retset := q\<rparr>)
        in bindR (count_visit env (nbr_id nbr) s1) (\<lambda>s2. find_beam k env beam' s2)))"

text \<open>
  The reads go to consecutive parts of the sector scratch, which holds \<^verbatim>\<open>MAX_N_SECTOR_READS\<close> sectors;
  they are counted whether they fit or not, and one that does not fit is written past its end.
\<close>

definition count_reads :: "nat \<Rightarrow> beam_state \<Rightarrow> beam_state" where
  "count_reads k s =
     s\<lparr>bm_ios := u32_add (bm_ios s) k,
       bm_stats := (bm_stats s)\<lparr>qs_n_hops := qs_n_hops (bm_stats s) + (if k = 0 then 0 else 1),
          qs_n_4k := qs_n_4k (bm_stats s) + k, qs_n_ios := qs_n_ios (bm_stats s) + k\<rparr>\<rparr>"

definition read_frontier :: "beam_env \<Rightarrow> nat list \<Rightarrow> (byte list \<times> nat list) list result" where
  "read_frontier env frontier =
     (if MAX_N_SECTOR_READS < length frontier * be_sectors_per_node env then Inl UndefinedBehaviour
      else mapR (be_node env) frontier)"

text \<open>The neighbours of an expanded node: each is marked visited, and unless it is skipped enters the candidate list.\<close>

definition visit_nbr :: "beam_env \<Rightarrow> bool \<Rightarrow> nat \<times> fl \<Rightarrow> beam_state \<Rightarrow> beam_state result" where
  "visit_nbr env from_disk c s =
     (let (m, dist) = c in
      if m \<in> bm_visited s then Inr s
      else bindR (be_skip env m) (\<lambda>skip.
        let s1 = s\<lparr>bm_visited := insert m (bm_visited s)\<rparr> in
        if skip then Inr s1
        else bindR (npq_insert (bm_retset s1) (Neighbor m dist)) (\<lambda>q.
          Inr (s1\<lparr>bm_retset := q,
                  bm_stats := (if from_disk then qs_n_cmps_update Suc (bm_stats s1) else bm_stats s1)\<rparr>))))"

definition process_node :: "beam_env \<Rightarrow> bool \<Rightarrow> nat \<times> byte list \<times> nat list \<Rightarrow> beam_state \<Rightarrow> beam_state result" where
  "process_node env from_disk node s =
     (let (i, coords, node_nbrs) = node in
      bindR (be_full_dist env coords) (\<lambda>d.
      bindR (be_dists env node_nbrs) (\<lambda>dists.
        foldR (visit_nbr env from_disk) (zip node_nbrs dists)
          (s\<lparr>bm_full := bm_full s @ [Neighbor i d],
             bm_stats := (bm_stats s)\<lparr>qs_n_cmps := qs_n_cmps (bm_stats s) + length node_nbrs\<rparr>\<rparr>))))"

definition cached_node :: "beam_env \<Rightarrow> nat \<times> nat list \<Rightarrow> (nat \<times> byte list \<times> nat list) result" where
  "cached_node env c =
     (case be_coord_cache env (fst c) of None \<Rightarrow> Inl UndefinedBehaviour | Some coords \<Rightarrow> Inr (fst c, coords, snd c))"

definition beam_step :: "beam_env \<Rightarrow> beam_state \<Rightarrow> beam_state result" where
  "beam_step env s =
     bindR (find_beam (be_width env) env ([], []) s) (\<lambda>((frontier, cached), s1).
     bindR (read_frontier env frontier) (\<lambda>nodes.
     bindR (foldR (\<lambda>c s. bindR (cached_node env c) (\<lambda>node. process_node env False node s)) cached (count_reads (length frontier) s1)) (\<lambda>s2.
       foldR (process_node env True) (zip frontier nodes) s2)))"

fun beam_loop :: "nat \<Rightarrow> beam_env \<Rightarrow> beam_state \<Rightarrow> beam_state result" where
  "beam_loop fuel env s =
     (if npq_has_unexpanded_node (bm_retset s) \<and> bm_ios s < be_io_limit env
      then case fuel of 0 \<Rightarrow> Inl OutOfFuel | Suc fuel' \<Rightarrow> bindR (beam_step env s) (beam_loop fuel' env)
      else Inr s)"

declare beam_loop.simps [simp del]

text \<open>From the chosen start point, on a cleared scratch space.\<close>

definition beam_start :: "beam_env \<Rightarrow> nat \<Rightarrow> nat \<Rightarrow> beam_state \<Rightarrow> beam_state result" where
  "beam_start env best_medoid l_search s =
     bindR (be_dists env [best_medoid]) (\<lambda>ds.
     bindR (vec_at ds 0) (\<lambda>d.
     bindR (npq_insert (npq_reserve (bm_retset s) l_search) (Neighbor best_medoid d)) (\<lambda>q.
       Inr (s\<lparr>bm_retset := q, bm_visited := insert best_medoid (bm_visited s), bm_ios := 0\<rparr>))))"

definition beam_search :: "nat \<Rightarrow> beam_env \<Rightarrow> nat \<Rightarrow> nat \<Rightarrow> beam_state \<Rightarrow> (neighbor list \<times> beam_state) result" where
  "beam_search num_points env best_medoid l_search s =
     bindR (beam_start env best_medoid l_search s) (\<lambda>s0.
     bindR (beam_loop (num_points + 1) env s0) (\<lambda>s1.
     bindR (sort_pool (bm_full s1)) (\<lambda>full. Inr (full, s1\<lparr>bm_full := full\<rparr>))))"

section \<open>What the search reads\<close>

definition node_view :: "beam_env \<Rightarrow> nat \<Rightarrow> (nat \<times> byte list \<times> nat list) result" where
  "node_view env i =
     (case be_nhood_cache env i of Some ns \<Rightarrow> cached_node env (i, ns)
      | None \<Rightarrow> bindR (be_node env i) (\<lambda>(coords, ns). Inr (i, coords, ns)))"

definition out_list :: "beam_env \<Rightarrow> nat \<Rightarrow> nat list" where
  "out_list env i = (case node_view env i of Inl _ \<Rightarrow> [] | Inr (_, _, ns) \<Rightarrow> ns)"

definition skipped :: "beam_env \<Rightarrow> nat \<Rightarrow> bool" where
  "skipped env i \<longleftrightarrow> be_skip env i = Inr True"

text \<open>
  A closed environment: every node below \<open>n\<close> can be read, names nodes below \<open>n\<close>, and has the
  compressed distance \<open>d\<close> and the exact distance \<open>f\<close>; the beam is not empty and fits the sector scratch.
\<close>

definition beam_ok :: "beam_env \<Rightarrow> nat \<Rightarrow> (nat \<Rightarrow> fl) \<Rightarrow> (nat \<Rightarrow> fl) \<Rightarrow> bool" where
  "beam_ok env n d f \<longleftrightarrow> 0 < be_width env \<and> be_width env * be_sectors_per_node env \<le> MAX_N_SECTOR_READS
     \<and> (\<forall>i < n. (\<exists>coords ns. node_view env i = Inr (i, coords, ns) \<and> be_full_dist env coords = Inr (f i)
            \<and> be_dists env ns = Inr (map d ns) \<and> (\<forall>m \<in> set ns. m < n))
          \<and> be_dists env [i] = Inr [d i] \<and> d i \<noteq> NaN \<and> f i \<noteq> NaN \<and> ok (be_skip env i))"

lemma beam_okD:
  assumes "beam_ok env n d f" "i < n"
  shows "\<exists>coords. node_view env i = Inr (i, coords, out_list env i) \<and> be_full_dist env coords = Inr (f i)"
    "be_dists env (out_list env i) = Inr (map d (out_list env i))" "\<forall>m \<in> set (out_list env i). m < n"
    "be_skip env i = Inr (skipped env i)" "d i \<noteq> NaN" "f i \<noteq> NaN" "be_dists env [i] = Inr [d i]"
proof -
  from assms obtain coords ns where v: "node_view env i = Inr (i, coords, ns)" "be_full_dist env coords = Inr (f i)"
      "be_dists env ns = Inr (map d ns)" "\<forall>m \<in> set ns. m < n" unfolding beam_ok_def by blast
  then have "out_list env i = ns" by (simp add: out_list_def)
  then show "\<exists>coords. node_view env i = Inr (i, coords, out_list env i) \<and> be_full_dist env coords = Inr (f i)"
    "be_dists env (out_list env i) = Inr (map d (out_list env i))" "\<forall>m \<in> set (out_list env i). m < n" using v by simp_all
  have "ok (be_skip env i)" using assms by (simp add: beam_ok_def)
  then show "be_skip env i = Inr (skipped env i)" by (cases "be_skip env i") (simp_all add: skipped_def)
  show "d i \<noteq> NaN" "f i \<noteq> NaN" "be_dists env [i] = Inr [d i]" using assms by (simp_all add: beam_ok_def)
qed

text \<open>The nodes a search can get to.\<close>

inductive_set beam_reach :: "beam_env \<Rightarrow> nat \<Rightarrow> nat set" for env start where
  beam_reach_start: "start \<in> beam_reach env start"
| beam_reach_step: "i \<in> beam_reach env start \<Longrightarrow> m \<in> set (out_list env i) \<Longrightarrow> \<not> skipped env m \<Longrightarrow> m \<in> beam_reach env start"

section \<open>The invariant\<close>

text \<open>
  \<open>W\<close> is everything ever inserted into the candidate list, \<open>E\<close> what was popped from it. A visited node is in
  \<open>W\<close> unless it is skipped.
\<close>

definition beam_core :: "beam_env \<Rightarrow> nat \<Rightarrow> (nat \<Rightarrow> fl) \<Rightarrow> nat \<Rightarrow> nat set \<Rightarrow> nat set \<Rightarrow> beam_state \<Rightarrow> bool" where
  "beam_core env n d L W E s \<longleftrightarrow> npq_ready (bm_retset s) \<and> npq_capacity (bm_retset s) = L \<and> nq.tracks d W (bm_retset s)
     \<and> flags_are E (bm_retset s) \<and> E \<subseteq> W \<and> W \<subseteq> bm_visited s \<and> bm_visited s \<subseteq> {..<n}
     \<and> (\<forall>m \<in> bm_visited s. \<not> skipped env m \<longrightarrow> m \<in> W) \<and> (be_count_visited env \<longrightarrow> n \<le> length (bm_counter s))"

definition full_is :: "(nat \<Rightarrow> fl) \<Rightarrow> nat set \<Rightarrow> neighbor list \<Rightarrow> bool" where
  "full_is f P full \<longleftrightarrow> distinct (map nbr_id full) \<and> nbr_id ` set full = P \<and> (\<forall>x \<in> set full. nbr_dist x = f (nbr_id x))"

lemma beam_coreD:
  assumes "beam_core env n d L W E s"
  shows "npq_ready (bm_retset s)" "npq_capacity (bm_retset s) = L" "nq.tracks d W (bm_retset s)" "flags_are E (bm_retset s)"
    "E \<subseteq> W" "W \<subseteq> bm_visited s" "bm_visited s \<subseteq> {..<n}" "\<forall>m \<in> bm_visited s. \<not> skipped env m \<longrightarrow> m \<in> W"
    "be_count_visited env \<longrightarrow> n \<le> length (bm_counter s)" "finite W" "W \<subseteq> {..<n}"
proof -
  show "npq_ready (bm_retset s)" "npq_capacity (bm_retset s) = L" "nq.tracks d W (bm_retset s)" "flags_are E (bm_retset s)"
    "E \<subseteq> W" "W \<subseteq> bm_visited s" "bm_visited s \<subseteq> {..<n}" "\<forall>m \<in> bm_visited s. \<not> skipped env m \<longrightarrow> m \<in> W"
    "be_count_visited env \<longrightarrow> n \<le> length (bm_counter s)" using assms by (simp_all add: beam_core_def)
  then show "W \<subseteq> {..<n}" by blast
  then show "finite W" by (rule finite_subset) simp
qed

lemma visit_nbr_ok:
  assumes ok: "beam_ok env n d f" and core: "beam_core env n d L W E s" and m: "m < n"
  shows "\<exists>s'. visit_nbr env from_disk (m, d m) s = Inr s' \<and> beam_core env n d L (W \<union> {i \<in> {m}. \<not> skipped env i}) E s'
     \<and> m \<in> bm_visited s' \<and> bm_visited s \<subseteq> bm_visited s' \<and> bm_full s' = bm_full s \<and> bm_ios s' = bm_ios s"
proof -
  note C = beam_coreD [OF core] and O = beam_okD [OF ok m]
  consider "m \<in> bm_visited s" | "m \<notin> bm_visited s" "skipped env m" | "m \<notin> bm_visited s" "\<not> skipped env m" by blast
  then show ?thesis
  proof cases
    case 1
    then have "W \<union> {i \<in> {m}. \<not> skipped env i} = W" using C(8) by auto
    then show ?thesis using 1 core by (simp add: visit_nbr_def)
  next
    case 2
    then have "W \<union> {i \<in> {m}. \<not> skipped env i} = W" by auto
    moreover have "beam_core env n d L W E (s\<lparr>bm_visited := insert m (bm_visited s)\<rparr>)"
      using C 2 m by (auto simp: beam_core_def)
    ultimately show ?thesis using 2 O(4) by (auto simp: visit_nbr_def)
  next
    case 3
    then have mW: "m \<notin> W" using C(6) by blast
    obtain q where q: "npq_insert (bm_retset s) (Neighbor m (d m)) = Inr q" "npq_ready q" "npq_capacity q = npq_capacity (bm_retset s)"
        "nq.tracks d (insert m W) q" "set (npq_live q) \<subseteq> insert (Neighbor m (d m)) (set (npq_live (bm_retset s)))"
      using nq.ins_candidate [OF C(1,3,10) O(5)] by auto
    have "m \<notin> E" using C(5) mW by blast
    then have "flags_are E q" using C(4) q(5) by (auto simp: flags_are_def)
    moreover have W: "W \<union> {i \<in> {m}. \<not> skipped env i} = insert m W" using 3 by auto
    define s' where "s' = s\<lparr>bm_visited := insert m (bm_visited s), bm_retset := q,
        bm_stats := (if from_disk then qs_n_cmps_update Suc (bm_stats s) else bm_stats s)\<rparr>"
    have "visit_nbr env from_disk (m, d m) s = Inr s'" using 3 O(4) q(1) by (simp add: visit_nbr_def s'_def Let_def)
    moreover have "beam_core env n d L (insert m W) E s'"
      using calculation(1) q C m by (auto simp: beam_core_def s'_def)
    ultimately show ?thesis unfolding W by (intro exI [of _ s']) (simp add: s'_def subset_insertI)
  qed
qed

lemma visit_nbrs_ok:
  assumes ok: "beam_ok env n d f"
  shows "beam_core env n d L W E s \<Longrightarrow> \<forall>m \<in> set ns. m < n \<Longrightarrow>
    \<exists>s'. foldR (visit_nbr env from_disk) (zip ns (map d ns)) s = Inr s' \<and> beam_core env n d L (W \<union> {i \<in> set ns. \<not> skipped env i}) E s'
     \<and> set ns \<subseteq> bm_visited s' \<and> bm_visited s \<subseteq> bm_visited s' \<and> bm_full s' = bm_full s \<and> bm_ios s' = bm_ios s"
proof (induction ns arbitrary: s W)
  case (Cons m ns)
  then obtain s1 where 1: "visit_nbr env from_disk (m, d m) s = Inr s1" "beam_core env n d L (W \<union> {i \<in> {m}. \<not> skipped env i}) E s1"
     "m \<in> bm_visited s1" "bm_visited s \<subseteq> bm_visited s1" "bm_full s1 = bm_full s" "bm_ios s1 = bm_ios s"
    using visit_nbr_ok [OF ok Cons.prems(1), where from_disk = from_disk and m = m] Cons.prems(2) by auto
  have "W \<union> {i \<in> {m}. \<not> skipped env i} \<union> {i \<in> set ns. \<not> skipped env i} = W \<union> {i \<in> set (m # ns). \<not> skipped env i}" by auto
  then obtain s2 where "foldR (visit_nbr env from_disk) (zip ns (map d ns)) s1 = Inr s2"
     "beam_core env n d L (W \<union> {i \<in> set (m # ns). \<not> skipped env i}) E s2"
     "set ns \<subseteq> bm_visited s2" "bm_visited s1 \<subseteq> bm_visited s2" "bm_full s2 = bm_full s1" "bm_ios s2 = bm_ios s1"
    using Cons.IH [OF 1(2)] Cons.prems(2) by auto
  then show ?case using 1 by auto
qed auto

section \<open>One beam\<close>

text \<open>A node handed to \<^verbatim>\<open>process_node\<close> as it is read.\<close>

definition shown :: "beam_env \<Rightarrow> (nat \<Rightarrow> fl) \<Rightarrow> nat \<times> byte list \<times> nat list \<Rightarrow> bool" where
  "shown env f node \<longleftrightarrow> (case node of (i, coords, ns) \<Rightarrow> be_full_dist env coords = Inr (f i) \<and> ns = out_list env i)"

lemma process_node_ok:
  assumes ok: "beam_ok env n d f" and core: "beam_core env n d L W E s" and node: "shown env f node" "fst node < n"
  shows "\<exists>s'. process_node env from_disk node s = Inr s'
     \<and> beam_core env n d L (W \<union> {m \<in> set (out_list env (fst node)). \<not> skipped env m}) E s'
     \<and> set (out_list env (fst node)) \<subseteq> bm_visited s' \<and> bm_visited s \<subseteq> bm_visited s'
     \<and> bm_full s' = bm_full s @ [Neighbor (fst node) (f (fst node))] \<and> bm_ios s' = bm_ios s"
proof -
  obtain i coords where nd: "node = (i, coords, out_list env i)" "be_full_dist env coords = Inr (f i)"
    using node(1) by (cases node) (auto simp: shown_def)
  let ?s = "s\<lparr>bm_full := bm_full s @ [Neighbor i (f i)],
             bm_stats := (bm_stats s)\<lparr>qs_n_cmps := qs_n_cmps (bm_stats s) + length (out_list env i)\<rparr>\<rparr>"
  have i: "i < n" using node(2) nd(1) by simp
  have "beam_core env n d L W E ?s" using core by (simp add: beam_core_def)
  from visit_nbrs_ok [OF ok this beam_okD(3) [OF ok i], of from_disk] obtain s' where
     "foldR (visit_nbr env from_disk) (zip (out_list env i) (map d (out_list env i))) ?s = Inr s'"
     "beam_core env n d L (W \<union> {m \<in> set (out_list env i). \<not> skipped env m}) E s'"
     "set (out_list env i) \<subseteq> bm_visited s'" "bm_visited ?s \<subseteq> bm_visited s'" "bm_full s' = bm_full ?s" "bm_ios s' = bm_ios ?s" by blast
  then show ?thesis using beam_okD(2) [OF ok i] nd by (simp add: process_node_def)
qed

text \<open>The nodes of a beam one after the other.\<close>

definition reached :: "beam_env \<Rightarrow> nat set \<Rightarrow> nat set" where
  "reached env P = {m. \<exists>i \<in> P. m \<in> set (out_list env i) \<and> \<not> skipped env m}"

lemma process_nodes_ok:
  assumes ok: "beam_ok env n d f"
    and step: "\<And>node s. node \<in> set nodes \<Longrightarrow> g node s = process_node env from_disk (h node) s"
  shows "beam_core env n d L W E s \<Longrightarrow> \<forall>node \<in> set nodes. shown env f (h node) \<and> fst (h node) < n \<Longrightarrow>
    \<exists>s'. foldR g nodes s = Inr s' \<and> beam_core env n d L (W \<union> reached env (fst ` h ` set nodes)) E s'
     \<and> (\<forall>i \<in> fst ` h ` set nodes. set (out_list env i) \<subseteq> bm_visited s') \<and> bm_visited s \<subseteq> bm_visited s'
     \<and> bm_full s' = bm_full s @ map (\<lambda>node. Neighbor (fst (h node)) (f (fst (h node)))) nodes \<and> bm_ios s' = bm_ios s"
  using step
proof (induction nodes arbitrary: s W)
  case Nil
  then show ?case by (simp add: reached_def)
next
  case (Cons x nodes)
  let ?i = "fst (h x)"
  have sx: "shown env f (h x)" "?i < n" using Cons.prems(2) by simp_all
  obtain s1 where 1: "process_node env from_disk (h x) s = Inr s1"
     "beam_core env n d L (W \<union> {m \<in> set (out_list env ?i). \<not> skipped env m}) E s1"
     "set (out_list env ?i) \<subseteq> bm_visited s1" "bm_visited s \<subseteq> bm_visited s1"
     "bm_full s1 = bm_full s @ [Neighbor ?i (f ?i)]" "bm_ios s1 = bm_ios s"
    using process_node_ok [OF ok Cons.prems(1) sx, of from_disk] by blast
  have r: "W \<union> {m \<in> set (out_list env ?i). \<not> skipped env m} \<union> reached env (fst ` h ` set nodes) = W \<union> reached env (fst ` h ` set (x # nodes))"
    by (auto simp: reached_def)
  have "\<forall>node \<in> set nodes. shown env f (h node) \<and> fst (h node) < n" using Cons.prems(2) by simp
  from Cons.IH [OF 1(2) this] Cons.prems(3) obtain s2 where 2: "foldR g nodes s1 = Inr s2"
     "beam_core env n d L (W \<union> reached env (fst ` h ` set (x # nodes))) E s2"
     "\<forall>i \<in> fst ` h ` set nodes. set (out_list env i) \<subseteq> bm_visited s2" "bm_visited s1 \<subseteq> bm_visited s2"
     "bm_full s2 = bm_full s1 @ map (\<lambda>node. Neighbor (fst (h node)) (f (fst (h node)))) nodes" "bm_ios s2 = bm_ios s1"
    unfolding r by auto
  have "g x s = Inr s1" using Cons.prems(3) [of x s] 1(1) by simp
  then have "foldR g (x # nodes) s = Inr s2" using 2(1) by simp
  moreover have "\<forall>i \<in> fst ` h ` set (x # nodes). set (out_list env i) \<subseteq> bm_visited s2" using 1(3) 2(3,4) by auto
  ultimately show ?case using 2(2,4-6) 1(4-6) by (intro exI [of _ s2]) auto
qed

definition cached :: "beam_env \<Rightarrow> nat \<Rightarrow> bool" where
  "cached env i \<longleftrightarrow> be_nhood_cache env i \<noteq> None"

lemma cached_list:
  assumes "beam_ok env n d f" "i < n" "be_nhood_cache env i = Some ns"
  shows "ns = out_list env i"
proof -
  obtain coords where "node_view env i = Inr (i, coords, out_list env i)" using beam_okD(1) [OF assms(1,2)] by blast
  then show ?thesis using assms(3) by (auto simp: node_view_def cached_node_def split: option.splits)
qed

lemma count_visit_ok:
  assumes "beam_core env n d L W E s" "i < n"
  shows "\<exists>s'. count_visit env i s = Inr s' \<and> beam_core env n d L W E s' \<and> bm_full s' = bm_full s \<and> bm_ios s' = bm_ios s \<and> bm_visited s' = bm_visited s"
proof (cases "be_count_visited env")
  case True
  have "i < length (bm_counter s)" using beam_coreD(9) [OF assms(1)] True assms(2) by simp
  then show ?thesis using True assms by (simp add: count_visit_def beam_core_def)
next
  case False
  then show ?thesis using assms by (simp add: count_visit_def)
qed

definition uncached :: "beam_env \<Rightarrow> nat list \<Rightarrow> nat list" where
  "uncached env new = filter (\<lambda>i. \<not> cached env i) new"

definition cached_part :: "beam_env \<Rightarrow> nat list \<Rightarrow> (nat \<times> nat list) list" where
  "cached_part env new = map (\<lambda>i. (i, out_list env i)) (filter (cached env) new)"

lemma find_beam_ok:
  assumes ok: "beam_ok env n d f"
  shows "beam_core env n d L W E s \<Longrightarrow> \<exists>new s'. find_beam k env (fr, ch) s = Inr ((fr @ uncached env new, ch @ cached_part env new), s')
     \<and> beam_core env n d L W (E \<union> set new) s' \<and> distinct new \<and> set new \<inter> E = {} \<and> set new \<subseteq> W \<and> length new \<le> k
     \<and> (0 < k \<and> npq_has_unexpanded_node (bm_retset s) \<and> length fr < be_width env \<longrightarrow> new \<noteq> [])
     \<and> bm_full s' = bm_full s \<and> bm_ios s' = bm_ios s \<and> bm_visited s' = bm_visited s"
proof (induction k arbitrary: fr ch s E)
  case 0
  then show ?case by (intro exI [of _ "[]"]) (simp add: uncached_def cached_part_def)
next
  case (Suc k)
  note C = beam_coreD [OF Suc.prems]
  show ?case
  proof (cases "\<not> npq_has_unexpanded_node (bm_retset s) \<or> be_width env \<le> length fr")
    case True
    then show ?thesis using Suc.prems by (intro exI [of _ "[]"]) (auto simp: uncached_def cached_part_def)
  next
    case False
    then have more: "npq_has_unexpanded_node (bm_retset s)" "\<not> be_width env \<le> length fr" by simp_all
    obtain nbr q where p: "npq_closest_unexpanded (bm_retset s) = Inr (nbr, q)" "npq_ready q" "npq_capacity q = npq_capacity (bm_retset s)"
        "nq.tracks d W q" "nbr_id nbr \<in> W" "nbr_id nbr \<notin> E" "flags_are (insert (nbr_id nbr) E) q"
      using pop_flagged [OF C(1) more(1) C(3,10,4)] by blast
    let ?i = "nbr_id nbr"
    have i: "?i < n" using p(5) C(11) by blast
    define s1 where "s1 = snd (sort_out env ?i (fr, ch) (s\<lparr>bm_retset := q\<rparr>))"
    have so: "sort_out env ?i (fr, ch) (s\<lparr>bm_retset := q\<rparr>) = ((fr @ uncached env [?i], ch @ cached_part env [?i]), s1)"
      using cached_list [OF ok i] by (auto simp: s1_def sort_out_def uncached_def cached_part_def cached_def split: option.splits)
    have fr1: "bm_full s1 = bm_full s" "bm_ios s1 = bm_ios s" "bm_visited s1 = bm_visited s" "bm_retset s1 = q" "bm_counter s1 = bm_counter s"
      by (simp_all add: s1_def sort_out_def split: option.splits)
    have "beam_core env n d L W (insert ?i E) s1" using C p fr1 by (simp add: beam_core_def)
    from count_visit_ok [OF this i] obtain s2 where 2: "count_visit env ?i s1 = Inr s2" "beam_core env n d L W (insert ?i E) s2"
        "bm_full s2 = bm_full s1" "bm_ios s2 = bm_ios s1" "bm_visited s2 = bm_visited s1" by blast
    from Suc.IH [OF 2(2), of "fr @ uncached env [?i]" "ch @ cached_part env [?i]"] obtain new s' where 3:
       "find_beam k env (fr @ uncached env [?i], ch @ cached_part env [?i]) s2
          = Inr (((fr @ uncached env [?i]) @ uncached env new, (ch @ cached_part env [?i]) @ cached_part env new), s')"
       "beam_core env n d L W (insert ?i E \<union> set new) s'" "distinct new" "set new \<inter> insert ?i E = {}" "set new \<subseteq> W" "length new \<le> k"
       "bm_full s' = bm_full s2" "bm_ios s' = bm_ios s2" "bm_visited s' = bm_visited s2" by blast
    have "find_beam (Suc k) env (fr, ch) s = Inr ((fr @ uncached env (?i # new), ch @ cached_part env (?i # new)), s')"
      using more p(1) so 2(1) 3(1) by (simp add: uncached_def cached_part_def)
    moreover have "E \<union> set (?i # new) = insert ?i E \<union> set new" by auto
    ultimately show ?thesis using 3 2(3-5) fr1(1-3) p(5,6) by (intro exI [of _ "?i # new"] exI [of _ s']) auto
  qed
qed

definition beam_inv :: "beam_env \<Rightarrow> nat \<Rightarrow> (nat \<Rightarrow> fl) \<Rightarrow> (nat \<Rightarrow> fl) \<Rightarrow> nat \<Rightarrow> nat \<Rightarrow> nat set \<Rightarrow> nat set \<Rightarrow> beam_state \<Rightarrow> bool" where
  "beam_inv env n d f L start W E s \<longleftrightarrow> beam_core env n d L W E s \<and> full_is f E (bm_full s)
     \<and> (\<forall>i \<in> E. set (out_list env i) \<subseteq> bm_visited s) \<and> bm_ios s = card {i \<in> E. \<not> cached env i}
     \<and> W \<subseteq> beam_reach env start \<and> (start \<in> E \<or> E = {} \<and> W = {start})"

lemma full_is_append:
  assumes "full_is f E full" "distinct new" "set new \<inter> E = {}"
  shows "full_is f (E \<union> set new) (full @ map (\<lambda>i. Neighbor i (f i)) new)"
  using assms by (auto simp: full_is_def comp_def image_Un image_image)

lemma beam_core_count_reads: "beam_core env n d L W E (count_reads k s) = beam_core env n d L W E s"
  by (simp add: beam_core_def count_reads_def)

text \<open>The values of the reads of a beam.\<close>

definition node_of :: "beam_env \<Rightarrow> nat \<Rightarrow> byte list \<times> nat list" where
  "node_of env i = (case be_node env i of Inr p \<Rightarrow> p)"

definition held_node :: "beam_env \<Rightarrow> nat \<times> nat list \<Rightarrow> nat \<times> byte list \<times> nat list" where
  "held_node env c = (case cached_node env c of Inr p \<Rightarrow> p)"

lemma node_of_shown:
  assumes ok: "beam_ok env n d f" and i: "i < n" "\<not> cached env i"
  shows "be_node env i = Inr (node_of env i)" "shown env f (i, node_of env i)"
proof -
  obtain coords where "node_view env i = Inr (i, coords, out_list env i)" "be_full_dist env coords = Inr (f i)"
    using beam_okD(1) [OF ok i(1)] by blast
  moreover have "be_nhood_cache env i = None" using i(2) by (simp add: cached_def)
  ultimately have "be_node env i = Inr (coords, out_list env i)" "be_full_dist env coords = Inr (f i)"
    by (auto simp: node_view_def bindR_eq_Inr)
  then show "be_node env i = Inr (node_of env i)" "shown env f (i, node_of env i)" by (simp_all add: node_of_def shown_def)
qed

lemma held_node_shown:
  assumes ok: "beam_ok env n d f" and i: "i < n" "cached env i"
  shows "cached_node env (i, out_list env i) = Inr (held_node env (i, out_list env i))"
    "shown env f (held_node env (i, out_list env i))" "fst (held_node env (i, out_list env i)) = i"
proof -
  obtain coords where v: "node_view env i = Inr (i, coords, out_list env i)" "be_full_dist env coords = Inr (f i)"
    using beam_okD(1) [OF ok i(1)] by blast
  obtain ns where ns: "be_nhood_cache env i = Some ns" using i(2) by (auto simp: cached_def)
  have "cached_node env (i, out_list env i) = Inr (i, coords, out_list env i)"
    using v(1) ns cached_list [OF ok i(1) ns] by (simp add: node_view_def)
  then show "cached_node env (i, out_list env i) = Inr (held_node env (i, out_list env i))"
    "shown env f (held_node env (i, out_list env i))" "fst (held_node env (i, out_list env i)) = i"
    using v(2) by (simp_all add: held_node_def shown_def)
qed

lemma cached_part_facts:
  assumes "beam_ok env n d f" "\<forall>i \<in> set new. i < n" "c \<in> set (cached_part env new)"
  shows "cached_node env c = Inr (held_node env c)" "shown env f (held_node env c)" "fst (held_node env c) = fst c" "fst c < n"
proof -
  obtain i where i: "c = (i, out_list env i)" "i \<in> set new" "cached env i" using assms(3) by (auto simp: cached_part_def)
  have "i < n" using i(2) assms(2) by blast
  note held_node_shown [OF assms(1) this i(3)]
  then show "cached_node env c = Inr (held_node env c)" "shown env f (held_node env c)" "fst (held_node env c) = fst c" "fst c < n"
    using i(1) \<open>i < n\<close> by simp_all
qed

text \<open>All nodes of a beam, the cached ones first.\<close>

lemma process_beam_ok:
  assumes ok: "beam_ok env n d f" and core: "beam_core env n d L W E s" and small: "\<forall>i \<in> set new. i < n"
  shows "\<exists>s2 s3. foldR (\<lambda>c s. bindR (cached_node env c) (\<lambda>node. process_node env False node s)) (cached_part env new) s = Inr s2
     \<and> foldR (process_node env True) (zip (uncached env new) (map (node_of env) (uncached env new))) s2 = Inr s3
     \<and> beam_core env n d L (W \<union> reached env (set new)) E s3
     \<and> (\<forall>i \<in> set new. set (out_list env i) \<subseteq> bm_visited s3) \<and> bm_visited s \<subseteq> bm_visited s3
     \<and> bm_full s3 = bm_full s @ map (\<lambda>i. Neighbor i (f i)) (filter (cached env) new @ uncached env new) \<and> bm_ios s3 = bm_ios s"
proof -
  let ?ch = "cached_part env new" and ?fr = "uncached env new" and ?h = "held_node env"
  let ?g = "\<lambda>c s. bindR (cached_node env c) (\<lambda>node. process_node env False node s)"
  note mem = cached_part_facts [OF ok small]
  have "?g c s' = process_node env False (?h c) s'" if "c \<in> set ?ch" for c s' using mem(1) [OF that] by simp
  moreover have "\<forall>c \<in> set ?ch. shown env f (?h c) \<and> fst (?h c) < n" using mem by metis
  ultimately obtain s2 where 2: "foldR ?g ?ch s = Inr s2" "beam_core env n d L (W \<union> reached env (fst ` ?h ` set ?ch)) E s2"
     "\<forall>i \<in> fst ` ?h ` set ?ch. set (out_list env i) \<subseteq> bm_visited s2" "bm_visited s \<subseteq> bm_visited s2"
     "bm_full s2 = bm_full s @ map (\<lambda>c. Neighbor (fst (?h c)) (f (fst (?h c)))) ?ch" "bm_ios s2 = bm_ios s"
    using process_nodes_ok [where g = ?g and h = ?h and nodes = ?ch and from_disk = False, OF ok _ core] by blast
  let ?z = "zip ?fr (map (node_of env) ?fr)"
  have z: "?z = map (\<lambda>i. (i, node_of env i)) ?fr" by (simp add: zip_map2 zip_same_conv_map)
  have "\<forall>i \<in> set ?fr. shown env f (i, node_of env i) \<and> i < n" using node_of_shown [OF ok] small by (auto simp: uncached_def)
  then have "\<forall>node \<in> set ?z. shown env f (id node) \<and> fst (id node) < n" unfolding z by simp
  then obtain s3 where 3: "foldR (process_node env True) ?z s2 = Inr s3"
     "beam_core env n d L (W \<union> reached env (fst ` ?h ` set ?ch) \<union> reached env (fst ` id ` set ?z)) E s3"
     "\<forall>i \<in> fst ` id ` set ?z. set (out_list env i) \<subseteq> bm_visited s3" "bm_visited s2 \<subseteq> bm_visited s3"
     "bm_full s3 = bm_full s2 @ map (\<lambda>node. Neighbor (fst (id node)) (f (fst (id node)))) ?z" "bm_ios s3 = bm_ios s2"
    using process_nodes_ok [where g = "process_node env True" and h = id and nodes = ?z and from_disk = True, OF ok _ 2(2)] by auto
  have "fst ` ?h ` set ?ch = fst ` set ?ch" unfolding image_image by (rule image_cong) (simp_all add: mem(3))
  then have ids: "fst ` ?h ` set ?ch = {i \<in> set new. cached env i}" "fst ` id ` set ?z = {i \<in> set new. \<not> cached env i}"
    unfolding z by (auto simp: cached_part_def uncached_def image_image)
  have r: "reached env {i \<in> set new. cached env i} \<union> reached env {i \<in> set new. \<not> cached env i} = reached env (set new)"
    by (auto simp: reached_def)
  have "map (\<lambda>c. Neighbor (fst (?h c)) (f (fst (?h c)))) ?ch = map (\<lambda>c. Neighbor (fst c) (f (fst c))) ?ch"
    by (rule map_cong) (simp_all add: mem(3))
  then have full: "bm_full s3 = bm_full s @ map (\<lambda>i. Neighbor i (f i)) (filter (cached env) new @ ?fr)"
    using 2(5) 3(5) unfolding z by (simp add: cached_part_def comp_def)
  have "\<forall>i \<in> set new. set (out_list env i) \<subseteq> bm_visited s3" using 2(3) 3(3,4) unfolding ids by blast
  moreover have "beam_core env n d L (W \<union> reached env (set new)) E s3" using 3(2) unfolding ids r [symmetric] by (simp add: Un_assoc)
  moreover have "bm_visited s \<subseteq> bm_visited s3" "bm_ios s3 = bm_ios s" using 2(4,6) 3(4,6) by auto
  ultimately show ?thesis using 2(1) 3(1) full by (intro exI [of _ s2] exI [of _ s3] conjI)
qed

lemma beam_step_ok:
  assumes ok: "beam_ok env n d f" and n: "n < 2 ^ 32" and inv: "beam_inv env n d f L start W E s"
    and more: "npq_has_unexpanded_node (bm_retset s)"
  shows "\<exists>s' W' E'. beam_step env s = Inr s' \<and> beam_inv env n d f L start W' E' s' \<and> E \<subset> E' \<and> W \<subseteq> W'
     \<and> bm_ios s' \<le> bm_ios s + be_width env"
proof -
  have I: "beam_core env n d L W E s" "full_is f E (bm_full s)" "\<forall>i \<in> E. set (out_list env i) \<subseteq> bm_visited s"
     "bm_ios s = card {i \<in> E. \<not> cached env i}" "W \<subseteq> beam_reach env start" "start \<in> E \<or> E = {} \<and> W = {start}" using inv by (simp_all add: beam_inv_def)
  have B: "0 < be_width env" "be_width env * be_sectors_per_node env \<le> MAX_N_SECTOR_READS" using ok by (simp_all add: beam_ok_def)
  obtain new s1 where 1: "find_beam (be_width env) env ([], []) s = Inr ((uncached env new, cached_part env new), s1)"
     "beam_core env n d L W (E \<union> set new) s1" "distinct new" "set new \<inter> E = {}" "set new \<subseteq> W" "length new \<le> be_width env"
     "new \<noteq> []" "bm_full s1 = bm_full s" "bm_ios s1 = bm_ios s" "bm_visited s1 = bm_visited s"
    using find_beam_ok [OF ok I(1), of "be_width env" "[]" "[]"] B(1) more by auto
  have small: "\<forall>i \<in> set new. i < n" using 1(5) beam_coreD(11) [OF 1(2)] by blast
  let ?E = "E \<union> set new" and ?fr = "uncached env new"
  have lf: "length ?fr \<le> be_width env" unfolding uncached_def by (rule order_trans [OF length_filter_le 1(6)])
  then have "length ?fr * be_sectors_per_node env \<le> be_width env * be_sectors_per_node env" by (rule mult_le_mono1)
  then have "\<not> MAX_N_SECTOR_READS < length ?fr * be_sectors_per_node env" using B(2) by linarith
  moreover have "\<forall>i \<in> set ?fr. be_node env i = Inr (node_of env i)" using node_of_shown [OF ok] small by (auto simp: uncached_def)
  ultimately have read: "read_frontier env ?fr = Inr (map (node_of env) ?fr)" by (simp add: read_frontier_def mapR_total)
  let ?s1 = "count_reads (length ?fr) s1"
  have "beam_core env n d L W ?E ?s1" using 1(2) by (simp add: beam_core_count_reads)
  from process_beam_ok [OF ok this small] obtain s2 s3 where 3:
     "foldR (\<lambda>c s. bindR (cached_node env c) (\<lambda>node. process_node env False node s)) (cached_part env new) ?s1 = Inr s2"
     "foldR (process_node env True) (zip ?fr (map (node_of env) ?fr)) s2 = Inr s3"
     "beam_core env n d L (W \<union> reached env (set new)) ?E s3" "\<forall>i \<in> set new. set (out_list env i) \<subseteq> bm_visited s3"
     "bm_visited ?s1 \<subseteq> bm_visited s3" "bm_full s3 = bm_full ?s1 @ map (\<lambda>i. Neighbor i (f i)) (filter (cached env) new @ ?fr)"
     "bm_ios s3 = bm_ios ?s1" by blast
  have step: "beam_step env s = Inr s3" using 1(1) read 3(1,2) by (simp add: beam_step_def)
  have "full_is f (E \<union> set (filter (cached env) new @ ?fr)) (bm_full s3)"
    unfolding 3(6) by (rule full_is_append) (use I(2) 1(3,4,8) in \<open>auto simp: uncached_def count_reads_def\<close>)
  moreover have "set (filter (cached env) new @ ?fr) = set new" by (auto simp: uncached_def)
  ultimately have full: "full_is f ?E (bm_full s3)" by simp
  have EW: "?E \<subseteq> {..<n}" using beam_coreD(5,11) [OF 1(2)] by blast
  have fin: "finite ?E" by (rule finite_subset [OF EW]) simp
  have "{i \<in> ?E. \<not> cached env i} = {i \<in> E. \<not> cached env i} \<union> set ?fr" by (auto simp: uncached_def)
  moreover have "distinct ?fr" using 1(3) by (simp add: uncached_def)
  then have "card (set ?fr) = length ?fr" by (rule distinct_card)
  moreover have "card ({i \<in> E. \<not> cached env i} \<union> set ?fr) = card {i \<in> E. \<not> cached env i} + card (set ?fr)"
    by (rule card_Un_disjoint) (use fin 1(4) in \<open>auto simp: uncached_def\<close>)
  ultimately have cd: "card {i \<in> ?E. \<not> cached env i} = bm_ios s + length ?fr" using I(4) by simp
  have "card {i \<in> ?E. \<not> cached env i} \<le> card {..<n}" by (intro card_mono) (use EW in auto)
  then have ios: "bm_ios s3 = card {i \<in> ?E. \<not> cached env i}" using cd n 1(9) 3(7) by (simp add: count_reads_def u32_add_def)
  have vis: "bm_visited s \<subseteq> bm_visited s3" using 3(5) 1(10) by (simp add: count_reads_def)
  have "reached env (set new) \<subseteq> beam_reach env start" using 1(5) I(5) by (auto simp: reached_def intro: beam_reach_step)
  moreover have "\<forall>i \<in> ?E. set (out_list env i) \<subseteq> bm_visited s3" using I(3) 3(4) vis by blast
  moreover have "start \<in> ?E" using I(6) 1(5,7) by (cases new) auto
  ultimately have "beam_inv env n d f L start (W \<union> reached env (set new)) ?E s3"
    using 3(3) full ios I(5) by (simp add: beam_inv_def)
  moreover have "E \<subset> ?E" using 1(4,7) by (cases new) auto
  moreover have "bm_ios s3 \<le> bm_ios s + be_width env" using ios cd lf by simp
  ultimately show ?thesis using step by blast
qed

section \<open>The whole search\<close>

lemma beam_loop_ok:
  assumes ok: "beam_ok env n d f" and n: "n < 2 ^ 32"
  shows "beam_inv env n d f L start W E s \<Longrightarrow> n < card E + fuel \<Longrightarrow> bm_ios s < be_io_limit env + be_width env \<Longrightarrow>
    \<exists>s' W' E'. beam_loop fuel env s = Inr s' \<and> beam_inv env n d f L start W' E' s' \<and> E \<subseteq> E' \<and> bm_ios s' < be_io_limit env + be_width env
     \<and> \<not> (npq_has_unexpanded_node (bm_retset s') \<and> bm_ios s' < be_io_limit env)
     \<and> (npq_has_unexpanded_node (bm_retset s) \<and> bm_ios s < be_io_limit env \<longrightarrow> E \<noteq> E')"
proof (induction fuel arbitrary: s W E)
  case 0
  then have "E \<subseteq> {..<n}" using beam_coreD(5,11) unfolding beam_inv_def by blast
  then have "card E \<le> card {..<n}" by (intro card_mono) auto
  then show ?case using "0.prems"(2) by simp
next
  case (Suc fuel)
  show ?case
  proof (cases "npq_has_unexpanded_node (bm_retset s) \<and> bm_ios s < be_io_limit env")
    case False
    then have "beam_loop (Suc fuel) env s = Inr s" using False by (auto simp: beam_loop.simps [of "Suc fuel"])
    then show ?thesis using False Suc.prems by blast
  next
    case True
    obtain s1 W1 E1 where 1: "beam_step env s = Inr s1" "beam_inv env n d f L start W1 E1 s1" "E \<subset> E1"
        "bm_ios s1 \<le> bm_ios s + be_width env" using beam_step_ok [OF ok n Suc.prems(1)] True by blast
    have "E1 \<subseteq> {..<n}" using 1(2) beam_coreD(5,11) unfolding beam_inv_def by blast
    then have "card E < card E1" using 1(3) by (intro psubset_card_mono finite_subset [of E1 "{..<n}"]) auto
    then have "n < card E1 + fuel" using Suc.prems(2) by simp
    moreover have "bm_ios s1 < be_io_limit env + be_width env" using 1(4) True by linarith
    ultimately obtain s2 W2 E2 where 2: "beam_loop fuel env s1 = Inr s2" "beam_inv env n d f L start W2 E2 s2" "E1 \<subseteq> E2"
        "bm_ios s2 < be_io_limit env + be_width env" "\<not> (npq_has_unexpanded_node (bm_retset s2) \<and> bm_ios s2 < be_io_limit env)"
      using Suc.IH [OF 1(2)] by blast
    have "beam_loop (Suc fuel) env s = Inr s2" using True 1(1) 2(1) by (simp add: beam_loop.simps [of "Suc fuel"])
    moreover have "E \<subseteq> E2" "E \<noteq> E2" using 1(3) 2(3) by blast+
    ultimately show ?thesis using 2(2,4,5) by blast
  qed
qed

definition beam_clean :: "beam_env \<Rightarrow> nat \<Rightarrow> beam_state \<Rightarrow> bool" where
  "beam_clean env n s \<longleftrightarrow> bm_visited s = {} \<and> bm_full s = [] \<and> npq_size (bm_retset s) = 0 \<and> npq_cur (bm_retset s) = 0
     \<and> (be_count_visited env \<longrightarrow> n \<le> length (bm_counter s))"

lemma beam_start_ok:
  assumes ok: "beam_ok env n d f" and clean: "beam_clean env n s" and L: "0 < L" and start: "start < n"
  shows "\<exists>s0. beam_start env start L s = Inr s0 \<and> beam_inv env n d f L start {start} {} s0 \<and> bm_ios s0 = 0
     \<and> npq_has_unexpanded_node (bm_retset s0)"
proof -
  let ?q = "npq_reserve (bm_retset s) L"
  have c: "npq_size (bm_retset s) = 0" "npq_cur (bm_retset s) = 0" using clean by (simp_all add: beam_clean_def)
  have live: "npq_live ?q = []" using c by (simp add: npq_live_def)
  have r: "npq_ready ?q" using npq_reserve_cleared [OF c] L by (simp add: npq_ready_def)
  have t: "nq.tracks d {} ?q" using live by (simp add: nq.tracks_def)
  obtain q where q: "npq_insert ?q (Neighbor start (d start)) = Inr q" "npq_ready q" "npq_capacity q = L" "nq.tracks d {start} q"
      "set (npq_live q) \<subseteq> insert (Neighbor start (d start)) (set (npq_live ?q))"
    using nq.ins_candidate [OF r t _ beam_okD(5) [OF ok start]] by auto
  have fl: "flags_are {} q" using q(5) live by (auto simp: flags_are_def)
  have "map nbr_key (npq_live q) = [(d start, start)]" using q(3,4) L by (simp add: nq.tracks_def ranking_def)
  then obtain x where x: "npq_live q = [x]" by (auto simp: map_eq_Cons_conv)
  then have m: "npq_has_unexpanded_node q" using nq.more_law [OF q(2)] fl by (auto simp: flags_are_def)
  define s0 where "s0 = s\<lparr>bm_retset := q, bm_visited := insert start (bm_visited s), bm_ios := 0\<rparr>"
  have "beam_start env start L s = Inr s0" using beam_okD(7) [OF ok start] q(1) by (simp add: beam_start_def s0_def)
  moreover have "beam_inv env n d f L start {start} {} s0"
    using q fl clean start by (auto simp: beam_inv_def beam_core_def full_is_def beam_clean_def s0_def intro: beam_reach_start)
  ultimately show ?thesis using m by (auto simp: s0_def)
qed

lemma sort_full:
  assumes "full_is f E full" "\<forall>i \<in> E. f i \<noteq> NaN"
  shows "\<exists>xs. sort_pool full = Inr xs \<and> map nbr_key xs = ranking f E \<and> set xs = set full"
proof -
  have nn: "nbr_dist x \<noteq> NaN" if "x \<in> set full" for x
    using assms that by (auto simp: full_is_def)
  have keys: "nbr_key ` set full = (\<lambda>i. (f i, i)) ` E"
    using assms(1) by (force simp: full_is_def nbr_key_def)
  have "distinct (map nbr_id full)" using assms(1) by (simp add: full_is_def)
  then have "distinct (map nbr_key full)" unfolding distinct_map
    by (auto simp: inj_on_def intro: nbr_key_id)
  then have "sort (map nbr_key full) = sorted_list_of_set (set (map nbr_key full))"
    by (simp only: sorted_list_of_set_sort_remdups distinct_remdups_id)
  moreover have "map nbr_key (sort_key nbr_key full) = sort (map nbr_key full)"
    by (rule properties_for_sort [symmetric]) simp_all
  ultimately have "map nbr_key (sort_key nbr_key full) = ranking f E" by (simp add: keys ranking_def)
  then show ?thesis using nn by (auto simp: sort_pool_def)
qed

lemma beam_search_library:
  assumes ok: "beam_ok env n d f" and n: "n < 2 ^ 32" and clean: "beam_clean env n s" and L: "0 < L" and start: "start < n"
    and limit: "0 < be_io_limit env"
  shows "\<exists>full s' E W. beam_search n env start L s = Inr (full, s') \<and> map nbr_key full = ranking f E \<and> nbr_id ` set full = E
     \<and> start \<in> E \<and> E \<subseteq> W \<and> W \<subseteq> beam_reach env start \<and> W \<subseteq> {..<n}
     \<and> bm_ios s' = card {i \<in> E. \<not> cached env i} \<and> bm_ios s' < be_io_limit env + be_width env
     \<and> (bm_ios s' < be_io_limit env \<longrightarrow> map nbr_key (npq_live (bm_retset s')) = take L (ranking d W)
          \<and> nbr_id ` set (npq_live (bm_retset s')) \<subseteq> E
          \<and> (\<forall>i \<in> E. \<forall>m \<in> set (out_list env i). \<not> skipped env m \<longrightarrow> m \<in> W))"
proof -
  obtain s0 where 0: "beam_start env start L s = Inr s0" "beam_inv env n d f L start {start} {} s0" "bm_ios s0 = 0"
     "npq_has_unexpanded_node (bm_retset s0)" using beam_start_ok [OF ok clean L start] by blast
  have w: "0 < be_width env" using ok by (simp add: beam_ok_def)
  obtain s1 W E where 1: "beam_loop (n + 1) env s0 = Inr s1" "beam_inv env n d f L start W E s1"
     "bm_ios s1 < be_io_limit env + be_width env" "\<not> (npq_has_unexpanded_node (bm_retset s1) \<and> bm_ios s1 < be_io_limit env)" "E \<noteq> {}"
    using beam_loop_ok [OF ok n 0(2), of "n + 1"] 0(3,4) w limit by auto
  have I: "beam_core env n d L W E s1" "full_is f E (bm_full s1)" "\<forall>i \<in> E. set (out_list env i) \<subseteq> bm_visited s1"
     "bm_ios s1 = card {i \<in> E. \<not> cached env i}" "W \<subseteq> beam_reach env start" "start \<in> E" using 1(2,5) by (auto simp: beam_inv_def)
  note C = beam_coreD [OF I(1)]
  have nn: "\<forall>i \<in> E. f i \<noteq> NaN" using beam_okD(6) [OF ok] C(5,11) by blast
  obtain full where full: "sort_pool (bm_full s1) = Inr full" "map nbr_key full = ranking f E" "set full = set (bm_full s1)"
    using sort_full [OF I(2) nn] by blast
  have res: "beam_search n env start L s = Inr (full, s1\<lparr>bm_full := full\<rparr>)" using 0(1) 1(1) full(1) by (simp add: beam_search_def)
  have opt: "bm_ios s1 < be_io_limit env \<Longrightarrow> nbr_id ` set (npq_live (bm_retset s1)) \<subseteq> E"
    using 1(4) nq.more_law [OF C(1)] C(4) by (auto simp: flags_are_def)
  have "\<forall>i \<in> E. \<forall>m \<in> set (out_list env i). \<not> skipped env m \<longrightarrow> m \<in> W" using I(3) C(8) by blast
  moreover have "map nbr_key (npq_live (bm_retset s1)) = take L (ranking d W)" using C(2,3) by (simp add: nq.tracks_def)
  moreover have "nbr_id ` set full = E" using full(3) I(2) by (simp add: full_is_def)
  ultimately show ?thesis using res full(2) I(4-6) C(5,11) 1(3) opt
    by (intro exI [of _ full] exI [of _ "s1\<lparr>bm_full := full\<rparr>"] exI [of _ E] exI [of _ W]) simp
qed

section \<open>The query\<close>

definition MAX_PQ_CHUNKS :: nat where
  "MAX_PQ_CHUNKS = 512"

text \<open>
  What \<^verbatim>\<open>PQFlashIndex\<close> keeps for a search. The casts between elements and floats, the square root and the
  two distance functors are parameters. Coordinates are bytes: with a disk PQ they hold centre numbers.
\<close>

record 'a flash_search =
  fs_fi :: flash_index
  fs_file :: "byte list"
  fs_codec :: "'a codec"
  fs_to_float :: "'a \<Rightarrow> fl"
  fs_of_float :: "fl \<Rightarrow> 'a"
  fs_sqrt :: "fl \<Rightarrow> fl"
  fs_compare :: "'a list \<Rightarrow> 'a list \<Rightarrow> fl"
  fs_compare_float :: "fl list \<Rightarrow> fl list \<Rightarrow> fl"
  fs_metric :: metric
  fs_data_dim :: nat
  fs_aligned_dim :: nat
  fs_pq :: pq_table
  fs_data :: "nat list"
  fs_n_chunks :: nat
  fs_use_disk_pq :: bool
  fs_disk_pq :: pq_table
  fs_medoids :: "nat list"
  fs_centroids :: "fl list"
  fs_nhood_cache :: "nat \<Rightarrow> nat list option"
  fs_coord_cache :: "nat \<Rightarrow> byte list option"
  fs_dummy_to_real :: "nat \<Rightarrow> nat option"          \<comment> \<open>also \<^verbatim>\<open>_dummy_pts\<close>: its keys\<close>
  fs_filter_medoids :: "nat \<Rightarrow> nat list option"
  fs_label_offsets :: "nat list"
  fs_label_counts :: "nat list"
  fs_labels :: "nat list"
  fs_use_universal :: bool
  fs_universal :: nat
  fs_max_base_norm :: fl
  fs_count_visited :: bool

record 'a prepared =
  pr_aligned :: "'a list"
  pr_float :: "fl list"
  pr_rotated :: "fl list"
  pr_norm :: fl

text \<open>The query buffers are zeroed once, and a query overwrites the same prefix every time.\<close>

definition copy_query :: "('a::zero) flash_search \<Rightarrow> 'a list \<Rightarrow> nat \<Rightarrow> ('a list \<times> fl) result" where
  "copy_query fs query1 inherent_dim =
     foldR (\<lambda>i (aq, nrm). bindR (vec_at query1 i) (\<lambda>x. bindR (vec_put aq i x) (\<lambda>aq'.
         Inr (aq', fl_add F32 nrm (fl_mul F32 (fs_to_float fs x) (fs_to_float fs x)))))) [0..<inherent_dim]
       (replicate (fs_aligned_dim fs) 0, Fin 0)"

definition normalise_query :: "('a::zero) flash_search \<Rightarrow> nat \<Rightarrow> fl \<Rightarrow> 'a list \<Rightarrow> 'a list result" where
  "normalise_query fs inherent_dim query_norm aq =
     foldR (\<lambda>i aq. bindR (vec_at aq i) (\<lambda>x. vec_put aq i (fs_of_float fs (fl_div F32 (fs_to_float fs x) query_norm)))) [0..<inherent_dim] aq"

definition prepare_query :: "('a::zero) flash_search \<Rightarrow> 'a list \<Rightarrow> 'a prepared result" where
  "prepare_query fs query1 =
     bindR (if fs_metric fs = INNER_PRODUCT \<or> fs_metric fs = COSINE
        then let inherent_dim = (if fs_metric fs = COSINE then fs_data_dim fs else (fs_data_dim fs + 2 ^ 64 - 1) mod 2 ^ 64)
             in bindR (copy_query fs query1 inherent_dim) (\<lambda>(aq, sq).
                bindR (if fs_metric fs = INNER_PRODUCT then vec_put aq (fs_data_dim fs - 1) 0 else Inr aq) (\<lambda>aq'.
                bindR (normalise_query fs inherent_dim (fs_sqrt fs sq) aq') (\<lambda>aq''. Inr (aq'', fs_sqrt fs sq))))
        else bindR (copy_query fs query1 (fs_data_dim fs)) (\<lambda>(aq, _). Inr (aq, Fin 0))) (\<lambda>(aq, nrm).
     bindR (pqs_initialize (fs_to_float fs) (fs_data_dim fs) aq (f32 1)
         \<lparr>pqs_query = replicate (fs_aligned_dim fs) (Fin 0), pqs_rotated = replicate (fs_aligned_dim fs) (Fin 0)\<rparr>) (\<lambda>p.
     bindR (preprocess_query (fs_pq fs) (pqs_rotated p)) (\<lambda>rotated.
       Inr \<lparr>pr_aligned = aq, pr_float = pqs_query p, pr_rotated = rotated, pr_norm = nrm\<rparr>)))"

text \<open>Labels of a point.\<close>

fun scan_labels :: "nat list \<Rightarrow> nat \<Rightarrow> nat \<Rightarrow> nat \<Rightarrow> bool result" where
  "scan_labels labels start 0 label_id = Inr False"
| "scan_labels labels start (Suc k) label_id =
     bindR (vec_at labels start) (\<lambda>l. if l = label_id then Inr True else scan_labels labels (start + 1) k label_id)"

definition point_has_label :: "'a flash_search \<Rightarrow> nat \<Rightarrow> nat \<Rightarrow> bool result" where
  "point_has_label fs point_id label_id =
     bindR (vec_at (fs_label_offsets fs) point_id) (\<lambda>start_vec. bindR (vec_at (fs_label_counts fs) point_id) (\<lambda>num_lbls.
       scan_labels (fs_labels fs) start_vec num_lbls label_id))"

definition skip_point :: "'a flash_search \<Rightarrow> nat option \<Rightarrow> nat \<Rightarrow> bool result" where
  "skip_point fs filter_label i =
     (case filter_label of None \<Rightarrow> Inr (fs_dummy_to_real fs i \<noteq> None)
      | Some l \<Rightarrow> bindR (point_has_label fs i l) (\<lambda>has.
          if has then Inr False else if \<not> fs_use_universal fs then Inr True
          else bindR (point_has_label fs i (fs_universal fs)) (\<lambda>has_universal. Inr (\<not> has_universal))))"

text \<open>Distances. The coordinate buffer of the scratch space is zero behind the coordinates.\<close>

definition exact_distance :: "('a::zero) flash_search \<Rightarrow> 'a prepared \<Rightarrow> byte list \<Rightarrow> fl result" where
  "exact_distance fs pr coords =
     (if \<not> fs_use_disk_pq fs
      then Inr (fs_compare fs (pr_aligned pr)
        (map (cd_dec (fs_codec fs)) (split_chunks (cd_size (fs_codec fs)) (fs_aligned_dim fs) (pad_row (fs_aligned_dim fs * cd_size (fs_codec fs)) coords))))
      else if fs_metric fs = INNER_PRODUCT then inner_product (fs_disk_pq fs) (pr_float pr) coords
      else l2_distance (fs_disk_pq fs) (pr_float pr) coords)"

definition scratch_dists :: "'a flash_search \<Rightarrow> fl list \<Rightarrow> nat list \<Rightarrow> fl list result" where
  "scratch_dists fs pq_dists ids =
     bindR (compute_dists (fs_data fs) (fs_n_chunks fs) pq_dists ids
        (replicate (MAX_GRAPH_DEGREE * MAX_PQ_CHUNKS) 0, replicate MAX_GRAPH_DEGREE (Fin 0))) (\<lambda>(_, ds). Inr (take (length ids) ds))"

text \<open>A node in the sectors read for it.\<close>

definition beam_node :: "flash_index \<Rightarrow> byte list \<Rightarrow> nat \<Rightarrow> (byte list \<times> nat list) result" where
  "beam_node fi disk_index i =
     bindR (read_sectors fi disk_index i) (\<lambda>buf.
     bindR (node_coords fi buf i) (\<lambda>coords.
     let off = offset_to_node fi i + fi_disk_bytes fi in
     bindR (mem_get buf off 4) (\<lambda>b. bindR (mem_get buf (off + 4) (le_value b * 4)) (\<lambda>nb.
       Inr (coords, le_words 4 (le_value b) nb)))))"

definition flash_env :: "('a::zero) flash_search \<Rightarrow> 'a prepared \<Rightarrow> fl list \<Rightarrow> nat \<Rightarrow> nat option \<Rightarrow> nat \<Rightarrow> beam_env" where
  "flash_env fs pr pq_dists beam_width filter_label io_limit =
     \<lparr>be_width = beam_width, be_io_limit = io_limit, be_sectors_per_node = node_sectors (fs_fi fs),
      be_node = beam_node (fs_fi fs) (fs_file fs), be_nhood_cache = fs_nhood_cache fs, be_coord_cache = fs_coord_cache fs,
      be_dists = scratch_dists fs pq_dists, be_full_dist = exact_distance fs pr, be_skip = skip_point fs filter_label,
      be_count_visited = fs_count_visited fs\<rparr>"

section \<open>Searching the index on disk\<close>

text \<open>The start point: the medoid of the nearest centroid, or the nearest medoid of the label.\<close>

definition nearest_medoid :: "(nat \<times> fl) list \<Rightarrow> nat" where
  "nearest_medoid ms = fst (fold (\<lambda>(m, d) (best_medoid, best_dist). if fl_lt d best_dist then (m, d) else (best_medoid, best_dist)) ms (0, FLT_MAX))"

definition choose_start :: "'a flash_search \<Rightarrow> 'a prepared \<Rightarrow> fl list \<Rightarrow> nat option \<Rightarrow> nat result" where
  "choose_start fs pr pq_dists filter_label =
     (case filter_label of
        None \<Rightarrow> bindR (mapR (\<lambda>cur_m. bindR (mem_get (fs_centroids fs) (fs_aligned_dim fs * cur_m) (fs_aligned_dim fs)) (\<lambda>c.
            bindR (vec_at (fs_medoids fs) cur_m) (\<lambda>m. Inr (m, fs_compare_float fs (pr_float pr) c)))) [0..<length (fs_medoids fs)])
          (\<lambda>ms. Inr (nearest_medoid ms))
      | Some l \<Rightarrow> (case fs_filter_medoids fs l of
            None \<Rightarrow> Inl (ANNException ''Cannot find medoid for specified filter.'')
          | Some medoid_ids \<Rightarrow> bindR (mapR (\<lambda>m. bindR (scratch_dists fs pq_dists [m]) (\<lambda>ds. bindR (vec_at ds 0) (\<lambda>d. Inr (m, d)))) medoid_ids)
              (\<lambda>ms. Inr (nearest_medoid ms))))"

text \<open>Re-ordering by the full-precision vectors; each read takes one sector of the sector scratch.\<close>

definition FULL_PRECISION_REORDER_MULTIPLIER :: nat where
  "FULL_PRECISION_REORDER_MULTIPLIER = 3"

definition reorder_distance :: "'a flash_search \<Rightarrow> 'a prepared \<Rightarrow> nat \<times> nat \<times> nat \<Rightarrow> neighbor \<Rightarrow> neighbor result" where
  "reorder_distance fs pr reorder x =
     (let (start_sector, ndims, nvecs_per_sector) = reorder in
      if nvecs_per_sector = 0 then Inl UndefinedBehaviour
      else bindR (mem_get (fs_file fs) ((nbr_id x div nvecs_per_sector + start_sector) * SECTOR_LEN) SECTOR_LEN) (\<lambda>sector.
        bindR (mem_get sector (nbr_id x mod nvecs_per_sector * fs_data_dim fs * 4) (fs_data_dim fs * cd_size (fs_codec fs))) (\<lambda>v.
          Inr (x\<lparr>nbr_dist := fs_compare fs (pr_aligned pr) (map (cd_dec (fs_codec fs)) (split_chunks (cd_size (fs_codec fs)) (fs_data_dim fs) v))\<rparr>))))"

definition reorder_results :: "'a flash_search \<Rightarrow> 'a prepared \<Rightarrow> nat \<Rightarrow> neighbor list \<times> beam_state \<Rightarrow> (neighbor list \<times> beam_state) result" where
  "reorder_results fs pr k_search r =
     (case fi_reorder (fs_fi fs) of
        None \<Rightarrow> Inl (ANNException ''Requested use of reordering data which does not exist in index file'')
      | Some reorder \<Rightarrow>
          let (full, s) = r; kept = take (k_search * FULL_PRECISION_REORDER_MULTIPLIER) full in
          if MAX_N_SECTOR_READS < length kept then Inl UndefinedBehaviour
          else bindR (mapR (reorder_distance fs pr reorder) kept) (\<lambda>scored.
               bindR (sort_pool scored) (\<lambda>sorted.
                 Inr (sorted, s\<lparr>bm_full := sorted,
                   bm_stats := (bm_stats s)\<lparr>qs_n_4k := qs_n_4k (bm_stats s) + length kept, qs_n_ios := qs_n_ios (bm_stats s) + length kept\<rparr>\<rparr>))))"

text \<open>The first \<^verbatim>\<open>k_search\<close> results; nothing tests that there are so many.\<close>

definition result_distance :: "'a flash_search \<Rightarrow> fl \<Rightarrow> fl \<Rightarrow> fl" where
  "result_distance fs query_norm d =
     (if fs_metric fs = INNER_PRODUCT
      then if \<not> fl_eq (fs_max_base_norm fs) (Fin 0) then fl_mul F32 (fl_neg d) (fl_mul F32 (fs_max_base_norm fs) query_norm) else fl_neg d
      else d)"

definition copy_result :: "'a flash_search \<Rightarrow> fl \<Rightarrow> neighbor list \<Rightarrow> nat \<Rightarrow> nat list \<times> fl list option \<Rightarrow> (nat list \<times> fl list option) result" where
  "copy_result fs query_norm full i out =
     (let (indices, distances) = out in
      bindR (vec_at full i) (\<lambda>x.
      bindR (vec_put indices i (case fs_dummy_to_real fs (nbr_id x) of Some r \<Rightarrow> r | None \<Rightarrow> nbr_id x)) (\<lambda>indices'.
      case distances of None \<Rightarrow> Inr (indices', None)
      | Some ds \<Rightarrow> bindR (vec_put ds i (result_distance fs query_norm (nbr_dist x))) (\<lambda>ds'. Inr (indices', Some ds')))))"

definition cached_beam_search ::
  "('a::zero) flash_search \<Rightarrow> 'a list \<Rightarrow> nat \<Rightarrow> nat \<Rightarrow> nat list \<times> fl list option \<Rightarrow> nat \<Rightarrow> nat option \<Rightarrow> nat \<Rightarrow> bool
     \<Rightarrow> beam_state \<Rightarrow> ((nat list \<times> fl list option) \<times> beam_state) result" where
  "cached_beam_search fs query1 k_search l_search out beam_width filter_label io_limit use_reorder_data s =
     (if div_round_up (fi_max_node_len (fs_fi fs)) SECTOR_LEN * MAX_N_SECTOR_READS < beam_width
      then Inl (ANNException ''Beamwidth can not be higher than defaults::MAX_N_SECTOR_READS'')
      else
        bindR (prepare_query fs query1) (\<lambda>pr.
        bindR (populate_chunk_distances (fs_pq fs) (pr_rotated pr) (replicate (256 * MAX_PQ_CHUNKS) (Fin 0))) (\<lambda>pq_dists.
        bindR (choose_start fs pr pq_dists filter_label) (\<lambda>best_medoid.
        bindR (beam_search (fi_num_points (fs_fi fs)) (flash_env fs pr pq_dists beam_width filter_label io_limit) best_medoid l_search
            (s\<lparr>bm_visited := {}, bm_retset := npq_clear (bm_retset s), bm_full := []\<rparr>)) (\<lambda>r.
        bindR (if use_reorder_data then reorder_results fs pr k_search r else Inr r) (\<lambda>(full, s').
        bindR (foldR (copy_result fs (pr_norm pr) full) [0..<k_search] out) (\<lambda>out'. Inr (out', s'))))))))"

text \<open>
  \<^verbatim>\<open>range_search\<close> doubles the list until less than half of it is in range. One search is run per fuel unit; the
  size is a \<^verbatim>\<open>uint32_t\<close>.
\<close>

definition range_beam :: "nat \<Rightarrow> nat \<Rightarrow> nat" where
  "range_beam min_beam_width l_search =
     (let cur_bw = (if l_search div 5 < min_beam_width then min_beam_width else l_search div 5) in if 100 < cur_bw then 100 else cur_bw)"

text \<open>The number of results in range; the loop does not set it when the size is zero, and the value of the round before stays.\<close>

fun count_in_range :: "fl \<Rightarrow> nat \<Rightarrow> fl list \<Rightarrow> nat" where
  "count_in_range rng i [] = i"
| "count_in_range rng i (d # ds) = (if fl_lt rng d then i else count_in_range rng (i + 1) ds)"

fun range_rounds ::
  "nat \<Rightarrow> ('a::zero) flash_search \<Rightarrow> 'a list \<Rightarrow> fl \<Rightarrow> nat \<Rightarrow> nat \<Rightarrow> nat \<Rightarrow> nat \<Rightarrow> nat list \<times> fl list \<Rightarrow> beam_state
     \<Rightarrow> ((nat \<times> nat list \<times> fl list) \<times> beam_state) result" where
  "range_rounds 0 fs query1 rng max_l_search min_beam_width l_search res_count out s = Inl OutOfFuel"
| "range_rounds (Suc fuel) fs query1 rng max_l_search min_beam_width l_search res_count out s =
     bindR (cached_beam_search fs query1 l_search l_search
         (vec_resize 0 l_search (fst out), Some (replicate l_search FLT_MAX))
         (range_beam min_beam_width l_search) None UINT32_MAX False s) (\<lambda>((indices, distances), s').
     let ds = the distances;
         res_count' = (if l_search = 0 then res_count else count_in_range rng 0 ds);
         l' = u32 (l_search * 2)
     in if res_count' < l_search div 2 \<or> max_l_search < l'
        then Inr ((res_count', vec_resize 0 res_count' indices, vec_resize (Fin 0) res_count' ds), s')
        else range_rounds fuel fs query1 rng max_l_search min_beam_width l' res_count' (indices, ds) s')"

definition range_search ::
  "nat \<Rightarrow> ('a::zero) flash_search \<Rightarrow> 'a list \<Rightarrow> fl \<Rightarrow> nat \<Rightarrow> nat \<Rightarrow> nat list \<times> fl list \<Rightarrow> nat \<Rightarrow> beam_state
     \<Rightarrow> ((nat \<times> nat list \<times> fl list) \<times> beam_state) result" where
  "range_search fuel fs query1 range_limit min_l_search max_l_search out min_beam_width s =
     range_rounds fuel fs query1 (fl_conv F32 range_limit) max_l_search min_beam_width (u32 min_l_search) 0 out s"

section \<open>The results\<close>

definition real_id :: "'a flash_search \<Rightarrow> nat \<Rightarrow> nat" where
  "real_id fs i = (case fs_dummy_to_real fs i of Some r \<Rightarrow> r | None \<Rightarrow> i)"

lemma copy_results_ok:
  assumes "k \<le> length full" "k \<le> length indices" "k \<le> length ds"
  shows "foldR (copy_result fs qn full) [0..<k] (indices, Some ds)
     = Inr (map (\<lambda>x. real_id fs (nbr_id x)) (take k full) @ drop k indices,
            Some (map (\<lambda>x. result_distance fs qn (nbr_dist x)) (take k full) @ drop k ds))"
  using assms
proof (induction k)
  case (Suc k)
  then have IH: "foldR (copy_result fs qn full) [0..<k] (indices, Some ds)
     = Inr (map (\<lambda>x. real_id fs (nbr_id x)) (take k full) @ drop k indices,
            Some (map (\<lambda>x. result_distance fs qn (nbr_dist x)) (take k full) @ drop k ds))" by simp
  have k: "k < length full" "k < length indices" "k < length ds" using Suc.prems by simp_all
  then have "copy_result fs qn full k (map (\<lambda>x. real_id fs (nbr_id x)) (take k full) @ drop k indices,
            Some (map (\<lambda>x. result_distance fs qn (nbr_dist x)) (take k full) @ drop k ds))
     = Inr (map (\<lambda>x. real_id fs (nbr_id x)) (take (Suc k) full) @ drop (Suc k) indices,
            Some (map (\<lambda>x. result_distance fs qn (nbr_dist x)) (take (Suc k) full) @ drop (Suc k) ds))"
    by (simp add: copy_result_def real_id_def list_update_append take_Suc_conv_app_nth Cons_nth_drop_Suc [symmetric])
  then show ?case using IH by (simp add: foldR_append foldR_one)
qed simp

lemma copy_results_short:
  assumes "length full < k" "k \<le> length indices" "k \<le> length ds"
  shows "foldR (copy_result fs qn full) [0..<k] (indices, Some ds) = Inl UndefinedBehaviour"
proof -
  let ?m = "length full"
  have "[0..<k] = [0..<?m] @ ?m # [Suc ?m..<k]"
    using upt_add_eq_append [of 0 ?m "k - ?m"] assms(1) by (simp add: upt_conv_Cons)
  then show ?thesis using copy_results_ok [of ?m full indices ds fs qn] assms
    by (simp add: foldR_append copy_result_def vec_at_out)
qed

lemma beam_clean_cleared:
  "be_count_visited env \<longrightarrow> n \<le> length (bm_counter s) \<Longrightarrow> beam_clean env n (s\<lparr>bm_visited := {}, bm_retset := npq_clear (bm_retset s), bm_full := []\<rparr>)"
  by (simp add: beam_clean_def npq_clear_def)


text \<open>An index of one point, in the caches.\<close>

definition one_point_index :: "nat flash_search" where
  "one_point_index = \<lparr>fs_fi = \<lparr>fi_num_points = 1, fi_disk_bytes = 8, fi_medoid = 0, fi_max_node_len = 16, fi_nnodes_per_sector = 256,
       fi_max_degree = 1, fi_num_frozen = 0, fi_frozen_location = 0, fi_reorder = None\<rparr>,
     fs_file = [], fs_codec = u32_codec, fs_to_float = (\<lambda>_. Fin 0), fs_of_float = (\<lambda>_. 0), fs_sqrt = (\<lambda>x. x), fs_compare = (\<lambda>_ _. Fin 0),
     fs_compare_float = (\<lambda>_ _. Fin 0), fs_metric = L2, fs_data_dim = 1, fs_aligned_dim = 1,
     fs_pq = pt_make\<lparr>pt_ndims := 1, pt_n_chunks := 1, pt_chunk_offsets := [0, 1], pt_centroid := [Fin 0], pt_tables_tr := replicate 256 (Fin 0)\<rparr>,
     fs_data = [3], fs_n_chunks = 1, fs_use_disk_pq = False, fs_disk_pq = pt_make, fs_medoids = [0], fs_centroids = [Fin 0],
     fs_nhood_cache = (\<lambda>i. if i = 0 then Some [] else None), fs_coord_cache = (\<lambda>i. if i = 0 then Some [1, 0, 0, 0] else None),
     fs_dummy_to_real = (\<lambda>_. None), fs_filter_medoids = (\<lambda>_. None), fs_label_offsets = [], fs_label_counts = [], fs_labels = [],
     fs_use_universal = False, fs_universal = 0, fs_max_base_norm = Fin 0, fs_count_visited = False\<rparr>"

definition empty_beam :: beam_state where
  "empty_beam = \<lparr>bm_retset = npq_new, bm_visited = {}, bm_full = [], bm_ios = 0,
     bm_stats = \<lparr>qs_n_cache_hits = 0, qs_n_hops = 0, qs_n_4k = 0, qs_n_ios = 0, qs_n_cmps = 0\<rparr>, bm_counter = []\<rparr>"

lemma one_point_pt: "pt_ok (fs_pq one_point_index)" "pt_ndims (fs_pq one_point_index) = 1" "pt_n_chunks (fs_pq one_point_index) = 1"
  by (auto simp: pt_ok_def one_point_index_def)

lemma one_point_query:
  "prepare_query one_point_index [5] = Inr \<lparr>pr_aligned = [5], pr_float = [Fin 0], pr_rotated = [Fin 0], pr_norm = Fin 0\<rparr>"
  by (simp add: prepare_query_def one_point_index_def copy_query_def pqs_initialize_def preprocess_query_def f32_def fl_eq_def fl_sub_def pt_make_def Let_def)

lemma one_point_table:
  "populate_chunk_distances (fs_pq one_point_index) [Fin 0] (replicate (256 * MAX_PQ_CHUNKS) (Fin 0))
     = Inr (distance_table (fs_pq one_point_index) [Fin 0] @ drop 256 (replicate (256 * MAX_PQ_CHUNKS) (Fin 0)))"
  using populate_ok [OF one_point_pt(1), of "[Fin 0]" "replicate (256 * MAX_PQ_CHUNKS) (Fin 0)"]
  by (simp add: one_point_pt MAX_PQ_CHUNKS_def del: upt_rec_numeral)

lemma one_point_distance: "pq_distance (fs_pq one_point_index) [Fin 0] (code_at [3] 1 0) = Fin 0"
  by (simp add: pq_distance_def chunk_distance_def one_point_index_def code_at_def l2_term_def fl_sub_def Let_def)

lemma one_point_dists:
  assumes "set ids \<subseteq> {0}" "length ids \<le> 1"
  shows "scratch_dists one_point_index (distance_table (fs_pq one_point_index) [Fin 0] @ drop 256 (replicate (256 * MAX_PQ_CHUNKS) (Fin 0))) ids
     = Inr (map (\<lambda>_. Fin 0) ids)"
proof -
  let ?dv = "distance_table (fs_pq one_point_index) [Fin 0] @ drop 256 (replicate (256 * MAX_PQ_CHUNKS) (Fin 0))"
  let ?cs = "replicate (MAX_GRAPH_DEGREE * MAX_PQ_CHUNKS) 0" and ?ds = "replicate MAX_GRAPH_DEGREE (Fin 0)"
  have data: "codes_ok (pt_n_chunks (fs_pq one_point_index)) [3] 1" by (simp add: codes_ok_def one_point_pt)
  have t: "take (256 * pt_n_chunks (fs_pq one_point_index)) ?dv = distance_table (fs_pq one_point_index) [Fin 0]"
     "256 * pt_n_chunks (fs_pq one_point_index) \<le> length ?dv"
    by (simp_all add: distance_table_length one_point_pt)
  have b: "\<forall>p \<in> set ids. p < 1" "length ids * pt_n_chunks (fs_pq one_point_index) \<le> length ?cs" "length ids \<le> length ?ds"
    using assms by (auto simp: one_point_pt MAX_GRAPH_DEGREE_def MAX_PQ_CHUNKS_def)
  from compute_dists_ok [OF one_point_pt(1) data b(1) t b(2,3)] obtain cs' where
    "compute_dists [3] 1 ?dv ids (?cs, ?ds) = Inr (cs', map (\<lambda>p. pq_distance (fs_pq one_point_index) [Fin 0] (code_at [3] 1 p)) ids @ drop (length ids) ?ds)"
    unfolding one_point_pt by blast
  moreover have "map (\<lambda>p. pq_distance (fs_pq one_point_index) [Fin 0] (code_at [3] 1 p)) ids = map (\<lambda>_. Fin 0) ids"
    using assms(1) one_point_distance by (intro map_cong) auto
  moreover have "fs_data one_point_index = [3]" "fs_n_chunks one_point_index = 1" by (simp_all add: one_point_index_def)
  ultimately show ?thesis by (simp add: scratch_dists_def)
qed


text \<open>A beam of width zero takes no node, so a search with an unexpanded candidate never ends.\<close>

lemma zero_beam_never_ends:
  assumes "be_width env = 0"
  shows "npq_has_unexpanded_node (bm_retset s) \<Longrightarrow> bm_ios s < be_io_limit env \<Longrightarrow> bm_ios s < 2 ^ 32 \<Longrightarrow> beam_loop fuel env s = Inl OutOfFuel"
proof (induction fuel arbitrary: s)
  case 0
  then show ?case by (simp add: beam_loop.simps)
next
  case (Suc fuel)
  have "beam_step env s = Inr (count_reads 0 s)" using assms by (simp add: beam_step_def read_frontier_def)
  moreover have "bm_retset (count_reads 0 s) = bm_retset s" "bm_ios (count_reads 0 s) = bm_ios s"
    using Suc.prems(3) by (simp_all add: count_reads_def u32_add_def)
  ultimately show ?case using Suc.IH [of "count_reads 0 s"] Suc.prems by (simp add: beam_loop.simps [of "Suc fuel"])
qed

end
