(* ===== verification/Merge_Shards.thy ===== *)
theory Merge_Shards
  imports Cached_IO Graph_Store Labels "HOL-Library.Multiset" "HOL-Library.Product_Lexorder"
begin

text \<open>
  Merging the indices of overlapping shards, \<^verbatim>\<open>src/disk_utils.cpp\<close>: the id
  maps (\<^verbatim>\<open>read_idmap\<close>) and \<^verbatim>\<open>merge_shards\<close>, which reads every shard's graph
  file once, renames its nodes and writes one graph file over the cached streams. A file is the list of its
  bytes; the files of the shards are lists indexed by the shard. The random shuffle of a
  neighbour list is a parameter that gets the number of the call.
\<close>

section \<open>Id maps\<close>

text \<open>The stream of \<^verbatim>\<open>read_idmap\<close> does not throw: a file without a header leaves the variables uninitialised.\<close>

definition read_idmap :: "byte list \<Rightarrow> nat list result" where
  "read_idmap file =
     (if length file < 8 then Inl UndefinedBehaviour
      else bindR (read_uint 4 file) (\<lambda>(npts32, r1).
        bindR (read_uint 4 r1) (\<lambda>(dm, r2).
        if dm \<noteq> 1 \<or> length file \<noteq> npts32 * 4 + 2 * 4
        then Inl (ANNException ''Error reading idmap file. Check if the file is bin file with 1 dimensional data.'')
        else bindR (read_uints 4 npts32 r2) (\<lambda>(ivecs, _). Inr ivecs))))"

definition idmap_bytes :: "nat list \<Rightarrow> byte list" where
  "idmap_bytes ids = le_bytes 4 (length ids) @ le_bytes 4 1 @ le_array 4 ids"

lemma read_idmap_bytes:
  assumes "length ids < 2 ^ 32" "\<forall>x \<in> set ids. x < 2 ^ 32"
  shows "read_idmap (idmap_bytes ids) = Inr ids"
proof -
  have "read_uints 4 (length ids) (le_array 4 ids) = Inr (ids, [])"
    using read_uints_append [of ids 4 "length ids" "[]"] assms(2) by simp
  then show ?thesis using assms by (simp add: read_idmap_def idmap_bytes_def)
qed

text \<open>The number of nodes is one more than the largest id.\<close>

definition count_nodes :: "nat list list \<Rightarrow> nat" where
  "count_nodes idmaps = fold (fold max) idmaps 0 + 1"

text \<open>The inverse map: every (node, shard) pair, sorted by node, then by shard.\<close>

definition node_shard_pairs :: "nat list list \<Rightarrow> (nat \<times> nat) list" where
  "node_shard_pairs idmaps =
     sort (concat (map (\<lambda>shard. map (\<lambda>node_id. (node_id, shard)) (idmaps ! shard)) [0..<length idmaps]))"

section \<open>Labels to medoids\<close>

text \<open>One line of a shard's file: the first token is the label, the last one the medoid.\<close>

definition medoid_line :: "string \<Rightarrow> (nat \<times> nat) result" where
  "medoid_line line =
     bindR (mapR (\<lambda>t. bindR (stoul (strip_eol t)) (\<lambda>v. Inr (u32 v))) (getlines comma line)) (\<lambda>toks.
       case toks of [] \<Rightarrow> Inr (0, 0)
       | [l] \<Rightarrow> Inr (l, 0)
       | l # rest \<Rightarrow> Inr (l, last rest))"

definition add_medoid :: "nat list \<Rightarrow> string \<Rightarrow> (nat \<times> nat list) list \<Rightarrow> (nat \<times> nat list) list result" where
  "add_medoid idmap line m =
     bindR (medoid_line line) (\<lambda>(label, medoid).
     bindR (vec_at idmap medoid) (\<lambda>x.
       Inr (case map_of m label of
              None \<Rightarrow> m @ [(label, [x])]
            | Some vec \<Rightarrow> map (\<lambda>(l, v). if l = label then (l, v @ [x]) else (l, v)) m)))"

definition write_medoid_entry :: "nat \<times> nat list \<Rightarrow> string" where
  "write_medoid_entry e =
     show_nat (fst e) @ '', '' @ concat (map (\<lambda>x. show_nat x @ '', '') (butlast (snd e))) @ show_nat (last (snd e)) @ [newline]"

text \<open>
  The hash map is the list of its entries in insertion order; \<open>ord\<close> is the order in which
  it is written.
\<close>

definition merge_label_medoids ::
  "((nat \<times> nat list) list \<Rightarrow> (nat \<times> nat list) list) \<Rightarrow> nat list list \<Rightarrow> string list \<Rightarrow> string result" where
  "merge_label_medoids ord idmaps map_files =
     bindR (foldR (\<lambda>i m. foldR (add_medoid (idmaps ! i)) (getlines newline (map_files ! i)) m) [0..<length idmaps] [])
       (\<lambda>m. Inr (concat (map write_medoid_entry (ord m))))"

section \<open>Merging the graphs\<close>

definition merge_buffer :: nat where
  "merge_buffer = 1024 * 1024 * 1024"

record merge_state =
  ms_readers :: "cached_in list"
  ms_writer :: cached_out
  ms_size :: nat                 \<comment> \<open>\<^verbatim>\<open>merged_index_size\<close>\<close>
  ms_seen :: "bool list"         \<comment> \<open>\<^verbatim>\<open>nhood_set\<close>\<close>
  ms_final :: "nat list"         \<comment> \<open>\<^verbatim>\<open>final_nhood\<close>\<close>
  ms_cur :: nat
  ms_calls :: nat                \<comment> \<open>shuffles so far\<close>

definition reader_uint :: "nat \<Rightarrow> cached_in \<Rightarrow> (nat \<times> cached_in) result" where
  "reader_uint w r = bindR (ci_read r w) (\<lambda>(b, r'). Inr (le_value b, r'))"

definition reader_uints :: "nat \<Rightarrow> cached_in \<Rightarrow> (nat list \<times> cached_in) result" where
  "reader_uints k r = (if 0 < k then bindR (ci_read r (k * 4)) (\<lambda>(b, r'). Inr (le_words 4 k b, r')) else Inr ([], r))"

text \<open>Shuffle, cut to the degree bound, write (no bytes for an empty list), and clear.\<close>

definition flush_nhood :: "(nat \<Rightarrow> nat list \<Rightarrow> nat list) \<Rightarrow> nat \<Rightarrow> merge_state \<Rightarrow> merge_state result" where
  "flush_nhood shuf max_deg st =
     (let nhood = shuf (ms_calls st) (ms_final st); nnbrs = min (length nhood) max_deg in
      bindR (foldR (\<lambda>p seen. vec_put seen p False) nhood (ms_seen st)) (\<lambda>seen.
        Inr (st\<lparr>ms_writer := co_write (le_array 4 (take nnbrs nhood)) (co_write (le_bytes 4 nnbrs) (ms_writer st)),
          ms_size := ms_size st + (4 + nnbrs * 4), ms_seen := seen, ms_final := [], ms_calls := ms_calls st + 1\<rparr>)))"

definition add_renamed :: "nat list \<Rightarrow> nat \<Rightarrow> bool list \<times> nat list \<Rightarrow> (bool list \<times> nat list) result" where
  "add_renamed idmap w = (\<lambda>(seen, final).
     bindR (vec_at idmap w) (\<lambda>x.
     bindR (vec_at seen x) (\<lambda>s.
     if \<not> s then bindR (vec_put seen x True) (\<lambda>seen'. Inr (seen', final @ [x])) else Inr (seen, final))))"

definition merge_node ::
  "(nat \<Rightarrow> nat list \<Rightarrow> nat list) \<Rightarrow> nat list list \<Rightarrow> nat \<Rightarrow> nat \<times> nat \<Rightarrow> merge_state \<Rightarrow> merge_state result" where
  "merge_node shuf idmaps max_deg = (\<lambda>(node_id, shard_id) st.
     bindR (if ms_cur st < node_id
            then bindR (flush_nhood shuf max_deg st) (\<lambda>st1. Inr (st1\<lparr>ms_cur := node_id\<rparr>)) else Inr st) (\<lambda>st.
     bindR (vec_at (ms_readers st) shard_id) (\<lambda>rd.
     bindR (reader_uint 4 rd) (\<lambda>(shard_nnbrs, rd1).
     bindR (reader_uints shard_nnbrs rd1) (\<lambda>(shard_nhood, rd2).
     bindR (foldR (add_renamed (idmaps ! shard_id)) shard_nhood (ms_seen st, ms_final st)) (\<lambda>(seen, final).
       Inr (st\<lparr>ms_readers := (ms_readers st)[shard_id := rd2], ms_seen := seen, ms_final := final\<rparr>)))))))"

text \<open>Renaming the medoids: all go to the medoid file, the last one becomes the entry point.\<close>

definition rename_medoid ::
  "nat list list \<Rightarrow> nat \<Rightarrow> cached_in list \<times> byte list \<times> cached_out \<Rightarrow> (cached_in list \<times> byte list \<times> cached_out) result" where
  "rename_medoid idmaps shard = (\<lambda>(readers, med, wr).
     bindR (vec_at readers shard) (\<lambda>rd.
     bindR (reader_uint 4 rd) (\<lambda>(m, rd1).
     bindR (reader_uint 8 rd1) (\<lambda>(vamana_index_frozen, rd2).
     bindR (vec_at (idmaps ! shard) m) (\<lambda>medoid.
       Inr (readers[shard := rd2], med @ le_bytes 4 medoid,
            (if shard + 1 = length idmaps then co_write (le_bytes 4 medoid) wr else wr)))))))"

text \<open>The result is the merged graph file and the medoid file.\<close>

definition merge_graphs ::
  "(nat \<Rightarrow> nat list \<Rightarrow> nat list) \<Rightarrow> nat list list \<Rightarrow> byte list list \<Rightarrow> nat \<Rightarrow> (byte list \<times> byte list) result" where
  "merge_graphs shuf idmaps vamana_files max_deg =
     bindR (mapR (\<lambda>f. bindR (reader_uint 8 (ci_open f merge_buffer)) (\<lambda>(expected_file_size, rd). Inr rd)) vamana_files) (\<lambda>rds.
     let w0 = co_write (le_bytes 8 24) (co_open merge_buffer) in
     bindR (mapR (\<lambda>rd. bindR (reader_uint 4 rd) (\<lambda>(input_width, rd'). Inr rd')) rds) (\<lambda>rds1.
     let w1 = co_write (le_bytes 4 max_deg) w0 in
     bindR (foldR (rename_medoid idmaps) [0..<length idmaps] (rds1, le_bytes 4 (u32 (length idmaps)) @ le_bytes 4 1, w1)) (\<lambda>(rds2, med, w2).
     let w3 = co_write (le_bytes 8 0) w2;
         st0 = \<lparr>ms_readers = rds2, ms_writer = w3, ms_size = 24, ms_seen = replicate (count_nodes idmaps) False,
                ms_final = [], ms_cur = 0, ms_calls = 0\<rparr> in
     bindR (foldR (merge_node shuf idmaps max_deg) (node_shard_pairs idmaps) st0) (\<lambda>st1.
     bindR (flush_nhood shuf max_deg st1) (\<lambda>st2.
       Inr (co_disk (co_close (co_write (le_bytes 8 (ms_size st2)) (co_reset (ms_writer st2)))), med))))))"

definition merge_shards ::
  "(nat \<Rightarrow> nat list \<Rightarrow> nat list) \<Rightarrow> ((nat \<times> nat list) list \<Rightarrow> (nat \<times> nat list) list) \<Rightarrow> byte list list
     \<Rightarrow> byte list list \<Rightarrow> nat \<Rightarrow> string list option \<Rightarrow> (byte list \<times> byte list \<times> string option) result" where
  "merge_shards shuf ord idmap_files vamana_files max_deg map_files =
     bindR (mapR read_idmap idmap_files) (\<lambda>idmaps.
     bindR (case map_files of None \<Rightarrow> Inr None
            | Some fs \<Rightarrow> bindR (merge_label_medoids ord idmaps fs) (\<lambda>s. Inr (Some s))) (\<lambda>labels_to_medoids.
     bindR (merge_graphs shuf idmaps vamana_files max_deg) (\<lambda>(merged, med). Inr (merged, med, labels_to_medoids))))"

section \<open>The merged graph\<close>

text \<open>
  Which shards have a node, where it stands in a shard whose ids ascend, and the union of its renamed neighbour
  lists in the order of the shards.
\<close>

definition shards_of :: "nat list list \<Rightarrow> nat \<Rightarrow> nat list" where
  "shards_of idmaps v = filter (\<lambda>s. v \<in> set (idmaps ! s)) [0..<length idmaps]"

definition node_pos :: "nat list \<Rightarrow> nat \<Rightarrow> nat" where
  "node_pos idmap v = length (filter (\<lambda>x. x < v) idmap)"

definition add_new :: "nat list \<Rightarrow> nat list \<Rightarrow> nat list" where
  "add_new xs f = fold (\<lambda>x f. if x \<in> set f then f else f @ [x]) xs f"

definition renamed :: "nat list list \<Rightarrow> nat list list list \<Rightarrow> nat \<Rightarrow> nat \<Rightarrow> nat list" where
  "renamed idmaps grs v s = map ((!) (idmaps ! s)) (grs ! s ! node_pos (idmaps ! s) v)"

definition union_nhood :: "nat list list \<Rightarrow> nat list list list \<Rightarrow> nat \<Rightarrow> nat list" where
  "union_nhood idmaps grs v = fold (\<lambda>s f. add_new (renamed idmaps grs v s) f) (shards_of idmaps v) []"

definition merged_node ::
  "(nat \<Rightarrow> nat list \<Rightarrow> nat list) \<Rightarrow> nat \<Rightarrow> nat list list \<Rightarrow> nat list list list \<Rightarrow> nat \<Rightarrow> nat list" where
  "merged_node shuf max_deg idmaps grs v = take max_deg (shuf v (union_nhood idmaps grs v))"

definition shard_ok :: "nat list \<Rightarrow> nat list list \<Rightarrow> bool" where
  "shard_ok idmap gr \<longleftrightarrow> sorted idmap \<and> distinct idmap \<and> length gr = length idmap \<and> fits_file gr
     \<and> (\<forall>x \<in> set idmap. x < 2 ^ 32) \<and> length idmap < 2 ^ 32 \<and> (\<forall>ns \<in> set gr. \<forall>w \<in> set ns. w < length idmap)"

lemma add_new_set [simp]: "set (add_new xs f) = set xs \<union> set f"
  unfolding add_new_def by (induction xs arbitrary: f) auto

lemma add_new_distinct: "distinct f \<Longrightarrow> distinct (add_new xs f)"
  unfolding add_new_def by (induction xs arbitrary: f) auto

lemma fold_add_new: "set (fold (\<lambda>s f. add_new (g s) f) ss f) = set f \<union> (\<Union>s \<in> set ss. set (g s))
    \<and> (distinct f \<longrightarrow> distinct (fold (\<lambda>s f. add_new (g s) f) ss f))"
proof (induction ss arbitrary: f)
  case (Cons s ss)
  show ?case using Cons.IH [of "add_new (g s) f"] by (auto simp: add_new_distinct)
qed simp

lemma union_nhood_spec:
  "distinct (union_nhood idmaps grs v)"
  "set (union_nhood idmaps grs v) = (\<Union>s \<in> set (shards_of idmaps v). set (renamed idmaps grs v s))"
  using fold_add_new [of "renamed idmaps grs v" "shards_of idmaps v" "[]"] by (simp_all add: union_nhood_def)

lemma node_pos_bound: "v \<in> set idmap \<Longrightarrow> node_pos idmap v < length idmap"
  unfolding node_pos_def by (rule length_filter_less) auto

lemma node_pos_Suc: "distinct idmap \<Longrightarrow> node_pos idmap (Suc v) = node_pos idmap v + (if v \<in> set idmap then 1 else 0)"
proof (induction idmap)
  case (Cons x idmap)
  then show ?case by (auto simp: node_pos_def less_Suc_eq)
qed (simp add: node_pos_def)

lemma node_pos_0 [simp]: "node_pos idmap 0 = 0"
  by (simp add: node_pos_def)

lemma node_pos_nth: "sorted idmap \<Longrightarrow> distinct idmap \<Longrightarrow> i < length idmap \<Longrightarrow> node_pos idmap (idmap ! i) = i"
proof (induction idmap arbitrary: i)
  case (Cons x idmap)
  have lt: "y > x" if "y \<in> set idmap" for y using Cons.prems that by (auto simp: le_less)
  show ?case
  proof (cases i)
    case 0
    have "filter (\<lambda>y. y < x) idmap = []" using lt by (auto simp: filter_empty_conv dest: less_asym)
    then show ?thesis using 0 by (simp add: node_pos_def)
  next
    case (Suc k)
    then show ?thesis using Cons lt [of "idmap ! k"] by (simp add: node_pos_def)
  qed
qed simp

section \<open>Steps of the merge\<close>

lemma reader_uint_step:
  assumes "ci_inv r" "ci_rest r = le_bytes w v @ rest" "v < 256 ^ w"
  obtains r' where "reader_uint w r = Inr (v, r')" "ci_inv r'" "ci_rest r' = rest"
  using ci_read_correct [OF assms(1), of w] assms(2,3) by (auto simp: reader_uint_def)

lemma reader_uints_step:
  assumes "ci_inv r" "ci_rest r = le_array 4 xs @ rest" "\<forall>x \<in> set xs. x < 2 ^ 32"
  obtains r' where "reader_uints (length xs) r = Inr (xs, r')" "ci_inv r'" "ci_rest r' = rest"
proof (cases "xs = []")
  case True
  then show ?thesis using that [of r] assms by (simp add: reader_uints_def)
next
  case False
  have "le_words 4 (length xs) (le_array 4 xs) = xs" using assms(3) by (intro le_words_array) simp
  then show ?thesis using that ci_read_correct [OF assms(1), of "length xs * 4"] assms(2) False
    by (auto simp: reader_uints_def)
qed

lemma add_renamed_list:
  assumes "\<forall>w \<in> set ws. w < length idmap \<and> idmap ! w < n"
  shows "foldR (add_renamed idmap) ws (map (\<lambda>i. i \<in> set f) [0..<n], f)
     = Inr (map (\<lambda>i. i \<in> set (add_new (map ((!) idmap) ws) f)) [0..<n], add_new (map ((!) idmap) ws) f)"
  using assms
proof (induction ws arbitrary: f)
  case (Cons w ws)
  have w: "w < length idmap" "idmap ! w < n" using Cons.prems by auto
  let ?f = "if idmap ! w \<in> set f then f else f @ [idmap ! w]"
  have "(map (\<lambda>i. i \<in> set f) [0..<n])[idmap ! w := True] = map (\<lambda>i. i \<in> set (f @ [idmap ! w])) [0..<n]"
    using w(2) by (intro nth_equalityI) (auto simp: nth_list_update)
  then have "add_renamed idmap w (map (\<lambda>i. i \<in> set f) [0..<n], f) = Inr (map (\<lambda>i. i \<in> set ?f) [0..<n], ?f)"
    using w by (simp add: add_renamed_def)
  then show ?case using Cons by (simp add: add_new_def)
qed (simp add: add_new_def)

lemma clear_seen:
  "\<forall>p \<in> set ps. p < n \<Longrightarrow> foldR (\<lambda>p seen. vec_put seen p False) ps (map g [0..<n])
     = Inr (map (\<lambda>i. g i \<and> i \<notin> set ps) [0..<n])"
proof (induction ps arbitrary: g)
  case (Cons p ps)
  have "p < n" using Cons.prems by simp
  then have "(map g [0..<n])[p := False] = map (\<lambda>i. g i \<and> i \<noteq> p) [0..<n]"
    by (intro nth_equalityI) (auto simp: nth_list_update)
  then show ?case using Cons.prems Cons.IH [of "\<lambda>i. g i \<and> i \<noteq> p"] by (simp add: conj_ac)
qed simp

definition merge_inv ::
  "(nat \<Rightarrow> nat list \<Rightarrow> nat list) \<Rightarrow> nat \<Rightarrow> nat list list \<Rightarrow> nat list list list \<Rightarrow> byte list \<Rightarrow> nat \<Rightarrow> nat set \<Rightarrow> nat list
     \<Rightarrow> merge_state \<Rightarrow> bool" where
  "merge_inv shuf max_deg idmaps grs hdr v ss f st \<longleftrightarrow> ms_cur st = v \<and> ms_calls st = v
     \<and> length (ms_readers st) = length idmaps
     \<and> (\<forall>s < length idmaps. ci_inv (ms_readers st ! s)
          \<and> ci_rest (ms_readers st ! s) = graph_bytes (drop (node_pos (idmaps ! s) v + (if s \<in> ss then 1 else 0)) (grs ! s)))
     \<and> ms_final st = f \<and> ms_seen st = map (\<lambda>i. i \<in> set f) [0..<count_nodes idmaps] \<and> set f \<subseteq> {..<count_nodes idmaps}
     \<and> co_at_end (ms_writer st)
     \<and> co_view (ms_writer st) = hdr @ graph_bytes (map (merged_node shuf max_deg idmaps grs) [0..<v])
     \<and> ms_size st = 24 + length (graph_bytes (map (merged_node shuf max_deg idmaps grs) [0..<v]))"

lemma graph_bytes_append: "graph_bytes (a @ b) = graph_bytes a @ graph_bytes b"
  by (simp add: graph_bytes_def)

text \<open>The flush that ends node \<open>v\<close>.\<close>

lemma flush_step:
  assumes inv: "merge_inv shuf max_deg idmaps grs hdr v (set (shards_of idmaps v)) (union_nhood idmaps grs v) st"
    and "\<And>k xs. mset (shuf k xs) = mset xs" "\<forall>s < length idmaps. distinct (idmaps ! s)"
  shows "\<exists>st1. flush_nhood shuf max_deg st = Inr st1 \<and> merge_inv shuf max_deg idmaps grs hdr (Suc v) {} [] (st1\<lparr>ms_cur := Suc v\<rparr>)"
proof -
  let ?f = "union_nhood idmaps grs v" and ?n = "count_nodes idmaps"
  let ?g = "shuf v ?f" and ?m = "merged_node shuf max_deg idmaps grs"
  have sg: "set ?g = set ?f" using assms(2) [of v ?f] by (metis set_mset_mset)
  note i = inv [unfolded merge_inv_def]
  have fin: "ms_final st = ?f" and calls: "ms_calls st = v" and seen: "ms_seen st = map (\<lambda>i. i \<in> set ?f) [0..<?n]"
    and b: "set ?f \<subseteq> {..<?n}" and ae: "co_at_end (ms_writer st)"
    and view: "co_view (ms_writer st) = hdr @ graph_bytes (map ?m [0..<v])"
    and sz: "ms_size st = 24 + length (graph_bytes (map ?m [0..<v]))" using i by blast+
  have clr: "foldR (\<lambda>p seen. vec_put seen p False) ?g (ms_seen st) = Inr (replicate ?n False)"
  proof -
    have "foldR (\<lambda>p seen. vec_put seen p False) ?g (ms_seen st) = Inr (map (\<lambda>i. i \<in> set ?f \<and> i \<notin> set ?g) [0..<?n])"
      unfolding seen by (rule clear_seen) (use sg b in auto)
    also have "map (\<lambda>i. i \<in> set ?f \<and> i \<notin> set ?g) [0..<?n] = replicate ?n False"
      by (rule nth_equalityI) (simp_all add: sg)
    finally show ?thesis .
  qed
  have mv: "take (min (length ?g) max_deg) ?g = ?m v" by (simp add: merged_node_def min_def)
  have lv: "min (length ?g) max_deg = length (?m v)" "take (length (?m v)) ?g = ?m v"
    by (simp_all add: merged_node_def) (simp add: min_def)
  let ?w = "co_write (le_array 4 (?m v)) (co_write (le_bytes 4 (length (?m v))) (ms_writer st))"
  let ?st1 = "st\<lparr>ms_writer := ?w, ms_size := ms_size st + (4 + length (?m v) * 4), ms_seen := replicate ?n False,
      ms_final := [], ms_calls := ms_calls st + 1\<rparr>"
  have fl: "flush_nhood shuf max_deg st = Inr ?st1"
    using clr fin calls by (simp add: flush_nhood_def Let_def mv lv)
  have w1: "co_view (co_write (le_bytes 4 (length (?m v))) (ms_writer st))
      = co_view (ms_writer st) @ le_bytes 4 (length (?m v)) \<and> co_at_end (co_write (le_bytes 4 (length (?m v))) (ms_writer st))"
    by (rule cached_sink.put_law [OF ae])
  have w2: "co_view ?w = co_view (ms_writer st) @ node_bytes (?m v) \<and> co_at_end ?w"
    using w1 cached_sink.put_law [of "co_write (le_bytes 4 (length (?m v))) (ms_writer st)" "le_array 4 (?m v)"]
    by (simp add: node_bytes_def)
  have gb: "graph_bytes (map ?m [0..<Suc v]) = graph_bytes (map ?m [0..<v]) @ node_bytes (?m v)"
    by (simp add: graph_bytes_append)
  have pos: "node_pos (idmaps ! s) (Suc v) = node_pos (idmaps ! s) v + (if s \<in> set (shards_of idmaps v) then 1 else 0)"
    if "s < length idmaps" for s using node_pos_Suc [of "idmaps ! s" v] assms(3) that by (simp add: shards_of_def)
  have "merge_inv shuf max_deg idmaps grs hdr (Suc v) {} [] (?st1\<lparr>ms_cur := Suc v\<rparr>)"
    unfolding merge_inv_def
  proof (intro conjI)
    show "\<forall>s < length idmaps. ci_inv (ms_readers (?st1\<lparr>ms_cur := Suc v\<rparr>) ! s)
      \<and> ci_rest (ms_readers (?st1\<lparr>ms_cur := Suc v\<rparr>) ! s)
         = graph_bytes (drop (node_pos (idmaps ! s) (Suc v) + (if s \<in> {} then 1 else 0)) (grs ! s))"
      using i pos by simp
    show "ms_seen (?st1\<lparr>ms_cur := Suc v\<rparr>) = map (\<lambda>i. i \<in> set []) [0..<?n]"
      by (simp add: map_replicate_const)
    show "co_view (ms_writer (?st1\<lparr>ms_cur := Suc v\<rparr>)) = hdr @ graph_bytes (map ?m [0..<Suc v])"
      unfolding gb using w2 view by simp
    show "ms_size (?st1\<lparr>ms_cur := Suc v\<rparr>) = 24 + length (graph_bytes (map ?m [0..<Suc v]))"
      unfolding gb using sz by simp
  qed (use i w2 in simp_all)
  with fl show ?thesis by blast
qed

text \<open>One shard's list joins the union of node \<open>v\<close>.\<close>

lemma merge_node_step:
  assumes inv: "merge_inv shuf max_deg idmaps grs hdr v ss f st"
    and s: "s < length idmaps" "s \<notin> ss" "v \<in> set (idmaps ! s)" and ok: "shard_ok (idmaps ! s) (grs ! s)"
    and b: "\<forall>x \<in> set (idmaps ! s). x < count_nodes idmaps"
  shows "\<exists>st'. merge_node shuf idmaps max_deg (v, s) st = Inr st'
     \<and> merge_inv shuf max_deg idmaps grs hdr v (insert s ss) (add_new (renamed idmaps grs v s) f) st'"
proof -
  let ?p = "node_pos (idmaps ! s) v" and ?n = "count_nodes idmaps"
  let ?ns = "grs ! s ! ?p"
  note i = inv [unfolded merge_inv_def]
  have p: "?p < length (grs ! s)" using node_pos_bound [OF s(3)] ok by (simp add: shard_ok_def)
  then have nsin: "?ns \<in> set (grs ! s)" by simp
  have fit: "length ?ns < 2 ^ 32" "\<forall>x \<in> set ?ns. x < 2 ^ 32" and wb: "\<forall>w \<in> set ?ns. w < length (idmaps ! s)"
    using ok nsin by (auto simp: shard_ok_def fits_file_def)
  have rd: "ci_inv (ms_readers st ! s)" "ci_rest (ms_readers st ! s) = graph_bytes (drop ?p (grs ! s))"
    using i s(1,2) by auto
  have "drop ?p (grs ! s) = ?ns # drop (Suc ?p) (grs ! s)" using p by (simp add: Cons_nth_drop_Suc)
  then have rest: "ci_rest (ms_readers st ! s) = le_bytes 4 (length ?ns) @ (le_array 4 ?ns @ graph_bytes (drop (Suc ?p) (grs ! s)))"
    using rd(2) by (simp add: node_bytes_def)
  obtain r1 where r1: "reader_uint 4 (ms_readers st ! s) = Inr (length ?ns, r1)" "ci_inv r1"
      "ci_rest r1 = le_array 4 ?ns @ graph_bytes (drop (Suc ?p) (grs ! s))"
    by (rule reader_uint_step [OF rd(1) rest]) (use fit(1) in simp)
  obtain r2 where r2: "reader_uints (length ?ns) r1 = Inr (?ns, r2)" "ci_inv r2"
      "ci_rest r2 = graph_bytes (drop (Suc ?p) (grs ! s))"
    by (rule reader_uints_step [OF r1(2,3) fit(2)])
  have add: "foldR (add_renamed (idmaps ! s)) ?ns (ms_seen st, ms_final st)
      = Inr (map (\<lambda>i. i \<in> set (add_new (renamed idmaps grs v s) f)) [0..<?n], add_new (renamed idmaps grs v s) f)"
    using add_renamed_list [of ?ns "idmaps ! s" ?n f] wb b i by (simp add: renamed_def)
  let ?st' = "st\<lparr>ms_readers := (ms_readers st)[s := r2],
      ms_seen := map (\<lambda>i. i \<in> set (add_new (renamed idmaps grs v s) f)) [0..<?n],
      ms_final := add_new (renamed idmaps grs v s) f\<rparr>"
  have "merge_node shuf idmaps max_deg (v, s) st = Inr ?st'"
    using i s(1) r1(1) r2(1) add by (simp add: merge_node_def)
  moreover have "merge_inv shuf max_deg idmaps grs hdr v (insert s ss) (add_new (renamed idmaps grs v s) f) ?st'"
    unfolding merge_inv_def
  proof (intro conjI)
    show "\<forall>t < length idmaps. ci_inv (ms_readers ?st' ! t)
      \<and> ci_rest (ms_readers ?st' ! t) = graph_bytes (drop (node_pos (idmaps ! t) v + (if t \<in> insert s ss then 1 else 0)) (grs ! t))"
      using i s(1) r2 by (auto simp: nth_list_update)
    show "set (add_new (renamed idmaps grs v s) f) \<subseteq> {..<?n}" using i wb b by (auto simp: renamed_def)
  qed (use i in simp_all)
  ultimately show ?thesis by blast
qed

lemma merge_nodes:
  assumes "merge_inv shuf max_deg idmaps grs hdr v ss f st"
    and "\<forall>s \<in> set l. s < length idmaps \<and> s \<notin> ss \<and> v \<in> set (idmaps ! s)" "distinct l"
    and "\<forall>s < length idmaps. shard_ok (idmaps ! s) (grs ! s) \<and> (\<forall>x \<in> set (idmaps ! s). x < count_nodes idmaps)"
  shows "\<exists>st'. foldR (merge_node shuf idmaps max_deg) (map (Pair v) l) st = Inr st'
     \<and> merge_inv shuf max_deg idmaps grs hdr v (set l \<union> ss) (fold (\<lambda>s f. add_new (renamed idmaps grs v s) f) l f) st'"
  using assms(1-3)
proof (induction l arbitrary: ss f st)
  case (Cons s l)
  obtain st1 where st1: "merge_node shuf idmaps max_deg (v, s) st = Inr st1"
      "merge_inv shuf max_deg idmaps grs hdr v (insert s ss) (add_new (renamed idmaps grs v s) f) st1"
    using merge_node_step [OF Cons.prems(1), of s] Cons.prems(2) assms(4) by auto
  show ?case using Cons.IH [OF st1(2)] Cons.prems(2,3) st1(1) by auto
qed simp


section \<open>The order of the nodes\<close>

lemma fold_max_ge: "(m::nat) \<le> fold max xs m \<and> (\<forall>x \<in> set xs. x \<le> fold max xs m)"
proof (induction xs arbitrary: m)
  case (Cons x xs)
  show ?case using Cons.IH [of "max x m"] by (metis fold_simps(2) max.bounded_iff set_ConsD)
qed simp

lemma fold_fold_max_ge: "(m::nat) \<le> fold (fold max) xss m \<and> (\<forall>xs \<in> set xss. \<forall>x \<in> set xs. x \<le> fold (fold max) xss m)"
proof (induction xss arbitrary: m)
  case (Cons xs xss)
  show ?case using Cons.IH [of "fold max xs m"] fold_max_ge [of m xs] by (auto intro: order_trans)
qed simp

lemma count_nodes_bound: "s < length idmaps \<Longrightarrow> x \<in> set (idmaps ! s) \<Longrightarrow> x < count_nodes idmaps"
  using fold_fold_max_ge [of 0 idmaps] by (fastforce simp: count_nodes_def less_Suc_eq_le)

text \<open>Sorting lists the nodes in ascending order, each with its shards in ascending order.\<close>

lemma node_shard_groups:
  assumes "\<forall>s < length idmaps. distinct (idmaps ! s)"
  shows "node_shard_pairs idmaps = concat (map (\<lambda>v. map (Pair v) (shards_of idmaps v)) [0..<count_nodes idmaps])"
proof (rule sorted_distinct_set_unique)
  show "sorted (node_shard_pairs idmaps)" by (simp add: node_shard_pairs_def)
  have "distinct (concat (map (\<lambda>shard. map (\<lambda>node_id. (node_id, shard)) (idmaps ! shard)) [0..<n]))" if "n \<le> length idmaps" for n
    using that assms by (induction n) (auto simp: distinct_map inj_on_def)
  then show "distinct (node_shard_pairs idmaps)" by (simp add: node_shard_pairs_def)
  have "sorted (concat (map (\<lambda>v. map (Pair v) (shards_of idmaps v)) [0..<n]))
     \<and> distinct (concat (map (\<lambda>v. map (Pair v) (shards_of idmaps v)) [0..<n]))" for n
  proof (induction n)
    case (Suc n)
    have "sorted (map (Pair n) (shards_of idmaps n)) \<and> distinct (map (Pair n) (shards_of idmaps n))"
      by (auto simp: shards_of_def sorted_map distinct_map inj_on_def sorted_wrt_filter intro!: sorted_wrt_mono_rel [OF _ sorted_upt])
    then show ?case using Suc.IH by (auto simp: sorted_append)
  qed simp
  then show "sorted (concat (map (\<lambda>v. map (Pair v) (shards_of idmaps v)) [0..<count_nodes idmaps]))"
    "distinct (concat (map (\<lambda>v. map (Pair v) (shards_of idmaps v)) [0..<count_nodes idmaps]))" by blast+
  show "set (node_shard_pairs idmaps) = set (concat (map (\<lambda>v. map (Pair v) (shards_of idmaps v)) [0..<count_nodes idmaps]))"
    using count_nodes_bound [of _ idmaps] by (fastforce simp: node_shard_pairs_def shards_of_def image_iff)
qed

lemma merge_node_flushes:
  assumes "flush_nhood shuf max_deg st = Inr st1" "ms_cur st < v"
  shows "merge_node shuf idmaps max_deg (v, s) st = merge_node shuf idmaps max_deg (v, s) (st1\<lparr>ms_cur := v\<rparr>)"
  using assms by (simp add: merge_node_def)

lemma merge_all_nodes:
  assumes inv: "merge_inv shuf max_deg idmaps grs hdr 0 {} [] st"
    and sh: "\<And>k xs. mset (shuf k xs) = mset xs"
    and ok: "\<forall>s < length idmaps. shard_ok (idmaps ! s) (grs ! s)"
    and cov: "\<forall>v < count_nodes idmaps. shards_of idmaps v \<noteq> []" and n: "n < count_nodes idmaps"
  shows "\<exists>st'. foldR (merge_node shuf idmaps max_deg) (concat (map (\<lambda>v. map (Pair v) (shards_of idmaps v)) [0..<Suc n])) st = Inr st'
     \<and> merge_inv shuf max_deg idmaps grs hdr n (set (shards_of idmaps n)) (union_nhood idmaps grs n) st'"
proof -
  have grp: "\<forall>s \<in> set (shards_of idmaps v). s < length idmaps \<and> s \<notin> {} \<and> v \<in> set (idmaps ! s)" "distinct (shards_of idmaps v)" for v
    by (simp_all add: shards_of_def)
  have shb: "\<forall>s < length idmaps. shard_ok (idmaps ! s) (grs ! s) \<and> (\<forall>x \<in> set (idmaps ! s). x < count_nodes idmaps)"
    using ok count_nodes_bound by blast
  have group: "\<exists>st'. foldR (merge_node shuf idmaps max_deg) (map (Pair v) (shards_of idmaps v)) st = Inr st'
      \<and> merge_inv shuf max_deg idmaps grs hdr v (set (shards_of idmaps v)) (union_nhood idmaps grs v) st'"
    if "merge_inv shuf max_deg idmaps grs hdr v {} [] st" for v st
    using merge_nodes [OF that grp(1) grp(2) shb] by (simp add: union_nhood_def)
  show ?thesis using n
proof (induction n)
  case 0
  show ?case using group [OF inv] by simp
next
  case (Suc n)
  then obtain st1 where st1: "foldR (merge_node shuf idmaps max_deg) (concat (map (\<lambda>v. map (Pair v) (shards_of idmaps v)) [0..<Suc n])) st = Inr st1"
      "merge_inv shuf max_deg idmaps grs hdr n (set (shards_of idmaps n)) (union_nhood idmaps grs n) st1" by auto
  have "\<forall>s < length idmaps. distinct (idmaps ! s)" using ok by (simp add: shard_ok_def)
  from flush_step [OF st1(2) sh this] obtain st2 where st2: "flush_nhood shuf max_deg st1 = Inr st2"
      "merge_inv shuf max_deg idmaps grs hdr (Suc n) {} [] (st2\<lparr>ms_cur := Suc n\<rparr>)" by blast
  obtain s l where sl: "shards_of idmaps (Suc n) = s # l" using cov Suc.prems by (meson list.exhaust)
  have "ms_cur st1 < Suc n" using st1(2) by (simp add: merge_inv_def)
  then have "foldR (merge_node shuf idmaps max_deg) (map (Pair (Suc n)) (shards_of idmaps (Suc n))) st1
      = foldR (merge_node shuf idmaps max_deg) (map (Pair (Suc n)) (shards_of idmaps (Suc n))) (st2\<lparr>ms_cur := Suc n\<rparr>)"
    using merge_node_flushes [OF st2(1)] by (simp add: sl)
  then show ?case using st1(1) group [OF st2(2)]
    by (simp add: upt_Suc_append [of 0 "Suc n"] foldR_append del: upt_Suc)
qed
qed

section \<open>The whole merge\<close>

definition shard_graph_bytes :: "nat list list \<Rightarrow> nat \<Rightarrow> nat \<Rightarrow> byte list" where
  "shard_graph_bytes gr md start = graph_header (graph_file_size gr) md start 0 @ graph_bytes gr"

definition merged_graph ::
  "(nat \<Rightarrow> nat list \<Rightarrow> nat list) \<Rightarrow> nat \<Rightarrow> nat list list \<Rightarrow> nat list list list \<Rightarrow> nat list list" where
  "merged_graph shuf max_deg idmaps grs = map (merged_node shuf max_deg idmaps grs) [0..<count_nodes idmaps]"

lemma mapR_pointwise:
  assumes "length xs = n" "\<And>i. i < n \<Longrightarrow> \<exists>y. f (xs ! i) = Inr y \<and> P i y"
  shows "\<exists>ys. mapR f xs = Inr ys \<and> length ys = n \<and> (\<forall>i < n. P i (ys ! i))"
proof -
  obtain g where g: "\<And>i. i < n \<Longrightarrow> f (xs ! i) = Inr (g i) \<and> P i (g i)" using assms(2) by metis
  have "mapR f xs = Inr (map (\<lambda>x. projr (f x)) xs)"
    by (rule mapR_total) (use g assms(1) in \<open>auto simp: in_set_conv_nth\<close>)
  moreover have "projr (f (xs ! i)) = g i" if "i < n" for i using g that by simp
  ultimately show ?thesis using g assms(1) by (intro exI conjI) auto
qed

text \<open>The header of each shard's file, the part before the lists.\<close>

lemma open_shard:
  assumes "fits_file gr"
  shows "\<exists>rd. bindR (reader_uint 8 (ci_open (shard_graph_bytes gr md start) merge_buffer)) (\<lambda>(expected_file_size, rd). Inr rd) = Inr rd
     \<and> ci_inv rd \<and> ci_rest rd = le_bytes 4 md @ (le_bytes 4 start @ (le_bytes 8 0 @ graph_bytes gr))"
proof -
  have r: "ci_rest (ci_open (shard_graph_bytes gr md start) merge_buffer)
      = le_bytes 8 (graph_file_size gr) @ (le_bytes 4 md @ (le_bytes 4 start @ (le_bytes 8 0 @ graph_bytes gr)))"
    by (simp only: ci_open_correct) (simp add: shard_graph_bytes_def graph_header_def)
  have f: "graph_file_size gr < 256 ^ 8" using assms by (simp add: fits_file_def)
  obtain rd where rd: "reader_uint 8 (ci_open (shard_graph_bytes gr md start) merge_buffer) = Inr (graph_file_size gr, rd)"
    "ci_inv rd" "ci_rest rd = le_bytes 4 md @ (le_bytes 4 start @ (le_bytes 8 0 @ graph_bytes gr))"
    by (rule reader_uint_step [OF ci_open_correct(1) r f])
  show ?thesis by (rule exI [where x = rd]) (simp only: rd bindR_simps prod.case simp_thms)
qed

lemma read_width:
  assumes "ci_inv rd" "ci_rest rd = le_bytes 4 md @ rest" "md < 2 ^ 32"
  shows "\<exists>rd'. bindR (reader_uint 4 rd) (\<lambda>(input_width, rd'). Inr rd') = Inr rd' \<and> ci_inv rd' \<and> ci_rest rd' = rest"
proof -
  have b: "md < 256 ^ 4" using assms(3) by simp
  obtain r where "reader_uint 4 rd = Inr (md, r)" "ci_inv r" "ci_rest r = rest"
    by (rule reader_uint_step [OF assms(1,2) b])
  then show ?thesis by simp
qed

lemma rename_medoids:
  assumes "\<forall>s < n. ci_inv (rds ! s) \<and> ci_rest (rds ! s) = le_bytes 4 (starts s) @ (le_bytes 8 0 @ graph_bytes (grs ! s))"
    and "length rds = length idmaps" "n = length idmaps" "\<forall>s < n. starts s < length (idmaps ! s) \<and> starts s < 2 ^ 32"
    and "co_at_end w" "k \<le> n"
  shows "\<exists>rds' w'. foldR (rename_medoid idmaps) [0..<k] (rds, med, w)
       = Inr (rds', med @ le_array 4 (map (\<lambda>s. idmaps ! s ! starts s) [0..<k]), w')
     \<and> length rds' = length idmaps \<and> (\<forall>s < k. ci_inv (rds' ! s) \<and> ci_rest (rds' ! s) = graph_bytes (grs ! s))
     \<and> (\<forall>s. k \<le> s \<longrightarrow> rds' ! s = rds ! s)
     \<and> co_at_end w' \<and> co_view w' = co_view w @ (if k = n \<and> 0 < n then le_bytes 4 (idmaps ! (n - 1) ! starts (n - 1)) else [])"
  using assms(6)
proof (induction k)
  case 0
  then show ?case using assms(2,5) by auto
next
  case (Suc k)
  then obtain rds' w' where IH: "foldR (rename_medoid idmaps) [0..<k] (rds, med, w)
       = Inr (rds', med @ le_array 4 (map (\<lambda>s. idmaps ! s ! starts s) [0..<k]), w')"
      "length rds' = length idmaps" "\<forall>s < k. ci_inv (rds' ! s) \<and> ci_rest (rds' ! s) = graph_bytes (grs ! s)"
      "\<forall>s. k \<le> s \<longrightarrow> rds' ! s = rds ! s" "co_at_end w'" "co_view w' = co_view w"
    by (auto split: if_splits)
  have k: "k < n" "k < length idmaps" using Suc.prems assms(3) by simp_all
  have rk: "ci_inv (rds' ! k)" "ci_rest (rds' ! k) = le_bytes 4 (starts k) @ (le_bytes 8 0 @ graph_bytes (grs ! k))"
    using IH(4) assms(1) k by simp_all
  have sb: "starts k < 256 ^ 4" "(0::nat) < 256 ^ 8" using assms(4) k by simp_all
  obtain r1 where r1: "reader_uint 4 (rds' ! k) = Inr (starts k, r1)" "ci_inv r1" "ci_rest r1 = le_bytes 8 0 @ graph_bytes (grs ! k)"
    by (rule reader_uint_step [OF rk sb(1)])
  obtain r2 where r2: "reader_uint 8 r1 = Inr (0, r2)" "ci_inv r2" "ci_rest r2 = graph_bytes (grs ! k)"
    by (rule reader_uint_step [OF r1(2,3) sb(2)])
  let ?m = "idmaps ! k ! starts k"
  let ?w = "if Suc k = n then co_write (le_bytes 4 ?m) w' else w'"
  have "rename_medoid idmaps k (rds', med @ le_array 4 (map (\<lambda>s. idmaps ! s ! starts s) [0..<k]), w')
      = Inr (rds'[k := r2], (med @ le_array 4 (map (\<lambda>s. idmaps ! s ! starts s) [0..<k])) @ le_bytes 4 ?m, ?w)"
    using k IH(2) r1(1) r2(1) assms(3,4) by (simp add: rename_medoid_def)
  then have "foldR (rename_medoid idmaps) [0..<Suc k] (rds, med, w)
      = Inr (rds'[k := r2], med @ le_array 4 (map (\<lambda>s. idmaps ! s ! starts s) [0..<Suc k]), ?w)"
    using IH(1) by (simp add: foldR_append foldR_one le_array_append)
  moreover have "\<forall>s < Suc k. ci_inv (rds'[k := r2] ! s) \<and> ci_rest (rds'[k := r2] ! s) = graph_bytes (grs ! s)"
    using IH(2,3) k r2 by (auto simp: nth_list_update less_Suc_eq)
  moreover have "co_at_end ?w \<and> co_view ?w = co_view w @ (if Suc k = n \<and> 0 < n then le_bytes 4 (idmaps ! (n - 1) ! starts (n - 1)) else [])"
    using IH(5,6) cached_sink.put_law [OF IH(5), of "le_bytes 4 ?m"] by auto
  moreover have "\<forall>s. Suc k \<le> s \<longrightarrow> rds'[k := r2] ! s = rds ! s" using IH(4) by auto
  ultimately show ?case using IH(2) by (intro exI [where x = "rds'[k := r2]"] exI [where x = ?w]) simp
qed

definition merge_input ::
  "nat list list \<Rightarrow> nat list list list \<Rightarrow> (nat \<Rightarrow> nat) \<Rightarrow> (nat \<Rightarrow> nat) \<Rightarrow> bool" where
  "merge_input idmaps grs mds starts \<longleftrightarrow> idmaps \<noteq> [] \<and> length grs = length idmaps
     \<and> (\<forall>s < length idmaps. shard_ok (idmaps ! s) (grs ! s) \<and> mds s < 2 ^ 32 \<and> starts s < length (idmaps ! s))
     \<and> (\<forall>v < count_nodes idmaps. shards_of idmaps v \<noteq> [])"

definition shard_files :: "nat list list list \<Rightarrow> (nat \<Rightarrow> nat) \<Rightarrow> (nat \<Rightarrow> nat) \<Rightarrow> byte list list" where
  "shard_files grs mds starts = map (\<lambda>s. shard_graph_bytes (grs ! s) (mds s) (starts s)) [0..<length grs]"

text \<open>The header written at the end over the placeholder, and closing the file.\<close>

lemma finish_writer:
  assumes "co_at_end w" "co_view w = le_bytes 8 24 @ body"
  shows "co_disk (co_close (co_write (le_bytes 8 n) (co_reset w))) = le_bytes 8 n @ body"
proof -
  have i: "co_inv w" using assms(1) by (simp add: co_at_end_def)
  note r = co_reset_correct [OF i]
  have "co_view (co_write (le_bytes 8 n) (co_reset w)) = overwrite 0 (le_bytes 8 n) (co_view w)"
    using co_write_correct(2) [OF r(1)] r(2,3) by simp
  also have "\<dots> = le_bytes 8 n @ body" by (simp add: overwrite_def assms(2))
  finally have v: "co_view (co_write (le_bytes 8 n) (co_reset w)) = le_bytes 8 n @ body" .
  have "co_seek (co_write (le_bytes 8 n) (co_reset w)) \<le> length (co_disk (co_write (le_bytes 8 n) (co_reset w)))"
    using co_write_correct(1) [OF r(1)] by (simp add: co_inv_def)
  from co_close_view [OF this] v show ?thesis by simp
qed

lemma merge_graphs_file:
  assumes inp: "merge_input idmaps grs mds starts" and sh: "\<And>k xs. mset (shuf k xs) = mset xs"
  shows "merge_graphs shuf idmaps (shard_files grs mds starts) max_deg
     = Inr (graph_header (graph_file_size (merged_graph shuf max_deg idmaps grs)) max_deg
              (last idmaps ! starts (length idmaps - 1)) 0 @ graph_bytes (merged_graph shuf max_deg idmaps grs),
            le_bytes 4 (u32 (length idmaps)) @ le_bytes 4 1 @ le_array 4 (map (\<lambda>s. idmaps ! s ! starts s) [0..<length idmaps]))"
proof -
  let ?K = "length idmaps" and ?F = "shard_files grs mds starts" and ?M = "merged_graph shuf max_deg idmaps grs"
  have K: "0 < ?K" "length grs = ?K" and ok: "\<forall>s < ?K. shard_ok (idmaps ! s) (grs ! s)"
    and hd: "\<forall>s < ?K. mds s < 2 ^ 32 \<and> starts s < length (idmaps ! s)"
    and cov: "\<forall>v < count_nodes idmaps. shards_of idmaps v \<noteq> []" using inp by (auto simp: merge_input_def)
  have F: "length ?F = ?K" "\<And>s. s < ?K \<Longrightarrow> ?F ! s = shard_graph_bytes (grs ! s) (mds s) (starts s)"
    using K by (simp_all add: shard_files_def)
  obtain rds where rds: "mapR (\<lambda>f. bindR (reader_uint 8 (ci_open f merge_buffer)) (\<lambda>(expected_file_size, rd). Inr rd)) ?F = Inr rds"
      "length rds = ?K"
      "\<forall>s < ?K. ci_inv (rds ! s) \<and> ci_rest (rds ! s) = le_bytes 4 (mds s) @ (le_bytes 4 (starts s) @ (le_bytes 8 0 @ graph_bytes (grs ! s)))"
    using mapR_pointwise [of ?F ?K "\<lambda>f. bindR (reader_uint 8 (ci_open f merge_buffer)) (\<lambda>(expected_file_size, rd). Inr rd)"
        "\<lambda>s rd. ci_inv rd \<and> ci_rest rd = le_bytes 4 (mds s) @ (le_bytes 4 (starts s) @ (le_bytes 8 0 @ graph_bytes (grs ! s)))"]
      F ok open_shard by (auto simp: shard_ok_def)
  obtain rds1 where rds1: "mapR (\<lambda>rd. bindR (reader_uint 4 rd) (\<lambda>(input_width, rd'). Inr rd')) rds = Inr rds1" "length rds1 = ?K"
      "\<forall>s < ?K. ci_inv (rds1 ! s) \<and> ci_rest (rds1 ! s) = le_bytes 4 (starts s) @ (le_bytes 8 0 @ graph_bytes (grs ! s))"
    using mapR_pointwise [of rds ?K "\<lambda>rd. bindR (reader_uint 4 rd) (\<lambda>(input_width, rd'). Inr rd')"
        "\<lambda>s rd. ci_inv rd \<and> ci_rest rd = le_bytes 4 (starts s) @ (le_bytes 8 0 @ graph_bytes (grs ! s))"]
      rds(2,3) hd read_width by blast
  let ?w0 = "co_write (le_bytes 8 24) (co_open merge_buffer)" and ?medoid = "last idmaps ! starts (?K - 1)"
  let ?w1 = "co_write (le_bytes 4 max_deg) ?w0"
  note p0 = cached_sink.put_law [OF co_open_at_end(1) [of merge_buffer], of "le_bytes 8 24"]
  note p1 = cached_sink.put_law [OF conjunct2 [OF p0], of "le_bytes 4 max_deg"]
  have st: "\<forall>s < ?K. starts s < length (idmaps ! s) \<and> starts s < 2 ^ 32"
    using hd ok by (meson order.strict_trans shard_ok_def)
  obtain rds2 w2 where w2: "foldR (rename_medoid idmaps) [0..<?K] (rds1, le_bytes 4 (u32 ?K) @ le_bytes 4 1, ?w1)
       = Inr (rds2, (le_bytes 4 (u32 ?K) @ le_bytes 4 1) @ le_array 4 (map (\<lambda>s. idmaps ! s ! starts s) [0..<?K]), w2)"
      "length rds2 = ?K" "\<forall>s < ?K. ci_inv (rds2 ! s) \<and> ci_rest (rds2 ! s) = graph_bytes (grs ! s)"
      "co_at_end w2" "co_view w2 = co_view ?w1 @ le_bytes 4 (idmaps ! (?K - 1) ! starts (?K - 1))"
    using rename_medoids [OF rds1(3,2) refl st conjunct2 [OF p1] order.refl, of "le_bytes 4 (u32 ?K) @ le_bytes 4 1"] K(1) by auto
  have lst: "idmaps ! (?K - 1) = last idmaps" using K(1) by (simp add: last_conv_nth)
  let ?w3 = "co_write (le_bytes 8 0) w2"
  note p3 = cached_sink.put_law [OF w2(4), of "le_bytes 8 0"]
  let ?hdr = "le_bytes 8 24 @ (le_bytes 4 max_deg @ le_bytes 4 ?medoid @ le_bytes 8 0)"
  have v3: "co_view ?w3 = ?hdr" "co_at_end ?w3"
    using p0 p1 p3 w2(5) by (simp_all add: lst [unfolded One_nat_def] co_open_at_end)
  let ?st0 = "\<lparr>ms_readers = rds2, ms_writer = ?w3, ms_size = 24, ms_seen = replicate (count_nodes idmaps) False,
                ms_final = [], ms_cur = 0, ms_calls = 0\<rparr>"
  have inv0: "merge_inv shuf max_deg idmaps grs ?hdr 0 {} [] ?st0"
    using w2(2,3) v3 by (simp add: merge_inv_def map_replicate_const)
  have cn: "count_nodes idmaps = Suc (count_nodes idmaps - 1)" by (simp add: count_nodes_def)
  obtain st1 where st1: "foldR (merge_node shuf idmaps max_deg) (node_shard_pairs idmaps) ?st0 = Inr st1"
      "merge_inv shuf max_deg idmaps grs ?hdr (count_nodes idmaps - 1) (set (shards_of idmaps (count_nodes idmaps - 1)))
         (union_nhood idmaps grs (count_nodes idmaps - 1)) st1"
    using merge_all_nodes [OF inv0 sh ok cov, of "count_nodes idmaps - 1"] cn node_shard_groups [of idmaps] ok
    by (auto simp: shard_ok_def)
  have "\<forall>s < ?K. distinct (idmaps ! s)" using ok by (simp add: shard_ok_def)
  from flush_step [OF st1(2) sh this] cn obtain st2 where st2: "flush_nhood shuf max_deg st1 = Inr st2"
      "merge_inv shuf max_deg idmaps grs ?hdr (count_nodes idmaps) {} [] (st2\<lparr>ms_cur := count_nodes idmaps\<rparr>)" by auto
  have fin: "co_at_end (ms_writer st2)" "co_view (ms_writer st2) = ?hdr @ graph_bytes ?M" "ms_size st2 = graph_file_size ?M"
    using st2(2) by (simp_all add: merge_inv_def merged_graph_def graph_file_size_def)
  have "co_disk (co_close (co_write (le_bytes 8 (ms_size st2)) (co_reset (ms_writer st2))))
      = graph_header (graph_file_size ?M) max_deg ?medoid 0 @ graph_bytes ?M"
    using finish_writer [OF fin(1), of "(le_bytes 4 max_deg @ le_bytes 4 ?medoid @ le_bytes 8 0) @ graph_bytes ?M"] fin(2,3)
    by (simp add: graph_header_def)
  then show ?thesis
    unfolding merge_graphs_def rds(1) bindR_simps Let_def rds1(1) w2(1) prod.case st1(1) st2(1) by simp
qed

text \<open>The edges of all shards out of node \<open>v\<close>, in the names of the whole graph.\<close>

definition shard_edges :: "nat list list \<Rightarrow> nat list list list \<Rightarrow> nat \<Rightarrow> nat set" where
  "shard_edges idmaps grs v = {idmaps ! s ! w | s i w.
     s < length idmaps \<and> i < length (idmaps ! s) \<and> idmaps ! s ! i = v \<and> w \<in> set (grs ! s ! i)}"

lemma union_nhood_edges:
  assumes "\<forall>s < length idmaps. shard_ok (idmaps ! s) (grs ! s)"
  shows "set (union_nhood idmaps grs v) = shard_edges idmaps grs v"
proof -
  have pos: "node_pos (idmaps ! s) (idmaps ! s ! i) = i" if "s < length idmaps" "i < length (idmaps ! s)" for s i
    using node_pos_nth [of "idmaps ! s" i] assms that by (simp add: shard_ok_def)
  have node: "v \<in> set (idmaps ! s) \<and> x \<in> (!) (idmaps ! s) ` set (grs ! s ! node_pos (idmaps ! s) v)
      \<longleftrightarrow> (\<exists>i < length (idmaps ! s). idmaps ! s ! i = v \<and> x \<in> (!) (idmaps ! s) ` set (grs ! s ! i))"
    if "s < length idmaps" for s x using pos [OF that] by (metis in_set_conv_nth)
  have "x \<in> set (union_nhood idmaps grs v) \<longleftrightarrow> (\<exists>s < length idmaps. \<exists>i < length (idmaps ! s). idmaps ! s ! i = v
      \<and> x \<in> (!) (idmaps ! s) ` set (grs ! s ! i))" for x
  proof -
    have "x \<in> set (union_nhood idmaps grs v) \<longleftrightarrow> (\<exists>s < length idmaps. v \<in> set (idmaps ! s)
        \<and> x \<in> (!) (idmaps ! s) ` set (grs ! s ! node_pos (idmaps ! s) v))"
      by (auto simp: union_nhood_spec(2) shards_of_def renamed_def)
    then show ?thesis using node by metis
  qed
  then show ?thesis unfolding shard_edges_def by blast
qed

lemma merged_node_spec:
  assumes "\<And>k xs. mset (shuf k xs) = mset xs" "\<forall>s < length idmaps. shard_ok (idmaps ! s) (grs ! s)"
  shows "distinct (merged_node shuf max_deg idmaps grs v)
     \<and> set (merged_node shuf max_deg idmaps grs v) \<subseteq> shard_edges idmaps grs v
     \<and> length (merged_node shuf max_deg idmaps grs v) = min max_deg (card (shard_edges idmaps grs v))"
proof -
  let ?f = "union_nhood idmaps grs v"
  have m: "mset (shuf v ?f) = mset ?f" by (rule assms(1))
  have d: "distinct (shuf v ?f)" using union_nhood_spec(1) [of idmaps grs v] m by (metis mset_eq_imp_distinct_iff)
  have s: "set (shuf v ?f) = shard_edges idmaps grs v" using m union_nhood_edges [OF assms(2)] by (metis set_mset_mset)
  have "length (shuf v ?f) = card (shard_edges idmaps grs v)" using d s distinct_card by metis
  then show ?thesis using d s by (auto simp: merged_node_def min_def dest: in_set_takeD)
qed

lemma length_graph_bytes_le: "\<forall>ns \<in> set gr. length ns \<le> b \<Longrightarrow> length (graph_bytes gr) \<le> length gr * (4 * (b + 1))"
  by (induction gr) auto

lemma merged_graph_fits:
  assumes "\<And>k xs. mset (shuf k xs) = mset xs" "\<forall>s < length idmaps. shard_ok (idmaps ! s) (grs ! s)"
    and "max_deg < 2 ^ 32 - 1" "24 + count_nodes idmaps * (4 * (max_deg + 1)) < 2 ^ 64"
  shows "fits_file (merged_graph shuf max_deg idmaps grs)"
proof -
  let ?M = "merged_graph shuf max_deg idmaps grs"
  have l: "\<forall>ns \<in> set ?M. length ns \<le> max_deg"
    using merged_node_spec [OF assms(1,2)] by (auto simp: merged_graph_def)
  have e: "x < 2 ^ 32" if "x \<in> shard_edges idmaps grs v" for x v
  proof -
    from that obtain s i w where "x = idmaps ! s ! w" "s < length idmaps" "i < length (idmaps ! s)" "w \<in> set (grs ! s ! i)"
      by (auto simp: shard_edges_def)
    moreover have "\<forall>x \<in> set (idmaps ! s). x < 2 ^ 32" "\<forall>ns \<in> set (grs ! s). \<forall>w \<in> set ns. w < length (idmaps ! s)"
      "length (grs ! s) = length (idmaps ! s)" using assms(2) calculation(2) unfolding shard_ok_def by blast+
    ultimately show ?thesis using nth_mem by metis
  qed
  have "\<forall>ns \<in> set ?M. \<forall>x \<in> set ns. x < 2 ^ 32"
    using merged_node_spec [OF assms(1,2)] e by (fastforce simp: merged_graph_def)
  moreover have "graph_file_size ?M < 2 ^ 64"
    using length_graph_bytes_le [OF l] assms(4) by (simp add: graph_file_size_def merged_graph_def)
  ultimately show ?thesis using l assms(3) unfolding fits_file_def by (meson le_less_trans)
qed

section \<open>The merged file as an index reads it\<close>

lemma merge_shards_library:
  assumes "merge_input idmaps grs mds starts" "\<And>k xs. mset (shuf k xs) = mset xs"
    and "max_deg < 2 ^ 32 - 1" "24 + count_nodes idmaps * (4 * (max_deg + 1)) < 2 ^ 64"
    and "gs_total_points g = length (gs_graph g)"
  shows "\<exists>merged med g'. merge_shards shuf ord (map idmap_bytes idmaps) (shard_files grs mds starts) max_deg None = Inr (merged, med, None)
     \<and> load_graph_file merged (count_nodes idmaps) g
         = Inr ((count_nodes idmaps, last idmaps ! starts (length idmaps - 1), 0), g')
     \<and> (\<forall>v < count_nodes idmaps. distinct (gs_graph g' ! v) \<and> set (gs_graph g' ! v) \<subseteq> shard_edges idmaps grs v
          \<and> length (gs_graph g' ! v) = min max_deg (card (shard_edges idmaps grs v)))"
proof -
  let ?M = "merged_graph shuf max_deg idmaps grs" and ?start = "last idmaps ! starts (length idmaps - 1)"
  let ?n = "count_nodes idmaps"
  have ok: "\<forall>s < length idmaps. shard_ok (idmaps ! s) (grs ! s)" using assms(1) by (simp add: merge_input_def)
  have "mapR read_idmap (map idmap_bytes idmaps) = Inr idmaps"
  proof -
    have "\<forall>f \<in> set idmaps. read_idmap (idmap_bytes f) = Inr f"
      using ok read_idmap_bytes by (metis in_set_conv_nth shard_ok_def)
    then show ?thesis by (induction idmaps) simp_all
  qed
  then have m: "\<exists>med. merge_shards shuf ord (map idmap_bytes idmaps) (shard_files grs mds starts) max_deg None
      = Inr (graph_header (graph_file_size ?M) max_deg ?start 0 @ graph_bytes ?M, med, None)"
    using merge_graphs_file [OF assms(1,2), where max_deg = max_deg] by (simp add: merge_shards_def)
  have k: "length idmaps - 1 < length idmaps" "last idmaps = idmaps ! (length idmaps - 1)"
    using assms(1) by (auto simp: merge_input_def last_conv_nth)
  have "shard_ok (idmaps ! (length idmaps - 1)) (grs ! (length idmaps - 1))"
    "starts (length idmaps - 1) < length (idmaps ! (length idmaps - 1))"
    using assms(1) k(1) unfolding merge_input_def by blast+
  then have sb: "?start < 2 ^ 32" using k(2) by (auto simp: shard_ok_def)
  have z: "(0::nat) < 2 ^ 64" "max_deg < 2 ^ 32" using assms(3) by simp_all
  have lM: "length ?M \<le> ?n \<or> length ?M \<le> length (gs_graph g)" "length ?M = ?n" by (simp_all add: merged_graph_def)
  obtain g' where g': "load_graph_file (graph_header (graph_file_size ?M) max_deg ?start 0 @ graph_bytes ?M) ?n g
      = Inr ((?n, ?start, 0), g')" "take ?n (gs_graph g') = ?M"
    using load_graph_bytes [OF merged_graph_fits [OF assms(2) ok assms(3,4)] sb z lM(1) assms(5)] unfolding lM(2) by blast
  have "gs_graph g' ! v = merged_node shuf max_deg idmaps grs v" if "v < ?n" for v
  proof -
    have "take ?n (gs_graph g') ! v = merged_node shuf max_deg idmaps grs v" unfolding g'(2) using that by (simp add: merged_graph_def)
    then show ?thesis using that by simp
  qed
  then have nodes: "\<forall>v < ?n. distinct (gs_graph g' ! v) \<and> set (gs_graph g' ! v) \<subseteq> shard_edges idmaps grs v
      \<and> length (gs_graph g' ! v) = min max_deg (card (shard_edges idmaps grs v))"
    using merged_node_spec [OF assms(2) ok, where max_deg = max_deg] by simp
  from m obtain med where med: "merge_shards shuf ord (map idmap_bytes idmaps) (shard_files grs mds starts) max_deg None
      = Inr (graph_header (graph_file_size ?M) max_deg ?start 0 @ graph_bytes ?M, med, None)" by (elim exE)
  show ?thesis by (rule exI, rule exI, rule exI, rule conjI [OF med conjI [OF g'(1) nodes]])
qed

section \<open>Properties\<close>

text \<open>\<^bold>\<open>C12\<close> Merging the graph files of overlapping shards (id maps ascending, every node in some
  shard) writes a graph file that the index can load: it has one list per node, the entry point is the last
  shard's medoid under its global name, and the list of a node holds distinct nodes that are
  renamed neighbours of it in some shard, all of them when they are at most the degree bound and
  otherwise exactly as many as the bound allows.\<close>

theorem merge_shards_graph:
  assumes "merge_input idmaps grs mds starts" "\<And>k xs. mset (shuf k xs) = mset xs"
    and "max_deg < 2 ^ 32 - 1" "24 + count_nodes idmaps * (4 * (max_deg + 1)) < 2 ^ 64"
    and "gs_total_points g = length (gs_graph g)"
  shows "\<exists>merged med g'. merge_shards shuf ord (map idmap_bytes idmaps) (shard_files grs mds starts) max_deg None = Inr (merged, med, None)
     \<and> load_graph_file merged (count_nodes idmaps) g
         = Inr ((count_nodes idmaps, last idmaps ! starts (length idmaps - 1), 0), g')
     \<and> (\<forall>v < count_nodes idmaps. distinct (gs_graph g' ! v) \<and> set (gs_graph g' ! v) \<subseteq> shard_edges idmaps grs v
          \<and> length (gs_graph g' ! v) = min max_deg (card (shard_edges idmaps grs v)))"
  by (rule merge_shards_library [OF assms])

lemma merge_shards_graph_witness:
  "\<exists>merged med g'. merge_shards (\<lambda>k. rev) id (map idmap_bytes [[0, 1, 2], [1, 3]])
       (shard_files [[[1], [2, 0], [1]], [[1], [0]]] (\<lambda>_. 2) (\<lambda>_. 1)) 2 None = Inr (merged, med, None)
     \<and> load_graph_file merged 4 (gs_make 1) = Inr ((4, 3, 0), g') \<and> length (gs_graph g' ! 1) = 2"
proof -
  let ?ids = "[[0, 1, 2], [1, 3]] :: nat list list" and ?grs = "[[[1], [2, 0], [1]], [[1], [0]]] :: nat list list list"
  have sk: "shard_ok [0, 1, 2] [[1], [2, 0], [1]]" "shard_ok [1, 3] [[1], [0]]"
    by (simp_all add: shard_ok_def fits_file_def graph_file_size_def)
  have sh: "shard_ok (?ids ! s) (?grs ! s) \<and> 1 < length (?ids ! s)" if "s < length ?ids" for s
  proof -
    from that have "s = 0 \<or> s = 1" by auto
    then show ?thesis using sk by (elim disjE) simp_all
  qed
  have cov: "shards_of ?ids v \<noteq> []" if "v < count_nodes ?ids" for v
  proof -
    have "v \<in> {0, 1, 2, 3}" using that by (auto simp: count_nodes_def)
    then show ?thesis by (auto simp: shards_of_def)
  qed
  have inp: "merge_input ?ids ?grs (\<lambda>_. 2) (\<lambda>_. 1)"
    using sh cov by (simp add: merge_input_def)
  have c: "count_nodes [[0, 1, 2], [1, 3]] = 4" by (simp add: count_nodes_def)
  have "union_nhood ?ids ?grs 1 = [2, 0, 3]" by code_simp
  moreover have "\<forall>s < length ?ids. shard_ok (?ids ! s) (?grs ! s)" using sh by simp
  ultimately have "shard_edges ?ids ?grs 1 = {2, 0, 3}" using union_nhood_edges [of ?ids ?grs 1] by simp
  then have e: "card (shard_edges [[0, 1, 2], [1, 3]] [[[1], [2, 0], [1]], [[1], [0]]] 1) = 3" by simp
  have gs: "gs_total_points (gs_make 1) = length (gs_graph (gs_make 1))" by (simp add: gs_make_def resize_graph_def)
  have rv: "mset (rev xs) = mset xs" for xs :: "nat list" by simp
  have bnd: "(2::nat) < 2 ^ 32 - 1" "24 + count_nodes ?ids * (4 * (2 + 1)) < 2 ^ 64" unfolding c by simp_all
  obtain merged med g' where r: "merge_shards (\<lambda>k. rev) id (map idmap_bytes ?ids) (shard_files ?grs (\<lambda>_. 2) (\<lambda>_. 1)) 2 None
        = Inr (merged, med, None)"
      "load_graph_file merged 4 (gs_make 1) = Inr ((4, last ?ids ! 1, 0), g')"
      "\<forall>v < 4. length (gs_graph g' ! v) = min 2 (card (shard_edges ?ids ?grs v))"
    using merge_shards_graph [OF inp rv bnd gs, of id] unfolding c by blast
  have "length (gs_graph g' ! 1) = 2" using r(3) [rule_format, of 1] e by simp
  then show ?thesis using r(1,2) by auto
qed

end
