(* ===== verification/Kmeans.thy ===== *)
theory Kmeans
  imports Bin_IO "HOL-Library.Multiset"
begin

text \<open>
  Clustering (\<^verbatim>\<open>src/math_utils.cpp\<close>): the nearest centers of a set of points, Lloyd's
  iterations and the choice of the first pivots. The two routines of BLAS that are called are a parameter, and so are
  random numbers, the order in which a priority queue gives equal distances and the order in which threads reach a critical section.
\<close>

section \<open>Distances\<close>

text \<open>\<^verbatim>\<open>cblas_snrm2\<close>, and \<^verbatim>\<open>cblas_sgemm\<close> on row-major matrices: whether each factor is transposed, the sizes
  \<open>m\<close>, \<open>n\<close>, \<open>k\<close>, then \<open>alpha\<close>, \<open>A\<close>, \<open>B\<close>, \<open>beta\<close>, \<open>C\<close>, giving the new \<open>C\<close>.\<close>

record blas =
  snrm2 :: "fl list \<Rightarrow> fl"
  sgemm :: "bool \<Rightarrow> bool \<Rightarrow> nat \<Rightarrow> nat \<Rightarrow> nat \<Rightarrow> fl \<Rightarrow> fl list \<Rightarrow> fl list \<Rightarrow> fl \<Rightarrow> fl list \<Rightarrow> fl list"

definition row_at :: "'a list \<Rightarrow> nat \<Rightarrow> nat \<Rightarrow> 'a list result" where
  "row_at data cols i = mem_get data (i * cols) cols"

definition calc_distance :: "fl list \<Rightarrow> fl list \<Rightarrow> fl" where
  "calc_distance vec_1 vec_2 =
     fold (\<lambda>(a, b) dist. fl_add F32 dist (fl_mul F32 (fl_sub F32 a b) (fl_sub F32 a b))) (zip vec_1 vec_2) (Fin 0)"

definition compute_vecs_l2sq :: "blas \<Rightarrow> fl list \<Rightarrow> nat \<Rightarrow> nat \<Rightarrow> fl list result" where
  "compute_vecs_l2sq bl data num_points cols =
     mapR (\<lambda>i. bindR (row_at data cols i) (\<lambda>r. Inr (fl_mul F32 (snrm2 bl r) (snrm2 bl r)))) [0..<num_points]"

definition rotate_data_randomly :: "blas \<Rightarrow> fl list \<Rightarrow> nat \<Rightarrow> nat \<Rightarrow> fl list \<Rightarrow> fl list \<Rightarrow> bool \<Rightarrow> fl list" where
  "rotate_data_randomly bl data num_points cols rot_mat new_mat transpose_rot =
     sgemm bl False transpose_rot num_points cols cols (Fin 1) data rot_mat (Fin 0) new_mat"

text \<open>Norms of the points plus norms of the centers minus twice the inner products, as three products of matrices.\<close>

definition center_distances :: "blas \<Rightarrow> fl list \<Rightarrow> nat \<Rightarrow> nat \<Rightarrow> fl list \<Rightarrow> nat \<Rightarrow> fl list \<Rightarrow> fl list \<Rightarrow> fl list \<Rightarrow> fl list" where
  "center_distances bl data num_points cols centers num_centers docs_l2sq centers_l2sq dist_matrix =
     (let ones_a = replicate num_centers (Fin 1); ones_b = replicate num_points (Fin 1);
          m1 = sgemm bl False True num_points num_centers 1 (Fin 1) docs_l2sq ones_a (Fin 0) dist_matrix;
          m2 = sgemm bl False True num_points num_centers 1 (Fin 1) ones_b centers_l2sq (Fin 1) m1
      in sgemm bl False True num_points num_centers cols (Fin (-2)) data centers (Fin 1) m2)"

section \<open>Nearest centers\<close>

text \<open>The scan for one nearest center: nothing is stored while no distance is below the largest \<^verbatim>\<open>float\<close>.\<close>

fun closest_scan :: "fl list \<Rightarrow> nat \<Rightarrow> nat option \<Rightarrow> fl \<Rightarrow> nat option" where
  "closest_scan [] j best best_dist = best"
| "closest_scan (x # xs) j best best_dist =
     (if fl_lt x best_dist then closest_scan xs (j + 1) (Some j) x else closest_scan xs (j + 1) best best_dist)"

text \<open>
  The \<open>k\<close> entries of a point in the center index; \<open>None\<close> is a slot that is not written. \<open>drain\<close> is the order in which the
  priority queue, with the smallest distance on top, gives what was pushed.
\<close>

definition closest_of_row :: "((nat \<times> fl) list \<Rightarrow> (nat \<times> fl) list) \<Rightarrow> nat \<Rightarrow> fl list \<Rightarrow> nat option list" where
  "closest_of_row drain k current =
     (if k = 1 then [closest_scan current 0 None FLT_MAX]
      else map (\<lambda>(piv_id, _). Some piv_id) (take k (drain (enumerate 0 current))))"

definition compute_closest_centers_in_block ::
  "blas \<Rightarrow> ((nat \<times> fl) list \<Rightarrow> (nat \<times> fl) list) \<Rightarrow> fl list \<Rightarrow> nat \<Rightarrow> nat \<Rightarrow> fl list \<Rightarrow> nat \<Rightarrow> fl list \<Rightarrow> fl list
     \<Rightarrow> nat option list \<Rightarrow> fl list \<Rightarrow> nat \<Rightarrow> (nat option list \<times> fl list) result" where
  "compute_closest_centers_in_block bl drain data num_points cols centers num_centers docs_l2sq centers_l2sq center_index dist_matrix k =
     (if num_centers < k then Inr (center_index, dist_matrix)
      else let m = center_distances bl data num_points cols centers num_centers docs_l2sq centers_l2sq dist_matrix in
        bindR (foldR (\<lambda>i index. bindR (row_at m num_centers i) (\<lambda>current.
            foldR (\<lambda>(l, c) index. case c of None \<Rightarrow> Inr index | Some j \<Rightarrow> vec_put index (i * k + l) (Some j))
              (enumerate 0 (closest_of_row drain k current)) index)) [0..<num_points] center_index) (\<lambda>index. Inr (index, m)))"

text \<open>Copying the centers of point \<open>j\<close> out of the block and into the inverted index.\<close>

definition record_center :: "nat \<Rightarrow> nat \<Rightarrow> nat option list \<Rightarrow> nat \<Rightarrow> nat \<Rightarrow> nat list \<times> nat list list option \<Rightarrow> (nat list \<times> nat list list option) result" where
  "record_center k start closest_centers j l st =
     (let (ivf, inverted) = st in
      bindR (vec_at closest_centers ((j - start) * k + l)) (\<lambda>c.
      case c of None \<Rightarrow> Inl UndefinedBehaviour
      | Some this_center_id \<Rightarrow>
          bindR (vec_put ivf (j * k + l) this_center_id) (\<lambda>ivf'.
          case inverted of None \<Rightarrow> Inr (ivf', None)
          | Some ivx \<Rightarrow> bindR (vec_at ivx this_center_id) (\<lambda>docs. bindR (vec_put ivx this_center_id (docs @ [j])) (\<lambda>ivx'. Inr (ivf', Some ivx'))))))"

text \<open>\<open>order\<close> is the order in which the threads take the points of a block.\<close>

definition closest_block ::
  "blas \<Rightarrow> ((nat \<times> fl) list \<Rightarrow> (nat \<times> fl) list) \<Rightarrow> (nat list \<Rightarrow> nat list) \<Rightarrow> fl list \<Rightarrow> nat \<Rightarrow> nat \<Rightarrow> fl list \<Rightarrow> nat \<Rightarrow> nat \<Rightarrow> fl list \<Rightarrow> fl list
     \<Rightarrow> nat \<Rightarrow> nat \<Rightarrow> (nat option list \<times> fl list) \<times> nat list \<times> nat list list option
     \<Rightarrow> ((nat option list \<times> fl list) \<times> nat list \<times> nat list list option) result" where
  "closest_block bl drain order data num_points cols pivot_data num_centers k pts_norms pivs_norms par_block_size cur_blk st =
     (let ((closest_centers, distance_matrix), out) = st; start = cur_blk * par_block_size; num_pts_blk = min par_block_size (num_points - start) in
      bindR (mem_get data (start * cols) (num_pts_blk * cols)) (\<lambda>data_cur_blk.
      bindR (mem_get pts_norms start num_pts_blk) (\<lambda>pts_norms_blk.
      bindR (compute_closest_centers_in_block bl drain data_cur_blk num_pts_blk cols pivot_data num_centers pts_norms_blk pivs_norms
               closest_centers distance_matrix k) (\<lambda>(closest', matrix').
      bindR (foldR (\<lambda>j. foldR (record_center k start closest' j) [0..<k]) (order [start..<min num_points (start + par_block_size)]) out) (\<lambda>out'.
        Inr ((closest', matrix'), out'))))))"

text \<open>With no points the number of blocks is computed by a division by zero.\<close>

definition compute_closest_centers ::
  "blas \<Rightarrow> ((nat \<times> fl) list \<Rightarrow> (nat \<times> fl) list) \<Rightarrow> (nat list \<Rightarrow> nat list) \<Rightarrow> fl list \<Rightarrow> nat \<Rightarrow> nat \<Rightarrow> fl list \<Rightarrow> nat \<Rightarrow> nat \<Rightarrow> fl list option
     \<Rightarrow> nat list \<times> nat list list option \<Rightarrow> (nat list \<times> nat list list option) result" where
  "compute_closest_centers bl drain order data num_points cols pivot_data num_centers k pts_norms_squared out =
     (if num_centers < k then Inr out
      else let par_block_size = num_points in
        if par_block_size = 0 then Inl UndefinedBehaviour
        else let n_blocks = (if num_points mod par_block_size = 0 then num_points div par_block_size else num_points div par_block_size + 1) in
          bindR (case pts_norms_squared of Some norms \<Rightarrow> Inr norms | None \<Rightarrow> compute_vecs_l2sq bl data num_points cols) (\<lambda>pts_norms.
          bindR (compute_vecs_l2sq bl pivot_data num_centers cols) (\<lambda>pivs_norms.
          bindR (foldR (closest_block bl drain order data num_points cols pivot_data num_centers k pts_norms pivs_norms par_block_size) [0..<n_blocks]
              ((replicate (par_block_size * k) None, replicate (num_centers * par_block_size) (Fin 0)), out)) (\<lambda>(_, out'). Inr out'))))"

definition process_residuals :: "fl list \<Rightarrow> nat \<Rightarrow> nat \<Rightarrow> fl list \<Rightarrow> nat list \<Rightarrow> bool \<Rightarrow> fl list result" where
  "process_residuals data_load num_points cols cur_pivot_data closest_centers to_subtract =
     foldR (\<lambda>n_iter. foldR (\<lambda>d_iter data.
         bindR (vec_at data (n_iter * cols + d_iter)) (\<lambda>x. bindR (vec_at closest_centers n_iter) (\<lambda>c. bindR (vec_at cur_pivot_data (c * cols + d_iter)) (\<lambda>p.
           vec_put data (n_iter * cols + d_iter) (if to_subtract then fl_sub F32 x p else fl_add F32 x p))))) [0..<cols])
       [0..<num_points] data_load"

section \<open>Lloyd's iterations\<close>

definition cluster_center :: "fl list \<Rightarrow> nat \<Rightarrow> nat list \<Rightarrow> fl list result" where
  "cluster_center data cols docs =
     (if docs = [] then Inr (replicate cols (Fin 0))
      else bindR (foldR (\<lambda>d cluster_sum. bindR (row_at data cols d) (\<lambda>current.
              Inr (map2 (\<lambda>s x. fl_add F64 s (fl_conv F64 x)) cluster_sum current))) docs (replicate cols (Fin 0))) (\<lambda>cluster_sum.
        Inr (map (\<lambda>s. fl_conv F32 (fl_div F64 s (f64 (of_nat (length docs))))) cluster_sum)))"

definition point_residual :: "fl list \<Rightarrow> nat \<Rightarrow> fl list \<Rightarrow> nat list \<Rightarrow> nat \<Rightarrow> fl \<Rightarrow> fl result" where
  "point_residual data cols centers closest_center d r =
     bindR (row_at data cols d) (\<lambda>x. bindR (vec_at closest_center d) (\<lambda>c. bindR (row_at centers cols c) (\<lambda>y.
       Inr (fl_add F32 r (calc_distance x y)))))"

definition lloyds_chunk :: nat where
  "lloyds_chunk = 2 * 8192"

definition residual_of :: "fl list \<Rightarrow> nat \<Rightarrow> nat \<Rightarrow> fl list \<Rightarrow> nat list \<Rightarrow> fl result" where
  "residual_of data num_points cols centers closest_center =
     bindR (mapR (\<lambda>chunk. foldR (point_residual data cols centers closest_center)
          [chunk * lloyds_chunk..<min num_points ((chunk + 1) * lloyds_chunk)] (Fin 0)) [0..<num_points div lloyds_chunk + (if num_points mod lloyds_chunk = 0 then 0 else 1)]) (\<lambda>residuals.
       Inr (fold (\<lambda>r s. fl_add F32 s r) residuals (Fin 0)))"

record clusters =
  cl_centers :: "fl list"
  cl_docs :: "nat list list"
  cl_closest :: "nat list"
  cl_residual :: fl

definition lloyds_iter :: "blas \<Rightarrow> (nat list \<Rightarrow> nat list) \<Rightarrow> fl list \<Rightarrow> nat \<Rightarrow> nat \<Rightarrow> nat \<Rightarrow> fl list \<Rightarrow> clusters \<Rightarrow> clusters result" where
  "lloyds_iter bl order data num_points cols num_centers docs_l2sq cl =
     bindR (compute_closest_centers bl (\<lambda>q. q) order data num_points cols (cl_centers cl) num_centers 1 (Some docs_l2sq)
         (cl_closest cl, Some (replicate num_centers []))) (\<lambda>(closest, inverted).
     let docs = (case inverted of None \<Rightarrow> [] | Some ivx \<Rightarrow> ivx) in
     bindR (mapR (cluster_center data cols) docs) (\<lambda>centers.
     bindR (residual_of data num_points cols (concat centers) closest) (\<lambda>residual.
       Inr \<lparr>cl_centers = concat centers, cl_docs = docs, cl_closest = closest, cl_residual = residual\<rparr>)))"

text \<open>The stopping rule; the quotient is a \<^verbatim>\<open>float\<close>, the literal a \<^verbatim>\<open>double\<close>.\<close>

definition FLT_EPSILON :: fl where
  "FLT_EPSILON = Fin (1 / 2 ^ 23)"

definition lloyds_stops :: "nat \<Rightarrow> fl \<Rightarrow> fl \<Rightarrow> bool" where
  "lloyds_stops i old_residual residual \<longleftrightarrow>
     i \<noteq> 0 \<and> fl_lt (fl_conv F64 (fl_div F32 (fl_sub F32 old_residual residual) residual)) (f64 (1 / 100000)) \<or> fl_lt residual FLT_EPSILON"

fun lloyds_loop :: "nat \<Rightarrow> nat \<Rightarrow> blas \<Rightarrow> (nat list \<Rightarrow> nat list) \<Rightarrow> fl list \<Rightarrow> nat \<Rightarrow> nat \<Rightarrow> nat \<Rightarrow> fl list \<Rightarrow> clusters \<Rightarrow> clusters result" where
  "lloyds_loop 0 i bl order data num_points cols num_centers docs_l2sq cl = Inr cl"
| "lloyds_loop (Suc reps) i bl order data num_points cols num_centers docs_l2sq cl =
     bindR (lloyds_iter bl order data num_points cols num_centers docs_l2sq cl) (\<lambda>cl'.
       if lloyds_stops i (cl_residual cl) (cl_residual cl') then Inr cl'
       else lloyds_loop reps (i + 1) bl order data num_points cols num_centers docs_l2sq cl')"

definition run_lloyds :: "blas \<Rightarrow> (nat list \<Rightarrow> nat list) \<Rightarrow> fl list \<Rightarrow> nat \<Rightarrow> nat \<Rightarrow> fl list \<Rightarrow> nat \<Rightarrow> nat \<Rightarrow> nat list \<Rightarrow> clusters result" where
  "run_lloyds bl order data num_points cols centers num_centers max_reps closest_center =
     bindR (compute_vecs_l2sq bl data num_points cols) (\<lambda>docs_l2sq.
       lloyds_loop max_reps 0 bl order data num_points cols num_centers docs_l2sq
         \<lparr>cl_centers = centers, cl_docs = replicate num_centers [], cl_closest = closest_center, cl_residual = FLT_MAX\<rparr>)"

section \<open>The first pivots\<close>

text \<open>\<open>draws\<close> are the values of the integer distribution. A value drawn before leaves its row of \<open>pivot_data\<close> as it was.\<close>

definition select_pivot :: "fl list \<Rightarrow> nat \<Rightarrow> (nat \<Rightarrow> nat) \<Rightarrow> nat \<Rightarrow> nat list \<times> fl list \<Rightarrow> (nat list \<times> fl list) result" where
  "select_pivot data cols draws j st =
     (let (picked, pivot_data) = st in
      if draws j \<in> set picked then Inr st
      else bindR (row_at data cols (draws j)) (\<lambda>r. bindR (mem_put pivot_data (j * cols) r) (\<lambda>p. Inr (picked @ [draws j], p))))"

definition selecting_pivots :: "fl list \<Rightarrow> nat \<Rightarrow> nat \<Rightarrow> (nat \<Rightarrow> nat) \<Rightarrow> fl list \<Rightarrow> nat \<Rightarrow> fl list result" where
  "selecting_pivots data num_points cols draws pivot_data num_centers =
     bindR (foldR (select_pivot data cols draws) [0..<num_centers] ([], pivot_data)) (\<lambda>(_, p). Inr p)"

text \<open>The point whose interval of the prefix sums holds the dart, or the last point.\<close>

fun dart_pivot :: "fl \<Rightarrow> fl list \<Rightarrow> nat \<Rightarrow> fl \<Rightarrow> nat \<Rightarrow> nat" where
  "dart_pivot dart_val [] i prefix_sum tmp_pivot = tmp_pivot"
| "dart_pivot dart_val (d # ds) i prefix_sum tmp_pivot =
     (let next = fl_add F64 prefix_sum (fl_conv F64 d) in
      if fl_le prefix_sum dart_val \<and> fl_lt dart_val next then i else dart_pivot dart_val ds (i + 1) next i)"

text \<open>\<^verbatim>\<open>std::min(a, b)\<close> is \<^verbatim>\<open>(b < a) ? b : a\<close>.\<close>

definition nearer :: "fl \<Rightarrow> fl \<Rightarrow> fl" where
  "nearer a b = (if fl_lt b a then b else a)"

definition distances_to :: "fl list \<Rightarrow> nat \<Rightarrow> nat \<Rightarrow> nat \<Rightarrow> fl list result" where
  "distances_to data num_points cols p =
     mapR (\<lambda>i. bindR (row_at data cols i) (\<lambda>x. bindR (row_at data cols p) (\<lambda>y. Inr (calc_distance x y)))) [0..<num_points]"

record pp_state =
  pp_picked :: "nat list"
  pp_pivots :: "fl list"
  pp_dist :: "fl list"
  pp_sum_flag :: bool

text \<open>One throw of a dart; a point picked before is thrown away unless all distances have been zero.\<close>

definition throw_dart :: "fl list \<Rightarrow> nat \<Rightarrow> nat \<Rightarrow> fl \<Rightarrow> pp_state \<Rightarrow> pp_state result" where
  "throw_dart data num_points cols dart s =
     (let sum = fold (\<lambda>d t. fl_add F64 t (fl_conv F64 d)) (pp_dist s) (Fin 0);
          s1 = (if fl_eq sum (Fin 0) then s\<lparr>pp_sum_flag := True\<rparr> else s);
          tmp_pivot = dart_pivot (fl_mul F64 dart sum) (pp_dist s) 0 (Fin 0) 0
      in if tmp_pivot \<in> set (pp_picked s) \<and> \<not> pp_sum_flag s1 then Inr s1
         else bindR (row_at data cols tmp_pivot) (\<lambda>r.
              bindR (mem_put (pp_pivots s1) (length (pp_picked s1) * cols) r) (\<lambda>p.
              bindR (distances_to data num_points cols tmp_pivot) (\<lambda>ds.
                Inr (s1\<lparr>pp_picked := pp_picked s1 @ [tmp_pivot], pp_pivots := p, pp_dist := map2 nearer (pp_dist s1) ds\<rparr>)))))"

fun pick_pivots :: "nat \<Rightarrow> nat \<Rightarrow> fl list \<Rightarrow> nat \<Rightarrow> nat \<Rightarrow> (nat \<Rightarrow> fl) \<Rightarrow> nat \<Rightarrow> pp_state \<Rightarrow> pp_state result" where
  "pick_pivots fuel t data num_points cols darts num_centers s =
     (if length (pp_picked s) < num_centers
      then case fuel of 0 \<Rightarrow> Inl OutOfFuel
           | Suc fuel' \<Rightarrow> bindR (throw_dart data num_points cols (darts t) s) (pick_pivots fuel' (t + 1) data num_points cols darts num_centers)
      else Inr s)"

declare pick_pivots.simps [simp del]

text \<open>\<open>darts\<close> are the values of the real distribution; the loop goes on until enough of them have hit new points.\<close>

definition kmeanspp_selecting_pivots ::
  "nat \<Rightarrow> fl list \<Rightarrow> nat \<Rightarrow> nat \<Rightarrow> (nat \<Rightarrow> nat) \<Rightarrow> (nat \<Rightarrow> fl) \<Rightarrow> fl list \<Rightarrow> nat \<Rightarrow> fl list result" where
  "kmeanspp_selecting_pivots fuel data num_points cols draws darts pivot_data num_centers =
     (if 2 ^ 23 < num_points then selecting_pivots data num_points cols draws pivot_data num_centers
      else bindR (row_at data cols (draws 0)) (\<lambda>r.
           bindR (mem_put pivot_data 0 r) (\<lambda>p.
           bindR (distances_to data num_points cols (draws 0)) (\<lambda>ds.
           bindR (pick_pivots fuel 0 data num_points cols darts num_centers
              \<lparr>pp_picked = [draws 0], pp_pivots = p, pp_dist = ds, pp_sum_flag = False\<rparr>) (\<lambda>s. Inr (pp_pivots s))))))"


section \<open>Every point goes to its first nearest center\<close>

lemma row_at_in: "i < n \<Longrightarrow> n * cols \<le> length data \<Longrightarrow> row_at data cols i = Inr (take cols (drop (i * cols) data))"
proof -
  assume "i < n" "n * cols \<le> length data"
  moreover have "Suc i * cols \<le> n * cols" using \<open>i < n\<close> by (intro mult_le_mono1) simp
  ultimately show ?thesis by (simp add: row_at_def mem_get_def)
qed

definition norms_of :: "blas \<Rightarrow> fl list \<Rightarrow> nat \<Rightarrow> nat \<Rightarrow> fl list" where
  "norms_of bl data n cols = map (\<lambda>i. let x = snrm2 bl (take cols (drop (i * cols) data)) in fl_mul F32 x x) [0..<n]"

lemma compute_vecs_l2sq_ok: "n * cols \<le> length data \<Longrightarrow> compute_vecs_l2sq bl data n cols = Inr (norms_of bl data n cols)"
  unfolding compute_vecs_l2sq_def norms_of_def by (rule mapR_total) (simp add: row_at_in Let_def)

lemma length_norms_of [simp]: "length (norms_of bl data n cols) = n"
  by (simp add: norms_of_def)

lemma closest_scan_cases:
  assumes "\<forall>x \<in> set xs. x \<noteq> NaN" "bd \<noteq> NaN"
  shows "closest_scan xs j best bd = best \<and> (\<forall>x \<in> set xs. bd \<le> x)
     \<or> (\<exists>i < length xs. closest_scan xs j best bd = Some (j + i) \<and> xs ! i < bd \<and> (\<forall>x \<in> set xs. xs ! i \<le> x) \<and> (\<forall>k < i. xs ! i < xs ! k))"
  using assms
proof (induction xs arbitrary: j best bd)
  case (Cons x xs)
  then have nn: "x \<noteq> NaN" "\<forall>x \<in> set xs. x \<noteq> NaN" by simp_all
  show ?case
  proof (cases "x < bd")
    case True
    from Cons.IH [OF nn(2,1), of "j + 1" "Some j"] show ?thesis
    proof (elim disjE exE conjE)
      assume "closest_scan xs (j + 1) (Some j) x = Some j" "\<forall>y \<in> set xs. x \<le> y"
      then show ?thesis using True nn Cons.prems(2) by (intro disjI2 exI [of _ 0]) auto
    next
      fix i assume i: "i < length xs" "closest_scan xs (j + 1) (Some j) x = Some (j + 1 + i)" "xs ! i < x"
        "\<forall>y \<in> set xs. xs ! i \<le> y" "\<forall>k < i. xs ! i < xs ! k"
      have "xs ! i < (x # xs) ! k" if "k < Suc i" for k using i(3,5) that by (cases k) auto
      moreover have "xs ! i < bd" using i(3) True by (rule order.strict_trans)
      ultimately show ?thesis using i True nn Cons.prems(2) by (intro disjI2 exI [of _ "Suc i"]) auto
    qed
  next
    case False
    from Cons.IH [OF nn(2) Cons.prems(2), of "j + 1" best] show ?thesis
    proof (elim disjE exE conjE)
      assume "closest_scan xs (j + 1) best bd = best" "\<forall>y \<in> set xs. bd \<le> y"
      then show ?thesis using False nn Cons.prems(2) by auto
    next
      fix i assume i: "i < length xs" "closest_scan xs (j + 1) best bd = Some (j + 1 + i)" "xs ! i < bd"
        "\<forall>y \<in> set xs. xs ! i \<le> y" "\<forall>k < i. xs ! i < xs ! k"
      then have x: "xs ! i < x" using False by auto
      have "xs ! i < (x # xs) ! k" if "k < Suc i" for k using i(5) x that by (cases k) auto
      then show ?thesis using i x False nn Cons.prems(2) by (intro disjI2 exI [of _ "Suc i"]) auto
    qed
  qed
qed simp

text \<open>\<open>c\<close> is the first of the smallest entries of row \<open>i\<close> of a matrix.\<close>

definition first_nearest :: "fl list \<Rightarrow> nat \<Rightarrow> nat \<Rightarrow> nat \<Rightarrow> bool" where
  "first_nearest m nc i c \<longleftrightarrow> c < nc \<and> (\<forall>j < nc. m ! (i * nc + c) \<le> m ! (i * nc + j)) \<and> (\<forall>j < c. m ! (i * nc + c) < m ! (i * nc + j))"

text \<open>Every row has a distance below the largest \<^verbatim>\<open>float\<close>, and none is a NaN.\<close>

definition distances_usable :: "fl list \<Rightarrow> nat \<Rightarrow> nat \<Rightarrow> bool" where
  "distances_usable m n nc \<longleftrightarrow> length m = n * nc \<and> (\<forall>x \<in> set m. x \<noteq> NaN) \<and> (\<forall>i < n. \<exists>j < nc. m ! (i * nc + j) < FLT_MAX)"

definition near_of :: "fl list \<Rightarrow> nat \<Rightarrow> nat \<Rightarrow> nat" where
  "near_of m nc i = the (closest_scan (take nc (drop (i * nc) m)) 0 None FLT_MAX)"

lemma near_of_first:
  assumes "distances_usable m n nc" "i < n"
  shows "closest_scan (take nc (drop (i * nc) m)) 0 None FLT_MAX = Some (near_of m nc i) \<and> first_nearest m nc i (near_of m nc i)"
proof -
  let ?r = "take nc (drop (i * nc) m)"
  have "Suc i * nc \<le> n * nc" using assms(2) by (intro mult_le_mono1) simp
  then have len: "length ?r = nc" and nth: "\<And>j. j < nc \<Longrightarrow> ?r ! j = m ! (i * nc + j)" using assms by (simp_all add: distances_usable_def)
  have nn: "\<forall>x \<in> set ?r. x \<noteq> NaN" using assms(1) by (auto simp: distances_usable_def dest: in_set_takeD in_set_dropD)
  obtain j where j: "j < nc" "?r ! j < FLT_MAX" using assms nth by (auto simp: distances_usable_def)
  have "\<not> (\<forall>x \<in> set ?r. FLT_MAX \<le> x)" using j len by (metis leD nth_mem)
  then obtain c where c: "c < nc" "closest_scan ?r 0 None FLT_MAX = Some c" "\<forall>x \<in> set ?r. ?r ! c \<le> x" "\<forall>k < c. ?r ! c < ?r ! k"
    using closest_scan_cases [OF nn FLT_MAX_not_NaN, of 0 None] len by auto
  have "\<forall>j < nc. ?r ! c \<le> ?r ! j" using c(3) len by (metis nth_mem)
  then have "first_nearest m nc i c" using c nth by (auto simp: first_nearest_def)
  then show ?thesis using c(2) by (simp add: near_of_def)
qed

lemma in_block_ok:
  assumes m: "m = center_distances bl data n cols centers nc docs_l2sq centers_l2sq dm" "distances_usable m n nc"
    and b: "0 < nc" "length idx = n"
  shows "compute_closest_centers_in_block bl drain data n cols centers nc docs_l2sq centers_l2sq idx dm 1
     = Inr (map (\<lambda>i. Some (near_of m nc i)) [0..<n], m)"
proof -
  let ?f = "\<lambda>i index. bindR (row_at m nc i) (\<lambda>current.
      foldR (\<lambda>(l, c) index. case c of None \<Rightarrow> Inr index | Some j \<Rightarrow> vec_put index (i * 1 + l) (Some j))
        (enumerate 0 (closest_of_row drain 1 current)) index)"
  have "?f i ys = Inr (ys[i := Some (near_of m nc i)])" if "i < n" "length ys = length idx" for i ys
    using that near_of_first [OF m(2) that(1)] row_at_in [of i n nc m] m(2) b(2)
    by (simp add: closest_of_row_def foldR_one distances_usable_def)
  then have "foldR ?f [0..<n] idx = Inr (map (\<lambda>i. Some (near_of m nc i)) [0..<n] @ drop n idx)"
    by (intro foldR_prefix [where g = "\<lambda>i _. Some (near_of m nc i)"]) (simp_all add: b(2))
  then show ?thesis using b by (simp add: compute_closest_centers_in_block_def m(1) [symmetric] Let_def del: One_nat_def)
qed

lemma record_all:
  assumes "\<forall>j \<in> set xs. j < n \<and> near j < nc" "n \<le> length ivf" "\<forall>ivx. ix = Some ivx \<longrightarrow> length ivx = nc"
  shows "foldR (\<lambda>j. foldR (record_center 1 0 (map (\<lambda>i. Some (near i)) [0..<n]) j) [0..<1]) xs (ivf, ix)
     = Inr (fold (\<lambda>j v. v[j := near j]) xs ivf, map_option (\<lambda>ivx. map (\<lambda>c. ivx ! c @ filter (\<lambda>j. near j = c) xs) [0..<nc]) ix)"
  using assms
proof (induction xs arbitrary: ivf ix)
  case Nil
  then have "map (\<lambda>c. ivx ! c) [0..<nc] = ivx" if "ix = Some ivx" for ivx using that map_nth [of ivx] by simp
  then show ?case by (cases ix) simp_all
next
  case (Cons j xs)
  have j: "j < n" "near j < nc" "j < length ivf" using Cons.prems by auto
  let ?ix = "map_option (\<lambda>ivx. ivx[near j := ivx ! near j @ [j]]) ix"
  have "record_center 1 0 (map (\<lambda>i. Some (near i)) [0..<n]) j 0 (ivf, ix) = Inr (ivf[j := near j], ?ix)"
    using j Cons.prems(3) by (simp add: record_center_def split: option.split)
  moreover have "foldR (\<lambda>j. foldR (record_center 1 0 (map (\<lambda>i. Some (near i)) [0..<n]) j) [0..<1]) xs (ivf[j := near j], ?ix)
     = Inr (fold (\<lambda>j v. v[j := near j]) xs (ivf[j := near j]), map_option (\<lambda>ivx. map (\<lambda>c. ivx ! c @ filter (\<lambda>j. near j = c) xs) [0..<nc]) ?ix)"
    by (rule Cons.IH) (use Cons.prems in auto)
  moreover have "map_option (\<lambda>ivx. map (\<lambda>c. ivx ! c @ filter (\<lambda>j. near j = c) xs) [0..<nc]) ?ix
     = map_option (\<lambda>ivx. map (\<lambda>c. ivx ! c @ filter (\<lambda>j. near j = c) (j # xs)) [0..<nc]) ix"
    using Cons.prems(3) by (cases ix) (auto simp: nth_list_update)
  ultimately show ?case by (simp add: foldR_one)
qed

lemma nth_fold_update: "i < length v \<Longrightarrow> fold (\<lambda>j v. v[j := f j]) xs v ! i = (if i \<in> set xs then f i else v ! i)"
proof (induction xs arbitrary: v)
  case (Cons x xs)
  then show ?case by (auto simp: nth_list_update)
qed simp

lemma length_fold_update [simp]: "length (fold (\<lambda>j v. v[j := f j]) xs v) = length v"
  by (induction xs arbitrary: v) simp_all

lemma fold_update_prefix:
  assumes "set xs = {0..<n}" "n \<le> length v"
  shows "fold (\<lambda>j v. v[j := f j]) xs v = map f [0..<n] @ drop n v"
  by (rule nth_equalityI) (use assms in \<open>auto simp: nth_fold_update nth_append\<close>)


text \<open>The distance matrix of all points against all centers.\<close>

definition point_distances :: "blas \<Rightarrow> fl list \<Rightarrow> nat \<Rightarrow> nat \<Rightarrow> fl list \<Rightarrow> nat \<Rightarrow> fl list \<Rightarrow> fl list" where
  "point_distances bl data n cols centers nc norms =
     center_distances bl (take (n * cols) data) n cols centers nc (take n norms) (norms_of bl centers nc cols) (replicate (nc * n) (Fin 0))"

lemma closest_centers_library:
  assumes m: "m = point_distances bl data n cols pivots nc norms" "distances_usable m n nc"
    and norms: "pts = Some norms \<or> pts = None \<and> norms = norms_of bl data n cols"
    and sizes: "0 < n" "0 < nc" "n * cols \<le> length data" "nc * cols \<le> length pivots" "n \<le> length norms" "n \<le> length ivf"
      "\<forall>ivx. ix = Some ivx \<longrightarrow> length ivx = nc"
    and order: "set (order [0..<n]) = {0..<n}"
  shows "compute_closest_centers bl drain order data n cols pivots nc 1 pts (ivf, ix)
     = Inr (map (near_of m nc) [0..<n] @ drop n ivf,
            map_option (\<lambda>ivx. map (\<lambda>c. ivx ! c @ filter (\<lambda>j. near_of m nc j = c) (order [0..<n])) [0..<nc]) ix)"
proof -
  have near: "\<forall>j \<in> set (order [0..<n]). j < n \<and> near_of m nc j < nc"
    using near_of_first [OF m(2)] order by (auto simp: first_nearest_def)
  let ?out = "(map (near_of m nc) [0..<n] @ drop n ivf,
     map_option (\<lambda>ivx. map (\<lambda>c. ivx ! c @ filter (\<lambda>j. near_of m nc j = c) (order [0..<n])) [0..<nc]) ix)"
  have rec: "foldR (\<lambda>j. foldR (record_center 1 0 (map (\<lambda>i. Some (near_of m nc i)) [0..<n]) j) [0..<1]) (order [0..<n]) (ivf, ix) = Inr ?out"
    using record_all [OF near sizes(6,7)] fold_update_prefix [OF order sizes(6), where f = "near_of m nc"] by simp
  have blk: "compute_closest_centers_in_block bl drain (take (n * cols) data) n cols pivots nc (take n norms) (norms_of bl pivots nc cols)
      (replicate (n * 1) None) (replicate (nc * n) (Fin 0)) 1 = Inr (map (\<lambda>i. Some (near_of m nc i)) [0..<n], m)"
    by (rule in_block_ok) (use m sizes in \<open>simp_all add: point_distances_def\<close>)
  have "closest_block bl drain order data n cols pivots nc 1 norms (norms_of bl pivots nc cols) n 0
      ((replicate (n * 1) None, replicate (nc * n) (Fin 0)), (ivf, ix)) = Inr ((map (\<lambda>i. Some (near_of m nc i)) [0..<n], m), ?out)"
    using blk rec sizes by (simp add: closest_block_def mem_get_def Let_def del: One_nat_def upt_Suc)
  moreover have "(case pts of Some ns \<Rightarrow> Inr ns | None \<Rightarrow> compute_vecs_l2sq bl data n cols) = Inr norms"
    using norms compute_vecs_l2sq_ok [OF sizes(3)] by auto
  ultimately show ?thesis using sizes compute_vecs_l2sq_ok [OF sizes(4)]
    by (simp add: compute_closest_centers_def foldR_one Let_def del: One_nat_def upt_Suc) simp
qed


section \<open>One iteration\<close>

text \<open>The mean of a cluster, dimension by dimension; the center of a cluster without points is the origin.\<close>

definition cluster_mean :: "fl list \<Rightarrow> nat \<Rightarrow> nat list \<Rightarrow> fl list" where
  "cluster_mean data cols docs =
     (if docs = [] then replicate cols (Fin 0)
      else map (\<lambda>t. fl_conv F32 (fl_div F64 (fold (\<lambda>d s. fl_add F64 s (fl_conv F64 (data ! (d * cols + t)))) docs (Fin 0))
                                   (f64 (of_nat (length docs))))) [0..<cols])"

lemma length_cluster_mean [simp]: "length (cluster_mean data cols docs) = cols"
  by (simp add: cluster_mean_def)

lemma cluster_sum_columns:
  assumes "\<forall>d \<in> set docs. d < n" "n * cols \<le> length data"
  shows "foldR (\<lambda>d cluster_sum. bindR (row_at data cols d) (\<lambda>current.
            Inr (map2 (\<lambda>s x. fl_add F64 s (fl_conv F64 x)) cluster_sum current))) docs (map g [0..<cols])
     = Inr (map (\<lambda>t. fold (\<lambda>d s. fl_add F64 s (fl_conv F64 (data ! (d * cols + t)))) docs (g t)) [0..<cols])"
  using assms
proof (induction docs arbitrary: g)
  case (Cons d docs)
  have d: "d < n" using Cons.prems(1) by simp
  have "Suc d * cols \<le> n * cols" using d by (intro mult_le_mono1) simp
  then have "map2 (\<lambda>s x. fl_add F64 s (fl_conv F64 x)) (map g [0..<cols]) (take cols (drop (d * cols) data))
     = map (\<lambda>t. fl_add F64 (g t) (fl_conv F64 (data ! (d * cols + t)))) [0..<cols]"
    using Cons.prems(2) by (intro nth_equalityI) simp_all
  then show ?case using Cons.IH Cons.prems row_at_in [OF d Cons.prems(2)] by simp
qed simp

lemma cluster_center_mean:
  assumes "\<forall>d \<in> set docs. d < n" "n * cols \<le> length data"
  shows "cluster_center data cols docs = Inr (cluster_mean data cols docs)"
proof -
  have "replicate cols (Fin 0) = map (\<lambda>_. Fin 0) [0..<cols]" by (simp add: map_replicate_const)
  then show ?thesis using cluster_sum_columns [OF assms, of "\<lambda>_. Fin 0"] by (simp add: cluster_center_def cluster_mean_def comp_def)
qed

definition lloyds_residual :: "fl list \<Rightarrow> nat \<Rightarrow> nat \<Rightarrow> (nat \<Rightarrow> fl list) \<Rightarrow> (nat \<Rightarrow> nat) \<Rightarrow> fl" where
  "lloyds_residual data n cols mean near =
     fold (\<lambda>r s. fl_add F32 s r) (map (\<lambda>chunk. fold (\<lambda>d r. fl_add F32 r (calc_distance (take cols (drop (d * cols) data)) (mean (near d))))
         [chunk * lloyds_chunk..<min n ((chunk + 1) * lloyds_chunk)] (Fin 0)) [0..<n div lloyds_chunk + (if n mod lloyds_chunk = 0 then 0 else 1)]) (Fin 0)"

lemma row_of_concat: "(\<forall>c < nc. length (f c) = cols) \<Longrightarrow> c < nc \<Longrightarrow> row_at (concat (map f [0..<nc])) cols c = Inr (f c)"
proof -
  assume f: "\<forall>c < nc. length (f c) = cols" and c: "c < nc"
  then have "length (concat (map f [0..<nc])) = nc * cols" using concat_map_length [of "[0..<nc]" f cols] by simp
  then show ?thesis using row_at_in [OF c, of cols "concat (map f [0..<nc])"] concat_nth_chunk [of "map f [0..<nc]" cols c] f c by simp
qed

lemma residual_of_ok:
  assumes "n * cols \<le> length data" "\<forall>c < nc. length (mean c) = cols" "\<forall>d < n. near d < nc" "\<forall>d < n. d < length cc \<and> cc ! d = near d"
  shows "residual_of data n cols (concat (map mean [0..<nc])) cc = Inr (lloyds_residual data n cols mean near)"
proof -
  have p: "point_residual data cols (concat (map mean [0..<nc])) cc d r
      = Inr (fl_add F32 r (calc_distance (take cols (drop (d * cols) data)) (mean (near d))))" if "d < n" for d r
    using that assms row_at_in [OF that assms(1)] row_of_concat [OF assms(2)] by (simp add: point_residual_def)
  have "foldR (point_residual data cols (concat (map mean [0..<nc])) cc) [a..<min n b] r
      = Inr (fold (\<lambda>d r. fl_add F32 r (calc_distance (take cols (drop (d * cols) data)) (mean (near d)))) [a..<min n b] r)" for a b r
    by (rule foldR_pure) (simp add: p)
  then show ?thesis unfolding residual_of_def lloyds_residual_def by (subst mapR_total) simp_all
qed

text \<open>\<^bold>\<open>C31\<close> One iteration of Lloyd's algorithm, when the distances computed by BLAS are usable: every point is given to the
  first of its nearest centers, the clusters split the points, every center becomes the mean of its cluster (the origin if it has no
  points), and the residual is the sum of the distances of the points to the new centers.\<close>

theorem lloyds_iter_means:
  assumes m: "m = point_distances bl data n cols (cl_centers cl) nc norms" "distances_usable m n nc"
    and sizes: "0 < n" "0 < nc" "n * cols \<le> length data" "nc * cols \<le> length (cl_centers cl)" "n \<le> length norms" "n \<le> length (cl_closest cl)"
    and order: "mset (order [0..<n]) = mset [0..<n]"
  shows "\<exists>near docs. (\<forall>i < n. first_nearest m nc i (near i)) \<and> (\<forall>c < nc. mset (docs c) = {#i \<in># mset [0..<n]. near i = c#})
     \<and> lloyds_iter bl order data n cols nc norms cl
       = Inr \<lparr>cl_centers = concat (map (\<lambda>c. cluster_mean data cols (docs c)) [0..<nc]), cl_docs = map docs [0..<nc],
              cl_closest = map near [0..<n] @ drop n (cl_closest cl),
              cl_residual = lloyds_residual data n cols (\<lambda>c. cluster_mean data cols (docs c)) near\<rparr>"
proof -
  have oset: "set (order [0..<n]) = {0..<n}" using arg_cong [OF order, of set_mset] by simp
  let ?near = "near_of m nc" and ?docs = "\<lambda>c. filter (\<lambda>j. near_of m nc j = c) (order [0..<n])"
  let ?mean = "\<lambda>c. cluster_mean data cols (?docs c)"
  have near: "\<forall>i < n. first_nearest m nc i (?near i)" using near_of_first [OF m(2)] by blast
  then have lt: "\<forall>i < n. ?near i < nc" by (simp add: first_nearest_def)
  have cc: "compute_closest_centers bl (\<lambda>q. q) order data n cols (cl_centers cl) nc 1 (Some norms) (cl_closest cl, Some (replicate nc []))
      = Inr (map ?near [0..<n] @ drop n (cl_closest cl), Some (map ?docs [0..<nc]))"
    using closest_centers_library [where drain = "\<lambda>q. q" and ix = "Some (replicate nc [])" and pts = "Some norms" and order = order, OF m disjI1 [OF refl] sizes _ oset] by simp
  have "mapR (cluster_center data cols) (map ?docs [0..<nc]) = Inr (map (cluster_mean data cols) (map ?docs [0..<nc]))"
    by (rule mapR_total) (use oset cluster_center_mean [OF _ sizes(3)] in auto)
  then have centers: "mapR (cluster_center data cols) (map ?docs [0..<nc]) = Inr (map ?mean [0..<nc])" by (simp add: comp_def)
  have "residual_of data n cols (concat (map ?mean [0..<nc])) (map ?near [0..<n] @ drop n (cl_closest cl))
      = Inr (lloyds_residual data n cols ?mean ?near)"
    by (rule residual_of_ok [OF sizes(3) _ lt]) (simp_all add: nth_append)
  then have "lloyds_iter bl order data n cols nc norms cl
       = Inr \<lparr>cl_centers = concat (map ?mean [0..<nc]), cl_docs = map ?docs [0..<nc],
              cl_closest = map ?near [0..<n] @ drop n (cl_closest cl), cl_residual = lloyds_residual data n cols ?mean ?near\<rparr>"
    by (simp add: lloyds_iter_def cc centers del: One_nat_def)
  moreover have "\<forall>c < nc. mset (?docs c) = {#i \<in># mset [0..<n]. ?near i = c#}" by (simp only: mset_filter order) simp
  ultimately show ?thesis using near by (intro exI [of _ ?near] exI [of _ ?docs] conjI)
qed


text \<open>The textbook product of matrices, in the order of the indices.\<close>

definition naive_gemm :: "bool \<Rightarrow> bool \<Rightarrow> nat \<Rightarrow> nat \<Rightarrow> nat \<Rightarrow> fl \<Rightarrow> fl list \<Rightarrow> fl list \<Rightarrow> fl \<Rightarrow> fl list \<Rightarrow> fl list" where
  "naive_gemm ta tb m n k alpha A B beta C =
     map (\<lambda>p. let i = p div n; j = p mod n in
        fl_add F32 (fl_mul F32 beta (C ! p)) (fl_mul F32 alpha (fold (\<lambda>t s. fl_add F32 s (fl_mul F32 (A ! (if ta then t * m + i else i * k + t))
          (B ! (if tb then j * k + t else t * n + j)))) [0..<k] (Fin 0)))) [0..<m * n]"

definition naive_blas :: blas where
  "naive_blas = \<lparr>snrm2 = (\<lambda>v. Fin 0), sgemm = naive_gemm\<rparr>"

lemma lloyds_iter_means_witness:
  "\<exists>near docs. near 0 = 0 \<and> near 1 = 0 \<and> lloyds_iter naive_blas (\<lambda>q. q) [Fin 0, Fin 0] 2 1 2 [Fin 0, Fin 0]
      \<lparr>cl_centers = [Fin 0, Fin 0], cl_docs = [], cl_closest = [7, 7], cl_residual = FLT_MAX\<rparr>
    = Inr \<lparr>cl_centers = concat (map (\<lambda>c. cluster_mean [Fin 0, Fin 0] 1 (docs c)) [0..<2]), cl_docs = map docs [0..<2], cl_closest = [0, 0],
           cl_residual = lloyds_residual [Fin 0, Fin 0] 2 1 (\<lambda>c. cluster_mean [Fin 0, Fin 0] 1 (docs c)) near\<rparr>"
proof -
  let ?cl = "\<lparr>cl_centers = [Fin 0, Fin 0], cl_docs = [], cl_closest = [7, 7], cl_residual = FLT_MAX\<rparr>"
  have two: "replicate 2 x = [x, x]" "replicate 4 x = [x, x, x, x]" for x :: fl by (simp_all add: numeral_eq_Suc)
  have four: "[0..<4] = [0, 1, 2, 3::nat]" by (simp add: upt_conv_Cons)
  have pd: "point_distances naive_blas [Fin 0, Fin 0] 2 1 (cl_centers ?cl) 2 [Fin 0, Fin 0] = [Fin 0, Fin 0, Fin 0, Fin 0]"
    using two by (simp add: four point_distances_def center_distances_def naive_blas_def naive_gemm_def norms_of_def Let_def)
  have u: "distances_usable [Fin 0, Fin 0, Fin 0, Fin 0] 2 2"
    by (auto simp: distances_usable_def FLT_MAX_def less_Suc_eq numeral_2_eq_2)
  obtain near docs where r: "\<forall>i < 2. first_nearest [Fin 0, Fin 0, Fin 0, Fin 0] 2 i (near i)"
     "lloyds_iter naive_blas (\<lambda>q. q) [Fin 0, Fin 0] 2 1 2 [Fin 0, Fin 0] ?cl
       = Inr \<lparr>cl_centers = concat (map (\<lambda>c. cluster_mean [Fin 0, Fin 0] 1 (docs c)) [0..<2]), cl_docs = map docs [0..<2],
              cl_closest = map near [0..<2] @ drop 2 [7, 7],
              cl_residual = lloyds_residual [Fin 0, Fin 0] 2 1 (\<lambda>c. cluster_mean [Fin 0, Fin 0] 1 (docs c)) near\<rparr>"
    using lloyds_iter_means [where bl = naive_blas and order = "\<lambda>q. q" and cl = ?cl, OF pd [symmetric] u] by auto
  have "near i = 0" if "i < 2" for i
  proof (rule ccontr)
    assume "near i \<noteq> 0"
    moreover have "near i < 2" "\<forall>j < near i. [Fin 0, Fin 0, Fin 0, Fin 0] ! (i * 2 + near i) < [Fin 0, Fin 0, Fin 0, Fin 0] ! (i * 2 + j)"
      using r(1) that by (simp_all add: first_nearest_def)
    ultimately show False using that by (auto simp: less_Suc_eq numeral_2_eq_2 numeral_eq_Suc)
  qed
  then have "near 0 = 0" "near 1 = 0" by simp_all
  then show ?thesis using r(2) by (intro exI [of _ near] exI [of _ docs]) (simp add: upt_rec)
qed


section \<open>The pivots are points\<close>

lemma dart_pivot_range: "dart_pivot dart ds i prefix_sum tmp = tmp \<or> i \<le> dart_pivot dart ds i prefix_sum tmp \<and> dart_pivot dart ds i prefix_sum tmp < i + length ds"
proof (induction ds arbitrary: i prefix_sum tmp)
  case (Cons d ds)
  show ?case using Cons.IH [of "i + 1" "fl_add F64 prefix_sum (fl_conv F64 d)" i] by (auto simp: Let_def)
qed simp

lemma distances_to_ok:
  "p < n \<Longrightarrow> n * cols \<le> length data \<Longrightarrow> distances_to data n cols p
     = Inr (map (\<lambda>i. calc_distance (take cols (drop (i * cols) data)) (take cols (drop (p * cols) data))) [0..<n])"
  unfolding distances_to_def by (rule mapR_total) (simp add: row_at_in)

text \<open>The rows filled so far are the picked points.\<close>

definition picks_ok :: "fl list \<Rightarrow> nat \<Rightarrow> nat \<Rightarrow> nat \<Rightarrow> pp_state \<Rightarrow> bool" where
  "picks_ok data n cols L s \<longleftrightarrow> length (pp_pivots s) = L \<and> length (pp_dist s) = n \<and> (\<forall>p \<in> set (pp_picked s). p < n)
     \<and> (\<forall>j < length (pp_picked s). row_at (pp_pivots s) cols j = row_at data cols (pp_picked s ! j))"

lemma put_pivot:
  assumes "\<forall>j < length ps. row_at pivots cols j = row_at data cols (ps ! j)" "Suc (length ps) * cols \<le> length pivots"
    and t: "t < n" "n * cols \<le> length data"
  shows "\<exists>pivots'. mem_put pivots (length ps * cols) (take cols (drop (t * cols) data)) = Inr pivots' \<and> length pivots' = length pivots
     \<and> (\<forall>j < Suc (length ps). row_at pivots' cols j = row_at data cols ((ps @ [t]) ! j))"
proof -
  let ?r = "take cols (drop (t * cols) data)"
  have "Suc t * cols \<le> n * cols" using t(1) by (intro mult_le_mono1) simp
  then have len: "length ?r = cols" using t(2) by simp
  then obtain pivots' where p: "mem_put pivots (length ps * cols) ?r = Inr pivots'" using assms(2) by (simp add: mem_put_def add.commute)
  have "row_at pivots' cols j = row_at data cols ((ps @ [t]) ! j)" if "j < Suc (length ps)" for j
  proof (cases "j = length ps")
    case True
    then show ?thesis using mem_get_put_same [OF p] row_at_in [OF t] len by (simp add: row_at_def)
  next
    case False
    then have j: "j < length ps" using that by simp
    then have "Suc j * cols \<le> length ps * cols" by (intro mult_le_mono1) simp
    then have "row_at pivots' cols j = row_at pivots cols j" unfolding row_at_def by (intro mem_get_put_other [OF p] disjI1) simp
    then show ?thesis using assms(1) j by (simp add: nth_append)
  qed
  then show ?thesis using p mem_put_length [OF p] by blast
qed

lemma throw_dart_ok:
  assumes inv: "picks_ok data n cols L s" and sizes: "0 < n" "n * cols \<le> length data" "Suc (length (pp_picked s)) * cols \<le> L"
  shows "\<exists>s'. throw_dart data n cols dart s = Inr s' \<and> picks_ok data n cols L s'
     \<and> (pp_picked s' = pp_picked s \<and> \<not> pp_sum_flag s' \<or> length (pp_picked s') = Suc (length (pp_picked s)))"
proof -
  let ?sum = "fold (\<lambda>d t. fl_add F64 t (fl_conv F64 d)) (pp_dist s) (Fin 0)"
  let ?s1 = "if fl_eq ?sum (Fin 0) then s\<lparr>pp_sum_flag := True\<rparr> else s"
  let ?t = "dart_pivot (fl_mul F64 dart ?sum) (pp_dist s) 0 (Fin 0) 0"
  have I: "length (pp_pivots s) = L" "length (pp_dist s) = n" "\<forall>p \<in> set (pp_picked s). p < n"
     "\<forall>j < length (pp_picked s). row_at (pp_pivots s) cols j = row_at data cols (pp_picked s ! j)"
 using inv by (simp_all add: picks_ok_def)
  have s1: "pp_picked ?s1 = pp_picked s" "pp_pivots ?s1 = pp_pivots s" "pp_dist ?s1 = pp_dist s" by simp_all
  have t: "?t < n" using dart_pivot_range [of "fl_mul F64 dart ?sum" "pp_dist s" 0 "Fin 0" 0] I(2) sizes(1) by auto
  show ?thesis
  proof (cases "?t \<in> set (pp_picked s) \<and> \<not> pp_sum_flag ?s1")
    case True
    then have "throw_dart data n cols dart s = Inr ?s1" by (simp add: throw_dart_def Let_def)
    moreover have "picks_ok data n cols L ?s1" using inv by (auto simp: picks_ok_def)
    ultimately show ?thesis using True s1 by blast
  next
    case False
    have "Suc (length (pp_picked s)) * cols \<le> length (pp_pivots s)" using sizes(3) I(1) by simp
    from put_pivot [OF I(4) this t sizes(2)] obtain pivots' where
      p: "mem_put (pp_pivots s) (length (pp_picked s) * cols) (take cols (drop (?t * cols) data)) = Inr pivots'" "length pivots' = length (pp_pivots s)"
         "\<forall>j < Suc (length (pp_picked s)). row_at pivots' cols j = row_at data cols ((pp_picked s @ [?t]) ! j)" by blast
    let ?ds = "map (\<lambda>i. calc_distance (take cols (drop (i * cols) data)) (take cols (drop (?t * cols) data))) [0..<n]"
    let ?s' = "?s1\<lparr>pp_picked := pp_picked s @ [?t], pp_pivots := pivots', pp_dist := map2 nearer (pp_dist s) ?ds\<rparr>"
    have "throw_dart data n cols dart s = Inr ?s'"
      using False p(1) s1 row_at_in [OF t sizes(2)] distances_to_ok [OF t sizes(2)]
      unfolding throw_dart_def Let_def by (simp only: if_False s1 bindR_simps)
    moreover have "picks_ok data n cols L ?s'" using p(2,3) I t False by (auto simp: picks_ok_def)
    ultimately show ?thesis by (intro exI [of _ ?s']) simp
  qed
qed

lemma pick_pivots_ok:
  assumes sizes: "0 < n" "n * cols \<le> length data" "nc * cols \<le> L"
  shows "picks_ok data n cols L s \<Longrightarrow> length (pp_picked s) \<le> nc \<Longrightarrow> pick_pivots fuel t data n cols darts nc s = Inl OutOfFuel
     \<or> (\<exists>s'. pick_pivots fuel t data n cols darts nc s = Inr s' \<and> picks_ok data n cols L s' \<and> length (pp_picked s') = nc)"
proof (induction fuel arbitrary: t s)
  case 0
  then show ?case by (simp add: pick_pivots.simps)
next
  case (Suc fuel)
  show ?case
  proof (cases "length (pp_picked s) < nc")
    case False
    then show ?thesis using Suc.prems by (simp add: pick_pivots.simps)
  next
    case True
    then have "Suc (length (pp_picked s)) * cols \<le> nc * cols" by (intro mult_le_mono1) simp
    then have "Suc (length (pp_picked s)) * cols \<le> L" using sizes(3) by simp
    from throw_dart_ok [OF Suc.prems(1) sizes(1,2) this] obtain s' where
      s': "throw_dart data n cols (darts t) s = Inr s'" "picks_ok data n cols L s'" "length (pp_picked s') \<le> nc" using True by force
    from Suc.IH [OF s'(2,3)] show ?thesis using True s'(1) by (simp add: pick_pivots.simps [of "Suc fuel"])
  qed
qed

lemma same_points_distance: "\<forall>x \<in> set v. \<exists>q. x = Fin q \<Longrightarrow> calc_distance v v = Fin 0"
proof -
  assume v: "\<forall>x \<in> set v. \<exists>q. x = Fin q"
  have "fold (\<lambda>(a, b) dist. fl_add F32 dist (fl_mul F32 (fl_sub F32 a b) (fl_sub F32 a b))) (zip v v) (Fin 0) = Fin 0"
    using v by (induction v) (auto simp: fl_sub_def)
  then show ?thesis by (simp add: calc_distance_def)
qed

lemma zero_sum [simp]: "((\<lambda>t. fl_add F64 t (Fin 0)) ^^ n) (Fin 0) = Fin 0"
  by (induction n) simp_all

text \<open>When all points are the same, the sum is zero from the start and every dart is used.\<close>

lemma throw_dart_same:
  assumes same: "\<forall>i < n. take cols (drop (i * cols) data) = v" "\<forall>x \<in> set v. \<exists>q. x = Fin q"
    and inv: "picks_ok data n cols L s" "pp_dist s = replicate n (Fin 0)"
    and sizes: "0 < n" "n * cols \<le> length data" "Suc (length (pp_picked s)) * cols \<le> L"
  shows "\<exists>s'. throw_dart data n cols dart s = Inr s' \<and> picks_ok data n cols L s' \<and> pp_dist s' = replicate n (Fin 0)
     \<and> length (pp_picked s') = Suc (length (pp_picked s))"
proof -
  from throw_dart_ok [OF inv(1) sizes, of dart] obtain s' where s': "throw_dart data n cols dart s = Inr s'" "picks_ok data n cols L s'"
    "pp_picked s' = pp_picked s \<and> \<not> pp_sum_flag s' \<or> length (pp_picked s') = Suc (length (pp_picked s))" by blast
  let ?t = "dart_pivot (fl_mul F64 dart (Fin 0)) (replicate n (Fin 0)) 0 (Fin 0) 0"
  have t: "?t < n" using dart_pivot_range [of "fl_mul F64 dart (Fin 0)" "replicate n (Fin 0)" 0 "Fin 0" 0] sizes(1) by auto
  have "distances_to data n cols ?t = Inr (replicate n (Fin 0))"
    unfolding distances_to_ok [OF t sizes(2)]
    using same(1) t same_points_distance [OF same(2)] by (intro arg_cong [where f = Inr] nth_equalityI) simp_all
  then have "pp_sum_flag s' \<and> pp_dist s' = replicate n (Fin 0)"
    using s'(1) inv(2) by (auto simp: throw_dart_def Let_def zero_sum bindR_eq_Inr nearer_def zip_replicate)
  then show ?thesis using s' by blast
qed

lemma pick_pivots_same:
  assumes same: "\<forall>i < n. take cols (drop (i * cols) data) = v" "\<forall>x \<in> set v. \<exists>q. x = Fin q"
    and sizes: "0 < n" "n * cols \<le> length data" "nc * cols \<le> L"
  shows "picks_ok data n cols L s \<Longrightarrow> pp_dist s = replicate n (Fin 0) \<Longrightarrow> nc \<le> length (pp_picked s) + fuel \<Longrightarrow>
     pick_pivots fuel t data n cols darts nc s \<noteq> Inl OutOfFuel"
proof (induction fuel arbitrary: t s)
  case 0
  then show ?case by (simp add: pick_pivots.simps)
next
  case (Suc fuel)
  show ?case
  proof (cases "length (pp_picked s) < nc")
    case True
    then have "Suc (length (pp_picked s)) * cols \<le> nc * cols" by (intro mult_le_mono1) simp
    then have "Suc (length (pp_picked s)) * cols \<le> L" using sizes(3) by simp
    from throw_dart_same [OF same Suc.prems(1,2) sizes(1,2) this] obtain s' where s': "throw_dart data n cols (darts t) s = Inr s'"
      "picks_ok data n cols L s'" "pp_dist s' = replicate n (Fin 0)" "length (pp_picked s') = Suc (length (pp_picked s))" by blast
    then show ?thesis using Suc.IH [OF s'(2,3)] Suc.prems(3) True by (simp add: pick_pivots.simps [of "Suc fuel"])
  qed (simp add: pick_pivots.simps)
qed

lemma kmeanspp_library:
  assumes sizes: "0 < n" "n \<le> 2 ^ 23" "0 < nc" "n * cols \<le> length data" "nc * cols \<le> length pivot_data" and draws: "draws 0 < n"
    and r: "r = kmeanspp_selecting_pivots fuel data n cols draws darts pivot_data nc"
  shows "(r = Inl OutOfFuel \<or> (\<exists>p picked. r = Inr p \<and> length p = length pivot_data \<and> length picked = nc
          \<and> (\<forall>j < nc. picked ! j < n \<and> row_at p cols j = row_at data cols (picked ! j))))
     \<and> ((\<exists>v. (\<forall>i < n. take cols (drop (i * cols) data) = v) \<and> (\<forall>x \<in> set v. \<exists>q. x = Fin q)) \<and> nc \<le> fuel + 1 \<longrightarrow> r \<noteq> Inl OutOfFuel)"
proof -
  have "Suc 0 * cols \<le> nc * cols" using sizes(3) by (intro mult_le_mono1) simp
  then have one: "Suc (length ([]::nat list)) * cols \<le> length pivot_data" using sizes(5) by (metis le_trans list.size(3))
  obtain p where p: "mem_put pivot_data 0 (take cols (drop (draws 0 * cols) data)) = Inr p" "length p = length pivot_data"
      "row_at p cols 0 = row_at data cols (draws 0)"
    using put_pivot [of "[]" pivot_data cols data, OF _ one draws sizes(4)] by auto
  let ?ds = "map (\<lambda>i. calc_distance (take cols (drop (i * cols) data)) (take cols (drop (draws 0 * cols) data))) [0..<n]"
  let ?s = "\<lparr>pp_picked = [draws 0], pp_pivots = p, pp_dist = ?ds, pp_sum_flag = False\<rparr>"
  have inv: "picks_ok data n cols (length pivot_data) ?s" using p draws by (simp add: picks_ok_def)
  have len: "length (pp_picked ?s) \<le> nc" using sizes(3) by simp
  have eq: "r = bindR (pick_pivots fuel 0 data n cols darts nc ?s) (\<lambda>s. Inr (pp_pivots s))"
    using sizes(2) draws p(1) row_at_in [OF draws sizes(4)] distances_to_ok [OF draws sizes(4)] by (simp add: r kmeanspp_selecting_pivots_def)
  note run = pick_pivots_ok [OF sizes(1,4,5) inv len, of fuel 0 darts]
  have "r = Inl OutOfFuel \<or> (\<exists>p picked. r = Inr p \<and> length p = length pivot_data \<and> length picked = nc
          \<and> (\<forall>j < nc. picked ! j < n \<and> row_at p cols j = row_at data cols (picked ! j)))" using run
  proof (elim disjE exE conjE)
    fix s' assume s': "pick_pivots fuel 0 data n cols darts nc ?s = Inr s'" "picks_ok data n cols (length pivot_data) s'" "length (pp_picked s') = nc"
    show ?thesis by (intro disjI2 exI [of _ "pp_pivots s'"] exI [of _ "pp_picked s'"]) (use s' eq in \<open>simp add: picks_ok_def\<close>)
  qed (simp add: eq)
  moreover have "r \<noteq> Inl OutOfFuel" if same: "\<forall>i < n. take cols (drop (i * cols) data) = v" "\<forall>x \<in> set v. \<exists>q. x = Fin q" and "nc \<le> fuel + 1" for v
  proof -
    have "pp_dist ?s = replicate n (Fin 0)" using same draws same_points_distance [OF same(2)]
      by (intro nth_equalityI) simp_all
    then have "pick_pivots fuel 0 data n cols darts nc ?s \<noteq> Inl OutOfFuel"
      by (rule pick_pivots_same [OF same sizes(1,4,5) inv]) (use that(3) in simp)
    then show ?thesis using eq run by auto
  qed
  ultimately show ?thesis by blast
qed



end
