(* ===== verification/Partition.thy ===== *)
theory Partition
  imports Kmeans
begin

text \<open>
  Sampling and sharding a base file, \<^verbatim>\<open>src/partition.cpp\<close>: random slices, the
  assignment of every point to its \<^verbatim>\<open>k_base\<close> nearest centers, the id maps and data files of the shards, and the search
  for a number of parts that fits a memory budget. Random numbers, BLAS and the orders of queues and threads are parameters,
  collected in a record; a file is the list of its bytes.
\<close>

section \<open>Parameters\<close>

text \<open>
  What k-means needs, the draws and darts per call, the fuel of the darts, and the numbers of the real
  distribution on \<open>[0, 1)\<close> per sampling call; \<open>pe_mutex\<close> is the size of the platform's mutex.
\<close>

record 'a part_env =
  pe_codec :: "'a codec"
  pe_float :: "'a \<Rightarrow> fl"
  pe_blas :: blas
  pe_drain :: "(nat \<times> fl) list \<Rightarrow> (nat \<times> fl) list"
  pe_order :: "nat list \<Rightarrow> nat list"
  pe_draws :: "nat \<Rightarrow> nat \<Rightarrow> nat"
  pe_darts :: "nat \<Rightarrow> nat \<Rightarrow> fl"
  pe_fuel :: nat
  pe_rnd :: "nat \<Rightarrow> nat \<Rightarrow> fl"
  pe_mutex :: nat

definition part_buffer :: nat where
  "part_buffer = 64 * 1024 * 1024"

definition BLOCK_SIZE :: nat where
  "BLOCK_SIZE = 5000000"

definition div_round_up :: "nat \<Rightarrow> nat \<Rightarrow> nat" where
  "div_round_up x y = x div y + (if x mod y \<noteq> 0 then 1 else 0)"

definition next_uint :: "cached_in \<Rightarrow> (nat \<times> cached_in) result" where
  "next_uint r = bindR (ci_read r 4) (\<lambda>(b, r'). Inr (le_value b, r'))"

section \<open>Random slices\<close>

text \<open>The slice written to a data file and an id file; a row stays bytes.\<close>

definition sample_row ::
  "nat \<Rightarrow> (nat \<Rightarrow> fl) \<Rightarrow> fl \<Rightarrow> nat \<Rightarrow> cached_in \<times> byte list \<times> byte list \<times> nat \<Rightarrow> (cached_in \<times> byte list \<times> byte list \<times> nat) result" where
  "sample_row w rnd sampling_rate i = (\<lambda>(rd, dat, ids, cnt).
     bindR (ci_read rd w) (\<lambda>(row, rd').
       Inr (if fl_lt (rnd i) sampling_rate
            then (rd', dat @ row, ids @ le_bytes 4 (u32 i), u32_add cnt 1)
            else (rd', dat, ids, cnt))))"

definition gen_random_slice_files ::
  "'a codec \<Rightarrow> (nat \<Rightarrow> fl) \<Rightarrow> byte list \<Rightarrow> fl \<Rightarrow> (byte list \<times> byte list) result" where
  "gen_random_slice_files C rnd base_file sampling_rate =
     bindR (next_uint (ci_open base_file part_buffer)) (\<lambda>(npts, r1).
     bindR (next_uint r1) (\<lambda>(nd, r2).
     bindR (foldR (sample_row (cd_size C * nd) rnd sampling_rate) [0..<npts]
              (r2, bin_header 0 nd, bin_header 0 1, 0)) (\<lambda>(_, dat, ids, cnt).
       Inr (overwrite 0 (le_bytes 4 cnt) dat, overwrite 0 (le_bytes 4 cnt) ids))))"

text \<open>The slice as floats, from a file and from a matrix in memory.\<close>

definition cap_rate :: "fl \<Rightarrow> fl" where
  "cap_rate p_val = (if fl_lt p_val (Fin 1) then p_val else Fin 1)"

definition sample_file_row ::
  "'a codec \<Rightarrow> ('a \<Rightarrow> fl) \<Rightarrow> nat \<Rightarrow> (nat \<Rightarrow> fl) \<Rightarrow> fl \<Rightarrow> nat \<Rightarrow> cached_in \<times> fl list list \<Rightarrow> (cached_in \<times> fl list list) result" where
  "sample_file_row C to_float ndims rnd p_val i = (\<lambda>(rd, rows).
     bindR (ci_read rd (ndims * cd_size C)) (\<lambda>(b, rd').
       Inr (rd', if fl_lt (rnd i) p_val then rows @ [map (\<lambda>e. to_float (cd_dec C e)) (split_chunks (cd_size C) ndims b)] else rows)))"

definition gen_random_slice_file ::
  "'a codec \<Rightarrow> ('a \<Rightarrow> fl) \<Rightarrow> (nat \<Rightarrow> fl) \<Rightarrow> byte list \<Rightarrow> fl \<Rightarrow> (fl list \<times> nat \<times> nat) result" where
  "gen_random_slice_file C to_float rnd data_file p_val =
     bindR (next_uint (ci_open data_file part_buffer)) (\<lambda>(npts, r1).
     bindR (next_uint r1) (\<lambda>(ndims, r2).
     bindR (foldR (sample_file_row C to_float ndims rnd (cap_rate p_val)) [0..<npts] (r2, [])) (\<lambda>(_, rows).
       Inr (concat rows, length rows, ndims))))"

definition gen_random_slice_mem ::
  "('a \<Rightarrow> fl) \<Rightarrow> (nat \<Rightarrow> fl) \<Rightarrow> 'a list \<Rightarrow> nat \<Rightarrow> nat \<Rightarrow> fl \<Rightarrow> (fl list \<times> nat) result" where
  "gen_random_slice_mem to_float rnd inputdata npts ndims p_val =
     bindR (foldR (\<lambda>i rows. if fl_lt (rnd i) (cap_rate p_val)
              then bindR (row_at inputdata ndims i) (\<lambda>v. Inr (rows @ [map to_float v])) else Inr rows) [0..<npts] []) (\<lambda>rows.
       Inr (concat rows, length rows))"

section \<open>Assigning points to centers\<close>

text \<open>
  The centers of a block of points. With more centers asked for than there are, nothing is written and the callers
  read uninitialised ids.
\<close>

definition block_centers ::
  "'a part_env \<Rightarrow> fl list \<Rightarrow> nat \<Rightarrow> nat \<Rightarrow> fl list \<Rightarrow> nat \<Rightarrow> nat \<Rightarrow> nat list \<Rightarrow> nat list result" where
  "block_centers E data n dm pivots num_centers k_base buf =
     (if num_centers < k_base then Inl UndefinedBehaviour
      else bindR (compute_closest_centers (pe_blas E) (pe_drain E) (pe_order E) data n dm pivots num_centers k_base None (buf, None))
        (\<lambda>(ivf, _). Inr ivf))"

text \<open>\<^verbatim>\<open>DIV_ROUND_UP\<close> by a block size of zero, when there are no points.\<close>

definition estimate_cluster_sizes ::
  "'a part_env \<Rightarrow> fl list \<Rightarrow> nat \<Rightarrow> fl list \<Rightarrow> nat \<Rightarrow> nat \<Rightarrow> nat \<Rightarrow> nat list result" where
  "estimate_cluster_sizes E test_data num_test pivots num_centers test_dim k_base =
     (let block_size = (if num_test \<le> BLOCK_SIZE then num_test else BLOCK_SIZE) in
      if block_size = 0 then Inl UndefinedBehaviour
      else bindR (foldR (\<lambda>block (buf, counts).
             let start_id = block * block_size; end_id = min ((block + 1) * block_size) num_test; cur_blk_size = end_id - start_id in
             bindR (mem_get test_data (start_id * test_dim) (cur_blk_size * test_dim)) (\<lambda>block_data.
             bindR (block_centers E block_data cur_blk_size test_dim pivots num_centers k_base buf) (\<lambda>buf'.
             bindR (foldR (\<lambda>p. foldR (\<lambda>p1 counts.
                      bindR (vec_at buf' (p * k_base + p1)) (\<lambda>shard_id.
                      bindR (vec_at counts shard_id) (\<lambda>c. vec_put counts shard_id (c + 1)))) [0..<k_base]) [0..<cur_blk_size] counts) (\<lambda>counts'.
               Inr (buf', counts')))))
             [0..<div_round_up num_test block_size] (replicate (block_size * k_base) 0, replicate num_centers 0)) (\<lambda>(_, counts).
           Inr (map u32 counts)))"

text \<open>The streams of one shard: its data file, its id map, and the number of its points.\<close>

record shard_out =
  so_data :: "byte list"
  so_ids :: "byte list"
  so_count :: nat

definition put_in_shard :: "nat list \<Rightarrow> byte list \<Rightarrow> nat \<Rightarrow> nat \<Rightarrow> nat \<Rightarrow> nat \<Rightarrow> nat \<Rightarrow> shard_out list \<Rightarrow> shard_out list result" where
  "put_in_shard closest block_data w start_id k_base p p1 shards =
     bindR (vec_at closest (p * k_base + p1)) (\<lambda>shard_id.
     bindR (vec_at shards shard_id) (\<lambda>s.
       vec_put shards shard_id (s\<lparr>so_data := so_data s @ take w (drop (p * w) block_data),
         so_ids := so_ids s @ le_bytes 4 (u32 (start_id + p)), so_count := so_count s + 1\<rparr>)))"

definition shard_block ::
  "'a part_env \<Rightarrow> fl list \<Rightarrow> nat \<Rightarrow> nat \<Rightarrow> nat \<Rightarrow> nat \<Rightarrow> nat \<Rightarrow> nat \<Rightarrow> cached_in \<times> nat list \<times> shard_out list
     \<Rightarrow> (cached_in \<times> nat list \<times> shard_out list) result" where
  "shard_block E pivots num_centers dm k_base num_points block_size block = (\<lambda>(rd, buf, shards).
     let start_id = block * block_size; end_id = min ((block + 1) * block_size) num_points; cur_blk_size = end_id - start_id;
         sz = cd_size (pe_codec E) in
     bindR (ci_read rd (sz * (cur_blk_size * dm))) (\<lambda>(block_data, rd').
     let block_float = map (\<lambda>e. pe_float E (cd_dec (pe_codec E) e)) (split_chunks sz (cur_blk_size * dm) block_data) in
     bindR (block_centers E block_float cur_blk_size dm pivots num_centers k_base buf) (\<lambda>buf'.
     bindR (foldR (\<lambda>p. foldR (put_in_shard buf' block_data (sz * dm) start_id k_base p) [0..<k_base]) [0..<cur_blk_size] shards) (\<lambda>shards'.
       Inr (rd', buf', shards')))))"

definition finish_shard :: "shard_out \<Rightarrow> shard_out" where
  "finish_shard s = s\<lparr>so_data := overwrite 0 (le_bytes 4 (u32 (so_count s))) (so_data s),
     so_ids := overwrite 0 (le_bytes 4 (u32 (so_count s))) (so_ids s)\<rparr>"

text \<open>The files of all shards, or the return value -1 (\<open>None\<close>) when the dimensions differ.\<close>

definition shard_data_into_clusters ::
  "'a part_env \<Rightarrow> byte list \<Rightarrow> fl list \<Rightarrow> nat \<Rightarrow> nat \<Rightarrow> nat \<Rightarrow> shard_out list option result" where
  "shard_data_into_clusters E data_file pivots num_centers dm k_base =
     bindR (next_uint (ci_open data_file part_buffer)) (\<lambda>(num_points, r1).
     bindR (next_uint r1) (\<lambda>(basedim, r2).
     if basedim \<noteq> dm then Inr None
     else let block_size = (if num_points \<le> BLOCK_SIZE then num_points else BLOCK_SIZE) in
       if block_size = 0 then Inl UndefinedBehaviour
       else bindR (foldR (shard_block E pivots num_centers dm k_base num_points block_size) [0..<div_round_up num_points block_size]
                (r2, replicate (block_size * k_base) 0,
                 replicate num_centers \<lparr>so_data = bin_header 0 basedim, so_ids = bin_header 0 1, so_count = 0\<rparr>)) (\<lambda>(_, _, shards).
              Inr (Some (map finish_shard shards)))))"

text \<open>The variant that writes the id maps only is the same code without the data streams.\<close>

definition shard_data_into_clusters_only_ids ::
  "'a part_env \<Rightarrow> byte list \<Rightarrow> fl list \<Rightarrow> nat \<Rightarrow> nat \<Rightarrow> nat \<Rightarrow> byte list list option result" where
  "shard_data_into_clusters_only_ids E data_file pivots num_centers dm k_base =
     bindR (shard_data_into_clusters E data_file pivots num_centers dm k_base) (\<lambda>r. Inr (map_option (map so_ids) r))"

section \<open>The data of one shard\<close>

fun retrieve_rows :: "nat list \<Rightarrow> byte list \<Rightarrow> nat \<Rightarrow> nat \<Rightarrow> nat list \<Rightarrow> nat \<times> nat \<times> byte list \<Rightarrow> (nat \<times> nat \<times> byte list) result" where
  "retrieve_rows shard_ids block_data w start_id [] st = Inr st"
| "retrieve_rows shard_ids block_data w start_id (p # ps) (cur_pos, num_written, out) =
     (if cur_pos = length shard_ids then Inr (cur_pos, num_written, out)
      else if u32 (start_id + p) = shard_ids ! cur_pos
           then retrieve_rows shard_ids block_data w start_id ps
                  (u32_add cur_pos 1, u32_add num_written 1, out @ take w (drop (p * w) block_data))
           else retrieve_rows shard_ids block_data w start_id ps (cur_pos, num_written, out))"

fun retrieve_blocks ::
  "nat list \<Rightarrow> nat \<Rightarrow> nat \<Rightarrow> nat \<Rightarrow> nat list \<Rightarrow> cached_in \<times> nat \<times> nat \<times> byte list \<Rightarrow> (cached_in \<times> nat \<times> nat \<times> byte list) result" where
  "retrieve_blocks shard_ids w num_points block_size [] st = Inr st"
| "retrieve_blocks shard_ids w num_points block_size (block # blocks) (rd, st) =
     (let start_id = block * block_size; end_id = min ((block + 1) * block_size) num_points; cur_blk_size = end_id - start_id in
      bindR (ci_read rd (w * cur_blk_size)) (\<lambda>(block_data, rd').
      bindR (retrieve_rows shard_ids block_data w start_id [0..<cur_blk_size] st) (\<lambda>st'.
        if fst st' = length shard_ids then Inr (rd', st')
        else retrieve_blocks shard_ids w num_points block_size blocks (rd', st'))))"

definition retrieve_shard_data_from_ids :: "'a codec \<Rightarrow> byte list \<Rightarrow> byte list \<Rightarrow> byte list result" where
  "retrieve_shard_data_from_ids C data_file idmap_file =
     bindR (next_uint (ci_open data_file part_buffer)) (\<lambda>(num_points, r1).
     bindR (next_uint r1) (\<lambda>(dm, r2).
     bindR (load_bin u32_codec idmap_file 0) (\<lambda>(shard_ids, shard_size, tmp).
     if length shard_ids < shard_size then Inl UndefinedBehaviour
     else let block_size = (if num_points \<le> BLOCK_SIZE then num_points else BLOCK_SIZE) in
       if block_size = 0 then Inl UndefinedBehaviour
       else bindR (retrieve_blocks (take shard_size shard_ids) (cd_size C * dm) num_points block_size [0..<div_round_up num_points block_size]
                (r2, 0, 0, bin_header 0 dm)) (\<lambda>(_, _, num_written, out). Inr (overwrite 0 (le_bytes 4 num_written) out)))))"

section \<open>Choosing the centers\<close>

text \<open>The pivots of one attempt: k-means++ and Lloyd's iterations on the training sample.\<close>

definition part_pivots :: "'a part_env \<Rightarrow> nat \<Rightarrow> fl list \<Rightarrow> nat \<Rightarrow> nat \<Rightarrow> nat \<Rightarrow> nat \<Rightarrow> fl list result" where
  "part_pivots E attempt train num_train train_dim num_parts max_k_means_reps =
     bindR (kmeanspp_selecting_pivots (pe_fuel E) train num_train train_dim (pe_draws E attempt) (pe_darts E attempt)
              (replicate (num_parts * train_dim) (Fin 0)) num_parts) (\<lambda>pivots.
     bindR (run_lloyds (pe_blas E) (pe_order E) train num_train train_dim pivots num_parts max_k_means_reps (replicate num_train 0)) (\<lambda>cl.
       Inr (cl_centers cl)))"

text \<open>The result: the centroid file and the shards.\<close>

definition partition_file ::
  "'a part_env \<Rightarrow> fl codec \<Rightarrow> byte list \<Rightarrow> fl \<Rightarrow> nat \<Rightarrow> nat \<Rightarrow> nat \<Rightarrow> (byte list \<times> shard_out list option) result" where
  "partition_file E F data_file sampling_rate num_parts max_k_means_reps k_base =
     bindR (gen_random_slice_file (pe_codec E) (pe_float E) (pe_rnd E 0) data_file sampling_rate) (\<lambda>(train, num_train, train_dim).
     bindR (part_pivots E 0 train num_train train_dim num_parts max_k_means_reps) (\<lambda>pivots.
     bindR (save_bin F [] pivots num_parts train_dim 0) (\<lambda>(centroids, _).
     bindR (shard_data_into_clusters E data_file pivots num_parts train_dim k_base) (\<lambda>shards.
       Inr (centroids, shards)))))"

definition estimate_ram_usage :: "nat \<Rightarrow> nat \<Rightarrow> nat \<Rightarrow> nat \<Rightarrow> nat \<Rightarrow> fl" where
  "estimate_ram_usage mutex num dm datasize degree =
     (let sz = f64 (of_nat num);
          size_of_data = fl_mul F64 (fl_mul F64 sz (f64 (of_nat (round_up dm 8)))) (f64 (of_nat datasize));
          size_of_graph = fl_mul F64 (fl_mul F64 (fl_mul F64 sz (f64 (of_nat degree))) (f64 4)) (f32 (13 / 10));
          size_of_locks = fl_mul F64 sz (f64 (of_nat mutex));
          size_of_outer_vector = fl_mul F64 sz (f64 8)
      in fl_mul F64 (f64 (11 / 10)) (fl_add F64 (fl_add F64 (fl_add F64 size_of_data size_of_graph) size_of_locks) size_of_outer_vector))"

text \<open>\<^verbatim>\<open>(uint64_t)\<close> of a \<^verbatim>\<open>double\<close>.\<close>

fun double_to_u64 :: "fl \<Rightarrow> nat result" where
  "double_to_u64 (Fin q) = (if -1 < q \<and> q < 2 ^ 64 then Inr (nat \<lfloor>q\<rfloor>) else Inl UndefinedBehaviour)"
| "double_to_u64 x = Inl UndefinedBehaviour"

definition max_shard_ram :: "'a part_env \<Rightarrow> fl \<Rightarrow> nat \<Rightarrow> nat \<Rightarrow> nat list \<Rightarrow> fl result" where
  "max_shard_ram E sampling_rate train_dim graph_degree cluster_sizes =
     foldR (\<lambda>p max_ram_usage.
       bindR (double_to_u64 (fl_div F64 (f64 (of_nat p)) sampling_rate)) (\<lambda>p'.
       let est = estimate_ram_usage (pe_mutex E) p' (u32 train_dim) (cd_size (pe_codec E)) (u32 graph_degree) in
         Inr (if fl_lt max_ram_usage est then est else max_ram_usage))) cluster_sizes (Fin 0)"

fun fit_parts ::
  "nat \<Rightarrow> 'a part_env \<Rightarrow> nat \<Rightarrow> fl list \<times> nat \<times> nat \<Rightarrow> fl list \<times> nat \<Rightarrow> fl \<Rightarrow> fl \<Rightarrow> nat \<Rightarrow> nat \<Rightarrow> nat \<Rightarrow> (fl list \<times> nat) result" where
  "fit_parts 0 E attempt train test sampling_rate ram_budget graph_degree k_base num_parts = Inl OutOfFuel"
| "fit_parts (Suc fuel) E attempt train test sampling_rate ram_budget graph_degree k_base num_parts =
     (let (train_data, num_train, train_dim) = train; (test_data, num_test) = test in
      bindR (part_pivots E attempt train_data num_train train_dim num_parts 10) (\<lambda>pivots.
      bindR (estimate_cluster_sizes E test_data num_test pivots num_parts train_dim k_base) (\<lambda>sizes.
      bindR (max_shard_ram E sampling_rate train_dim graph_degree sizes) (\<lambda>max_ram_usage.
        if fl_lt (fl_mul F64 (f64 (2 ^ 30)) ram_budget) max_ram_usage
        then fit_parts fuel E (attempt + 1) train test sampling_rate ram_budget graph_degree k_base (num_parts + 2)
        else Inr (pivots, num_parts)))))"

definition partition_with_ram_budget ::
  "nat \<Rightarrow> 'a part_env \<Rightarrow> fl codec \<Rightarrow> byte list \<Rightarrow> fl \<Rightarrow> fl \<Rightarrow> nat \<Rightarrow> nat \<Rightarrow> (nat \<times> byte list \<times> byte list list option) result" where
  "partition_with_ram_budget fuel E F data_file sampling_rate ram_budget graph_degree k_base0 =
     (let k_base = min k_base0 3 in
      bindR (gen_random_slice_file (pe_codec E) (pe_float E) (pe_rnd E 0) data_file sampling_rate) (\<lambda>(train, num_train, train_dim).
      bindR (gen_random_slice_file (pe_codec E) (pe_float E) (pe_rnd E 1) data_file sampling_rate) (\<lambda>(test, num_test, test_dim).
      bindR (fit_parts fuel E 0 (train, num_train, train_dim) (test, num_test) sampling_rate ram_budget graph_degree k_base 3) (\<lambda>(pivots, num_parts).
      bindR (save_bin F [] pivots num_parts train_dim 0) (\<lambda>(centroids, _).
      bindR (shard_data_into_clusters_only_ids E data_file pivots num_parts train_dim k_base) (\<lambda>ids.
        Inr (num_parts, centroids, ids)))))))"

section \<open>The k nearest centers\<close>

text \<open>The ids the priority queue gives first.\<close>

definition first_centers :: "((nat \<times> fl) list \<Rightarrow> (nat \<times> fl) list) \<Rightarrow> nat \<Rightarrow> fl list \<Rightarrow> nat list" where
  "first_centers drain k row = map fst (take k (drain (enumerate 0 row)))"

lemma first_centers_spec:
  assumes "\<And>q. mset (drain q) = mset q" "k \<le> length row"
  shows "length (first_centers drain k row) = k" "distinct (first_centers drain k row)" "set (first_centers drain k row) \<subseteq> {..<length row}"
proof -
  have m: "mset (drain (enumerate 0 row)) = mset (enumerate 0 row)" by (rule assms(1))
  then have "length (drain (enumerate 0 row)) = length row" by (metis length_enumerate mset_eq_length)
  then show "length (first_centers drain k row) = k" using assms(2) by (simp add: first_centers_def)
  have "mset (map fst (drain (enumerate 0 row))) = mset (map fst (enumerate 0 row))" using m by (simp only: mset_map)
  then have f: "mset (map fst (drain (enumerate 0 row))) = mset [0..<length row]" by (simp only: map_fst_enumerate add_0)
  then have "distinct (map fst (drain (enumerate 0 row)))" by (metis distinct_upt mset_eq_imp_distinct_iff)
  then show "distinct (first_centers drain k row)" by (simp add: first_centers_def distinct_map_take)
  have "set (map fst (drain (enumerate 0 row))) = {..<length row}" using f by (metis atLeast_upt set_mset_mset)
  then show "set (first_centers drain k row) \<subseteq> {..<length row}" by (auto simp: first_centers_def dest: in_set_takeD)
qed

text \<open>A run of writes at consecutive places.\<close>

lemma put_run:
  "a + k \<le> length v \<Longrightarrow> foldR (\<lambda>l v. vec_put v (a + l) (f l)) [0..<k] v = Inr (take a v @ map f [0..<k] @ drop (a + k) v)"
proof (induction k)
  case (Suc k)
  have "vec_put (take a v @ map f [0..<k] @ drop (a + k) v) (a + k) (f k) = Inr (take a v @ map f [0..<Suc k] @ drop (a + Suc k) v)"
    using Suc.prems by (simp add: vec_put_def list_update_append Cons_nth_drop_Suc [symmetric])
  then show ?case using Suc by (simp add: foldR_append foldR_one)
qed simp

lemma nth_put_run:
  "a + length xs \<le> length v \<Longrightarrow> i < length v \<Longrightarrow> (take a v @ xs @ drop (a + length xs) v) ! i
     = (if a \<le> i \<and> i < a + length xs then xs ! (i - a) else v ! i)"
  by (auto simp: nth_append)

lemma foldR_enumerate: "foldR (\<lambda>(l, c). f l c) (enumerate 0 xs) = foldR (\<lambda>l. f l (xs ! l)) [0..<length xs]"
proof -
  have e: "enumerate 0 xs = map (\<lambda>l. (l, xs ! l)) [0..<length xs]"
    by (rule nth_equalityI) (simp_all add: nth_enumerate_eq)
  have "foldR (\<lambda>(l, c). f l c) (map (\<lambda>l. (l, xs ! l)) ls) s = foldR (\<lambda>l. f l (xs ! l)) ls s" for ls s
    by (induction ls arbitrary: s) (simp_all add: bindR_def split: sum.split)
  then show ?thesis by (simp add: e fun_eq_iff)
qed

lemma block_pos: "(l::nat) < k \<Longrightarrow> j * k \<le> y * k + l \<Longrightarrow> y * k + l < j * k + k \<Longrightarrow> y = j"
proof -
  assume l: "l < k" and "j * k \<le> y * k + l" "y * k + l < j * k + k"
  then have "(y * k + l) div k = j" by (intro div_nat_eqI) (simp_all add: mult.commute)
  then show ?thesis using l by simp
qed

lemma block_fits: "(j::nat) < n \<Longrightarrow> j * k + k \<le> n * k"
  using mult_le_mono1 [of "Suc j" n k] by simp

lemma in_block_k:
  assumes m: "m = center_distances bl data n cols centers nc docs_l2sq centers_l2sq dm" "length m = n * nc"
    and k: "2 \<le> k" "k \<le> nc" and d: "\<And>q. mset (drain q) = mset q"
  shows "compute_closest_centers_in_block bl drain data n cols centers nc docs_l2sq centers_l2sq (replicate (n * k) None) dm k
     = Inr (concat (map (\<lambda>i. map Some (first_centers drain k (take nc (drop (i * nc) m)))) [0..<n]), m)"
proof -
  let ?g = "\<lambda>i. map Some (first_centers drain k (take nc (drop (i * nc) m)))"
  let ?f = "\<lambda>i index. bindR (row_at m nc i) (\<lambda>current.
      foldR (\<lambda>(l, c) index. case c of None \<Rightarrow> Inr index | Some j \<Rightarrow> vec_put index (i * k + l) (Some j))
        (enumerate 0 (closest_of_row drain k current)) index)"
  have row: "?f i v = Inr (take (i * k) v @ ?g i @ drop (i * k + k) v)" if "i < n" "length v = n * k" for i v
  proof -
    let ?c = "first_centers drain k (take nc (drop (i * nc) m))"
    have "length (take nc (drop (i * nc) m)) = nc" using m(2) block_fits [OF that(1), of nc] by simp
    then have l: "length ?c = k" using first_centers_spec(1) [OF d] k by metis
    have "closest_of_row drain k (take nc (drop (i * nc) m)) = map Some ?c"
      using k by (simp add: closest_of_row_def first_centers_def case_prod_unfold)
    moreover have "foldR (\<lambda>(l, c) index. case c of None \<Rightarrow> Inr index | Some j \<Rightarrow> vec_put index (i * k + l) (Some j))
        (enumerate 0 (map Some ?c)) v = foldR (\<lambda>l v. vec_put v (i * k + l) (Some (?c ! l))) [0..<k] v"
      unfolding foldR_enumerate length_map l by (rule foldR_cong) (simp add: l)
    ultimately have "?f i v = foldR (\<lambda>l v. vec_put v (i * k + l) (Some (?c ! l))) [0..<k] v"
      using that m(2) row_at_in [of i n nc m] by simp
    also have "\<dots> = Inr (take (i * k) v @ map (\<lambda>l. Some (?c ! l)) [0..<k] @ drop (i * k + k) v)"
      using put_run [of "i * k" k v] block_fits [OF that(1), of k] that(2) by simp
    also have "map (\<lambda>l. Some (?c ! l)) [0..<k] = ?g i" by (rule nth_equalityI) (simp_all add: l)
    finally show ?thesis .
  qed
  have lg: "length (concat (map ?g [0..<i])) = i * k" if "i \<le> n" for i
  proof -
    have "length (?g j) = k" if "j < n" for j
    proof -
      have "length (take nc (drop (j * nc) m)) = nc" using m(2) block_fits [OF that, of nc] by simp
      then show ?thesis using first_centers_spec(1) [OF d] k by simp
    qed
    then show ?thesis using concat_map_length [of "[0..<i]" ?g k] that by simp
  qed
  have "foldR ?f [0..<i] (replicate (n * k) None) = Inr (concat (map ?g [0..<i]) @ drop (i * k) (replicate (n * k) None))" if "i \<le> n" for i
    using that
  proof (induction i)
    case (Suc i)
    let ?v = "concat (map ?g [0..<i]) @ drop (i * k) (replicate (n * k) None)"
    have "length ?v = n * k" using lg [of i] Suc.prems block_fits [of i n k] by simp
    then have "?f i ?v = Inr (take (i * k) ?v @ ?g i @ drop (i * k + k) ?v)" using row [of i ?v] Suc.prems by simp
    then show ?case using Suc lg [of i] by (simp add: foldR_append foldR_one add.commute)
  qed simp
  from this [of n] show ?thesis using k by (simp add: compute_closest_centers_in_block_def m(1) [symmetric] Let_def)
qed

lemma concat_nth_block:
  assumes "\<forall>i < n. length (g i) = k" "j < n" "l < k"
  shows "concat (map g [0..<n]) ! (j * k + l) = g j ! l"
proof -
  have "take k (drop (j * k) (concat (map g [0..<n]))) = map g [0..<n] ! j"
    by (rule concat_nth_chunk) (use assms in auto)
  moreover have "j * k + l < length (concat (map g [0..<n]))"
    using concat_map_length [of "[0..<n]" g k] assms block_fits [OF assms(2), of k] by simp
  moreover from this have "take k (drop (j * k) (concat (map g [0..<n]))) ! l = concat (map g [0..<n]) ! (j * k + l)"
    using assms(3) by simp
  ultimately have "concat (map g [0..<n]) ! (j * k + l) = map g [0..<n] ! j ! l" by simp
  then show ?thesis using assms(2) by simp
qed

lemma record_k:
  assumes cc: "\<forall>j < n. \<forall>l < k. cc ! (j * k + l) = Some (c j ! l)" "length cc = n * k"
    and c: "\<forall>j < n. length (c j) = k" and len: "n * k \<le> length ivf" and xs: "\<forall>j \<in> set xs. j < n"
  shows "\<exists>ivf'. foldR (\<lambda>j. foldR (record_center k 0 cc j) [0..<k]) xs (ivf, None) = Inr (ivf', None)
     \<and> length ivf' = length ivf \<and> (\<forall>j \<in> set xs. \<forall>l < k. ivf' ! (j * k + l) = c j ! l)"
proof -
  let ?P = "\<lambda>st :: nat list \<times> nat list list option. snd st = None \<and> length (fst st) = length ivf"
  let ?Q = "\<lambda>j (st :: nat list \<times> nat list list option). \<forall>l < k. fst st ! (j * k + l) = c j ! l \<or> n \<le> j"
  have row: "foldR (record_center k 0 cc j) [0..<k] (v, None) = Inr (take (j * k) v @ c j @ drop (j * k + k) v, None)"
    if j: "j < n" and v: "length v = length ivf" for j v
  proof -
    have "m \<le> k \<Longrightarrow> foldR (record_center k 0 cc j) [0..<m] (v, None) = bindR (foldR (\<lambda>l v. vec_put v (j * k + l) (c j ! l)) [0..<m] v) (\<lambda>v. Inr (v, None))" for m
    proof (induction m)
      case (Suc m)
      have "j * k + m < n * k" using Suc.prems block_fits [OF j, of k] by simp
      then show ?case using Suc cc j by (simp add: foldR_append foldR_one record_center_def bindR_assoc)
    qed simp
    from this [of k] have "foldR (record_center k 0 cc j) [0..<k] (v, None) = Inr (take (j * k) v @ map ((!) (c j)) [0..<k] @ drop (j * k + k) v, None)"
      using put_run [of "j * k" k v "(!) (c j)"] block_fits [OF j, of k] v len by simp
    moreover have "map ((!) (c j)) [0..<k] = c j" using c j by (metis map_nth)
    ultimately show ?thesis by simp
  qed
  have "\<exists>st'. foldR (\<lambda>j. foldR (record_center k 0 cc j) [0..<k]) xs (ivf, None) = Inr st' \<and> ?P st' \<and> (\<forall>j \<in> set xs. ?Q j st') \<and> (\<forall>j. ?Q j (ivf, None) \<longrightarrow> ?Q j st')"
  proof (rule foldR_establish)
    fix j st assume j: "j \<in> set xs" and st: "?P st"
    obtain v where v: "st = (v, None)" "length v = length ivf" using st by (cases st) auto
    have jn: "j < n" using j xs by blast
    have cj: "length (c j) = k" using c jn by blast
    let ?v = "take (j * k) v @ c j @ drop (j * k + k) v"
    have fit: "j * k + k \<le> length v" using block_fits [OF jn, of k] len v(2) by simp
    have nth: "?v ! (y * k + l) = (if y = j then c j ! l else v ! (y * k + l))" if "y < n" "l < k" for y l
    proof -
      have "y * k + l < length v" using block_fits [OF that(1), of k] that(2) len v(2) by simp
      then have "?v ! (y * k + l) = (if j * k \<le> y * k + l \<and> y * k + l < j * k + k then c j ! (y * k + l - j * k) else v ! (y * k + l))"
        using nth_put_run [of "j * k" "c j" v "y * k + l"] fit cj by simp
      then show ?thesis using block_pos [OF that(2), of j y] that(2) by auto
    qed
    have "foldR (record_center k 0 cc j) [0..<k] st = Inr (?v, None)" using row [OF jn v(2)] v(1) by simp
    moreover have "?P (?v, None)" using fit cj v(2) by simp
    moreover have "?Q j (?v, None)" using nth jn by simp
    moreover have "\<forall>y. ?Q y st \<longrightarrow> ?Q y (?v, None)" using nth v(1) by (metis fst_conv not_le)
    ultimately show "\<exists>s'. foldR (record_center k 0 cc j) [0..<k] st = Inr s' \<and> ?P s' \<and> ?Q j s' \<and> (\<forall>y. ?Q y st \<longrightarrow> ?Q y s')"
      by blast
  qed simp
  then obtain st' where st': "foldR (\<lambda>j. foldR (record_center k 0 cc j) [0..<k]) xs (ivf, None) = Inr st'" "?P st'" "\<forall>j \<in> set xs. ?Q j st'" by blast
  obtain ivf' where "st' = (ivf', None)" using st'(2) by (cases st') auto
  then show ?thesis using st' xs by (metis fst_conv linorder_not_less)
qed

definition gemm_shape :: "blas \<Rightarrow> bool" where
  "gemm_shape bl \<longleftrightarrow> (\<forall>ta tb m n k alpha A B beta C. length (sgemm bl ta tb m n k alpha A B beta C) = m * n)"

text \<open>Every point gets \<open>k\<close> different centers.\<close>

lemma compute_closest_k:
  assumes bl: "gemm_shape bl" and k: "2 \<le> k" "k \<le> nc" and d: "\<And>q. mset (drain q) = mset q"
    and sizes: "0 < n" "n * cols \<le> length data" "nc * cols \<le> length pivots" "n * k \<le> length ivf"
    and order: "\<And>xs. set (order xs) = set xs"
  shows "\<exists>ivf' c. compute_closest_centers bl drain order data n cols pivots nc k None (ivf, None) = Inr (ivf', None)
     \<and> length ivf' = length ivf
     \<and> (\<forall>j < n. length (c j) = k \<and> distinct (c j) \<and> set (c j) \<subseteq> {..<nc} \<and> (\<forall>l < k. ivf' ! (j * k + l) = c j ! l))"
proof -
  let ?m = "point_distances bl data n cols pivots nc (norms_of bl data n cols)"
  let ?c = "\<lambda>i. first_centers drain k (take nc (drop (i * nc) ?m))"
  let ?cc = "concat (map (\<lambda>i. map Some (?c i)) [0..<n])"
  have lm: "length ?m = n * nc" using bl by (simp add: point_distances_def center_distances_def gemm_shape_def Let_def)
  have lr: "length (take nc (drop (i * nc) ?m)) = nc" if "i < n" for i using lm block_fits [OF that, of nc] by simp
  have c: "length (?c i) = k \<and> distinct (?c i) \<and> set (?c i) \<subseteq> {..<nc}" if "i < n" for i
    using first_centers_spec [OF d, of k "take nc (drop (i * nc) ?m)"] lr [OF that] k(2) by simp
  have blk: "compute_closest_centers_in_block bl drain (take (n * cols) data) n cols pivots nc (take n (norms_of bl data n cols)) (norms_of bl pivots nc cols)
      (replicate (n * k) None) (replicate (nc * n) (Fin 0)) k = Inr (?cc, ?m)"
    by (rule in_block_k [OF _ lm k d]) (simp add: point_distances_def)
  have cc: "\<forall>j < n. \<forall>l < k. ?cc ! (j * k + l) = Some (?c j ! l)" "length ?cc = n * k"
    using concat_nth_block [of n "\<lambda>i. map Some (?c i)" k] concat_map_length [of "[0..<n]" "\<lambda>i. map Some (?c i)" k] c by simp_all
  obtain ivf' where r: "foldR (\<lambda>j. foldR (record_center k 0 ?cc j) [0..<k]) (order [0..<n]) (ivf, None) = Inr (ivf', None)"
     "length ivf' = length ivf" "\<forall>j \<in> set (order [0..<n]). \<forall>l < k. ivf' ! (j * k + l) = ?c j ! l"
    using record_k [OF cc, of ivf "order [0..<n]"] c sizes(4) order by (metis atLeastLessThan_iff atLeast_upt lessThan_iff)
  have "closest_block bl drain order data n cols pivots nc k (norms_of bl data n cols) (norms_of bl pivots nc cols) n 0
      ((replicate (n * k) None, replicate (nc * n) (Fin 0)), (ivf, None)) = Inr ((?cc, ?m), (ivf', None))"
    using blk r(1) sizes by (simp add: closest_block_def mem_get_def Let_def del: upt_Suc)
  then have "compute_closest_centers bl drain order data n cols pivots nc k None (ivf, None) = Inr (ivf', None)"
    using sizes k compute_vecs_l2sq_ok [OF sizes(2)] compute_vecs_l2sq_ok [OF sizes(3)]
    by (simp add: compute_closest_centers_def foldR_one Let_def del: upt_Suc) simp
  then show ?thesis using r c order by (intro exI [of _ ivf'] exI [of _ ?c]) simp
qed

section \<open>What the shards hold\<close>

text \<open>\<open>cl\<close> lists the centers of each point so far; a shard has the points that list it, in order.\<close>

definition members :: "nat list list \<Rightarrow> nat \<Rightarrow> nat list" where
  "members cl s = filter (\<lambda>x. s \<in> set (cl ! x)) [0..<length cl]"

definition shard_image :: "nat \<Rightarrow> byte list list \<Rightarrow> nat list \<Rightarrow> shard_out" where
  "shard_image dm rows ids = \<lparr>so_data = bin_header 0 dm @ concat (map ((!) rows) ids),
     so_ids = bin_header 0 1 @ le_array 4 ids, so_count = length ids\<rparr>"

definition assigned :: "nat \<Rightarrow> nat \<Rightarrow> nat list list \<Rightarrow> bool" where
  "assigned nc k cl \<longleftrightarrow> (\<forall>c \<in> set cl. length c = k \<and> distinct c \<and> set c \<subseteq> {..<nc})"

lemma members_snoc: "members (cl @ [c]) s = members cl s @ (if s \<in> set c then [length cl] else [])"
proof -
  have "filter (\<lambda>x. s \<in> set ((cl @ [c]) ! x)) [0..<length cl] = filter (\<lambda>x. s \<in> set (cl ! x)) [0..<length cl]"
    by (rule filter_cong) (simp_all add: nth_append)
  then show ?thesis by (simp add: members_def)
qed

lemma members_props:
  "sorted_wrt (<) (members cl s)" "set (members cl s) = {x. x < length cl \<and> s \<in> set (cl ! x)}" "length (members cl s) \<le> length cl"
proof -
  show "sorted_wrt (<) (members cl s)" by (simp add: members_def sorted_wrt_filter)
  show "set (members cl s) = {x. x < length cl \<and> s \<in> set (cl ! x)}" by (auto simp: members_def)
  show "length (members cl s) \<le> length cl" by (simp add: members_def) (metis diff_zero length_filter_le length_upt)
qed

text \<open>One point goes to the shards of its centers.\<close>

lemma put_point:
  assumes cc: "\<forall>l < k. closest ! (p * k + l) = c ! l" "p * k + k \<le> length closest" "length c = k" "distinct c" "set c \<subseteq> {..<length shards}"
    and row: "take w (drop (p * w) bd) = r"
  shows "foldR (put_in_shard closest bd w start k p) [0..<k] shards
     = Inr (map (\<lambda>s. if s \<in> set c then (shards ! s)\<lparr>so_data := so_data (shards ! s) @ r,
         so_ids := so_ids (shards ! s) @ le_bytes 4 (u32 (start + p)), so_count := so_count (shards ! s) + 1\<rparr> else shards ! s) [0..<length shards])"
proof -
  let ?add = "\<lambda>s. s\<lparr>so_data := so_data s @ r, so_ids := so_ids s @ le_bytes 4 (u32 (start + p)), so_count := so_count s + 1\<rparr>"
  let ?g = "\<lambda>m. map (\<lambda>s. if s \<in> set (take m c) then ?add (shards ! s) else shards ! s) [0..<length shards]"
  have "m \<le> k \<Longrightarrow> foldR (put_in_shard closest bd w start k p) [0..<m] shards = Inr (?g m)" for m
  proof (induction m)
    case 0
    then show ?case by (simp add: map_nth)
  next
    case (Suc m)
    have m: "m < length c" "p * k + m < length closest" using Suc.prems cc(2,3) by simp_all
    have cm: "c ! m < length shards" using nth_mem [OF m(1)] cc(5) by blast
    have nt: "c ! m \<notin> set (take m c)" using cc(4) m(1) by (auto simp: in_set_conv_nth nth_eq_iff_index_eq)
    have "put_in_shard closest bd w start k p m (?g m) = Inr ((?g m)[c ! m := ?add (shards ! (c ! m))])"
      using cc(1) Suc.prems m(2) cm nt row by (simp add: put_in_shard_def)
    also have "(?g m)[c ! m := ?add (shards ! (c ! m))] = ?g (Suc m)"
      by (rule nth_equalityI) (use cm m(1) nt in \<open>auto simp: nth_list_update take_Suc_conv_app_nth\<close>)
    finally show ?case using Suc by (simp add: foldR_append foldR_one)
  qed
  from this [of k] cc(3) show ?thesis by simp
qed

lemma put_points:
  assumes inv: "shards = map (\<lambda>s. shard_image dm rows (members cl s)) [0..<nc]" "length cl = start" "assigned nc k cl"
    and cc: "\<forall>j < m. length (c j) = k \<and> distinct (c j) \<and> set (c j) \<subseteq> {..<nc} \<and> (\<forall>l < k. closest ! (j * k + l) = c j ! l)"
      "m * k \<le> length closest"
    and rows: "\<forall>j < m. take w (drop (j * w) bd) = rows ! (start + j)" "start + m < 2 ^ 32"
  shows "foldR (\<lambda>p. foldR (put_in_shard closest bd w start k p) [0..<k]) [0..<m] shards
     = Inr (map (\<lambda>s. shard_image dm rows (members (cl @ map c [0..<m]) s)) [0..<nc]) \<and> assigned nc k (cl @ map c [0..<m])"
  using cc rows
proof (induction m)
  case 0
  then show ?case using inv by simp
next
  case (Suc m)
  let ?cl = "cl @ map c [0..<m]"
  let ?sh = "map (\<lambda>s. shard_image dm rows (members ?cl s)) [0..<nc]"
  have IH: "foldR (\<lambda>p. foldR (put_in_shard closest bd w start k p) [0..<k]) [0..<m] shards = Inr ?sh" "assigned nc k ?cl"
    using Suc by simp_all
  have cm: "length (c m) = k" "distinct (c m)" "set (c m) \<subseteq> {..<length ?sh}" "\<forall>l < k. closest ! (m * k + l) = c m ! l"
    "m * k + k \<le> length closest" "take w (drop (m * w) bd) = rows ! (start + m)"
    using Suc.prems by (simp_all add: add.commute)
  have u: "u32 (start + m) = start + m" using Suc.prems by simp
  have ms: "members (cl @ map c [0..<m] @ [c m]) s = members ?cl s @ (if s \<in> set (c m) then [start + m] else [])" for s
    using members_snoc [of ?cl "c m" s] inv(2) by simp
  have "foldR (put_in_shard closest bd w start k m) [0..<k] ?sh
      = Inr (map (\<lambda>s. shard_image dm rows (members (?cl @ [c m]) s)) [0..<nc])"
    unfolding put_point [OF cm(4,5,1,2,3,6)] u
    by (simp add: ms shard_image_def le_array_append)
  then show ?case using IH cm by (simp add: foldR_append foldR_one assigned_def)
qed

text \<open>One block of points.\<close>

definition env_ok :: "'a part_env \<Rightarrow> bool" where
  "env_ok E \<longleftrightarrow> gemm_shape (pe_blas E) \<and> (\<forall>q. mset (pe_drain E q) = mset q) \<and> (\<forall>xs. set (pe_order E xs) = set xs)"

lemma length_split_chunks [simp]: "length (split_chunks w k bs) = k"
  by (induction k arbitrary: bs) simp_all

lemma shard_block_step:
  assumes E: "env_ok E" and k: "2 \<le> k" "k \<le> nc" and piv: "nc * dm \<le> length pivots"
    and w: "w = cd_size (pe_codec E) * dm" "\<forall>r \<in> set rows. length r = w" "length rows < 2 ^ 32"
    and b: "start = block * bs" "start < length rows" "stop = min ((block + 1) * bs) (length rows)" "0 < bs" "length buf = bs * k"
    and rd: "ci_inv rd" "ci_rest rd = concat (drop start rows)"
    and inv: "shards = map (\<lambda>s. shard_image dm rows (members cl s)) [0..<nc]" "length cl = start" "assigned nc k cl"
  shows "\<exists>rd' buf' cl'. shard_block E pivots nc dm k (length rows) bs block (rd, buf, shards)
       = Inr (rd', buf', map (\<lambda>s. shard_image dm rows (members cl' s)) [0..<nc])
     \<and> ci_inv rd' \<and> ci_rest rd' = concat (drop stop rows) \<and> length buf' = bs * k \<and> length cl' = stop \<and> assigned nc k cl'"
proof -
  let ?cur = "stop - start" and ?sz = "cd_size (pe_codec E)"
  have s: "start < stop" "stop \<le> length rows" "?cur \<le> bs" using b by (auto simp: min_def)
  let ?rs = "take ?cur (drop start rows)"
  have lrs: "length ?rs = ?cur" "\<forall>r \<in> set ?rs. length r = w" using s w(2) by (auto dest: in_set_takeD in_set_dropD)
  have "drop start rows = ?rs @ drop stop rows" using s by (metis add_diff_cancel_left' append_take_drop_id drop_drop le_add_diff_inverse2 less_imp_le)
  then have rest: "ci_rest rd = concat ?rs @ concat (drop stop rows)" using rd(2) by (metis concat_append)
  have lb: "length (concat ?rs) = ?sz * (?cur * dm)" using concat_map_length [of ?rs "\<lambda>x. x" w] lrs w(1) by (simp add: mult.commute mult.left_commute)
  obtain rd' where rd': "ci_read rd (?sz * (?cur * dm)) = Inr (concat ?rs, rd')" "ci_inv rd'" "ci_rest rd' = concat (drop stop rows)"
    using ci_read_correct [OF rd(1), of "?sz * (?cur * dm)"] rest lb by auto
  let ?fl = "map (\<lambda>e. pe_float E (cd_dec (pe_codec E) e)) (split_chunks ?sz (?cur * dm) (concat ?rs))"
  have ib: "?cur * k \<le> length buf" using s(3) b(5) by simp
  obtain ivf' c where c: "compute_closest_centers (pe_blas E) (pe_drain E) (pe_order E) ?fl ?cur dm pivots nc k None (buf, None) = Inr (ivf', None)"
     "length ivf' = length buf"
     "\<forall>j < ?cur. length (c j) = k \<and> distinct (c j) \<and> set (c j) \<subseteq> {..<nc} \<and> (\<forall>l < k. ivf' ! (j * k + l) = c j ! l)"
    using compute_closest_k [of "pe_blas E" k nc "pe_drain E" ?cur dm ?fl pivots buf "pe_order E"] E k s(1) piv ib by (auto simp: env_ok_def)
  have row: "\<forall>j < ?cur. take w (drop (j * w) (concat ?rs)) = rows ! (start + j)"
    using concat_nth_chunk [OF lrs(2)] lrs(1) s by simp
  have ib': "?cur * k \<le> length ivf'" "start + ?cur < 2 ^ 32" using ib c(2) s w(3) by simp_all
  note pts = put_points [OF inv c(3) ib'(1) row ib'(2)]
  have "block_centers E ?fl ?cur dm pivots nc k buf = Inr ivf'" using c(1) k by (simp add: block_centers_def)
  then have "shard_block E pivots nc dm k (length rows) bs block (rd, buf, shards)
       = Inr (rd', ivf', map (\<lambda>s. shard_image dm rows (members (cl @ map c [0..<?cur]) s)) [0..<nc])"
    using rd'(1) conjunct1 [OF pts] unfolding shard_block_def prod.case Let_def b(1) [symmetric] b(3) [symmetric] w(1) by simp
  then show ?thesis using rd' c(2) b(5) inv(2) s(1) conjunct2 [OF pts]
    by (intro exI [where x = rd'] exI [where x = ivf'] exI [where x = "cl @ map c [0..<?cur]"]) simp
qed

lemma shard_blocks:
  assumes E: "env_ok E" and k: "2 \<le> k" "k \<le> nc" and piv: "nc * dm \<le> length pivots"
    and w: "w = cd_size (pe_codec E) * dm" "\<forall>r \<in> set rows. length r = w" "length rows < 2 ^ 32"
    and b: "0 < bs" "length buf = bs * k" "(m - 1) * bs < length rows" "0 < m"
    and rd: "ci_inv rd" "ci_rest rd = concat rows"
  shows "\<exists>rd' buf' cl. foldR (shard_block E pivots nc dm k (length rows) bs) [0..<m] (rd, buf, map (\<lambda>s. shard_image dm rows []) [0..<nc])
       = Inr (rd', buf', map (\<lambda>s. shard_image dm rows (members cl s)) [0..<nc])
     \<and> ci_inv rd' \<and> ci_rest rd' = concat (drop (min (m * bs) (length rows)) rows) \<and> length buf' = bs * k
     \<and> length cl = min (m * bs) (length rows) \<and> assigned nc k cl"
  using b(3,4)
proof (induction m)
  case (Suc m)
  have start: "m * bs < length rows" using Suc.prems by simp
  obtain rd1 buf1 cl1 where IH: "foldR (shard_block E pivots nc dm k (length rows) bs) [0..<m] (rd, buf, map (\<lambda>s. shard_image dm rows []) [0..<nc])
       = Inr (rd1, buf1, map (\<lambda>s. shard_image dm rows (members cl1 s)) [0..<nc])"
     "ci_inv rd1" "ci_rest rd1 = concat (drop (m * bs) rows)" "length buf1 = bs * k" "length cl1 = m * bs" "assigned nc k cl1"
  proof (cases "m = 0")
    case True
    show ?thesis by (rule that [of rd buf "[]"]) (use True rd b in \<open>simp_all add: members_def assigned_def\<close>)
  next
    case False
    have "(m - 1) * bs < length rows" using start by (meson diff_le_self le_less_trans mult_le_mono1)
    then show ?thesis using Suc.IH False start that by auto
  qed
  show ?case
    using shard_block_step [OF E k piv w refl start refl b(1) IH(4) IH(2,3) refl IH(5,6)] IH(1)
    by (auto simp: foldR_append foldR_one add.commute)
qed simp

lemma div_round_up_bounds:
  assumes "0 < bs" "0 < n"
  shows "(div_round_up n bs - 1) * bs < n" "n \<le> div_round_up n bs * bs" "0 < div_round_up n bs"
proof -
  have e: "n = n div bs * bs + n mod bs" by simp
  have r: "n mod bs < bs" using assms(1) by simp
  have d: "n mod bs = 0 \<Longrightarrow> 0 < n div bs" using e assms(2) by (metis add.right_neutral mult_is_0 neq0_conv)
  then show "0 < div_round_up n bs" by (auto simp: div_round_up_def)
  show "n \<le> div_round_up n bs * bs"
  proof (cases "n mod bs = 0")
    case True
    then have "div_round_up n bs * bs = n div bs * bs" by (simp add: div_round_up_def)
    then show ?thesis using True e by linarith
  next
    case False
    then have "div_round_up n bs * bs = n div bs * bs + bs" by (simp add: div_round_up_def)
    then show ?thesis using e r by linarith
  qed
  show "(div_round_up n bs - 1) * bs < n"
  proof (cases "n mod bs = 0")
    case True
    then have "(n div bs - 1) * bs < n div bs * bs" using d assms(1) by simp
    moreover have "n div bs * bs = n" "div_round_up n bs = n div bs" using True e by (auto simp: div_round_up_def)
    ultimately show ?thesis by metis
  next
    case False
    then have "n div bs * bs < n" using e by linarith
    then show ?thesis using False by (simp add: div_round_up_def)
  qed
qed

lemma finish_shard_image:
  "length ids < 2 ^ 32 \<Longrightarrow> finish_shard (shard_image dm rows ids)
     = \<lparr>so_data = bin_header (length ids) dm @ concat (map ((!) rows) ids), so_ids = bin_header (length ids) 1 @ le_array 4 ids,
        so_count = length ids\<rparr>"
  by (simp add: finish_shard_def shard_image_def bin_header_def overwrite_def)

lemma open_matrix:
  assumes "n < 2 ^ 32" "d < 2 ^ 32"
  obtains r1 r2 where "next_uint (ci_open (bin_header n d @ body) part_buffer) = Inr (n, r1)" "next_uint r1 = Inr (d, r2)"
    "ci_inv r2" "ci_rest r2 = body"
proof -
  let ?r = "ci_open (bin_header n d @ body) part_buffer"
  have r: "ci_inv ?r" "ci_rest ?r = le_bytes 4 n @ le_bytes 4 d @ body" by (simp_all add: ci_open_correct bin_header_def)
  obtain r1 where r1: "ci_read ?r 4 = Inr (le_bytes 4 n, r1)" "ci_inv r1" "ci_rest r1 = le_bytes 4 d @ body"
    using ci_read_correct [OF r(1), of 4] r(2) by auto
  obtain r2 where r2: "ci_read r1 4 = Inr (le_bytes 4 d, r2)" "ci_inv r2" "ci_rest r2 = body"
    using ci_read_correct [OF r1(2), of 4] r1(3) by auto
  show ?thesis by (rule that [of r1 r2]) (use r1 r2 assms in \<open>simp_all add: next_uint_def\<close>)
qed

lemma members_cover:
  assumes "assigned nc k cl" "x < length cl"
  shows "card {s. s < nc \<and> x \<in> set (members cl s)} = k"
proof -
  have c: "length (cl ! x) = k" "distinct (cl ! x)" "set (cl ! x) \<subseteq> {..<nc}" using assms by (simp_all add: assigned_def)
  have "{s. s < nc \<and> x \<in> set (members cl s)} = set (cl ! x)" using c(3) assms(2) by (auto simp: members_props)
  then show ?thesis using c distinct_card by metis
qed

lemma shards_library:
  assumes E: "env_ok E" and k: "2 \<le> k" "k \<le> nc" and piv: "nc * dm \<le> length pivots"
    and rows: "rows \<noteq> []" "length rows < 2 ^ 32" "dm < 2 ^ 32" "\<forall>r \<in> set rows. length r = cd_size (pe_codec E) * dm"
  shows "\<exists>cl. length cl = length rows \<and> assigned nc k cl
     \<and> shard_data_into_clusters E (bin_header (length rows) dm @ concat rows) pivots nc dm k
       = Inr (Some (map (\<lambda>s. finish_shard (shard_image dm rows (members cl s))) [0..<nc]))"
proof -
  let ?n = "length rows"
  obtain r1 r2 where r: "next_uint (ci_open (bin_header ?n dm @ concat rows) part_buffer) = Inr (?n, r1)" "next_uint r1 = Inr (dm, r2)"
    "ci_inv r2" "ci_rest r2 = concat rows" by (rule open_matrix [OF rows(2,3)])
  let ?bs = "if ?n \<le> BLOCK_SIZE then ?n else BLOCK_SIZE"
  have bs: "0 < ?bs" using rows(1) by (simp add: BLOCK_SIZE_def)
  have n: "0 < ?n" using rows(1) by simp
  note dr = div_round_up_bounds [OF bs n]
  have buf: "length (replicate (?bs * k) (0::nat)) = ?bs * k" by simp
  obtain rd' buf' cl where res: "foldR (shard_block E pivots nc dm k ?n ?bs) [0..<div_round_up ?n ?bs]
        (r2, replicate (?bs * k) 0, map (\<lambda>s. shard_image dm rows []) [0..<nc])
       = Inr (rd', buf', map (\<lambda>s. shard_image dm rows (members cl s)) [0..<nc])"
     "length cl = min (div_round_up ?n ?bs * ?bs) ?n" "assigned nc k cl"
    using shard_blocks [OF E k piv refl rows(4,2) bs buf dr(1,3) r(3,4)] by blast
  have init: "replicate nc \<lparr>so_data = bin_header 0 dm, so_ids = bin_header 0 1, so_count = 0\<rparr> = map (\<lambda>s. shard_image dm rows []) [0..<nc]"
    by (simp add: shard_image_def map_replicate_const)
  have ne: "?bs \<noteq> 0" using bs by simp
  have "shard_data_into_clusters E (bin_header ?n dm @ concat rows) pivots nc dm k
      = Inr (Some (map finish_shard (map (\<lambda>s. shard_image dm rows (members cl s)) [0..<nc])))"
    unfolding shard_data_into_clusters_def r(1,2) bindR_simps prod.case Let_def if_not_P [OF ne] init res(1) by simp
  then show ?thesis using res(2,3) dr(2) by (intro exI [where x = cl]) (simp add: comp_def)
qed

section \<open>Properties\<close>


definition tiny_env :: "8 word part_env" where
  "tiny_env = \<lparr>pe_codec = uint8_codec, pe_float = (\<lambda>x. Fin (of_nat (unat x))), pe_blas = naive_blas, pe_drain = (\<lambda>q. q), pe_order = rev,
     pe_draws = (\<lambda>_ _. 0), pe_darts = (\<lambda>_ _. Fin 0), pe_fuel = 10, pe_rnd = (\<lambda>_ _. Fin 0), pe_mutex = 40\<rparr>"


end
