(* ===== verification/Disk_Build.thy ===== *)
theory Disk_Build
  imports Merge_Shards Partition
begin

text \<open>
  The rest of the build support of \<^verbatim>\<open>src/disk_utils.cpp\<close>: appending to a single index file, memory
  budgets and the number of chunks, warm-up data, splitting points with many labels, the labels of a shard and the choice of a beam width.
  The C library's \<^verbatim>\<open>atof\<close>, random numbers and measured times are parameters.
\<close>

section \<open>One file per index\<close>

text \<open>
  \<^verbatim>\<open>add_new_file_to_single_index\<close>: the contents of the index file afterwards, and the
  outcome. Opening the cached writer truncates the file, before its size is taken.
\<close>

definition append_blocks :: "nat \<Rightarrow> nat \<Rightarrow> cached_in \<times> cached_out \<Rightarrow> (cached_in \<times> cached_out) result" where
  "append_blocks fsize read_blk_size st =
     foldR (\<lambda>i (rd, wr).
       let left = fsize - i * read_blk_size; cur_block_size = (if left < read_blk_size then left else read_blk_size) in
       bindR (ci_read rd cur_block_size) (\<lambda>(dump, rd'). Inr (rd', co_write dump wr)))
       [0..<div_round_up fsize read_blk_size] st"

definition add_new_file_to_single_index :: "byte list \<Rightarrow> byte list \<Rightarrow> byte list \<times> unit result" where
  "add_new_file_to_single_index index_file new_file =
     (case load_bin u64_codec index_file 0 of
        Inl e \<Rightarrow> (index_file, Inl e)
      | Inr (metadata, nr, nc) \<Rightarrow>
          if nc \<noteq> 1 then (index_file, Inl (ANNException ''Error, index file specified does not have correct metadata. ''))
          else if nr = 0 then (index_file, Inl UndefinedBehaviour)
          else let index_ending_offset = metadata ! (nr - 1); writer = co_open part_buffer; truncated = co_disk writer in
            if length truncated \<noteq> index_ending_offset
            then (truncated, Inl (ANNException ''Error, index file specified does not have correct metadata (last entry must match the filesize). ''))
            else let fsize = length new_file in
              if fsize = 0 then (truncated, Inl (ANNException ''Error, new file specified is empty. Not appending. ''))
              else case append_blocks fsize part_buffer (ci_open new_file part_buffer, writer) of
                Inl e \<Rightarrow> (truncated, Inl e)
              | Inr (_, wr) \<Rightarrow>
                  let new_meta = take nr metadata @ [metadata ! (nr - 1) + fsize] in
                  (case save_bin u64_codec (co_disk wr) new_meta (length new_meta) 1 0 of
                     Inl e \<Rightarrow> (co_disk wr, Inl e)
                   | Inr (disk, _) \<Rightarrow> (co_disk (co_close (wr\<lparr>co_disk := disk\<rparr>)), Inr ())))"

text \<open>Whatever well-formed index file it is given, the function empties it and fails.\<close>

lemma add_new_file_destroys:
  assumes "load_bin u64_codec index_file 0 = Inr (metadata, nr, 1)" "0 < nr" "metadata ! (nr - 1) \<noteq> 0"
  shows "add_new_file_to_single_index index_file new_file
     = ([], Inl (ANNException ''Error, index file specified does not have correct metadata (last entry must match the filesize). ''))"
  using assms by (simp add: add_new_file_to_single_index_def co_open_def Let_def)

section \<open>Budgets\<close>

definition get_memory_budget :: "fl \<Rightarrow> fl" where
  "get_memory_budget search_ram_budget =
     (let final = (if fl_lt (f64 1) (fl_sub F64 search_ram_budget (f64 (1 / 4)))
                   then fl_sub F64 search_ram_budget (f64 (1 / 4)) else search_ram_budget)
      in fl_mul F64 (fl_mul F64 (fl_mul F64 final (f64 1024)) (f64 1024)) (f64 1024))"

definition get_memory_budget_str :: "(string \<Rightarrow> fl) \<Rightarrow> string \<Rightarrow> fl" where
  "get_memory_budget_str atof s = get_memory_budget (atof s)"

definition MAX_PQ_CHUNKS :: nat where
  "MAX_PQ_CHUNKS = 512"

definition clamp_chunks :: "nat \<Rightarrow> nat \<Rightarrow> nat" where
  "clamp_chunks dm n =
     (let n1 = (if n = 0 then 1 else n); n2 = (if dm < n1 then dm else n1)
      in if MAX_PQ_CHUNKS < n2 then MAX_PQ_CHUNKS else n2)"

text \<open>
  The compression ratio is a \<^verbatim>\<open>float\<close>; the product with the dimension is one too, and \<^verbatim>\<open>std::floor\<close> of a
  whole number changes nothing.
\<close>

definition calculate_num_pq_chunks :: "(string \<Rightarrow> fl) \<Rightarrow> fl \<Rightarrow> nat \<Rightarrow> nat \<Rightarrow> string list \<Rightarrow> nat result" where
  "calculate_num_pq_chunks atof final_index_ram_limit points_num dm param_list =
     bindR (double_to_u64 (fl_div F64 final_index_ram_limit (f64 (of_nat points_num)))) (\<lambda>n.
     if 6 \<le> length param_list
     then let compress_ratio = fl_conv F32 (atof (param_list ! 5)) in
       if fl_lt (Fin 0) compress_ratio \<and> fl_le compress_ratio (Fin 1)
       then bindR (double_to_u64 (fl_mul F32 compress_ratio (f32 (of_nat dm)))) (\<lambda>chunks_by_cr.
              Inr (clamp_chunks dm (if 0 < chunks_by_cr \<and> chunks_by_cr < n then chunks_by_cr else n)))
       else Inr (clamp_chunks dm n)
     else Inr (clamp_chunks dm n))"

lemma num_pq_chunks_range:
  assumes "calculate_num_pq_chunks atof ram n dm ps = Inr c" "0 < dm"
  shows "0 < c \<and> c \<le> dm \<and> c \<le> MAX_PQ_CHUNKS"
proof -
  have "0 < clamp_chunks dm m \<and> clamp_chunks dm m \<le> dm \<and> clamp_chunks dm m \<le> MAX_PQ_CHUNKS" for m
    using assms(2) by (auto simp: clamp_chunks_def MAX_PQ_CHUNKS_def Let_def)
  then show ?thesis using assms(1)
    by (auto simp: calculate_num_pq_chunks_def bindR_eq_Inr Let_def split: if_splits)
qed

section \<open>Warm-up data\<close>

text \<open>The number of points is a local variable here: the caller's number does not change.\<close>

definition generateRandomWarmup :: "(nat \<Rightarrow> 'a) \<Rightarrow> nat \<Rightarrow> nat \<Rightarrow> nat \<Rightarrow> ('a::zero) list result" where
  "generateRandomWarmup dis warmup_num0 warmup_dim warmup_aligned_dim =
     (let warmup_num = 100000 in
      foldR (\<lambda>i. foldR (\<lambda>d w. vec_put w (i * warmup_aligned_dim + d) (dis (i * warmup_dim + d))) [0..<warmup_dim])
        [0..<warmup_num] (replicate (warmup_num * warmup_aligned_dim) 0))"

text \<open>\<open>None\<close> is a file that does not exist. The result also has the number of points the caller goes on with.\<close>

definition load_warmup ::
  "('a::zero) codec \<Rightarrow> (nat \<Rightarrow> 'a) \<Rightarrow> byte list option \<Rightarrow> nat \<Rightarrow> nat \<Rightarrow> nat \<Rightarrow> ('a list \<times> nat) result" where
  "load_warmup C dis cache_warmup_file warmup_num warmup_dim warmup_aligned_dim =
     (case cache_warmup_file of
        Some f \<Rightarrow> bindR (load_aligned_bin C f) (\<lambda>(warmup, npts, file_dim, file_aligned_dim).
          if file_dim \<noteq> warmup_dim \<or> file_aligned_dim \<noteq> warmup_aligned_dim
          then Inl (ANNException ''Mismatched dimensions in sample file.'')
          else Inr (warmup, npts))
      | None \<Rightarrow> bindR (generateRandomWarmup dis warmup_num warmup_dim warmup_aligned_dim) (\<lambda>warmup. Inr (warmup, warmup_num)))"

section \<open>Splitting points with many labels\<close>

record dense_state =
  ds_labels :: "nat list list"            \<comment> \<open>\<^verbatim>\<open>labels_per_point\<close>\<close>
  ds_dummies :: "(nat \<times> nat) list"        \<comment> \<open>\<^verbatim>\<open>dummy_pt_ids\<close>, in the order of insertion\<close>
  ds_next :: nat

definition push_at :: "nat \<Rightarrow> 'b \<Rightarrow> 'b list list \<Rightarrow> 'b list list result" where
  "push_at i x xss = bindR (vec_at xss i) (\<lambda>xs. vec_put xss i (xs @ [x]))"

fun dense_tokens :: "nat \<Rightarrow> nat \<Rightarrow> string list \<Rightarrow> nat \<Rightarrow> nat \<Rightarrow> dense_state \<Rightarrow> dense_state result" where
  "dense_tokens density point_cnt [] label_host lbl_cnt s = Inr s"
| "dense_tokens density point_cnt (token # tokens) label_host lbl_cnt s =
     (let (label_host1, lbl_cnt1, s1) =
        (if lbl_cnt = density
         then (ds_next s, 0, s\<lparr>ds_labels := vec_resize [] (ds_next s + 1) (ds_labels s),
                 ds_dummies := ds_dummies s @ [(ds_next s, point_cnt)], ds_next := u32_add (ds_next s) 1\<rparr>)
         else (label_host, lbl_cnt, s))
      in bindR (stoul (strip_eol token)) (\<lambda>token_as_num.
         bindR (push_at label_host1 (u32 token_as_num) (ds_labels s1)) (\<lambda>l.
           dense_tokens density point_cnt tokens label_host1 (u32_add lbl_cnt1 1) (s1\<lparr>ds_labels := l\<rparr>))))"

text \<open>A row without labels reads far outside its vector: \<^verbatim>\<open>size() - 1\<close> wraps.\<close>

definition write_label_row :: "nat list \<Rightarrow> string result" where
  "write_label_row ls = (if ls = [] then Inl UndefinedBehaviour else Inr (join_ids ls @ [newline]))"

definition write_dummy :: "nat \<times> nat \<Rightarrow> string" where
  "write_dummy d = show_nat (fst d) @ [comma] @ show_nat (snd d) @ [newline]"

text \<open>
  The label file (\<open>None\<close>: not written), the map of the dummy points and the new data file. \<open>None\<close> for the input labels is a file
  that cannot be opened; \<open>ord\<close> is the order of the hash map and \<open>junk\<close> what reallocated memory holds.
\<close>

definition breakup_dense_points ::
  "((nat \<times> nat) list \<Rightarrow> (nat \<times> nat) list) \<Rightarrow> 'a \<Rightarrow> 'a codec \<Rightarrow> byte list \<Rightarrow> string option \<Rightarrow> nat
     \<Rightarrow> (string option \<times> string option \<times> byte list) result" where
  "breakup_dense_points ord junk C data_file labels_file density =
     bindR (load_bin C data_file 0) (\<lambda>(data, npts, ndims).
     bindR (case labels_file of None \<Rightarrow> Inr (0, \<lparr>ds_labels = replicate npts [], ds_dummies = [], ds_next = npts\<rparr>)
            | Some txt \<Rightarrow> foldR (\<lambda>line (point_cnt, s).
                  bindR (dense_tokens density point_cnt (getlines comma line) point_cnt 0 s) (\<lambda>s'. Inr (u32_add point_cnt 1, s')))
                (getlines newline txt) (0, \<lparr>ds_labels = replicate npts [], ds_dummies = [], ds_next = npts\<rparr>)) (\<lambda>(_, s).
     let n = length (ds_labels s) in
     bindR (if n = 0 then Inr None else bindR (mapR write_label_row (ds_labels s)) (\<lambda>rows. Inr (Some (concat rows)))) (\<lambda>labels.
     bindR (if ds_dummies s = [] then Inr (None, data)
            else bindR (foldR (\<lambda>(d, p) buf. bindR (mem_get buf (p * ndims) ndims) (\<lambda>row. mem_put buf (d * ndims) row))
                   (ord (ds_dummies s)) (vec_resize junk (n * ndims) data)) (\<lambda>buf.
                   Inr (Some (concat (map write_dummy (ord (ds_dummies s)))), buf))) (\<lambda>(dummies, buf).
     bindR (save_bin C [] buf n ndims 0) (\<lambda>(out, _). Inr (labels, dummies, out))))))"

section \<open>The labels of a shard\<close>

fun extract_lines :: "nat list \<Rightarrow> string list \<Rightarrow> nat \<Rightarrow> nat \<Rightarrow> string \<Rightarrow> string" where
  "extract_lines ids [] counter shard_counter out = out"
| "extract_lines ids (cur_line # ls) counter shard_counter out =
     (if length ids \<le> shard_counter then out
      else if counter = ids ! shard_counter
           then extract_lines ids ls (u32_add counter 1) (u32_add shard_counter 1) (out @ cur_line @ [newline])
           else extract_lines ids ls (u32_add counter 1) shard_counter out)"

definition extract_shard_labels :: "string \<Rightarrow> byte list \<Rightarrow> string result" where
  "extract_shard_labels in_label_file shard_ids_bin =
     bindR (load_bin u32_codec shard_ids_bin 0) (\<lambda>(ids, num_ids, tmp_dim).
     if length ids < num_ids then Inl UndefinedBehaviour
     else Inr (extract_lines (take num_ids ids) (getlines newline in_label_file) 0 0 []))"

section \<open>Beam width\<close>

text \<open>\<^verbatim>\<open>(uint32_t)std::ceil((float)cur_bw * 1.1f)\<close>.\<close>

fun ceil_fl :: "fl \<Rightarrow> nat" where
  "ceil_fl (Fin q) = nat \<lceil>q\<rceil>"
| "ceil_fl x = 0"

definition next_beamwidth :: "nat \<Rightarrow> nat" where
  "next_beamwidth cur_bw = ceil_fl (fl_mul F32 (f32 (of_nat cur_bw)) (f32 (11 / 10)))"

text \<open>
  \<open>meas\<close> gives what a round with a beam width measured: queries per second, the
  99.9 percentile and the mean of the latencies, indexed by the round.
\<close>

fun tune_beam :: "nat \<Rightarrow> (nat \<Rightarrow> nat \<Rightarrow> fl \<times> fl \<times> fl) \<Rightarrow> nat \<Rightarrow> nat \<Rightarrow> fl \<Rightarrow> nat \<Rightarrow> nat result" where
  "tune_beam 0 meas t cur_bw max_qps best_bw = Inl OutOfFuel"
| "tune_beam (Suc fuel) meas t cur_bw max_qps best_bw =
     (let (qps, lat_999, mean_latency) = meas t cur_bw in
      if fl_lt max_qps qps \<and> fl_lt lat_999 (fl_add F64 (f64 15000) (fl_mul F64 mean_latency (f64 2)))
      then if 64 < next_beamwidth cur_bw then Inr cur_bw
           else tune_beam fuel meas (t + 1) (next_beamwidth cur_bw) qps cur_bw
      else Inr best_bw)"

definition optimize_beamwidth :: "nat \<Rightarrow> (nat \<Rightarrow> nat \<Rightarrow> fl \<times> fl \<times> fl) \<Rightarrow> nat \<Rightarrow> nat result" where
  "optimize_beamwidth fuel meas start_bw = tune_beam fuel meas 0 start_bw (Fin 0) start_bw"

text \<open>The width grows by at least one a round, so 65 rounds end the tuning from any positive start.\<close>

lemma next_beamwidth_grows:
  assumes "1 \<le> b" "b \<le> 64"
  shows "b < next_beamwidth b"
proof -
  have p: "(2::rat) powi emax F32 \<ge> 1000" by (simp add: power_int_def)
  have e: "(2::rat) powi (- 24) \<le> 1 / 1000" by (simp add: power_int_def power_divide)
  have lo: "q * (999 / 1000) \<le> r" "r \<le> q * (1001 / 1000)" if "1 \<le> q" "round_fl F32 q = Fin r" for q r
  proof -
    have "q * (999 / 1000) \<le> q * (1 - 2 powi (- 24))" "q * (1 + 2 powi (- 24)) \<le> q * (1001 / 1000)"
      using that(1) e by (intro mult_left_mono; simp)+
    then show "q * (999 / 1000) \<le> r" "r \<le> q * (1001 / 1000)" using round_fl_close [OF that] by linarith+
  qed
  have b: "(1::rat) \<le> of_nat b" "of_nat b \<le> (64::rat)" using assms of_nat_mono [of b 64, where 'a = rat] by simp_all
  obtain r where r: "round_fl F32 (of_nat b) = Fin r" using round_fl_finite [of "of_nat b" F32] b p by auto
  obtain c where c: "round_fl F32 (11 / 10) = Fin c" using round_fl_finite [of "11 / 10" F32] p by auto
  have rb: "of_nat b * (999 / 1000) \<le> r" "r \<le> 65" using lo [OF b(1) r] b(2) by linarith+
  have cb: "109 / 100 \<le> c" "c \<le> 2" using lo [OF _ c] by simp_all
  have r1: "999 / 1000 \<le> r" using rb(1) b(1) by linarith
  have m: "r * (109 / 100) \<le> r * c" using cb(1) r1 by (intro mult_left_mono) simp_all
  have m2: "r * c \<le> 130" using mult_mono [of r 65 c 2] rb(2) cb r1 by simp
  have ge1: "1 \<le> r * c" using m r1 by linarith
  have "\<bar>r * c\<bar> \<le> 2 powi emax F32" using p m2 ge1 by linarith
  then obtain x where x: "round_fl F32 (r * c) = Fin x" using round_fl_finite by blast
  have "r * c * (999 / 1000) \<le> x" using lo(1) [OF ge1 x] .
  moreover have "r * (109 / 100) * (999 / 1000) \<le> r * c * (999 / 1000)" using m by (intro mult_right_mono) simp_all
  moreover have "of_nat b * (999 / 1000) * (109 / 100) * (999 / 1000) \<le> r * (109 / 100) * (999 / 1000)" using rb(1) by (intro mult_right_mono) simp_all
  moreover have "of_nat b * (999 / 1000) * (109 / 100) * (999 / 1000) > (of_nat b :: rat)" using b(1) by simp
  ultimately have "of_nat b < x" by linarith
  then have "int b < \<lceil>x\<rceil>" by (simp add: less_ceiling_iff)
  then show ?thesis using r c x by (simp add: next_beamwidth_def f32_def)
qed

lemma tune_beam_ends:
  "1 \<le> cur \<Longrightarrow> cur \<le> 64 \<Longrightarrow> 65 \<le> fuel + cur \<Longrightarrow> \<exists>bw. tune_beam fuel meas t cur mq best = Inr bw \<and> (bw = best \<or> bw \<le> 64)"
proof (induction fuel arbitrary: t cur mq best)
  case (Suc fuel)
  have g: "cur < next_beamwidth cur" using next_beamwidth_grows Suc.prems(1,2) by simp
  show ?case
  proof (cases "64 < next_beamwidth cur")
    case True
    then show ?thesis using Suc.prems(2) by (auto split: prod.split)
  next
    case False
    have "1 \<le> next_beamwidth cur" "next_beamwidth cur \<le> 64" "65 \<le> fuel + next_beamwidth cur" using g False Suc.prems by simp_all
    from Suc.IH [OF this] have IH: "\<exists>bw. tune_beam fuel meas (t + 1) (next_beamwidth cur) q cur = Inr bw \<and> bw \<le> 64" for q
      using Suc.prems(2) by blast
    show ?thesis
    proof (cases "meas t cur")
      case (fields q l m)
      then show ?thesis using IH [of q] False by auto
    qed
  qed
qed simp

lemma optimize_beamwidth_ends:
  "1 \<le> start_bw \<Longrightarrow> start_bw \<le> 64 \<Longrightarrow> \<exists>bw. optimize_beamwidth 65 meas start_bw = Inr bw \<and> bw \<le> 64"
  using tune_beam_ends [of start_bw 65 meas 0 "Fin 0" start_bw] by (auto simp: optimize_beamwidth_def)

section \<open>From the partition to the merged index\<close>

text \<open>Graphs built over the points of each shard.\<close>

definition shard_graphs :: "nat list list \<Rightarrow> nat list list list \<Rightarrow> (nat \<Rightarrow> nat) \<Rightarrow> (nat \<Rightarrow> nat) \<Rightarrow> bool" where
  "shard_graphs ids grs mds starts \<longleftrightarrow> length grs = length ids \<and> (\<forall>s < length ids. length (grs ! s) = length (ids ! s)
     \<and> fits_file (grs ! s) \<and> (\<forall>ns \<in> set (grs ! s). \<forall>w \<in> set ns. w < length (ids ! s)) \<and> mds s < 2 ^ 32 \<and> starts s < length (ids ! s))"

lemma fold_max_le: "(a::nat) \<le> m \<Longrightarrow> \<forall>x \<in> set xs. x \<le> m \<Longrightarrow> fold max xs a \<le> m"
  by (induction xs arbitrary: a) simp_all

lemma count_nodes_le: "0 < n \<Longrightarrow> \<forall>i \<in> set ids. set i \<subseteq> {..<n} \<Longrightarrow> count_nodes ids \<le> n"
proof -
  have le: "(a::nat) \<le> m \<Longrightarrow> \<forall>xs \<in> set xss. \<forall>x \<in> set xs. x \<le> m \<Longrightarrow> fold (fold max) xss a \<le> m" for a m xss
    by (induction xss arbitrary: a) (simp_all add: fold_max_le)
  assume "0 < n" and "\<forall>i \<in> set ids. set i \<subseteq> {..<n}"
  then have "\<forall>xs \<in> set ids. \<forall>x \<in> set xs. x \<le> n - 1" by fastforce
  from le [OF _ this, of 0] \<open>0 < n\<close> show ?thesis by (simp add: count_nodes_def)
qed

lemma partition_ids:
  assumes "env_ok E" "2 \<le> k" "k \<le> nc" "nc * dm \<le> length pivots"
    and "rows \<noteq> []" "length rows < 2 ^ 32" "dm < 2 ^ 32" "\<forall>r \<in> set rows. length r = cd_size (pe_codec E) * dm"
  shows "\<exists>ids. length ids = nc
     \<and> shard_data_into_clusters_only_ids E (bin_header (length rows) dm @ concat rows) pivots nc dm k = Inr (Some (map idmap_bytes ids))
     \<and> (\<forall>i \<in> set ids. sorted_wrt (<) i \<and> set i \<subseteq> {..<length rows})
     \<and> (\<forall>x < length rows. card {s. s < nc \<and> x \<in> set (ids ! s)} = k)"
proof -
  obtain cl where cl: "length cl = length rows" "assigned nc k cl"
     "shard_data_into_clusters E (bin_header (length rows) dm @ concat rows) pivots nc dm k
       = Inr (Some (map (\<lambda>s. finish_shard (shard_image dm rows (members cl s))) [0..<nc]))"
    using shards_library [OF assms] by blast
  let ?ids = "map (members cl) [0..<nc]"
  have "length (members cl s) < 2 ^ 32" for s using members_props(3) [of cl s] cl(1) assms(6) by simp
  then have "shard_data_into_clusters_only_ids E (bin_header (length rows) dm @ concat rows) pivots nc dm k = Inr (Some (map idmap_bytes ?ids))"
    using cl(3) by (simp add: shard_data_into_clusters_only_ids_def finish_shard_image idmap_bytes_def bin_header_def comp_def)
  moreover have "\<forall>i \<in> set ?ids. sorted_wrt (<) i \<and> set i \<subseteq> {..<length rows}" using members_props(1,2) [of cl] cl(1) by auto
  moreover have "card {s. s < nc \<and> x \<in> set (?ids ! s)} = k" if "x < length rows" for x
    using members_cover [OF cl(2), of x] that cl(1) by (simp cong: conj_cong)
  ultimately show ?thesis by (intro exI [where x = ?ids]) simp
qed

lemma partition_merge_input:
  assumes ids: "length ids = nc" "0 < nc" "\<forall>i \<in> set ids. sorted_wrt (<) i \<and> set i \<subseteq> {..<n}" "\<forall>x < n. card {s. s < nc \<and> x \<in> set (ids ! s)} = k" "2 \<le> k"
    and n: "0 < n" "n < 2 ^ 32" and gr: "shard_graphs ids grs mds starts"
  shows "merge_input ids grs mds starts" "count_nodes ids = n"
proof -
  have cov: "shards_of ids x \<noteq> []" if "x < n" for x
  proof -
    have "{s. s < nc \<and> x \<in> set (ids ! s)} \<noteq> {}" using ids(4,5) that by (metis card.empty not_numeral_le_zero)
    then show ?thesis using ids(1) by (auto simp: shards_of_def filter_empty_conv)
  qed
  show c: "count_nodes ids = n"
  proof (rule antisym)
    show "count_nodes ids \<le> n" using count_nodes_le [OF n(1)] ids(3) by blast
    have "shards_of ids (n - 1) \<noteq> []" using cov n(1) by simp
    then obtain s where "s < length ids" "n - 1 \<in> set (ids ! s)" by (auto simp: shards_of_def filter_empty_conv)
    from count_nodes_bound [OF this] show "n \<le> count_nodes ids" by simp
  qed
  have "shard_ok (ids ! s) (grs ! s)" if s: "s < length ids" for s
  proof -
    have i: "sorted_wrt (<) (ids ! s)" "set (ids ! s) \<subseteq> {..<n}" using ids(3) s by simp_all
    then have ds: "sorted (ids ! s)" "distinct (ids ! s)" using strict_sorted_iff by blast+
    have "length (ids ! s) \<le> n" using card_mono [OF _ i(2)] distinct_card [OF ds(2)] by simp
    then show ?thesis using ds i(2) gr s n(2) by (auto simp: shard_ok_def shard_graphs_def)
  qed
  then show "merge_input ids grs mds starts" using gr ids(1,2) c cov by (auto simp: merge_input_def shard_graphs_def)
qed

section \<open>Properties\<close>

text \<open>\<^bold>\<open>C13\<close> What the partition writes is well-formed input of the merge: whatever graphs are
  built over the points of its shards, merging them with its id maps succeeds, and the merged file has one list for every point of the
  base file, holding distinct points that are neighbours of it in some shard, as many as the degree bound allows.\<close>

theorem partition_feeds_merge:
  assumes "env_ok E" "2 \<le> k" "k \<le> nc" "nc * dm \<le> length pivots"
    and "rows \<noteq> []" "length rows < 2 ^ 32" "dm < 2 ^ 32" "\<forall>r \<in> set rows. length r = cd_size (pe_codec E) * dm"
    and "\<And>k xs. mset (shuf k xs) = mset xs" "max_deg < 2 ^ 32 - 1" "24 + length rows * (4 * (max_deg + 1)) < 2 ^ 64"
  shows "\<exists>ids. shard_data_into_clusters_only_ids E (bin_header (length rows) dm @ concat rows) pivots nc dm k = Inr (Some (map idmap_bytes ids))
     \<and> length ids = nc \<and> (\<forall>i \<in> set ids. sorted_wrt (<) i \<and> set i \<subseteq> {..<length rows})
     \<and> (\<forall>x < length rows. card {s. s < nc \<and> x \<in> set (ids ! s)} = k)
     \<and> (\<forall>grs mds starts g. shard_graphs ids grs mds starts \<and> gs_total_points g = length (gs_graph g) \<longrightarrow>
        (\<exists>merged med g'. merge_shards shuf ord (map idmap_bytes ids) (shard_files grs mds starts) max_deg None = Inr (merged, med, None)
           \<and> load_graph_file merged (length rows) g = Inr ((length rows, last ids ! starts (nc - 1), 0), g')
           \<and> (\<forall>v < length rows. distinct (gs_graph g' ! v) \<and> set (gs_graph g' ! v) \<subseteq> shard_edges ids grs v
                \<and> length (gs_graph g' ! v) = min max_deg (card (shard_edges ids grs v)))))"
proof -
  obtain ids where ids: "length ids = nc"
     "shard_data_into_clusters_only_ids E (bin_header (length rows) dm @ concat rows) pivots nc dm k = Inr (Some (map idmap_bytes ids))"
     "\<forall>i \<in> set ids. sorted_wrt (<) i \<and> set i \<subseteq> {..<length rows}" "\<forall>x < length rows. card {s. s < nc \<and> x \<in> set (ids ! s)} = k"
    using partition_ids [OF assms(1-8)] by blast
  have pos: "0 < nc" "0 < length rows" using assms(2,3,5) by simp_all
  have merged: "\<exists>merged med g'. merge_shards shuf ord (map idmap_bytes ids) (shard_files grs mds starts) max_deg None = Inr (merged, med, None)
           \<and> load_graph_file merged (length rows) g = Inr ((length rows, last ids ! starts (nc - 1), 0), g')
           \<and> (\<forall>v < length rows. distinct (gs_graph g' ! v) \<and> set (gs_graph g' ! v) \<subseteq> shard_edges ids grs v
                \<and> length (gs_graph g' ! v) = min max_deg (card (shard_edges ids grs v)))"
    if "shard_graphs ids grs mds starts" "gs_total_points g = length (gs_graph g)" for grs mds starts g
  proof -
    note inp = partition_merge_input [OF ids(1) pos(1) ids(3,4) assms(2) pos(2) assms(6) that(1)]
    have b: "24 + count_nodes ids * (4 * (max_deg + 1)) < 2 ^ 64" unfolding inp(2) by (rule assms(11))
    show ?thesis
      using merge_shards_library [OF inp(1) assms(9,10) b that(2), where ord = ord] unfolding inp(2) ids(1) .
  qed
  show ?thesis by (rule exI [where x = ids]) (use ids merged in blast)
qed

lemma partition_feeds_merge_witness:
  "\<exists>ids grs merged med. shard_data_into_clusters_only_ids tiny_env (bin_header 2 1 @ [5, 9]) [Fin 0, Fin 4] 2 1 2 = Inr (Some (map idmap_bytes ids))
     \<and> merge_shards (\<lambda>k. rev) id (map idmap_bytes ids) (shard_files grs (\<lambda>_. 1) (\<lambda>_. 0)) 3 None = Inr (merged, med, None)"
proof -
  have e: "env_ok tiny_env" by (simp add: env_ok_def tiny_env_def gemm_shape_def naive_blas_def naive_gemm_def Let_def)
  have rw: "length [[5], [9 :: nat]] = 2" "concat [[5], [9 :: nat]] = [5, 9]" by simp_all
  have h: "(2::nat) \<le> 2" "(2::nat) \<le> 2" "2 * 1 \<le> length [Fin 0, Fin 4]" "[[5], [9 :: nat]] \<noteq> []"
    "length [[5], [9 :: nat]] < 2 ^ 32" "(1::nat) < 2 ^ 32" "\<forall>r \<in> set [[5], [9 :: nat]]. length r = cd_size (pe_codec tiny_env) * 1"
    "mset (rev xs) = mset xs" "(3::nat) < 2 ^ 32 - 1" "24 + length [[5], [9 :: nat]] * (4 * (3 + 1)) < 2 ^ 64" for xs :: "nat list"
    by (simp_all add: tiny_env_def uint8_codec_def)
  have gs: "gs_total_points (gs_make 1) = length (gs_graph (gs_make 1))" by (simp add: gs_make_def resize_graph_def)
  obtain ids where ids: "shard_data_into_clusters_only_ids tiny_env (bin_header 2 1 @ [5, 9]) [Fin 0, Fin 4] 2 1 2 = Inr (Some (map idmap_bytes ids))"
      "length ids = 2" "\<forall>i \<in> set ids. sorted_wrt (<) i \<and> set i \<subseteq> {..<2}" "\<forall>x < 2. card {s. s < 2 \<and> x \<in> set (ids ! s)} = 2"
    and mrg: "\<forall>grs mds starts g. shard_graphs ids grs mds starts \<and> gs_total_points g = length (gs_graph g) \<longrightarrow>
        (\<exists>merged med g'. merge_shards (\<lambda>k. rev) id (map idmap_bytes ids) (shard_files grs mds starts) 3 None = Inr (merged, med, None)
           \<and> load_graph_file merged 2 g = Inr ((2, last ids ! starts (2 - 1), 0), g')
           \<and> (\<forall>v < 2. distinct (gs_graph g' ! v) \<and> set (gs_graph g' ! v) \<subseteq> shard_edges ids grs v
                \<and> length (gs_graph g' ! v) = min 3 (card (shard_edges ids grs v))))"
    using partition_feeds_merge [OF e h, unfolded rw, where ord = id] by (elim exE conjE, intro that) assumption+
  let ?grs = "map (\<lambda>i. replicate (length i) [0]) ids"
  have ne: "0 < length (ids ! s)" if "s < 2" for s
  proof -
    have sub: "{s. s < 2 \<and> (0::nat) \<in> set (ids ! s)} \<subseteq> {..<2}" by auto
    have "card {s. s < 2 \<and> (0::nat) \<in> set (ids ! s)} = card {..<2::nat}" using ids(4) by simp
    then have "{s. s < 2 \<and> (0::nat) \<in> set (ids ! s)} = {..<2}" using card_subset_eq [OF _ sub] by simp
    then have "0 \<in> set (ids ! s)" using that by blast
    then show ?thesis by (metis length_pos_if_in_set)
  qed
  have le: "length (ids ! s) \<le> 2" if "s < 2" for s
  proof -
    have "sorted_wrt (<) (ids ! s)" "set (ids ! s) \<subseteq> {..<2}" using ids(2,3) that by simp_all
    then have "distinct (ids ! s)" "card (set (ids ! s)) \<le> 2" using strict_sorted_iff card_mono [of "{..<2::nat}"] by fastforce+
    then show ?thesis by (simp add: distinct_card)
  qed
  have "length (graph_bytes (replicate m [0])) \<le> m * 8" for m by (induction m) simp_all
  then have fb: "length (graph_bytes (replicate (length (ids ! s)) [0])) \<le> 16" if "s < 2" for s
  proof -
    have "length (graph_bytes (replicate (length (ids ! s)) [0])) \<le> length (ids ! s) * 8" by (rule \<open>\<And>m. length (graph_bytes (replicate m [0])) \<le> m * 8\<close>)
    then show ?thesis using le [OF that] by linarith
  qed
  have sg: "shard_graphs ids ?grs (\<lambda>_. 1) (\<lambda>_. 0)"
    using ne fb ids(2) by (fastforce simp: shard_graphs_def fits_file_def graph_file_size_def)
  have "\<exists>merged med. merge_shards (\<lambda>k. rev) id (map idmap_bytes ids) (shard_files ?grs (\<lambda>_. 1) (\<lambda>_. 0)) 3 None = Inr (merged, med, None)"
    using mrg [rule_format, OF conjI [OF sg gs]] by (elim exE conjE) (rule exI, rule exI)
  then show ?thesis using ids(1) by blast
qed

end
