(* ===== verification/Flash_Cache.thy ===== *)
theory Flash_Cache
  imports Beam_Search
begin

text \<open>
  The caches of the disk index (\<^verbatim>\<open>src/pq_flash_index.cpp\<close>): \<^verbatim>\<open>load_cache_list\<close>,
  the two ways of choosing what to cache (the most visited nodes of sample queries, or the first levels of a breadth-first
  search), and \<^verbatim>\<open>use_medoids_data_as_centroids\<close>. The orders in which hash sets are iterated, the shuffle and
  the random numbers are parameters.
\<close>

section \<open>Filling the caches\<close>

text \<open>A coordinate buffer is zeroed, and \<^verbatim>\<open>insert\<close> keeps an entry that exists.\<close>

definition cache_node :: "('a::zero) flash_search \<Rightarrow> nat \<times> byte list \<times> nat list
    \<Rightarrow> (nat \<Rightarrow> nat list option) \<times> (nat \<Rightarrow> byte list option) \<Rightarrow> (nat \<Rightarrow> nat list option) \<times> (nat \<Rightarrow> byte list option)" where
  "cache_node fs node caches =
     (let (i, coords, ns) = node; (nhoods, coordinates) = caches in
      (if nhoods i = None then nhoods(i \<mapsto> ns) else nhoods,
       if coordinates i = None then coordinates(i \<mapsto> pad_row (fs_aligned_dim fs * cd_size (fs_codec fs)) coords) else coordinates))"

definition cache_block :: "('a::zero) flash_search \<Rightarrow> nat list \<Rightarrow> (nat \<Rightarrow> nat list option) \<times> (nat \<Rightarrow> byte list option)
    \<Rightarrow> ((nat \<Rightarrow> nat list option) \<times> (nat \<Rightarrow> byte list option)) result" where
  "cache_block fs ids caches =
     (if fs_aligned_dim fs * cd_size (fs_codec fs) < fi_disk_bytes (fs_fi fs) then Inl UndefinedBehaviour
      else bindR (read_nodes (fs_fi fs) (fs_file fs) ids) (\<lambda>nodes. Inr (fold (cache_node fs) (zip ids nodes) caches)))"

definition load_cache_list :: "('a::zero) flash_search \<Rightarrow> nat list \<Rightarrow> 'a flash_search result" where
  "load_cache_list fs node_list =
     bindR (foldR (\<lambda>block. cache_block fs (take 8 (drop (block * 8) node_list))) [0..<div_round_up (length node_list) 8]
         (fs_nhood_cache fs, fs_coord_cache fs)) (\<lambda>(nhoods, coordinates).
       Inr (fs\<lparr>fs_nhood_cache := nhoods, fs_coord_cache := coordinates\<rparr>))"

section \<open>Centroids from the medoids\<close>

definition medoid_row :: "('a::zero) flash_search \<Rightarrow> nat \<Rightarrow> fl list result" where
  "medoid_row fs medoid =
     bindR (read_sectors (fs_fi fs) (fs_file fs) medoid) (\<lambda>buf.
     bindR (node_coords (fs_fi fs) buf medoid) (\<lambda>coords.
     if fs_data_dim fs * cd_size (fs_codec fs) < fi_disk_bytes (fs_fi fs) \<or> fs_aligned_dim fs < fs_data_dim fs then Inl UndefinedBehaviour
     else if \<not> fs_use_disk_pq fs
     then Inr (map (fs_to_float fs \<circ> cd_dec (fs_codec fs)) (split_chunks (cd_size (fs_codec fs)) (fs_data_dim fs) coords)
          @ replicate (fs_aligned_dim fs - fs_data_dim fs) (Fin 0))
     else inflate_vector (fs_disk_pq fs) coords (replicate (fs_aligned_dim fs) (Fin 0))))"

definition use_medoids_data_as_centroids :: "('a::zero) flash_search \<Rightarrow> 'a flash_search result" where
  "use_medoids_data_as_centroids fs =
     bindR (mapR (medoid_row fs) (fs_medoids fs)) (\<lambda>rows. Inr (fs\<lparr>fs_centroids := concat rows\<rparr>))"

section \<open>The most visited nodes\<close>

text \<open>The random positions are the parameter \<open>rnd\<close>.\<close>

definition generate_random_labels :: "'a flash_search \<Rightarrow> (nat \<Rightarrow> nat) \<Rightarrow> nat \<Rightarrow> nat list result" where
  "generate_random_labels fs rnd num_labels =
     (let last = fi_num_points (fs_fi fs) - 1 in
      bindR (vec_at (fs_label_offsets fs) last) (\<lambda>a. bindR (vec_at (fs_label_counts fs) last) (\<lambda>b.
      if u32_add a b = 0 then Inl (ANNException ''No labels found in data. Not sampling random labels '')
      else mapR (\<lambda>i. vec_at (fs_labels fs) (rnd i mod u32_add a b)) [0..<num_labels])))"

text \<open>
  One search per sample, counting visits. \<open>sort_visits\<close> is \<^verbatim>\<open>std::sort\<close> by falling counts, whose order of
  equal counts is unspecified. \<open>None\<close> is a missing sample file: the counting stays switched on.
\<close>

definition sample_search :: "('a::zero) flash_search \<Rightarrow> nat \<Rightarrow> nat \<Rightarrow> (nat \<Rightarrow> nat option) \<Rightarrow> 'a list \<Rightarrow> nat \<Rightarrow> nat
    \<Rightarrow> beam_state \<Rightarrow> beam_state result" where
  "sample_search fs l_search beamwidth label_of samples aligned i s =
     bindR (mem_get samples (i * aligned) aligned) (\<lambda>query.
     bindR (cached_beam_search fs query 1 l_search ([0], Some [Fin 0]) beamwidth (label_of i) UINT32_MAX False s) (\<lambda>(_, s'). Inr s'))"

definition generate_cache_list_from_sample_queries ::
  "('a::zero) flash_search \<Rightarrow> bool \<Rightarrow> (nat \<Rightarrow> nat) \<Rightarrow> ((nat \<times> nat) list \<Rightarrow> (nat \<times> nat) list) \<Rightarrow> byte list option \<Rightarrow> nat \<Rightarrow> nat \<Rightarrow> nat
     \<Rightarrow> nat list \<Rightarrow> beam_state \<Rightarrow> (nat list \<times> 'a flash_search \<times> beam_state) result" where
  "generate_cache_list_from_sample_queries fs has_filters rnd sort_visits sample_file l_search beamwidth num_nodes_to_cache node_list s =
     (let n = fi_num_points (fs_fi fs) in
      if n \<le> num_nodes_to_cache then Inr ([0..<n], fs, s)
      else let fs1 = fs\<lparr>fs_count_visited := True\<rparr>; s1 = s\<lparr>bm_counter := replicate n 0\<rparr> in
        case sample_file of None \<Rightarrow> Inr (node_list, fs1, s1)
        | Some file \<Rightarrow>
            bindR (load_aligned_bin (fs_codec fs) file) (\<lambda>(samples, sample_num, _, aligned).
            bindR (if has_filters then generate_random_labels fs1 rnd (u32 sample_num) else Inr (replicate sample_num 0)) (\<lambda>labels.
            bindR (foldR (sample_search fs1 l_search beamwidth (\<lambda>i. if has_filters then Some (labels ! i) else None) samples aligned)
                [0..<sample_num] s1) (\<lambda>s2.
              Inr (map fst (take num_nodes_to_cache (sort_visits (zip [0..<n] (bm_counter s2)))), fs1\<lparr>fs_count_visited := False\<rparr>, s2)))))"

section \<open>Breadth-first levels\<close>

fun round_fl_nat :: "fl \<Rightarrow> nat" where
  "round_fl_nat (Fin q) = nat \<lfloor>q + 1 / 2\<rfloor>"
| "round_fl_nat x = 0"

text \<open>At most a tenth of the nodes, and at least one.\<close>

definition cache_budget :: "nat \<Rightarrow> nat \<Rightarrow> nat" where
  "cache_budget num_points num_nodes_to_cache =
     (let tenp_nodes = round_fl_nat (fl_mul F64 (round_fl F64 (of_nat num_points)) (f64 (1 / 10))) in
      if tenp_nodes < num_nodes_to_cache then (if tenp_nodes = 0 then 1 else tenp_nodes) else num_nodes_to_cache)"

fun add_starts :: "nat \<Rightarrow> nat list \<Rightarrow> nat set \<Rightarrow> nat set" where
  "add_starts budget [] cur_level = cur_level"
| "add_starts budget (m # ms) cur_level =
     (if card cur_level < budget then add_starts budget ms (insert m cur_level) else cur_level)"

fun explore_nbrs :: "nat \<Rightarrow> nat set \<Rightarrow> nat list \<Rightarrow> nat set \<times> bool \<Rightarrow> nat set \<times> bool" where
  "explore_nbrs budget node_set [] st = st"
| "explore_nbrs budget node_set (m # ms) st =
     (let (cur_level, finish_flag) = st in
      if finish_flag then st
      else let cur' = (if m \<notin> node_set then insert m cur_level else cur_level)
           in explore_nbrs budget node_set ms (cur', budget \<le> card cur' + card node_set))"

definition explore_block :: "flash_index \<Rightarrow> byte list \<Rightarrow> nat \<Rightarrow> nat set \<Rightarrow> nat list \<Rightarrow> nat set \<times> bool \<Rightarrow> (nat set \<times> bool) result" where
  "explore_block fi file budget node_set ids st =
     (if snd st then Inr st
      else bindR (read_nodes fi file ids) (\<lambda>nodes. Inr (fold (\<lambda>(_, ns). explore_nbrs budget node_set ns) nodes st)))"

definition bfs_level :: "flash_index \<Rightarrow> byte list \<Rightarrow> nat \<Rightarrow> (nat set \<Rightarrow> nat list) \<Rightarrow> nat set \<times> nat set \<Rightarrow> (nat set \<times> nat set) result" where
  "bfs_level fi file budget arrange st =
     (let (node_set, prev_level) = st;
          nodes_to_expand = arrange (prev_level - node_set);
          node_set' = node_set \<union> prev_level
      in bindR (foldR (\<lambda>block. explore_block fi file budget node_set' (take 1024 (drop (block * 1024) nodes_to_expand)))
           [0..<div_round_up (length nodes_to_expand) 1024] ({}, False)) (\<lambda>(cur_level, _). Inr (node_set', cur_level)))"

text \<open>Every round moves a level that is not empty into the set, so the budget is fuel enough.\<close>

fun bfs_loop :: "nat \<Rightarrow> flash_index \<Rightarrow> byte list \<Rightarrow> nat \<Rightarrow> (nat set \<Rightarrow> nat list) \<Rightarrow> nat set \<times> nat set \<Rightarrow> (nat set \<times> nat set) result" where
  "bfs_loop fuel fi file budget arrange st =
     (let (node_set, cur_level) = st in
      if card node_set + card cur_level < budget \<and> card cur_level \<noteq> 0
      then case fuel of 0 \<Rightarrow> Inl OutOfFuel | Suc fuel' \<Rightarrow> bindR (bfs_level fi file budget arrange st) (bfs_loop fuel' fi file budget arrange)
      else Inr st)"

declare bfs_loop.simps [simp del]

text \<open>
  \<open>arrange\<close> lists a set sorted or shuffled, \<open>iterate\<close> in the order of the hash set; \<open>filter_starts\<close> are the medoids of the
  labels in the order of their map.
\<close>

definition cache_bfs_levels ::
  "'a flash_search \<Rightarrow> nat list \<Rightarrow> (nat set \<Rightarrow> nat list) \<Rightarrow> (nat set \<Rightarrow> nat list) \<Rightarrow> nat \<Rightarrow> nat list result" where
  "cache_bfs_levels fs filter_starts arrange iterate num_nodes_to_cache =
     (let budget = cache_budget (fi_num_points (fs_fi fs)) num_nodes_to_cache;
          starts = add_starts budget filter_starts (add_starts budget (fs_medoids fs) {})
      in bindR (bfs_loop (budget + 1) (fs_fi fs) (fs_file fs) budget arrange ({}, starts)) (\<lambda>(node_set, cur_level).
           Inr (iterate node_set @ iterate cur_level)))"

section \<open>The caches agree with the disk\<close>

definition caches_agree :: "('a::zero) flash_search \<Rightarrow> nat set \<Rightarrow> (nat \<Rightarrow> nat list option) \<times> (nat \<Rightarrow> byte list option) \<Rightarrow> bool" where
  "caches_agree fs S caches \<longleftrightarrow> (\<forall>i. (i \<notin> S \<longrightarrow> fst caches i = None \<and> snd caches i = None)
     \<and> (i \<in> S \<longrightarrow> (\<exists>coords ns. read_node (fs_fi fs) (fs_file fs) i = Inr (coords, ns) \<and> fst caches i = Some ns
            \<and> snd caches i = Some (pad_row (fs_aligned_dim fs * cd_size (fs_codec fs)) coords))))"

lemma cache_node_agree:
  assumes "caches_agree fs S caches" "read_node (fs_fi fs) (fs_file fs) i = Inr node"
  shows "caches_agree fs (insert i S) (cache_node fs (i, node) caches)"
proof -
  obtain coords ns where n: "node = (coords, ns)" by (cases node)
  obtain a b where c: "caches = (a, b)" by (cases caches)
  show ?thesis
  proof (cases "i \<in> S")
    case True
    then have "a i \<noteq> None" "b i \<noteq> None" using assms(1) c unfolding caches_agree_def by (metis fst_conv snd_conv option.simps(3))+
    then have "cache_node fs (i, node) caches = caches" using n c by (auto simp: cache_node_def)
    then show ?thesis using True assms(1) by (simp add: insert_absorb)
  next
    case False
    then have "a i = None" "b i = None" using assms(1) c by (simp_all add: caches_agree_def)
    then show ?thesis using assms n c by (simp add: caches_agree_def cache_node_def)
  qed
qed

lemma cache_nodes_agree:
  "caches_agree fs S caches \<Longrightarrow> mapR (read_node (fs_fi fs) (fs_file fs)) ids = Inr nodes
     \<Longrightarrow> caches_agree fs (S \<union> set ids) (fold (cache_node fs) (zip ids nodes) caches)"
proof (induction ids arbitrary: S caches nodes)
  case (Cons i ids)
  then obtain node nodes' where 1: "read_node (fs_fi fs) (fs_file fs) i = Inr node"
      "mapR (read_node (fs_fi fs) (fs_file fs)) ids = Inr nodes'" "nodes = node # nodes'"
    by (auto simp: bindR_eq_Inr)
  from Cons.IH [OF cache_node_agree [OF Cons.prems(1) 1(1)] 1(2)] show ?case using 1(3) by simp
qed simp

lemma cache_block_agree:
  assumes "caches_agree fs S caches" "cache_block fs ids caches = Inr caches'"
  shows "caches_agree fs (S \<union> set ids) caches' \<and> fi_disk_bytes (fs_fi fs) \<le> fs_aligned_dim fs * cd_size (fs_codec fs)"
  using assms cache_nodes_agree [OF assms(1)] by (auto simp: cache_block_def read_nodes_def bindR_eq_Inr split: if_splits)

lemma blocks_cover:
  assumes "0 < w"
  shows "set xs = (\<Union>b \<in> {..<div_round_up (length xs) w}. set (take w (drop (b * w) xs)))"
proof (intro equalityI subsetI)
  fix x assume "x \<in> set xs"
  then obtain i where i: "i < length xs" "xs ! i = x" by (auto simp: in_set_conv_nth)
  let ?b = "i div w"
  have "i < div_round_up (length xs) w * w" using div_round_up_ge [OF assms, of "length xs"] i(1) by simp
  then have b: "?b < div_round_up (length xs) w" by (rule less_mult_imp_div_less)
  have m: "?b * w + i mod w = i" "i mod w < w" using assms by simp_all
  then have "i mod w < length xs - ?b * w" using i(1) by linarith
  then have lt: "i mod w < length (take w (drop (?b * w) xs))" using m(2) by simp
  have "?b * w \<le> length xs" using m(1) i(1) by linarith
  then have "take w (drop (?b * w) xs) ! (i mod w) = x" by (simp only: nth_take [OF m(2)] nth_drop m(1) i(2))
  then have "x \<in> set (take w (drop (?b * w) xs))" using nth_mem [OF lt] by simp
  then show "x \<in> (\<Union>b \<in> {..<div_round_up (length xs) w}. set (take w (drop (b * w) xs)))" using b by blast
qed (auto dest: in_set_takeD in_set_dropD)

lemma load_cache_list_agree:
  assumes empty: "fs_nhood_cache fs = (\<lambda>_. None)" "fs_coord_cache fs = (\<lambda>_. None)" and load: "load_cache_list fs node_list = Inr fs'"
  shows "\<exists>nhoods coordinates. fs' = fs\<lparr>fs_nhood_cache := nhoods, fs_coord_cache := coordinates\<rparr> \<and> caches_agree fs (set node_list) (nhoods, coordinates)
     \<and> (node_list \<noteq> [] \<longrightarrow> fi_disk_bytes (fs_fi fs) \<le> fs_aligned_dim fs * cd_size (fs_codec fs))"
proof -
  let ?step = "\<lambda>block. cache_block fs (take 8 (drop (block * 8) node_list))"
  obtain nhoods coordinates where r: "foldR ?step [0..<div_round_up (length node_list) 8] (\<lambda>_. None, \<lambda>_. None) = Inr (nhoods, coordinates)"
     "fs' = fs\<lparr>fs_nhood_cache := nhoods, fs_coord_cache := coordinates\<rparr>"
    using load by (auto simp: load_cache_list_def bindR_eq_Inr empty)
  have "foldR ?step [0..<k] (\<lambda>_. None, \<lambda>_. None) = Inr c \<Longrightarrow>
     caches_agree fs (\<Union>b \<in> {..<k}. set (take 8 (drop (b * 8) node_list))) c
     \<and> (0 < k \<longrightarrow> fi_disk_bytes (fs_fi fs) \<le> fs_aligned_dim fs * cd_size (fs_codec fs))" for k c
  proof (induction k arbitrary: c)
    case 0
    then show ?case by (auto simp: caches_agree_def)
  next
    case (Suc k)
    then obtain c1 where c1: "foldR ?step [0..<k] (\<lambda>_. None, \<lambda>_. None) = Inr c1" "?step k c1 = Inr c"
      by (auto simp: foldR_append foldR_one bindR_eq_Inr)
    have "{..<Suc k} = insert k {..<k}" by auto
    then show ?case using cache_block_agree [OF conjunct1 [OF Suc.IH [OF c1(1)]] c1(2)] by (simp add: Un_commute)
  qed
  from this [OF r(1)] have A: "caches_agree fs (set node_list) (nhoods, coordinates)"
     "0 < div_round_up (length node_list) 8 \<longrightarrow> fi_disk_bytes (fs_fi fs) \<le> fs_aligned_dim fs * cd_size (fs_codec fs)"
    using blocks_cover [of 8 node_list] by simp_all
  have B: "node_list \<noteq> [] \<longrightarrow> 0 < div_round_up (length node_list) 8"
    using div_round_up_ge [of 8 "length node_list"] by (cases "div_round_up (length node_list) 8") auto
  show ?thesis by (rule exI [of _ nhoods], rule exI [of _ coordinates]) (intro conjI r(2) A(1) impI, use A(2) B in simp)
qed

lemma read_node_beam: "read_node fi file i = Inr r \<Longrightarrow> beam_node fi file i = Inr r"
  by (auto simp: read_node_def beam_node_def node_nhood_def bindR_eq_Inr Let_def split: if_splits)

lemma beam_node_coords: "beam_node fi file i = Inr (coords, ns) \<Longrightarrow> length coords = fi_disk_bytes fi"
  by (auto simp: beam_node_def node_coords_def mem_get_def bindR_eq_Inr Let_def split: if_splits)

lemma vec_at_pad: "c < length xs \<Longrightarrow> vec_at (pad_row w xs) c = vec_at xs c"
  by (simp add: pad_row_def vec_at_def nth_append)

lemma pad_row_twice: "pad_row w (pad_row w xs) = pad_row w xs"
  by (simp add: pad_row_def)

lemma center_at_pad: "c < length code \<Longrightarrow> center_at pt (pad_row w code) c j = center_at pt code c j"
  by (simp add: center_at_def vec_at_pad)

lemma exact_distance_pad:
  assumes "fs_use_disk_pq fs \<longrightarrow> pt_n_chunks (fs_disk_pq fs) \<le> length coords"
  shows "exact_distance fs pr (pad_row (fs_aligned_dim fs * cd_size (fs_codec fs)) coords) = exact_distance fs pr coords"
proof (cases "fs_use_disk_pq fs")
  case True
  let ?p = "pad_row (fs_aligned_dim fs * cd_size (fs_codec fs)) coords" and ?pt = "fs_disk_pq fs"
  have c: "center_at ?pt ?p chunk j = center_at ?pt coords chunk j" if "chunk < pt_n_chunks ?pt" for chunk j
    using that assms True by (intro center_at_pad) simp
  have "l2_distance ?pt q ?p = l2_distance ?pt q coords" for q
    unfolding l2_distance_def by (rule foldR_cong) (simp add: c)
  moreover have "foldR (\<lambda>chunk. chunk_loop ?pt chunk (\<lambda>j res. bindR (center_at ?pt ?p chunk j) (\<lambda>v. bindR (vec_at q j) (\<lambda>x.
       Inr (fl_add F32 res (fl_mul F32 v x)))))) [0..<pt_n_chunks ?pt] (Fin 0)
     = foldR (\<lambda>chunk. chunk_loop ?pt chunk (\<lambda>j res. bindR (center_at ?pt coords chunk j) (\<lambda>v. bindR (vec_at q j) (\<lambda>x.
       Inr (fl_add F32 res (fl_mul F32 v x)))))) [0..<pt_n_chunks ?pt] (Fin 0)" for q
    by (rule foldR_cong) (simp add: c)
  then have "inner_product ?pt q ?p = inner_product ?pt q coords" for q by (simp add: inner_product_def)
  ultimately show ?thesis using True by (simp add: exact_distance_def)
qed (simp add: exact_distance_def pad_row_twice)

lemma exact_distance_caches [simp]:
  "exact_distance (fs\<lparr>fs_nhood_cache := a, fs_coord_cache := b\<rparr>) pr = exact_distance fs pr"
  by (rule ext) (simp add: exact_distance_def)

lemma point_has_label_caches [simp]:
  "point_has_label (fs\<lparr>fs_nhood_cache := a, fs_coord_cache := b\<rparr>) p l = point_has_label fs p l"
  by (simp add: point_has_label_def)

lemma skip_point_caches [simp]: "skip_point (fs\<lparr>fs_nhood_cache := a, fs_coord_cache := b\<rparr>) l = skip_point fs l"
  by (intro ext) (simp add: skip_point_def cong: if_cong split: option.split)

lemma scratch_dists_caches [simp]: "scratch_dists (fs\<lparr>fs_nhood_cache := a, fs_coord_cache := b\<rparr>) dv = scratch_dists fs dv"
  by (rule ext) (simp add: scratch_dists_def)

text \<open>\<^bold>\<open>C15\<close> The caches change nothing of what a search sees: after \<^verbatim>\<open>load_cache_list\<close> exactly the nodes of
  the list are cached, and every node still has the neighbours, the exact and compressed distances and the filter
  it had when all nodes were read from disk.\<close>

theorem caches_are_transparent:
  assumes empty: "fs_nhood_cache fs = (\<lambda>_. None)" "fs_coord_cache fs = (\<lambda>_. None)" and load: "load_cache_list fs node_list = Inr fs'"
    and pq: "fs_use_disk_pq fs \<longrightarrow> pt_n_chunks (fs_disk_pq fs) \<le> fi_disk_bytes (fs_fi fs)"
    and ok: "beam_ok (flash_env fs pr dv w l io) n d f"
  shows "beam_ok (flash_env fs' pr dv w l io) n d f \<and> (\<forall>i < n. out_list (flash_env fs' pr dv w l io) i = out_list (flash_env fs pr dv w l io) i)
     \<and> (\<forall>i. cached (flash_env fs' pr dv w l io) i \<longleftrightarrow> i \<in> set node_list) \<and> skipped (flash_env fs' pr dv w l io) = skipped (flash_env fs pr dv w l io)"
proof -
  obtain a b where fs': "fs' = fs\<lparr>fs_nhood_cache := a, fs_coord_cache := b\<rparr>" and agree: "caches_agree fs (set node_list) (a, b)"
    using load_cache_list_agree [OF empty load] by blast
  let ?e = "flash_env fs pr dv w l io" and ?e' = "flash_env fs' pr dv w l io"
  have same: "be_width ?e' = be_width ?e" "be_sectors_per_node ?e' = be_sectors_per_node ?e" "be_dists ?e' = be_dists ?e"
     "be_full_dist ?e' = be_full_dist ?e" "be_skip ?e' = be_skip ?e" "be_node ?e' = be_node ?e"
     "be_full_dist ?e = exact_distance fs pr" "be_node ?e = beam_node (fs_fi fs) (fs_file fs)"
     "be_nhood_cache ?e' = a" "be_coord_cache ?e' = b" "be_nhood_cache ?e = (\<lambda>_. None)"
    by (simp_all add: flash_env_def fs' empty)
  have view: "node_view ?e i = Inr (i, c, ns) \<Longrightarrow> \<exists>c'. node_view ?e' i = Inr (i, c', ns) \<and> exact_distance fs pr c' = exact_distance fs pr c" for i c ns
  proof -
    assume v: "node_view ?e i = Inr (i, c, ns)"
    then have bn: "beam_node (fs_fi fs) (fs_file fs) i = Inr (c, ns)" by (auto simp: node_view_def same bindR_eq_Inr)
    show "\<exists>c'. node_view ?e' i = Inr (i, c', ns) \<and> exact_distance fs pr c' = exact_distance fs pr c"
    proof (cases "i \<in> set node_list")
      case False
      then show ?thesis using agree bn by (simp add: node_view_def same caches_agree_def)
    next
      case True
      then obtain c2 ns2 where r: "read_node (fs_fi fs) (fs_file fs) i = Inr (c2, ns2)" "a i = Some ns2"
         "b i = Some (pad_row (fs_aligned_dim fs * cd_size (fs_codec fs)) c2)" using spec [OF agree [unfolded caches_agree_def], of i] by auto
      have "c2 = c" "ns2 = ns" using read_node_beam [OF r(1)] bn by simp_all
      moreover have "exact_distance fs pr (pad_row (fs_aligned_dim fs * cd_size (fs_codec fs)) c) = exact_distance fs pr c"
        by (rule exact_distance_pad) (use pq beam_node_coords [OF bn] in simp)
      ultimately show ?thesis using r(2,3) by (simp add: node_view_def cached_node_def same)
    qed
  qed
  have ol: "out_list ?e' i = out_list ?e i" if "i < n" for i
  proof -
    obtain c where "node_view ?e i = Inr (i, c, out_list ?e i)" using beam_okD(1) [OF ok \<open>i < n\<close>] by blast
    from view [OF this] show ?thesis by (auto simp: out_list_def [of ?e'])
  qed
  have "beam_ok ?e' n d f" unfolding beam_ok_def same(1-5)
  proof (intro conjI allI impI)
    fix i assume i: "i < n"
    obtain c where c: "node_view ?e i = Inr (i, c, out_list ?e i)" "be_full_dist ?e c = Inr (f i)" using beam_okD(1) [OF ok i] by blast
    obtain c' where "node_view ?e' i = Inr (i, c', out_list ?e i)" "exact_distance fs pr c' = exact_distance fs pr c" using view [OF c(1)] by blast
    then show "\<exists>coords ns. node_view ?e' i = Inr (i, coords, ns) \<and> be_full_dist ?e coords = Inr (f i) \<and> be_dists ?e ns = Inr (map d ns) \<and> (\<forall>m \<in> set ns. m < n)"
      using c(2) beam_okD(2,3) [OF ok i] by (simp add: same(7))
  qed (use ok beam_okD(5-7) [OF ok] in \<open>auto simp: beam_ok_def\<close>)
  moreover have "cached ?e' i \<longleftrightarrow> i \<in> set node_list" for i using agree by (auto simp: cached_def same caches_agree_def)
  moreover have "skipped ?e' = skipped ?e" by (rule ext) (simp add: skipped_def same)
  ultimately show ?thesis using ol by blast
qed

text \<open>One point, read from a file of zeros and then from the cache.\<close>

definition blank_disk_index :: "nat flash_search" where
  "blank_disk_index = one_point_index\<lparr>fs_fi := (fs_fi one_point_index)\<lparr>fi_disk_bytes := 4\<rparr>, fs_file := replicate 8192 0,
     fs_nhood_cache := (\<lambda>_. None), fs_coord_cache := (\<lambda>_. None)\<rparr>"

lemma blank_node: "read_node (fs_fi blank_disk_index) (fs_file blank_disk_index) 0 = Inr ([0, 0, 0, 0], [])"
proof -
  let ?fi = "fs_fi blank_disk_index" and ?four = "replicate 4 (0::nat)"
  have "get_node_sector ?fi 0 = 1" "node_sectors ?fi = 1" "offset_to_node ?fi 0 = 0" and b: "fi_disk_bytes ?fi = 4"
    by (simp_all add: blank_disk_index_def one_point_index_def get_node_sector_def node_sectors_def offset_to_node_def)
  then have "read_sectors ?fi (fs_file blank_disk_index) 0 = Inr (replicate 4096 0)" "node_coords ?fi (replicate 4096 0) 0 = Inr ?four"
    "mem_get (replicate 4096 (0::nat)) (offset_to_node ?fi 0 + fi_disk_bytes ?fi) 4 = Inr ?four"
    "mem_get (replicate 4096 (0::nat)) (offset_to_node ?fi 0 + fi_disk_bytes ?fi + 4) 0 = Inr []"
    by (simp_all add: read_sectors_def node_coords_def mem_get_def blank_disk_index_def SECTOR_LEN_def)
  moreover have "?four = [0, 0, 0, 0]" by (simp add: numeral_eq_Suc)
  ultimately show ?thesis
    by (simp add: read_node_def node_nhood_def Let_def)
qed

lemma caches_are_transparent_witness:
  "\<exists>fs'. load_cache_list blank_disk_index [0] = Inr fs'
     \<and> beam_ok (flash_env fs' \<lparr>pr_aligned = [5], pr_float = [Fin 0], pr_rotated = [Fin 0], pr_norm = Fin 0\<rparr>
        (distance_table (fs_pq one_point_index) [Fin 0] @ drop 256 (replicate (256 * MAX_PQ_CHUNKS) (Fin 0))) 1 None 10)
        1 (\<lambda>_. Fin 0) (\<lambda>_. Fin 0)"
proof -
  let ?fs = blank_disk_index and ?pr = "\<lparr>pr_aligned = [5], pr_float = [Fin 0], pr_rotated = [Fin 0], pr_norm = Fin 0\<rparr> :: nat prepared"
  let ?dv = "distance_table (fs_pq one_point_index) [Fin 0] @ drop 256 (replicate (256 * MAX_PQ_CHUNKS) (Fin 0))"
  let ?env = "flash_env ?fs ?pr ?dv 1 None 10"
  have f: "fs_aligned_dim ?fs = 1" "cd_size (fs_codec ?fs) = 4" "fi_disk_bytes (fs_fi ?fs) = 4" "\<not> fs_use_disk_pq ?fs"
    by (simp_all add: blank_disk_index_def one_point_index_def u32_codec_def)
  have load: "\<exists>fs'. load_cache_list ?fs [0] = Inr fs'"
    by (simp add: load_cache_list_def cache_block_def read_nodes_def blank_node f div_round_up_def foldR_one split: prod.split)
  then obtain fs' where fs': "load_cache_list ?fs [0] = Inr fs'" by blast
  have "scratch_dists ?fs = scratch_dists one_point_index"
    by (intro ext) (simp add: scratch_dists_def blank_disk_index_def)
  then have "be_dists ?env = scratch_dists one_point_index ?dv" by (simp add: flash_env_def)
  moreover have "be_node ?env 0 = Inr ([0, 0, 0, 0], [])" using read_node_beam [OF blank_node] by (simp add: flash_env_def)
  moreover have "be_nhood_cache ?env 0 = None" "be_full_dist ?env [0, 0, 0, 0] = Inr (Fin 0)" "be_skip ?env 0 = Inr False"
     "be_width ?env = 1" "be_sectors_per_node ?env = 1"
    by (simp_all add: flash_env_def blank_disk_index_def one_point_index_def exact_distance_def skip_point_def node_sectors_def)
  ultimately have ok: "beam_ok ?env 1 (\<lambda>_. Fin 0) (\<lambda>_. Fin 0)"
    using one_point_dists [of "[]"] one_point_dists [of "[0]"] by (simp add: beam_ok_def node_view_def MAX_N_SECTOR_READS_def)
  have empty: "fs_nhood_cache ?fs = (\<lambda>_. None)" "fs_coord_cache ?fs = (\<lambda>_. None)" by (simp_all add: blank_disk_index_def)
  show ?thesis using caches_are_transparent [OF empty fs' _ ok] fs' f(4) by blast
qed


section \<open>What the breadth-first search picks\<close>

inductive_set bfs_reach :: "(nat \<Rightarrow> nat list) \<Rightarrow> nat set \<Rightarrow> nat set" for nbrs starts where
  bfs_reach_start: "i \<in> starts \<Longrightarrow> i \<in> bfs_reach nbrs starts"
| bfs_reach_step: "i \<in> bfs_reach nbrs starts \<Longrightarrow> m \<in> set (nbrs i) \<Longrightarrow> m \<in> bfs_reach nbrs starts"

lemma bfs_reach_least: "starts \<subseteq> X \<Longrightarrow> \<forall>i \<in> X. set (nbrs i) \<subseteq> X \<Longrightarrow> bfs_reach nbrs starts \<subseteq> X"
proof (rule subsetI)
  fix x assume a: "starts \<subseteq> X" "\<forall>i \<in> X. set (nbrs i) \<subseteq> X"
  show "x \<in> bfs_reach nbrs starts \<Longrightarrow> x \<in> X" by (induction rule: bfs_reach.induct) (use a in auto)
qed

text \<open>Exploring with the set \<open>N\<close> fixed: \<open>C\<close> is the next level so far, \<open>S\<close> the neighbours seen.\<close>

definition explored :: "nat \<Rightarrow> nat set \<Rightarrow> nat set \<Rightarrow> nat set \<times> bool \<Rightarrow> bool" where
  "explored budget N S st \<longleftrightarrow> finite (fst st) \<and> fst st \<inter> N = {} \<and> fst st \<subseteq> S
     \<and> (if snd st then card (fst st) + card N = budget else card (fst st) + card N < budget \<and> S \<subseteq> fst st \<union> N)"

lemma explored_finished: "snd st \<Longrightarrow> explored budget N S st \<Longrightarrow> S \<subseteq> T \<Longrightarrow> explored budget N T st"
  by (auto simp: explored_def)

lemma explore_nbrs_explored: "explored budget N S st \<Longrightarrow> explored budget N (S \<union> set ns) (explore_nbrs budget N ns st)"
proof (induction ns arbitrary: S st)
  case (Cons m ns)
  obtain C fin where st: "st = (C, fin)" by (cases st)
  show ?case
  proof (cases fin)
    case True
    then have "explore_nbrs budget N (m # ns) st = st" by (simp add: st)
    then show ?thesis using True Cons.prems by (simp del: explore_nbrs.simps) (rule explored_finished, auto simp: st)
  next
    case False
    let ?C = "if m \<notin> N then insert m C else C"
    have C: "finite C" "C \<inter> N = {}" "C \<subseteq> S" "card C + card N < budget" "S \<subseteq> C \<union> N"
      using Cons.prems False by (simp_all add: explored_def st)
    have "card ?C \<le> Suc (card C)" using C(1) by (simp add: card_insert_if)
    then have "explored budget N (insert m S) (?C, budget \<le> card ?C + card N)"
      using C by (auto simp: explored_def)
    from Cons.IH [OF this] False show ?thesis by (simp add: st Let_def)
  qed
qed simp

lemma explore_nodes_explored:
  "explored budget N S st \<Longrightarrow> explored budget N (S \<union> (\<Union>i \<in> set ids. set (nbrs i)))
     (fold (\<lambda>(_, ns). explore_nbrs budget N ns) (map (\<lambda>i. (c i, nbrs i)) ids) st)"
proof (induction ids arbitrary: S st)
  case (Cons i ids)
  from Cons.IH [OF explore_nbrs_explored [OF Cons.prems, of "nbrs i"]] show ?case by (simp add: Un_assoc)
qed simp

lemma mapR_ok: "\<forall>x \<in> set xs. f x = Inr (g x) \<Longrightarrow> mapR f xs = Inr (map g xs)"
  by (induction xs) simp_all

lemma explore_block_explored:
  assumes "\<forall>i \<in> set ids. read_node fi file i = Inr (c i, nbrs i)" "explored budget N S st"
  shows "\<exists>st'. explore_block fi file budget N ids st = Inr st' \<and> explored budget N (S \<union> (\<Union>i \<in> set ids. set (nbrs i))) st'"
proof (cases "snd st")
  case True
  then show ?thesis using explored_finished [OF True assms(2)] by (auto simp: explore_block_def)
next
  case False
  have "read_nodes fi file ids = Inr (map (\<lambda>i. (c i, nbrs i)) ids)" unfolding read_nodes_def by (rule mapR_ok [OF assms(1)])
  then show ?thesis using False explore_nodes_explored [OF assms(2)] by (simp add: explore_block_def)
qed

lemma explore_blocks_explored:
  assumes "\<forall>i \<in> set xs. read_node fi file i = Inr (c i, nbrs i)" "card N < budget"
  shows "\<exists>st'. foldR (\<lambda>block. explore_block fi file budget N (take 1024 (drop (block * 1024) xs))) [0..<k] ({}, False) = Inr st'
     \<and> explored budget N (\<Union>i \<in> (\<Union>b \<in> {..<k}. set (take 1024 (drop (b * 1024) xs))). set (nbrs i)) st'"
proof (induction k)
  case 0
  then show ?case using assms(2) by (simp add: explored_def)
next
  case (Suc k)
  then obtain st where st: "foldR (\<lambda>block. explore_block fi file budget N (take 1024 (drop (block * 1024) xs))) [0..<k] ({}, False) = Inr st"
     "explored budget N (\<Union>i \<in> (\<Union>b \<in> {..<k}. set (take 1024 (drop (b * 1024) xs))). set (nbrs i)) st" by blast
  have r: "\<forall>i \<in> set (take 1024 (drop (k * 1024) xs)). read_node fi file i = Inr (c i, nbrs i)"
    using assms(1) by (auto dest: in_set_takeD in_set_dropD)
  from explore_block_explored [OF r st(2)] show ?case by (simp add: st(1) foldR_append foldR_one lessThan_Suc Un_commute)
qed

lemma bfs_level_ok:
  assumes read: "\<forall>i \<in> P. read_node fi file i = Inr (c i, nbrs i)" and arr: "set (arrange P) = P"
    and st: "N \<inter> P = {}" "finite N" "finite P" "card N + card P < budget"
  shows "\<exists>C fin. bfs_level fi file budget arrange (N, P) = Inr (N \<union> P, C) \<and> explored budget (N \<union> P) (\<Union>i \<in> P. set (nbrs i)) (C, fin)"
proof -
  have P: "P - N = P" using st(1) by blast
  have "card (N \<union> P) < budget" using st by (simp add: card_Un_disjoint)
  from explore_blocks_explored [of "arrange P", unfolded arr, OF read this, of "div_round_up (length (arrange P)) 1024"]
  obtain st' where "foldR (\<lambda>block. explore_block fi file budget (N \<union> P) (take 1024 (drop (block * 1024) (arrange P))))
        [0..<div_round_up (length (arrange P)) 1024] ({}, False) = Inr st'" "explored budget (N \<union> P) (\<Union>i \<in> P. set (nbrs i)) st'"
    using blocks_cover [of 1024 "arrange P", unfolded arr] by (metis zero_less_numeral)
  then show ?thesis by (cases st') (auto simp: bfs_level_def P)
qed

text \<open>The invariant of the rounds: every level before the last is expanded, unless the budget is used up.\<close>

definition bfs_inv :: "nat \<Rightarrow> (nat \<Rightarrow> nat list) \<Rightarrow> nat set \<Rightarrow> nat set \<times> nat set \<Rightarrow> bool" where
  "bfs_inv budget nbrs starts st \<longleftrightarrow> (let (N, C) = st in finite N \<and> finite C \<and> N \<inter> C = {} \<and> card N + card C \<le> budget \<and> starts \<subseteq> N \<union> C
     \<and> N \<union> C \<subseteq> bfs_reach nbrs starts \<and> (card N + card C = budget \<or> (\<forall>i \<in> N. set (nbrs i) \<subseteq> N \<union> C)))"

lemma bfs_level_inv:
  assumes read: "\<forall>i \<in> bfs_reach nbrs starts. read_node fi file i = Inr (c i, nbrs i)" and arr: "set (arrange P) = P"
    and inv: "bfs_inv budget nbrs starts (N, P)" and lt: "card N + card P < budget"
  shows "\<exists>C. bfs_level fi file budget arrange (N, P) = Inr (N \<union> P, C) \<and> bfs_inv budget nbrs starts (N \<union> P, C)"
proof -
  have I: "finite N" "finite P" "N \<inter> P = {}" "starts \<subseteq> N \<union> P" "N \<union> P \<subseteq> bfs_reach nbrs starts" "\<forall>i \<in> N. set (nbrs i) \<subseteq> N \<union> P"
    using inv lt by (auto simp: bfs_inv_def)
  have "\<forall>i \<in> P. read_node fi file i = Inr (c i, nbrs i)" using read I(5) by blast
  from bfs_level_ok [where arrange = arrange, OF this arr I(3,1,2) lt]
  obtain C fin where C: "bfs_level fi file budget arrange (N, P) = Inr (N \<union> P, C)" and ex: "explored budget (N \<union> P) (\<Union>i \<in> P. set (nbrs i)) (C, fin)"
    by blast
  have X: "finite C" "(N \<union> P) \<inter> C = {}" "C \<subseteq> (\<Union>i \<in> P. set (nbrs i))" "card (N \<union> P) + card C \<le> budget"
     "card (N \<union> P) + card C = budget \<or> (\<Union>i \<in> P. set (nbrs i)) \<subseteq> C \<union> (N \<union> P)"
    using ex by (auto simp: explored_def split: if_splits)
  have "C \<subseteq> bfs_reach nbrs starts" using X(3) I(5) bfs_reach_step [of _ nbrs starts] by blast
  moreover have "card (N \<union> P) + card C = budget \<or> (\<forall>i \<in> N \<union> P. set (nbrs i) \<subseteq> (N \<union> P) \<union> C)" using X(5) I(6) by blast
  ultimately have "bfs_inv budget nbrs starts (N \<union> P, C)" using I X by (auto simp: bfs_inv_def)
  then show ?thesis using C by blast
qed

lemma bfs_loop_ok:
  assumes read: "\<forall>i \<in> bfs_reach nbrs starts. read_node fi file i = Inr (c i, nbrs i)" and arr: "\<forall>S. finite S \<longrightarrow> set (arrange S) = S"
  shows "bfs_inv budget nbrs starts (N, P) \<Longrightarrow> budget - card N < fuel \<Longrightarrow>
     \<exists>N' C. bfs_loop fuel fi file budget arrange (N, P) = Inr (N', C) \<and> bfs_inv budget nbrs starts (N', C) \<and> (card N' + card C = budget \<or> C = {})"
proof (induction fuel arbitrary: N P)
  case (Suc fuel)
  have I: "finite N" "finite P" "N \<inter> P = {}" "card N + card P \<le> budget" using Suc.prems(1) by (simp_all add: bfs_inv_def)
  show ?case
  proof (cases "card N + card P < budget \<and> card P \<noteq> 0")
    case False
    then show ?thesis using Suc.prems(1) I by (auto simp: bfs_loop.simps)
  next
    case True
    have "set (arrange P) = P" using arr I(2) by blast
    from bfs_level_inv [where arrange = arrange, OF read this Suc.prems(1)] True obtain C where
      C: "bfs_level fi file budget arrange (N, P) = Inr (N \<union> P, C)" "bfs_inv budget nbrs starts (N \<union> P, C)" by blast
    have "card (N \<union> P) = card N + card P" using I by (simp add: card_Un_disjoint)
    then have "budget - card (N \<union> P) < fuel" using Suc.prems(2) True by linarith
    from Suc.IH [OF C(2) this] show ?thesis using True C(1) by (simp add: bfs_loop.simps [of "Suc fuel"])
  qed
qed simp

lemma add_starts_ok:
  "finite C \<Longrightarrow> card C \<le> budget \<Longrightarrow> finite (add_starts budget ms C) \<and> card (add_starts budget ms C) \<le> budget
     \<and> C \<subseteq> add_starts budget ms C \<and> add_starts budget ms C \<subseteq> C \<union> set ms
     \<and> (card (add_starts budget ms C) < budget \<longrightarrow> add_starts budget ms C = C \<union> set ms)"
proof (induction ms arbitrary: C)
  case (Cons m ms)
  show ?case
  proof (cases "card C < budget")
    case True
    then have "finite (insert m C)" "card (insert m C) \<le> budget" using Cons.prems by (simp_all add: card_insert_if)
    from Cons.IH [OF this] True show ?thesis by auto
  qed (use Cons.prems in auto)
qed simp

text \<open>\<^bold>\<open>C26\<close> When every node that can be reached from the medoids can be read, the breadth-first choice of nodes to cache
  ends, lists no node twice and none that cannot be reached, lists at most its budget, and if it lists fewer it lists all that
  can be reached.\<close>

theorem cache_bfs_levels_spec:
  assumes budget: "budget = cache_budget (fi_num_points (fs_fi fs)) num_nodes_to_cache"
    and reach: "R = bfs_reach nbrs (set (fs_medoids fs) \<union> set filter_starts)"
    and read: "\<forall>i \<in> R. read_node (fs_fi fs) (fs_file fs) i = Inr (c i, nbrs i)"
    and order: "\<forall>S. finite S \<longrightarrow> set (arrange S) = S" "\<forall>S. finite S \<longrightarrow> distinct (iterate S) \<and> set (iterate S) = S"
  shows "\<exists>node_list. cache_bfs_levels fs filter_starts arrange iterate num_nodes_to_cache = Inr node_list
     \<and> distinct node_list \<and> set node_list \<subseteq> R \<and> length node_list \<le> budget \<and> (length node_list < budget \<longrightarrow> set node_list = R)"
proof -
  let ?all = "set (fs_medoids fs) \<union> set filter_starts"
  let ?medoids = "add_starts budget (fs_medoids fs) {}"
  let ?starts = "add_starts budget filter_starts ?medoids"
  have m: "finite ?medoids" "card ?medoids \<le> budget" "?medoids \<subseteq> set (fs_medoids fs)"
     "card ?medoids < budget \<longrightarrow> ?medoids = set (fs_medoids fs)" using add_starts_ok [of "{}" budget "fs_medoids fs"] by simp_all
  note s = add_starts_ok [OF m(1,2), of filter_starts]
  have sub: "?starts \<subseteq> ?all" using s m(3) by blast
  have full: "card ?starts < budget \<Longrightarrow> ?starts = ?all"
    using s m(4) card_mono [of ?starts ?medoids] by auto
  have "bfs_reach nbrs ?starts \<subseteq> R"
    unfolding reach by (rule bfs_reach_least) (use sub bfs_reach_start [of _ ?all nbrs] bfs_reach_step [of _ nbrs ?all] in blast)+
  then have rd: "\<forall>i \<in> bfs_reach nbrs ?starts. read_node (fs_fi fs) (fs_file fs) i = Inr (c i, nbrs i)" using read by blast
  have "bfs_inv budget nbrs ?starts ({}, ?starts)" using s bfs_reach_start [of _ ?starts nbrs] by (auto simp: bfs_inv_def)
  from bfs_loop_ok [OF rd order(1) this, of "budget + 1"] obtain N C where
    r: "bfs_loop (budget + 1) (fs_fi fs) (fs_file fs) budget arrange ({}, ?starts) = Inr (N, C)" "bfs_inv budget nbrs ?starts (N, C)"
       "card N + card C = budget \<or> C = {}" by auto
  have I: "finite N" "finite C" "N \<inter> C = {}" "card N + card C \<le> budget" "?starts \<subseteq> N \<union> C" "N \<union> C \<subseteq> bfs_reach nbrs ?starts"
     "card N + card C = budget \<or> (\<forall>i \<in> N. set (nbrs i) \<subseteq> N \<union> C)" using r(2) by (simp_all add: bfs_inv_def)
  let ?xs = "iterate N @ iterate C"
  have x: "set ?xs = N \<union> C" "distinct ?xs" using order(2) I(1-3) by auto
  then have len: "length ?xs = card N + card C" using I by (metis card_Un_disjoint distinct_card)
  have "set ?xs = R" if "length ?xs < budget"
  proof -
    have "C = {}" "\<forall>i \<in> N. set (nbrs i) \<subseteq> N" using that len r(3) I(7) by auto
    moreover have "card ?starts < budget" using that len card_mono [OF _ I(5)] I(1,2) card_Un_le [of N C] by simp
    ultimately have "bfs_reach nbrs ?all \<subseteq> N" using full I(5) by (intro bfs_reach_least) auto
    then show ?thesis using x(1) I(6) \<open>C = {}\<close> \<open>bfs_reach nbrs ?starts \<subseteq> R\<close> reach by blast
  qed
  moreover have "cache_bfs_levels fs filter_starts arrange iterate num_nodes_to_cache = Inr ?xs"
    using r(1) by (simp add: cache_bfs_levels_def budget [symmetric] Let_def)
  ultimately show ?thesis using x I(4,6) len \<open>bfs_reach nbrs ?starts \<subseteq> R\<close> by (intro exI [of _ ?xs]) auto
qed

lemma cache_bfs_levels_spec_witness:
  "cache_bfs_levels blank_disk_index [] sorted_list_of_set sorted_list_of_set 5 = Inr [0]"
proof -
  have b: "0 < cache_budget 1 5" by (simp add: cache_budget_def Let_def)
  have n: "fi_num_points (fs_fi blank_disk_index) = 1" "fs_medoids blank_disk_index = [0]"
    by (simp_all add: blank_disk_index_def one_point_index_def)
  have "bfs_reach (\<lambda>_. []) {0} = {0}" using bfs_reach_least [of "{0}" "{0}" "\<lambda>_. []"] bfs_reach_start [of 0 "{0}" "\<lambda>_. []"] by auto
  then obtain xs where "cache_bfs_levels blank_disk_index [] sorted_list_of_set sorted_list_of_set 5 = Inr xs"
     "distinct xs" "set xs \<subseteq> {0}" "length xs < cache_budget 1 5 \<longrightarrow> set xs = {0}"
    using cache_bfs_levels_spec [OF refl refl, where fs = blank_disk_index and nbrs = "\<lambda>_. []" and filter_starts = "[]"
      and c = "\<lambda>_. [0, 0, 0, 0]" and arrange = sorted_list_of_set and iterate = sorted_list_of_set and num_nodes_to_cache = 5] blank_node
    by (auto simp: n)
  then show ?thesis using b by (cases xs) (auto simp: subset_singleton_iff distinct_singleton)
qed

end
