(* ===== verification/Pq_Train.thy ===== *)
theory Pq_Train
  imports Kmeans Pq_Table
begin

text \<open>
  Training a product quantiser and compressing with it (\<^verbatim>\<open>src/pq.cpp\<close>): cutting the dimensions into
  chunks, k-means in every chunk, the pivot file, and \<^verbatim>\<open>generate_pq_data_from_pivots\<close>. The random numbers of the
  chunks are parameters; \<open>kfuel\<close> bounds the darts thrown for one chunk.
\<close>

section \<open>Cutting the dimensions into chunks\<close>

text \<open>Conversions of a \<^verbatim>\<open>double\<close> to \<^verbatim>\<open>size_t\<close> after rounding down or up; a value out of range is undefined.\<close>

definition size_of_fl :: "(rat \<Rightarrow> int) \<Rightarrow> fl \<Rightarrow> nat result" where
  "size_of_fl rnd x = (case x of Fin q \<Rightarrow> if 0 \<le> rnd q \<and> rnd q < 2 ^ 64 then Inr (nat (rnd q)) else Inl UndefinedBehaviour
      | _ \<Rightarrow> Inl UndefinedBehaviour)"

definition chunk_quotient :: "nat \<Rightarrow> nat \<Rightarrow> fl" where
  "chunk_quotient dims chunks = fl_div F64 (f64 (of_nat dims)) (f64 (of_nat chunks))"

text \<open>The bin for a dimension: the least loaded one that is not full; the loads are never changed.\<close>

fun best_bin :: "fl list \<Rightarrow> nat list list \<Rightarrow> nat \<Rightarrow> nat \<Rightarrow> nat \<Rightarrow> fl \<Rightarrow> nat" where
  "best_bin [] bins threshold b cur_best cur_best_load = cur_best"
| "best_bin (load # loads) bins threshold b cur_best cur_best_load =
     (if fl_lt load cur_best_load \<and> length (bins ! b) < threshold then best_bin loads bins threshold (b + 1) b load
      else best_bin loads bins threshold (b + 1) cur_best cur_best_load)"

definition assign_dim :: "nat \<Rightarrow> nat \<Rightarrow> nat \<Rightarrow> nat \<Rightarrow> nat \<Rightarrow> nat list list \<times> nat \<times> nat \<Rightarrow> (nat list list \<times> nat \<times> nat) result" where
  "assign_dim chunks low_val high_val max_num_high d st =
     (let (bin_to_dims, cur_num_high, threshold) = st;
          b = best_bin (replicate chunks (Fin 0)) bin_to_dims threshold 0 (chunks + 1) FLT_MAX
      in bindR (vec_at bin_to_dims b) (\<lambda>dims.
         bindR (vec_put bin_to_dims b (dims @ [d])) (\<lambda>bins.
           if length (dims @ [d]) = high_val
           then Inr (bins, cur_num_high + 1, if cur_num_high + 1 = max_num_high then low_val else threshold)
           else Inr (bins, cur_num_high, threshold))))"

definition offsets_step :: "nat list list \<Rightarrow> nat \<Rightarrow> nat list \<Rightarrow> nat list" where
  "offsets_step bins b offsets = (if 0 < b then offsets @ [u32_add (offsets ! (b - 1)) (length (bins ! (b - 1)))] else offsets)"

definition chunk_bins :: "nat \<Rightarrow> nat \<Rightarrow> nat list list result" where
  "chunk_bins dims chunks =
     bindR (size_of_fl floor (chunk_quotient dims chunks)) (\<lambda>low_val.
     bindR (size_of_fl ceiling (chunk_quotient dims chunks)) (\<lambda>high_val.
     bindR (foldR (assign_dim chunks low_val high_val (dims - low_val * chunks)) [0..<dims] (replicate chunks [], 0, high_val)) (\<lambda>(bins, _).
       Inr bins)))"

definition chunk_offsets_of :: "nat \<Rightarrow> nat \<Rightarrow> nat list result" where
  "chunk_offsets_of dims chunks =
     bindR (chunk_bins dims chunks) (\<lambda>bins. Inr (fold (offsets_step bins) [0..<chunks] [0] @ [dims]))"

section \<open>Training\<close>

text \<open>Centring the data: the sum in the order of the points, divided by their number as \<^verbatim>\<open>float\<close>.\<close>

definition mean_dim :: "fl list \<Rightarrow> nat \<Rightarrow> nat \<Rightarrow> nat \<Rightarrow> fl result" where
  "mean_dim data num_train dims d =
     bindR (foldR (\<lambda>p s. bindR (vec_at data (p * dims + d)) (\<lambda>x. Inr (fl_add F32 s x))) [0..<num_train] (Fin 0)) (\<lambda>s.
       Inr (fl_div F32 s (f32 (of_nat num_train))))"

definition center_rows :: "fl list \<Rightarrow> nat \<Rightarrow> nat \<Rightarrow> fl list \<Rightarrow> fl list" where
  "center_rows data n dims centroid =
     map (\<lambda>t. if t < n * dims then fl_sub F32 (data ! t) (centroid ! (t mod dims)) else data ! t) [0..<length data]"

definition centre_train_data :: "fl list \<Rightarrow> nat \<Rightarrow> nat \<Rightarrow> bool \<Rightarrow> (fl list \<times> fl list) result" where
  "centre_train_data passed_train_data num_train dims make_zero_mean =
     bindR (mem_get passed_train_data 0 (num_train * dims)) (\<lambda>train_data.
     if make_zero_mean
     then bindR (mapR (mean_dim train_data num_train dims) [0..<dims]) (\<lambda>centroid. Inr (center_rows train_data num_train dims centroid, centroid))
     else Inr (train_data, replicate dims (Fin 0)))"

text \<open>The columns of a chunk out of a matrix, and back into one.\<close>

definition chunk_columns :: "'a list \<Rightarrow> nat \<Rightarrow> nat \<Rightarrow> nat \<Rightarrow> nat \<Rightarrow> 'a list result" where
  "chunk_columns data n dims offset width =
     bindR (mapR (\<lambda>j. mem_get data (j * dims + offset) width) [0..<n]) (\<lambda>rows. Inr (concat rows))"

definition put_columns :: "'a list \<Rightarrow> nat \<Rightarrow> nat \<Rightarrow> nat \<Rightarrow> nat \<Rightarrow> 'a list \<Rightarrow> 'a list result" where
  "put_columns cur n dims offset width full =
     foldR (\<lambda>j full. bindR (mem_get cur (j * width) width) (\<lambda>row. mem_put full (j * dims + offset) row)) [0..<n] full"

record training =
  tr_blas :: blas
  tr_order :: "nat list \<Rightarrow> nat list"
  tr_draws :: "nat \<Rightarrow> nat \<Rightarrow> nat"      \<comment> \<open>the integers drawn for a chunk\<close>
  tr_darts :: "nat \<Rightarrow> nat \<Rightarrow> fl"
  tr_fuel :: nat

definition train_chunk :: "training \<Rightarrow> fl list \<Rightarrow> nat \<Rightarrow> nat \<Rightarrow> nat \<Rightarrow> nat \<Rightarrow> nat \<Rightarrow> nat \<Rightarrow> nat \<Rightarrow> fl list \<Rightarrow> fl list result" where
  "train_chunk tr train_data num_train dims num_centers reps i offset width full =
     (if width = 0 then Inr full
      else bindR (chunk_columns train_data num_train dims offset width) (\<lambda>cur_data.
           bindR (kmeanspp_selecting_pivots (tr_fuel tr) cur_data num_train width (tr_draws tr i) (tr_darts tr i)
                    (replicate (num_centers * width) (Fin 0)) num_centers) (\<lambda>cur_pivots.
           bindR (run_lloyds (tr_blas tr) (tr_order tr) cur_data num_train width cur_pivots num_centers reps (replicate num_train 0)) (\<lambda>cl.
             put_columns (cl_centers cl) num_centers dims offset width full))))"

definition train_all_chunks :: "training \<Rightarrow> fl list \<Rightarrow> nat \<Rightarrow> nat \<Rightarrow> nat \<Rightarrow> nat \<Rightarrow> nat \<Rightarrow> nat list \<Rightarrow> fl list \<Rightarrow> fl list result" where
  "train_all_chunks tr train_data num_train dims num_centers chunks reps offsets full =
     foldR (\<lambda>i full. bindR (vec_at offsets i) (\<lambda>a. bindR (vec_at offsets (i + 1)) (\<lambda>b.
       train_chunk tr train_data num_train dims num_centers reps i a (u32_sub b a) full))) [0..<chunks] full"

section \<open>The pivot file\<close>

definition METADATA_SIZE :: nat where
  "METADATA_SIZE = 4096"

definition save_pivots :: "fl codec \<Rightarrow> byte list \<Rightarrow> fl list \<Rightarrow> fl list \<Rightarrow> nat list \<Rightarrow> nat \<Rightarrow> nat \<Rightarrow> byte list result" where
  "save_pivots F file pivots centroid offsets num_centers dims =
     bindR (save_bin F file pivots num_centers dims METADATA_SIZE) (\<lambda>(f1, s1). let b1 = METADATA_SIZE + s1 in
     bindR (save_bin F f1 centroid dims 1 b1) (\<lambda>(f2, s2). let b2 = b1 + s2 in
     bindR (save_bin u32_codec f2 offsets (length offsets) 1 b2) (\<lambda>(f3, s3). let b3 = b2 + s3 in
     bindR (save_bin u64_codec f3 [METADATA_SIZE, b1, b2, b3] 4 1 0) (\<lambda>(f4, _). Inr f4))))"

text \<open>The return value \<open>-1\<close> and the file as it was: more chunks than dimensions, or a file of this size exists.\<close>

definition pivots_exist :: "fl codec \<Rightarrow> byte list option \<Rightarrow> nat \<Rightarrow> nat \<Rightarrow> bool result" where
  "pivots_exist F old num_centers dims =
     (case old of None \<Rightarrow> Inr False
      | Some file \<Rightarrow> bindR (load_bin F file METADATA_SIZE) (\<lambda>(_, file_num_centers, file_dim).
          Inr (file_dim = dims \<and> file_num_centers = num_centers)))"

definition file_of :: "byte list option \<Rightarrow> byte list" where
  "file_of old = (case old of None \<Rightarrow> [] | Some file \<Rightarrow> file)"

definition generate_pq_pivots ::
  "training \<Rightarrow> fl codec \<Rightarrow> fl list \<Rightarrow> nat \<Rightarrow> nat \<Rightarrow> nat \<Rightarrow> nat \<Rightarrow> nat \<Rightarrow> byte list option \<Rightarrow> bool \<Rightarrow> (int \<times> byte list option) result" where
  "generate_pq_pivots tr F passed_train_data num_train dims num_centers chunks reps old make_zero_mean =
     (if dims < chunks then Inr (-1, old)
      else bindR (mem_get passed_train_data 0 (num_train * dims)) (\<lambda>_.
        bindR (pivots_exist F old num_centers dims) (\<lambda>exists.
        if exists then Inr (-1, old)
        else bindR (centre_train_data passed_train_data num_train dims make_zero_mean) (\<lambda>(train_data, centroid).
          bindR (chunk_offsets_of dims chunks) (\<lambda>offsets.
          bindR (train_all_chunks tr train_data num_train dims num_centers chunks reps offsets (replicate (num_centers * dims) (Fin 0))) (\<lambda>pivots.
          bindR (save_pivots F (file_of old) pivots centroid offsets num_centers dims) (\<lambda>file. Inr (0, Some file))))))))"

text \<open>The simplified training in memory; the buffers of a chunk are used again for the next.\<close>

definition train_chunk_simplified :: "training \<Rightarrow> fl list \<Rightarrow> nat \<Rightarrow> nat \<Rightarrow> nat \<Rightarrow> nat \<Rightarrow> fl list \<times> nat list \<times> fl list
    \<Rightarrow> (fl list \<times> nat list \<times> fl list) result" where
  "train_chunk_simplified tr train_data num_train dims width i st =
     (let (cur_pivots, closest_center, pivots) = st in
      bindR (chunk_columns train_data num_train dims (width * i) width) (\<lambda>cur_data.
      bindR (kmeanspp_selecting_pivots (tr_fuel tr) cur_data num_train width (tr_draws tr i) (tr_darts tr i) cur_pivots 256) (\<lambda>cur_pivots'.
      bindR (run_lloyds (tr_blas tr) (tr_order tr) cur_data num_train width cur_pivots' 256 15 closest_center) (\<lambda>cl.
      bindR (put_columns (cl_centers cl) 256 dims (width * i) width pivots) (\<lambda>pivots'. Inr (cl_centers cl, cl_closest cl, pivots'))))))"

definition generate_pq_pivots_simplified :: "training \<Rightarrow> fl list \<Rightarrow> nat \<Rightarrow> nat \<Rightarrow> nat \<Rightarrow> fl list \<Rightarrow> (int \<times> fl list) result" where
  "generate_pq_pivots_simplified tr train_data num_train dims chunks pivot_data_vector =
     (if dims < chunks then Inr (-1, pivot_data_vector)
      else if chunks = 0 then Inl UndefinedBehaviour
      else if dims mod chunks \<noteq> 0 then Inr (-1, pivot_data_vector)
      else let width = dims div chunks in
        bindR (foldR (train_chunk_simplified tr train_data num_train dims width) [0..<chunks]
           (replicate (256 * width) (Fin 0), replicate num_train 0, vec_resize (Fin 0) (256 * dims) pivot_data_vector)) (\<lambda>(_, _, pivots). Inr (0, pivots)))"

section \<open>Optimised training\<close>

text \<open>
  \<^verbatim>\<open>generate_opq_pivots\<close>: rounds of training in a rotated space, each ending with a new rotation from the
  singular vectors of the correlation matrix. \<open>svd\<close> is \<^verbatim>\<open>LAPACKE_sgesdd\<close>: an error code, then \<open>U\<close> and the transposed \<open>V\<close>.
\<close>

definition opq_chunk :: "training \<Rightarrow> nat \<Rightarrow> fl list \<Rightarrow> nat \<Rightarrow> nat \<Rightarrow> nat \<Rightarrow> nat \<Rightarrow> nat \<Rightarrow> nat \<Rightarrow> fl list \<times> fl list \<Rightarrow> (fl list \<times> fl list) result" where
  "opq_chunk tr rnd rotated num_train dims num_centers i offset width st =
     (if width = 0 then Inr st
      else let (full, quantized) = st in
        bindR (chunk_columns rotated num_train dims offset width) (\<lambda>cur_data.
        bindR (if rnd = 0
               then kmeanspp_selecting_pivots (tr_fuel tr) cur_data num_train width (tr_draws tr i) (tr_darts tr i)
                      (replicate (num_centers * width) (Fin 0)) num_centers
               else chunk_columns full num_centers dims offset width) (\<lambda>cur_pivots.
        bindR (run_lloyds (tr_blas tr) (tr_order tr) cur_data num_train width cur_pivots num_centers 8 (replicate num_train 0)) (\<lambda>cl.
        bindR (put_columns (cl_centers cl) num_centers dims offset width full) (\<lambda>full'.
        bindR (foldR (\<lambda>j q. bindR (vec_at (cl_closest cl) j) (\<lambda>c. bindR (mem_get (cl_centers cl) (c * width) width) (\<lambda>row.
                 mem_put q (j * dims + offset) row))) [0..<num_train] quantized) (\<lambda>quantized'. Inr (full', quantized')))))))"

definition opq_round :: "training \<Rightarrow> (nat \<Rightarrow> fl list \<Rightarrow> nat \<times> fl list \<times> fl list) \<Rightarrow> fl list \<Rightarrow> nat \<Rightarrow> nat \<Rightarrow> nat \<Rightarrow> nat \<Rightarrow> nat list \<Rightarrow> nat
    \<Rightarrow> fl list \<times> fl list \<times> fl list \<Rightarrow> (fl list \<times> fl list \<times> fl list) result" where
  "opq_round tr svd train_data num_train dims num_centers chunks offsets rnd st =
     (let (full, quantized, rotmat_tr) = st;
          rotated = sgemm (tr_blas tr) False False num_train dims dims (Fin 1) train_data rotmat_tr (Fin 0) (replicate (num_train * dims) (Fin 0))
      in bindR (foldR (\<lambda>i st. bindR (vec_at offsets i) (\<lambda>a. bindR (vec_at offsets (i + 1)) (\<lambda>b.
             opq_chunk tr rnd rotated num_train dims num_centers i a (u32_sub b a) st))) [0..<chunks] (full, quantized)) (\<lambda>(full', quantized').
         let correlation = sgemm (tr_blas tr) True False dims dims num_train (Fin 1) train_data quantized' (Fin 0) (replicate (dims * dims) (Fin 0));
             (errcode, u, vt) = svd dims correlation
         in if 0 < errcode then Inl ProcessExit
            else Inr (full', quantized', sgemm (tr_blas tr) False False dims dims dims (Fin 1) u vt (Fin 0) rotmat_tr)))"

definition identity_matrix :: "nat \<Rightarrow> fl list" where
  "identity_matrix n = map (\<lambda>t. if t div n = t mod n then Fin 1 else Fin 0) [0..<n * n]"

text \<open>Writes the pivot file over what is there, and the rotation matrix to a file of its own.\<close>

definition generate_opq_pivots ::
  "training \<Rightarrow> (nat \<Rightarrow> fl list \<Rightarrow> nat \<times> fl list \<times> fl list) \<Rightarrow> fl codec \<Rightarrow> fl list \<Rightarrow> nat \<Rightarrow> nat \<Rightarrow> nat \<Rightarrow> nat \<Rightarrow> byte list option \<Rightarrow> byte list \<Rightarrow> bool
     \<Rightarrow> (int \<times> byte list option \<times> byte list) result" where
  "generate_opq_pivots tr svd F passed_train_data num_train dims num_centers chunks old old_rotmat make_zero_mean =
     (if dims < chunks then Inr (-1, old, old_rotmat)
      else bindR (centre_train_data passed_train_data num_train dims make_zero_mean) (\<lambda>(train_data, centroid).
        bindR (chunk_offsets_of dims chunks) (\<lambda>offsets.
        bindR (foldR (opq_round tr svd train_data num_train dims num_centers chunks offsets) [0..<20]
            (replicate (num_centers * dims) (Fin 0), replicate (num_train * dims) (Fin 0), identity_matrix dims)) (\<lambda>(full, _, rotmat_tr).
        bindR (save_pivots F (file_of old) full centroid offsets num_centers dims) (\<lambda>file.
        bindR (save_bin F old_rotmat rotmat_tr dims dims 0) (\<lambda>(rotmat, _). Inr (0, Some file, rotmat)))))))"

section \<open>Compressing\<close>

text \<open>What \<^verbatim>\<open>generate_pq_data_from_pivots\<close> reads: pivots, centroid, chunk offsets and, for OPQ, the rotation.\<close>

definition read_pivots :: "fl codec \<Rightarrow> byte list option \<Rightarrow> byte list option \<Rightarrow> nat \<Rightarrow> nat \<Rightarrow> nat \<Rightarrow> bool
    \<Rightarrow> (fl list \<times> fl list \<times> nat list \<times> fl list) result" where
  "read_pivots F pivots_file rotmat_file num_centers dims chunks use_opq =
     (case pivots_file of None \<Rightarrow> Inl (ANNException ''PQ k-means pivot file not found'')
      | Some file \<Rightarrow>
        bindR (load_bin u64_codec file 0) (\<lambda>(offs, nr, nc).
        if nr \<noteq> 4 then Inl (pivots_error ''offsets'')
        else bindR (vec_at offs 0) (\<lambda>o0. bindR (load_bin F file o0) (\<lambda>(pivots, nr0, nc0).
        if nr0 \<noteq> num_centers \<or> nc0 \<noteq> dims then Inl (pivots_error ''pivots'')
        else bindR (vec_at offs 1) (\<lambda>o1. bindR (load_bin F file o1) (\<lambda>(centroid, nr1, nc1).
        if nr1 \<noteq> dims \<or> nc1 \<noteq> 1 then Inl (pivots_error ''centroid'')
        else bindR (vec_at offs 2) (\<lambda>o2. bindR (load_bin u32_codec file o2) (\<lambda>(offsets, nr2, nc2).
        if nr2 \<noteq> chunks + 1 \<or> nc2 \<noteq> 1 then Inl (ANNException ''Error reading pq_pivots file at chunk offsets.'')
        else if use_opq
        then case rotmat_file of None \<Rightarrow> Inl IosFailure
             | Some rfile \<Rightarrow> bindR (load_bin F rfile 0) (\<lambda>(rotmat, nr3, nc3).
                 if nr3 \<noteq> dims \<or> nc3 \<noteq> dims then Inl (ANNException ''Error reading rotation matrix file.'')
                 else Inr (pivots, centroid, offsets, rotmat))
        else Inr (pivots, centroid, offsets, [])))))))))"


definition BLOCK_SIZE :: nat where
  "BLOCK_SIZE = 5000000"

text \<open>One chunk of a block: its codes go to column \<open>i\<close> of the block's code matrix; an empty chunk leaves its column alone.\<close>

definition compress_chunk :: "blas \<Rightarrow> (nat list \<Rightarrow> nat list) \<Rightarrow> fl list \<Rightarrow> nat \<Rightarrow> nat \<Rightarrow> fl list \<Rightarrow> nat \<Rightarrow> nat list \<Rightarrow> nat \<Rightarrow> nat
    \<Rightarrow> nat list \<Rightarrow> nat list result" where
  "compress_chunk bl order block n dims pivots num_centers offsets chunks i codes =
     bindR (vec_at offsets i) (\<lambda>a. bindR (vec_at offsets (i + 1)) (\<lambda>b. let width = u32_sub b a in
     if width = 0 then Inr codes
     else bindR (chunk_columns block n dims a width) (\<lambda>cur_data.
          bindR (chunk_columns pivots num_centers dims a width) (\<lambda>cur_pivots.
          bindR (compute_closest_centers bl (\<lambda>q. q) order cur_data n width cur_pivots num_centers 1 None (replicate n 0, None)) (\<lambda>(closest, _).
            foldR (\<lambda>j codes. bindR (vec_at closest j) (\<lambda>c. vec_put codes (j * chunks + i) c)) [0..<n] codes)))))"

text \<open>A block of points: converted, centred, rotated for OPQ, coded, and written as bytes or as words.\<close>

definition code_bytes :: "nat \<Rightarrow> nat list \<Rightarrow> byte list" where
  "code_bytes num_centers codes = (if 256 < num_centers then le_array 4 codes else map (\<lambda>c. c mod 256) codes)"

definition prepare_block :: "blas \<Rightarrow> bool \<Rightarrow> fl list \<Rightarrow> nat \<Rightarrow> nat \<Rightarrow> fl list \<Rightarrow> fl list \<Rightarrow> fl list" where
  "prepare_block bl use_opq xs n dims centroid rotmat =
     (let centred = center_rows xs n dims centroid in
      if use_opq then sgemm bl False False n dims dims (Fin 1) centred rotmat (Fin 0) centred else centred)"

definition compress_block :: "blas \<Rightarrow> (nat list \<Rightarrow> nat list) \<Rightarrow> 'a codec \<Rightarrow> ('a \<Rightarrow> fl) \<Rightarrow> bool \<Rightarrow> nat \<Rightarrow> nat \<Rightarrow> nat \<Rightarrow> nat \<Rightarrow> nat
    \<Rightarrow> fl list \<times> fl list \<times> nat list \<times> fl list \<Rightarrow> nat \<Rightarrow> byte list \<times> nat list \<times> byte list \<Rightarrow> (byte list \<times> nat list \<times> byte list) result" where
  "compress_block bl order C tf use_opq num_points block_size dims num_centers chunks tables block st =
     (let (rest, codes, out) = st; (pivots, centroid, offsets, rotmat) = tables;
          n = min ((block + 1) * block_size) num_points - block * block_size in
      bindR (read_elems C (n * dims) rest) (\<lambda>(xs, rest').
      let prepared = prepare_block bl use_opq (map tf xs) n dims centroid rotmat in
      bindR (foldR (compress_chunk bl order prepared n dims pivots num_centers offsets chunks) [0..<chunks] codes) (\<lambda>codes'.
      bindR (mem_get codes' 0 (n * chunks)) (\<lambda>cs. Inr (rest', codes', out @ code_bytes num_centers cs)))))"

text \<open>With no points the number of blocks is computed by a division by zero.\<close>

definition generate_pq_data_from_pivots ::
  "blas \<Rightarrow> (nat list \<Rightarrow> nat list) \<Rightarrow> 'a codec \<Rightarrow> ('a \<Rightarrow> fl) \<Rightarrow> fl codec \<Rightarrow> byte list \<Rightarrow> nat \<Rightarrow> nat \<Rightarrow> byte list option \<Rightarrow> byte list option \<Rightarrow> bool
     \<Rightarrow> byte list result" where
  "generate_pq_data_from_pivots bl order C tf F data_file num_centers chunks pivots_file rotmat_file use_opq =
     bindR (read_uint 4 data_file) (\<lambda>(num_points, r1).
     bindR (read_uint 4 r1) (\<lambda>(dims, r2).
     bindR (read_pivots F pivots_file rotmat_file num_centers dims chunks use_opq) (\<lambda>tables.
     let block_size = (if num_points \<le> BLOCK_SIZE then num_points else BLOCK_SIZE) in
     if block_size = 0 then Inl UndefinedBehaviour
     else bindR (foldR (compress_block bl order C tf use_opq num_points block_size dims num_centers chunks tables)
             [0..<num_points div block_size + (if num_points mod block_size \<noteq> 0 then 1 else 0)]
             (r2, replicate (block_size * chunks) 0, bin_header num_points chunks)) (\<lambda>(_, _, out). Inr out))))"

text \<open>The simplified version in memory, whose codes are bytes.\<close>

definition compress_chunk_simplified :: "blas \<Rightarrow> (nat list \<Rightarrow> nat list) \<Rightarrow> fl list \<Rightarrow> nat \<Rightarrow> fl list \<Rightarrow> nat \<Rightarrow> nat \<Rightarrow> nat \<Rightarrow> nat
    \<Rightarrow> nat list \<times> nat list \<Rightarrow> (nat list \<times> nat list) result" where
  "compress_chunk_simplified bl order data n pivots dims chunks width i st =
     (let (closest, pq) = st in
      bindR (chunk_columns pivots 256 dims (width * i) width) (\<lambda>cur_pivots.
      bindR (chunk_columns data n dims (width * i) width) (\<lambda>cur_data.
      bindR (compute_closest_centers bl (\<lambda>q. q) order cur_data n width cur_pivots 256 1 None (closest, None)) (\<lambda>(closest', _).
      bindR (foldR (\<lambda>j pq. bindR (vec_at closest' j) (\<lambda>c. vec_put pq (j * chunks + i) (c mod 256))) [0..<n] pq) (\<lambda>pq'. Inr (closest', pq'))))))"

definition generate_pq_data_from_pivots_simplified ::
  "blas \<Rightarrow> (nat list \<Rightarrow> nat list) \<Rightarrow> fl list \<Rightarrow> nat \<Rightarrow> fl list \<Rightarrow> nat \<Rightarrow> nat \<Rightarrow> nat \<Rightarrow> nat list \<Rightarrow> (int \<times> nat list) result" where
  "generate_pq_data_from_pivots_simplified bl order data n pivot_data pivots_num dims chunks pq =
     (if chunks = 0 \<or> dims < chunks \<or> dims mod chunks \<noteq> 0 \<or> pivots_num \<noteq> 256 * dims then Inr (-1, pq)
      else bindR (foldR (compress_chunk_simplified bl order data n pivot_data dims chunks (dims div chunks)) [0..<chunks]
             (replicate n 0, vec_resize 0 (n * chunks) pq)) (\<lambda>(_, pq'). Inr (0, pq')))"


section \<open>The chunks\<close>

lemma round_mag_of_nat: "0 < n \<Longrightarrow> n < 2 ^ 53 \<Longrightarrow> round_mag F64 (of_nat n) = of_nat n"
proof (rule round_mag_exact [of _ "int n" 0])
  assume n: "0 < n" "n < 2 ^ 53"
  then have pos: "(0::rat) < of_nat n" by simp
  have "(of_nat n :: rat) < 2 ^ 53" using n(2) by (metis of_nat_less_iff of_nat_numeral of_nat_power)
  then have lt: "(of_nat n :: rat) < 2 powi 53" by simp
  have "ilog2 (of_nat n) < 53"
  proof (rule ccontr)
    assume "\<not> ilog2 (of_nat n) < 53"
    then have "(2::rat) powi 53 \<le> 2 powi ilog2 (of_nat n)" by (intro power_int_increasing) auto
    then show False using ilog2_bounds(1) [OF pos] lt by linarith
  qed
  then show "rexp F64 (of_nat n) - prec F64 + 1 \<le> 0" by (simp add: rexp_def emin_def)
qed simp

lemma f64_of_nat: "n < 2 ^ 53 \<Longrightarrow> f64 (of_nat n) = Fin (of_nat n)"
proof (cases "n = 0")
  case False
  assume n: "n < 2 ^ 53"
  then have "(of_nat n :: rat) < 2 ^ 53" by (metis of_nat_less_iff of_nat_numeral of_nat_power)
  also have "(2::rat) ^ 53 = 2 powi 53" by simp
  also have "(2::rat) powi 53 \<le> 2 powi (emax F64 + 1)" by (rule power_int_increasing) simp_all
  finally show ?thesis using False n round_mag_of_nat [of n] by (simp add: f64_def round_fl_def Let_def)
qed (simp add: f64_def)

lemma ulp_F64: "1 \<le> a \<Longrightarrow> ulp F64 a \<le> a * 2 powi (- 52)"
proof -
  assume a: "1 \<le> a"
  then have pos: "0 < a" by simp
  have "0 \<le> ilog2 a"
  proof (rule ccontr)
    assume "\<not> 0 \<le> ilog2 a"
    then have "(2::rat) powi (ilog2 a + 1) \<le> 2 powi 0" by (intro power_int_increasing) auto
    then show False using ilog2_bounds(2) [OF pos] a by simp
  qed
  then have "ulp F64 a = 2 powi (ilog2 a + (- 52))" by (simp add: ulp_def emin_def max_def)
  also have "\<dots> = 2 powi ilog2 a * 2 powi (- 52)" by (rule power_int_add) simp
  also have "\<dots> \<le> a * 2 powi (- 52)" by (rule mult_right_mono [OF ilog2_bounds(1) [OF pos]]) simp
  finally show ?thesis .
qed

text \<open>The quotient of two 32-bit numbers in \<^verbatim>\<open>double\<close> rounds to an integer only if it is one.\<close>

lemma chunk_quotient_ok:
  assumes ab: "0 < b" "b \<le> a" "a < 2 ^ 32"
  shows "\<exists>r. chunk_quotient a b = Fin r \<and> \<lfloor>r\<rfloor> = int (a div b) \<and> \<lceil>r\<rceil> = int (a div b + (if a mod b = 0 then 0 else 1))"
proof -
  let ?x = "of_nat a / of_nat b :: rat" and ?N = "a div b" and ?m = "a mod b"
  have big: "a < 2 ^ 53" "b < 2 ^ 53" using ab by simp_all
  have b: "(0::rat) < of_nat b" using ab(1) by simp
  have xb: "?x * of_nat b = of_nat a" using b by simp
  have x1: "1 \<le> ?x" using ab by simp
  have "?x \<le> of_nat a" using ab(1) by (simp add: divide_le_eq mult_le_cancel_left1)
  also have "(of_nat a :: rat) \<le> 2 ^ 32" using ab(3) by (metis less_imp_le of_nat_le_iff of_nat_numeral of_nat_power)
  also have "(2::rat) ^ 32 = 2 powi 32" by simp
  also have "(2::rat) powi 32 \<le> 2 powi emax F64" by (rule power_int_increasing) simp_all
  finally obtain r where r: "round_fl F64 ?x = Fin r" using round_fl_finite [of ?x F64] x1 by auto
  then have rm: "r = round_mag F64 ?x" using x1 by (auto simp: round_fl_def Let_def split: if_splits)
  have q: "chunk_quotient a b = Fin r" using r b big by (simp add: chunk_quotient_def f64_of_nat)
  have N: "0 < ?N" "?N < 2 ^ 53" using ab by (simp_all add: div_greater_zero_iff order.strict_trans1 [OF div_le_dividend])
  have am: "(of_nat a :: rat) = of_nat ?N * of_nat b + of_nat ?m" by (metis div_mult_mod_eq of_nat_add of_nat_mult)
  show ?thesis
  proof (cases "?m = 0")
    case True
    then have "?x = of_nat ?N" using am b by simp
    then have "r = of_nat ?N" using rm round_mag_of_nat [OF N] by simp
    then show ?thesis using q True by auto
  next
    case False
    have "\<bar>r - ?x\<bar> \<le> ulp F64 ?x / 2" using round_mag_error [of F64 ?x] rm by simp
    also have "\<dots> \<le> ?x * 2 powi (- 52)" using ulp_F64 [OF x1] ulp_pos [of F64 ?x] by linarith
    finally have "\<bar>r - ?x\<bar> * of_nat b \<le> ?x * 2 powi (- 52) * of_nat b" by (rule mult_right_mono) simp
    also have "\<dots> = of_nat a * 2 powi (- 52)" using b by simp
    also have "\<dots> < 1"
    proof -
      have "(of_nat a :: rat) < 2 ^ 32" using ab(3) by (metis of_nat_less_iff of_nat_numeral of_nat_power)
      then show ?thesis by (simp add: power_int_def power_divide field_simps)
    qed
    finally have e: "\<bar>r * of_nat b - of_nat a\<bar> < 1" using b xb
      by (simp add: abs_mult_pos left_diff_distrib)
    have m: "(1::rat) \<le> of_nat ?m" "of_nat ?m + 1 \<le> (of_nat b :: rat)"
    proof -
      show "(1::rat) \<le> of_nat ?m" using False by (metis less_one not_le of_nat_1 of_nat_le_iff)
      have "Suc ?m \<le> b" using ab(1) by (simp add: Suc_leI)
      then show "of_nat ?m + 1 \<le> (of_nat b :: rat)" by (metis of_nat_Suc add.commute of_nat_le_iff)
    qed
    have "of_nat ?N * of_nat b < r * of_nat b" using e m(1) am by linarith
    moreover have "r * of_nat b < (of_nat ?N + 1) * of_nat b" using e m(2) am by (simp add: distrib_right)
    ultimately have "of_nat ?N < r" "r < of_nat ?N + 1" using b by simp_all
    then have "\<lfloor>r\<rfloor> = int ?N" "\<lceil>r\<rceil> = int ?N + 1" by linarith+
    then show ?thesis using q False by auto
  qed
qed

lemma chunk_values:
  assumes "0 < b" "b \<le> a" "a < 2 ^ 32"
  shows "size_of_fl floor (chunk_quotient a b) = Inr (a div b)"
    "size_of_fl ceiling (chunk_quotient a b) = Inr (a div b + (if a mod b = 0 then 0 else 1))"
proof -
  obtain r where r: "chunk_quotient a b = Fin r" "\<lfloor>r\<rfloor> = int (a div b)" "\<lceil>r\<rceil> = int (a div b + (if a mod b = 0 then 0 else 1))"
    using chunk_quotient_ok [OF assms] by blast
  have "a div b \<le> a" by simp
  then have "a div b + 1 < 2 ^ 64" using order.strict_trans1 [OF \<open>a div b \<le> a\<close> assms(3)] by simp
  then have "int (a div b + 1) < int (2 ^ 64)" by (simp only: of_nat_less_iff)
  then have lt: "int (a div b) < 2 ^ 64" "int (a div b + 1) < 2 ^ 64" by simp_all
  show "size_of_fl floor (chunk_quotient a b) = Inr (a div b)" using lt(1) by (simp add: size_of_fl_def r)
  show "size_of_fl ceiling (chunk_quotient a b) = Inr (a div b + (if a mod b = 0 then 0 else 1))"
    using lt by (cases "a mod b = 0") (simp_all add: size_of_fl_def r nat_add_distrib)
qed

text \<open>Where chunk \<open>b\<close> starts: every chunk has \<open>q\<close> dimensions, the first \<open>r\<close> have one more.\<close>

definition chunk_start :: "nat \<Rightarrow> nat \<Rightarrow> nat \<Rightarrow> nat" where
  "chunk_start dims chunks b = b * (dims div chunks) + min b (dims mod chunks)"

definition chunk_high :: "nat \<Rightarrow> nat \<Rightarrow> nat" where
  "chunk_high dims chunks = dims div chunks + (if dims mod chunks = 0 then 0 else 1)"

lemma chunk_start_simps [simp]: "chunk_start dims chunks 0 = 0" "chunk_start dims chunks chunks = dims" if "0 < chunks"
proof -
  have "min chunks (dims mod chunks) = dims mod chunks" using that by (simp add: min_absorb2 less_imp_le)
  then show "chunk_start dims chunks chunks = dims" by (simp add: chunk_start_def)
qed (simp add: chunk_start_def)

lemma chunk_start_Suc: "chunk_start dims chunks (Suc b) = chunk_start dims chunks b + dims div chunks + (if b < dims mod chunks then 1 else 0)"
  by (simp add: chunk_start_def min_def)

lemma chunk_start_mono: "b \<le> c \<Longrightarrow> chunk_start dims chunks b \<le> chunk_start dims chunks c"
  by (simp add: chunk_start_def add_mono)

text \<open>The state after \<open>d\<close> dimensions: bin \<open>b\<close> holds those of its chunk below \<open>d\<close>.\<close>

definition bins_at :: "nat \<Rightarrow> nat \<Rightarrow> nat \<Rightarrow> nat list list" where
  "bins_at dims chunks d = map (\<lambda>b. [chunk_start dims chunks b..<min d (chunk_start dims chunks (Suc b))]) [0..<chunks]"

definition threshold_at :: "nat \<Rightarrow> nat \<Rightarrow> nat \<Rightarrow> nat" where
  "threshold_at dims chunks d =
     (if dims mod chunks \<noteq> 0 \<and> chunk_start dims chunks (dims mod chunks) \<le> d then dims div chunks else chunk_high dims chunks)"

definition assign_ok :: "nat \<Rightarrow> nat \<Rightarrow> nat \<Rightarrow> nat list list \<times> nat \<times> nat \<Rightarrow> bool" where
  "assign_ok dims chunks d st \<longleftrightarrow> (let (bins, num_high, threshold) = st in
     bins = bins_at dims chunks d \<and> threshold = threshold_at dims chunks d
     \<and> (dims mod chunks \<noteq> 0 \<longrightarrow> num_high = card {b. b < dims mod chunks \<and> chunk_start dims chunks (Suc b) \<le> d}))"

lemma best_bin_first:
  assumes "b + k < length bins" "\<forall>i < k. \<not> length (bins ! (b + i)) < threshold" "length (bins ! (b + k)) < threshold"
  shows "best_bin (replicate (Suc k + m) (Fin 0)) bins threshold b c FLT_MAX = b + k"
proof -
  have later: "best_bin (replicate m (Fin 0)) bins threshold b' c' (Fin 0) = c'" for m b' c'
    by (induction m arbitrary: b') simp_all
  have lt: "Fin 0 < FLT_MAX" by (simp add: FLT_MAX_def)
  show ?thesis using assms
  proof (induction k arbitrary: b)
    case 0
    then show ?case using later lt by simp
  next
    case (Suc k)
    have "\<forall>i < k. \<not> length (bins ! (Suc b + i)) < threshold" using Suc.prems(2) by (metis Suc_less_eq add_Suc_shift)
    moreover have "\<not> length (bins ! b) < threshold" using Suc.prems(2) by force
    ultimately show ?case using Suc.IH [of "Suc b"] Suc.prems by simp
  qed
qed

lemma chunk_of_dim:
  assumes "0 < chunks" "d < dims"
  shows "\<exists>b < chunks. chunk_start dims chunks b \<le> d \<and> d < chunk_start dims chunks (Suc b)"
proof -
  have "\<exists>b. d < chunk_start dims chunks (Suc b)" using assms by (intro exI [of _ "chunks - 1"]) simp
  define b where "b = (LEAST b. d < chunk_start dims chunks (Suc b))"
  have hi: "d < chunk_start dims chunks (Suc b)" unfolding b_def by (rule LeastI_ex) fact
  have lo: "chunk_start dims chunks b \<le> d"
  proof (cases b)
    case (Suc c)
    have "\<not> d < chunk_start dims chunks (Suc c)" by (rule not_less_Least) (simp add: b_def [symmetric] Suc)
    then show ?thesis by (simp add: Suc)
  qed (use assms in simp)
  have "b < chunks"
  proof (rule ccontr)
    assume "\<not> b < chunks"
    then have "dims \<le> chunk_start dims chunks b" using chunk_start_mono [of chunks b dims chunks] assms(1) by simp
    then show False using lo assms(2) by simp
  qed
  then show ?thesis using lo hi by blast
qed

lemma full_bin:
  assumes "b < chunks" "chunk_start dims chunks (Suc b) \<le> d"
  shows "length (bins_at dims chunks d ! b) = dims div chunks + (if b < dims mod chunks then 1 else 0)"
  using assms by (simp add: bins_at_def min_absorb2 chunk_start_Suc)

lemma bins_at_Suc:
  assumes "b < chunks" "chunk_start dims chunks b \<le> d" "d < chunk_start dims chunks (Suc b)"
  shows "bins_at dims chunks (Suc d) = (bins_at dims chunks d)[b := (bins_at dims chunks d ! b) @ [d]]"
proof (rule nth_equalityI)
  fix c assume "c < length (bins_at dims chunks (Suc d))"
  then have c: "c < chunks" by (simp add: bins_at_def)
  consider "c = b" | "Suc c \<le> b" | "Suc b \<le> c" by linarith
  then show "bins_at dims chunks (Suc d) ! c = (bins_at dims chunks d)[b := (bins_at dims chunks d ! b) @ [d]] ! c"
  proof cases
    case 1
    then show ?thesis using assms by (simp add: bins_at_def min_absorb1)
  next
    case 2
    then have "chunk_start dims chunks (Suc c) \<le> d" using chunk_start_mono [OF 2, of dims chunks] assms(2) by simp
    then show ?thesis using c 2 by (simp add: bins_at_def min_absorb2)
  next
    case 3
    then have "d < chunk_start dims chunks c" using chunk_start_mono [OF 3, of dims chunks] assms(3) by simp
    then show ?thesis using c 3 by (simp add: bins_at_def)
  qed
qed (simp add: bins_at_def)


lemma full_chunks:
  assumes "chunk_start dims chunks b \<le> d" "d < chunk_start dims chunks (Suc b)"
  shows "chunk_start dims chunks (Suc c) \<le> d \<longleftrightarrow> c < b"
proof (cases "c < b")
  case True
  then have "chunk_start dims chunks (Suc c) \<le> chunk_start dims chunks b" by (intro chunk_start_mono) simp
  then show ?thesis using True assms(1) by linarith
next
  case False
  then have "chunk_start dims chunks (Suc b) \<le> chunk_start dims chunks (Suc c)" by (intro chunk_start_mono) simp
  then show ?thesis using False assms(2) by linarith
qed

lemma full_chunks_Suc:
  assumes "chunk_start dims chunks b \<le> d" "d < chunk_start dims chunks (Suc b)" "0 < dims div chunks"
  shows "chunk_start dims chunks (Suc c) \<le> Suc d \<longleftrightarrow> c < b \<or> c = b \<and> Suc d = chunk_start dims chunks (Suc b)"
proof (cases c b rule: linorder_cases)
  case less
  then show ?thesis using full_chunks [OF assms(1,2), of c] by simp
next
  case equal
  then show ?thesis using assms(2) by auto
next
  case greater
  then have "chunk_start dims chunks (Suc b) \<le> chunk_start dims chunks c" by (intro chunk_start_mono) simp
  moreover have "chunk_start dims chunks c < chunk_start dims chunks (Suc c)" using assms(3) by (simp only: chunk_start_Suc)
  ultimately have "\<not> chunk_start dims chunks (Suc c) \<le> Suc d" using assms(2) by linarith
  then show ?thesis using greater by simp
qed

lemma card_full_chunks:
  assumes "chunk_start dims chunks b \<le> d" "d < chunk_start dims chunks (Suc b)"
  shows "card {c. c < m \<and> chunk_start dims chunks (Suc c) \<le> d} = min b m"
proof -
  have "{c. c < m \<and> chunk_start dims chunks (Suc c) \<le> d} = {..<min b m}" unfolding full_chunks [OF assms] by auto
  then show ?thesis by simp
qed

lemma card_full_chunks_Suc:
  assumes "chunk_start dims chunks b \<le> d" "d < chunk_start dims chunks (Suc b)" "0 < dims div chunks"
  shows "card {c. c < m \<and> chunk_start dims chunks (Suc c) \<le> Suc d} = min (if Suc d = chunk_start dims chunks (Suc b) then Suc b else b) m"
proof -
  have "{c. c < m \<and> chunk_start dims chunks (Suc c) \<le> Suc d} = {..<min (if Suc d = chunk_start dims chunks (Suc b) then Suc b else b) m}"
    unfolding full_chunks_Suc [OF assms] by auto
  then show ?thesis by simp
qed

lemma assign_dim_ok:
  assumes c: "0 < chunks" "chunks \<le> dims" "d < dims" and inv: "assign_ok dims chunks d st"
  shows "\<exists>st'. assign_dim chunks (dims div chunks) (chunk_high dims chunks) (dims - dims div chunks * chunks) d st = Inr st' \<and> assign_ok dims chunks (Suc d) st'"
proof -
  let ?q = "dims div chunks" and ?r = "dims mod chunks" and ?bins = "bins_at dims chunks d" and ?thr = "threshold_at dims chunks d"
  obtain nh where st: "st = (?bins, nh, ?thr)" and nh: "?r \<noteq> 0 \<longrightarrow> nh = card {b. b < ?r \<and> chunk_start dims chunks (Suc b) \<le> d}"
    using inv by (cases st) (auto simp: assign_ok_def)
  obtain b where b: "b < chunks" "chunk_start dims chunks b \<le> d" "d < chunk_start dims chunks (Suc b)" using chunk_of_dim [OF c(1,3)] by blast
  have q: "0 < ?q" using c by (simp add: div_greater_zero_iff)
  have r: "dims - ?q * chunks = ?r" by (simp add: minus_div_mult_eq_mod)
  have len: "length ?bins = chunks" by (simp add: bins_at_def)
  have here: "length (?bins ! b) = d - chunk_start dims chunks b" using b by (simp add: bins_at_def min_absorb1)
  have thr: "?thr = (if ?r \<noteq> 0 \<and> ?r \<le> b then ?q else chunk_high dims chunks)"
    using full_chunks [OF b(2,3), of "?r - 1"] by (auto simp: threshold_at_def)
  have room: "length (?bins ! b) < ?thr" using b(2,3) here thr by (auto simp: chunk_start_Suc chunk_high_def split: if_splits)
  have before: "\<not> length (?bins ! i) < ?thr" if "i < b" for i
  proof -
    have "chunk_start dims chunks (Suc i) \<le> d" using full_chunks [OF b(2,3), of i] that by simp
    then show ?thesis using full_bin [of i chunks dims d] that b(1) thr by (auto simp: chunk_high_def)
  qed
  have best: "best_bin (replicate chunks (Fin 0)) ?bins ?thr 0 (chunks + 1) FLT_MAX = b"
    using best_bin_first [of 0 b ?bins ?thr "chunks - Suc b" "chunks + 1"] b(1) len before room by simp
  let ?full = "length (?bins ! b @ [d]) = chunk_high dims chunks"
  let ?st' = "(bins_at dims chunks (Suc d), if ?full then nh + 1 else nh, if ?full \<and> nh + 1 = ?r then ?q else ?thr)"
  have step: "assign_dim chunks ?q (chunk_high dims chunks) (dims - ?q * chunks) d st = Inr ?st'"
    using best b(1) len bins_at_Suc [OF b] unfolding r st by (simp add: assign_dim_def Let_def)
  have "assign_ok dims chunks (Suc d) ?st'"
  proof (cases "?r = 0")
    case True
    then show ?thesis by (simp add: assign_ok_def threshold_at_def)
  next
    case False
    have full: "?full \<longleftrightarrow> b < ?r \<and> Suc d = chunk_start dims chunks (Suc b)"
      using False b(2,3) here by (auto simp: chunk_high_def chunk_start_Suc)
    have nh: "nh = min b ?r" using nh False card_full_chunks [OF b(2,3)] by simp
    have "(if ?full then nh + 1 else nh) = card {c. c < ?r \<and> chunk_start dims chunks (Suc c) \<le> Suc d}"
      unfolding card_full_chunks_Suc [OF b(2,3) q] full nh by auto
    moreover have "chunk_start dims chunks ?r \<le> Suc d \<longleftrightarrow> ?r \<le> b \<or> ?full \<and> nh + 1 = ?r"
    proof -
      obtain c where "?r = Suc c" using False by (cases ?r) auto
      then show ?thesis unfolding full nh using full_chunks_Suc [OF b(2,3) q, of c] by auto
    qed
    ultimately show ?thesis using False thr by (auto simp: assign_ok_def threshold_at_def)
  qed
  then show ?thesis using step by blast
qed


lemma assign_all_ok:
  assumes "0 < chunks" "chunks \<le> dims" "k \<le> dims"
  shows "\<exists>st. foldR (assign_dim chunks (dims div chunks) (chunk_high dims chunks) (dims - dims div chunks * chunks)) [0..<k]
      (replicate chunks [], 0, chunk_high dims chunks) = Inr st \<and> assign_ok dims chunks k st"
  using assms(3)
proof (induction k)
  case 0
  have "replicate chunks [] = bins_at dims chunks 0" by (simp add: bins_at_def map_replicate_const)
  moreover have q: "0 < dims div chunks" using assms by (simp add: div_greater_zero_iff)
  then have "\<not> chunk_start dims chunks (Suc b) \<le> 0" for b by (simp add: chunk_start_Suc)
  moreover have "dims mod chunks \<noteq> 0 \<Longrightarrow> \<not> chunk_start dims chunks (dims mod chunks) \<le> 0" using q by (simp add: chunk_start_def)
  ultimately show ?case by (auto simp: assign_ok_def threshold_at_def)
next
  case (Suc k)
  then obtain st where "foldR (assign_dim chunks (dims div chunks) (chunk_high dims chunks) (dims - dims div chunks * chunks)) [0..<k]
      (replicate chunks [], 0, chunk_high dims chunks) = Inr st" "assign_ok dims chunks k st" by auto
  then show ?case using assign_dim_ok [OF assms(1,2), of k st] Suc.prems by (simp add: foldR_append foldR_one)
qed

lemma chunk_bins_ok:
  assumes "0 < chunks" "chunks \<le> dims" "dims < 2 ^ 32"
  shows "chunk_bins dims chunks = Inr (map (\<lambda>b. [chunk_start dims chunks b..<chunk_start dims chunks (Suc b)]) [0..<chunks])"
proof -
  obtain nh thr where "foldR (assign_dim chunks (dims div chunks) (chunk_high dims chunks) (dims - dims div chunks * chunks)) [0..<dims]
      (replicate chunks [], 0, chunk_high dims chunks) = Inr (bins_at dims chunks dims, nh, thr)"
    using assign_all_ok [OF assms(1,2) order_refl] by (auto simp: assign_ok_def)
  moreover have "bins_at dims chunks dims = map (\<lambda>b. [chunk_start dims chunks b..<chunk_start dims chunks (Suc b)]) [0..<chunks]"
  proof -
    have "chunk_start dims chunks (Suc b) \<le> dims" if "b < chunks" for b
      using chunk_start_mono [of "Suc b" chunks dims chunks] that assms(1) by simp
    then show ?thesis by (simp add: bins_at_def min_absorb2)
  qed
  ultimately show ?thesis using chunk_values [OF assms] by (simp add: chunk_bins_def chunk_high_def)
qed

lemma offsets_fold:
  assumes "bins = map (\<lambda>b. [chunk_start dims chunks b..<chunk_start dims chunks (Suc b)]) [0..<chunks]"
    and "0 < chunks" "dims < 2 ^ 32" "k < chunks"
  shows "fold (offsets_step bins) [0..<Suc k] [0] = map (chunk_start dims chunks) [0..<Suc k]"
  using assms(4)
proof (induction k)
  case 0
  then show ?case by (simp add: offsets_step_def)
next
  case (Suc k)
  have "chunk_start dims chunks (Suc k) \<le> dims" using chunk_start_mono [of "Suc k" chunks dims chunks] Suc.prems assms(2) by simp
  moreover have le: "chunk_start dims chunks k \<le> chunk_start dims chunks (Suc k)" by (rule chunk_start_mono) simp
  ultimately have "u32_add (chunk_start dims chunks k) (length (bins ! k)) = chunk_start dims chunks (Suc k)"
    using Suc.prems assms(1,3) by (simp add: u32_add_def)
  moreover have "map (chunk_start dims chunks) [0..<Suc k] ! k = chunk_start dims chunks k" by (simp del: upt_Suc)
  ultimately have "offsets_step bins (Suc k) (map (chunk_start dims chunks) [0..<Suc k]) = map (chunk_start dims chunks) [0..<Suc (Suc k)]"
    by (simp add: offsets_step_def)
  then show ?case using Suc by (simp del: map_append)
qed

lemma chunk_offsets_ok:
  assumes "0 < chunks" "chunks \<le> dims" "dims < 2 ^ 32"
  shows "chunk_offsets_of dims chunks = Inr (map (chunk_start dims chunks) [0..<Suc chunks])"
proof -
  obtain k where k: "chunks = Suc k" using assms(1) by (cases chunks) auto
  have "fold (offsets_step (map (\<lambda>b. [chunk_start dims chunks b..<chunk_start dims chunks (Suc b)]) [0..<chunks])) [0..<chunks] [0]
      = map (chunk_start dims chunks) [0..<chunks]"
    using offsets_fold [OF refl assms(1,3), of k] k by (simp del: upt_Suc)
  moreover have "map (chunk_start dims chunks) [0..<Suc chunks] = map (chunk_start dims chunks) [0..<chunks] @ [dims]" using assms(1) by simp
  ultimately show ?thesis using chunk_bins_ok [OF assms] by (simp add: chunk_offsets_of_def del: upt_Suc map_append)
qed

text \<open>\<^bold>\<open>C30\<close> For at least one chunk and at most one per dimension, the chunks computed in \<^verbatim>\<open>double\<close> arithmetic are consecutive ranges
  that cover all dimensions, given by the chunk offsets, and differ in size by at most one: the first
  \<open>dims mod chunks\<close> of them have one dimension more.\<close>

theorem chunk_offsets_balanced:
  assumes "0 < chunks" "chunks \<le> dims" "dims < 2 ^ 32"
  shows "\<exists>offsets bins. chunk_offsets_of dims chunks = Inr offsets \<and> chunk_bins dims chunks = Inr bins
     \<and> length offsets = chunks + 1 \<and> length bins = chunks \<and> offsets ! 0 = 0 \<and> offsets ! chunks = dims
     \<and> (\<forall>b < chunks. bins ! b = [offsets ! b..<offsets ! (b + 1)]
          \<and> offsets ! (b + 1) = offsets ! b + dims div chunks + (if b < dims mod chunks then 1 else 0))"
  by (rule exI [of _ "map (chunk_start dims chunks) [0..<Suc chunks]"],
      rule exI [of _ "map (\<lambda>b. [chunk_start dims chunks b..<chunk_start dims chunks (Suc b)]) [0..<chunks]"])
     (use assms chunk_offsets_ok [OF assms] chunk_bins_ok [OF assms] in \<open>simp add: nth_append chunk_start_Suc del: upt_Suc\<close>)

lemma chunk_offsets_balanced_witness:
  "\<exists>offsets. chunk_offsets_of 7 3 = Inr offsets \<and> length offsets = 4 \<and> offsets ! 1 = 3 \<and> offsets ! 2 = 5 \<and> offsets ! 3 = 7"
proof -
  obtain offsets where o: "chunk_offsets_of 7 3 = Inr offsets" "length offsets = 3 + 1" "offsets ! 0 = 0"
     "\<forall>b < 3. offsets ! (b + 1) = offsets ! b + 7 div 3 + (if b < 7 mod 3 then 1 else 0)"
    using chunk_offsets_balanced [of 3 7] by auto
  have s: "offsets ! 1 = offsets ! 0 + 3" "offsets ! (1 + 1) = offsets ! 1 + 2" "offsets ! (2 + 1) = offsets ! 2 + 2"
    using o(4) [rule_format, of 0] o(4) [rule_format, of 1] o(4) [rule_format, of 2] by simp_all
  then have "offsets ! 1 = 3" "offsets ! 2 = offsets ! 1 + 2" "offsets ! 3 = offsets ! 2 + 2" unfolding one_add_one using o(3) by simp_all
  then show ?thesis using o(1,2) by simp
qed


section \<open>The pivot file\<close>

lemma length_elems_on: "codec_on C (set xs) \<Longrightarrow> length (elems_bytes C xs) = length xs * cd_size C"
  by (induction xs) (simp_all add: elems_bytes_def codec_on_def)

lemma load_bin_at:
  assumes "drop o1 file = bin_header n d @ elems_bytes C xs @ rest" "codec_on C (set xs)" "length xs = n * d" "n < 2 ^ 32" "d < 2 ^ 32"
  shows "load_bin C file o1 = Inr (xs, n, d)"
  using assms read_elems_append_on [OF assms(2), of "n * d" rest] by (simp add: load_bin_def bin_header_def)

lemma write_at_end: "pos = length file \<Longrightarrow> write_at pos bs file = file @ bs"
  by (simp add: write_at_def overwrite_def)

lemma drop_after: "drop k xs = ys \<Longrightarrow> ys = A @ X \<Longrightarrow> drop (k + length A) xs = X"
  by (metis add.commute append_eq_conv_conj drop_drop)

lemma save_pivots_file:
  assumes cod: "codec_on F (set pivots \<union> set centroid)" "cd_size F = 4"
    and len: "length pivots = nc * dims" "length centroid = dims" and b: "nc \<le> 256" "dims < 2 ^ 31" "length offsets < 2 ^ 32" "set offsets \<subseteq> {..<2 ^ 32}"
  shows "\<exists>file b1 b2 b3. save_pivots F [] pivots centroid offsets nc dims = Inr file
     \<and> load_bin u64_codec file 0 = Inr ([METADATA_SIZE, b1, b2, b3], 4, 1) \<and> load_bin F file METADATA_SIZE = Inr (pivots, nc, dims)
     \<and> load_bin F file b1 = Inr (centroid, dims, 1) \<and> load_bin u32_codec file b2 = Inr (offsets, length offsets, 1)"
proof -
  have c: "codec_on F (set pivots)" "codec_on F (set centroid)" using cod(1) by (auto simp: codec_on_def)
  have u: "codec_on u32_codec (set offsets)" using codec_on_u32 b(4) by (auto simp: codec_on_def)
  let ?A = "bin_header nc dims @ elems_bytes F pivots" and ?B = "bin_header dims 1 @ elems_bytes F centroid"
    and ?C = "bin_header (length offsets) 1 @ elems_bytes u32_codec offsets"
  let ?s1 = "nc * dims * 4 + 8" and ?s2 = "dims * 4 + 8" and ?s3 = "length offsets * 4 + 8"
  let ?b1 = "METADATA_SIZE + ?s1" let ?b2 = "?b1 + ?s2" let ?b3 = "?b2 + ?s3"
  let ?M = "bin_header 4 1 @ elems_bytes u64_codec [METADATA_SIZE, ?b1, ?b2, ?b3]"
  have l: "length ?A = ?s1" "length ?B = ?s2" "length ?C = ?s3" "cd_size u32_codec = 4" "cd_size u64_codec = 8"
    using length_elems_on [OF c(1)] length_elems_on [OF c(2)] length_elems_on [OF u] len cod(2) by (simp_all add: u32_codec_def u64_codec_def)
  have m: "length ?M = 40" by (simp add: le_array_u64)
  have z: "length (replicate METADATA_SIZE (0::nat)) = METADATA_SIZE" by simp
  let ?f1 = "replicate METADATA_SIZE 0 @ ?A" let ?f2 = "?f1 @ ?B" let ?f3 = "?f2 @ ?C" let ?file = "?M @ drop 40 ?f3"
  have f1: "save_bin F [] pivots nc dims METADATA_SIZE = Inr (?f1, ?s1)"
    using len cod(2) by (simp add: save_bin_def mem_get_def write_at_def overwrite_def)
  have f2: "save_bin F ?f1 centroid dims 1 ?b1 = Inr (?f2, ?s2)"
    using len cod(2) l(1) by (simp add: save_bin_def mem_get_def write_at_end)
  have f3: "save_bin u32_codec ?f2 offsets (length offsets) 1 ?b2 = Inr (?f3, ?s3)"
    using l by (simp add: save_bin_def mem_get_def write_at_end)
  have f4: "save_bin u64_codec f [METADATA_SIZE, ?b1, ?b2, ?b3] 4 1 0 = Inr (?M @ drop 40 f, 40)" for f
    using m l(5) by (simp add: save_bin_def mem_get_def write_at_def overwrite_def)
  have sv: "save_pivots F [] pivots centroid offsets nc dims = Inr ?file"
    unfolding save_pivots_def Let_def f1 bindR_simps prod.case f2 f3 f4 by simp
  have "replicate METADATA_SIZE (0::nat) = replicate 40 0 @ replicate (METADATA_SIZE - 40) 0"
    by (simp add: METADATA_SIZE_def flip: replicate_add)
  then have d40: "drop 40 ?f3 = replicate (METADATA_SIZE - 40) 0 @ ?A @ ?B @ ?C" by simp
  have skip: "drop METADATA_SIZE (M @ replicate (METADATA_SIZE - 40) 0 @ X) = X" if "length M = 40" for M X :: "byte list"
    using that by (simp add: METADATA_SIZE_def)
  have dM: "drop METADATA_SIZE ?file = ?A @ ?B @ ?C" unfolding d40 by (rule skip [OF m])
  have dB: "drop ?b1 ?file = ?B @ ?C" using drop_after [OF dM, of ?A "?B @ ?C"] l(1) by (simp only: append_assoc)
  have dC: "drop ?b2 ?file = ?C" using drop_after [OF dB refl] l(2) by (simp only:)
  have hA: "drop METADATA_SIZE ?file = bin_header nc dims @ elems_bytes F pivots @ ?B @ ?C" using dM by (simp only: append_assoc)
  have hB: "drop ?b1 ?file = bin_header dims 1 @ elems_bytes F centroid @ ?C" using dB by (simp only: append_assoc)
  have hC: "drop ?b2 ?file = bin_header (length offsets) 1 @ elems_bytes u32_codec offsets @ []" using dC by (simp only: append_Nil2)
  have small: "nc < 2 ^ 32" "dims < 2 ^ 32" "1 < (2::nat) ^ 32" using b(1,2) by simp_all
  have "nc * dims \<le> 256 * 2 ^ 31" using b(1,2) by (intro mult_le_mono) simp_all
  then have big: "METADATA_SIZE < 2 ^ 64" "?b1 < 2 ^ 64" "?b2 < 2 ^ 64" "?b3 < 2 ^ 64" using b(2,3) by (simp_all add: METADATA_SIZE_def mult.commute [of nc])
  have "load_bin u64_codec ?file 0 = Inr ([METADATA_SIZE, ?b1, ?b2, ?b3], 4, 1)"
    by (rule load_bin_at) (use big codec_on_u64 in \<open>auto simp: codec_on_def\<close>)
  moreover have "load_bin F ?file METADATA_SIZE = Inr (pivots, nc, dims)"
    by (rule load_bin_at [OF hA c(1) len(1) small(1,2)])
  moreover have "load_bin F ?file ?b1 = Inr (centroid, dims, 1)"
    by (rule load_bin_at [OF hB c(2) _ small(2,3)]) (simp only: len mult_1_right)
  moreover have "load_bin u32_codec ?file ?b2 = Inr (offsets, length offsets, 1)"
    by (rule load_bin_at [OF hC u _ b(3) small(3)]) (simp only: mult_1_right)
  ultimately show ?thesis using sv by blast
qed

lemma put_columns_length: "put_columns cur n dims off width full = Inr full' \<Longrightarrow> length full' = length full"
  unfolding put_columns_def
  by (erule foldR_invariant [where P = "\<lambda>f. length f = length full"]) (auto simp: bindR_eq_Inr dest: mem_put_length)

lemma train_all_chunks_length:
  "train_all_chunks tr td n dims nc chunks reps offsets full = Inr full' \<Longrightarrow> length full' = length full"
  unfolding train_all_chunks_def
  by (erule foldR_invariant [where P = "\<lambda>f. length f = length full"])
     (auto simp: bindR_eq_Inr train_chunk_def dest: put_columns_length split: if_splits)

lemma centre_train_data_length: "centre_train_data passed n dims zero = Inr (td, centroid) \<Longrightarrow> length centroid = dims"
  by (auto simp: centre_train_data_def bindR_eq_Inr dest: mapR_Inr split: if_splits)



text \<open>Training on one point in one dimension: all pivots are that point.\<close>

definition blank_floats :: "fl codec" where
  "blank_floats = \<lparr>cd_size = 4, cd_enc = (\<lambda>_. [0, 0, 0, 0]), cd_dec = (\<lambda>_. Fin 0)\<rparr>"

definition tiny_training :: training where
  "tiny_training = \<lparr>tr_blas = naive_blas, tr_order = (\<lambda>q. q), tr_draws = (\<lambda>_ _. 0), tr_darts = (\<lambda>_ _. Fin 0), tr_fuel = 256\<rparr>"

lemma tiny_kmeanspp: "kmeanspp_selecting_pivots 256 [Fin 0] 1 1 (\<lambda>_. 0) (\<lambda>_. Fin 0) (replicate 256 (Fin 0)) 256 = Inr (replicate 256 (Fin 0))"
proof -
  obtain r where r: "r = kmeanspp_selecting_pivots 256 [Fin 0] 1 1 (\<lambda>_. 0) (\<lambda>_. Fin 0) (replicate 256 (Fin 0)) 256" by simp
  have "\<exists>v. (\<forall>i < 1. take 1 (drop (i * 1) [Fin 0]) = v) \<and> (\<forall>x \<in> set v. \<exists>q. x = Fin q)" by (intro exI [of _ "[Fin 0]"]) simp
  then obtain p picked where p: "r = Inr p" "length p = 256" "\<forall>j < 256. picked ! j < 1 \<and> row_at p 1 j = row_at [Fin 0] 1 (picked ! j)"
    using kmeanspp_library [OF _ _ _ _ _ _ r] by auto
  have "p ! j = Fin 0" if "j < 256" for j
  proof -
    have "row_at p 1 j = Inr [Fin 0]" using p(3) that by (simp add: row_at_def mem_get_def)
    then show ?thesis using that p(2) by (auto simp: row_at_def mem_get_def take_Suc hd_drop_conv_nth split: if_splits)
  qed
  then have "p = replicate 256 (Fin 0)" using p(2) by (intro nth_equalityI) simp_all
  then show ?thesis using p(1) r by simp
qed

lemma tiny_put: "put_columns (replicate 256 (Fin 0)) 256 1 0 1 (replicate 256 (Fin 0)) = Inr (replicate 256 (Fin 0))"
proof -
  let ?z = "replicate 256 (Fin 0)"
  have "\<exists>s'. bindR (mem_get ?z (j * 1) 1) (\<lambda>row. mem_put f (j * 1 + 0) row) = Inr s' \<and> s' = ?z" if "j \<in> set [0..<256]" "f = ?z" for j f
  proof -
    have "?z = replicate j (Fin 0) @ Fin 0 # replicate (256 - Suc j) (Fin 0)" using that(1)
      by (simp del: replicate.simps add: replicate_Suc [symmetric] flip: replicate_add)
    then show ?thesis using that by (simp add: mem_get_def mem_put_def min_def)
  qed
  then have "\<exists>s'. foldR (\<lambda>j full. bindR (mem_get ?z (j * 1) 1) (\<lambda>row. mem_put full (j * 1 + 0) row)) [0..<256] ?z = Inr s' \<and> s' = ?z"
    by (intro foldR_total [where P = "\<lambda>f. f = ?z"]) auto
  then show ?thesis by (auto simp: put_columns_def simp del: upt_rec_numeral)
qed

lemma tiny_trained:
  "train_all_chunks tiny_training [Fin 0] 1 1 256 1 0 [0, 1] (replicate 256 (Fin 0)) = Inr (replicate 256 (Fin 0))"
proof -
  have "run_lloyds naive_blas (\<lambda>q. q) [Fin 0] 1 1 (replicate 256 (Fin 0)) 256 0 [0]
      = Inr \<lparr>cl_centers = replicate 256 (Fin 0), cl_docs = replicate 256 [], cl_closest = [0], cl_residual = FLT_MAX\<rparr>"
    using compute_vecs_l2sq_ok [of 1 1 "[Fin 0]" naive_blas] by (simp add: run_lloyds_def)
  moreover have "chunk_columns [Fin 0] 1 1 0 1 = Inr [Fin 0]" by (simp add: chunk_columns_def mem_get_def)
  ultimately have "train_chunk tiny_training [Fin 0] 1 1 256 0 0 0 1 (replicate 256 (Fin 0)) = Inr (replicate 256 (Fin 0))"
    using tiny_kmeanspp tiny_put by (simp add: train_chunk_def tiny_training_def del: One_nat_def) simp
  moreover have "u32_sub 1 0 = 1" by (simp add: u32_sub_ge)
  moreover have "[0..<1] = [0::nat]" by simp
  ultimately show ?thesis by (simp add: train_all_chunks_def foldR_one del: One_nat_def)
qed




section \<open>The codes\<close>

definition columns_of :: "'a list \<Rightarrow> nat \<Rightarrow> nat \<Rightarrow> nat \<Rightarrow> nat \<Rightarrow> 'a list" where
  "columns_of data n dims a w = concat (map (\<lambda>j. take w (drop (j * dims + a) data)) [0..<n])"

lemma chunk_columns_ok:
  assumes "a + w \<le> dims" "n * dims \<le> length data"
  shows "chunk_columns data n dims a w = Inr (columns_of data n dims a w)" "length (columns_of data n dims a w) = n * w"
proof -
  have e: "j * dims + a + w \<le> length data" if "j < n" for j
  proof -
    have "Suc j * dims \<le> n * dims" using that by (intro mult_le_mono1) simp
    then show ?thesis using assms by simp
  qed
  then have "mapR (\<lambda>j. mem_get data (j * dims + a) w) [0..<n] = Inr (map (\<lambda>j. take w (drop (j * dims + a) data)) [0..<n])"
    by (intro mapR_total) (simp add: mem_get_def)
  then show "chunk_columns data n dims a w = Inr (columns_of data n dims a w)" by (simp add: chunk_columns_def columns_of_def)
  have "\<forall>j \<in> set [0..<n]. length (take w (drop (j * dims + a) data)) = w"
  proof
    fix j assume "j \<in> set [0..<n]"
    then show "length (take w (drop (j * dims + a) data)) = w" using e [of j] by simp
  qed
  from concat_map_length [OF this] show "length (columns_of data n dims a w) = n * w" by (simp add: columns_of_def)
qed

text \<open>The distances of the points of a block to the centers of chunk \<open>i\<close>.\<close>

definition chunk_matrix :: "blas \<Rightarrow> fl list \<Rightarrow> nat \<Rightarrow> nat \<Rightarrow> fl list \<Rightarrow> nat \<Rightarrow> nat list \<Rightarrow> nat \<Rightarrow> fl list" where
  "chunk_matrix bl block m dims pivots nc offs i =
     (let w = offs ! (i + 1) - offs ! i; cur = columns_of block m dims (offs ! i) w
      in point_distances bl cur m w (columns_of pivots nc dims (offs ! i) w) nc (norms_of bl cur m w))"

lemma write_column:
  assumes "i < chunks" "k \<le> m" "m * chunks \<le> length codes" "\<forall>j < m. j < length closest"
  shows "\<exists>codes'. foldR (\<lambda>j codes. bindR (vec_at closest j) (\<lambda>c. vec_put codes (j * chunks + i) c)) [0..<k] codes = Inr codes'
     \<and> length codes' = length codes
     \<and> (\<forall>t < length codes. codes' ! t = (if t mod chunks = i \<and> t div chunks < k then closest ! (t div chunks) else codes ! t))"
  using assms(2)
proof (induction k)
  case (Suc k)
  then obtain codes1 where c: "foldR (\<lambda>j codes. bindR (vec_at closest j) (\<lambda>c. vec_put codes (j * chunks + i) c)) [0..<k] codes = Inr codes1"
     "length codes1 = length codes"
     "\<forall>t < length codes. codes1 ! t = (if t mod chunks = i \<and> t div chunks < k then closest ! (t div chunks) else codes ! t)" by auto
  have "Suc k * chunks \<le> m * chunks" using Suc.prems by (intro mult_le_mono1) simp
  then have lt: "k * chunks + i < length codes1" using assms(1,3) c(2) by simp
  have at: "t = k * chunks + i \<longleftrightarrow> t mod chunks = i \<and> t div chunks = k" for t
    using assms(1) by (metis div_mult_mod_eq div_mult_self3 div_less mod_mult_self3 mod_less add.right_neutral less_nat_zero_code)
  have k: "k < length closest" using assms(4) Suc.prems by simp
  have "(codes1[k * chunks + i := closest ! k]) ! t = (if t mod chunks = i \<and> t div chunks < Suc k then closest ! (t div chunks) else codes ! t)"
    if "t < length codes" for t using that c(2,3) lt at [of t] by (auto simp: nth_list_update less_Suc_eq)
  then show ?case using c(1,2) k lt by (simp add: foldR_append foldR_one)
qed simp

lemma compress_chunk_ok:
  assumes i: "i < chunks" "length offs = chunks + 1" "offs ! i \<le> offs ! (i + 1)" "offs ! (i + 1) \<le> dims" "dims < 2 ^ 32"
    and sizes: "0 < m" "0 < nc" "m * dims \<le> length block" "nc * dims \<le> length pivots" "m * chunks \<le> length codes"
    and usable: "offs ! i < offs ! (i + 1) \<longrightarrow> distances_usable (chunk_matrix bl block m dims pivots nc offs i) m nc"
    and order: "set (order [0..<m]) = {0..<m}"
  shows "\<exists>codes'. compress_chunk bl order block m dims pivots nc offs chunks i codes = Inr codes' \<and> length codes' = length codes
     \<and> (\<forall>t < length codes. codes' ! t = (if offs ! i < offs ! (i + 1) \<and> t mod chunks = i \<and> t div chunks < m
           then near_of (chunk_matrix bl block m dims pivots nc offs i) nc (t div chunks) else codes ! t))"
proof -
  let ?a = "offs ! i" let ?w = "offs ! (i + 1) - ?a" let ?cur = "columns_of block m dims ?a ?w" and ?piv = "columns_of pivots nc dims ?a ?w"
  let ?M = "chunk_matrix bl block m dims pivots nc offs i"
  have w: "u32_sub (offs ! (i + 1)) ?a = ?w" using i by (intro u32_sub_ge) simp_all
  have at: "vec_at offs i = Inr ?a" "vec_at offs (i + 1) = Inr (offs ! (i + 1))" using i by simp_all
  show ?thesis
  proof (cases "?w = 0")
    case True
    then show ?thesis using w at i(3) unfolding compress_chunk_def at bindR_simps Let_def w by simp
  next
    case False
    have aw: "?a + ?w \<le> dims" using i by simp
    note cur = chunk_columns_ok [OF aw sizes(3)] and piv = chunk_columns_ok [OF aw sizes(4)]
    have M: "?M = point_distances bl ?cur m ?w ?piv nc (norms_of bl ?cur m ?w)" by (simp add: chunk_matrix_def Let_def)
    have u: "distances_usable ?M m nc" using usable False by simp
    have cc: "compute_closest_centers bl (\<lambda>q. q) order ?cur m ?w ?piv nc 1 None (replicate m 0, None) = Inr (map (near_of ?M nc) [0..<m], None)"
      using closest_centers_library [where drain = "\<lambda>q. q" and pts = None and ivf = "replicate m 0" and ix = None and order = order, OF M u]
        sizes cur(2) piv(2) order by simp
    obtain codes' where c: "foldR (\<lambda>j codes. bindR (vec_at (map (near_of ?M nc) [0..<m]) j) (\<lambda>c. vec_put codes (j * chunks + i) c)) [0..<m] codes = Inr codes'"
      "length codes' = length codes"
      "\<forall>t < length codes. codes' ! t = (if t mod chunks = i \<and> t div chunks < m then map (near_of ?M nc) [0..<m] ! (t div chunks) else codes ! t)"
      using write_column [OF i(1) order_refl sizes(5), of "map (near_of ?M nc) [0..<m]"] by auto
    have "compress_chunk bl order block m dims pivots nc offs chunks i codes = Inr codes'"
      unfolding compress_chunk_def at bindR_simps Let_def w using False cur(1) piv(1) cc c(1) by simp
    moreover have "\<forall>t < length codes. codes' ! t = (if ?a < offs ! (i + 1) \<and> t mod chunks = i \<and> t div chunks < m then near_of ?M nc (t div chunks) else codes ! t)"
      using c(3) False by simp
    ultimately show ?thesis using c(2) by blast
  qed
qed


text \<open>Well-formed tables, and a block whose distances are usable.\<close>

definition offsets_ok :: "nat list \<Rightarrow> nat \<Rightarrow> nat \<Rightarrow> bool" where
  "offsets_ok offs chunks dims \<longleftrightarrow> length offs = chunks + 1 \<and> (\<forall>i < chunks. offs ! i \<le> offs ! (i + 1) \<and> offs ! (i + 1) \<le> dims)"

definition block_usable :: "blas \<Rightarrow> fl list \<Rightarrow> nat \<Rightarrow> nat \<Rightarrow> fl list \<Rightarrow> nat \<Rightarrow> nat list \<Rightarrow> nat \<Rightarrow> bool" where
  "block_usable bl block m dims pivots nc offs chunks \<longleftrightarrow>
     (\<forall>i < chunks. offs ! i < offs ! (i + 1) \<longrightarrow> distances_usable (chunk_matrix bl block m dims pivots nc offs i) m nc)"

lemma compress_chunks_ok:
  assumes offs: "offsets_ok offs chunks dims" "dims < 2 ^ 32"
    and sizes: "0 < m" "0 < nc" "m * dims \<le> length block" "nc * dims \<le> length pivots" "m * chunks \<le> length codes"
    and usable: "block_usable bl block m dims pivots nc offs chunks" and order: "set (order [0..<m]) = {0..<m}" and k: "k \<le> chunks"
  shows "\<exists>codes'. foldR (compress_chunk bl order block m dims pivots nc offs chunks) [0..<k] codes = Inr codes' \<and> length codes' = length codes
     \<and> (\<forall>t < length codes. codes' ! t = (if t mod chunks < k \<and> offs ! (t mod chunks) < offs ! (t mod chunks + 1) \<and> t div chunks < m
           then near_of (chunk_matrix bl block m dims pivots nc offs (t mod chunks)) nc (t div chunks) else codes ! t))"
  using k
proof (induction k)
  case (Suc k)
  then obtain c1 where c1: "foldR (compress_chunk bl order block m dims pivots nc offs chunks) [0..<k] codes = Inr c1" "length c1 = length codes"
     "\<forall>t < length codes. c1 ! t = (if t mod chunks < k \<and> offs ! (t mod chunks) < offs ! (t mod chunks + 1) \<and> t div chunks < m
           then near_of (chunk_matrix bl block m dims pivots nc offs (t mod chunks)) nc (t div chunks) else codes ! t)" by auto
  have i: "k < chunks" "length offs = chunks + 1" "offs ! k \<le> offs ! (k + 1)" "offs ! (k + 1) \<le> dims"
    using offs(1) Suc.prems by (simp_all add: offsets_ok_def)
  have room: "m * chunks \<le> length c1" using sizes(5) c1(2) by simp
  have use: "offs ! k < offs ! (k + 1) \<longrightarrow> distances_usable (chunk_matrix bl block m dims pivots nc offs k) m nc"
    using usable i(1) by (simp add: block_usable_def)
  obtain c2 where c2: "compress_chunk bl order block m dims pivots nc offs chunks k c1 = Inr c2" "length c2 = length c1"
     "\<forall>t < length c1. c2 ! t = (if offs ! k < offs ! (k + 1) \<and> t mod chunks = k \<and> t div chunks < m
           then near_of (chunk_matrix bl block m dims pivots nc offs k) nc (t div chunks) else c1 ! t)"
    using compress_chunk_ok [where bl = bl and order = order and codes = c1, OF i offs(2) sizes(1-4) room use order] by blast
  have "c2 ! t = (if t mod chunks < Suc k \<and> offs ! (t mod chunks) < offs ! (t mod chunks + 1) \<and> t div chunks < m
           then near_of (chunk_matrix bl block m dims pivots nc offs (t mod chunks)) nc (t div chunks) else codes ! t)" if "t < length codes" for t
    using c1(2,3) c2(3) that by (cases "t mod chunks = k") (simp_all add: less_Suc_eq)
  then show ?case using c1(1,2) c2(1,2) by (simp add: foldR_append foldR_one)
qed simp

definition block_len :: "nat \<Rightarrow> nat \<Rightarrow> nat \<Rightarrow> nat" where
  "block_len n bs b = min ((b + 1) * bs) n - b * bs"

definition block_input :: "blas \<Rightarrow> bool \<Rightarrow> fl list \<Rightarrow> nat \<Rightarrow> nat \<Rightarrow> nat \<Rightarrow> fl list \<Rightarrow> fl list \<Rightarrow> nat \<Rightarrow> fl list" where
  "block_input bl use_opq floats n bs dims centroid rotmat b =
     prepare_block bl use_opq (take (block_len n bs b * dims) (drop (b * bs * dims) floats)) (block_len n bs b) dims centroid rotmat"

text \<open>The code at place \<open>t\<close> of the matrix of all codes.\<close>

definition code_at_place :: "blas \<Rightarrow> (nat \<Rightarrow> fl list) \<Rightarrow> nat \<Rightarrow> nat \<Rightarrow> nat \<Rightarrow> fl list \<Rightarrow> nat \<Rightarrow> nat list \<Rightarrow> nat \<Rightarrow> nat \<Rightarrow> nat" where
  "code_at_place bl input n bs dims pivots nc offs chunks t =
     (let i = t mod chunks; p = t div chunks; b = p div bs in
      if offs ! i < offs ! (i + 1) then near_of (chunk_matrix bl (input b) (block_len n bs b) dims pivots nc offs i) nc (p mod bs) else 0)"

lemma code_bytes_append: "code_bytes nc (xs @ ys) = code_bytes nc xs @ code_bytes nc ys"
  by (simp add: code_bytes_def le_array_append)

lemma length_block_input:
  assumes "use_opq \<longrightarrow> (\<forall>m A D. length (sgemm bl False False m dims dims (Fin 1) A rotmat (Fin 0) D) = m * dims)"
    "length floats = n * dims" "b * bs < n"
  shows "length (block_input bl use_opq floats n bs dims centroid rotmat b) = block_len n bs b * dims"
proof -
  have "block_len n bs b \<le> n - b * bs" by (simp add: block_len_def)
  then have "block_len n bs b * dims \<le> (n - b * bs) * dims" by (rule mult_le_mono1)
  then show ?thesis using assms by (simp add: block_input_def prepare_block_def center_rows_def Let_def diff_mult_distrib)
qed

text \<open>One block, read from the file at its place.\<close>

lemma compress_block_ok:
  assumes wf: "offsets_ok offs chunks dims" "dims < 2 ^ 32" "length pivots = nc * dims" "0 < nc" "0 < bs" "0 < chunks"
    and base: "codec_on C (set vecs)" "length vecs = n * dims" "b * bs < n"
    and gemm: "use_opq \<longrightarrow> (\<forall>m A D. length (sgemm bl False False m dims dims (Fin 1) A rotmat (Fin 0) D) = m * dims)"
    and usable: "block_usable bl (block_input bl use_opq (map tf vecs) n bs dims centroid rotmat b) (block_len n bs b) dims pivots nc offs chunks"
    and order: "\<forall>m. set (order [0..<m]) = {0..<m}"
    and st: "length codes = bs * chunks" "\<forall>t < length codes. \<not> offs ! (t mod chunks) < offs ! (t mod chunks + 1) \<longrightarrow> codes ! t = 0"
  shows "\<exists>codes'. compress_block bl order C tf use_opq n bs dims nc chunks (pivots, centroid, offs, rotmat) b
        (elems_bytes C (drop (b * bs * dims) vecs), codes, out)
      = Inr (elems_bytes C (drop (min ((b + 1) * bs) n * dims) vecs), codes',
          out @ code_bytes nc (map (code_at_place bl (block_input bl use_opq (map tf vecs) n bs dims centroid rotmat) n bs dims pivots nc offs chunks)
             [b * bs * chunks..<min ((b + 1) * bs) n * chunks]))
     \<and> length codes' = bs * chunks \<and> (\<forall>t < length codes'. \<not> offs ! (t mod chunks) < offs ! (t mod chunks + 1) \<longrightarrow> codes' ! t = 0)"
proof -
  let ?m = "block_len n bs b" let ?input = "block_input bl use_opq (map tf vecs) n bs dims centroid rotmat"
  let ?code = "code_at_place bl ?input n bs dims pivots nc offs chunks"
  let ?e = "min ((b + 1) * bs) n"
  have m: "0 < ?m" "?m \<le> bs" "b * bs + ?m = ?e" using base(3) wf(5) by (auto simp: block_len_def)
  have l: "length (?input b) = ?m * dims" by (rule length_block_input [OF gemm _ base(3)]) (simp add: base(2))
  have mc: "?m * chunks \<le> length codes" using m(2) st(1) by simp
  let ?xs = "drop (b * bs * dims) vecs"
  have "?m * dims \<le> (n - b * bs) * dims" by (rule mult_le_mono1) (simp add: block_len_def)
  then have lx: "length (take (?m * dims) ?xs) = ?m * dims" using base(2) by (simp add: diff_mult_distrib)
  have sum: "b * bs * k + ?m * k = ?e * k" for k using m(3) by (metis distrib_right)
  have "drop (?m * dims) ?xs = drop (?e * dims) vecs" by (simp only: drop_drop add.commute [of "?m * dims"] sum)
  then have split: "elems_bytes C ?xs = elems_bytes C (take (?m * dims) ?xs) @ elems_bytes C (drop (?e * dims) vecs)"
    by (metis append_take_drop_id concat_append elems_bytes_def map_append)
  have con: "codec_on C (set (take (?m * dims) ?xs))" using base(1) by (auto simp: codec_on_def dest: in_set_takeD in_set_dropD)
  have read: "read_elems C (?m * dims) (elems_bytes C ?xs) = Inr (take (?m * dims) ?xs, elems_bytes C (drop (?e * dims) vecs))"
    unfolding split by (rule read_elems_append_on [OF con]) (simp only: lx)
  have inp: "prepare_block bl use_opq (map tf (take (?m * dims) ?xs)) ?m dims centroid rotmat = ?input b"
    by (simp add: block_input_def take_map drop_map)
  have le: "?m * dims \<le> length (?input b)" "nc * dims \<le> length pivots" using l wf(3) by simp_all
  obtain codes' where c: "foldR (compress_chunk bl order (?input b) ?m dims pivots nc offs chunks) [0..<chunks] codes = Inr codes'" "length codes' = length codes"
     "\<forall>t < length codes. codes' ! t = (if t mod chunks < chunks \<and> offs ! (t mod chunks) < offs ! (t mod chunks + 1) \<and> t div chunks < ?m
           then near_of (chunk_matrix bl (?input b) ?m dims pivots nc offs (t mod chunks)) nc (t div chunks) else codes ! t)"
    using compress_chunks_ok [where order = order, OF wf(1,2) m(1) wf(4) le mc usable order [rule_format] order_refl] by blast
  have val: "take (?m * chunks) codes' = map ?code [b * bs * chunks..<?e * chunks]"
  proof (rule nth_equalityI)
    have "?e * chunks - b * bs * chunks = ?m * chunks" using sum [of chunks] by linarith
    then show len: "length (take (?m * chunks) codes') = length (map ?code [b * bs * chunks..<?e * chunks])" using mc c(2) by simp
    fix t assume "t < length (take (?m * chunks) codes')"
    then have t: "t < ?m * chunks" "t < length codes" using c(2) by simp_all
    then have tm: "t div chunks < ?m" by (simp add: less_mult_imp_div_less)
    then have lt: "t div chunks < bs" using m(2) by simp
    have a: "(b * bs * chunks + t) mod chunks = t mod chunks" "(b * bs * chunks + t) div chunks = b * bs + t div chunks" using wf(6) by simp_all
    have "(b * bs + t div chunks) div bs = b" "(b * bs + t div chunks) mod bs = t div chunks" using lt by simp_all
    then have "?code (b * bs * chunks + t) = (if offs ! (t mod chunks) < offs ! (t mod chunks + 1)
        then near_of (chunk_matrix bl (?input b) ?m dims pivots nc offs (t mod chunks)) nc (t div chunks) else 0)"
      by (simp add: code_at_place_def a Let_def)
    moreover have "codes' ! t = (if offs ! (t mod chunks) < offs ! (t mod chunks + 1)
        then near_of (chunk_matrix bl (?input b) ?m dims pivots nc offs (t mod chunks)) nc (t div chunks) else 0)"
      using c(3) st(2) t(2) tm wf(6) by simp
    moreover have "b * bs * chunks + t < ?e * chunks" using t(1) sum [of chunks] by linarith
    ultimately show "take (?m * chunks) codes' ! t = map ?code [b * bs * chunks..<?e * chunks] ! t" using t(1) by simp
  qed
  have get: "mem_get codes' 0 (?m * chunks) = Inr (map ?code [b * bs * chunks..<?e * chunks])" using mc c(2) val by (simp add: mem_get_def)
  have "compress_block bl order C tf use_opq n bs dims nc chunks (pivots, centroid, offs, rotmat) b (elems_bytes C ?xs, codes, out)
      = Inr (elems_bytes C (drop (?e * dims) vecs), codes', out @ code_bytes nc (map ?code [b * bs * chunks..<?e * chunks]))"
    unfolding compress_block_def Let_def prod.case block_len_def [symmetric] read bindR_simps inp c(1) get by simp
  moreover have "\<forall>t < length codes'. \<not> offs ! (t mod chunks) < offs ! (t mod chunks + 1) \<longrightarrow> codes' ! t = 0" using c(2,3) st(2) by simp
  ultimately show ?thesis using c(2) st(1) by (intro exI [of _ codes']) simp
qed


lemma load_bin_length: "load_bin C file o1 = Inr (xs, n, d) \<Longrightarrow> length xs = n * d"
proof -
  have "length (split_chunks w k bs) = k" for w k and bs :: "byte list" by (induction k arbitrary: bs) simp_all
  then show "load_bin C file o1 = Inr (xs, n, d) \<Longrightarrow> length xs = n * d" by (auto simp: load_bin_def read_elems_def bindR_eq_Inr)
qed

lemma read_pivots_length:
  assumes "read_pivots F pf rf nc dims chunks use_opq = Inr (pivots, centroid, offs, rotmat)"
  shows "length pivots = nc * dims"
proof -
  obtain f where "pf = Some f" using assms by (cases pf) (simp_all add: read_pivots_def)
  then obtain o0 where "load_bin F f o0 = Inr (pivots, nc, dims)"
    using assms by (auto simp: read_pivots_def bindR_eq_Inr split: if_splits option.splits)
  then show ?thesis by (rule load_bin_length)
qed

lemma compress_blocks_ok:
  assumes wf: "offsets_ok offs chunks dims" "dims < 2 ^ 32" "length pivots = nc * dims" "0 < nc" "0 < bs" "0 < chunks"
    and base: "codec_on C (set vecs)" "length vecs = n * dims" "\<forall>b < k. b * bs < n"
    and gemm: "use_opq \<longrightarrow> (\<forall>m A D. length (sgemm bl False False m dims dims (Fin 1) A rotmat (Fin 0) D) = m * dims)"
    and usable: "\<forall>b < k. block_usable bl (block_input bl use_opq (map tf vecs) n bs dims centroid rotmat b) (block_len n bs b) dims pivots nc offs chunks"
    and order: "\<forall>m. set (order [0..<m]) = {0..<m}"
  shows "\<exists>codes. foldR (compress_block bl order C tf use_opq n bs dims nc chunks (pivots, centroid, offs, rotmat)) [0..<k]
        (elems_bytes C vecs, replicate (bs * chunks) 0, out)
      = Inr (elems_bytes C (drop (min (k * bs) n * dims) vecs), codes,
          out @ code_bytes nc (map (code_at_place bl (block_input bl use_opq (map tf vecs) n bs dims centroid rotmat) n bs dims pivots nc offs chunks)
             [0..<min (k * bs) n * chunks]))
     \<and> length codes = bs * chunks \<and> (\<forall>t < length codes. \<not> offs ! (t mod chunks) < offs ! (t mod chunks + 1) \<longrightarrow> codes ! t = 0)"
  using base(3) usable
proof (induction k)
  case 0
  then show ?case by (simp add: code_bytes_def)
next
  case (Suc k)
  let ?code = "code_at_place bl (block_input bl use_opq (map tf vecs) n bs dims centroid rotmat) n bs dims pivots nc offs chunks"
  have b: "k * bs < n" using Suc.prems(1) by simp
  then have k: "min (k * bs) n = k * bs" by simp
  obtain codes where IH: "foldR (compress_block bl order C tf use_opq n bs dims nc chunks (pivots, centroid, offs, rotmat)) [0..<k]
        (elems_bytes C vecs, replicate (bs * chunks) 0, out)
      = Inr (elems_bytes C (drop (k * bs * dims) vecs), codes, out @ code_bytes nc (map ?code [0..<k * bs * chunks]))"
     "length codes = bs * chunks" "\<forall>t < length codes. \<not> offs ! (t mod chunks) < offs ! (t mod chunks + 1) \<longrightarrow> codes ! t = 0"
    using Suc unfolding k by auto
  have u: "block_usable bl (block_input bl use_opq (map tf vecs) n bs dims centroid rotmat k) (block_len n bs k) dims pivots nc offs chunks"
    using Suc.prems(2) by simp
  obtain codes' where c: "compress_block bl order C tf use_opq n bs dims nc chunks (pivots, centroid, offs, rotmat) k
        (elems_bytes C (drop (k * bs * dims) vecs), codes, out @ code_bytes nc (map ?code [0..<k * bs * chunks]))
      = Inr (elems_bytes C (drop (min ((k + 1) * bs) n * dims) vecs), codes',
          (out @ code_bytes nc (map ?code [0..<k * bs * chunks])) @ code_bytes nc (map ?code [k * bs * chunks..<min ((k + 1) * bs) n * chunks]))"
     "length codes' = bs * chunks" "\<forall>t < length codes'. \<not> offs ! (t mod chunks) < offs ! (t mod chunks + 1) \<longrightarrow> codes' ! t = 0"
    using compress_block_ok [where out = "out @ code_bytes nc (map ?code [0..<k * bs * chunks])", OF wf base(1,2) b gemm u order IH(2,3)]
    by (elim exE conjE) (rule that)
  have "k * bs * chunks \<le> min ((k + 1) * bs) n * chunks" using b by (intro mult_le_mono1) simp
  then have "[0..<min ((k + 1) * bs) n * chunks] = [0..<k * bs * chunks] @ [k * bs * chunks..<min ((k + 1) * bs) n * chunks]"
    using upt_add_eq_append [of 0 "k * bs * chunks" "min ((k + 1) * bs) n * chunks - k * bs * chunks"] by simp
  then have out: "(out @ code_bytes nc (map ?code [0..<k * bs * chunks])) @ code_bytes nc (map ?code [k * bs * chunks..<min ((k + 1) * bs) n * chunks])
      = out @ code_bytes nc (map ?code [0..<min ((k + 1) * bs) n * chunks])" by (simp only: map_append code_bytes_append append_assoc)
  have "[0..<Suc k] = [0..<k] @ [k]" by simp
  then show ?case using c(2,3) unfolding Suc_eq_plus1 [symmetric, of k]
    by (intro exI [of _ codes']) (simp only: foldR_append foldR_one IH(1) bindR_simps c(1) [unfolded out] Suc_eq_plus1 simp_thms)
qed




end
