(* ===== verification/Flash_Load.thy ===== *)
theory Flash_Load
  imports Flash_Cache Labels Pq_Train
begin

text \<open>
  Opening the disk index (\<^verbatim>\<open>src/pq_flash_index.cpp\<close>): the parsers of its label
  files and \<^verbatim>\<open>load_from_separate_paths\<close>, which fills the state that the beam search reads. A
  file is the list of its bytes or a string, \<open>None\<close> where it does not exist.
\<close>

section \<open>The label file\<close>

text \<open>\<^verbatim>\<open>std::string::find\<close> of a character, from a position on.\<close>

definition find_char :: "char \<Rightarrow> string \<Rightarrow> nat \<Rightarrow> nat option" where
  "find_char c txt pos =
     (let k = length (takeWhile (\<lambda>x. x \<noteq> c) (drop pos txt)) in if pos + k < length txt then Some (pos + k) else None)"

lemma find_char_ge: "find_char c txt pos = Some p \<Longrightarrow> pos \<le> p"
  by (auto simp: find_char_def Let_def split: if_splits)

text \<open>The end of a label: the next comma, in whatever line it is, or the end of the line.\<close>

definition label_end :: "string \<Rightarrow> nat \<Rightarrow> nat \<Rightarrow> nat" where
  "label_end txt next_pos lbl_pos = (case find_char comma txt lbl_pos of None \<Rightarrow> next_pos | Some p \<Rightarrow> p)"

lemma label_end_ge: "lbl_pos < next_pos \<Longrightarrow> lbl_pos \<le> label_end txt next_pos lbl_pos"
  by (auto simp: label_end_def dest: find_char_ge split: option.split)

lemma label_end_decreases:
  assumes "lbl_pos < next_pos"
  shows "next_pos - Suc (label_end txt next_pos lbl_pos) < next_pos - lbl_pos"
    "next_pos - Suc (min (label_end txt next_pos lbl_pos) next_pos) < next_pos - lbl_pos"
  using label_end_ge [OF assms, of "txt"] assms by auto

text \<open>The first pass counts, to size the arrays.\<close>

function count_line_labels :: "string \<Rightarrow> nat \<Rightarrow> nat \<Rightarrow> nat \<Rightarrow> nat" where
  "count_line_labels txt next_pos lbl_pos n =
     (if lbl_pos < next_pos then count_line_labels txt next_pos (label_end txt next_pos lbl_pos + 1) (u32_add n 1) else n)"
  by pat_completeness auto
termination
  by (relation "measure (\<lambda>(txt, next_pos, lbl_pos, n). next_pos - lbl_pos)")
     (auto simp: label_end_decreases)

function count_label_lines :: "string \<Rightarrow> nat \<Rightarrow> nat \<times> nat \<Rightarrow> nat \<times> nat" where
  "count_label_lines txt cur_pos counts =
     (if cur_pos < length txt then
        (case find_char newline txt cur_pos of None \<Rightarrow> counts
         | Some next_pos \<Rightarrow> count_label_lines txt (next_pos + 1)
             (u32_add (fst counts) 1, count_line_labels txt next_pos cur_pos (snd counts)))
      else counts)"
  by pat_completeness auto
termination
  by (relation "measure (\<lambda>(txt, cur_pos, counts). length txt - cur_pos)")
     (auto dest: find_char_ge intro: diff_less_mono2 simp: less_Suc_eq_le)

definition get_label_file_metadata :: "string \<Rightarrow> nat \<times> nat" where
  "get_label_file_metadata txt = count_label_lines txt 0 (0, 0)"

text \<open>
  The second pass fills the arrays. An empty label makes \<^verbatim>\<open>label_str[label_str.length() - 1]\<close> read outside
  the string.
\<close>

definition read_label :: "nat \<Rightarrow> string \<Rightarrow> nat result" where
  "read_label w label_str =
     (if label_str = [] then Inl UndefinedBehaviour
      else bindR (stoul (if last label_str = tab then butlast label_str else label_str)) (\<lambda>v. Inr (v mod 2 ^ w)))"

record label_arrays =
  la_offsets :: "nat list"
  la_counts :: "nat list"
  la_labels :: "nat list"

function parse_line_labels ::
  "nat \<Rightarrow> string \<Rightarrow> nat \<Rightarrow> nat \<Rightarrow> nat list \<times> nat \<times> nat \<Rightarrow> (nat list \<times> nat \<times> nat) result" where
  "parse_line_labels w txt next_pos lbl_pos st =
     (if lbl_pos < next_pos then
        let next_lbl_pos = min (label_end txt next_pos lbl_pos) next_pos; (labels, seen, num_lbls) = st in
        bindR (read_label w (take (next_lbl_pos - lbl_pos) (drop lbl_pos txt))) (\<lambda>v.
        bindR (vec_put labels seen v) (\<lambda>labels'.
          parse_line_labels w txt next_pos (next_lbl_pos + 1) (labels', u32_add seen 1, u32_add num_lbls 1)))
      else Inr st)"
  by pat_completeness auto
termination
  by (relation "measure (\<lambda>(w, txt, next_pos, lbl_pos, st). next_pos - lbl_pos)")
     (auto simp: label_end_decreases)

function parse_label_lines ::
  "nat \<Rightarrow> string \<Rightarrow> nat \<Rightarrow> nat \<Rightarrow> label_arrays \<times> nat \<Rightarrow> ((label_arrays \<times> nat) \<times> nat) result" where
  "parse_label_lines w txt cur_pos line_cnt st =
     (if cur_pos < length txt then
        (case find_char newline txt cur_pos of None \<Rightarrow> Inr (st, line_cnt)
         | Some next_pos \<Rightarrow>
             let (la, seen) = st in
             bindR (vec_put (la_offsets la) line_cnt seen) (\<lambda>offsets.
             bindR (vec_put (la_counts la) line_cnt 0) (\<lambda>counts.
             bindR (parse_line_labels w txt next_pos cur_pos (la_labels la, seen, 0)) (\<lambda>(labels, seen', num_lbls).
             if num_lbls = 0 then Inl ProcessExit
             else parse_label_lines w txt (next_pos + 1) (u32_add line_cnt 1)
               (\<lparr>la_offsets = offsets, la_counts = counts[line_cnt := num_lbls], la_labels = labels\<rparr>, seen')))))
      else Inr (st, line_cnt))"
  by pat_completeness auto
termination
  by (relation "measure (\<lambda>(w, txt, cur_pos, line_cnt, st). length txt - cur_pos)")
     (auto dest: find_char_ge intro: diff_less_mono2 simp: less_Suc_eq_le)

declare count_line_labels.simps [simp del] count_label_lines.simps [simp del]
  parse_line_labels.simps [simp del] parse_label_lines.simps [simp del]

text \<open>The arrays come from \<^verbatim>\<open>new\<close> and hold nothing defined before they are written.\<close>

definition parse_flash_labels :: "nat \<Rightarrow> string \<Rightarrow> (label_arrays \<times> nat) result" where
  "parse_flash_labels w txt =
     (let (num_pts, num_total_labels) = get_label_file_metadata txt in
      bindR (parse_label_lines w txt 0 0
          (\<lparr>la_offsets = replicate num_pts 0, la_counts = replicate num_pts 0, la_labels = replicate num_total_labels 0\<rparr>, 0))
        (\<lambda>((la, _), line_cnt). Inr (la, line_cnt)))"

text \<open>
  What the two passes amount to: the lines that a newline ends, and the labels between the commas of each. A last
  line without a newline is left out, other than in the label parser of the in-memory index.
\<close>

lemma tl_dropWhile_less: "c \<in> set s \<Longrightarrow> length (tl (dropWhile P s)) < length s"
  using length_dropWhile_le [of P s] by (cases s) auto

function whole_lines :: "string \<Rightarrow> string list" where
  "whole_lines txt =
     (if newline \<in> set txt then takeWhile (\<lambda>x. x \<noteq> newline) txt # whole_lines (tl (dropWhile (\<lambda>x. x \<noteq> newline) txt)) else [])"
  by pat_completeness auto
termination
  by (relation "measure length") (use tl_dropWhile_less in auto)

declare whole_lines.simps [simp del]

definition flash_row :: "nat \<Rightarrow> string \<Rightarrow> nat list result" where
  "flash_row w line = (if line = [] then Inl ProcessExit else mapR (read_label w) (getlines comma line))"

definition label_starts :: "nat list list \<Rightarrow> nat list" where
  "label_starts rows = map (\<lambda>i. length (concat (take i rows))) [0..<length rows]"

text \<open>The arrays when the rows so far are in, with room for \<open>m\<close> points and \<open>p\<close> labels.\<close>

definition arrays_upto :: "nat list list \<Rightarrow> nat \<Rightarrow> nat \<Rightarrow> label_arrays" where
  "arrays_upto rows m p = \<lparr>la_offsets = label_starts rows @ replicate m 0, la_counts = map length rows @ replicate m 0,
     la_labels = concat rows @ replicate p 0\<rparr>"

definition label_table :: "nat list list \<Rightarrow> label_arrays" where
  "label_table rows = \<lparr>la_offsets = label_starts rows, la_counts = map length rows, la_labels = concat rows\<rparr>"

lemma label_starts_snoc: "label_starts (rows @ [r]) = label_starts rows @ [length (concat rows)]"
  by (simp add: label_starts_def)

lemma find_char_hit: "drop pos txt = l @ c # r \<Longrightarrow> c \<notin> set l \<Longrightarrow> find_char c txt pos = Some (pos + length l)"
proof -
  assume a: "drop pos txt = l @ c # r" "c \<notin> set l"
  have "takeWhile (\<lambda>x. x \<noteq> c) (l @ c # r) = l" using a(2) by (induction l) auto
  moreover have "pos + length l < length txt"
    using arg_cong [OF a(1), of length] by (cases "pos \<le> length txt") simp_all
  ultimately show ?thesis using a(1) by (simp add: find_char_def)
qed

lemma find_char_miss: "c \<notin> set (drop pos txt) \<Longrightarrow> find_char c txt pos = None"
proof -
  assume "c \<notin> set (drop pos txt)"
  then have "takeWhile (\<lambda>x. x \<noteq> c) (drop pos txt) = drop pos txt" by (auto simp: takeWhile_eq_all_conv)
  then show ?thesis by (simp add: find_char_def Let_def del: takeWhile_eq_all_conv)
qed

text \<open>The label at a position of a line, and where the next one starts.\<close>

lemma label_end_in_line:
  assumes "drop lbl_pos txt = l @ comma # s" "comma \<notin> set l"
  shows "label_end txt next_pos lbl_pos = lbl_pos + length l"
  using find_char_hit [OF assms] by (simp add: label_end_def)

lemma label_end_last:
  assumes "drop lbl_pos txt = s @ newline # r" "comma \<notin> set s"
  shows "lbl_pos + length s \<le> label_end txt (lbl_pos + length s) lbl_pos"
proof (cases "comma \<in> set r")
  case True
  then obtain a b where "r = a @ comma # b" "comma \<notin> set a" by (metis split_list_first)
  then have "drop lbl_pos txt = (s @ newline # a) @ comma # b" "comma \<notin> set (s @ newline # a)" using assms by simp_all
  from label_end_in_line [OF this] show ?thesis by simp
next
  case False
  then have "comma \<notin> set (drop lbl_pos txt)" using assms by simp
  then show ?thesis by (simp add: label_end_def find_char_miss)
qed

text \<open>The labels of a line, cut at the commas: the last one, or one before a comma.\<close>

lemma getlines_induct [consumes 0, case_names empty last step]:
  assumes "P []" "\<And>s. s \<noteq> [] \<Longrightarrow> d \<notin> set s \<Longrightarrow> P s" "\<And>l s. d \<notin> set l \<Longrightarrow> P s \<Longrightarrow> P (l @ d # s)"
  shows "P s"
proof (induction s rule: length_induct)
  case (1 s)
  show ?case
  proof (cases "d \<in> set s")
    case True
    then obtain l r where s: "s = l @ d # r" "d \<notin> set l" by (metis split_list_first)
    then have "P r" using 1 by simp
    then show ?thesis using s assms(3) by simp
  next
    case False
    then show ?thesis using assms(1,2) by (cases "s = []") auto
  qed
qed

lemma drop_step: "drop pos txt = l @ c # s \<Longrightarrow> drop (pos + length l + 1) txt = s"
  by (metis add.assoc add.commute append_eq_conv_conj drop_drop drop_Suc_Cons drop0 One_nat_def plus_1_eq_Suc)

lemma count_line_ok:
  assumes "drop lbl_pos txt = s @ newline # r" "n + length (getlines comma s) < 2 ^ 32"
  shows "count_line_labels txt (lbl_pos + length s) lbl_pos n = n + length (getlines comma s)"
  using assms
proof (induction s arbitrary: lbl_pos n rule: getlines_induct [where d = comma])
  case empty
  then show ?case by (simp add: count_line_labels.simps [of "txt" "lbl_pos"])
next
  case (last s)
  have "n + 1 < 2 ^ 32" using last by (simp add: getlines_last)
  then have "u32_add n 1 = n + 1" by (simp add: u32_add_def)
  moreover have "\<not> label_end txt (lbl_pos + length s) lbl_pos + 1 < lbl_pos + length s"
    using label_end_last [OF last(3,2)] by simp
  ultimately show ?case using last
    by (simp add: getlines_last count_line_labels.simps [of "txt" "lbl_pos + length s" lbl_pos]
        count_line_labels.simps [of "txt" "lbl_pos + length s" "Suc (label_end txt (lbl_pos + length s) lbl_pos)"])
next
  case (step l s)
  have d: "drop lbl_pos txt = l @ comma # (s @ newline # r)" using step.prems(1) by simp
  have g: "getlines comma (l @ comma # s) = l # getlines comma s" by (rule getlines_piece [OF step(1)])
  have n: "u32_add n 1 = n + 1" using step.prems(2) g by (simp add: u32_add_def)
  have "count_line_labels txt (lbl_pos + length l + 1 + length s) (lbl_pos + length l + 1) (n + 1) = n + 1 + length (getlines comma s)"
    by (rule step.IH [OF drop_step [OF d]]) (use step.prems(2) g in simp)
  moreover have e: "lbl_pos + length (l @ comma # s) = lbl_pos + length l + 1 + length s" by simp
  moreover have "lbl_pos < lbl_pos + length l + 1 + length s" by simp
  ultimately show ?case unfolding e g label_end_in_line [OF d step(1)]
    by (subst count_line_labels.simps) (simp only: if_True label_end_in_line [OF d step(1)] n [unfolded One_nat_def] list.size add_Suc_right add_Suc add_0_right One_nat_def)
qed

lemma parse_line_ok:
  assumes "drop lbl_pos txt = s @ newline # r" "seen = length R" "p = length (getlines comma s) + q"
    "length R + length (getlines comma s) < 2 ^ 32" "num + length (getlines comma s) < 2 ^ 32"
  shows "parse_line_labels w txt (lbl_pos + length s) lbl_pos (R @ replicate p 0, seen, num)
     = bindR (mapR (read_label w) (getlines comma s)) (\<lambda>vs. Inr (R @ vs @ replicate q 0, length (R @ vs), num + length vs))"
  using assms
proof (induction s arbitrary: lbl_pos num R seen p rule: getlines_induct [where d = comma])
  case empty
  then show ?case by (simp add: parse_line_labels.simps [of w "txt" "lbl_pos"])
next
  case (last s)
  let ?e = "min (label_end txt (lbl_pos + length s) lbl_pos) (lbl_pos + length s)"
  have e: "?e = lbl_pos + length s" using label_end_last [OF last(3,2)] by simp
  have t: "take (lbl_pos + length s - lbl_pos) (drop lbl_pos txt) = s" using last(3) by simp
  have u: "u32_add seen 1 = length R + 1" "u32_add num 1 = num + 1" using last by (simp_all add: getlines_last u32_add_def)
  have put: "vec_put (R @ replicate p 0) seen v = Inr (R @ [v] @ replicate q 0)" for v
    using last by (simp add: getlines_last vec_put_def list_update_append)
  have stop: "parse_line_labels w txt (lbl_pos + length s) (lbl_pos + length s + 1) st = Inr st" for st
    by (simp add: parse_line_labels.simps)
  have lt: "lbl_pos < lbl_pos + length s" using last(1) by simp
  show ?case unfolding parse_line_labels.simps [of w "txt" "lbl_pos + length s" lbl_pos] if_P [OF lt] Let_def e t prod.case put bindR_simps stop u
    using last by (cases "read_label w s") (simp_all add: getlines_last)
next
  case (step l s)
  have d: "drop lbl_pos txt = l @ comma # (s @ newline # r)" using step.prems(1) by simp
  let ?n = "lbl_pos + length (l @ comma # s)"
  have n: "?n = lbl_pos + length l + 1 + length s" by simp
  have e: "min (label_end txt ?n lbl_pos) ?n = lbl_pos + length l" using label_end_in_line [OF d step(1)] by simp
  have t: "take (lbl_pos + length l - lbl_pos) (drop lbl_pos txt) = l" using d by simp
  have g: "getlines comma (l @ comma # s) = l # getlines comma s" by (rule getlines_piece [OF step(1)])
  have u: "u32_add seen 1 = length R + 1" "u32_add num 1 = num + 1" using step.prems g by (simp_all add: u32_add_def)
  have put: "vec_put (R @ replicate p 0) seen v = Inr ((R @ [v]) @ replicate (length (getlines comma s) + q) 0)" for v
    using step.prems g by (simp add: vec_put_def list_update_append)
  have lt: "lbl_pos < ?n" by simp
  have IH: "parse_line_labels w txt ?n (lbl_pos + length l + 1) ((R @ [v]) @ replicate (length (getlines comma s) + q) 0, length R + 1, num + 1)
     = bindR (mapR (read_label w) (getlines comma s)) (\<lambda>vs. Inr ((R @ [v]) @ vs @ replicate q 0, length ((R @ [v]) @ vs), num + 1 + length vs))" for v
    unfolding n by (rule step.IH [OF drop_step [OF d]]) (use step.prems g in simp_all)
  show ?case unfolding parse_line_labels.simps [of w "txt" ?n lbl_pos] if_P [OF lt] Let_def e t prod.case put bindR_simps u IH g
    by (cases "read_label w l") (simp_all add: bindR_assoc)
qed

text \<open>The lines.\<close>

lemma whole_lines_cons: "newline \<notin> set l \<Longrightarrow> whole_lines (l @ newline # r) = l # whole_lines r"
proof -
  assume a: "newline \<notin> set l"
  have "takeWhile (\<lambda>x. x \<noteq> newline) (l @ newline # r) = l" "dropWhile (\<lambda>x. x \<noteq> newline) (l @ newline # r) = newline # r"
    using a by (induction l) auto
  then show ?thesis by (simp add: whole_lines.simps [of "l @ newline # r"])
qed

lemma whole_lines_none: "newline \<notin> set s \<Longrightarrow> whole_lines s = []"
  by (simp add: whole_lines.simps [of s])

lemma whole_lines_size: "length (whole_lines s) + sum_list (map (\<lambda>l. length (getlines comma l)) (whole_lines s)) \<le> length s"
proof (induction s rule: getlines_induct [where d = newline])
  case (step l s)
  have "length (getlines comma l) \<le> length l"
    by (induction l rule: getlines_induct [where d = comma]) (simp_all add: getlines_last getlines_piece Suc_le_eq)
  then show ?case using step by (simp add: whole_lines_cons)
qed (simp_all add: whole_lines_none)

definition all_labels :: "string \<Rightarrow> nat" where
  "all_labels s = sum_list (map (\<lambda>l. length (getlines comma l)) (whole_lines s))"

lemma count_lines_ok:
  assumes "drop pos txt = s" "a + length (whole_lines s) < 2 ^ 32" "b + all_labels s < 2 ^ 32"
  shows "count_label_lines txt pos (a, b) = (a + length (whole_lines s), b + all_labels s)"
  using assms
proof (induction s arbitrary: pos a b rule: getlines_induct [where d = newline])
  case empty
  then show ?case by (simp add: count_label_lines.simps [of "txt" pos] whole_lines_none all_labels_def)
next
  case (last s)
  then show ?case by (simp add: count_label_lines.simps [of "txt" pos] whole_lines_none all_labels_def find_char_miss)
next
  case (step l s)
  have lt: "pos < length txt" using step.prems(1) by (cases "pos < length txt") simp_all
  have u: "u32_add a 1 = a + 1" using step.prems(2) by (simp add: whole_lines_cons step(1) u32_add_def)
  have c: "count_line_labels txt (pos + length l) pos b = b + length (getlines comma l)"
    by (rule count_line_ok [OF step.prems(1)]) (use step.prems(3) in \<open>simp add: whole_lines_cons step(1) all_labels_def\<close>)
  have "count_label_lines txt (pos + length l + 1) (a + 1, b + length (getlines comma l))
      = (a + 1 + length (whole_lines s), b + length (getlines comma l) + all_labels s)"
    by (rule step.IH [OF drop_step [OF step.prems(1)]]) (use step.prems in \<open>simp_all add: whole_lines_cons step(1) all_labels_def\<close>)
  then show ?case unfolding count_label_lines.simps [of "txt" pos] if_P [OF lt] find_char_hit [OF step.prems(1) step(1)] option.case prod.sel u c
    by (simp add: whole_lines_cons step(1) all_labels_def)
qed

lemma parse_lines_ok:
  assumes "drop pos txt = s" "length R + length (whole_lines s) < 2 ^ 32" "length (concat R) + all_labels s < 2 ^ 32"
  shows "parse_label_lines w txt pos (length R) (arrays_upto R (length (whole_lines s)) (all_labels s), length (concat R))
     = bindR (mapR (flash_row w) (whole_lines s)) (\<lambda>rows. Inr ((label_table (R @ rows), length (concat (R @ rows))), length (R @ rows)))"
  using assms
proof (induction s arbitrary: pos R rule: getlines_induct [where d = newline])
  case empty
  then show ?case by (simp add: parse_label_lines.simps [of w "txt" pos] whole_lines_none all_labels_def arrays_upto_def label_table_def)
next
  case (last s)
  then show ?case
    by (simp add: parse_label_lines.simps [of w "txt" pos] whole_lines_none all_labels_def find_char_miss arrays_upto_def label_table_def)
next
  case (step l s)
  have lt: "pos < length txt" using step.prems(1) by (cases "pos < length txt") simp_all
  let ?k = "length (whole_lines s)" and ?p = "all_labels s" and ?g = "getlines comma l"
  have w: "length (whole_lines (l @ newline # s)) = Suc ?k" "all_labels (l @ newline # s) = length ?g + ?p"
    by (simp_all add: whole_lines_cons step(1) all_labels_def)
  have u: "u32_add (length R) 1 = length (R @ [vs])" for vs :: "nat list" using step.prems(2) w by (simp add: u32_add_def)
  have arr: "arrays_upto R (Suc ?k) (length ?g + ?p) = \<lparr>la_offsets = label_starts R @ 0 # replicate ?k 0, la_counts = map length R @ 0 # replicate ?k 0,
     la_labels = concat R @ replicate (length ?g + ?p) 0\<rparr>" by (simp add: arrays_upto_def)
  have ls: "length (label_starts R) = length R" by (simp add: label_starts_def)
  have puts: "vec_put (label_starts R @ 0 # replicate ?k 0) (length R) (length (concat R)) = Inr (label_starts R @ length (concat R) # replicate ?k 0)"
     "vec_put (map length R @ 0 # replicate ?k 0) (length R) 0 = Inr (map length R @ 0 # replicate ?k 0)"
     "(map length R @ 0 # replicate ?k 0)[length R := x] = map length R @ x # replicate ?k 0" for x
    using ls by (simp_all add: vec_put_def list_update_append)
  have line: "parse_line_labels w txt (pos + length l) pos (concat R @ replicate (length ?g + ?p) 0, length (concat R), 0)
      = bindR (mapR (read_label w) ?g) (\<lambda>vs. Inr (concat R @ vs @ replicate ?p 0, length (concat R @ vs), length vs))"
    using parse_line_ok [OF step.prems(1) refl refl, where R = "concat R" and q = ?p and num = 0 and w = w] step.prems(3) w by simp
  have st: "\<lparr>la_offsets = label_starts R @ length (concat R) # replicate ?k 0, la_counts = map length R @ length vs # replicate ?k 0,
      la_labels = concat R @ vs @ replicate ?p 0\<rparr> = arrays_upto (R @ [vs]) ?k ?p" for vs
    by (simp add: arrays_upto_def label_starts_snoc)
  show ?case
  proof (cases "mapR (read_label w) ?g")
    case (Inl e)
    then have "l \<noteq> []" by auto
    then show ?thesis unfolding parse_label_lines.simps [of w "txt" pos] if_P [OF lt] find_char_hit [OF step.prems(1) step(1)] option.case w arr
        Let_def prod.case label_arrays.select_convs puts bindR_simps line Inl
      by (simp add: whole_lines_cons step(1) flash_row_def Inl)
  next
    case (Inr vs)
    have lv: "length vs = length ?g" using mapR_Inr [OF Inr] by simp
    have z: "length vs = 0 \<longleftrightarrow> l = []" using lv by (cases l) simp_all
    have IH: "parse_label_lines w txt (pos + length l + 1) (length (R @ [vs])) (arrays_upto (R @ [vs]) ?k ?p, length (concat (R @ [vs])))
       = bindR (mapR (flash_row w) (whole_lines s)) (\<lambda>rows. Inr ((label_table ((R @ [vs]) @ rows), length (concat ((R @ [vs]) @ rows))), length ((R @ [vs]) @ rows)))"
      by (rule step.IH [OF drop_step [OF step.prems(1)]]) (use step.prems w lv in simp_all)
    have fr: "flash_row w l = (if l = [] then Inl ProcessExit else Inr vs)" by (simp add: flash_row_def Inr)
    have cc: "length (concat R @ vs) = length (concat (R @ [vs]))" by simp
    show ?thesis unfolding parse_label_lines.simps [of w "txt" pos] if_P [OF lt] find_char_hit [OF step.prems(1) step(1)] option.case w arr
        Let_def prod.case label_arrays.select_convs puts bindR_simps line Inr u [of vs] z cc st IH
      by (simp add: whole_lines_cons step(1) fr bindR_assoc)
  qed
qed

lemma parse_flash_labels_ok:
  assumes "length txt < 2 ^ 32"
  shows "parse_flash_labels w txt = bindR (mapR (flash_row w) (whole_lines txt)) (\<lambda>rows. Inr (label_table rows, length rows))"
proof -
  have b: "length (whole_lines txt) < 2 ^ 32" "all_labels txt < 2 ^ 32" using whole_lines_size [of "txt"] assms by (simp_all add: all_labels_def)
  have "get_label_file_metadata txt = (length (whole_lines txt), all_labels txt)"
    using count_lines_ok [of 0 "txt" "txt" 0 0] b by (simp add: get_label_file_metadata_def)
  then show ?thesis using parse_lines_ok [of 0 "txt" "txt" "[]" w] b
    by (simp add: parse_flash_labels_def arrays_upto_def label_starts_def bindR_assoc)
qed

lemma scan_labels_ok: "scan_labels (A @ xs @ B) (length A) (length xs) l = Inr (l \<in> set xs)"
proof (induction xs arbitrary: A)
  case (Cons x xs)
  then show ?case using Cons [of "A @ [x]"] by auto
qed simp

lemma point_has_row_label:
  assumes fs: "fs_label_offsets fs = label_starts rows" "fs_label_counts fs = map length rows" "fs_labels fs = concat rows"
    and i: "i < length rows"
  shows "point_has_label fs i l = Inr (l \<in> set (rows ! i))"
proof -
  have "concat rows = concat (take i rows) @ rows ! i @ concat (drop (Suc i) rows)"
    using i by (subst id_take_nth_drop [OF i]) simp
  then show ?thesis using i scan_labels_ok [of "concat (take i rows)" "rows ! i" "concat (drop (Suc i) rows)" l]
    by (simp add: point_has_label_def fs label_starts_def)
qed

text \<open>\<^bold>\<open>C37\<close> The two passes over a label file of the disk index agree with the plain reading of its lines: a line ends at a newline, labels
  at commas; an empty line ends the process, an empty label or one without digits fails as the reading does, and otherwise the arrays that
  the first pass sized hold the labels of the lines one after the other, with the start and the number of each point's. No access leaves the
  arrays, and the label test of the search finds for every point exactly the labels of its line.\<close>

theorem flash_label_arrays:
  assumes "length txt < 2 ^ 32"
  shows "parse_flash_labels w txt = bindR (mapR (flash_row w) (whole_lines txt)) (\<lambda>rows. Inr (label_table rows, length rows))
     \<and> (\<forall>la n fs i l. parse_flash_labels w txt = Inr (la, n) \<longrightarrow> i < n
          \<longrightarrow> (\<exists>row. flash_row w (whole_lines txt ! i) = Inr row
               \<and> point_has_label (fs\<lparr>fs_label_offsets := la_offsets la, fs_label_counts := la_counts la, fs_labels := la_labels la\<rparr>) i l = Inr (l \<in> set row)))"
proof (intro conjI allI impI)
  note P = parse_flash_labels_ok [OF assms, of w]
  show "parse_flash_labels w txt = bindR (mapR (flash_row w) (whole_lines txt)) (\<lambda>rows. Inr (label_table rows, length rows))" by (rule P)
  fix la n and fs :: "'a flash_search" and i l
  assume a: "parse_flash_labels w txt = Inr (la, n)" "i < n"
  then obtain rows where r: "mapR (flash_row w) (whole_lines txt) = Inr rows" "la = label_table rows" "n = length rows"
    unfolding P by (auto simp: bindR_eq_Inr)
  have "flash_row w (whole_lines txt ! i) = Inr (rows ! i)" using mapR_Inr [OF r(1)] a(2) r(3) by simp
  moreover have "point_has_label (fs\<lparr>fs_label_offsets := la_offsets la, fs_label_counts := la_counts la, fs_labels := la_labels la\<rparr>) i l
      = Inr (l \<in> set (rows ! i))"
    by (rule point_has_row_label) (use a(2) r in \<open>simp_all add: label_table_def\<close>)
  ultimately show "\<exists>row. flash_row w (whole_lines txt ! i) = Inr row
      \<and> point_has_label (fs\<lparr>fs_label_offsets := la_offsets la, fs_label_counts := la_counts la, fs_labels := la_labels la\<rparr>) i l = Inr (l \<in> set row)"
    by blast
qed

text \<open>A file of two points with the labels 7 and 3, and 5, and a third line that no newline ends.\<close>

lemma flash_label_arrays_witness:
  "\<exists>la. parse_flash_labels 32 (''7,3'' @ [newline] @ ''5'' @ [newline] @ ''9'') = Inr (la, 2) \<and> la_labels la = [7, 3, 5]
     \<and> point_has_label (one_point_index\<lparr>fs_label_offsets := la_offsets la, fs_label_counts := la_counts la, fs_labels := la_labels la\<rparr>) 1 5 = Inr True"
proof -
  let ?t = "''7,3'' @ [newline] @ ''5'' @ [newline] @ ''9''"
  have w: "whole_lines ?t = [''7,3'', ''5'']" by (simp add: whole_lines.simps)
  have r: "flash_row 32 ''7,3'' = Inr [7, 3]" "flash_row 32 ''5'' = Inr [5]"
    by (simp_all add: flash_row_def read_label_def stoul_def is_space_def is_digit_def read_digits_def digit_val_def Let_def)
  have "length ?t < 2 ^ 32" by simp
  note T = flash_label_arrays [OF this, of 32]
  have p: "parse_flash_labels 32 ?t = Inr (label_table [[7, 3], [5]], 2)"
    using T [THEN conjunct1] r unfolding w by (simp add: numeral_2_eq_2)
  have "\<exists>row. flash_row 32 (whole_lines ?t ! 1) = Inr row \<and> point_has_label (one_point_index\<lparr>fs_label_offsets := la_offsets (label_table [[7, 3], [5]]),
      fs_label_counts := la_counts (label_table [[7, 3], [5]]), fs_labels := la_labels (label_table [[7, 3], [5]])\<rparr>) 1 5 = Inr (5 \<in> set row)"
    by (rule T [THEN conjunct2, rule_format, OF p]) simp
  then show ?thesis using p r unfolding w by (intro exI [of _ "label_table [[7, 3], [5]]"]) (auto simp: label_table_def)
qed

section \<open>The other label files\<close>

text \<open>Label, tab, number on each line; without a tab the second \<^verbatim>\<open>getline\<close> leaves the label in the token.\<close>

definition flash_label_map :: "nat \<Rightarrow> string \<Rightarrow> (string \<rightharpoonup> nat) result" where
  "flash_label_map w map_reader =
     foldR (\<lambda>line mp.
       let label_str = takeWhile (\<lambda>c. c \<noteq> tab) line; rest = dropWhile (\<lambda>c. c \<noteq> tab) line;
           token = (if rest = [] then label_str else takeWhile (\<lambda>c. c \<noteq> tab) (tl rest))
       in bindR (stoul token) (\<lambda>v. Inr (mp(label_str \<mapsto> v mod 2 ^ w)))) (getlines newline map_reader) Map.empty"

definition converted_label :: "(string \<rightharpoonup> nat) \<Rightarrow> 'a flash_search \<Rightarrow> string \<Rightarrow> nat result" where
  "converted_label label_map fs filter_label =
     (if label_map filter_label \<noteq> None then Inr (the (label_map filter_label))
      else if fs_use_universal fs then Inr (fs_universal fs)
      else Inl (ANNException ''Unable to find label in the Label Map''))"

text \<open>A line without a token leaves the label, or the dummy and real number, uninitialised.\<close>

definition read_medoids_line :: "nat \<Rightarrow> string \<Rightarrow> (nat \<Rightarrow> nat list option) \<Rightarrow> (nat \<Rightarrow> nat list option) result" where
  "read_medoids_line w line m =
     bindR (mapR stoul (getlines comma line)) (\<lambda>vs. case vs of [] \<Rightarrow> Inl UndefinedBehaviour
       | label # medoids \<Rightarrow> Inr (m(label mod 2 ^ w \<mapsto> map u32 medoids)))"

record dummy_maps =
  dm_dummies :: "nat set"
  dm_has_dummy :: "nat set"
  dm_to_real :: "nat \<Rightarrow> nat option"
  dm_to_dummies :: "nat \<Rightarrow> nat list option"

definition no_dummies :: dummy_maps where
  "no_dummies = \<lparr>dm_dummies = {}, dm_has_dummy = {}, dm_to_real = Map.empty, dm_to_dummies = Map.empty\<rparr>"

definition read_dummy_line :: "string \<Rightarrow> dummy_maps \<Rightarrow> dummy_maps result" where
  "read_dummy_line line dm =
     bindR (mapR stoul (getlines comma line)) (\<lambda>vs.
     if length vs < 2 then Inl UndefinedBehaviour
     else let dummy_id = u32 (hd vs); real_id = u32 (last vs);
              dummies = (case dm_to_dummies dm real_id of None \<Rightarrow> [] | Some ds \<Rightarrow> ds)
          in Inr \<lparr>dm_dummies = insert dummy_id (dm_dummies dm), dm_has_dummy = insert real_id (dm_has_dummy dm),
                  dm_to_real = (dm_to_real dm)(dummy_id \<mapsto> real_id), dm_to_dummies = (dm_to_dummies dm)(real_id \<mapsto> dummies @ [dummy_id])\<rparr>)"

section \<open>Loading\<close>

record flash_files =
  ff_pivots :: "byte list"
  ff_rotation :: "byte list option"
  ff_compressed :: "byte list"
  ff_disk :: "byte list"
  ff_disk_pivots :: "byte list option"
  ff_disk_rotation :: "byte list option"
  ff_medoids :: "byte list option"
  ff_centroids :: "byte list option"
  ff_norm :: "byte list option"
  ff_labels :: "string option"
  ff_labels_map :: "string option"
  ff_label_medoids :: "string option"
  ff_universal :: "string option"
  ff_dummy_map :: "string option"

text \<open>
  The files that only matter when there is a label file. The number of points of the label file is compared with that of
  the index by an \<^verbatim>\<open>assert\<close> only, which is off in a release build. The universal label is one word.
\<close>

definition load_flash_labels ::
  "nat \<Rightarrow> flash_files \<Rightarrow> 'a flash_search \<Rightarrow> ('a flash_search \<times> (string \<rightharpoonup> nat) \<times> dummy_maps) result" where
  "load_flash_labels w files fs =
     (case ff_labels files of None \<Rightarrow> Inr (fs, Map.empty, no_dummies)
      | Some infile \<Rightarrow>
          bindR (parse_flash_labels w infile) (\<lambda>(la, num_points_labels).
          bindR (flash_label_map w (case ff_labels_map files of None \<Rightarrow> [] | Some t \<Rightarrow> t)) (\<lambda>label_map.
          bindR (case ff_label_medoids files of None \<Rightarrow> Inr (fs_filter_medoids fs)
                 | Some t \<Rightarrow> foldR (read_medoids_line w) (getlines newline t) Map.empty) (\<lambda>medoids.
          bindR (case ff_universal files of None \<Rightarrow> Inr (fs_use_universal fs, fs_universal fs)
                 | Some t \<Rightarrow> bindR (stoul (takeWhile (\<lambda>c. \<not> is_space c) (dropWhile is_space t))) (\<lambda>v. Inr (True, v mod 2 ^ w))) (\<lambda>(use_universal, universal).
          bindR (case ff_dummy_map files of None \<Rightarrow> Inr no_dummies
                 | Some t \<Rightarrow> foldR read_dummy_line (getlines newline t) no_dummies) (\<lambda>dm.
            Inr (fs\<lparr>fs_label_offsets := la_offsets la, fs_label_counts := la_counts la, fs_labels := la_labels la,
                    fs_filter_medoids := medoids, fs_use_universal := use_universal, fs_universal := universal,
                    fs_dummy_to_real := dm_to_real dm\<rparr>, label_map, dm)))))))"

instantiation fl :: zero
begin

definition zero_fl :: fl where
  "zero_fl = Fin 0"

instance ..

end

definition u8_codec :: "nat codec" where
  "u8_codec = \<lparr>cd_size = 1, cd_enc = le_bytes 1, cd_dec = le_value\<rparr>"

text \<open>The medoids, or the start point of the layout, with their centroids.\<close>

definition load_medoids :: "fl codec \<Rightarrow> flash_files \<Rightarrow> ('a::zero) flash_search \<Rightarrow> 'a flash_search result" where
  "load_medoids F files fs =
     (case ff_medoids files of
        None \<Rightarrow> use_medoids_data_as_centroids (fs\<lparr>fs_medoids := [u32 (fi_medoid (fs_fi fs))]\<rparr>)
      | Some mf \<Rightarrow>
          bindR (load_bin u32_codec mf 0) (\<lambda>(medoids, num_medoids, tmp_dim).
          if tmp_dim \<noteq> 1 then Inl (ANNException ''Error loading medoids file. Expected bin format of m times 1 vector of uint32_t.'')
          else case ff_centroids files of
              None \<Rightarrow> use_medoids_data_as_centroids (fs\<lparr>fs_medoids := medoids\<rparr>)
            | Some cf \<Rightarrow>
                bindR (load_aligned_bin F cf) (\<lambda>(centroid_data, num_centroids, _, aligned_tmp_dim).
                if aligned_tmp_dim \<noteq> fs_aligned_dim fs \<or> num_centroids \<noteq> num_medoids
                then Inl (ANNException ''Error loading centroids data file.'')
                else Inr (fs\<lparr>fs_medoids := medoids, fs_centroids := centroid_data\<rparr>))))"

definition load_norm :: "fl codec \<Rightarrow> flash_files \<Rightarrow> 'a flash_search \<Rightarrow> 'a flash_search result" where
  "load_norm F files fs =
     (case ff_norm files of None \<Rightarrow> Inr fs
      | Some f \<Rightarrow> if fs_metric fs \<noteq> INNER_PRODUCT then Inr fs
          else bindR (load_bin F f 0) (\<lambda>(norm_val, _, _). bindR (vec_at norm_val 0) (\<lambda>v. Inr (fs\<lparr>fs_max_base_norm := v\<rparr>))))"

text \<open>The second table, when the coordinates in the layout are compressed too: it decides how many bytes a point has.\<close>

definition load_disk_pq :: "fl codec \<Rightarrow> flash_files \<Rightarrow> 'a flash_search \<Rightarrow> ('a flash_search \<times> nat) result" where
  "load_disk_pq F files fs =
     (case ff_disk_pivots files of None \<Rightarrow> Inr (fs, fs_data_dim fs * cd_size (fs_codec fs))
      | Some f \<Rightarrow> bindR (load_pq_centroid_bin F f (ff_disk_rotation files) 0 (fs_disk_pq fs)) (\<lambda>pt.
          Inr (fs\<lparr>fs_use_disk_pq := True, fs_disk_pq := pt\<rparr>, get_num_chunks pt)))"

text \<open>\<open>None\<close> is the return value -1, after which the object is not usable.\<close>

definition load_from_separate_paths ::
  "fl codec \<Rightarrow> nat \<Rightarrow> flash_files \<Rightarrow> ('a::zero) flash_search \<Rightarrow> ('a flash_search \<times> (string \<rightharpoonup> nat) \<times> dummy_maps) option result" where
  "load_from_separate_paths F w files fs0 =
     bindR (get_bin_metadata (ff_pivots files) METADATA_SIZE) (\<lambda>(pq_file_num_centroids, pq_file_dim).
     if pq_file_num_centroids \<noteq> 256 then Inr None
     else bindR (load_bin u8_codec (ff_compressed files) 0) (\<lambda>(codes, npts, nchunks).
     bindR (load_flash_labels w files (fs0\<lparr>fs_data_dim := pq_file_dim, fs_aligned_dim := round_up pq_file_dim 8,
         fs_data := codes, fs_n_chunks := nchunks\<rparr>)) (\<lambda>(fs1, label_map, dm).
     bindR (load_pq_centroid_bin F (ff_pivots files) (ff_rotation files) nchunks (fs_pq fs1)) (\<lambda>pq.
     if MAX_PQ_CHUNKS < nchunks then Inl (ANNException ''Error loading index. Ensure that max PQ bytes for in-memory PQ data does not exceed'')
     else bindR (load_disk_pq F files (fs1\<lparr>fs_pq := pq\<rparr>)) (\<lambda>(fs2, disk_bytes).
     bindR (load_disk_metadata disk_bytes npts (fs_use_disk_pq fs2) (ff_disk files)) (\<lambda>m. case m of None \<Rightarrow> Inr None
     | Some fi \<Rightarrow>
         bindR (load_medoids F files (fs2\<lparr>fs_fi := fi, fs_file := ff_disk files\<rparr>)) (\<lambda>fs3.
         bindR (load_norm F files fs3) (\<lambda>fs4. Inr (Some (fs4, label_map, dm))))))))))"

text \<open>
  The constructor: the distances are those of the metric, or of L2 for floating-point data, and everything else has the initial
  value of its declaration. Each thread gets a scratch space, whose addresses are \<open>scratches\<close>.
\<close>

definition metric_to_invoke :: "bool \<Rightarrow> metric \<Rightarrow> metric" where
  "metric_to_invoke floating m = (if (m = COSINE \<or> m = INNER_PRODUCT) \<and> floating then L2 else m)"

definition flash_make ::
  "'a codec \<Rightarrow> ('a \<Rightarrow> fl) \<Rightarrow> (fl \<Rightarrow> 'a) \<Rightarrow> (fl \<Rightarrow> fl) \<Rightarrow> (metric \<Rightarrow> 'a list \<Rightarrow> 'a list \<Rightarrow> fl) \<Rightarrow> (metric \<Rightarrow> fl list \<Rightarrow> fl list \<Rightarrow> fl)
     \<Rightarrow> bool \<Rightarrow> metric \<Rightarrow> 'a flash_search" where
  "flash_make C to_float of_float sqrt_fn distance_fn distance_float floating m =
     \<lparr>fs_fi = \<lparr>fi_num_points = 0, fi_disk_bytes = 0, fi_medoid = 0, fi_max_node_len = 0, fi_nnodes_per_sector = 0, fi_max_degree = 0,
        fi_num_frozen = 0, fi_frozen_location = 0, fi_reorder = None\<rparr>,
      fs_file = [], fs_codec = C, fs_to_float = to_float, fs_of_float = of_float, fs_sqrt = sqrt_fn,
      fs_compare = distance_fn (metric_to_invoke floating m), fs_compare_float = distance_float (metric_to_invoke floating m), fs_metric = m,
      fs_data_dim = 0, fs_aligned_dim = 0, fs_pq = pt_make, fs_data = [], fs_n_chunks = 0, fs_use_disk_pq = False, fs_disk_pq = pt_make,
      fs_medoids = [], fs_centroids = [], fs_nhood_cache = Map.empty, fs_coord_cache = Map.empty, fs_dummy_to_real = Map.empty,
      fs_filter_medoids = Map.empty, fs_label_offsets = [], fs_label_counts = [], fs_labels = [], fs_use_universal = False, fs_universal = 0,
      fs_max_base_norm = Fin 0, fs_count_visited = False\<rparr>"

definition setup_thread_data :: "nat list \<Rightarrow> nat ptr_cq \<Rightarrow> nat ptr_cq" where
  "setup_thread_data scratches thread_data = fold (\<lambda>data q. pq_give q data) scratches thread_data"

definition get_pq_vector :: "'a flash_search \<Rightarrow> nat \<Rightarrow> nat list result" where
  "get_pq_vector fs vid = mem_get (fs_data fs) (vid * fs_n_chunks fs) (fs_n_chunks fs)"

section \<open>Opening what the build wrote\<close>

lemma load_bin_metadata:
  assumes "load_bin C file o1 = Inr (xs, n, d)" "n < 2 ^ 31" "d < 2 ^ 31"
  shows "get_bin_metadata file o1 = Inr (n, d)"
  using assms by (auto simp: load_bin_def get_bin_metadata_def sext64_def bindR_eq_Inr)

lemma load_saved_pivots:
  assumes cod: "codec_on F (set pivots \<union> set centroid)" "cd_size F = 4"
    and len: "length pivots = 256 * dims" "length centroid = dims" "length offsets = chunks + 1"
    and b: "dims < 2 ^ 31" "chunks < 2 ^ 31" "set offsets \<subseteq> {..<2 ^ 32}"
    and sp: "save_pivots F [] pivots centroid offsets 256 dims = Inr file" and given: "num_chunks = chunks \<or> num_chunks = 0"
  shows "get_bin_metadata file METADATA_SIZE = Inr (256, dims)"
    "load_pq_centroid_bin F file None num_chunks pt = Inr (pt\<lparr>pt_tables := pivots, pt_ndims := dims, pt_centroid := centroid,
       pt_chunk_offsets := offsets, pt_n_chunks := chunks, pt_tables_tr := transpose_tables dims pivots\<rparr>)"
proof -
  have "length offsets < 2 ^ 32" using len(3) b(2) by simp
  then obtain b1 b2 b3 where L: "load_bin u64_codec file 0 = Inr ([METADATA_SIZE, b1, b2, b3], 4, 1)" "load_bin F file METADATA_SIZE = Inr (pivots, 256, dims)"
     "load_bin F file b1 = Inr (centroid, dims, 1)" "load_bin u32_codec file b2 = Inr (offsets, length offsets, 1)"
    using save_pivots_file [OF cod len(1,2) order_refl b(1) _ b(3)] sp by auto
  show "get_bin_metadata file METADATA_SIZE = Inr (256, dims)" by (rule load_bin_metadata [OF L(2)]) (use b in simp_all)
  have "(chunks + 1 + 2 ^ 64 - 1) mod 2 ^ 64 = chunks" using b(2) by simp
  then show "load_pq_centroid_bin F file None num_chunks pt = Inr (pt\<lparr>pt_tables := pivots, pt_ndims := dims, pt_centroid := centroid,
       pt_chunk_offsets := offsets, pt_n_chunks := chunks, pt_tables_tr := transpose_tables dims pivots\<rparr>)"
    unfolding load_pq_centroid_bin_def L bindR_simps prod.case using given L(2-4) len(3)
    by (auto simp: NUM_PQ_CENTROIDS_def load_rotation_def)
qed

lemma load_codes:
  assumes "length codes = n * k" "set codes \<subseteq> {..<256}" "n < 2 ^ 32" "k < 2 ^ 32"
  shows "load_bin u8_codec (bin_header n k @ codes) 0 = Inr (codes, n, k)"
proof -
  have e: "elems_bytes u8_codec codes = codes" using assms(2) by (induction codes) (simp_all add: elems_bytes_def u8_codec_def)
  have "codec_on u8_codec (set codes)" using assms(2) by (auto simp: codec_on_def u8_codec_def)
  from load_bin_at [OF _ this assms(1,3,4), of 0 _ "[]"] show ?thesis by (simp add: e)
qed

text \<open>The bytes of one vector of a base file.\<close>

lemma elems_bytes_append: "elems_bytes C (xs @ ys) = elems_bytes C xs @ elems_bytes C ys"
  by (simp add: elems_bytes_def)

lemma vector_bytes:
  assumes C: "codec_ok C" and i: "i < n" and data: "length data = n * d"
  shows "take (d * cd_size C) (drop (i * (d * cd_size C)) (elems_bytes C data)) = elems_bytes C (take d (drop (i * d) data))"
proof -
  have "(i + 1) * d \<le> n * d" using i by (intro mult_le_mono) auto
  then have len: "length (take (i * d) data) = i * d" "length (take d (drop (i * d) data)) = d" using data by simp_all
  have "data = take (i * d) data @ take d (drop (i * d) data) @ drop d (drop (i * d) data)" by (metis append_take_drop_id)
  then have "elems_bytes C data = elems_bytes C (take (i * d) data) @ elems_bytes C (take d (drop (i * d) data)) @ elems_bytes C (drop d (drop (i * d) data))"
    by (metis elems_bytes_append)
  moreover have "length (elems_bytes C (take (i * d) data)) = i * (d * cd_size C)" "length (elems_bytes C (take d (drop (i * d) data))) = d * cd_size C"
    using length_elems_bytes [OF C] len by (simp_all add: mult.assoc)
  ultimately show ?thesis by simp
qed

lemma medoid_row_ok:
  assumes C: "codec_ok (fs_codec fs)" and nd: "read_node (fs_fi fs) (fs_file fs) m = Inr (elems_bytes (fs_codec fs) v, ns)"
    and fs: "\<not> fs_use_disk_pq fs" "fi_disk_bytes (fs_fi fs) = length v * cd_size (fs_codec fs)" "fs_data_dim fs = length v" "length v \<le> fs_aligned_dim fs"
  shows "medoid_row fs m = Inr (map (fs_to_float fs) v @ replicate (fs_aligned_dim fs - length v) (Fin 0))"
proof -
  obtain buf where buf: "read_sectors (fs_fi fs) (fs_file fs) m = Inr buf" "node_coords (fs_fi fs) buf m = Inr (elems_bytes (fs_codec fs) v)"
    using nd by (auto simp: read_node_def bindR_eq_Inr)
  show ?thesis using buf fs split_elems_bytes [OF C, of v] by (simp add: medoid_row_def flip: map_map)
qed

definition built_files :: "byte list \<Rightarrow> byte list \<Rightarrow> byte list \<Rightarrow> flash_files" where
  "built_files pivots compressed disk = \<lparr>ff_pivots = pivots, ff_rotation = None, ff_compressed = compressed, ff_disk = disk,
     ff_disk_pivots = None, ff_disk_rotation = None, ff_medoids = None, ff_centroids = None, ff_norm = None, ff_labels = None,
     ff_labels_map = None, ff_label_medoids = None, ff_universal = None, ff_dummy_map = None\<rparr>"

lemma round_up_ge: "0 < y \<Longrightarrow> x \<le> round_up x y"
  using div_round_up_ge [of y x] by (simp add: round_up_def div_round_up_def)

lemma load_built:
  assumes P: "get_bin_metadata pivots METADATA_SIZE = Inr (256, d)" "load_pq_centroid_bin F pivots None k (fs_pq fs0) = Inr pq"
    and K: "load_bin u8_codec compressed 0 = Inr (codes, n, k)" "k \<le> MAX_PQ_CHUNKS"
    and M: "load_disk_metadata (d * cd_size (fs_codec fs0)) n (fs_use_disk_pq fs0) disk = Inr (Some fi)"
    and R: "medoid_row (fs0\<lparr>fs_data_dim := d, fs_aligned_dim := round_up d 8, fs_data := codes, fs_n_chunks := k, fs_pq := pq,
        fs_fi := fi, fs_file := disk, fs_medoids := [u32 (fi_medoid fi)]\<rparr>) (u32 (fi_medoid fi)) = Inr row"
  shows "load_from_separate_paths F w (built_files pivots compressed disk) fs0 = Inr (Some (fs0\<lparr>fs_data_dim := d,
     fs_aligned_dim := round_up d 8, fs_data := codes, fs_n_chunks := k, fs_pq := pq, fs_fi := fi, fs_file := disk,
     fs_medoids := [u32 (fi_medoid fi)], fs_centroids := row\<rparr>, Map.empty, no_dummies))"
  using assms by (simp add: load_from_separate_paths_def built_files_def load_flash_labels_def load_disk_pq_def load_medoids_def load_norm_def
      use_medoids_data_as_centroids_def)



end
