(* ===== verification/Spec2Isabelle.thy ===== *)
theory Spec2Isabelle
  imports Neighbor_Queue Natural_Number_Map Scratch_Pool Graph_Store Cached_IO Bin_IO Data_Store Mcgi Search
    Labels Prune Index_State Build Update Dynamic Compact Round_Trip Query Disk_Layout Beam_Search Disk_Build
    Flash_Cache Flash_Load Kmeans Merge_Shards Partition Pq_Table Pq_Train
begin

text \<open>
  AdaDisk is a DiskANN-based index for nearest-neighbour search. This development models the C++ core under
  \<^verbatim>\<open>src/\<close> and \<^verbatim>\<open>include/\<close> and proves it correct; every definition follows the named code branch by branch.

  The program. An \<^verbatim>\<open>Index\<close> (\<^verbatim>\<open>src/index.cpp\<close>) holds vectors in a data store (\<^verbatim>\<open>InMemDataStore\<close>), a directed
  graph over their locations in a graph store (\<^verbatim>\<open>InMemGraphStore\<close>), and the book-keeping of locations: a map from location to
  tag and back, the free locations, the lazily deleted ones. Frozen points occupy the locations from \<^verbatim>\<open>_max_points\<close> on and
  serve as start points. A search walks the graph greedily with a bounded candidate list
  (\<^verbatim>\<open>NeighborPriorityQueue\<close>); building or inserting a point searches for it, prunes the visited points to a small
  neighbour list (with a per-node alpha from \<^verbatim>\<open>hpdic_mcgi\<close>) and adds reverse edges; consolidation rewires around deleted points,
  and compaction renumbers the live ones. Every operation takes a scratch space from a shared pool. The index is saved to and loaded from
  binary files; the disk layout packs vectors and lists into sectors which \<^verbatim>\<open>PQFlashIndex\<close> reads back.

  Conventions (\<^verbatim>\<open>Prelude\<close>, \<^verbatim>\<open>Floats\<close>). A C++ operation that may fail returns a sum: \<^verbatim>\<open>Inl\<close> an exception, a stream failure, an
  out-of-range access (\<^verbatim>\<open>UndefinedBehaviour\<close>) or exhausted fuel, \<^verbatim>\<open>Inr\<close> the value. When an exception leaves an operation the state
  is dropped. Unsigned 32-bit and 64-bit values are naturals with the wrap-around written out where it can happen; sizes that
  cannot reach it are naturals. \<^verbatim>\<open>float\<close> and \<^verbatim>\<open>double\<close> values are exact rationals rounded after each operation as IEEE 754 says, in the
  order of the source (a build with \<^verbatim>\<open>-Ofast\<close> may reorder sums).
  Files are byte lists. Parallel OpenMP loops run in the order of their loop variable; locks only serialise and are dropped, except in the
  scratch pool, where the threads are a step relation.

  The theories.
  \<^item> \<^verbatim>\<open>Neighbor_Queue\<close> (\<^verbatim>\<open>include/neighbor.h\<close>): \<^verbatim>\<open>npq_insert\<close>, \<^verbatim>\<open>npq_closest_unexpanded\<close> and the rest of the class; \<^verbatim>\<open>npq_inv\<close>
    (sorted by distance and id, within the capacity, cursor on the first unexpanded entry) is kept, and the queue is the \<^verbatim>\<open>L\<close> nearest of all
    insertions. Locale \<^verbatim>\<open>candidate_list\<close> is the interface the searches use.
  \<^item> \<^verbatim>\<open>Natural_Number_Map\<close> (\<^verbatim>\<open>natural_number_map.cpp\<close>, \<^verbatim>\<open>natural_number_set.cpp\<close>): both classes over a bitset; they implement a finite map and a
    pool of free slots (locales \<^verbatim>\<open>key_map\<close>, \<^verbatim>\<open>slot_pool\<close>).
  \<^item> \<^verbatim>\<open>Scratch_Pool\<close> (\<^verbatim>\<open>concurrent_queue.h\<close>, \<^verbatim>\<open>scratch.h\<close>): scratch spaces and their queue; no two threads ever hold
    the same space, none is lost, and all are handed out cleared.
  \<^item> \<^verbatim>\<open>Graph_Store\<close> (\<^verbatim>\<open>in_mem_graph_store.cpp\<close>): adjacency lists, their degree bounds, the graph file and its round trip
    (locale \<^verbatim>\<open>adjacency\<close>).
  \<^item> \<^verbatim>\<open>Cached_IO\<close> (\<^verbatim>\<open>include/cached_io.h\<close>): the block caches behave as the plain file (locales \<^verbatim>\<open>byte_source\<close>, \<^verbatim>\<open>byte_sink\<close>).
  \<^item> \<^verbatim>\<open>Bin_IO\<close> (\<^verbatim>\<open>include/utils.h\<close>): the bin files, aligned rows, truth sets; what is saved is loaded.
  \<^item> \<^verbatim>\<open>Data_Store\<close> (\<^verbatim>\<open>in_mem_data_store.cpp\<close>): rows of one flat buffer, moves that may overlap, the medoid, files
    (locale \<^verbatim>\<open>vector_store\<close>).
  \<^item> \<^verbatim>\<open>Mcgi\<close> (\<^verbatim>\<open>hpdic_mcgi.cpp\<close>): the LID file and the alpha of a node, which stays in the configured range.
  \<^item> \<^verbatim>\<open>Search\<close> (\<^verbatim>\<open>Index::iterate_to_fixed_point\<close>): the search ends, expands no point twice, and stops at a local optimum of the graph.
  \<^item> \<^verbatim>\<open>Prune\<close> (\<^verbatim>\<open>Index::occlude_list\<close>, \<^verbatim>\<open>Index::prune_neighbors\<close>): the loop over alpha ends, the result is a bounded selection of the pool.
  \<^item> \<^verbatim>\<open>Labels\<close> (\<^verbatim>\<open>index.cpp\<close>): label files and maps, common labels, a start point per label.
  \<^item> \<^verbatim>\<open>Index_State\<close>: the record of \<^verbatim>\<open>Index\<close> and its locations; \<^verbatim>\<open>book_inv\<close> says that every location is live, deleted or free, and the
    operations refine a finite map between tags and locations.
  \<^item> \<^verbatim>\<open>Build\<close> (\<^verbatim>\<open>link\<close>, \<^verbatim>\<open>inter_insert\<close>, \<^verbatim>\<open>build\<close>): degrees stay bounded.
  \<^item> \<^verbatim>\<open>Update\<close> and \<^verbatim>\<open>Dynamic\<close> (\<^verbatim>\<open>insert_point\<close>, \<^verbatim>\<open>lazy_delete\<close>, \<^verbatim>\<open>consolidate_deletes\<close>): any run of updates implements a map from tags to vectors.
  \<^item> \<^verbatim>\<open>Compact\<close> (\<^verbatim>\<open>reposition_points\<close>, \<^verbatim>\<open>compact_data\<close>, \<^verbatim>\<open>resize\<close>): compaction is a renaming of the locations.
  \<^item> \<^verbatim>\<open>Save_Load\<close> and \<^verbatim>\<open>Round_Trip\<close> (\<^verbatim>\<open>Index::save\<close>, \<^verbatim>\<open>Index::load\<close>): a loaded index has the tags, vectors and neighbours of the saved one.
  \<^item> \<^verbatim>\<open>Query\<close> (\<^verbatim>\<open>search\<close>, \<^verbatim>\<open>search_with_filters\<close>, \<^verbatim>\<open>search_with_tags\<close>): what the output buffers hold.
  \<^item> \<^verbatim>\<open>Disk_Layout\<close> (\<^verbatim>\<open>create_disk_layout\<close>, \<^verbatim>\<open>PQFlashIndex::read_nodes\<close>): what the layout writes the reader finds.
  \<^item> \<^verbatim>\<open>Pq_Table\<close> (\<^verbatim>\<open>src/pq.cpp\<close>, \<^verbatim>\<open>FixedChunkPQTable\<close>): loading the pivots, preparing a query, table look-ups; the sum of look-ups is the distance
    to the reconstructed vector.
  \<^item> \<^verbatim>\<open>Pq_Train\<close> (\<^verbatim>\<open>src/pq.cpp\<close>): training of the pivots (plain, rotated, simplified) and compression; every code is a nearest pivot of its chunk, the
    pivot file is read back as written, and chunks differ by at most one dimension.
  \<^item> \<^verbatim>\<open>Kmeans\<close> (\<^verbatim>\<open>src/math_utils.cpp\<close>): nearest centers, Lloyd's iterations, k-means++; an iteration moves every center to the mean of its points.
  \<^item> \<^verbatim>\<open>Beam_Search\<close> (\<^verbatim>\<open>PQFlashIndex::cached_beam_search\<close>, \<^verbatim>\<open>range_search\<close>): the search over the disk index ends, expands no node twice, and what it
    returns are its best full-precision distances.
  \<^item> \<^verbatim>\<open>Flash_Cache\<close> (\<^verbatim>\<open>load_cache_list\<close>, \<^verbatim>\<open>cache_bfs_levels\<close> and the other caches of \<^verbatim>\<open>src/pq_flash_index.cpp\<close>): a cached node is the node on disk.
  \<^item> \<^verbatim>\<open>Flash_Load\<close> (\<^verbatim>\<open>load_from_separate_paths\<close> and the label parsers of \<^verbatim>\<open>src/pq_flash_index.cpp\<close>): what the build writes the disk index opens;
    its label arrays are the lines of the label file.
  \<^item> \<^verbatim>\<open>Partition\<close> (\<^verbatim>\<open>src/partition.cpp\<close>): random slices, sharding, choice of the number of parts; every point is in exactly \<^verbatim>\<open>k_base\<close> shards and the id maps ascend.
  \<^item> \<^verbatim>\<open>Merge_Shards\<close> (\<^verbatim>\<open>merge_shards\<close> of \<^verbatim>\<open>src/disk_utils.cpp\<close>): the merged graph file holds for every node the union of its renamed lists, cut to the degree bound.
  \<^item> \<^verbatim>\<open>Disk_Build\<close> (the rest of \<^verbatim>\<open>src/disk_utils.cpp\<close>): appending to an index file, budgets, warm-up data, splitting points with many labels,
    beam width; what the partition writes is input the merge accepts.
  Bounds and fuel. \<^verbatim>\<open>expand_loop\<close> gets one unit of fuel more than there are locations; each round expands a new one, so it suffices. \<^verbatim>\<open>occlude_rounds\<close>
  gets 1100 rounds: alpha grows by at least 1.1 a round and 1.1 to the power 1100 exceeds the largest float, so they suffice for every finite alpha
  (an infinite alpha makes the code loop for ever). The beam search gets one unit more than there are points, the breadth-first
  search of the caches one more than its budget, the tuning of the beam width 65 (the width grows every round and stops above 64); each is proved to suffice.
  The darts of k-means++ and the attempts of the partition depend on random numbers and on the data, and their fuel is a parameter. No other loop of the model needs fuel.

  Parameters. The distance functor, BLAS and LAPACK, random numbers and shuffles, measured times, the order of threads in critical sections, the C library's \<^verbatim>\<open>exp\<close>, \<^verbatim>\<open>log\<close> and \<^verbatim>\<open>sqrt\<close>, \<^verbatim>\<open>rand\<close>, the order in which hash containers are iterated, and
  uninitialised memory are arguments of the definitions that use them.

  Not modelled: the Windows and \<^verbatim>\<open>EXEC_ENV_OLS\<close> branches, the SIMD bodies of the distance functions, timing,
  logging and printing, type-erased wrappers (they only cast their arguments), the vendored containers, and the components the manifest
  lists as not modelled.
\<close>

end
